(* ===== verification/Osc_Prelude.thy ===== *)
theory Osc_Prelude
  imports Main "HOL-Library.Word" "HOL-Library.Monad_Syntax"
begin

text \<open>
  Shared vocabulary of the development: the machine-integer types of the Rust sources, checked
  slice access (\<open>slice.get\<close>), slice update (\<open>copy_from_slice\<close> into a sub-range), the
  little-endian conversions of \<open>u16\<close> and \<open>u32\<close>, Rust's saturating addition, and the rewrite
  collections the component theories use.

  \<open>usize\<close> is modelled by \<^typ>\<open>nat\<close>: every length and offset of the code is bounded by a
  buffer length, so no \<open>usize\<close> expression of the modelled code can wrap, and the checked
  additions and subtractions of the source are the \<open>None\<close> branches below.
\<close>

unbundle bit_operations_syntax

type_synonym u8 = "8 word"
type_synonym u16 = "16 word"
type_synonym u32 = "32 word"
type_synonym bytes = "u8 list"

named_theorems osc_view \<open>byte views and slices reduced to list operations\<close>
named_theorems osc_const \<open>numeric constants of the sources\<close>

subsection \<open>Bitwise extensionality at the widths of the code\<close>

lemma all_less_8: "(\<forall>n<(8::nat). P n) = (P 0 \<and> P 1 \<and> P 2 \<and> P 3 \<and> P 4 \<and> P 5 \<and> P 6 \<and> P 7)"
  by (simp add: numeral_eq_Suc All_less_Suc conj_ac)

lemma all_less_16:
  "(\<forall>n<(16::nat). P n) = (P 0 \<and> P 1 \<and> P 2 \<and> P 3 \<and> P 4 \<and> P 5 \<and> P 6 \<and> P 7 \<and>
     P 8 \<and> P 9 \<and> P 10 \<and> P 11 \<and> P 12 \<and> P 13 \<and> P 14 \<and> P 15)"
  by (simp add: numeral_eq_Suc All_less_Suc conj_ac)

lemma word8_eqI: "(\<forall>n<8. bit (a::u8) n = bit b n) \<Longrightarrow> a = b"
  by (rule bit_word_eqI) simp

lemma word16_eqI: "(\<forall>n<16. bit (a::u16) n = bit b n) \<Longrightarrow> a = b"
  by (rule bit_word_eqI) simp

lemma word32_eqI: "(\<forall>n<32. bit (a::u32) n = bit b n) \<Longrightarrow> a = b"
  by (rule bit_word_eqI) simp

lemma unat_less_256: "unat (c :: u8) < 256"
  using unsigned_less [of c, where ?'a = nat] by simp

lemma unat_of_nat8: "n < 256 \<Longrightarrow> unat (of_nat n :: u8) = n"
  by (simp add: unat_of_nat take_bit_nat_eq_self)

lemma unat_of_nat32: "n < 2 ^ 32 \<Longrightarrow> unat (of_nat n :: u32) = n"
  by (simp add: unat_of_nat take_bit_nat_eq_self)

lemma u8_of_nat_eq: "m < 256 \<Longrightarrow> n < 256 \<Longrightarrow> ((of_nat m :: u8) = of_nat n) = (m = n)"
  by (metis unat_of_nat8)

lemma u8_ge_1: "(1 \<le> (n::u8)) = (n \<noteq> 0)"
  by (simp add: word_le_nat_alt Suc_le_eq unat_gt_0)

lemma u8_pred: "(n::u8) \<noteq> 0 \<Longrightarrow> unat (n - 1) = unat n - 1"
  by (simp add: unat_sub u8_ge_1)

lemma u8_pred_0: "(n::u8) \<noteq> 0 \<Longrightarrow> (n = 1) = (unat n = 1)"
  by (simp add: word_unat_eq_iff)

lemma length_3_ex: "length zs = 3 \<Longrightarrow> \<exists>a b c. zs = [a, b, c]"
  by (auto simp: numeral_eq_Suc length_Suc_conv)

lemma length_4_ex: "length zs = 4 \<Longrightarrow> \<exists>a b c d. zs = [a, b, c, d]"
  by (auto simp: numeral_eq_Suc length_Suc_conv)

subsection \<open>Checked slice access and slice update\<close>

definition nth_opt :: "'a list \<Rightarrow> nat \<Rightarrow> 'a option" where
  "nth_opt xs i = (if i < length xs then Some (xs ! i) else None)"

definition slice_opt :: "'a list \<Rightarrow> nat \<Rightarrow> nat \<Rightarrow> 'a list option" where
  "slice_opt xs a b = (if a \<le> b \<and> b \<le> length xs then Some (take (b - a) (drop a xs)) else None)"

definition put :: "nat \<Rightarrow> 'a list \<Rightarrow> 'a list \<Rightarrow> 'a list" where
  "put off ys xs = take off xs @ ys @ drop (off + length ys) xs"

primrec position :: "('a \<Rightarrow> bool) \<Rightarrow> 'a list \<Rightarrow> nat option" where
  "position P [] = None"
| "position P (x # xs) = (if P x then Some 0 else map_option Suc (position P xs))"

lemma nth_opt_None [simp]: "length xs \<le> i \<Longrightarrow> nth_opt xs i = None"
  by (simp add: nth_opt_def)

lemma nth_opt_Nil [simp]: "nth_opt [] i = None"
  by simp

lemma nth_opt_Cons_0 [simp]: "nth_opt (x # xs) 0 = Some x"
  by (simp add: nth_opt_def)

lemma nth_opt_Cons_Suc [simp]: "nth_opt (x # xs) (Suc i) = nth_opt xs i"
  by (simp add: nth_opt_def)

lemma nth_opt_Cons_numeral [simp]: "nth_opt (x # xs) (numeral k) = nth_opt xs (pred_numeral k)"
  by (simp add: nth_opt_def numeral_eq_Suc)

lemma nth_opt_Cons_one [simp]: "nth_opt (x # y # xs) 1 = Some y"
  by (simp add: nth_opt_def)

lemma nth_opt_append:
  "nth_opt (xs @ ys) i = (if i < length xs then nth_opt xs i else nth_opt ys (i - length xs))"
  by (auto simp: nth_opt_def nth_append)

lemma nth_opt_Some: "i < length xs \<Longrightarrow> nth_opt xs i = Some (xs ! i)"
  by (simp add: nth_opt_def)

lemma nth_opt_eq_Some_iff: "nth_opt xs i = Some x \<longleftrightarrow> i < length xs \<and> xs ! i = x"
  by (auto simp: nth_opt_def)

lemma nth_opt_eq_None_iff: "nth_opt xs i = None \<longleftrightarrow> length xs \<le> i"
  by (auto simp: nth_opt_def)

lemma nth_opt_take: "i < n \<Longrightarrow> nth_opt (take n xs) i = nth_opt xs i"
  by (auto simp: nth_opt_def)

lemma nth_opt_drop: "nth_opt (drop n xs) i = nth_opt xs (n + i)"
  by (auto simp: nth_opt_def)

lemma slice_opt_Some_iff:
  "slice_opt xs a b = Some ys \<longleftrightarrow> a \<le> b \<and> b \<le> length xs \<and> ys = take (b - a) (drop a xs)"
  by (auto simp: slice_opt_def)

lemma length_put [simp]: "off + length ys \<le> length xs \<Longrightarrow> length (put off ys xs) = length xs"
  by (simp add: put_def)

lemma put_Nil [simp]: "put off [] xs = xs"
  by (simp add: put_def)

lemma take_put_prefix [simp]: "n \<le> off \<Longrightarrow> off \<le> length xs \<Longrightarrow> take n (put off ys xs) = take n xs"
  by (simp add: put_def min_def)

lemma take_put_end:
  "off \<le> length xs \<Longrightarrow> n = off + length ys \<Longrightarrow> take n (put off ys xs) = take off xs @ ys"
  by (simp add: put_def)

lemma put_append:
  "off + length ys + length zs \<le> length xs \<Longrightarrow>
   put (off + length ys) zs (put off ys xs) = put off (ys @ zs) xs"
  by (simp add: put_def ac_simps)

lemma put_0_take: "length ys \<le> length xs \<Longrightarrow> take (length ys) (put 0 ys xs) = ys"
  by (simp add: put_def)

lemma position_Some_iff:
  "position P xs = Some i \<longleftrightarrow> i < length xs \<and> P (xs ! i) \<and> (\<forall>j<i. \<not> P (xs ! j))"
proof (induction xs arbitrary: i)
  case Nil
  then show ?case by simp
next
  case (Cons x xs)
  show ?case
  proof (cases i)
    case 0
    then show ?thesis by auto
  next
    case (Suc k)
    have "(\<forall>j<Suc k. \<not> P ((x # xs) ! j)) \<longleftrightarrow> \<not> P x \<and> (\<forall>j<k. \<not> P (xs ! j))"
      by (auto simp: less_Suc_eq_0_disj)
    with Suc show ?thesis by (auto simp: Cons.IH)
  qed
qed

lemma position_None_iff: "position P xs = None \<longleftrightarrow> (\<forall>x\<in>set xs. \<not> P x)"
  by (induction xs) auto

lemma position_less: "position P xs = Some i \<Longrightarrow> i < length xs"
  by (simp add: position_Some_iff)

subsection \<open>Little-endian conversions\<close>

definition le16 :: "u8 \<Rightarrow> u8 \<Rightarrow> u16" where
  "le16 lo hi = ucast lo OR push_bit 8 (ucast hi)"

definition le16_bytes :: "u16 \<Rightarrow> bytes" where
  "le16_bytes w = [ucast w, ucast (drop_bit 8 w)]"

definition le32 :: "u8 \<Rightarrow> u8 \<Rightarrow> u8 \<Rightarrow> u8 \<Rightarrow> u32" where
  "le32 a b c d =
     ucast a OR push_bit 8 (ucast b) OR push_bit 16 (ucast c) OR push_bit 24 (ucast d)"

definition le32_bytes :: "u32 \<Rightarrow> bytes" where
  "le32_bytes w = [ucast w, ucast (drop_bit 8 w), ucast (drop_bit 16 w), ucast (drop_bit 24 w)]"

lemma length_le16_bytes [simp]: "length (le16_bytes w) = 2"
  by (simp add: le16_bytes_def)

lemma length_le32_bytes [simp]: "length (le32_bytes w) = 4"
  by (simp add: le32_bytes_def)

lemma le16_of_bytes [simp]: "le16 (ucast w) (ucast (drop_bit 8 w)) = w"
  by (rule bit_word_eqI) (auto simp: le16_def bit_simps)

lemma le16_lo [simp]: "ucast (le16 lo hi) = lo"
  by (rule bit_word_eqI) (auto simp: le16_def bit_simps)

lemma le16_hi [simp]: "ucast (drop_bit 8 (le16 lo hi)) = hi"
  by (rule bit_word_eqI) (auto simp: le16_def bit_simps dest: bit_imp_le_length)

lemma le16_bytes_le16: "le16_bytes (le16 lo hi) = [lo, hi]"
  by (simp add: le16_bytes_def)

lemma le32_of_bytes [simp]:
  "le32 (ucast w) (ucast (drop_bit 8 w)) (ucast (drop_bit 16 w)) (ucast (drop_bit 24 w)) = w"
proof (rule bit_word_eqI)
  fix n assume "n < LENGTH(32)"
  then show "bit (le32 (ucast w) (ucast (drop_bit 8 w)) (ucast (drop_bit 16 w))
      (ucast (drop_bit 24 w))) n = bit w n"
    by (cases "n < 8"; cases "n < 16"; cases "n < 24") (auto simp: le32_def bit_simps)
qed

lemma le32_bytes_le32: "le32_bytes (le32 a b c d) = [a, b, c, d]"
proof -
  have "ucast (le32 a b c d) = a" "ucast (drop_bit 8 (le32 a b c d)) = b"
    "ucast (drop_bit 16 (le32 a b c d)) = c" "ucast (drop_bit 24 (le32 a b c d)) = d"
    by (rule bit_word_eqI; auto simp: le32_def bit_simps dest: bit_imp_le_length)+
  then show ?thesis by (simp add: le32_bytes_def)
qed

lemma le16_bytes_inject [simp]: "le16_bytes v = le16_bytes w \<longleftrightarrow> v = w"
proof
  assume "le16_bytes v = le16_bytes w"
  then have a: "(ucast v :: u8) = ucast w" and b: "(ucast (drop_bit 8 v) :: u8) = ucast (drop_bit 8 w)"
    by (simp_all add: le16_bytes_def)
  have "v = le16 (ucast v) (ucast (drop_bit 8 v))" by simp
  also have "\<dots> = w" unfolding a b by simp
  finally show "v = w" .
qed simp

lemma le32_bytes_inject [simp]: "le32_bytes v = le32_bytes w \<longleftrightarrow> v = w"
proof
  assume "le32_bytes v = le32_bytes w"
  then have a: "(ucast v :: u8) = ucast w" and b: "(ucast (drop_bit 8 v) :: u8) = ucast (drop_bit 8 w)"
    and c: "(ucast (drop_bit 16 v) :: u8) = ucast (drop_bit 16 w)"
    and d: "(ucast (drop_bit 24 v) :: u8) = ucast (drop_bit 24 w)"
    by (simp_all add: le32_bytes_def)
  have "v = le32 (ucast v) (ucast (drop_bit 8 v)) (ucast (drop_bit 16 v)) (ucast (drop_bit 24 v))"
    by simp
  also have "\<dots> = w" unfolding a b c d by simp
  finally show "v = w" .
qed simp

subsection \<open>Saturating addition\<close>

definition sat_add :: "'a::len word \<Rightarrow> 'a word \<Rightarrow> 'a word" where
  "sat_add a b = (if unat a + unat b < 2 ^ LENGTH('a) then a + b else - 1)"

lemma unat_sat_add:
  "unat (sat_add a b) = min (unat a + unat b) (2 ^ LENGTH('a) - 1)" for a b :: "'a::len word"
  by (auto simp: sat_add_def unat_word_ariths unsigned_minus_1_eq_mask mask_eq_exp_minus_1)

lemma unat_sat_add_Suc:
  "unat (sat_add a 1) = min (Suc (unat a)) (2 ^ LENGTH('a) - 1)" for a :: "'a::len word"
  by (cases "LENGTH('a) = 1") (simp_all add: unat_sat_add)

end
