(* ===== verification/Osc_Wire.thy ===== *)
theory Osc_Wire
  imports Osc_Prelude
begin

text \<open>
  Wire primitives of the osc-native protocol: \<open>osc-protocol/src/wire.rs\<close>, \<open>models.rs\<close> and the
  common register block of \<open>table.rs\<close>. The transparent newtypes \<open>Id\<close> and \<open>Inst\<close> are their
  bytes; every enum is a datatype with its \<open>as u8\<close> discriminant as a function.
\<close>

subsection \<open>Frame id\<close>

type_synonym frame_id = u8

definition Id_BROADCAST :: frame_id where [osc_const]: "Id_BROADCAST = 0xFE"

definition id_try_unicast :: "u8 \<Rightarrow> frame_id option" where
  "id_try_unicast b = (if 0x01 \<le> b \<and> b \<le> 0xF9 then Some b else None)"

definition id_is_broadcast :: "frame_id \<Rightarrow> bool" where
  "id_is_broadcast i \<longleftrightarrow> i = 0xFE"

definition id_is_unicast :: "frame_id \<Rightarrow> bool" where
  "id_is_unicast i \<longleftrightarrow> 0x01 \<le> i \<and> i \<le> 0xF9"

definition id_is_valid :: "frame_id \<Rightarrow> bool" where
  "id_is_valid i \<longleftrightarrow> id_is_unicast i \<or> id_is_broadcast i"

definition id_addresses :: "frame_id \<Rightarrow> frame_id \<Rightarrow> bool" where
  "id_addresses self other \<longleftrightarrow> id_is_broadcast self \<or> self = other"

subsection \<open>Baud rate\<close>

datatype baud_rate = B500000 | B1000000 | B2000000 | B3000000

definition baud_default :: baud_rate where "baud_default = B500000"

definition baud_RESCUE :: baud_rate where "baud_RESCUE = B500000"

fun baud_as_idx :: "baud_rate \<Rightarrow> u8" where
  "baud_as_idx B500000 = 0"
| "baud_as_idx B1000000 = 1"
| "baud_as_idx B2000000 = 2"
| "baud_as_idx B3000000 = 3"

fun baud_as_hz :: "baud_rate \<Rightarrow> u32" where
  "baud_as_hz B500000 = 500000"
| "baud_as_hz B1000000 = 1000000"
| "baud_as_hz B2000000 = 2000000"
| "baud_as_hz B3000000 = 3000000"

definition baud_from_idx :: "u8 \<Rightarrow> baud_rate option" where
  "baud_from_idx idx =
     (if idx = 0 then Some B500000 else if idx = 1 then Some B1000000
      else if idx = 2 then Some B2000000 else if idx = 3 then Some B3000000 else None)"

subsection \<open>Opcodes, result codes, management sub-operations\<close>

datatype opcode = OpPing | OpRead | OpWrite | OpCommit | OpGread | OpGwrite | OpMgmt

fun opcode_bits :: "opcode \<Rightarrow> u8" where
  "opcode_bits OpPing = 0x1"
| "opcode_bits OpRead = 0x2"
| "opcode_bits OpWrite = 0x3"
| "opcode_bits OpCommit = 0x4"
| "opcode_bits OpGread = 0x5"
| "opcode_bits OpGwrite = 0x6"
| "opcode_bits OpMgmt = 0x7"

definition opcode_from_bits :: "u8 \<Rightarrow> opcode option" where
  "opcode_from_bits b =
     (if b = 0x1 then Some OpPing else if b = 0x2 then Some OpRead
      else if b = 0x3 then Some OpWrite else if b = 0x4 then Some OpCommit
      else if b = 0x5 then Some OpGread else if b = 0x6 then Some OpGwrite
      else if b = 0x7 then Some OpMgmt else None)"

datatype result_code =
    RcOk | RcInstruction | RcRange | RcAccess | RcValidation | RcBusy | RcLimit
  | RcPredecessorSilent | RcHardware | RcUnauthenticated | RcSecurityLockout

fun result_bits :: "result_code \<Rightarrow> u8" where
  "result_bits RcOk = 0"
| "result_bits RcInstruction = 1"
| "result_bits RcRange = 2"
| "result_bits RcAccess = 3"
| "result_bits RcValidation = 4"
| "result_bits RcBusy = 5"
| "result_bits RcLimit = 6"
| "result_bits RcPredecessorSilent = 7"
| "result_bits RcHardware = 8"
| "result_bits RcUnauthenticated = 9"
| "result_bits RcSecurityLockout = 10"

definition result_from_bits :: "u8 \<Rightarrow> result_code option" where
  "result_from_bits b =
     (if b = 0 then Some RcOk else if b = 1 then Some RcInstruction
      else if b = 2 then Some RcRange else if b = 3 then Some RcAccess
      else if b = 4 then Some RcValidation else if b = 5 then Some RcBusy
      else if b = 6 then Some RcLimit else if b = 7 then Some RcPredecessorSilent
      else if b = 8 then Some RcHardware else if b = 9 then Some RcUnauthenticated
      else if b = 10 then Some RcSecurityLockout else None)"

datatype mgmt_op =
    MgmtEnum | MgmtAssign | MgmtSave | MgmtReboot | MgmtFactory | MgmtCal
  | MgmtSecInit | MgmtSecKey | MgmtSecAttest | MgmtSecRekey

fun mgmt_byte :: "mgmt_op \<Rightarrow> u8" where
  "mgmt_byte MgmtEnum = 0x01"
| "mgmt_byte MgmtAssign = 0x02"
| "mgmt_byte MgmtSave = 0x03"
| "mgmt_byte MgmtReboot = 0x04"
| "mgmt_byte MgmtFactory = 0x05"
| "mgmt_byte MgmtCal = 0x06"
| "mgmt_byte MgmtSecInit = 0x07"
| "mgmt_byte MgmtSecKey = 0x08"
| "mgmt_byte MgmtSecAttest = 0x09"
| "mgmt_byte MgmtSecRekey = 0x0A"

definition mgmt_from_byte :: "u8 \<Rightarrow> mgmt_op option" where
  "mgmt_from_byte b =
     (if b = 0x01 then Some MgmtEnum else if b = 0x02 then Some MgmtAssign
      else if b = 0x03 then Some MgmtSave else if b = 0x04 then Some MgmtReboot
      else if b = 0x05 then Some MgmtFactory else if b = 0x06 then Some MgmtCal
      else if b = 0x07 then Some MgmtSecInit else if b = 0x08 then Some MgmtSecKey
      else if b = 0x09 then Some MgmtSecAttest else if b = 0x0A then Some MgmtSecRekey
      else None)"

fun needs_quiet_window :: "mgmt_op \<Rightarrow> bool" where
  "needs_quiet_window MgmtSecInit = True"
| "needs_quiet_window MgmtSecKey = True"
| "needs_quiet_window MgmtSecAttest = True"
| "needs_quiet_window MgmtSecRekey = True"
| "needs_quiet_window _ = False"

subsection \<open>The packed \<open>INST\<close> byte\<close>

type_synonym inst = u8

definition FLAG_HOLD :: u8 where [osc_const]: "FLAG_HOLD = 1"
definition FLAG_PROFILE :: u8 where [osc_const]: "FLAG_PROFILE = FLAG_HOLD"
definition FLAG_AUTH :: u8 where [osc_const]: "FLAG_AUTH = 2"
definition FLAG_NOREPLY :: u8 where [osc_const]: "FLAG_NOREPLY = 4"
definition FLAG_PER_TARGET :: u8 where [osc_const]: "FLAG_PER_TARGET = 8"
definition STATUS_BIT :: u8 where [osc_const]: "STATUS_BIT = 0x80"
definition ALERT_BIT :: u8 where [osc_const]: "ALERT_BIT = 1"

definition inst_instruction :: "opcode \<Rightarrow> u8 \<Rightarrow> inst" where
  "inst_instruction op flags = push_bit 4 (opcode_bits op) OR (flags AND 0x0F)"

definition inst_status :: "result_code \<Rightarrow> bool \<Rightarrow> inst" where
  "inst_status result alert =
     (let b = STATUS_BIT OR push_bit 2 (result_bits result)
      in if alert then b OR ALERT_BIT else b)"

definition inst_status_authenticated :: "result_code \<Rightarrow> bool \<Rightarrow> inst" where
  "inst_status_authenticated result alert = inst_status result alert OR FLAG_AUTH"

definition inst_is_status :: "inst \<Rightarrow> bool" where
  "inst_is_status i \<longleftrightarrow> i AND STATUS_BIT \<noteq> 0"

definition inst_opcode :: "inst \<Rightarrow> opcode option" where
  "inst_opcode i =
     (if inst_is_status i then None else opcode_from_bits (drop_bit 4 i AND 0x07))"

definition inst_hold :: "inst \<Rightarrow> bool" where
  "inst_hold i \<longleftrightarrow> i AND FLAG_HOLD \<noteq> 0"

definition inst_profile :: "inst \<Rightarrow> bool" where
  "inst_profile i = inst_hold i"

definition inst_authenticated :: "inst \<Rightarrow> bool" where
  "inst_authenticated i \<longleftrightarrow> i AND FLAG_AUTH \<noteq> 0"

definition inst_noreply :: "inst \<Rightarrow> bool" where
  "inst_noreply i \<longleftrightarrow> i AND FLAG_NOREPLY \<noteq> 0"

definition inst_per_target :: "inst \<Rightarrow> bool" where
  "inst_per_target i \<longleftrightarrow> i AND FLAG_PER_TARGET \<noteq> 0"

definition inst_result :: "inst \<Rightarrow> result_code option" where
  "inst_result i =
     (if \<not> inst_is_status i then None else result_from_bits (drop_bit 2 i AND 0x1F))"

definition inst_alert :: "inst \<Rightarrow> bool" where
  "inst_alert i \<longleftrightarrow> i AND ALERT_BIT \<noteq> 0"

subsection \<open>Frame span arithmetic\<close>

definition MAX_PAYLOAD :: u8 where [osc_const]: "MAX_PAYLOAD = 252"
definition DEFAULT_RESPONSE_DEADLINE_US :: u16 where
  [osc_const]: "DEFAULT_RESPONSE_DEADLINE_US = 60"
definition STARVE_HORIZON_BYTE_TIMES :: u32 where [osc_const]: "STARVE_HORIZON_BYTE_TIMES = 64"
definition RESCUE_PULSE_MIN_US :: u32 where [osc_const]: "RESCUE_PULSE_MIN_US = 300"
definition UID_LEN :: nat where [osc_const]: "UID_LEN = 16"
definition ENUM_REPLY_SLOTS :: u8 where [osc_const]: "ENUM_REPLY_SLOTS = 16"
definition ALIGN_BYTE :: u8 where [osc_const]: "ALIGN_BYTE = 0"

definition len_for :: "u8 \<Rightarrow> u8" where "len_for p = 3 + p"

definition payload_len :: "u8 \<Rightarrow> u8" where "payload_len l = l - 3"

definition footprint :: "u8 \<Rightarrow> nat" where "footprint l = 3 + unat l"

definition covered_len :: "u8 \<Rightarrow> nat" where "covered_len l = 1 + unat l"

subsection \<open>Model numbers and the common register block\<close>

definition CLASS_SERVO :: u8 where [osc_const]: "CLASS_SERVO = 0x01"

definition model_number :: "u8 \<Rightarrow> u8 \<Rightarrow> u16" where
  "model_number class model = push_bit 8 (ucast class) OR ucast model"

definition model_class :: "u16 \<Rightarrow> u8" where
  "model_class n = ucast (drop_bit 8 n)"

definition class_name :: "u8 \<Rightarrow> string" where
  "class_name class = (if class = CLASS_SERVO then ''servo'' else ''unknown'')"

definition MODEL_UNASSIGNED :: u16 where [osc_const]: "MODEL_UNASSIGNED = 0"
definition MODEL_OSC_SERVO :: u16 where "MODEL_OSC_SERVO = model_number CLASS_SERVO 0x01"

definition PROFILE_START :: u16 where [osc_const]: "PROFILE_START = 0x280"
definition PROFILE_END :: u16 where [osc_const]: "PROFILE_END = 0x2C0"
definition PROFILE_SLOTS :: u8 where [osc_const]: "PROFILE_SLOTS = 4"
definition PROFILE_SPANS_PER_SLOT :: nat where [osc_const]: "PROFILE_SPANS_PER_SLOT = 8"
definition STATUS_FLAG_CONFIG_DIRTY :: u8 where [osc_const]: "STATUS_FLAG_CONFIG_DIRTY = 1"

definition profile_span_word :: "u16 \<Rightarrow> u8 \<Rightarrow> u16" where
  "profile_span_word addr count = push_bit 6 addr OR (ucast count AND 0x3F)"

definition profile_span_split :: "u16 \<Rightarrow> u16 \<times> u8" where
  "profile_span_split w = (drop_bit 6 w, ucast (w AND 0x3F))"

definition profile_slot_addr :: "u8 \<Rightarrow> u16" where
  "profile_slot_addr slot = PROFILE_START + ucast slot * (of_nat PROFILE_SPANS_PER_SLOT * 2)"

subsection \<open>Classification and conversion lemmas\<close>

lemma id_try_unicast_iff: "id_try_unicast b = Some i \<longleftrightarrow> id_is_unicast b \<and> i = b"
  by (auto simp: id_try_unicast_def id_is_unicast_def)

lemma unicast_not_broadcast: "id_is_unicast i \<Longrightarrow> \<not> id_is_broadcast i"
  by (auto simp: id_is_unicast_def id_is_broadcast_def)

lemma baud_from_as_idx [simp]: "baud_from_idx (baud_as_idx r) = Some r"
  by (cases r) (simp_all add: baud_from_idx_def)

lemma baud_from_idx_Some_iff: "baud_from_idx i = Some r \<longleftrightarrow> i = baud_as_idx r"
  by (cases r) (auto simp: baud_from_idx_def split: if_splits)

lemma opcode_from_bits_bits [simp]: "opcode_from_bits (opcode_bits op) = Some op"
  by (cases op) (simp_all add: opcode_from_bits_def)

lemma result_from_bits_bits [simp]: "result_from_bits (result_bits r) = Some r"
  by (cases r) (simp_all add: result_from_bits_def)

lemma result_from_bits_Some_iff: "result_from_bits b = Some r \<longleftrightarrow> b = result_bits r"
  by (cases r) (auto simp: result_from_bits_def split: if_splits)

lemma mgmt_from_byte_byte [simp]: "mgmt_from_byte (mgmt_byte m) = Some m"
  by (cases m) (simp_all add: mgmt_from_byte_def)

lemma mgmt_from_byte_Some_iff: "mgmt_from_byte b = Some m \<longleftrightarrow> b = mgmt_byte m"
  by (cases m) (auto simp: mgmt_from_byte_def split: if_splits)

lemmas inst_defs = inst_instruction_def inst_status_def inst_status_authenticated_def
  inst_is_status_def inst_opcode_def inst_hold_def inst_profile_def inst_authenticated_def
  inst_noreply_def inst_per_target_def inst_result_def inst_alert_def

text \<open>A masked single bit is nonzero exactly when the bit is set.\<close>

lemma and_bit_neq_0:
  "(i AND 1 \<noteq> 0) = bit i 0" "(i AND 2 \<noteq> 0) = bit i 1" "(i AND 4 \<noteq> 0) = bit i 2"
  "(i AND 8 \<noteq> 0) = bit i 3" "(i AND 0x80 \<noteq> 0) = bit i 7" for i :: u8
proof -
  have *: "(i AND 2 ^ n \<noteq> 0) = bit i n" for n
    by (simp add: and_exp_eq_0_iff_not_bit)
  show "(i AND 1 \<noteq> 0) = bit i 0" "(i AND 2 \<noteq> 0) = bit i 1" "(i AND 4 \<noteq> 0) = bit i 2"
    "(i AND 8 \<noteq> 0) = bit i 3" "(i AND 0x80 \<noteq> 0) = bit i 7"
    using *[of 0] *[of 1] *[of 2] *[of 3] *[of 7] by simp_all
qed

lemmas inst_flag_bits =
  inst_is_status_def inst_hold_def inst_profile_def inst_authenticated_def inst_noreply_def
  inst_per_target_def inst_alert_def osc_const and_bit_neq_0

lemma inst_instruction_not_status [simp]: "\<not> inst_is_status (inst_instruction op flags)"
  by (cases op) (simp_all add: inst_flag_bits inst_instruction_def bit_simps)

lemma inst_instruction_field: "drop_bit 4 (inst_instruction op flags) AND 0x07 = opcode_bits op"
  by (rule word8_eqI, cases op)
    (simp_all add: inst_instruction_def all_less_8 bit_simps)

lemma inst_opcode_instruction [simp]: "inst_opcode (inst_instruction op flags) = Some op"
  by (simp add: inst_opcode_def inst_instruction_field)

lemma inst_instruction_flags [simp]:
  "inst_hold (inst_instruction op flags) = bit flags 0"
  "inst_authenticated (inst_instruction op flags) = bit flags 1"
  "inst_noreply (inst_instruction op flags) = bit flags 2"
  "inst_per_target (inst_instruction op flags) = bit flags 3"
  by (cases op; simp add: inst_flag_bits inst_instruction_def bit_simps)+

lemma inst_status_is_status [simp]: "inst_is_status (inst_status r a)"
  by (cases r) (simp_all add: inst_flag_bits inst_status_def Let_def bit_simps)

lemma inst_result_status [simp]: "inst_result (inst_status r a) = Some r"
  by (cases r; cases a)
    (simp_all add: inst_result_def inst_flag_bits inst_status_def result_from_bits_def)

lemma len_for_bounds:
  assumes "p \<le> MAX_PAYLOAD"
  shows "unat (len_for p) = 3 + unat p" "3 \<le> len_for p" "payload_len (len_for p) = p"
proof -
  from assms have le: "unat p \<le> 252" by (simp add: MAX_PAYLOAD_def word_le_nat_alt)
  then show u: "unat (len_for p) = 3 + unat p"
    by (simp add: len_for_def unat_word_ariths)
  then show "3 \<le> len_for p" by (simp add: word_le_nat_alt)
  show "payload_len (len_for p) = p" by (simp add: payload_len_def len_for_def)
qed

lemma unat_payload_len: "3 \<le> l \<Longrightarrow> unat (payload_len l) = unat l - 3"
  by (simp add: payload_len_def unat_sub)

lemma footprint_bounds: "3 \<le> l \<Longrightarrow> 6 \<le> footprint l \<and> footprint l \<le> 258"
  using unsigned_less [of l, where ?'a = nat] by (simp add: footprint_def word_le_nat_alt)

lemma covered_footprint: "footprint l = covered_len l + 2"
  by (simp add: footprint_def covered_len_def)

lemma model_number_split [simp]: "model_class (model_number c m) = c" "ucast (model_number c m) = m"
  by (rule bit_word_eqI;
      auto simp: model_class_def model_number_def bit_simps dest: bit_imp_le_length)+

end
