(* ===== verification/Osc_Bytes.thy ===== *)
theory Osc_Bytes
  imports Osc_Wire
begin

text \<open>
  \<open>osc-protocol/src/bytes.rs\<close>: a frame's bytes as up to two contiguous segments, the way a frame
  that wraps the RX ring seam reaches the parsers. The contract of every accessor is that it
  depends on the logical bytes only (locale \<open>byte_view\<close>); the record \<open>frame_bytes\<close> with the
  code's accessors implements it.
\<close>

subsection \<open>The two-segment view\<close>

record frame_bytes =
  fb_head :: bytes
  fb_tail :: bytes

definition fb_new :: "bytes \<Rightarrow> bytes \<Rightarrow> frame_bytes" where
  "fb_new h t = \<lparr> fb_head = h, fb_tail = t \<rparr>"

definition fb_len :: "frame_bytes \<Rightarrow> nat" where
  "fb_len f = length (fb_head f) + length (fb_tail f)"

definition fb_is_empty :: "frame_bytes \<Rightarrow> bool" where
  "fb_is_empty f \<longleftrightarrow> fb_head f = [] \<and> fb_tail f = []"

definition u8_at :: "frame_bytes \<Rightarrow> nat \<Rightarrow> u8 option" where
  "u8_at f i =
     (let hlen = length (fb_head f)
      in if i < hlen then nth_opt (fb_head f) i else nth_opt (fb_tail f) (i - hlen))"

definition u16_le_at :: "frame_bytes \<Rightarrow> nat \<Rightarrow> u16 option" where
  "u16_le_at f i = do { lo \<leftarrow> u8_at f i; hi \<leftarrow> u8_at f (i + 1); Some (le16 lo hi) }"

definition fb_sub :: "frame_bytes \<Rightarrow> nat \<Rightarrow> nat \<Rightarrow> frame_bytes option" where
  "fb_sub f start len =
     (let stop = start + len; hlen = length (fb_head f)
      in if stop > fb_len f then None
         else if start \<ge> hlen then
           (let s = start - hlen
            in do { x \<leftarrow> slice_opt (fb_tail f) s (s + len); Some (fb_new x []) })
         else if stop \<le> hlen then
           do { x \<leftarrow> slice_opt (fb_head f) start stop; Some (fb_new x []) }
         else
           do { x \<leftarrow> slice_opt (fb_head f) start hlen;
                y \<leftarrow> slice_opt (fb_tail f) 0 (stop - hlen);
                Some (fb_new x y) })"

definition fb_segments :: "frame_bytes \<Rightarrow> bytes \<times> bytes" where
  "fb_segments f = (fb_head f, fb_tail f)"

text \<open>\<open>copy_into\<close> returns the destination as it leaves it, also when it answers \<open>None\<close>: the head
  is copied before the room for the tail is checked.\<close>

definition copy_into :: "frame_bytes \<Rightarrow> bytes \<Rightarrow> bytes \<times> unit option" where
  "copy_into f dst =
     (if length dst < length (fb_head f) then (dst, None)
      else let d0 = fb_head f; d1 = drop (length (fb_head f)) dst
           in if length d1 < length (fb_tail f) then (d0 @ d1, None)
              else (d0 @ put 0 (fb_tail f) d1, Some ()))"

definition fb_bytes :: "frame_bytes \<Rightarrow> bytes" where
  "fb_bytes f = fb_head f @ fb_tail f"

definition fb_from :: "bytes \<Rightarrow> frame_bytes" where
  "fb_from b = fb_new b []"

definition fb_eq :: "frame_bytes \<Rightarrow> frame_bytes \<Rightarrow> bool" where
  "fb_eq f g \<longleftrightarrow> fb_len f = fb_len g \<and> fb_bytes f = fb_bytes g"

subsection \<open>Every accessor is a function of the logical bytes\<close>

lemma length_fb_bytes: "length (fb_bytes f) = fb_len f"
  by (simp add: fb_bytes_def fb_len_def)

lemma fb_bytes_from [simp]: "fb_bytes (fb_from b) = b"
  by (simp add: fb_bytes_def fb_from_def fb_new_def)

lemma fb_bytes_new [simp]: "fb_bytes (fb_new h t) = h @ t"
  by (simp add: fb_bytes_def fb_new_def)

lemma fb_len_view [osc_view]: "fb_len f = length (fb_bytes f)"
  by (simp add: length_fb_bytes)

lemma fb_is_empty_view [osc_view]: "fb_is_empty f \<longleftrightarrow> fb_bytes f = []"
  by (simp add: fb_is_empty_def fb_bytes_def)

lemma u8_at_view [osc_view]: "u8_at f i = nth_opt (fb_bytes f) i"
  by (simp add: u8_at_def fb_bytes_def nth_opt_append Let_def)

lemma u16_le_at_view [osc_view]:
  "u16_le_at f i =
     (if i + 1 < length (fb_bytes f) then Some (le16 (fb_bytes f ! i) (fb_bytes f ! (i + 1)))
      else None)"
  by (simp add: u16_le_at_def u8_at_view nth_opt_def)

lemma fb_sub_bytes:
  "map_option fb_bytes (fb_sub f start len) = slice_opt (fb_bytes f) start (start + len)"
  by (auto simp: fb_sub_def Let_def slice_opt_def fb_bytes_def fb_len_def fb_new_def
      add.commute)

lemma fb_sub_eq_None_iff [simp]: "fb_sub f start len = None \<longleftrightarrow> fb_len f < start + len"
  by (auto simp: fb_sub_def Let_def slice_opt_def fb_len_def)

lemma fb_sub_SomeD:
  "fb_sub f start len = Some g \<Longrightarrow>
   start + len \<le> fb_len f \<and> fb_bytes g = take len (drop start (fb_bytes f))"
  using fb_sub_bytes [of f start len] by (auto simp: slice_opt_def fb_len_view split: if_splits)

lemma fb_sub_exists:
  "start + len \<le> fb_len f \<Longrightarrow>
   \<exists>g. fb_sub f start len = Some g \<and> fb_bytes g = take len (drop start (fb_bytes f))"
  using fb_sub_SomeD fb_sub_eq_None_iff [of f start len]
  by (metis not_less not_None_eq)

lemma fb_sub_len: "fb_sub f start len = Some g \<Longrightarrow> fb_len g = len"
  by (auto dest!: fb_sub_SomeD simp: fb_len_view)

lemma bind_fb_sub:
  "fb_sub f start len \<bind> k =
     (if start + len \<le> fb_len f then k (the (fb_sub f start len)) else None)"
  using fb_sub_eq_None_iff [of f start len]
  by (cases "fb_sub f start len") (auto dest: fb_sub_SomeD simp del: fb_sub_eq_None_iff)

lemma fb_bytes_the_sub:
  "start + len \<le> length (fb_bytes f) \<Longrightarrow>
   fb_bytes (the (fb_sub f start len)) = take len (drop start (fb_bytes f))"
  using fb_sub_exists [of start len f] by (auto simp: fb_len_view)

lemma copy_into_view [osc_view]:
  "snd (copy_into f dst) = Some () \<longleftrightarrow> fb_len f \<le> length dst"
  "fb_len f \<le> length dst \<Longrightarrow> fst (copy_into f dst) = put 0 (fb_bytes f) dst"
  by (auto simp: copy_into_def Let_def fb_len_def fb_bytes_def put_def ac_simps)

lemma copy_into_short_head:
  "length (fb_head f) \<le> length dst \<Longrightarrow> length dst < fb_len f \<Longrightarrow>
   copy_into f dst = (put 0 (fb_head f) dst, None)"
  by (auto simp: copy_into_def Let_def fb_len_def put_def)

lemma fb_eq_view [osc_view]: "fb_eq f g \<longleftrightarrow> fb_bytes f = fb_bytes g"
  by (auto simp: fb_eq_def fb_len_view)

subsection \<open>The contract the parsers rely on\<close>

text \<open>
  The interface of a byte view: the accessors the parsers call, and the law that each of them is
  determined by the logical bytes. Inside the locale a \<open>parser\<close> built from them cannot tell two
  views of the same bytes apart.
\<close>

locale byte_view =
  fixes bytes_of :: "'v \<Rightarrow> bytes"
    and len_of :: "'v \<Rightarrow> nat"
    and byte_at :: "'v \<Rightarrow> nat \<Rightarrow> u8 option"
    and word_at :: "'v \<Rightarrow> nat \<Rightarrow> u16 option"
    and sub_of :: "'v \<Rightarrow> nat \<Rightarrow> nat \<Rightarrow> 'v option"
  assumes len_law: "len_of v = length (bytes_of v)"
    and byte_law: "byte_at v i = nth_opt (bytes_of v) i"
    and word_law: "word_at v i = do { lo \<leftarrow> byte_at v i; hi \<leftarrow> byte_at v (i + 1); Some (le16 lo hi) }"
    and sub_law: "map_option bytes_of (sub_of v a n) = slice_opt (bytes_of v) a (a + n)"
begin

lemma accessors_cong:
  assumes "bytes_of v = bytes_of w"
  shows "len_of v = len_of w" "byte_at v i = byte_at w i" "word_at v i = word_at w i"
    "map_option bytes_of (sub_of v a n) = map_option bytes_of (sub_of w a n)"
  using assms by (simp_all add: len_law byte_law word_law sub_law)

lemma word_at_concat:
  "bytes_of v = xs @ [lo, hi] @ ys \<Longrightarrow> word_at v (length xs) = Some (le16 lo hi)"
  by (simp add: word_law byte_law nth_opt_append)

lemma sub_sub:
  "sub_of v a n = Some w \<Longrightarrow> b + m \<le> n \<Longrightarrow>
   map_option bytes_of (sub_of w b m) = map_option bytes_of (sub_of v (a + b) m)"
  using sub_law [of v a n] sub_law [of w b m] sub_law [of v "a + b" m]
  by (auto simp: slice_opt_def drop_take min_def ac_simps split: if_splits)

end

interpretation fb: byte_view fb_bytes fb_len u8_at u16_le_at fb_sub
  by unfold_locales (simp_all add: length_fb_bytes u8_at_view u16_le_at_def fb_sub_bytes)

subsection \<open>Properties\<close>

text \<open>Seam invariance of the view. Every accessor of a two-segment view returns what the
  same accessor returns on the contiguous logical bytes, wherever the ring seam falls, and a
  sub-range (itself possibly split) carries exactly the bytes of that range.\<close>

theorem frame_bytes_seam_invariant:
  "fb_len (fb_new h t) = length (h @ t) \<and>
   fb_is_empty (fb_new h t) = (h @ t = []) \<and>
   u8_at (fb_new h t) i = nth_opt (h @ t) i \<and>
   u16_le_at (fb_new h t) i = u16_le_at (fb_from (h @ t)) i \<and>
   map_option fb_bytes (fb_sub (fb_new h t) a n) = slice_opt (h @ t) a (a + n) \<and>
   fb_eq (fb_new h t) (fb_from (h @ t))"
  by (simp add: osc_view fb_sub_bytes)

text \<open>\<open>copy_into\<close> answers \<open>Some\<close> exactly when the destination holds the view and then
  overwrites precisely the leading bytes; when it answers \<open>None\<close> on a destination that holds the
  head segment, the head has been written all the same.\<close>

theorem copy_into_stitches:
  "(snd (copy_into f dst) = Some () \<longleftrightarrow> fb_len f \<le> length dst) \<and>
   (fb_len f \<le> length dst \<longrightarrow> fst (copy_into f dst) = put 0 (fb_bytes f) dst) \<and>
   (length (fb_head f) \<le> length dst \<and> length dst < fb_len f \<longrightarrow>
      copy_into f dst = (put 0 (fb_head f) dst, None))"
  by (simp add: copy_into_view copy_into_short_head)

theorem copy_into_stitches_witness:
  "copy_into (fb_new [1, 2] [3]) [9, 9] = ([1, 2], None) \<and>
   fst (copy_into (fb_new [1, 2] [3]) [9, 9, 9, 9]) = [1, 2, 3, 9]"
  using copy_into_stitches [of "fb_new [1, 2] [3]" "[9, 9]"]
    copy_into_stitches [of "fb_new [1, 2] [3]" "[9, 9, 9, 9]"]
  by (simp add: fb_new_def fb_len_def fb_bytes_def put_def)

end
