(* ===== verification/Osc_Frame.thy ===== *)
theory Osc_Frame
  imports Osc_Bytes
begin

text \<open>
  \<open>osc-protocol/src/frame.rs\<close>: the four header bytes at a frame anchor and the unicast and
  management request parsers. A request that borrows payload bytes keeps the borrowed
  \<open>frame_bytes\<close>; the codec contract of \<open>Osc_Build\<close> relates each parser to its builder.
\<close>

subsection \<open>Header\<close>

datatype frame_error = ShortLen | BadId | BadOpcode

record header =
  hd_brk :: u8
  hd_id :: frame_id
  hd_len :: u8
  hd_inst :: inst

definition header_from_bytes :: "bytes \<Rightarrow> header option" where
  "header_from_bytes b =
     (case b of
        [b0, b1, b2, b3] \<Rightarrow> Some \<lparr> hd_brk = b0, hd_id = b1, hd_len = b2, hd_inst = b3 \<rparr>
      | _ \<Rightarrow> None)"

definition header_validate :: "header \<Rightarrow> frame_error + unit" where
  "header_validate h =
     (if hd_len h < 3 then Inl ShortLen
      else if \<not> id_is_valid (hd_id h) then Inl BadId
      else if \<not> inst_is_status (hd_inst h) \<and> inst_opcode (hd_inst h) = None then Inl BadOpcode
      else Inr ())"

definition header_frame_end :: "header \<Rightarrow> nat" where
  "header_frame_end h = footprint (hd_len h)"

definition header_covered_len :: "header \<Rightarrow> nat" where
  "header_covered_len h = covered_len (hd_len h)"

definition header_payload_len :: "header \<Rightarrow> u8" where
  "header_payload_len h = payload_len (hd_len h)"

subsection \<open>Request parsers\<close>

record read_req =
  rr_addr :: u16
  rr_count :: u16

definition read_req_parse :: "frame_bytes \<Rightarrow> read_req option" where
  "read_req_parse payload =
     (if fb_len payload \<noteq> 4 then None
      else do { addr \<leftarrow> u16_le_at payload 0;
                count \<leftarrow> u16_le_at payload 2;
                Some \<lparr> rr_addr = addr, rr_count = count \<rparr> })"

record profile_req =
  pr_slot :: u8

definition profile_req_parse :: "frame_bytes \<Rightarrow> profile_req option" where
  "profile_req_parse payload =
     (if fb_len payload \<noteq> 1 then None
      else do { slot \<leftarrow> u8_at payload 0; Some \<lparr> pr_slot = slot \<rparr> })"

definition checked_sub :: "nat \<Rightarrow> nat \<Rightarrow> nat option" where
  "checked_sub a b = (if b \<le> a then Some (a - b) else None)"

record write_req =
  wr_addr :: u16
  wr_data :: frame_bytes

definition write_req_parse :: "frame_bytes \<Rightarrow> write_req option" where
  "write_req_parse payload =
     do { addr \<leftarrow> u16_le_at payload 0;
          n \<leftarrow> checked_sub (fb_len payload) 2;
          data \<leftarrow> fb_sub payload 2 n;
          Some \<lparr> wr_addr = addr, wr_data = data \<rparr> }"

record mgmt_req =
  mr_op :: mgmt_op
  mr_args :: frame_bytes

definition mgmt_req_parse :: "frame_bytes \<Rightarrow> mgmt_req option" where
  "mgmt_req_parse payload =
     do { b \<leftarrow> u8_at payload 0;
          op \<leftarrow> mgmt_from_byte b;
          n \<leftarrow> checked_sub (fb_len payload) 1;
          args \<leftarrow> fb_sub payload 1 n;
          Some \<lparr> mr_op = op, mr_args = args \<rparr> }"

definition MAX_PREFIX_BITS :: u8 where "MAX_PREFIX_BITS = 128"

definition prefix_bytes :: "u8 \<Rightarrow> nat" where
  "prefix_bytes prefix_len = (unat prefix_len + 7) div 8"

record enum_req =
  er_prefix_len :: u8
  er_prefix :: bytes

definition enum_req_parse :: "frame_bytes \<Rightarrow> enum_req option" where
  "enum_req_parse args =
     do { prefix_len \<leftarrow> u8_at args 0;
          if prefix_len > MAX_PREFIX_BITS then None
          else let n = prefix_bytes prefix_len
               in if fb_len args \<noteq> 1 + n then None
                  else do { s \<leftarrow> fb_sub args 1 n;
                            let (dst, r) = copy_into s (replicate n 0);
                            r \<bind> (\<lambda>_.
                              Some \<lparr> er_prefix_len = prefix_len,
                                     er_prefix = dst @ replicate (UID_LEN - n) 0 \<rparr>) } }"

text \<open>\<open>None\<close> below is the slice-index panic of a prefix longer than the UID.\<close>

definition uid_prefix_matches :: "bytes \<Rightarrow> u8 \<Rightarrow> bytes \<Rightarrow> bool option" where
  "uid_prefix_matches uid prefix_len prefix =
     (let full = unat (prefix_len div 8); rem = prefix_len mod 8
      in do { u \<leftarrow> slice_opt uid 0 full;
              p \<leftarrow> slice_opt prefix 0 full;
              if u \<noteq> p then Some False
              else if rem = 0 then Some True
              else do { x \<leftarrow> nth_opt uid full;
                        y \<leftarrow> nth_opt prefix full;
                        Some ((x XOR y) AND (push_bit (unat rem) 1 - 1) = 0) } })"

record assign_req =
  ar_uid :: bytes
  ar_new_id :: u8

definition assign_req_parse :: "frame_bytes \<Rightarrow> assign_req option" where
  "assign_req_parse args =
     (if fb_len args \<noteq> UID_LEN + 1 then None
      else do { s \<leftarrow> fb_sub args 0 UID_LEN;
                let (uid, r) = copy_into s (replicate UID_LEN 0);
                r \<bind> (\<lambda>_. do {
                  new_id \<leftarrow> u8_at args UID_LEN;
                  Some \<lparr> ar_uid = uid, ar_new_id = new_id \<rparr> }) })"

record cal_req =
  cr_gap_us :: u16
  cr_gaps :: u8

definition cal_req_parse :: "frame_bytes \<Rightarrow> cal_req option" where
  "cal_req_parse args =
     (if fb_len args \<noteq> 3 then None
      else do { gap_us \<leftarrow> u16_le_at args 0;
                gaps \<leftarrow> u8_at args 2;
                if gap_us = 0 \<or> gaps = 0 then None
                else Some \<lparr> cr_gap_us = gap_us, cr_gaps = gaps \<rparr> })"

subsection \<open>The parsers as functions of the logical bytes\<close>

lemmas parse_view = osc_view checked_sub_def bind_fb_sub fb_bytes_the_sub

lemma read_req_parse_view:
  "read_req_parse f =
     (case fb_bytes f of
        [a, b, c, d] \<Rightarrow> Some \<lparr> rr_addr = le16 a b, rr_count = le16 c d \<rparr> | _ \<Rightarrow> None)"
  by (auto simp: read_req_parse_def parse_view split: list.split)

lemma profile_req_parse_view:
  "profile_req_parse f = (case fb_bytes f of [s] \<Rightarrow> Some \<lparr> pr_slot = s \<rparr> | _ \<Rightarrow> None)"
  by (auto simp: profile_req_parse_def parse_view split: list.split)

lemma write_req_parse_view:
  "map_option (\<lambda>r. (wr_addr r, fb_bytes (wr_data r))) (write_req_parse f) =
     (case fb_bytes f of a # b # data \<Rightarrow> Some (le16 a b, data) | _ \<Rightarrow> None)"
  by (auto simp: write_req_parse_def parse_view split: list.split)

lemma mgmt_req_parse_view:
  "map_option (\<lambda>r. (mr_op r, fb_bytes (mr_args r))) (mgmt_req_parse f) =
     (case fb_bytes f of b # args \<Rightarrow> map_option (\<lambda>op. (op, args)) (mgmt_from_byte b) | _ \<Rightarrow> None)"
  by (auto simp: mgmt_req_parse_def parse_view split: list.split option.split bind_split)

lemma prefix_bytes_bound: "p \<le> MAX_PREFIX_BITS \<Longrightarrow> prefix_bytes p \<le> UID_LEN"
  by (simp add: MAX_PREFIX_BITS_def prefix_bytes_def UID_LEN_def word_le_nat_alt)

lemma copy_into_exact:
  "length dst = fb_len s \<Longrightarrow> copy_into s dst = (fb_bytes s, Some ())"
  by (rule prod_eqI) (simp_all add: copy_into_view, simp add: put_def fb_len_view)

lemma enum_req_parse_view:
  "enum_req_parse f =
     (case fb_bytes f of
        p # prefix \<Rightarrow>
          if p \<le> MAX_PREFIX_BITS \<and> length prefix = prefix_bytes p
          then Some \<lparr> er_prefix_len = p, er_prefix = prefix @ replicate (UID_LEN - length prefix) 0 \<rparr>
          else None
      | [] \<Rightarrow> None)"
  by (auto simp: enum_req_parse_def parse_view copy_into_exact Let_def not_less split: list.split)

lemma assign_req_parse_view:
  "assign_req_parse f =
     (if length (fb_bytes f) = UID_LEN + 1
      then Some \<lparr> ar_uid = take UID_LEN (fb_bytes f), ar_new_id = fb_bytes f ! UID_LEN \<rparr> else None)"
  by (auto simp: assign_req_parse_def parse_view copy_into_exact nth_opt_def)

lemma cal_req_parse_view:
  "cal_req_parse f =
     (case fb_bytes f of
        [a, b, g] \<Rightarrow>
          if le16 a b = 0 \<or> g = 0 then None else Some \<lparr> cr_gap_us = le16 a b, cr_gaps = g \<rparr>
      | _ \<Rightarrow> None)"
  by (auto simp: cal_req_parse_def parse_view split: list.split)

subsection \<open>UID prefix match\<close>

lemma all_less_div_mod:
  fixes n :: nat
  assumes "0 < d"
  shows "(\<forall>k<n. Q (k div d) (k mod d)) \<longleftrightarrow>
    (\<forall>i<n div d. \<forall>j<d. Q i j) \<and> (\<forall>j<n mod d. Q (n div d) j)"
proof safe
  fix i j assume all: "\<forall>k<n. Q (k div d) (k mod d)" and "i < n div d" "j < d"
  have "Suc i * d \<le> n div d * d" using \<open>i < n div d\<close> by (intro mult_le_mono1) simp
  then have "i * d + j < n"
    using \<open>j < d\<close> div_times_less_eq_dividend [of n d] unfolding mult_Suc by linarith
  moreover have "(i * d + j) div d = i" "(i * d + j) mod d = j" using \<open>j < d\<close> by simp_all
  ultimately show "Q i j" using all by metis
next
  fix j assume all: "\<forall>k<n. Q (k div d) (k mod d)" and j: "j < n mod d"
  have "n div d * d + j < n" using j div_mult_mod_eq [of n d] by linarith
  moreover have "j < d" using j assms by (meson less_trans mod_less_divisor)
  moreover have "(n div d * d + j) div d = n div d" "(n div d * d + j) mod d = j"
    using \<open>j < d\<close> by simp_all
  ultimately show "Q (n div d) j" using all by metis
next
  fix k assume a: "\<forall>i<n div d. \<forall>j<d. Q i j" and b: "\<forall>j<n mod d. Q (n div d) j" and k: "k < n"
  show "Q (k div d) (k mod d)"
  proof (cases "k div d < n div d")
    case True
    then show ?thesis using a assms by simp
  next
    case False
    then have e: "k div d = n div d" using k div_le_mono [of k n d] by simp
    have "n div d * d + k mod d = k" using div_mult_mod_eq [of k d] by (simp only: e)
    then have "k mod d < n mod d" using k div_mult_mod_eq [of n d] by linarith
    then show ?thesis using b e by simp
  qed
qed

lemma take_eq_iff_nth:
  "n \<le> length xs \<Longrightarrow> n \<le> length ys \<Longrightarrow> take n xs = take n ys \<longleftrightarrow> (\<forall>i<n. xs ! i = ys ! i)"
  by (auto simp: list_eq_iff_nth_eq min_def)

lemma word8_eq_iff: "a = b \<longleftrightarrow> (\<forall>j<8. bit a j = bit b j)" for a b :: u8
  by (auto intro: word8_eqI)

lemma masked_xor_eq_0:
  "(x XOR y) AND (push_bit r 1 - 1) = 0 \<longleftrightarrow> (\<forall>j<r. bit x j = bit y j)" if "r \<le> 8" for x y :: u8
proof -
  have m: "push_bit r 1 - 1 = (mask r :: u8)" by (simp add: mask_eq_exp_minus_1 push_bit_eq_mult)
  have "(x XOR y) AND mask r = 0 \<longleftrightarrow> (\<forall>j<8. j < r \<longrightarrow> bit x j = bit y j)"
    by (auto simp: word8_eq_iff bit_simps)
  with that show ?thesis unfolding m by auto
qed

text \<open>The ENUM prefix match is bit-exact: for a legal prefix length the byte compare and the
  masked last byte decide whether the first \<open>prefix_len\<close> bits of the LSB-first bit streams agree,
  and no index leaves the arrays.\<close>

theorem uid_prefix_matches_bits:
  assumes uid: "length uid = UID_LEN" and prefix: "length prefix = UID_LEN"
    and n: "prefix_len \<le> MAX_PREFIX_BITS"
  shows "uid_prefix_matches uid prefix_len prefix =
    Some (\<forall>k<unat prefix_len. bit (uid ! (k div 8)) (k mod 8) = bit (prefix ! (k div 8)) (k mod 8))"
proof -
  let ?n = "unat prefix_len"
  have div: "unat (prefix_len div 8) = ?n div 8" and mod: "unat (prefix_len mod 8) = ?n mod 8"
    by (simp_all add: unat_div unat_mod)
  have le: "?n \<le> 128" using n by (simp add: MAX_PREFIX_BITS_def word_le_nat_alt)
  then have full: "?n div 8 \<le> 16" by simp
  have part: "?n mod 8 \<noteq> 0 \<Longrightarrow> ?n div 8 < 16" using le by presburger
  have zero: "prefix_len mod 8 = 0 \<longleftrightarrow> ?n mod 8 = 0" by (metis mod unat_eq_zero)
  have len: "length uid = 16" "length prefix = 16" using uid prefix by (simp_all add: UID_LEN_def)
  have spec: "(\<forall>k<?n. bit (uid ! (k div 8)) (k mod 8) = bit (prefix ! (k div 8)) (k mod 8)) \<longleftrightarrow>
      (\<forall>i<?n div 8. uid ! i = prefix ! i) \<and>
      (\<forall>j<?n mod 8. bit (uid ! (?n div 8)) j = bit (prefix ! (?n div 8)) j)"
    by (simp only: all_less_div_mod [of 8 ?n "\<lambda>i j. bit (uid ! i) j = bit (prefix ! i) j"]
        zero_less_numeral word8_eq_iff)
  have eq: "take (?n div 8) uid = take (?n div 8) prefix \<longleftrightarrow> (\<forall>i<?n div 8. uid ! i = prefix ! i)"
    using full by (simp add: take_eq_iff_nth len)
  show ?thesis
  proof (cases "?n mod 8 = 0")
    case True
    then show ?thesis unfolding spec using full
      by (simp add: uid_prefix_matches_def Let_def div mod zero len slice_opt_def eq)
  next
    case False
    then show ?thesis unfolding spec using full part
      by (simp add: uid_prefix_matches_def Let_def div mod zero len slice_opt_def eq nth_opt_def
          masked_xor_eq_0 [simplified])
  qed
qed

lemma all_less_4: "(\<forall>n<(4::nat). P n) = (P 0 \<and> P 1 \<and> P 2 \<and> P 3)"
  by (simp add: numeral_eq_Suc All_less_Suc conj_ac)

theorem uid_prefix_matches_bits_witness:
  "uid_prefix_matches (0x5A # replicate 15 0) 4 (0x0A # replicate 15 7) = Some True"
proof -
  have "uid_prefix_matches (0x5A # replicate 15 0) 4 (0x0A # replicate 15 7) =
    Some (\<forall>k<unat (4::u8). bit ((0x5A # replicate 15 0 :: bytes) ! (k div 8)) (k mod 8) =
       bit ((0x0A # replicate 15 7 :: bytes) ! (k div 8)) (k mod 8))"
    by (rule uid_prefix_matches_bits) (simp_all add: UID_LEN_def MAX_PREFIX_BITS_def)
  then show ?thesis by (simp add: all_less_4 bit_simps)
qed

end
