(* ===== verification/Osc_Group.thy ===== *)
theory Osc_Group
  imports Osc_Frame
begin

text \<open>
  \<open>osc-protocol/src/group.rs\<close>: the six group payload views, their iterators and the slot
  lookups. An iterator is its \<open>next\<close> function on the remaining bytes; \<open>iter_find\<close> and
  \<open>iter_collect\<close> are Rust's \<open>enumerate().find\<close> and a full drain, with the number of remaining
  bytes as fuel (every \<open>next\<close> consumes at least one byte; the locale \<open>entry_iter\<close> shows that this
  is enough and relates the lazy lookup to the entry list).
\<close>

subsection \<open>Iterator protocol\<close>

fun iter_collect :: "('s \<Rightarrow> ('i \<times> 's) option) \<Rightarrow> nat \<Rightarrow> 's \<Rightarrow> 'i list" where
  "iter_collect nxt 0 s = []"
| "iter_collect nxt (Suc n) s =
     (case nxt s of None \<Rightarrow> [] | Some (t, s') \<Rightarrow> t # iter_collect nxt n s')"

fun iter_find :: "('s \<Rightarrow> ('i \<times> 's) option) \<Rightarrow> ('i \<Rightarrow> bool) \<Rightarrow> nat \<Rightarrow> nat \<Rightarrow> 's \<Rightarrow> (nat \<times> 'i) option" where
  "iter_find nxt P 0 k s = None"
| "iter_find nxt P (Suc n) k s =
     (case nxt s of
        None \<Rightarrow> None
      | Some (t, s') \<Rightarrow> if P t then Some (k, t) else iter_find nxt P n (k + 1) s')"

definition byte_position :: "frame_bytes \<Rightarrow> frame_id \<Rightarrow> u8 option" where
  "byte_position ids i = map_option of_nat (position (\<lambda>b. b = i) (fb_bytes ids))"

subsection \<open>GREAD\<close>

record gread_target =
  gt_id :: frame_id
  gt_addr :: u16
  gt_count :: u16

record gwrite_target =
  gw_id :: frame_id
  gw_addr :: u16
  gw_data :: frame_bytes

record gread_profile_target =
  gp_id :: frame_id
  gp_slot :: u8

record gread_uniform =
  gu_addr :: u16
  gu_count :: u16
  gu_ids :: frame_bytes

definition gread_uniform_parse :: "frame_bytes \<Rightarrow> gread_uniform option" where
  "gread_uniform_parse payload =
     do { addr \<leftarrow> u16_le_at payload 0;
          count \<leftarrow> u16_le_at payload 2;
          n \<leftarrow> checked_sub (fb_len payload) 4;
          ids \<leftarrow> fb_sub payload 4 n;
          if fb_is_empty ids then None
          else Some \<lparr> gu_addr = addr, gu_count = count, gu_ids = ids \<rparr> }"

definition gread_uniform_ids :: "gread_uniform \<Rightarrow> frame_id list" where
  "gread_uniform_ids g = fb_bytes (gu_ids g)"

definition gread_uniform_slot_of :: "gread_uniform \<Rightarrow> frame_id \<Rightarrow> u8 option" where
  "gread_uniform_slot_of g i = byte_position (gu_ids g) i"

record gread_per_target =
  gpt_entries :: frame_bytes

definition gread_per_target_parse :: "frame_bytes \<Rightarrow> gread_per_target option" where
  "gread_per_target_parse payload =
     (if fb_is_empty payload \<or> \<not> 5 dvd fb_len payload then None
      else Some \<lparr> gpt_entries = payload \<rparr>)"

definition gread_per_target_next :: "frame_bytes \<Rightarrow> (gread_target \<times> frame_bytes) option" where
  "gread_per_target_next rest =
     (if fb_len rest < 5 then None
      else do { i \<leftarrow> u8_at rest 0;
                addr \<leftarrow> u16_le_at rest 1;
                count \<leftarrow> u16_le_at rest 3;
                rest' \<leftarrow> fb_sub rest 5 (fb_len rest - 5);
                Some (\<lparr> gt_id = i, gt_addr = addr, gt_count = count \<rparr>, rest') })"

definition gread_per_target_find :: "gread_per_target \<Rightarrow> frame_id \<Rightarrow> (u8 \<times> gread_target) option" where
  "gread_per_target_find g i =
     map_option (\<lambda>(k, t). (of_nat k, t))
       (iter_find gread_per_target_next (\<lambda>t. gt_id t = i) (fb_len (gpt_entries g)) 0 (gpt_entries g))"

subsection \<open>GREAD with PROFILE\<close>

record gread_profile_uniform =
  gpu_slot :: u8
  gpu_ids :: frame_bytes

definition gread_profile_uniform_parse :: "frame_bytes \<Rightarrow> gread_profile_uniform option" where
  "gread_profile_uniform_parse payload =
     do { slot \<leftarrow> u8_at payload 0;
          n \<leftarrow> checked_sub (fb_len payload) 1;
          ids \<leftarrow> fb_sub payload 1 n;
          if fb_is_empty ids then None
          else Some \<lparr> gpu_slot = slot, gpu_ids = ids \<rparr> }"

definition gread_profile_uniform_ids :: "gread_profile_uniform \<Rightarrow> frame_id list" where
  "gread_profile_uniform_ids g = fb_bytes (gpu_ids g)"

definition gread_profile_uniform_slot_of :: "gread_profile_uniform \<Rightarrow> frame_id \<Rightarrow> u8 option" where
  "gread_profile_uniform_slot_of g i = byte_position (gpu_ids g) i"

record gread_profile_per_target =
  gppt_entries :: frame_bytes

definition gread_profile_per_target_parse :: "frame_bytes \<Rightarrow> gread_profile_per_target option" where
  "gread_profile_per_target_parse payload =
     (if fb_is_empty payload \<or> \<not> 2 dvd fb_len payload then None
      else Some \<lparr> gppt_entries = payload \<rparr>)"

definition gread_profile_per_target_next ::
    "frame_bytes \<Rightarrow> (gread_profile_target \<times> frame_bytes) option" where
  "gread_profile_per_target_next rest =
     (if fb_len rest < 2 then None
      else do { i \<leftarrow> u8_at rest 0;
                slot \<leftarrow> u8_at rest 1;
                rest' \<leftarrow> fb_sub rest 2 (fb_len rest - 2);
                Some (\<lparr> gp_id = i, gp_slot = slot \<rparr>, rest') })"

definition gread_profile_per_target_find ::
    "gread_profile_per_target \<Rightarrow> frame_id \<Rightarrow> (u8 \<times> gread_profile_target) option" where
  "gread_profile_per_target_find g i =
     map_option (\<lambda>(k, t). (of_nat k, t))
       (iter_find gread_profile_per_target_next (\<lambda>t. gp_id t = i) (fb_len (gppt_entries g)) 0
          (gppt_entries g))"

subsection \<open>GWRITE\<close>

record gwrite_uniform =
  gwu_addr :: u16
  gwu_count :: u8
  gwu_entries :: frame_bytes

text \<open>The divide-free raggedness walk: subtract the stride while it fits.\<close>

function ragged_rem :: "nat \<Rightarrow> nat \<Rightarrow> nat" where
  "ragged_rem stride rem = (if 0 < stride \<and> rem \<ge> stride then ragged_rem stride (rem - stride) else rem)"
  by pat_completeness auto
termination by (relation "measure snd") auto

definition gwrite_uniform_parse :: "frame_bytes \<Rightarrow> gwrite_uniform option" where
  "gwrite_uniform_parse payload =
     do { addr \<leftarrow> u16_le_at payload 0;
          count \<leftarrow> u8_at payload 2;
          if count = 0 then None
          else do { n \<leftarrow> checked_sub (fb_len payload) 3;
                    entries \<leftarrow> fb_sub payload 3 n;
                    let stride = 1 + unat count;
                    if fb_len entries = 0 then None
                    else if ragged_rem stride (fb_len entries) \<noteq> 0 then None
                    else Some \<lparr> gwu_addr = addr, gwu_count = count, gwu_entries = entries \<rparr> } }"

definition gwrite_uniform_next ::
    "nat \<Rightarrow> frame_bytes \<Rightarrow> ((frame_id \<times> frame_bytes) \<times> frame_bytes) option" where
  "gwrite_uniform_next stride rest =
     (if fb_len rest < stride then None
      else do { i \<leftarrow> u8_at rest 0;
                data \<leftarrow> fb_sub rest 1 (stride - 1);
                rest' \<leftarrow> fb_sub rest stride (fb_len rest - stride);
                Some ((i, data), rest') })"

definition gwrite_uniform_find :: "gwrite_uniform \<Rightarrow> frame_id \<Rightarrow> frame_bytes option" where
  "gwrite_uniform_find g i =
     map_option (\<lambda>(k, (j, d)). d)
       (iter_find (gwrite_uniform_next (1 + unat (gwu_count g))) (\<lambda>(j, d). j = i)
          (fb_len (gwu_entries g)) 0 (gwu_entries g))"

record gwrite_per_target =
  gwpt_entries :: frame_bytes

text \<open>The variable-stride validation walk; every round consumes at least four bytes, so the
  payload length is fuel enough (\<open>gwrite_walk_fuel\<close>).\<close>

fun gwrite_walk :: "nat \<Rightarrow> frame_bytes \<Rightarrow> unit option" where
  "gwrite_walk 0 rest = (if fb_is_empty rest then Some () else None)"
| "gwrite_walk (Suc k) rest =
     (if fb_is_empty rest then Some ()
      else do { c \<leftarrow> u8_at rest 3;
                let skip = 4 + unat c;
                n \<leftarrow> checked_sub (fb_len rest) skip;
                rest' \<leftarrow> fb_sub rest skip n;
                gwrite_walk k rest' })"

definition gwrite_per_target_parse :: "frame_bytes \<Rightarrow> gwrite_per_target option" where
  "gwrite_per_target_parse payload =
     (if fb_is_empty payload then None
      else do { gwrite_walk (fb_len payload) payload; Some \<lparr> gwpt_entries = payload \<rparr> })"

definition gwrite_per_target_next :: "frame_bytes \<Rightarrow> (gwrite_target \<times> frame_bytes) option" where
  "gwrite_per_target_next rest =
     (if fb_len rest < 4 then None
      else do { i \<leftarrow> u8_at rest 0;
                addr \<leftarrow> u16_le_at rest 1;
                c \<leftarrow> u8_at rest 3;
                let count = unat c;
                data \<leftarrow> fb_sub rest 4 count;
                rest' \<leftarrow> fb_sub rest (4 + count) (fb_len rest - (4 + count));
                Some (\<lparr> gw_id = i, gw_addr = addr, gw_data = data \<rparr>, rest') })"

definition gwrite_per_target_find :: "gwrite_per_target \<Rightarrow> frame_id \<Rightarrow> gwrite_target option" where
  "gwrite_per_target_find g i =
     map_option snd
       (iter_find gwrite_per_target_next (\<lambda>t. gw_id t = i) (fb_len (gwpt_entries g)) 0 (gwpt_entries g))"

subsection \<open>The iterator contract\<close>

text \<open>
  An entry iterator reads one encoded entry off the front of the remaining bytes: \<open>enc\<close> encodes an
  entry, \<open>ok\<close> says which entries the wire form can carry and \<open>ent\<close> reads the entry off the item
  the iterator yields (whose data may be split by the ring seam).
\<close>

locale entry_iter =
  fixes nxt :: "frame_bytes \<Rightarrow> ('i \<times> frame_bytes) option"
    and ent :: "'i \<Rightarrow> 'e" and enc :: "'e \<Rightarrow> bytes" and ok :: "'e \<Rightarrow> bool"
  assumes next_enc: "ok e \<Longrightarrow> fb_bytes f = enc e @ r \<Longrightarrow>
      \<exists>i g. nxt f = Some (i, g) \<and> ent i = e \<and> fb_bytes g = r"
    and next_dec: "nxt f = Some (i, g) \<Longrightarrow> ok (ent i) \<and> fb_bytes f = enc (ent i) @ fb_bytes g"
    and enc_nonempty: "ok e \<Longrightarrow> enc e \<noteq> []"
    and next_end: "fb_bytes f = [] \<Longrightarrow> nxt f = None"
begin

abbreviation enc_all :: "'e list \<Rightarrow> bytes" where
  "enc_all es \<equiv> concat (map enc es)"

lemma next_shorter: "nxt f = Some (i, g) \<Longrightarrow> fb_len g < fb_len f"
  using next_dec [of f i g] enc_nonempty [of "ent i"] by (auto simp: fb_len_view)

lemma length_enc_all: "list_all ok es \<Longrightarrow> length es \<le> length (enc_all es)"
proof (induction es)
  case (Cons e es)
  then show ?case using enc_nonempty [of e] by (cases "enc e") auto
qed simp

lemma collect_enc:
  "list_all ok es \<Longrightarrow> fb_bytes f = enc_all es \<Longrightarrow> length es \<le> n \<Longrightarrow>
   map ent (iter_collect nxt n f) = es"
proof (induction es arbitrary: f n)
  case Nil
  then show ?case by (cases n) (simp_all add: next_end)
next
  case (Cons e es)
  then obtain i g where "nxt f = Some (i, g)" "ent i = e" "fb_bytes g = enc_all es"
    using next_enc [of e f "enc_all es"] by auto
  with Cons show ?case by (cases n) auto
qed

lemma find_enc:
  assumes "\<And>i. P i = Q (ent i)"
  shows "list_all ok es \<Longrightarrow> fb_bytes f = enc_all es \<Longrightarrow> length es \<le> n \<Longrightarrow>
    map_option (map_prod id ent) (iter_find nxt P n k f) =
    map_option (\<lambda>p. (k + p, es ! p)) (position Q es)"
proof (induction es arbitrary: f n k)
  case Nil
  then show ?case by (cases n) (simp_all add: next_end)
next
  case (Cons e es)
  then obtain i g where "nxt f = Some (i, g)" "ent i = e" "fb_bytes g = enc_all es"
    using next_enc [of e f "enc_all es"] by auto
  with Cons assms show ?case by (cases n) (auto simp: option.map_comp comp_def)
qed

lemma collect_drain:
  "fb_len f \<le> n \<Longrightarrow> \<forall>g. fb_bytes g \<noteq> [] \<and> R g \<longrightarrow> (\<exists>i h. nxt g = Some (i, h) \<and> R h) \<Longrightarrow> R f \<Longrightarrow>
   list_all ok (map ent (iter_collect nxt n f)) \<and> fb_bytes f = enc_all (map ent (iter_collect nxt n f))"
proof (induction n arbitrary: f)
  case 0
  then show ?case by (simp add: fb_len_view)
next
  case (Suc n)
  show ?case
  proof (cases "fb_bytes f = []")
    case True
    then show ?thesis by (simp add: next_end)
  next
    case False
    with Suc.prems obtain i h where h: "nxt f = Some (i, h)" "R h" by blast
    with next_shorter [OF h(1)] Suc have "list_all ok (map ent (iter_collect nxt n h)) \<and>
        fb_bytes h = enc_all (map ent (iter_collect nxt n h))" by simp
    with h next_dec [OF h(1)] show ?thesis by simp
  qed
qed

lemma collect_fixed:
  assumes total: "\<And>g. k \<le> fb_len g \<Longrightarrow> nxt g \<noteq> None" and size: "\<And>e. ok e \<Longrightarrow> length (enc e) = k"
    and d: "k dvd fb_len f" and n: "fb_len f \<le> n"
  shows "list_all ok (map ent (iter_collect nxt n f)) \<and> fb_bytes f = enc_all (map ent (iter_collect nxt n f))"
proof (rule collect_drain [where R = "\<lambda>g. k dvd fb_len g", OF n _ d], safe)
  fix g assume "fb_bytes g \<noteq> []" and dg: "k dvd fb_len g"
  then have "k \<le> fb_len g" by (auto simp: fb_len_view intro: dvd_imp_le)
  with total obtain i h where h: "nxt g = Some (i, h)" by fastforce
  with next_dec [OF h] size have "fb_len g = k + fb_len h" by (simp add: fb_len_view)
  with dg h show "\<exists>i h. nxt g = Some (i, h) \<and> k dvd fb_len h" by (auto simp: dvd_add_right_iff)
qed

end

subsection \<open>The four iterators implement it\<close>

definition enc_gread_target :: "gread_target \<Rightarrow> bytes" where
  "enc_gread_target t = gt_id t # le16_bytes (gt_addr t) @ le16_bytes (gt_count t)"

definition enc_gread_profile_target :: "gread_profile_target \<Rightarrow> bytes" where
  "enc_gread_profile_target t = [gp_id t, gp_slot t]"

definition enc_gwrite_entry :: "frame_id \<times> bytes \<Rightarrow> bytes" where
  "enc_gwrite_entry e = fst e # snd e"

definition enc_gwrite_target :: "frame_id \<times> u16 \<times> bytes \<Rightarrow> bytes" where
  "enc_gwrite_target e =
     (case e of (i, addr, data) \<Rightarrow> i # le16_bytes addr @ of_nat (length data) # data)"

definition gwrite_target_ent :: "gwrite_target \<Rightarrow> frame_id \<times> u16 \<times> bytes" where
  "gwrite_target_ent t = (gw_id t, gw_addr t, fb_bytes (gw_data t))"

lemma length_5_iff: "5 \<le> length xs \<longleftrightarrow> (\<exists>a b c d e r. xs = a # b # c # d # e # r)"
  by (auto simp: numeral_eq_Suc Suc_le_length_iff)

lemma length_4_iff: "4 \<le> length xs \<longleftrightarrow> (\<exists>a b c d r. xs = a # b # c # d # r)"
  by (auto simp: numeral_eq_Suc Suc_le_length_iff)

lemma length_2_iff: "2 \<le> length xs \<longleftrightarrow> (\<exists>a b r. xs = a # b # r)"
  by (auto simp: numeral_eq_Suc Suc_le_length_iff)

lemma drop_4_plus: "drop (4 + k) (a # b # c # d # r) = drop k r"
  by (simp add: numeral_eq_Suc)

lemma gread_per_target_next_view:
  "map_option (map_prod id fb_bytes) (gread_per_target_next f) =
     (case fb_bytes f of
        i # a # b # c # d # r \<Rightarrow> Some (\<lparr> gt_id = i, gt_addr = le16 a b, gt_count = le16 c d \<rparr>, r)
      | _ \<Rightarrow> None)"
  by (auto simp: gread_per_target_next_def parse_view split: list.split)

lemma gread_profile_per_target_next_view:
  "map_option (map_prod id fb_bytes) (gread_profile_per_target_next f) =
     (case fb_bytes f of i # s # r \<Rightarrow> Some (\<lparr> gp_id = i, gp_slot = s \<rparr>, r) | _ \<Rightarrow> None)"
  by (auto simp: gread_profile_per_target_next_def parse_view split: list.split)

lemma gwrite_uniform_next_view:
  "map_option (map_prod (map_prod id fb_bytes) fb_bytes) (gwrite_uniform_next (Suc n) f) =
     (case fb_bytes f of
        i # r \<Rightarrow> if n \<le> length r then Some ((i, take n r), drop n r) else None
      | _ \<Rightarrow> None)"
  by (auto simp: gwrite_uniform_next_def parse_view split: list.split)

lemma gwrite_per_target_next_view:
  "map_option (map_prod gwrite_target_ent fb_bytes) (gwrite_per_target_next f) =
     (case fb_bytes f of
        i # a # b # c # r \<Rightarrow>
          if unat c \<le> length r then Some ((i, le16 a b, take (unat c) r), drop (unat c) r) else None
      | _ \<Rightarrow> None)"
  by (auto simp: gwrite_per_target_next_def gwrite_target_ent_def parse_view Let_def drop_4_plus
      split: list.split)

lemma view_SomeI:
  "map_option (map_prod a b) x = Some (u, v) \<Longrightarrow> \<exists>i g. x = Some (i, g) \<and> a i = u \<and> b g = v"
  by (cases x) auto

lemma view_SomeD: "x = Some (i, g) \<Longrightarrow> Some (a i, b g) = map_option (map_prod a b) x"
  by simp

interpretation gpt: entry_iter gread_per_target_next id enc_gread_target "\<lambda>_. True"
proof
  fix e :: gread_target and f r
  assume "fb_bytes f = enc_gread_target e @ r"
  then show "\<exists>i g. gread_per_target_next f = Some (i, g) \<and> id i = e \<and> fb_bytes g = r"
    by (intro view_SomeI, subst gread_per_target_next_view)
      (simp add: enc_gread_target_def le16_bytes_def)
next
  fix f g :: frame_bytes and i
  assume "gread_per_target_next f = Some (i, g)"
  from view_SomeD [OF this, of id fb_bytes]
  show "True \<and> fb_bytes f = enc_gread_target (id i) @ fb_bytes g"
    by (auto simp: gread_per_target_next_view enc_gread_target_def le16_bytes_le16
        split: list.splits)
qed (auto simp: enc_gread_target_def gread_per_target_next_def parse_view)

interpretation gppt: entry_iter gread_profile_per_target_next id enc_gread_profile_target "\<lambda>_. True"
proof
  fix e :: gread_profile_target and f r
  assume "fb_bytes f = enc_gread_profile_target e @ r"
  then show "\<exists>i g. gread_profile_per_target_next f = Some (i, g) \<and> id i = e \<and> fb_bytes g = r"
    by (intro view_SomeI, subst gread_profile_per_target_next_view)
      (simp add: enc_gread_profile_target_def)
next
  fix f g :: frame_bytes and i
  assume "gread_profile_per_target_next f = Some (i, g)"
  from view_SomeD [OF this, of id fb_bytes]
  show "True \<and> fb_bytes f = enc_gread_profile_target (id i) @ fb_bytes g"
    by (auto simp: gread_profile_per_target_next_view enc_gread_profile_target_def
        split: list.splits)
qed (auto simp: enc_gread_profile_target_def gread_profile_per_target_next_def parse_view)

interpretation gwu: entry_iter "gwrite_uniform_next (Suc n)" "map_prod id fb_bytes" enc_gwrite_entry
    "\<lambda>e. length (snd e) = n" for n
proof
  fix e :: "frame_id \<times> bytes" and f r
  assume "length (snd e) = n" "fb_bytes f = enc_gwrite_entry e @ r"
  then show "\<exists>i g. gwrite_uniform_next (Suc n) f = Some (i, g) \<and> map_prod id fb_bytes i = e \<and>
      fb_bytes g = r"
    by (intro view_SomeI, subst gwrite_uniform_next_view)
      (auto simp: enc_gwrite_entry_def)
next
  fix f g :: frame_bytes and i
  assume "gwrite_uniform_next (Suc n) f = Some (i, g)"
  from view_SomeD [OF this, of "map_prod id fb_bytes" fb_bytes]
  show "length (snd (map_prod id fb_bytes i)) = n \<and>
      fb_bytes f = enc_gwrite_entry (map_prod id fb_bytes i) @ fb_bytes g"
    by (cases i) (auto simp: gwrite_uniform_next_view enc_gwrite_entry_def
        split: list.splits if_splits)
qed (auto simp: enc_gwrite_entry_def gwrite_uniform_next_def parse_view)

interpretation gwpt: entry_iter gwrite_per_target_next gwrite_target_ent enc_gwrite_target
    "\<lambda>(i, addr, data). length data < 256"
proof
  fix e :: "frame_id \<times> u16 \<times> bytes" and f r
  assume "case e of (i, addr, data) \<Rightarrow> length data < 256" "fb_bytes f = enc_gwrite_target e @ r"
  then show "\<exists>i g. gwrite_per_target_next f = Some (i, g) \<and> gwrite_target_ent i = e \<and> fb_bytes g = r"
    by (intro view_SomeI, subst gwrite_per_target_next_view)
      (auto simp: enc_gwrite_target_def le16_bytes_def unat_of_nat)
next
  fix f g :: frame_bytes and i
  assume "gwrite_per_target_next f = Some (i, g)"
  from view_SomeD [OF this, of gwrite_target_ent fb_bytes]
  show "(case gwrite_target_ent i of (i, addr, data) \<Rightarrow> length data < 256) \<and>
      fb_bytes f = enc_gwrite_target (gwrite_target_ent i) @ fb_bytes g"
    by (cases "gwrite_target_ent i")
      (auto simp: gwrite_per_target_next_view enc_gwrite_target_def le16_bytes_le16 min_def
        unat_less_256 split: list.splits if_splits)
qed (auto simp: enc_gwrite_target_def gwrite_per_target_next_def parse_view)

subsection \<open>What the parsers accept\<close>

definition gread_per_target_iter :: "gread_per_target \<Rightarrow> gread_target list" where
  "gread_per_target_iter g =
     iter_collect gread_per_target_next (fb_len (gpt_entries g)) (gpt_entries g)"

definition gread_profile_per_target_iter :: "gread_profile_per_target \<Rightarrow> gread_profile_target list" where
  "gread_profile_per_target_iter g =
     iter_collect gread_profile_per_target_next (fb_len (gppt_entries g)) (gppt_entries g)"

definition gwrite_uniform_iter :: "gwrite_uniform \<Rightarrow> (frame_id \<times> frame_bytes) list" where
  "gwrite_uniform_iter g =
     iter_collect (gwrite_uniform_next (1 + unat (gwu_count g))) (fb_len (gwu_entries g)) (gwu_entries g)"

definition gwrite_per_target_iter :: "gwrite_per_target \<Rightarrow> gwrite_target list" where
  "gwrite_per_target_iter g =
     iter_collect gwrite_per_target_next (fb_len (gwpt_entries g)) (gwpt_entries g)"

lemma gread_uniform_parse_view:
  "map_option (\<lambda>g. (gu_addr g, gu_count g, gread_uniform_ids g)) (gread_uniform_parse f) =
     (case fb_bytes f of
        a # b # c # d # ids \<Rightarrow> if ids = [] then None else Some (le16 a b, le16 c d, ids)
      | _ \<Rightarrow> None)"
  by (auto simp: gread_uniform_parse_def gread_uniform_ids_def parse_view split: list.split)

lemma gread_profile_uniform_parse_view:
  "map_option (\<lambda>g. (gpu_slot g, gread_profile_uniform_ids g)) (gread_profile_uniform_parse f) =
     (case fb_bytes f of s # ids \<Rightarrow> if ids = [] then None else Some (s, ids) | _ \<Rightarrow> None)"
  by (auto simp: gread_profile_uniform_parse_def gread_profile_uniform_ids_def parse_view
      split: list.split)

lemma ragged_rem_mod: "0 < stride \<Longrightarrow> ragged_rem stride rem = rem mod stride"
  by (induction stride rem rule: ragged_rem.induct) (auto simp: le_mod_geq)

declare ragged_rem.simps [simp del]

lemma length_concat_map_const:
  "(\<forall>e\<in>set es. length (enc e) = k) \<Longrightarrow> length (concat (map enc es)) = k * length es"
  by (induction es) simp_all

lemma gread_per_target_parse_enc:
  assumes "ts \<noteq> []" "fb_bytes f = concat (map enc_gread_target ts)"
  shows "\<exists>g. gread_per_target_parse f = Some g \<and> gread_per_target_iter g = ts"
proof -
  have len: "fb_len f = 5 * length ts"
    unfolding fb_len_view assms(2) by (rule length_concat_map_const) (simp add: enc_gread_target_def)
  have "map id (iter_collect gread_per_target_next (fb_len f) f) = ts"
    by (rule gpt.collect_enc) (use assms len in \<open>auto simp: list_all_iff\<close>)
  then show ?thesis
    using assms len by (auto simp: gread_per_target_parse_def gread_per_target_iter_def fb_is_empty_view
        enc_gread_target_def)
qed

lemma gread_per_target_parse_dec:
  assumes "gread_per_target_parse f = Some g"
  shows "gread_per_target_iter g \<noteq> [] \<and>
    fb_bytes f = concat (map enc_gread_target (gread_per_target_iter g))"
proof -
  from assms have g: "g = \<lparr> gpt_entries = f \<rparr>" and ne: "fb_bytes f \<noteq> []" and d: "5 dvd fb_len f"
    by (auto simp: gread_per_target_parse_def fb_is_empty_view split: if_splits)
  have "list_all (\<lambda>_. True) (map id (iter_collect gread_per_target_next (fb_len f) f)) \<and>
      fb_bytes f = concat (map enc_gread_target (map id (iter_collect gread_per_target_next (fb_len f) f)))"
    by (rule gpt.collect_fixed [OF _ _ d])
      (auto simp: enc_gread_target_def gread_per_target_next_def parse_view nth_opt_def)
  with ne show ?thesis by (auto simp: g gread_per_target_iter_def)
qed

lemma gread_profile_per_target_parse_enc:
  assumes "ts \<noteq> []" "fb_bytes f = concat (map enc_gread_profile_target ts)"
  shows "\<exists>g. gread_profile_per_target_parse f = Some g \<and> gread_profile_per_target_iter g = ts"
proof -
  have len: "fb_len f = 2 * length ts"
    unfolding fb_len_view assms(2)
    by (rule length_concat_map_const) (simp add: enc_gread_profile_target_def)
  have "map id (iter_collect gread_profile_per_target_next (fb_len f) f) = ts"
    by (rule gppt.collect_enc) (use assms len in \<open>auto simp: list_all_iff\<close>)
  then show ?thesis
    using assms len by (auto simp: gread_profile_per_target_parse_def gread_profile_per_target_iter_def
        fb_is_empty_view enc_gread_profile_target_def)
qed

lemma gread_profile_per_target_parse_dec:
  assumes "gread_profile_per_target_parse f = Some g"
  shows "gread_profile_per_target_iter g \<noteq> [] \<and>
    fb_bytes f = concat (map enc_gread_profile_target (gread_profile_per_target_iter g))"
proof -
  from assms have g: "g = \<lparr> gppt_entries = f \<rparr>" and ne: "fb_bytes f \<noteq> []" and d: "2 dvd fb_len f"
    by (auto simp: gread_profile_per_target_parse_def fb_is_empty_view split: if_splits)
  have "list_all (\<lambda>_. True) (map id (iter_collect gread_profile_per_target_next (fb_len f) f)) \<and>
      fb_bytes f = concat (map enc_gread_profile_target
        (map id (iter_collect gread_profile_per_target_next (fb_len f) f)))"
    by (rule gppt.collect_fixed [OF _ _ d])
      (auto simp: enc_gread_profile_target_def gread_profile_per_target_next_def parse_view nth_opt_def)
  with ne show ?thesis by (auto simp: g gread_profile_per_target_iter_def)
qed

definition gwrite_uniform_view :: "gwrite_uniform \<Rightarrow> u16 \<times> u8 \<times> (frame_id \<times> bytes) list" where
  "gwrite_uniform_view g =
     (gwu_addr g, gwu_count g, map (map_prod id fb_bytes) (gwrite_uniform_iter g))"

definition gwrite_uniform_ok :: "u16 \<times> u8 \<times> (frame_id \<times> bytes) list \<Rightarrow> bool" where
  "gwrite_uniform_ok a =
     (case a of (addr, count, es) \<Rightarrow>
        count \<noteq> 0 \<and> es \<noteq> [] \<and> list_all (\<lambda>e. length (snd e) = unat count) es)"

definition enc_gwrite_uniform :: "u16 \<times> u8 \<times> (frame_id \<times> bytes) list \<Rightarrow> bytes" where
  "enc_gwrite_uniform a =
     (case a of (addr, count, es) \<Rightarrow> le16_bytes addr @ count # concat (map enc_gwrite_entry es))"

lemma gwrite_uniform_parse_view:
  "map_option (\<lambda>g. (gwu_addr g, gwu_count g, fb_bytes (gwu_entries g))) (gwrite_uniform_parse f) =
     (case fb_bytes f of
        a # b # c # es \<Rightarrow>
          if c = 0 \<or> es = [] \<or> \<not> Suc (unat c) dvd length es then None else Some (le16 a b, c, es)
      | _ \<Rightarrow> None)"
  by (auto simp: gwrite_uniform_parse_def parse_view Let_def ragged_rem_mod dvd_eq_mod_eq_0
      split: list.split)

lemma gwrite_uniform_parse_enc:
  assumes ok: "gwrite_uniform_ok a" and f: "fb_bytes f = enc_gwrite_uniform a"
  shows "\<exists>g. gwrite_uniform_parse f = Some g \<and> gwrite_uniform_view g = a"
proof -
  obtain addr c es where a: "a = (addr, c, es)" by (cases a)
  with ok have len: "length (concat (map enc_gwrite_entry es)) = Suc (unat c) * length es"
    by (intro length_concat_map_const) (auto simp: gwrite_uniform_ok_def enc_gwrite_entry_def list_all_iff)
  moreover have "concat (map enc_gwrite_entry es) \<noteq> []"
    using ok a by (cases es) (auto simp: gwrite_uniform_ok_def enc_gwrite_entry_def)
  moreover have "Suc (unat c) dvd length (concat (map enc_gwrite_entry es))"
    unfolding len by (rule dvd_triv_left)
  ultimately have "map_option (\<lambda>g. (gwu_addr g, gwu_count g, fb_bytes (gwu_entries g)))
      (gwrite_uniform_parse f) = Some (addr, c, concat (map enc_gwrite_entry es))"
    using ok a f
    by (simp add: gwrite_uniform_parse_view enc_gwrite_uniform_def le16_bytes_def gwrite_uniform_ok_def
        del: concat_eq_Nil_conv)
  then obtain g where g: "gwrite_uniform_parse f = Some g" "gwu_addr g = addr" "gwu_count g = c"
      "fb_bytes (gwu_entries g) = concat (map enc_gwrite_entry es)" by auto
  have "map (map_prod id fb_bytes) (gwrite_uniform_iter g) = es"
    unfolding gwrite_uniform_iter_def plus_1_eq_Suc
    by (rule gwu.collect_enc) (use ok a g len in \<open>auto simp: gwrite_uniform_ok_def fb_len_view\<close>)
  with g a show ?thesis by (auto simp: gwrite_uniform_view_def)
qed

lemma gwrite_uniform_parse_dec:
  assumes p: "gwrite_uniform_parse f = Some g"
  shows "gwrite_uniform_ok (gwrite_uniform_view g) \<and> fb_bytes f = enc_gwrite_uniform (gwrite_uniform_view g)"
proof -
  from p have "Some (gwu_addr g, gwu_count g, fb_bytes (gwu_entries g)) =
      (case fb_bytes f of
        a # b # c # es \<Rightarrow>
          if c = 0 \<or> es = [] \<or> \<not> Suc (unat c) dvd length es then None else Some (le16 a b, c, es)
      | _ \<Rightarrow> None)"
    by (simp flip: gwrite_uniform_parse_view)
  then have f: "fb_bytes f = le16_bytes (gwu_addr g) @ gwu_count g # fb_bytes (gwu_entries g)"
    and c: "gwu_count g \<noteq> 0" and ne: "fb_bytes (gwu_entries g) \<noteq> []"
    and d: "Suc (unat (gwu_count g)) dvd fb_len (gwu_entries g)"
    by (auto simp: le16_bytes_le16 fb_len_view split: list.splits if_splits)
  have "list_all (\<lambda>e. length (snd e) = unat (gwu_count g)) (map (map_prod id fb_bytes) (gwrite_uniform_iter g)) \<and>
      fb_bytes (gwu_entries g) =
        concat (map enc_gwrite_entry (map (map_prod id fb_bytes) (gwrite_uniform_iter g)))"
    unfolding gwrite_uniform_iter_def plus_1_eq_Suc
    by (rule gwu.collect_fixed [OF _ _ d])
      (auto simp: enc_gwrite_entry_def gwrite_uniform_next_def parse_view nth_opt_def)
  with f c ne show ?thesis
    by (auto simp: gwrite_uniform_ok_def enc_gwrite_uniform_def gwrite_uniform_view_def)
qed

lemma gwrite_walk_step:
  "gwrite_walk (Suc k) f =
     (if fb_bytes f = [] then Some ()
      else case gwrite_per_target_next f of None \<Rightarrow> None | Some (_, g) \<Rightarrow> gwrite_walk k g)"
  by (auto simp: gwrite_per_target_next_def parse_view Let_def nth_opt_def)

declare gwrite_walk.simps(2) [simp del]

lemma gwrite_walk_enc:
  "list_all (\<lambda>(i, addr, data). length data < 256) es \<Longrightarrow> fb_bytes f = concat (map enc_gwrite_target es) \<Longrightarrow>
   length es \<le> k \<Longrightarrow> gwrite_walk k f = Some ()"
proof (induction es arbitrary: f k)
  case Nil
  then show ?case by (cases k) (simp_all add: gwrite_walk_step fb_is_empty_view)
next
  case (Cons e es)
  then obtain i g where "gwrite_per_target_next f = Some (i, g)"
      "fb_bytes g = concat (map enc_gwrite_target es)"
    using gwpt.next_enc [of e f "concat (map enc_gwrite_target es)"] by auto
  with Cons show ?case by (cases k) (auto simp: gwrite_walk_step)
qed

lemma gwrite_walk_dec:
  "gwrite_walk k f = Some () \<Longrightarrow> k \<le> n \<Longrightarrow>
   list_all (\<lambda>(i, addr, data). length data < 256) (map gwrite_target_ent (iter_collect gwrite_per_target_next n f)) \<and>
   fb_bytes f = concat (map enc_gwrite_target (map gwrite_target_ent (iter_collect gwrite_per_target_next n f)))"
proof (induction k arbitrary: f n)
  case 0
  then show ?case by (cases n) (auto simp: fb_is_empty_view gwpt.next_end split: if_splits)
next
  case (Suc k)
  then obtain m where n: "n = Suc m" "k \<le> m" by (cases n) auto
  show ?case
  proof (cases "gwrite_per_target_next f")
    case None
    with Suc.prems n show ?thesis by (auto simp: gwrite_walk_step split: if_splits)
  next
    case (Some p)
    obtain i g where p: "p = (i, g)" by (cases p)
    with Some Suc.prems have "gwrite_walk k g = Some ()"
      by (auto simp: gwrite_walk_step gwpt.next_end split: if_splits)
    from Suc.IH [OF this n(2)] gwpt.next_dec [OF Some [unfolded p]] Some p n show ?thesis by simp
  qed
qed

definition gwrite_per_target_ok :: "(frame_id \<times> u16 \<times> bytes) list \<Rightarrow> bool" where
  "gwrite_per_target_ok es \<longleftrightarrow> es \<noteq> [] \<and> list_all (\<lambda>(i, addr, data). length data < 256) es"

definition gwrite_per_target_view :: "gwrite_per_target \<Rightarrow> (frame_id \<times> u16 \<times> bytes) list" where
  "gwrite_per_target_view g = map gwrite_target_ent (gwrite_per_target_iter g)"

lemma gwrite_per_target_parse_enc:
  assumes ok: "gwrite_per_target_ok es" and f: "fb_bytes f = concat (map enc_gwrite_target es)"
  shows "\<exists>g. gwrite_per_target_parse f = Some g \<and> gwrite_per_target_view g = es"
proof -
  have len: "length es \<le> fb_len f"
    unfolding fb_len_view f by (rule gwpt.length_enc_all) (use ok in \<open>simp add: gwrite_per_target_ok_def\<close>)
  have "gwrite_walk (fb_len f) f = Some ()"
    by (rule gwrite_walk_enc [OF _ f len]) (use ok in \<open>simp add: gwrite_per_target_ok_def\<close>)
  moreover have "map gwrite_target_ent (iter_collect gwrite_per_target_next (fb_len f) f) = es"
    by (rule gwpt.collect_enc [OF _ f len]) (use ok in \<open>simp add: gwrite_per_target_ok_def\<close>)
  moreover have "fb_bytes f \<noteq> []"
    using len ok by (auto simp: fb_len_view gwrite_per_target_ok_def)
  ultimately show ?thesis
    by (simp add: gwrite_per_target_parse_def fb_is_empty_view gwrite_per_target_view_def
        gwrite_per_target_iter_def)
qed

lemma gwrite_per_target_parse_dec:
  assumes p: "gwrite_per_target_parse f = Some g"
  shows "gwrite_per_target_ok (gwrite_per_target_view g) \<and>
    fb_bytes f = concat (map enc_gwrite_target (gwrite_per_target_view g))"
proof -
  from p have g: "g = \<lparr> gwpt_entries = f \<rparr>" and ne: "fb_bytes f \<noteq> []"
    and w: "gwrite_walk (fb_len f) f = Some ()"
    by (auto simp: gwrite_per_target_parse_def fb_is_empty_view bind_eq_Some_conv split: if_splits)
  from gwrite_walk_dec [OF w le_refl] ne show ?thesis
    by (auto simp: g gwrite_per_target_ok_def gwrite_per_target_view_def gwrite_per_target_iter_def)
qed

end
