(* ===== verification/Osc_Build.thy ===== *)
theory Osc_Build
  imports Osc_Group
begin

text \<open>
  \<open>osc-protocol/src/build.rs\<close>: the payload builders. A builder takes the destination buffer and
  returns the buffer it leaves with the payload length, or \<open>None\<close> (every refusal happens before
  the first store). The locale \<open>payload_codec\<close> is the contract the module documentation states:
  a built payload round-trips through its parser wherever the ring seam falls, and the parser
  accepts nothing else. Every builder/parser pair of the protocol interprets it.
\<close>

subsection \<open>Builders\<close>

definition build_cap :: "bytes \<Rightarrow> nat" where
  "build_cap dst = min (length dst) (unat MAX_PAYLOAD)"

definition build_read :: "bytes \<Rightarrow> u16 \<Rightarrow> u16 \<Rightarrow> (bytes \<times> nat) option" where
  "build_read dst addr count =
     (if build_cap dst < 4 then None
      else Some (put 2 (le16_bytes count) (put 0 (le16_bytes addr) dst), 4))"

definition build_read_profile :: "bytes \<Rightarrow> u8 \<Rightarrow> (bytes \<times> nat) option" where
  "build_read_profile dst slot = (if build_cap dst < 1 then None else Some (dst[0 := slot], 1))"

definition build_write :: "bytes \<Rightarrow> u16 \<Rightarrow> bytes \<Rightarrow> (bytes \<times> nat) option" where
  "build_write dst addr data =
     (let total = 2 + length data
      in if build_cap dst < total then None
         else Some (put 2 data (put 0 (le16_bytes addr) dst), total))"

definition build_gread_uniform ::
    "bytes \<Rightarrow> u16 \<Rightarrow> u16 \<Rightarrow> frame_id list \<Rightarrow> (bytes \<times> nat) option" where
  "build_gread_uniform dst addr count ids =
     (let total = 4 + length ids
      in if ids = [] \<or> build_cap dst < total then None
         else do { (dst', n) \<leftarrow> build_read dst addr count; Some (put 4 ids dst', total) })"

fun put_gread_targets :: "nat \<Rightarrow> gread_target list \<Rightarrow> bytes \<Rightarrow> bytes" where
  "put_gread_targets off [] dst = dst"
| "put_gread_targets off (t # ts) dst =
     put_gread_targets (off + 5) ts
       (put (off + 3) (le16_bytes (gt_count t))
          (put (off + 1) (le16_bytes (gt_addr t)) (dst[off := gt_id t])))"

definition build_gread_per_target :: "bytes \<Rightarrow> gread_target list \<Rightarrow> (bytes \<times> nat) option" where
  "build_gread_per_target dst targets =
     (let total = 5 * length targets
      in if targets = [] \<or> build_cap dst < total then None
         else Some (put_gread_targets 0 targets dst, total))"

definition build_gread_profile_uniform ::
    "bytes \<Rightarrow> u8 \<Rightarrow> frame_id list \<Rightarrow> (bytes \<times> nat) option" where
  "build_gread_profile_uniform dst slot ids =
     (let total = 1 + length ids
      in if ids = [] \<or> build_cap dst < total then None
         else Some (put 1 ids (dst[0 := slot]), total))"

fun put_gread_profile_targets :: "nat \<Rightarrow> gread_profile_target list \<Rightarrow> bytes \<Rightarrow> bytes" where
  "put_gread_profile_targets off [] dst = dst"
| "put_gread_profile_targets off (t # ts) dst =
     put_gread_profile_targets (off + 2) ts (dst[off := gp_id t, off + 1 := gp_slot t])"

definition build_gread_profile_per_target ::
    "bytes \<Rightarrow> gread_profile_target list \<Rightarrow> (bytes \<times> nat) option" where
  "build_gread_profile_per_target dst targets =
     (let total = 2 * length targets
      in if targets = [] \<or> build_cap dst < total then None
         else Some (put_gread_profile_targets 0 targets dst, total))"

record gwu_builder =
  gwub_dst :: bytes
  gwub_len :: nat
  gwub_count :: u8

definition gwu_builder_new :: "bytes \<Rightarrow> u16 \<Rightarrow> u8 \<Rightarrow> gwu_builder option" where
  "gwu_builder_new dst addr count =
     (if count = 0 \<or> build_cap dst < 3 then None
      else Some \<lparr> gwub_dst = (put 0 (le16_bytes addr) dst)[2 := count], gwub_len = 3, gwub_count = count \<rparr>)"

definition gwu_builder_push :: "gwu_builder \<Rightarrow> frame_id \<Rightarrow> bytes \<Rightarrow> gwu_builder option" where
  "gwu_builder_push b i data =
     (if length data \<noteq> unat (gwub_count b) then None
      else let stop = gwub_len b + 1 + length data
           in if build_cap (gwub_dst b) < stop then None
              else Some (b\<lparr> gwub_dst := put (gwub_len b + 1) data ((gwub_dst b)[gwub_len b := i]),
                            gwub_len := stop \<rparr>))"

definition gwu_builder_finish :: "gwu_builder \<Rightarrow> nat option" where
  "gwu_builder_finish b = (if gwub_len b > 3 then Some (gwub_len b) else None)"

record gwpt_builder =
  gwptb_dst :: bytes
  gwptb_len :: nat

definition gwpt_builder_new :: "bytes \<Rightarrow> gwpt_builder" where
  "gwpt_builder_new dst = \<lparr> gwptb_dst = dst, gwptb_len = 0 \<rparr>"

definition gwpt_builder_push :: "gwpt_builder \<Rightarrow> frame_id \<Rightarrow> u16 \<Rightarrow> bytes \<Rightarrow> gwpt_builder option" where
  "gwpt_builder_push b i addr data =
     (if length data > 255 then None
      else let stop = gwptb_len b + 4 + length data; off = gwptb_len b
           in if build_cap (gwptb_dst b) < stop then None
              else Some (b\<lparr> gwptb_dst :=
                              put (off + 4) data
                                ((put (off + 1) (le16_bytes addr) ((gwptb_dst b)[off := i]))
                                   [off + 3 := of_nat (length data)]),
                            gwptb_len := stop \<rparr>))"

definition gwpt_builder_finish :: "gwpt_builder \<Rightarrow> nat option" where
  "gwpt_builder_finish b = (if gwptb_len b > 0 then Some (gwptb_len b) else None)"

definition build_mgmt :: "bytes \<Rightarrow> mgmt_op \<Rightarrow> (bytes \<times> nat) option" where
  "build_mgmt dst op = (if build_cap dst < 1 then None else Some (dst[0 := mgmt_byte op], 1))"

definition build_mgmt_enum :: "bytes \<Rightarrow> u8 \<Rightarrow> bytes \<Rightarrow> (bytes \<times> nat) option" where
  "build_mgmt_enum dst prefix_len prefix =
     (if prefix_len > of_nat (UID_LEN * 8) then None
      else let n = prefix_bytes prefix_len; total = 2 + n
           in if build_cap dst < total then None
              else Some (put 2 (take n prefix) (dst[0 := mgmt_byte MgmtEnum, 1 := prefix_len]), total))"

definition build_mgmt_assign :: "bytes \<Rightarrow> bytes \<Rightarrow> u8 \<Rightarrow> (bytes \<times> nat) option" where
  "build_mgmt_assign dst uid new_id =
     (let total = 2 + UID_LEN
      in if build_cap dst < total then None
         else Some ((put 1 uid (dst[0 := mgmt_byte MgmtAssign]))[1 + UID_LEN := new_id], total))"

definition build_mgmt_cal :: "bytes \<Rightarrow> u16 \<Rightarrow> u8 \<Rightarrow> (bytes \<times> nat) option" where
  "build_mgmt_cal dst gap_us gaps =
     (if gap_us = 0 \<or> gaps = 0 \<or> build_cap dst < 4 then None
      else Some ((put 1 (le16_bytes gap_us) (dst[0 := mgmt_byte MgmtCal]))[3 := gaps], 4))"

subsection \<open>The codec contract\<close>

locale payload_codec =
  fixes build :: "bytes \<Rightarrow> 'a \<Rightarrow> (bytes \<times> nat) option"
    and parse :: "frame_bytes \<Rightarrow> 'r option"
    and req :: "'r \<Rightarrow> 'a" and enc :: "'a \<Rightarrow> bytes" and ok :: "'a \<Rightarrow> bool"
  assumes build_law: "build dst a =
      (if ok a \<and> length (enc a) \<le> build_cap dst then Some (put 0 (enc a) dst, length (enc a)) else None)"
    and parse_enc: "ok a \<Longrightarrow> fb_bytes f = enc a \<Longrightarrow> \<exists>r. parse f = Some r \<and> req r = a"
    and parse_dec: "parse f = Some r \<Longrightarrow> ok (req r) \<and> fb_bytes f = enc (req r)"
begin

lemma round_trip:
  "build dst a = Some (dst', n) \<Longrightarrow> fb_bytes f = take n dst' \<Longrightarrow> \<exists>r. parse f = Some r \<and> req r = a"
  by (rule parse_enc)
    (auto simp: build_law build_cap_def put_def split: if_splits)

lemma build_bounds:
  "build dst a = Some (dst', n) \<Longrightarrow> n \<le> 252 \<and> length dst' = length dst \<and> drop n dst' = drop n dst"
  by (auto simp: build_law build_cap_def put_def MAX_PAYLOAD_def split: if_splits)

lemma seam_invariant: "fb_bytes f = fb_bytes g \<Longrightarrow> map_option req (parse f) = map_option req (parse g)"
proof (cases "parse f")
  case None
  assume e: "fb_bytes f = fb_bytes g"
  have "parse g = None"
  proof (rule ccontr)
    assume "parse g \<noteq> None"
    then obtain r where "parse g = Some r" by blast
    with e parse_dec [of g r] parse_enc [of "req r" f] None show False by auto
  qed
  with None show ?thesis by simp
next
  case (Some r)
  assume "fb_bytes f = fb_bytes g"
  with parse_dec [OF Some] parse_enc [of "req r" g] Some show ?thesis by auto
qed

lemma canonical:
  "parse f = Some r \<Longrightarrow> length (enc (req r)) \<le> build_cap dst \<Longrightarrow>
   build dst (req r) = Some (put 0 (fb_bytes f) dst, fb_len f)"
  using parse_dec [of f r] by (simp add: build_law fb_len_view)

end

subsection \<open>Stores as one slice update\<close>

lemma update_put: "i < length dst \<Longrightarrow> dst[i := v] = put i [v] dst"
  by (simp add: upd_conv_take_nth_drop put_def)

lemma put_put:
  "k = off + length ys \<Longrightarrow> k + length zs \<le> length xs \<Longrightarrow> put k zs (put off ys xs) = put off (ys @ zs) xs"
  by (simp add: put_append)

lemma build_cap_le: "n \<le> build_cap dst \<longleftrightarrow> n \<le> length dst \<and> n \<le> 252"
  by (simp add: build_cap_def MAX_PAYLOAD_def)

lemma build_cap_less: "build_cap dst < n \<longleftrightarrow> length dst < n \<or> 252 < n"
  by (auto simp: build_cap_def MAX_PAYLOAD_def)

lemma build_cap_eq_0 [simp]: "build_cap dst = 0 \<longleftrightarrow> dst = []"
  by (auto simp: build_cap_def MAX_PAYLOAD_def min_def)

lemma update_put_0: "dst \<noteq> [] \<Longrightarrow> dst[0 := v] = put 0 [v] dst"
  by (simp add: update_put)

lemma put_gread_targets_put:
  "off + 5 * length ts \<le> length dst \<Longrightarrow>
   put_gread_targets off ts dst = put off (concat (map enc_gread_target ts)) dst"
proof (induction ts arbitrary: off dst)
  case (Cons t ts)
  have "length (enc_gread_target t) = 5" by (simp add: enc_gread_target_def)
  moreover have "length (concat (map enc_gread_target ts)) = 5 * length ts"
    by (rule length_concat_map_const) (simp add: enc_gread_target_def)
  ultimately show ?case using Cons by (simp add: update_put put_put enc_gread_target_def [of t])
qed simp

lemma put_gread_profile_targets_put:
  "off + 2 * length ts \<le> length dst \<Longrightarrow>
   put_gread_profile_targets off ts dst = put off (concat (map enc_gread_profile_target ts)) dst"
proof (induction ts arbitrary: off dst)
  case (Cons t ts)
  have "length (enc_gread_profile_target t) = 2" by (simp add: enc_gread_profile_target_def)
  moreover have "length (concat (map enc_gread_profile_target ts)) = 2 * length ts"
    by (rule length_concat_map_const) (simp add: enc_gread_profile_target_def)
  ultimately show ?case using Cons by (simp add: update_put put_put enc_gread_profile_target_def [of t])
qed simp

lemmas build_simps = build_cap_le build_cap_less update_put update_put_0 put_put Suc_le_eq not_le not_less Let_def

subsection \<open>Every builder and parser pair is a codec\<close>

definition enc_read :: "u16 \<times> u16 \<Rightarrow> bytes" where
  "enc_read a = le16_bytes (fst a) @ le16_bytes (snd a)"

interpretation c_read: payload_codec "\<lambda>dst (addr, count). build_read dst addr count" read_req_parse
  "\<lambda>r. (rr_addr r, rr_count r)" enc_read "\<lambda>_. True"
proof
  fix dst a show "(case a of (addr, count) \<Rightarrow> build_read dst addr count) =
      (if True \<and> length (enc_read a) \<le> build_cap dst then Some (put 0 (enc_read a) dst, length (enc_read a))
       else None)"
    by (cases a) (auto simp: build_read_def enc_read_def build_simps)
next
  fix a f assume "fb_bytes f = enc_read a"
  then show "\<exists>r. read_req_parse f = Some r \<and> (rr_addr r, rr_count r) = a"
    by (cases a) (simp add: read_req_parse_view enc_read_def le16_bytes_def)
next
  fix f r assume "read_req_parse f = Some r"
  then show "True \<and> fb_bytes f = enc_read (rr_addr r, rr_count r)"
    by (auto simp: read_req_parse_view enc_read_def le16_bytes_le16 split: list.splits)
qed

interpretation c_read_profile: payload_codec build_read_profile profile_req_parse pr_slot "\<lambda>s. [s]" "\<lambda>_. True"
  by unfold_locales
    (auto simp: build_read_profile_def build_simps profile_req_parse_view split: list.splits)

definition enc_write :: "u16 \<times> bytes \<Rightarrow> bytes" where
  "enc_write a = le16_bytes (fst a) @ snd a"

definition write_view :: "write_req \<Rightarrow> u16 \<times> bytes" where
  "write_view r = (wr_addr r, fb_bytes (wr_data r))"

interpretation c_write: payload_codec "\<lambda>dst (addr, data). build_write dst addr data" write_req_parse
  write_view enc_write "\<lambda>_. True"
proof
  fix dst a show "(case a of (addr, data) \<Rightarrow> build_write dst addr data) =
      (if True \<and> length (enc_write a) \<le> build_cap dst then Some (put 0 (enc_write a) dst, length (enc_write a))
       else None)"
    by (cases a) (auto simp: build_write_def enc_write_def build_simps)
next
  fix a f assume "fb_bytes f = enc_write a"
  then show "\<exists>r. write_req_parse f = Some r \<and> write_view r = a"
    using write_req_parse_view [of f]
    by (cases a) (auto simp: write_view_def enc_write_def le16_bytes_def)
next
  fix f r assume "write_req_parse f = Some r"
  then show "True \<and> fb_bytes f = enc_write (write_view r)"
    using write_req_parse_view [of f]
    by (auto simp: write_view_def enc_write_def le16_bytes_le16 split: list.splits)
qed

definition enc_gread_uniform :: "u16 \<times> u16 \<times> frame_id list \<Rightarrow> bytes" where
  "enc_gread_uniform a = (case a of (addr, count, ids) \<Rightarrow> le16_bytes addr @ le16_bytes count @ ids)"

definition gread_uniform_view :: "gread_uniform \<Rightarrow> u16 \<times> u16 \<times> frame_id list" where
  "gread_uniform_view g = (gu_addr g, gu_count g, gread_uniform_ids g)"

interpretation c_gread_uniform: payload_codec
  "\<lambda>dst (addr, count, ids). build_gread_uniform dst addr count ids" gread_uniform_parse
  gread_uniform_view enc_gread_uniform "\<lambda>(addr, count, ids). ids \<noteq> []"
proof
  fix dst and a :: "u16 \<times> u16 \<times> frame_id list"
  show "(case a of (addr, count, ids) \<Rightarrow> build_gread_uniform dst addr count ids) =
      (if (case a of (addr, count, ids) \<Rightarrow> ids \<noteq> []) \<and> length (enc_gread_uniform a) \<le> build_cap dst
       then Some (put 0 (enc_gread_uniform a) dst, length (enc_gread_uniform a)) else None)"
    by (cases a) (auto simp: build_gread_uniform_def build_read_def enc_gread_uniform_def build_simps)
next
  fix a f assume "case a of (addr, count, ids) \<Rightarrow> ids \<noteq> []" "fb_bytes f = enc_gread_uniform a"
  then show "\<exists>r. gread_uniform_parse f = Some r \<and> gread_uniform_view r = a"
    using gread_uniform_parse_view [of f]
    by (cases a) (auto simp: gread_uniform_view_def enc_gread_uniform_def le16_bytes_def)
next
  fix f r assume "gread_uniform_parse f = Some r"
  then show "(case gread_uniform_view r of (addr, count, ids) \<Rightarrow> ids \<noteq> []) \<and>
      fb_bytes f = enc_gread_uniform (gread_uniform_view r)"
    using gread_uniform_parse_view [of f]
    by (auto simp: gread_uniform_view_def enc_gread_uniform_def le16_bytes_le16
        split: list.splits if_splits)
qed

definition enc_gread_profile_uniform :: "u8 \<times> frame_id list \<Rightarrow> bytes" where
  "enc_gread_profile_uniform a = fst a # snd a"

definition gread_profile_uniform_view :: "gread_profile_uniform \<Rightarrow> u8 \<times> frame_id list" where
  "gread_profile_uniform_view g = (gpu_slot g, gread_profile_uniform_ids g)"

interpretation c_gread_profile_uniform: payload_codec
  "\<lambda>dst (slot, ids). build_gread_profile_uniform dst slot ids" gread_profile_uniform_parse
  gread_profile_uniform_view enc_gread_profile_uniform "\<lambda>(slot, ids). ids \<noteq> []"
proof
  fix dst and a :: "u8 \<times> frame_id list"
  show "(case a of (slot, ids) \<Rightarrow> build_gread_profile_uniform dst slot ids) =
      (if (case a of (slot, ids) \<Rightarrow> ids \<noteq> []) \<and> length (enc_gread_profile_uniform a) \<le> build_cap dst
       then Some (put 0 (enc_gread_profile_uniform a) dst, length (enc_gread_profile_uniform a)) else None)"
    by (cases a; cases dst)
      (auto simp: build_gread_profile_uniform_def enc_gread_profile_uniform_def put_def build_simps)
next
  fix a f assume "case a of (slot, ids) \<Rightarrow> ids \<noteq> []" "fb_bytes f = enc_gread_profile_uniform a"
  then show "\<exists>r. gread_profile_uniform_parse f = Some r \<and> gread_profile_uniform_view r = a"
    using gread_profile_uniform_parse_view [of f]
    by (cases a) (auto simp: gread_profile_uniform_view_def enc_gread_profile_uniform_def)
next
  fix f r assume "gread_profile_uniform_parse f = Some r"
  then show "(case gread_profile_uniform_view r of (slot, ids) \<Rightarrow> ids \<noteq> []) \<and>
      fb_bytes f = enc_gread_profile_uniform (gread_profile_uniform_view r)"
    using gread_profile_uniform_parse_view [of f]
    by (auto simp: gread_profile_uniform_view_def enc_gread_profile_uniform_def
        split: list.splits if_splits)
qed

lemma length_enc_gread_targets: "length (concat (map enc_gread_target ts)) = 5 * length ts"
  by (rule length_concat_map_const) (simp add: enc_gread_target_def)

lemma length_enc_gread_profile_targets:
  "length (concat (map enc_gread_profile_target ts)) = 2 * length ts"
  by (rule length_concat_map_const) (simp add: enc_gread_profile_target_def)

interpretation c_gread_per_target: payload_codec build_gread_per_target gread_per_target_parse
  gread_per_target_iter "\<lambda>ts. concat (map enc_gread_target ts)" "\<lambda>ts. ts \<noteq> []"
proof
  fix dst ts show "build_gread_per_target dst ts =
      (if ts \<noteq> [] \<and> length (concat (map enc_gread_target ts)) \<le> build_cap dst
       then Some (put 0 (concat (map enc_gread_target ts)) dst, length (concat (map enc_gread_target ts)))
       else None)"
    unfolding build_gread_per_target_def length_enc_gread_targets Let_def
    by (auto simp: put_gread_targets_put build_cap_le build_cap_less not_less)
next
  fix ts f assume "ts \<noteq> []" "fb_bytes f = concat (map enc_gread_target ts)"
  then show "\<exists>r. gread_per_target_parse f = Some r \<and> gread_per_target_iter r = ts"
    by (rule gread_per_target_parse_enc)
next
  fix f r assume "gread_per_target_parse f = Some r"
  then show "gread_per_target_iter r \<noteq> [] \<and> fb_bytes f = concat (map enc_gread_target (gread_per_target_iter r))"
    by (rule gread_per_target_parse_dec)
qed

interpretation c_gread_profile_per_target: payload_codec build_gread_profile_per_target
  gread_profile_per_target_parse gread_profile_per_target_iter
  "\<lambda>ts. concat (map enc_gread_profile_target ts)" "\<lambda>ts. ts \<noteq> []"
proof
  fix dst ts show "build_gread_profile_per_target dst ts =
      (if ts \<noteq> [] \<and> length (concat (map enc_gread_profile_target ts)) \<le> build_cap dst
       then Some (put 0 (concat (map enc_gread_profile_target ts)) dst,
                  length (concat (map enc_gread_profile_target ts)))
       else None)"
    unfolding build_gread_profile_per_target_def length_enc_gread_profile_targets Let_def
    by (auto simp: put_gread_profile_targets_put build_cap_le build_cap_less not_less)
next
  fix ts f assume "ts \<noteq> []" "fb_bytes f = concat (map enc_gread_profile_target ts)"
  then show "\<exists>r. gread_profile_per_target_parse f = Some r \<and> gread_profile_per_target_iter r = ts"
    by (rule gread_profile_per_target_parse_enc)
next
  fix f r assume "gread_profile_per_target_parse f = Some r"
  then show "gread_profile_per_target_iter r \<noteq> [] \<and>
      fb_bytes f = concat (map enc_gread_profile_target (gread_profile_per_target_iter r))"
    by (rule gread_profile_per_target_parse_dec)
qed

text \<open>The two GWRITE builders are used as one construction, a push per entry, then \<open>finish\<close>.\<close>

fun gwu_builder_pushes :: "gwu_builder \<Rightarrow> (frame_id \<times> bytes) list \<Rightarrow> gwu_builder option" where
  "gwu_builder_pushes b [] = Some b"
| "gwu_builder_pushes b ((i, d) # es) = do { b' \<leftarrow> gwu_builder_push b i d; gwu_builder_pushes b' es }"

definition build_gwrite_uniform ::
    "bytes \<Rightarrow> u16 \<times> u8 \<times> (frame_id \<times> bytes) list \<Rightarrow> (bytes \<times> nat) option" where
  "build_gwrite_uniform dst a =
     (case a of (addr, count, es) \<Rightarrow>
        do { b \<leftarrow> gwu_builder_new dst addr count;
             b \<leftarrow> gwu_builder_pushes b es;
             n \<leftarrow> gwu_builder_finish b;
             Some (gwub_dst b, n) })"

fun gwpt_builder_pushes :: "gwpt_builder \<Rightarrow> (frame_id \<times> u16 \<times> bytes) list \<Rightarrow> gwpt_builder option" where
  "gwpt_builder_pushes b [] = Some b"
| "gwpt_builder_pushes b ((i, a, d) # es) =
     do { b' \<leftarrow> gwpt_builder_push b i a d; gwpt_builder_pushes b' es }"

definition build_gwrite_per_target ::
    "bytes \<Rightarrow> (frame_id \<times> u16 \<times> bytes) list \<Rightarrow> (bytes \<times> nat) option" where
  "build_gwrite_per_target dst es =
     do { b \<leftarrow> gwpt_builder_pushes (gwpt_builder_new dst) es;
          n \<leftarrow> gwpt_builder_finish b;
          Some (gwptb_dst b, n) }"

lemma gwu_builder_pushes_law:
  "gwub_len b \<le> length (gwub_dst b) \<Longrightarrow> gwub_len b \<le> 252 \<Longrightarrow>
   gwu_builder_pushes b es =
     (let w = concat (map enc_gwrite_entry es); stop = gwub_len b + length w
      in if list_all (\<lambda>e. length (snd e) = unat (gwub_count b)) es \<and> stop \<le> build_cap (gwub_dst b)
         then Some (b\<lparr> gwub_dst := put (gwub_len b) w (gwub_dst b), gwub_len := stop \<rparr>) else None)"
proof (induction es arbitrary: b)
  case Nil
  then show ?case by (simp add: build_simps)
next
  case (Cons e es)
  obtain i d where e: "e = (i, d)" by (cases e)
  show ?case
  proof (cases "length d = unat (gwub_count b) \<and> gwub_len b + 1 + length d \<le> build_cap (gwub_dst b)")
    case True
    let ?b = "b\<lparr> gwub_dst := put (gwub_len b + 1) d ((gwub_dst b)[gwub_len b := i]),
                 gwub_len := gwub_len b + 1 + length d \<rparr>"
    have push: "gwu_builder_push b i d = Some ?b"
      using True by (simp add: gwu_builder_push_def build_simps)
    have "gwu_builder_pushes ?b es =
        (let w = concat (map enc_gwrite_entry es); stop = gwub_len ?b + length w
         in if list_all (\<lambda>e. length (snd e) = unat (gwub_count ?b)) es \<and> stop \<le> build_cap (gwub_dst ?b)
            then Some (?b\<lparr> gwub_dst := put (gwub_len ?b) w (gwub_dst ?b), gwub_len := stop \<rparr>) else None)"
      by (rule Cons.IH) (use True in \<open>simp_all add: build_simps\<close>)
    then show ?thesis
      using True by (auto simp: e push enc_gwrite_entry_def [of "(i, d)"] build_simps)
  next
    case False
    then show ?thesis
      by (auto simp: e gwu_builder_push_def enc_gwrite_entry_def [of "(i, d)"] build_simps)
  qed
qed

lemma gwpt_builder_pushes_law:
  "gwptb_len b \<le> length (gwptb_dst b) \<Longrightarrow> gwptb_len b \<le> 252 \<Longrightarrow>
   gwpt_builder_pushes b es =
     (let w = concat (map enc_gwrite_target es); stop = gwptb_len b + length w
      in if list_all (\<lambda>(i, a, d). length d < 256) es \<and> stop \<le> build_cap (gwptb_dst b)
         then Some (b\<lparr> gwptb_dst := put (gwptb_len b) w (gwptb_dst b), gwptb_len := stop \<rparr>) else None)"
proof (induction es arbitrary: b)
  case Nil
  then show ?case by (simp add: build_simps)
next
  case (Cons e es)
  obtain i a d where e: "e = (i, a, d)" by (cases e)
  show ?case
  proof (cases "length d < 256 \<and> gwptb_len b + 4 + length d \<le> build_cap (gwptb_dst b)")
    case True
    let ?b = "b\<lparr> gwptb_dst := put (gwptb_len b) (enc_gwrite_target (i, a, d)) (gwptb_dst b),
                 gwptb_len := gwptb_len b + 4 + length d \<rparr>"
    have push: "gwpt_builder_push b i a d = Some ?b"
      using True by (simp add: gwpt_builder_push_def enc_gwrite_target_def build_simps)
    have "gwpt_builder_pushes ?b es =
        (let w = concat (map enc_gwrite_target es); stop = gwptb_len ?b + length w
         in if list_all (\<lambda>(i, a, d). length d < 256) es \<and> stop \<le> build_cap (gwptb_dst ?b)
            then Some (?b\<lparr> gwptb_dst := put (gwptb_len ?b) w (gwptb_dst ?b), gwptb_len := stop \<rparr>) else None)"
      by (rule Cons.IH) (use True in \<open>simp_all add: build_simps enc_gwrite_target_def\<close>)
    then show ?thesis
      using True by (auto simp: e push enc_gwrite_target_def [of "(i, a, d)"] build_simps)
  next
    case False
    then show ?thesis
      by (auto simp: e gwpt_builder_push_def enc_gwrite_target_def [of "(i, a, d)"] build_simps)
  qed
qed

lemma enc_gwrite_entries_ne: "es \<noteq> [] \<Longrightarrow> concat (map enc_gwrite_entry es) \<noteq> []"
  by (cases es) (simp_all add: enc_gwrite_entry_def)

lemma enc_gwrite_targets_ne: "es \<noteq> [] \<Longrightarrow> concat (map enc_gwrite_target es) \<noteq> []"
  by (cases es) (auto simp: enc_gwrite_target_def split: prod.splits)

lemma build_gwrite_uniform_law:
  "build_gwrite_uniform dst a =
     (if gwrite_uniform_ok a \<and> length (enc_gwrite_uniform a) \<le> build_cap dst
      then Some (put 0 (enc_gwrite_uniform a) dst, length (enc_gwrite_uniform a)) else None)"
proof -
  obtain addr c es where a: "a = (addr, c, es)" by (cases a)
  show ?thesis
  proof (cases "c = 0 \<or> build_cap dst < 3")
    case True
    then show ?thesis
      by (auto simp: a build_gwrite_uniform_def gwu_builder_new_def gwrite_uniform_ok_def
          enc_gwrite_uniform_def build_simps)
  next
    case False
    let ?b = "\<lparr> gwub_dst = put 0 (le16_bytes addr @ [c]) dst, gwub_len = 3, gwub_count = c \<rparr>"
    have new: "gwu_builder_new dst addr c = Some ?b"
      using False by (simp add: gwu_builder_new_def build_simps)
    have len: "length (gwub_dst ?b) = length dst" "3 \<le> length dst"
      using False by (simp_all add: build_simps)
    then show ?thesis
      using False enc_gwrite_entries_ne [of es]
      by (auto simp: a build_gwrite_uniform_def new gwu_builder_pushes_law gwu_builder_finish_def
          gwrite_uniform_ok_def enc_gwrite_uniform_def build_simps simp del: concat_eq_Nil_conv)
  qed
qed

lemma build_gwrite_per_target_law:
  "build_gwrite_per_target dst es =
     (if gwrite_per_target_ok es \<and> length (concat (map enc_gwrite_target es)) \<le> build_cap dst
      then Some (put 0 (concat (map enc_gwrite_target es)) dst, length (concat (map enc_gwrite_target es)))
      else None)"
  using enc_gwrite_targets_ne [of es]
  by (auto simp: build_gwrite_per_target_def gwpt_builder_new_def gwpt_builder_pushes_law Let_def
      gwpt_builder_finish_def gwrite_per_target_ok_def build_cap_le simp del: concat_eq_Nil_conv)

interpretation c_gwrite_uniform: payload_codec build_gwrite_uniform gwrite_uniform_parse
  gwrite_uniform_view enc_gwrite_uniform gwrite_uniform_ok
  by unfold_locales
    (fact build_gwrite_uniform_law gwrite_uniform_parse_enc gwrite_uniform_parse_dec)+

interpretation c_gwrite_per_target: payload_codec build_gwrite_per_target gwrite_per_target_parse
  gwrite_per_target_view "\<lambda>es. concat (map enc_gwrite_target es)" gwrite_per_target_ok
  by unfold_locales
    (fact build_gwrite_per_target_law gwrite_per_target_parse_enc gwrite_per_target_parse_dec)+

text \<open>The management payloads go through two parsers, the sub-op and then its arguments.\<close>

definition mgmt_parse_bare :: "frame_bytes \<Rightarrow> mgmt_op option" where
  "mgmt_parse_bare f = do { m \<leftarrow> mgmt_req_parse f; if fb_is_empty (mr_args m) then Some (mr_op m) else None }"

definition mgmt_parse_enum :: "frame_bytes \<Rightarrow> enum_req option" where
  "mgmt_parse_enum f =
     do { m \<leftarrow> mgmt_req_parse f; if mr_op m = MgmtEnum then enum_req_parse (mr_args m) else None }"

definition mgmt_parse_assign :: "frame_bytes \<Rightarrow> assign_req option" where
  "mgmt_parse_assign f =
     do { m \<leftarrow> mgmt_req_parse f; if mr_op m = MgmtAssign then assign_req_parse (mr_args m) else None }"

definition mgmt_parse_cal :: "frame_bytes \<Rightarrow> cal_req option" where
  "mgmt_parse_cal f =
     do { m \<leftarrow> mgmt_req_parse f; if mr_op m = MgmtCal then cal_req_parse (mr_args m) else None }"

lemma mgmt_req_parse_Some:
  "mgmt_req_parse f = Some m \<Longrightarrow> fb_bytes f = mgmt_byte (mr_op m) # fb_bytes (mr_args m)"
  using mgmt_req_parse_view [of f]
  by (auto simp: map_option_case mgmt_from_byte_Some_iff split: list.splits option.splits)

lemma mgmt_req_parse_byte:
  "fb_bytes f = mgmt_byte op # args \<Longrightarrow>
   \<exists>m. mgmt_req_parse f = Some m \<and> mr_op m = op \<and> fb_bytes (mr_args m) = args"
  using mgmt_req_parse_view [of f] by auto

interpretation c_mgmt: payload_codec build_mgmt mgmt_parse_bare "\<lambda>op. op" "\<lambda>op. [mgmt_byte op]" "\<lambda>_. True"
proof
  fix dst op show "build_mgmt dst op = (if True \<and> length [mgmt_byte op] \<le> build_cap dst
      then Some (put 0 [mgmt_byte op] dst, length [mgmt_byte op]) else None)"
    by (cases dst) (auto simp: build_mgmt_def put_def build_simps)
next
  fix op f assume "fb_bytes f = [mgmt_byte op]"
  from mgmt_req_parse_byte [OF this] show "\<exists>r. mgmt_parse_bare f = Some r \<and> r = op"
    by (auto simp: mgmt_parse_bare_def fb_is_empty_view)
next
  fix f op assume "mgmt_parse_bare f = Some op"
  then show "True \<and> fb_bytes f = [mgmt_byte op]"
    by (auto simp: mgmt_parse_bare_def fb_is_empty_view bind_eq_Some_conv dest!: mgmt_req_parse_Some
        split: if_splits)
qed

definition enc_cal :: "u16 \<times> u8 \<Rightarrow> bytes" where
  "enc_cal a = mgmt_byte MgmtCal # le16_bytes (fst a) @ [snd a]"

interpretation c_cal: payload_codec "\<lambda>dst (gap, gaps). build_mgmt_cal dst gap gaps" mgmt_parse_cal
  "\<lambda>r. (cr_gap_us r, cr_gaps r)" enc_cal "\<lambda>(gap, gaps). gap \<noteq> 0 \<and> gaps \<noteq> 0"
proof
  fix dst and a :: "u16 \<times> u8"
  show "(case a of (gap, gaps) \<Rightarrow> build_mgmt_cal dst gap gaps) =
      (if (case a of (gap, gaps) \<Rightarrow> gap \<noteq> 0 \<and> gaps \<noteq> 0) \<and> length (enc_cal a) \<le> build_cap dst
       then Some (put 0 (enc_cal a) dst, length (enc_cal a)) else None)"
    by (cases a; cases dst) (auto simp: build_mgmt_cal_def enc_cal_def put_def build_simps numeral_3_eq_3)
next
  fix a f assume "case a of (gap, gaps) \<Rightarrow> gap \<noteq> 0 \<and> gaps \<noteq> 0" "fb_bytes f = enc_cal a"
  then show "\<exists>r. mgmt_parse_cal f = Some r \<and> (cr_gap_us r, cr_gaps r) = a"
    using mgmt_req_parse_byte [of f MgmtCal "le16_bytes (fst a) @ [snd a]"]
    by (cases a) (auto simp: mgmt_parse_cal_def enc_cal_def cal_req_parse_view le16_bytes_def)
next
  fix f r assume "mgmt_parse_cal f = Some r"
  then show "(case (cr_gap_us r, cr_gaps r) of (gap, gaps) \<Rightarrow> gap \<noteq> 0 \<and> gaps \<noteq> 0) \<and>
      fb_bytes f = enc_cal (cr_gap_us r, cr_gaps r)"
    by (auto simp: mgmt_parse_cal_def enc_cal_def bind_eq_Some_conv cal_req_parse_view le16_bytes_le16
        dest!: mgmt_req_parse_Some split: if_splits list.splits)
qed

definition enc_assign :: "bytes \<times> u8 \<Rightarrow> bytes" where
  "enc_assign a = mgmt_byte MgmtAssign # fst a @ [snd a]"

text \<open>The \<open>[u8; 16]\<close> argument type of the builder is the length premise of the codec.\<close>

interpretation c_assign: payload_codec
  "\<lambda>dst (uid, new_id). if length uid = UID_LEN then build_mgmt_assign dst uid new_id else None"
  mgmt_parse_assign "\<lambda>r. (ar_uid r, ar_new_id r)" enc_assign "\<lambda>(uid, new_id). length uid = UID_LEN"
proof
  fix dst and a :: "bytes \<times> u8"
  show "(case a of (uid, new_id) \<Rightarrow> if length uid = UID_LEN then build_mgmt_assign dst uid new_id else None) =
      (if (case a of (uid, new_id) \<Rightarrow> length uid = UID_LEN) \<and> length (enc_assign a) \<le> build_cap dst
       then Some (put 0 (enc_assign a) dst, length (enc_assign a)) else None)"
    by (cases a; cases "dst = []")
      (auto simp: build_mgmt_assign_def enc_assign_def UID_LEN_def build_simps)
next
  fix a f assume "case a of (uid, new_id) \<Rightarrow> length uid = UID_LEN" "fb_bytes f = enc_assign a"
  then show "\<exists>r. mgmt_parse_assign f = Some r \<and> (ar_uid r, ar_new_id r) = a"
    using mgmt_req_parse_byte [of f MgmtAssign "fst a @ [snd a]"]
    by (cases a) (auto simp: mgmt_parse_assign_def enc_assign_def assign_req_parse_view nth_append)
next
  fix f r assume "mgmt_parse_assign f = Some r"
  then obtain m where m: "mgmt_req_parse f = Some m" "mr_op m = MgmtAssign"
      "assign_req_parse (mr_args m) = Some r"
    by (auto simp: mgmt_parse_assign_def bind_eq_Some_conv split: if_splits)
  moreover have "take UID_LEN xs @ [xs ! UID_LEN] = xs" if "length xs = UID_LEN + 1" for xs :: bytes
    using that by (metis add_Suc_right add.right_neutral One_nat_def lessI take_Suc_conv_app_nth take_all
        le_refl)
  ultimately show "(case (ar_uid r, ar_new_id r) of (uid, new_id) \<Rightarrow> length uid = UID_LEN) \<and>
      fb_bytes f = enc_assign (ar_uid r, ar_new_id r)"
    using mgmt_req_parse_Some [of f m]
    by (auto simp: assign_req_parse_view enc_assign_def split: if_splits)
qed

definition enc_enum :: "u8 \<times> bytes \<Rightarrow> bytes" where
  "enc_enum a = mgmt_byte MgmtEnum # fst a # take (prefix_bytes (fst a)) (snd a)"

definition enum_ok :: "u8 \<times> bytes \<Rightarrow> bool" where
  "enum_ok a \<longleftrightarrow> fst a \<le> MAX_PREFIX_BITS \<and> length (snd a) = UID_LEN \<and>
     drop (prefix_bytes (fst a)) (snd a) = replicate (UID_LEN - prefix_bytes (fst a)) 0"

text \<open>ENUM carries the significant prefix bytes only, so the codec ranges over prefixes padded
  with zeros; \<open>build_mgmt_enum_pad\<close> covers the others.\<close>

lemma build_mgmt_enum_law:
  assumes "length prefix = UID_LEN"
  shows "build_mgmt_enum dst p prefix =
    (if p \<le> MAX_PREFIX_BITS \<and> length (enc_enum (p, prefix)) \<le> build_cap dst
     then Some (put 0 (enc_enum (p, prefix)) dst, length (enc_enum (p, prefix))) else None)"
proof -
  have "\<not> of_nat (UID_LEN * 8) < p \<Longrightarrow> prefix_bytes p \<le> length prefix"
    using assms prefix_bytes_bound [of p] by (simp add: UID_LEN_def MAX_PREFIX_BITS_def not_less)
  then show ?thesis
    by (cases "dst = []")
      (auto simp: build_mgmt_enum_def enc_enum_def MAX_PREFIX_BITS_def UID_LEN_def build_simps)
qed

lemma build_mgmt_enum_pad:
  "build_mgmt_enum dst p prefix = build_mgmt_enum dst p
     (take (prefix_bytes p) prefix @ replicate (UID_LEN - prefix_bytes p) 0)"
  if "length prefix = UID_LEN"
  using that prefix_bytes_bound [of p]
  by (auto simp: build_mgmt_enum_def Let_def MAX_PREFIX_BITS_def UID_LEN_def min_def)

interpretation c_enum: payload_codec
  "\<lambda>dst a. if enum_ok a then build_mgmt_enum dst (fst a) (snd a) else None"
  mgmt_parse_enum "\<lambda>r. (er_prefix_len r, er_prefix r)" enc_enum enum_ok
proof
  fix dst a
  show "(if enum_ok a then build_mgmt_enum dst (fst a) (snd a) else None) =
      (if enum_ok a \<and> length (enc_enum a) \<le> build_cap dst
       then Some (put 0 (enc_enum a) dst, length (enc_enum a)) else None)"
    using build_mgmt_enum_law [of "snd a" dst "fst a"] by (auto simp: enum_ok_def)
next
  fix a f assume ok: "enum_ok a" and f: "fb_bytes f = enc_enum a"
  then have "length (take (prefix_bytes (fst a)) (snd a)) = prefix_bytes (fst a)"
    using prefix_bytes_bound [of "fst a"] by (simp add: enum_ok_def)
  moreover have "take (prefix_bytes (fst a)) (snd a) @ replicate (UID_LEN - prefix_bytes (fst a)) 0 = snd a"
    using ok append_take_drop_id [of "prefix_bytes (fst a)" "snd a"] by (simp add: enum_ok_def)
  ultimately show "\<exists>r. mgmt_parse_enum f = Some r \<and> (er_prefix_len r, er_prefix r) = a"
    using f ok mgmt_req_parse_byte [of f MgmtEnum "fst a # take (prefix_bytes (fst a)) (snd a)"]
    by (cases a) (auto simp: mgmt_parse_enum_def enc_enum_def enum_req_parse_view enum_ok_def)
next
  fix f r assume "mgmt_parse_enum f = Some r"
  then obtain m where "mgmt_req_parse f = Some m" "mr_op m = MgmtEnum" "enum_req_parse (mr_args m) = Some r"
    by (auto simp: mgmt_parse_enum_def bind_eq_Some_conv split: if_splits)
  then show "enum_ok (er_prefix_len r, er_prefix r) \<and> fb_bytes f = enc_enum (er_prefix_len r, er_prefix r)"
    using mgmt_req_parse_Some [of f m] prefix_bytes_bound [of "er_prefix_len r"]
    by (auto simp: enum_req_parse_view enc_enum_def enum_ok_def split: if_splits list.splits)
qed

subsection \<open>Properties\<close>

text \<open>Round trip of a WRITE payload: whatever address and data, and wherever the ring seam
  splits the received bytes, what \<open>build::write\<close> puts into the buffer is parsed back to the same
  address and data; the bytes after the payload are left alone.\<close>

theorem write_round_trip:
  assumes b: "build_write dst addr data = Some (dst', n)" and f: "fb_bytes f = take n dst'"
  shows "\<exists>r. write_req_parse f = Some r \<and> wr_addr r = addr \<and> fb_bytes (wr_data r) = data \<and>
    n \<le> 252 \<and> drop n dst' = drop n dst"
  using c_write.round_trip [of dst "(addr, data)" dst' n f] c_write.build_bounds [of dst "(addr, data)" dst' n]
    b f by (auto simp: write_view_def)

theorem write_round_trip_witness:
  "\<exists>r. write_req_parse (fb_new [0x80] [0x01, 7, 8]) = Some r \<and> wr_addr r = 0x180 \<and>
     fb_bytes (wr_data r) = [7, 8] \<and> (4::nat) \<le> 252 \<and>
     drop 4 [0x80, 0x01, 7, 8, 9] = drop 4 [0 :: u8, 0, 0, 0, 9]"
  by (rule write_round_trip) (simp_all add: build_write_def build_cap_def MAX_PAYLOAD_def put_def le16_bytes_def)

text \<open>Round trip of the two GWRITE forms: the entries pushed into a builder, in order, are the
  entries the parsed frame iterates over, wherever the seam falls; a builder that refuses an entry
  never yields a length.\<close>

theorem gwrite_round_trip:
  "(build_gwrite_uniform dst a = Some (dst', n) \<longrightarrow> fb_bytes f = take n dst' \<longrightarrow>
      (\<exists>g. gwrite_uniform_parse f = Some g \<and> gwrite_uniform_view g = a)) \<and>
   (build_gwrite_per_target dst es = Some (dst', n) \<longrightarrow> fb_bytes f = take n dst' \<longrightarrow>
      (\<exists>g. gwrite_per_target_parse f = Some g \<and> gwrite_per_target_view g = es))"
  using c_gwrite_uniform.round_trip c_gwrite_per_target.round_trip by blast

theorem gwrite_round_trip_witness:
  "\<exists>g. gwrite_per_target_parse (fb_new [5, 0x80] [0x01, 1, 0xAA]) = Some g \<and>
     gwrite_per_target_view g = [(5, 0x180, [0xAA])]"
proof -
  have "build_gwrite_per_target [0, 0, 0, 0, 0, 0] [(5, 0x180, [0xAA])] = Some ([5, 0x80, 0x01, 1, 0xAA, 0], 5)"
    by (simp add: build_gwrite_per_target_law gwrite_per_target_ok_def enc_gwrite_target_def build_cap_def
        MAX_PAYLOAD_def put_def le16_bytes_def)
  then show ?thesis
    using gwrite_round_trip [of "[0, 0, 0, 0, 0, 0]" _ _ 5 "fb_new [5, 0x80] [0x01, 1, 0xAA]"] by simp
qed

text \<open>The variable-stride GWRITE parser accepts exactly the well-formed payloads: a frame it
  accepts is byte for byte what the builder writes for the entries the iterator yields, so no
  accepted frame has trailing or overlapping bytes.\<close>

theorem gwrite_per_target_canonical:
  assumes "gwrite_per_target_parse f = Some g" and "fb_len f \<le> 252" and "252 \<le> length dst"
  shows "build_gwrite_per_target dst (gwrite_per_target_view g) = Some (put 0 (fb_bytes f) dst, fb_len f)"
  using c_gwrite_per_target.canonical [OF assms(1)] gwrite_per_target_parse_dec [OF assms(1)] assms(2,3)
  by (simp add: build_cap_le fb_len_view)

theorem gwrite_per_target_canonical_witness:
  "\<exists>g. gwrite_per_target_parse (fb_from [5, 0x80, 0x01, 1, 0xAA]) = Some g \<and>
     build_gwrite_per_target (replicate 252 0) (gwrite_per_target_view g) =
       Some (put 0 [5, 0x80, 0x01, 1, 0xAA] (replicate 252 0), 5)"
proof -
  let ?f = "fb_from [5, 0x80, 0x01, 1, 0xAA]"
  have "\<exists>g. gwrite_per_target_parse ?f = Some g \<and> gwrite_per_target_view g = [(5, 0x180, [0xAA])]"
    by (rule gwrite_per_target_parse_enc)
      (simp_all add: gwrite_per_target_ok_def enc_gwrite_target_def le16_bytes_def)
  then obtain g where "gwrite_per_target_parse ?f = Some g" by blast
  with gwrite_per_target_canonical [OF this, of "replicate 252 0"] show ?thesis
    by (simp add: fb_len_view)
qed

text \<open>The reply slot of a servo in a PER_TARGET GREAD is its first position in the listed
  order, never truncated: \<open>find\<close> returns slot and entry exactly when the entry at that position
  is the first one with the id.\<close>

theorem gread_find_first_match:
  assumes p: "gread_per_target_parse f = Some g" and len: "fb_len f \<le> 252"
  shows "gread_per_target_find g i = Some (k, t) \<longleftrightarrow>
    unat k < length (gread_per_target_iter g) \<and> gread_per_target_iter g ! unat k = t \<and> gt_id t = i \<and>
    (\<forall>j<unat k. gt_id (gread_per_target_iter g ! j) \<noteq> i)"
proof -
  let ?ts = "gread_per_target_iter g"
  have f: "fb_bytes f = concat (map enc_gread_target ?ts)" and g: "gpt_entries g = f"
    using gread_per_target_parse_dec [OF p] p by (auto simp: gread_per_target_parse_def split: if_splits)
  then have n: "5 * length ?ts = fb_len f" by (simp add: fb_len_view length_enc_gread_targets)
  have "map_option (map_prod id id) (iter_find gread_per_target_next (\<lambda>t. gt_id t = i) (fb_len f) 0 f) =
      map_option (\<lambda>p. (0 + p, ?ts ! p)) (position (\<lambda>t. gt_id t = i) ?ts)"
    by (rule gpt.find_enc) (use f n in \<open>auto simp: list_all_iff\<close>)
  then have find: "gread_per_target_find g i =
      map_option (\<lambda>p. (of_nat p, ?ts ! p)) (position (\<lambda>t. gt_id t = i) ?ts)"
    by (simp add: gread_per_target_find_def g map_prod.id option.map_id option.map_comp comp_def)
  have small: "unat (of_nat p :: u8) = p" if "p < length ?ts" for p
    using that n len by (simp add: unat_of_nat)
  have kback: "of_nat (unat k) = k" by simp
  have "gread_per_target_find g i = Some (k, t) \<longleftrightarrow>
      (\<exists>p. position (\<lambda>t. gt_id t = i) ?ts = Some p \<and> of_nat p = k \<and> ?ts ! p = t)"
    by (auto simp: find)
  also have "\<dots> \<longleftrightarrow> position (\<lambda>t. gt_id t = i) ?ts = Some (unat k) \<and> ?ts ! unat k = t"
    using small position_less kback by metis
  finally show ?thesis by (auto simp: position_Some_iff)
qed

theorem gread_find_first_match_witness:
  "\<exists>g. gread_per_target_parse (fb_from [4, 0, 2, 2, 0, 5, 0, 2, 4, 0]) = Some g \<and>
     gread_per_target_find g 5 = Some (1, \<lparr> gt_id = 5, gt_addr = 0x200, gt_count = 4 \<rparr>)"
proof -
  let ?f = "fb_from [4, 0, 2, 2, 0, 5, 0, 2, 4, 0]"
  let ?ts = "[\<lparr> gt_id = 4, gt_addr = 0x200, gt_count = 2 \<rparr>, \<lparr> gt_id = 5, gt_addr = 0x200, gt_count = 4 \<rparr>]"
  have "\<exists>g. gread_per_target_parse ?f = Some g \<and> gread_per_target_iter g = ?ts"
    by (rule gread_per_target_parse_enc) (simp_all add: enc_gread_target_def le16_bytes_def)
  then obtain g where g: "gread_per_target_parse ?f = Some g" "gread_per_target_iter g = ?ts" by blast
  then show ?thesis using gread_find_first_match [OF g(1), of 5 1 "?ts ! 1"] by (simp add: fb_len_view)
qed

end
