(* ===== verification/Osc_Crc.thy ===== *)
theory Osc_Crc
  imports Osc_Wire
begin

text \<open>
  \<open>osc-protocol/src/crc.rs\<close>: the reflected CRC-16/ARC of the wire protocol, the running
  (chunked) flavour and the bit reversal the SPI CRC engine needs. The lemmas show that the
  checksum is a linear map of state and data, that each step is injective, and so that every
  error confined to two adjacent bytes is detected whatever the message length.
  The locale \<open>streaming\<close> is the contract of any byte-fed accumulator; the checksum and the
  keyed hash of the security layer interpret it.
\<close>

subsection \<open>The checksum\<close>

definition POLY_REFLECTED :: u16 where "POLY_REFLECTED = 0xA001"

definition crc_step :: "u16 \<Rightarrow> u16" where
  "crc_step crc = (if crc AND 1 \<noteq> 0 then drop_bit 1 crc XOR POLY_REFLECTED else drop_bit 1 crc)"

definition crc_update :: "u16 \<Rightarrow> u8 \<Rightarrow> u16" where
  "crc_update crc byte = (crc_step ^^ 8) (crc XOR ucast byte)"

fun osc_crc_continue :: "u16 \<Rightarrow> bytes \<Rightarrow> u16" where
  "osc_crc_continue crc [] = crc"
| "osc_crc_continue crc (b # chunk) = osc_crc_continue (crc_update crc b) chunk"

definition osc_crc :: "bytes \<Rightarrow> u16" where
  "osc_crc covered = osc_crc_continue 0 covered"

definition swap_bytes16 :: "u16 \<Rightarrow> u16" where
  "swap_bytes16 w = push_bit 8 w OR drop_bit 8 w"

definition bitrev16 :: "u16 \<Rightarrow> u16" where
  "bitrev16 v =
     (let x = ucast v :: u32;
          x = push_bit 1 (x AND 0x5555) OR (drop_bit 1 x AND 0x5555);
          x = push_bit 2 (x AND 0x3333) OR (drop_bit 2 x AND 0x3333);
          x = push_bit 4 (x AND 0x0f0f) OR (drop_bit 4 x AND 0x0f0f)
      in swap_bytes16 (ucast x))"

subsection \<open>Streaming accumulators\<close>

text \<open>
  The contract of an accumulator that is fed a byte string in chunks: on the states an invariant
  admits, feeding two chunks is feeding their concatenation and feeding nothing changes nothing,
  up to an observation \<open>view\<close> of the state (an accumulator may keep dead bytes that the
  observation ignores).
\<close>

locale streaming =
  fixes feed :: "'s \<Rightarrow> 'b list \<Rightarrow> 's" and view :: "'s \<Rightarrow> 'v" and inv :: "'s \<Rightarrow> bool"
  assumes inv_feed: "inv s \<Longrightarrow> inv (feed s a)"
    and feed_Nil: "inv s \<Longrightarrow> view (feed s []) = view s"
    and feed_append: "inv s \<Longrightarrow> view (feed s (a @ b)) = view (feed (feed s a) b)"
    and feed_cong: "inv s \<Longrightarrow> inv t \<Longrightarrow> view s = view t \<Longrightarrow> view (feed s a) = view (feed t a)"
begin

lemma inv_chunks: "inv s \<Longrightarrow> inv (foldl feed s cs)"
  by (induction cs arbitrary: s) (simp_all add: inv_feed)

lemma feed_chunks: "inv s \<Longrightarrow> view (foldl feed s cs) = view (feed s (concat cs))"
proof (induction cs arbitrary: s)
  case Nil
  then show ?case by (simp add: feed_Nil)
next
  case (Cons c cs)
  then show ?case by (simp add: feed_append inv_feed)
qed

lemma same_concat:
  "inv s \<Longrightarrow> concat cs = concat ds \<Longrightarrow> view (foldl feed s cs) = view (foldl feed s ds)"
  by (simp add: feed_chunks)

end

lemma osc_crc_continue_append:
  "osc_crc_continue crc (a @ b) = osc_crc_continue (osc_crc_continue crc a) b"
  by (induction a arbitrary: crc) simp_all

interpretation crc16: streaming osc_crc_continue "\<lambda>crc. crc" "\<lambda>_. True"
  by unfold_locales (simp_all add: osc_crc_continue_append)

subsection \<open>Linearity and injectivity\<close>

lemma and_1_bit: "(w AND 1 \<noteq> 0) = bit w 0" for w :: u16
  using and_exp_eq_0_iff_not_bit [of w 0] by simp

lemma crc_step_alt: "crc_step w = drop_bit 1 w XOR (if bit w 0 then POLY_REFLECTED else 0)"
  by (simp add: crc_step_def and_1_bit)

lemma crc_step_xor: "crc_step (a XOR b) = crc_step a XOR crc_step b"
  by (rule bit_word_eqI) (auto simp: crc_step_alt bit_simps)

lemma crc_steps_xor: "(crc_step ^^ n) (a XOR b) = (crc_step ^^ n) a XOR (crc_step ^^ n) b"
  by (induction n) (simp_all add: crc_step_xor)

lemma crc_step_0 [simp]: "crc_step 0 = 0"
  by (simp add: crc_step_def)

lemma crc_steps_0 [simp]: "(crc_step ^^ n) 0 = 0"
  by (induction n) simp_all

lemma bit_POLY: "bit POLY_REFLECTED 15"
  by (simp add: POLY_REFLECTED_def bit_simps)

lemma crc_step_eq_0: "crc_step w = 0 \<Longrightarrow> w = 0"
proof (rule bit_word_eqI)
  fix n assume z: "crc_step w = 0" and n: "n < LENGTH(16)"
  have "bit (crc_step w) 15 = bit w 0"
    by (auto simp: crc_step_alt bit_simps bit_POLY dest: bit_imp_le_length)
  with z have b0: "\<not> bit w 0" by simp
  then have d: "drop_bit 1 w = 0" using z by (simp add: crc_step_alt)
  show "bit w n = bit (0 :: u16) n"
  proof (cases n)
    case 0
    then show ?thesis using b0 by simp
  next
    case (Suc m)
    have "bit (drop_bit 1 w) m = bit w n" using Suc by (simp add: bit_simps)
    then show ?thesis using d by simp
  qed
qed

lemma crc_steps_eq_0: "(crc_step ^^ n) w = 0 \<Longrightarrow> w = 0"
  by (induction n) (auto dest: crc_step_eq_0)

lemma xor_eq_0: "(a XOR b = 0) = (a = b)" for a b :: "'a::len word"
  by (simp add: bit_eq_iff bit_xor_iff)

lemma xor_cancel: "(c XOR x = d XOR x) = (c = d)" "(x XOR c = x XOR d) = (c = d)"
  for c d x :: "'a::len word"
  by (auto simp: bit_eq_iff bit_xor_iff)

lemma crc_steps_inject: "(crc_step ^^ n) a = (crc_step ^^ n) b \<longleftrightarrow> a = b"
  using crc_steps_eq_0 [of n "a XOR b"] by (auto simp: crc_steps_xor xor_eq_0)

lemma crc_update_inject_state: "crc_update c b = crc_update d b \<longleftrightarrow> c = d"
  by (simp add: crc_update_def crc_steps_inject xor_cancel)

lemma osc_crc_continue_inject: "osc_crc_continue c m = osc_crc_continue d m \<longleftrightarrow> c = d"
  by (induction m arbitrary: c d) (simp_all add: crc_update_inject_state)

lemma crc_steps_shift: "(crc_step ^^ n) w = drop_bit n w" if "\<forall>k<n. \<not> bit w k" for w :: u16
  using that
proof (induction n)
  case (Suc n)
  then have "(crc_step ^^ n) w = drop_bit n w" by simp
  moreover have "\<not> bit (drop_bit n w) 0" using Suc.prems by (simp add: bit_simps)
  ultimately show ?case by (simp add: crc_step_alt [of "drop_bit n w"])
qed simp

text \<open>Two bytes enter the register together: sixteen steps of the state XOR the little-endian
  word they form.\<close>

lemma crc_update_pair: "crc_update (crc_update c a) b = (crc_step ^^ 16) (c XOR le16 a b)"
proof -
  have hi: "(crc_step ^^ 8) (push_bit 8 (ucast b)) = (ucast b :: u16)"
  proof -
    have "(crc_step ^^ 8) (push_bit 8 (ucast b)) = drop_bit 8 (push_bit 8 (ucast b :: u16))"
      by (rule crc_steps_shift) (simp add: bit_simps)
    also have "\<dots> = ucast b"
      by (rule bit_word_eqI) (auto simp: bit_simps dest: bit_imp_le_length)
    finally show ?thesis .
  qed
  have le: "le16 a b = ucast a XOR push_bit 8 (ucast b)"
    by (rule bit_word_eqI) (auto simp: le16_def bit_simps dest: bit_imp_le_length)
  have "(crc_step ^^ 16) w = (crc_step ^^ 8) ((crc_step ^^ 8) w)" for w
    using funpow_add [of 8 8 crc_step] by (simp add: comp_def)
  then show ?thesis
    by (simp add: crc_update_def le crc_steps_xor hi ac_simps)
qed

lemma crc_pair_inject:
  "crc_update (crc_update c a) b = crc_update (crc_update c a') b' \<longleftrightarrow> a = a' \<and> b = b'"
proof
  assume "crc_update (crc_update c a) b = crc_update (crc_update c a') b'"
  then have "c XOR le16 a b = c XOR le16 a' b'"
    by (simp only: crc_update_pair crc_steps_inject)
  then have "le16 a b = le16 a' b'" by (simp add: xor_cancel)
  then show "a = a' \<and> b = b'" by (metis le16_lo le16_hi)
qed simp

subsection \<open>The check value and the anchor byte\<close>

lemma crc_update_0_0 [simp]: "crc_update 0 0 = 0"
  by (simp add: crc_update_def)

lemma osc_crc_leading_zero: "osc_crc (0 # covered) = osc_crc covered"
  by (simp add: osc_crc_def)

lemma crc_update_eval:
  "crc_update c b = crc_step (crc_step (crc_step (crc_step (crc_step (crc_step (crc_step (crc_step
     (c XOR ucast b))))))))"
  by (simp add: crc_update_def numeral_eq_Suc)

lemmas crc_eval = osc_crc_def crc_update_eval crc_step_def POLY_REFLECTED_def

lemma osc_crc_catalog:
  "osc_crc [0x31, 0x32, 0x33, 0x34, 0x35, 0x36, 0x37, 0x38, 0x39] = 0xBB3D"
  by (simp only: osc_crc_def osc_crc_continue.simps crc_update_eval)
    (simp add: crc_step_def POLY_REFLECTED_def)

subsection \<open>Bit reversal\<close>

lemma bit_times_2: "bit (w * 2) n \<longleftrightarrow> 0 < n \<and> n < 32 \<and> bit w (n - 1)" for w :: u32
proof -
  have "w * 2 = push_bit 1 w" by (simp only: push_bit_eq_mult power_one_right)
  then show ?thesis by (simp only: bit_push_bit_iff bit_simps) auto
qed

lemma bitrev_stages:
  "\<forall>n<16. bit (push_bit 1 (x AND 0x5555) OR (drop_bit 1 x AND 0x5555)) n
     = bit x (if n mod 2 = 0 then n + 1 else n - 1)"
  "\<forall>n<16. bit (push_bit 2 (x AND 0x3333) OR (drop_bit 2 x AND 0x3333)) n
     = bit x (if n mod 4 < 2 then n + 2 else n - 2)"
  "\<forall>n<16. bit (push_bit 4 (x AND 0x0f0f) OR (drop_bit 4 x AND 0x0f0f)) n
     = bit x (if n mod 8 < 4 then n + 4 else n - 4)" for x :: u32
  by (simp_all add: all_less_16 bit_simps bit_times_2 flip: numeral_2_eq_2)

lemma bit_swap_bytes16:
  "n < 16 \<Longrightarrow> bit (swap_bytes16 w) n = bit w (if n < 8 then n + 8 else n - 8)"
  by (auto simp: swap_bytes16_def bit_simps add.commute dest: bit_imp_le_length)

lemma bitrev_compose:
  fixes x y z w :: u32
  assumes "\<forall>n<16. bit y n = bit x (if n mod 2 = 0 then n + 1 else n - 1)"
    and "\<forall>n<16. bit z n = bit y (if n mod 4 < 2 then n + 2 else n - 2)"
    and "\<forall>n<16. bit w n = bit z (if n mod 8 < 4 then n + 4 else n - 4)"
  shows "\<forall>n<16. bit (swap_bytes16 (ucast w)) n = bit x (15 - n)"
  using assms by (simp add: all_less_16 bit_swap_bytes16 bit_unsigned_iff flip: numeral_2_eq_2)

lemma bitrev16_all: "\<forall>n<16. bit (bitrev16 v) n = bit v (15 - n)"
proof -
  have "\<forall>n<16. bit (bitrev16 v) n = bit (ucast v :: u32) (15 - n)"
    unfolding bitrev16_def Let_def
    by (rule bitrev_compose [OF bitrev_stages(1) bitrev_stages(2) bitrev_stages(3)])
  then show ?thesis by (auto simp: bit_unsigned_iff)
qed

subsection \<open>Properties\<close>

text \<open>C1. Error detection. Two frames of any length that agree outside two adjacent bytes have the
  same checksum only if they agree there too, so every burst of up to two bytes is detected.\<close>

theorem crc_burst_detected:
  "osc_crc (p @ [a, b] @ s) = osc_crc (p @ [a', b'] @ s) \<longleftrightarrow> a = a' \<and> b = b'"
  by (simp add: osc_crc_def osc_crc_continue_append osc_crc_continue_inject crc_pair_inject)

text \<open>The running checksum may be split anywhere: folding any sequence of chunks from the
  initial register gives the checksum of their concatenation, and a leading anchor byte changes
  nothing.\<close>

theorem crc_chunks: "foldl osc_crc_continue 0 cs = osc_crc (concat cs) \<and>
  osc_crc (0 # concat cs) = osc_crc (concat cs)"
  by (simp add: crc16.feed_chunks osc_crc_def)

text \<open>The three mask-and-shift stages and the byte swap reverse the bit order, hence are an
  involution.\<close>

theorem bitrev16_reverses:
  "(\<forall>n<16. bit (bitrev16 v) n = bit v (15 - n)) \<and> bitrev16 (bitrev16 v) = v"
proof
  show "\<forall>n<16. bit (bitrev16 v) n = bit v (15 - n)" by (rule bitrev16_all)
  show "bitrev16 (bitrev16 v) = v"
    by (rule word16_eqI) (simp add: bitrev16_all)
qed

theorem bitrev16_reverses_witness: "bit (bitrev16 0x3C9D) 2 \<and> bitrev16 (bitrev16 0x3C9D) = 0x3C9D"
  using bitrev16_reverses [of "0x3C9D"] by (simp add: bit_simps)

end
