(* ===== verification/Osc_Reply.thy ===== *)
theory Osc_Reply
  imports Osc_Build Osc_Crc
begin

text \<open>
  \<open>osc-protocol/src/reply.rs\<close>: the TX frame buffer that statuses and host instructions are
  encoded into. Slice indexing that would panic is \<open>None\<close>.
\<close>

subsection \<open>The frame buffer\<close>

record frame_buf =
  fbuf_bytes :: bytes

definition FRAME_BUF_MIN :: nat where "FRAME_BUF_MIN = 6"

definition frame_buf_new :: "nat \<Rightarrow> frame_buf option" where
  "frame_buf_new n = (if n \<ge> FRAME_BUF_MIN then Some \<lparr> fbuf_bytes = replicate n 0 \<rparr> else None)"

definition frame_buf_start :: "frame_buf \<Rightarrow> frame_id \<Rightarrow> inst \<Rightarrow> frame_buf" where
  "frame_buf_start fb i n = fb\<lparr> fbuf_bytes := (fbuf_bytes fb)[0 := ALIGN_BYTE, 1 := i, 2 := 0, 3 := n] \<rparr>"

definition frame_buf_payload_mut :: "frame_buf \<Rightarrow> bytes option" where
  "frame_buf_payload_mut fb = slice_opt (fbuf_bytes fb) 4 (length (fbuf_bytes fb) - 2)"

definition frame_buf_with_payload :: "frame_buf \<Rightarrow> bytes \<Rightarrow> frame_buf" where
  "frame_buf_with_payload fb region = fb\<lparr> fbuf_bytes := put 4 region (fbuf_bytes fb) \<rparr>"

definition frame_buf_finish :: "frame_buf \<Rightarrow> u8 \<Rightarrow> frame_buf option" where
  "frame_buf_finish fb p =
     (if p \<le> MAX_PAYLOAD \<and> unat p \<le> length (fbuf_bytes fb) - 6
      then Some (fb\<lparr> fbuf_bytes := (fbuf_bytes fb)[2 := len_for p] \<rparr>) else None)"

definition frame_buf_covered :: "frame_buf \<Rightarrow> bytes option" where
  "frame_buf_covered fb = slice_opt (fbuf_bytes fb) 0 (covered_len (fbuf_bytes fb ! 2))"

definition frame_buf_set_crc :: "frame_buf \<Rightarrow> u16 \<Rightarrow> frame_buf option" where
  "frame_buf_set_crc fb crc =
     (let stop = covered_len (fbuf_bytes fb ! 2)
      in if stop + 2 \<le> length (fbuf_bytes fb)
         then Some (fb\<lparr> fbuf_bytes := put stop (le16_bytes crc) (fbuf_bytes fb) \<rparr>) else None)"

definition frame_buf_frame :: "frame_buf \<Rightarrow> bytes option" where
  "frame_buf_frame fb = slice_opt (fbuf_bytes fb) 0 (footprint (fbuf_bytes fb ! 2))"

definition frame_buf_seal :: "frame_buf \<Rightarrow> (frame_buf \<times> bytes) option" where
  "frame_buf_seal fb =
     do { covered \<leftarrow> frame_buf_covered fb;
          fb' \<leftarrow> frame_buf_set_crc fb (osc_crc covered);
          frame \<leftarrow> frame_buf_frame fb';
          Some (fb', frame) }"

text \<open>The host's transmit path: lay down the prefix, build a payload in place, finish and seal.\<close>

definition send_frame ::
    "frame_buf \<Rightarrow> frame_id \<Rightarrow> inst \<Rightarrow> (bytes \<Rightarrow> (bytes \<times> nat) option) \<Rightarrow> (frame_buf \<times> bytes) option" where
  "send_frame fb i n build =
     do { region \<leftarrow> frame_buf_payload_mut (frame_buf_start fb i n);
          (region', p) \<leftarrow> build region;
          fb' \<leftarrow> frame_buf_finish (frame_buf_with_payload (frame_buf_start fb i n) region') (of_nat p);
          frame_buf_seal fb' }"

subsection \<open>The layout of a sealed frame\<close>

lemma length_6_Cons: "6 \<le> length xs \<Longrightarrow> \<exists>a b c d r. xs = a # b # c # d # r \<and> 2 \<le> length r"
  by (auto simp: numeral_eq_Suc Suc_le_length_iff)

lemma update_2: "(a # b # c # r)[2 := v] = a # b # v # r"
  by (simp add: numeral_eq_Suc)

lemma frame_buf_seal_layout:
  assumes b: "fbuf_bytes fb = b0 # i # l # n # r" and p: "l = len_for p" "p \<le> MAX_PAYLOAD"
    and r: "unat p + 2 \<le> length r"
  shows "frame_buf_seal fb =
    Some (fb\<lparr> fbuf_bytes := b0 # i # l # n # put (unat p) (le16_bytes (osc_crc (b0 # i # l # n # take (unat p) r))) r \<rparr>,
      b0 # i # l # n # take (unat p) r @ le16_bytes (osc_crc (b0 # i # l # n # take (unat p) r)))"
proof -
  have l: "covered_len l = 4 + unat p" "footprint l = 6 + unat p"
    using len_for_bounds [OF p(2)] p(1) by (simp_all add: covered_len_def footprint_def)
  have drop4: "drop (4 + k) (b0 # i # l # n # r) = drop k r" "take (4 + k) (b0 # i # l # n # r) = b0 # i # l # n # take k r" for k
    by (simp_all add: numeral_eq_Suc)
  have c: "frame_buf_covered fb = Some (b0 # i # l # n # take (unat p) r)"
    using r by (simp add: frame_buf_covered_def b l slice_opt_def drop4)
  have put: "put (4 + unat p) w (b0 # i # l # n # r) = b0 # i # l # n # put (unat p) w r" for w
    by (simp add: put_def drop4 add.assoc)
  have "take (6 + unat p) (b0 # i # l # n # put (unat p) (le16_bytes w) r) =
      b0 # i # l # n # take (unat p) r @ le16_bytes w" for w
  proof -
    have "take (6 + unat p) (b0 # i # l # n # put (unat p) (le16_bytes w) r) =
        b0 # i # l # n # take (unat p + 2) (put (unat p) (le16_bytes w) r)"
      by (simp add: numeral_eq_Suc)
    then show ?thesis using r by (simp add: take_put_end)
  qed
  then show ?thesis
    using r by (simp add: frame_buf_seal_def c frame_buf_set_crc_def b l put frame_buf_frame_def slice_opt_def)
qed

text \<open>A frame sent through the buffer is what the receiver expects: for any builder that
  honours the payload bound, the sealed frame is anchor, id, length, instruction, payload and the
  little-endian checksum of everything before it; its header names its own end, and no slice index
  leaves the buffer.\<close>

theorem send_frame_layout:
  assumes size: "6 \<le> length (fbuf_bytes fb)"
    and build: "build (take (length (fbuf_bytes fb) - 6) (drop 4 (fbuf_bytes fb))) = Some (region, p)"
    and region: "length region = length (fbuf_bytes fb) - 6" "p \<le> length region" "p \<le> 252"
  shows "\<exists>fb' frame h. send_frame fb i n build = Some (fb', frame) \<and>
    frame = [0, i, 3 + of_nat p, n] @ take p region @ le16_bytes (osc_crc ([i, 3 + of_nat p, n] @ take p region)) \<and>
    header_from_bytes (take 4 frame) = Some h \<and> header_frame_end h = length frame \<and>
    hd_id h = i \<and> hd_inst h = n \<and> unat (header_payload_len h) = p"
proof -
  obtain a b c d r where bytes: "fbuf_bytes fb = a # b # c # d # r" "2 \<le> length r"
    using length_6_Cons [OF size] by blast
  let ?p = "of_nat p :: u8"
  have up: "unat ?p = p" using region(3) by (simp add: unat_of_nat)
  have le: "?p \<le> MAX_PAYLOAD" using region(3) by (simp add: word_le_nat_alt up MAX_PAYLOAD_def)
  have start: "fbuf_bytes (frame_buf_start fb i n) = 0 # i # 0 # n # r"
    by (simp add: frame_buf_start_def bytes(1) ALIGN_BYTE_def numeral_eq_Suc)
  have pm: "frame_buf_payload_mut (frame_buf_start fb i n) = Some (take (length r - 2) r)"
    using bytes(2) by (simp add: frame_buf_payload_mut_def start slice_opt_def)
  have bd: "build (take (length r - 2) r) = Some (region, p)" using build bytes by simp
  have len: "length region = length r - 2" using region(1) bytes by simp
  let ?r = "put 0 region r"
  have wp: "fbuf_bytes (frame_buf_with_payload (frame_buf_start fb i n) region) = 0 # i # 0 # n # ?r"
    by (simp add: frame_buf_with_payload_def start put_def numeral_eq_Suc)
  have lr: "length ?r = length r" using len bytes(2) by simp
  have tk: "take p ?r = take p region" using region(2) by (simp add: put_def)
  let ?fb2 = "(frame_buf_with_payload (frame_buf_start fb i n) region)
    \<lparr> fbuf_bytes := 0 # i # len_for ?p # n # ?r \<rparr>"
  have fin: "frame_buf_finish (frame_buf_with_payload (frame_buf_start fb i n) region) ?p = Some ?fb2"
    using le region len bytes by (simp add: frame_buf_finish_def wp up lr update_2)
  have fb2: "fbuf_bytes ?fb2 = 0 # i # len_for ?p # n # ?r" by simp
  have room: "unat ?p + 2 \<le> length ?r" using region(2) len bytes(2) lr up by simp
  let ?crc = "osc_crc (0 # i # len_for ?p # n # take p region)"
  have crc: "?crc = osc_crc ([i, 3 + ?p, n] @ take p region)"
    by (simp add: osc_crc_leading_zero len_for_def)
  from frame_buf_seal_layout [OF fb2 refl le room]
  obtain fb3 where "send_frame fb i n build =
      Some (fb3, 0 # i # len_for ?p # n # take p region @ le16_bytes ?crc)"
    by (auto simp: send_frame_def pm bd fin up tk)
  then show ?thesis
    using len_for_bounds [OF le] region(2)
    by (simp add: crc header_from_bytes_def header_frame_end_def header_payload_len_def footprint_def
        up) (simp add: len_for_def)
qed

theorem send_frame_layout_witness:
  "\<exists>fb' frame h. send_frame \<lparr> fbuf_bytes = replicate 10 0xFF \<rparr> 5 0x20 (\<lambda>dst. build_read dst 0x200 8) = Some (fb', frame) \<and>
    frame = [0, 5, 7, 0x20, 0x00, 0x02, 8, 0] @ le16_bytes (osc_crc [5, 7, 0x20, 0x00, 0x02, 8, 0]) \<and>
    header_from_bytes (take 4 frame) = Some h \<and> header_frame_end h = length frame \<and>
    hd_id h = 5 \<and> hd_inst h = 0x20 \<and> unat (header_payload_len h) = 4"
  using send_frame_layout [of "\<lparr> fbuf_bytes = replicate 10 0xFF \<rparr>" "\<lambda>dst. build_read dst 0x200 8"
      "[0x00, 0x02, 8, 0]" 4 5 "0x20"]
  by (simp add: build_read_def build_cap_def MAX_PAYLOAD_def put_def le16_bytes_def)

end
