(* ===== verification/Sec_Mac.thy ===== *)
theory Sec_Mac
  imports Osc_Crc
begin

text \<open>
  \<open>osc-security/src/mac.rs\<close>: streaming HalfSipHash-2-4, the 32-bit tag and its constant-time
  compare. The four state words are grouped in one record; \<open>tail_len\<close> is a \<^typ>\<open>nat\<close>, which the
  invariant keeps below four. The streaming hasher implements the locale \<open>streaming\<close>: any
  chunking of a message gives the same tag.
\<close>

subsection \<open>Keys and tags\<close>

definition C_ROUNDS :: nat where "C_ROUNDS = 2"
definition D_ROUNDS :: nat where "D_ROUNDS = 4"
definition INIT_V2 :: u32 where "INIT_V2 = 0x6c796765"
definition INIT_V3 :: u32 where "INIT_V3 = 0x74656462"
definition FINAL_XOR :: u32 where "FINAL_XOR = 0xff"

record mac_key =
  mk_k0 :: u32
  mk_k1 :: u32

definition mac_key_from_bytes :: "bytes \<Rightarrow> mac_key" where
  "mac_key_from_bytes k =
     \<lparr> mk_k0 = le32 (k ! 0) (k ! 1) (k ! 2) (k ! 3), mk_k1 = le32 (k ! 4) (k ! 5) (k ! 6) (k ! 7) \<rparr>"

definition mac_key_ZERO :: mac_key where
  "mac_key_ZERO = \<lparr> mk_k0 = 0, mk_k1 = 0 \<rparr>"

definition mac_key_is_zero :: "mac_key \<Rightarrow> bool" where
  "mac_key_is_zero k \<longleftrightarrow> mk_k0 k = 0 \<and> mk_k1 k = 0"

type_synonym tag = u32

definition tag_to_bytes :: "tag \<Rightarrow> bytes" where
  "tag_to_bytes t = le32_bytes t"

definition tag_from_bytes :: "bytes \<Rightarrow> tag" where
  "tag_from_bytes b = le32 (b ! 0) (b ! 1) (b ! 2) (b ! 3)"

definition tag_ct_eq :: "tag \<Rightarrow> tag \<Rightarrow> bool" where
  "tag_ct_eq self other =
     (let d = self XOR other; collapsed = drop_bit 31 (d OR - d) in collapsed = 0)"

subsection \<open>The hasher\<close>

record sip_state =
  v0 :: u32
  v1 :: u32
  v2 :: u32
  v3 :: u32

record half_sip_hasher =
  hs_v :: sip_state
  hs_tail :: bytes
  hs_tail_len :: nat
  hs_total :: u32

definition rotl32 :: "nat \<Rightarrow> u32 \<Rightarrow> u32" where
  "rotl32 n w = push_bit n w OR drop_bit (32 - n) w"

definition hasher_new :: "mac_key \<Rightarrow> half_sip_hasher" where
  "hasher_new key =
     \<lparr> hs_v = \<lparr> v0 = mk_k0 key, v1 = mk_k1 key, v2 = INIT_V2 XOR mk_k0 key, v3 = INIT_V3 XOR mk_k1 key \<rparr>,
       hs_tail = [0, 0, 0, 0], hs_tail_len = 0, hs_total = 0 \<rparr>"

definition sip_round :: "sip_state \<Rightarrow> sip_state" where
  "sip_round s =
     (let a0 = v0 s + v1 s;
          a1 = rotl32 5 (v1 s) XOR a0;
          b0 = rotl32 16 a0;
          a2 = v2 s + v3 s;
          a3 = rotl32 8 (v3 s) XOR a2;
          c0 = b0 + a3;
          b3 = rotl32 7 a3 XOR c0;
          b2 = a2 + a1;
          b1 = rotl32 13 a1 XOR b2;
          c2 = rotl32 16 b2
      in \<lparr> v0 = c0, v1 = b1, v2 = c2, v3 = b3 \<rparr>)"

definition absorb_word :: "sip_state \<Rightarrow> u32 \<Rightarrow> sip_state" where
  "absorb_word s m =
     (let s = s\<lparr> v3 := v3 s XOR m \<rparr>; s = (sip_round ^^ C_ROUNDS) s in s\<lparr> v0 := v0 s XOR m \<rparr>)"

text \<open>\<open>chunks_exact(4)\<close>: absorb the whole words, return the remainder.\<close>

fun absorb_chunks :: "sip_state \<Rightarrow> bytes \<Rightarrow> sip_state \<times> bytes" where
  "absorb_chunks s (a # b # c # d # r) = absorb_chunks (absorb_word s (le32 a b c d)) r"
| "absorb_chunks s r = (s, r)"

definition update_words :: "half_sip_hasher \<Rightarrow> bytes \<Rightarrow> half_sip_hasher" where
  "update_words h rest =
     (let (s, rem) = absorb_chunks (hs_v h) rest; h = h\<lparr> hs_v := s \<rparr>
      in if rem = [] then h
         else h\<lparr> hs_tail := put 0 rem (hs_tail h), hs_tail_len := length rem \<rparr>)"

definition hasher_update :: "half_sip_hasher \<Rightarrow> bytes \<Rightarrow> half_sip_hasher" where
  "hasher_update h data =
     (let h = h\<lparr> hs_total := hs_total h + of_nat (length data) \<rparr>
      in if hs_tail_len h \<noteq> 0 then
           (let want = 4 - hs_tail_len h;
                tk = min want (length data);
                h = h\<lparr> hs_tail := put (hs_tail_len h) (take tk data) (hs_tail h),
                       hs_tail_len := hs_tail_len h + tk \<rparr>;
                rest = drop tk data
            in if hs_tail_len h < 4 then h
               else (let m = le32 (hs_tail h ! 0) (hs_tail h ! 1) (hs_tail h ! 2) (hs_tail h ! 3)
                     in update_words (h\<lparr> hs_v := absorb_word (hs_v h) m, hs_tail_len := 0 \<rparr>) rest))
         else update_words h data)"

fun tail_block :: "nat \<Rightarrow> bytes \<Rightarrow> u32 \<Rightarrow> u32" where
  "tail_block i [] b = b"
| "tail_block i (x # xs) b = tail_block (i + 1) xs (b OR push_bit (8 * i) (ucast x))"

definition hasher_finish :: "half_sip_hasher \<Rightarrow> tag" where
  "hasher_finish h =
     (let b = tail_block 0 (take (hs_tail_len h) (hs_tail h)) (push_bit 24 (hs_total h AND 0xff));
          s = hs_v h;
          s = s\<lparr> v3 := v3 s XOR b \<rparr>;
          s = (sip_round ^^ C_ROUNDS) s;
          s = s\<lparr> v0 := v0 s XOR b \<rparr>;
          s = s\<lparr> v2 := v2 s XOR FINAL_XOR \<rparr>;
          s = (sip_round ^^ D_ROUNDS) s
      in v1 s XOR v3 s)"

definition hasher_absorbed :: "half_sip_hasher \<Rightarrow> u32" where
  "hasher_absorbed h = hs_total h"

definition mac :: "mac_key \<Rightarrow> bytes \<Rightarrow> tag" where
  "mac key msg = hasher_finish (hasher_update (hasher_new key) msg)"

subsection \<open>One byte at a time\<close>

text \<open>The observation of a hasher: state words, pending bytes, byte count. The tail array may hold
  dead bytes beyond \<open>tail_len\<close>, which no operation reads.\<close>

type_synonym hasher_view = "sip_state \<times> bytes \<times> u32"

definition hasher_inv :: "half_sip_hasher \<Rightarrow> bool" where
  "hasher_inv h \<longleftrightarrow> length (hs_tail h) = 4 \<and> hs_tail_len h < 4"

definition hasher_obs :: "half_sip_hasher \<Rightarrow> hasher_view" where
  "hasher_obs h = (hs_v h, take (hs_tail_len h) (hs_tail h), hs_total h)"

definition push_byte :: "hasher_view \<Rightarrow> u8 \<Rightarrow> hasher_view" where
  "push_byte w x =
     (case w of (s, p, n) \<Rightarrow>
        (case p of
           [a, b, c] \<Rightarrow> (absorb_word s (le32 a b c x), [], n + 1)
         | _ \<Rightarrow> (s, p @ [x], n + 1)))"

lemma push_byte_short: "length p < 3 \<Longrightarrow> push_byte (s, p, n) x = (s, p @ [x], n + 1)"
  by (auto simp: push_byte_def split: list.split)

lemma pushes_short:
  "length p + length xs < 4 \<Longrightarrow> foldl push_byte (s, p, n) xs = (s, p @ xs, n + of_nat (length xs))"
proof (induction xs arbitrary: p n)
  case (Cons x xs)
  then show ?case using Cons.IH [of "p @ [x]" "n + 1"] by (simp add: push_byte_short ac_simps)
qed simp

lemma pushes_fill:
  assumes "length p + length xs = 4" "xs \<noteq> []"
  shows "foldl push_byte (s, p, n) xs =
    (absorb_word s (le32 ((p @ xs) ! 0) ((p @ xs) ! 1) ((p @ xs) ! 2) ((p @ xs) ! 3)), [],
     n + of_nat (length xs))"
proof -
  obtain ys y where xs: "xs = ys @ [y]" using assms(2) by (metis rev_exhaust)
  then have "length (p @ ys) = 3" using assms(1) by simp
  then obtain a b c where p: "p @ ys = [a, b, c]" using length_3_ex by blast
  have "foldl push_byte (s, p, n) ys = (s, p @ ys, n + of_nat (length ys))"
    by (rule pushes_short) (use assms(1) xs in simp)
  moreover have e: "p @ xs = [a, b, c, y]" using p xs by simp
  ultimately show ?thesis unfolding e by (simp add: xs p push_byte_def ac_simps)
qed

lemma pushes_chunks:
  "foldl push_byte (s, [], n) xs =
     (fst (absorb_chunks s xs), snd (absorb_chunks s xs), n + of_nat (length xs))"
proof (induction s xs arbitrary: n rule: absorb_chunks.induct)
  case (1 s a b c d r)
  then show ?case by (simp add: push_byte_def ac_simps)
qed (simp_all add: push_byte_def ac_simps)

lemma absorb_chunks_rem: "length (snd (absorb_chunks s xs)) < 4"
  by (induction s xs rule: absorb_chunks.induct) simp_all

lemma obs_update_words:
  assumes "length (hs_tail h) = 4" "hs_tail_len h = 0"
  shows "hasher_obs (update_words h xs) =
      (fst (absorb_chunks (hs_v h) xs), snd (absorb_chunks (hs_v h) xs), hs_total h)"
    and "hasher_inv (update_words h xs)"
  using assms absorb_chunks_rem [of "hs_v h" xs]
  by (auto simp: update_words_def hasher_obs_def hasher_inv_def put_def Let_def split: prod.split)

lemma hasher_update_obs:
  assumes inv: "hasher_inv h"
  shows "hasher_obs (hasher_update h xs) = foldl push_byte (hasher_obs h) xs"
    and "hasher_inv (hasher_update h xs)"
proof -
  let ?p = "take (hs_tail_len h) (hs_tail h)" and ?k = "hs_tail_len h"
  have k: "?k < 4" and t: "length (hs_tail h) = 4" using inv by (auto simp: hasher_inv_def)
  have "hasher_obs (hasher_update h xs) = foldl push_byte (hasher_obs h) xs \<and>
      hasher_inv (hasher_update h xs)"
  proof (cases "?k = 0")
    case True
    with t obs_update_words [of "h\<lparr> hs_total := hs_total h + of_nat (length xs) \<rparr>" xs]
    show ?thesis by (simp add: hasher_update_def Let_def hasher_obs_def pushes_chunks)
  next
    case tail: False
    have lp: "length ?p = ?k" using k t by simp
    show ?thesis
    proof (cases "?k + length xs < 4")
      case True
      then have "min (4 - ?k) (length xs) = length xs" by simp
      with True tail t k pushes_short [of ?p xs "hs_v h" "hs_total h"] lp show ?thesis
        by (simp add: hasher_update_def Let_def hasher_obs_def hasher_inv_def take_put_end)
    next
      case False
      let ?a = "take (4 - ?k) xs" and ?b = "drop (4 - ?k) xs"
      have m: "min (4 - ?k) (length xs) = 4 - ?k" using False by simp
      have full: "put ?k ?a (hs_tail h) = ?p @ ?a"
        using t k False by (simp add: put_def)
      have la: "length ?p + length ?a = 4" "?a \<noteq> []" using lp k False by auto
      let ?m = "le32 ((?p @ ?a) ! 0) ((?p @ ?a) ! 1) ((?p @ ?a) ! 2) ((?p @ ?a) ! 3)"
      let ?h = "h\<lparr> hs_total := hs_total h + of_nat (length xs), hs_tail := ?p @ ?a,
                   hs_tail_len := 0, hs_v := absorb_word (hs_v h) ?m \<rparr>"
      have upd: "hasher_update h xs = update_words ?h ?b"
        using m full tail k by (cases h) (simp add: hasher_update_def Let_def)
      have len: "length (hs_tail ?h) = 4" "hs_tail_len ?h = 0" using la(1) by (simp_all del: length_take)
      have "foldl push_byte (hasher_obs h) xs =
          foldl push_byte (foldl push_byte (hasher_obs h) ?a) ?b"
        by (metis append_take_drop_id foldl_append)
      also have "foldl push_byte (hasher_obs h) ?a =
          (absorb_word (hs_v h) ?m, [], hs_total h + of_nat (length ?a))"
        unfolding hasher_obs_def by (rule pushes_fill [OF la])
      finally show ?thesis
        using obs_update_words [OF len, of ?b] False k
        by (simp add: upd pushes_chunks of_nat_diff)
    qed
  qed
  then show "hasher_obs (hasher_update h xs) = foldl push_byte (hasher_obs h) xs"
    "hasher_inv (hasher_update h xs)" by blast+
qed

lemma hasher_new_inv [simp]: "hasher_inv (hasher_new k)"
  by (simp add: hasher_inv_def hasher_new_def)

lemma hasher_finish_obs: "hasher_obs g = hasher_obs h \<Longrightarrow> hasher_finish g = hasher_finish h"
  by (simp add: hasher_obs_def hasher_finish_def)

interpretation hsip: streaming hasher_update hasher_obs hasher_inv
  by unfold_locales (simp_all add: hasher_update_obs)

lemma mac_chunks:
  "hasher_finish (foldl hasher_update (hasher_new k) cs) = mac k (concat cs)"
  unfolding mac_def by (rule hasher_finish_obs) (simp add: hsip.feed_chunks)

lemma mac_parts:
  "hasher_finish (hasher_update (hasher_update (hasher_new k) a) b) = mac k (a @ b)"
  using mac_chunks [of k "[a, b]"] by simp

subsection \<open>The constant-time compare\<close>

lemma bit31_iff: "bit w 31 \<longleftrightarrow> 2 ^ 31 \<le> uint w" for w :: u32
proof -
  have "bit w 31 = bit (uint w) 31" by (simp add: bit_unsigned_iff)
  also have "\<dots> = odd (uint w div 2 ^ 31)" by (simp add: bit_iff_odd)
  also have "uint w div 2 ^ 31 = (if 2 ^ 31 \<le> uint w then 1 else 0)"
    using uint_lt2p [of w] by (simp add: div_pos_geq)
  finally show ?thesis by simp
qed

lemma bit31_or_neg: "d \<noteq> 0 \<Longrightarrow> bit (d OR - d) 31" for d :: u32
proof -
  assume "d \<noteq> 0"
  then have "uint d \<noteq> 0" by (simp add: unsigned_eq_0_iff)
  then have "uint (- d) = 2 ^ 32 - uint d"
    using uint_lt2p [of d] by (simp add: uint_word_ariths zmod_zminus1_eq_if)
  then show ?thesis unfolding bit_or_iff bit31_iff [of d] bit31_iff [of "- d"] by auto
qed

lemma tag_ct_eq_iff: "tag_ct_eq a b \<longleftrightarrow> a = b"
proof (cases "a = b")
  case True
  then show ?thesis by (simp add: tag_ct_eq_def Let_def)
next
  case False
  let ?d = "a XOR b"
  have "bit (drop_bit 31 (?d OR - ?d)) 0"
    using bit31_or_neg [of ?d] False by (simp only: bit_drop_bit_eq xor_eq_0 comp_def) simp
  then have "drop_bit 31 (?d OR - ?d) \<noteq> 0" by (metis bit_0_eq bot_apply bot_bool_def)
  with False show ?thesis by (simp add: tag_ct_eq_def Let_def)
qed

subsection \<open>Properties\<close>

text \<open>Chunking never changes a tag: feeding a message to the streaming hasher in any sequence
  of chunks, empty ones included, and finishing gives the one-shot tag of the concatenation, so a
  frame that wraps the ring seam and a contiguous one authenticate alike.\<close>

theorem hasher_chunks:
  "hasher_finish (foldl hasher_update (hasher_new k) cs) = mac k (concat cs) \<and>
   hasher_inv (foldl hasher_update (hasher_new k) cs)"
  by (simp add: mac_chunks hsip.inv_chunks)

text \<open>The branch-free tag compare decides equality of the two 32-bit tags.\<close>

theorem ct_eq_decides: "tag_ct_eq a b \<longleftrightarrow> a = b"
  by (rule tag_ct_eq_iff)

lemma rounds_eval: "(sip_round ^^ C_ROUNDS) s = sip_round (sip_round s)"
  "(sip_round ^^ D_ROUNDS) s = sip_round (sip_round (sip_round (sip_round s)))"
  by (simp_all add: C_ROUNDS_def D_ROUNDS_def numeral_eq_Suc)

lemma sip_round_eval:
  "sip_round \<lparr> v0 = a, v1 = b, v2 = c, v3 = d \<rparr> =
     (let a0 = a + b; a1 = rotl32 5 b XOR a0; b0 = rotl32 16 a0; a2 = c + d; a3 = rotl32 8 d XOR a2;
          c0 = b0 + a3; b3 = rotl32 7 a3 XOR c0; b2 = a2 + a1; b1 = rotl32 13 a1 XOR b2; c2 = rotl32 16 b2
      in \<lparr> v0 = c0, v1 = b1, v2 = c2, v3 = b3 \<rparr>)"
  by (simp add: sip_round_def)

text \<open>The reference implementation's vector for the empty message (key \<open>00..07\<close>).\<close>

lemma reference_finish:
  "hasher_finish (hasher_new \<lparr> mk_k0 = 0x03020100, mk_k1 = 0x07060504 \<rparr>) = 0x5b9f35a9"
  by (simp add: hasher_new_def hasher_finish_def rounds_eval sip_round_eval rotl32_def INIT_V2_def
      INIT_V3_def FINAL_XOR_def)

lemma reference_vector:
  "tag_to_bytes (mac (mac_key_from_bytes [0, 1, 2, 3, 4, 5, 6, 7]) []) = [0xa9, 0x35, 0x9f, 0x5b]"
proof -
  have "mac_key_from_bytes [0, 1, 2, 3, 4, 5, 6, 7] = \<lparr> mk_k0 = 0x03020100, mk_k1 = 0x07060504 \<rparr>"
    by (simp add: mac_key_from_bytes_def le32_def)
  then have "mac (mac_key_from_bytes [0, 1, 2, 3, 4, 5, 6, 7]) [] = 0x5b9f35a9"
    using mac_chunks [of "\<lparr> mk_k0 = 0x03020100, mk_k1 = 0x07060504 \<rparr>" "[]"] by (simp add: reference_finish)
  then show ?thesis by (simp add: tag_to_bytes_def le32_bytes_def)
qed

end
