(* ===== verification/Sec_Keys.thy ===== *)
theory Sec_Keys
  imports Sec_Mac
begin

text \<open>
  \<open>osc-security/src/keys.rs\<close> and \<open>se.rs\<close>: session keys, the derivation messages that are sent to
  the secure element, key truncation and unwrapping, and the secure-element interface. The
  element itself is hardware outside the sources; \<open>AbsentSe\<close> is its refusing implementation.
\<close>

subsection \<open>Labels and widths\<close>

definition label_UNICAST :: bytes where "label_UNICAST = [0x4F, 0x53, 0x43, 0x31, 0x55]"
definition label_WRAP :: bytes where "label_WRAP = [0x4F, 0x53, 0x43, 0x31, 0x57]"
definition label_WRAP_TAG :: bytes where "label_WRAP_TAG = [0x4F, 0x53, 0x43, 0x31, 0x54]"

definition NONCE_LEN :: nat where "NONCE_LEN = 16"
definition WRAP_LEN :: nat where "WRAP_LEN = 16"
definition HMAC_LEN :: nat where "HMAC_LEN = 32"

subsection \<open>Epochs and session keys\<close>

type_synonym epoch = u16

definition epoch_next :: "epoch \<Rightarrow> epoch" where "epoch_next e = e + 1"

definition epoch_to_le_bytes :: "epoch \<Rightarrow> bytes" where "epoch_to_le_bytes e = le16_bytes e"

record session_keys =
  sk_unicast :: mac_key
  sk_group :: mac_key
  sk_epoch :: epoch

definition session_keys_UNSET :: session_keys where
  "session_keys_UNSET = \<lparr> sk_unicast = mac_key_ZERO, sk_group = mac_key_ZERO, sk_epoch = 0 \<rparr>"

definition session_keys_is_ready :: "session_keys \<Rightarrow> bool" where
  "session_keys_is_ready k \<longleftrightarrow> \<not> mac_key_is_zero (sk_unicast k) \<and> \<not> mac_key_is_zero (sk_group k)"

definition session_keys_for_frame :: "session_keys \<Rightarrow> bool \<Rightarrow> mac_key" where
  "session_keys_for_frame k broadcast = (if broadcast then sk_group k else sk_unicast k)"

subsection \<open>Derivation messages\<close>

text \<open>The fixed arrays are zero-filled and then overwritten slice by slice.\<close>

definition unicast_kdf_message :: "epoch \<Rightarrow> bytes \<Rightarrow> bytes \<Rightarrow> bytes" where
  "unicast_kdf_message epoch host_nonce servo_nonce =
     (let m = replicate (5 + 2 + NONCE_LEN * 2) 0;
          m = put 0 label_UNICAST m;
          m = put 5 (epoch_to_le_bytes epoch) m;
          m = put 7 host_nonce m
      in put (7 + NONCE_LEN) servo_nonce m)"

definition wrap_kdf_message :: "epoch \<Rightarrow> bytes \<Rightarrow> bytes" where
  "wrap_kdf_message epoch host_nonce =
     (let m = replicate (5 + 2 + NONCE_LEN) 0;
          m = put 0 label_WRAP m;
          m = put 5 (epoch_to_le_bytes epoch) m
      in put 7 host_nonce m)"

definition wrap_tag_message :: "epoch \<Rightarrow> bytes \<Rightarrow> bytes" where
  "wrap_tag_message epoch wrapped =
     (let m = replicate (5 + 2 + WRAP_LEN) 0;
          m = put 0 label_WRAP_TAG m;
          m = put 5 (epoch_to_le_bytes epoch) m
      in put 7 wrapped m)"

definition key_from_hmac :: "bytes \<Rightarrow> mac_key" where
  "key_from_hmac h = mac_key_from_bytes (take 8 h)"

definition unwrap_group_key :: "bytes \<Rightarrow> bytes \<Rightarrow> mac_key" where
  "unwrap_group_key wrapped pad = mac_key_from_bytes (map (\<lambda>i. wrapped ! i XOR pad ! i) [0..<8])"

subsection \<open>The secure element\<close>

datatype se_error =
    SeNotPresent | SeBadResponse | SeRejected | SeTimeout | SeUnprovisioned | SeCounterExhausted
  | SeUnavailable

definition SERIAL_LEN :: nat where "SERIAL_LEN = 9"
definition SIGNATURE_LEN :: nat where "SIGNATURE_LEN = 64"

text \<open>A call takes the element's state, its arguments and the output buffer, and returns the new
  state with the error or the filled buffer.\<close>

record 's secure_element =
  se_hmac :: "'s \<Rightarrow> bytes \<Rightarrow> 's \<times> (se_error + bytes)"
  se_random :: "'s \<Rightarrow> nat \<Rightarrow> 's \<times> (se_error + bytes)"
  se_sign :: "'s \<Rightarrow> bytes \<Rightarrow> 's \<times> (se_error + bytes)"
  se_serial :: "'s \<Rightarrow> 's \<times> (se_error + bytes)"
  se_counter_increment :: "'s \<Rightarrow> 's \<times> (se_error + u32)"

definition absent_se :: "unit secure_element" where
  "absent_se =
     \<lparr> se_hmac = (\<lambda>s msg. (s, Inl SeNotPresent)), se_random = (\<lambda>s n. (s, Inl SeNotPresent)),
       se_sign = (\<lambda>s d. (s, Inl SeNotPresent)), se_serial = (\<lambda>s. (s, Inl SeNotPresent)),
       se_counter_increment = (\<lambda>s. (s, Inl SeNotPresent)) \<rparr>"

subsection \<open>Domain separation\<close>

lemma unicast_kdf_message_eq:
  assumes "length hn = NONCE_LEN" "length sn = NONCE_LEN"
  shows "unicast_kdf_message e hn sn = label_UNICAST @ le16_bytes e @ hn @ sn"
  using assms
  by (simp add: unicast_kdf_message_def Let_def label_UNICAST_def NONCE_LEN_def epoch_to_le_bytes_def
      put_def drop_replicate le16_bytes_def)

lemma wrap_kdf_message_eq:
  "length hn = NONCE_LEN \<Longrightarrow> wrap_kdf_message e hn = label_WRAP @ le16_bytes e @ hn"
  by (simp add: wrap_kdf_message_def Let_def label_WRAP_def NONCE_LEN_def epoch_to_le_bytes_def
      put_def drop_replicate le16_bytes_def)

lemma wrap_tag_message_eq:
  "length w = WRAP_LEN \<Longrightarrow> wrap_tag_message e w = label_WRAP_TAG @ le16_bytes e @ w"
  by (simp add: wrap_tag_message_def Let_def label_WRAP_TAG_def WRAP_LEN_def epoch_to_le_bytes_def
      put_def drop_replicate le16_bytes_def)

lemma UNSET_not_ready [simp]: "\<not> session_keys_is_ready session_keys_UNSET"
  by (simp add: session_keys_is_ready_def session_keys_UNSET_def mac_key_is_zero_def mac_key_ZERO_def)

text \<open>The derivation messages are injective and mutually disjoint: two messages for the secure
  element are equal only if they serve the same role with the same epoch and the same nonces or
  wrapped key, so no transcript of one role can stand for another.\<close>

theorem kdf_messages_separated:
  assumes "length hn = NONCE_LEN" "length sn = NONCE_LEN" "length hn' = NONCE_LEN"
    "length sn' = NONCE_LEN" "length w = WRAP_LEN" "length w' = WRAP_LEN"
  shows "(unicast_kdf_message e hn sn = unicast_kdf_message e' hn' sn' \<longleftrightarrow> e = e' \<and> hn = hn' \<and> sn = sn') \<and>
    (wrap_kdf_message e hn = wrap_kdf_message e' hn' \<longleftrightarrow> e = e' \<and> hn = hn') \<and>
    (wrap_tag_message e w = wrap_tag_message e' w' \<longleftrightarrow> e = e' \<and> w = w') \<and>
    unicast_kdf_message e hn sn \<noteq> wrap_kdf_message e' hn' \<and>
    unicast_kdf_message e hn sn \<noteq> wrap_tag_message e' w' \<and>
    wrap_kdf_message e hn \<noteq> wrap_tag_message e' w'"
  using assms
  by (auto simp: unicast_kdf_message_eq wrap_kdf_message_eq wrap_tag_message_eq label_UNICAST_def
      label_WRAP_def label_WRAP_TAG_def)

theorem kdf_messages_separated_witness:
  "wrap_kdf_message 1 (replicate 16 0) \<noteq> wrap_tag_message 1 (replicate 16 0)"
  using kdf_messages_separated [of "replicate 16 0" "replicate 16 0" "replicate 16 0" "replicate 16 0"
      "replicate 16 0" "replicate 16 0" 1 1]
  by (simp add: NONCE_LEN_def WRAP_LEN_def)

end
