(* ===== verification/Sec_Policy.thy ===== *)
theory Sec_Policy
  imports Sec_Keys
begin

text \<open>
  \<open>osc-security/src/policy.rs\<close>, \<open>replay.rs\<close> and \<open>trailer.rs\<close>: which frames must be tagged, the
  8-bit replay window and the AUTH trailer.
\<close>

subsection \<open>Policy\<close>

definition DEFAULT_LOCKOUT :: u8 where "DEFAULT_LOCKOUT = 3"

record policy =
  pol_require_auth :: bool
  pol_require_auth_on_reads :: bool
  pol_tag_replies :: bool
  pol_lockout_after :: u8

definition policy_FLIGHT :: policy where
  "policy_FLIGHT = \<lparr> pol_require_auth = True, pol_require_auth_on_reads = False, pol_tag_replies = True,
     pol_lockout_after = DEFAULT_LOCKOUT \<rparr>"

definition policy_OPEN :: policy where
  "policy_OPEN = \<lparr> pol_require_auth = False, pol_require_auth_on_reads = False, pol_tag_replies = False,
     pol_lockout_after = DEFAULT_LOCKOUT \<rparr>"

definition effect_bearing :: "inst \<Rightarrow> bool" where
  "effect_bearing i =
     (case inst_opcode i of
        Some OpCommit \<Rightarrow> True
      | Some OpMgmt \<Rightarrow> True
      | Some OpWrite \<Rightarrow> \<not> inst_hold i
      | Some OpGwrite \<Rightarrow> \<not> inst_hold i
      | Some OpPing \<Rightarrow> False
      | Some OpRead \<Rightarrow> False
      | Some OpGread \<Rightarrow> False
      | None \<Rightarrow> False)"

definition folds_into_stream :: "inst \<Rightarrow> bool" where
  "folds_into_stream i =
     (if inst_is_status i then False
      else case inst_opcode i of Some OpWrite \<Rightarrow> True | Some OpGwrite \<Rightarrow> True | _ \<Rightarrow> False)"

definition requires_tag :: "policy \<Rightarrow> inst \<Rightarrow> bool" where
  "requires_tag p i =
     (if \<not> pol_require_auth p then False
      else if effect_bearing i then True
      else pol_require_auth_on_reads p)"

definition policy_default :: policy where "policy_default = policy_FLIGHT"

datatype auth_verdict = AvPass | AvMissing | AvBadTag | AvReplay | AvNoSession | AvLockedOut

definition verdict_is_pass :: "auth_verdict \<Rightarrow> bool" where
  "verdict_is_pass v \<longleftrightarrow> v = AvPass"

definition is_attack_evidence :: "auth_verdict \<Rightarrow> bool" where
  "is_attack_evidence v \<longleftrightarrow> v = AvBadTag \<or> v = AvReplay"

subsection \<open>Replay window\<close>

definition FORWARD_WINDOW :: u8 where "FORWARD_WINDOW = 127"

datatype seq_reject = SeqReplay

record replay_window =
  rw_last :: u8
  rw_primed :: bool

definition replay_new :: replay_window where
  "replay_new = \<lparr> rw_last = 0, rw_primed = False \<rparr>"

definition replay_restart :: "replay_window \<Rightarrow> replay_window" where
  "replay_restart w = replay_new"

definition replay_check :: "replay_window \<Rightarrow> u8 \<Rightarrow> seq_reject + unit" where
  "replay_check w seq =
     (if \<not> rw_primed w then Inr ()
      else let ahead = seq - rw_last w
           in if ahead = 0 then Inl SeqReplay
              else if ahead \<le> FORWARD_WINDOW then Inr ()
              else Inl SeqReplay)"

definition replay_commit :: "replay_window \<Rightarrow> u8 \<Rightarrow> replay_window" where
  "replay_commit w seq = w\<lparr> rw_last := seq, rw_primed := True \<rparr>"

definition replay_accept :: "replay_window \<Rightarrow> u8 \<Rightarrow> replay_window \<times> (seq_reject + unit)" where
  "replay_accept w seq =
     (case replay_check w seq of Inl e \<Rightarrow> (w, Inl e) | Inr _ \<Rightarrow> (replay_commit w seq, Inr ()))"

subsection \<open>AUTH trailer\<close>

definition TRAILER_LEN :: nat where "TRAILER_LEN = 5"
definition SEQ_LEN :: nat where "SEQ_LEN = 1"
definition TAG_LEN :: nat where "TAG_LEN = 4"

record trailer =
  tr_seq :: u8
  tr_tag :: tag
  tr_tagged_prefix :: bytes

definition trailer_split :: "bytes \<Rightarrow> trailer option" where
  "trailer_split covered =
     (if length covered < 3 + TRAILER_LEN then None
      else let cut = length covered - TAG_LEN; tag_bytes = drop cut covered
           in Some \<lparr> tr_seq = covered ! (cut - SEQ_LEN),
                     tr_tag = tag_from_bytes [tag_bytes ! 0, tag_bytes ! 1, tag_bytes ! 2, tag_bytes ! 3],
                     tr_tagged_prefix = take cut covered \<rparr>)"

definition trailer_strip :: "u8 \<Rightarrow> u8" where
  "trailer_strip p = (if p \<le> of_nat TRAILER_LEN then 0 else p - of_nat TRAILER_LEN)"

subsection \<open>Laws\<close>

lemmas replay_defs = replay_check_def replay_commit_def replay_accept_def replay_new_def
  replay_restart_def FORWARD_WINDOW_def

lemma replay_check_Inr_iff:
  "replay_check w seq = Inr () \<longleftrightarrow> \<not> rw_primed w \<or> (1 \<le> unat (seq - rw_last w) \<and> unat (seq - rw_last w) \<le> 127)"
  by (auto simp: replay_check_def FORWARD_WINDOW_def Let_def word_le_nat_alt unat_eq_0 Suc_le_eq
      simp flip: unat_eq_0)

lemma unat_neg_u8: "x \<noteq> 0 \<Longrightarrow> unat (- x) = 256 - unat x" for x :: u8
proof -
  assume "x \<noteq> 0"
  then have "uint x \<noteq> 0" by (simp add: uint_0_iff)
  then have "uint (- x) = 256 - uint x"
    using uint_lt2p [of x] by (simp add: uint_word_ariths zmod_zminus1_eq_if)
  then have "int (unat (- x)) = 256 - int (unat x)" by simp
  then show ?thesis by linarith
qed

text \<open>
  The interface the session relies on: a window answers whether a sequence byte is fresh, and
  committing a byte makes exactly the bytes of the half space behind it stale.
\<close>

locale sequence_window =
  fixes fresh :: "'w \<Rightarrow> u8 \<Rightarrow> bool" and commit :: "'w \<Rightarrow> u8 \<Rightarrow> 'w"
  assumes stale_after: "\<not> fresh (commit w s) s"
    and fresh_after: "fresh (commit w s) t \<longleftrightarrow> 1 \<le> unat (t - s) \<and> unat (t - s) \<le> 127"
begin

lemma half_space: "s \<noteq> t \<Longrightarrow> unat (t - s) \<noteq> 128 \<Longrightarrow> fresh (commit w s) t \<longleftrightarrow> \<not> fresh (commit w' t) s"
proof -
  assume ne: "s \<noteq> t" and h: "unat (t - s) \<noteq> 128"
  have z: "unat (t - s) \<noteq> 0" using ne by (simp add: unat_eq_0)
  have "unat (s - t) = 256 - unat (t - s)"
    using unat_neg_u8 [of "t - s"] ne by simp
  with z h unat_less_256 [of "t - s"] show ?thesis unfolding fresh_after by auto
qed

lemma accepted_run_moves_forward:
  "fresh (commit w s) t \<Longrightarrow> \<not> fresh (commit (commit w s) t) s"
  unfolding fresh_after
  using half_space [of s t] by (cases "s = t") (auto simp: fresh_after)

end

interpretation rw: sequence_window "\<lambda>w s. replay_check w s = Inr ()" replay_commit
  by unfold_locales (simp_all add: replay_check_Inr_iff, simp_all add: replay_commit_def)

lemma trailer_split_Some:
  assumes "length prefix \<ge> 4"
  shows "trailer_split (prefix @ tag_to_bytes t) =
    Some \<lparr> tr_seq = last prefix, tr_tag = t, tr_tagged_prefix = prefix \<rparr>"
proof -
  have "(prefix @ tag_to_bytes t) ! (length prefix - 1) = last prefix"
    using assms by (cases prefix rule: rev_cases) (auto simp: nth_append)
  then show ?thesis
    using assms by (simp add: trailer_split_def TRAILER_LEN_def TAG_LEN_def SEQ_LEN_def Let_def
        tag_to_bytes_def le32_bytes_def tag_from_bytes_def)
qed

lemma trailer_split_iff:
  "trailer_split covered = Some tr \<longleftrightarrow>
     4 \<le> length (tr_tagged_prefix tr) \<and> tr_seq tr = last (tr_tagged_prefix tr) \<and>
     covered = tr_tagged_prefix tr @ tag_to_bytes (tr_tag tr)" (is "_ \<longleftrightarrow> ?r")
proof
  assume ?r
  then show "trailer_split covered = Some tr" using trailer_split_Some by (cases tr) auto
next
  assume s: "trailer_split covered = Some tr"
  let ?p = "take (length covered - 4) covered" and ?t = "drop (length covered - 4) covered"
  have len: "8 \<le> length covered" using s by (auto simp: trailer_split_def TRAILER_LEN_def split: if_splits)
  then have "length ?t = 4" by simp
  then obtain a b c d where t: "?t = [a, b, c, d]"
    using length_4_ex by blast
  have cov: "covered = ?p @ tag_to_bytes (le32 a b c d)"
    using append_take_drop_id [of "length covered - 4" covered]
    by (simp add: t tag_to_bytes_def le32_bytes_le32)
  have "4 \<le> length ?p" using len by simp
  from trailer_split_Some [OF this, of "le32 a b c d"] cov s this show ?r by (cases tr) auto
qed

end
