(* ===== verification/Sec_Session.thy ===== *)
theory Sec_Session
  imports Sec_Policy
begin

text \<open>
  \<open>osc-security/src/stream.rs\<close> and \<open>session.rs\<close>: the rolling digest over the instruction stream
  and the servo's message-plane state machine. Operations on \<open>&mut self\<close> return the new record;
  \<open>verify\<close> also returns its verdict. The \<open>debug_assert\<close> of \<open>install\<close> is compiled out of the firmware
  profile and is a premise where a lemma needs it.
\<close>

subsection \<open>Stream digest\<close>

definition DOMAIN_STREAM :: u8 where "DOMAIN_STREAM = 0x03"

record stream_digest =
  sd_hasher :: half_sip_hasher
  sd_key :: mac_key
  sd_frames :: u16

definition stream_new :: "mac_key \<Rightarrow> stream_digest" where
  "stream_new key =
     \<lparr> sd_hasher = hasher_update (hasher_new key) [DOMAIN_STREAM], sd_key = key, sd_frames = 0 \<rparr>"

definition stream_reset :: "stream_digest \<Rightarrow> mac_key \<Rightarrow> stream_digest" where
  "stream_reset s key = stream_new key"

definition fold_frame :: "stream_digest \<Rightarrow> bytes \<Rightarrow> bytes \<Rightarrow> stream_digest" where
  "fold_frame s seg_a seg_b =
     s\<lparr> sd_hasher := hasher_update (hasher_update (sd_hasher s) seg_a) seg_b,
        sd_frames := sat_add (sd_frames s) 1 \<rparr>"

definition stream_bytes :: "stream_digest \<Rightarrow> u32" where
  "stream_bytes s = hasher_absorbed (sd_hasher s)"

definition stream_digest_of :: "stream_digest \<Rightarrow> tag" where
  "stream_digest_of s = hasher_finish (sd_hasher s)"

subsection \<open>Session state\<close>

definition DOMAIN_FRAME :: u8 where "DOMAIN_FRAME = 0x01"
definition DOMAIN_COMMIT :: u8 where "DOMAIN_COMMIT = 0x02"

datatype security_state = Unsecured | Establishing | Secured | LockedOut

record security_context =
  sc_state :: security_state
  sc_keys :: session_keys
  sc_stream :: stream_digest
  sc_replay :: replay_window
  sc_policy :: policy
  sc_fails :: u8
  sc_auth_fail_count :: u32
  sc_replay_drop_count :: u32

definition ctx_new :: "policy \<Rightarrow> security_context" where
  "ctx_new p =
     \<lparr> sc_state = Unsecured, sc_keys = session_keys_UNSET, sc_stream = stream_new mac_key_ZERO,
       sc_replay = replay_new, sc_policy = p, sc_fails = 0, sc_auth_fail_count = 0,
       sc_replay_drop_count = 0 \<rparr>"

definition ctx_set_policy :: "security_context \<Rightarrow> policy \<Rightarrow> security_context" where
  "ctx_set_policy c p = c\<lparr> sc_policy := p \<rparr>"

definition ctx_install :: "security_context \<Rightarrow> session_keys \<Rightarrow> security_context" where
  "ctx_install c keys =
     c\<lparr> sc_stream := stream_reset (sc_stream c) (sk_group keys),
        sc_replay := replay_restart (sc_replay c), sc_fails := 0, sc_keys := keys, sc_state := Secured \<rparr>"

definition ctx_clear :: "security_context \<Rightarrow> security_context" where
  "ctx_clear c =
     c\<lparr> sc_keys := session_keys_UNSET, sc_stream := stream_reset (sc_stream c) mac_key_ZERO,
        sc_replay := replay_restart (sc_replay c), sc_state := Unsecured \<rparr>"

definition ctx_fold :: "security_context \<Rightarrow> inst \<Rightarrow> bytes \<Rightarrow> bytes \<Rightarrow> security_context" where
  "ctx_fold c i seg_a seg_b =
     (if sc_state c \<noteq> Secured \<or> \<not> folds_into_stream i then c
      else c\<lparr> sc_stream := fold_frame (sc_stream c) seg_a seg_b \<rparr>)"

definition ctx_rollback_stream :: "security_context \<Rightarrow> security_context" where
  "ctx_rollback_stream c =
     (if sc_state c = Secured
      then c\<lparr> sc_stream := stream_reset (sc_stream c) (sk_group (sc_keys c)) \<rparr> else c)"

definition frame_tag :: "security_context \<Rightarrow> mac_key \<Rightarrow> u8 \<Rightarrow> bytes \<Rightarrow> tag" where
  "frame_tag c key seq prefix =
     (let h = hasher_new key;
          h = hasher_update h [DOMAIN_FRAME];
          h = hasher_update h (epoch_to_le_bytes (sk_epoch (sc_keys c)));
          h = hasher_update h [seq];
          h = hasher_update h prefix
      in hasher_finish h)"

definition commit_tag :: "security_context \<Rightarrow> mac_key \<Rightarrow> u8 \<Rightarrow> bytes \<Rightarrow> tag" where
  "commit_tag c key seq prefix =
     (let h = hasher_new key;
          h = hasher_update h [DOMAIN_COMMIT];
          h = hasher_update h (epoch_to_le_bytes (sk_epoch (sc_keys c)));
          h = hasher_update h [seq];
          h = hasher_update h (tag_to_bytes (stream_digest_of (sc_stream c)));
          h = hasher_update h prefix
      in hasher_finish h)"

definition ctx_evaluate :: "security_context \<Rightarrow> inst \<Rightarrow> bool \<Rightarrow> bytes \<Rightarrow> security_context \<times> auth_verdict" where
  "ctx_evaluate c i broadcast covered =
     (if sc_state c = LockedOut then
        (c, if requires_tag (sc_policy c) i then AvLockedOut else AvPass)
      else let needs = requires_tag (sc_policy c) i; carries = inst_authenticated i
           in if \<not> carries then (c, if needs then AvMissing else AvPass)
              else if sc_state c \<noteq> Secured \<or> \<not> session_keys_is_ready (sc_keys c) then (c, AvNoSession)
              else case trailer_split covered of
                     None \<Rightarrow> (c, AvBadTag)
                   | Some tr \<Rightarrow>
                       (case replay_check (sc_replay c) (tr_seq tr) of
                          Inl _ \<Rightarrow> (c, AvReplay)
                        | Inr _ \<Rightarrow>
                            (let key = session_keys_for_frame (sc_keys c) broadcast;
                                 expected = (if inst_opcode i = Some OpCommit
                                             then commit_tag c key (tr_seq tr) (tr_tagged_prefix tr)
                                             else frame_tag c key (tr_seq tr) (tr_tagged_prefix tr))
                             in if \<not> tag_ct_eq expected (tr_tag tr) then (c, AvBadTag)
                                else (c\<lparr> sc_replay := replay_commit (sc_replay c) (tr_seq tr) \<rparr>, AvPass))))"

definition ctx_record :: "security_context \<Rightarrow> auth_verdict \<Rightarrow> security_context" where
  "ctx_record c v =
     (if v = AvPass then c\<lparr> sc_fails := 0 \<rparr>
      else let c = c\<lparr> sc_auth_fail_count := sat_add (sc_auth_fail_count c) 1 \<rparr>;
               c = (if v = AvReplay then c\<lparr> sc_replay_drop_count := sat_add (sc_replay_drop_count c) 1 \<rparr> else c)
           in if is_attack_evidence v then
                (let c = c\<lparr> sc_fails := sat_add (sc_fails c) 1 \<rparr>
                 in if sc_fails c \<ge> pol_lockout_after (sc_policy c) \<and> sc_state c = Secured
                    then c\<lparr> sc_state := LockedOut \<rparr> else c)
              else c)"

definition ctx_verify :: "security_context \<Rightarrow> inst \<Rightarrow> bool \<Rightarrow> bytes \<Rightarrow> security_context \<times> auth_verdict" where
  "ctx_verify c i broadcast covered =
     (let (c', verdict) = ctx_evaluate c i broadcast covered in (ctx_record c' verdict, verdict))"

definition ctx_close_cycle :: "security_context \<Rightarrow> security_context" where
  "ctx_close_cycle c =
     (if sc_state c = Secured
      then c\<lparr> sc_stream := stream_reset (sc_stream c) (sk_group (sc_keys c)) \<rparr> else c)"

definition ctx_tags_replies :: "security_context \<Rightarrow> bool" where
  "ctx_tags_replies c \<longleftrightarrow> pol_tag_replies (sc_policy c) \<and> sc_state c = Secured"

subsection \<open>What is tagged\<close>

definition frame_message :: "session_keys \<Rightarrow> u8 \<Rightarrow> bytes \<Rightarrow> bytes" where
  "frame_message k seq prefix = DOMAIN_FRAME # le16_bytes (sk_epoch k) @ seq # prefix"

definition commit_message :: "session_keys \<Rightarrow> tag \<Rightarrow> u8 \<Rightarrow> bytes \<Rightarrow> bytes" where
  "commit_message k digest seq prefix =
     DOMAIN_COMMIT # le16_bytes (sk_epoch k) @ seq # le32_bytes digest @ prefix"

lemma frame_tag_mac: "frame_tag c key seq prefix = mac key (frame_message (sc_keys c) seq prefix)"
  using mac_chunks [of key "[[DOMAIN_FRAME], le16_bytes (sk_epoch (sc_keys c)), [seq], prefix]"]
  by (simp add: frame_tag_def frame_message_def epoch_to_le_bytes_def)

lemma commit_tag_mac:
  "commit_tag c key seq prefix =
     mac key (commit_message (sc_keys c) (stream_digest_of (sc_stream c)) seq prefix)"
  using mac_chunks [of key "[[DOMAIN_COMMIT], le16_bytes (sk_epoch (sc_keys c)), [seq],
      le32_bytes (stream_digest_of (sc_stream c)), prefix]"]
  by (simp add: commit_tag_def commit_message_def epoch_to_le_bytes_def tag_to_bytes_def)

definition auth_message :: "security_context \<Rightarrow> inst \<Rightarrow> bytes \<Rightarrow> bytes" where
  "auth_message c i prefix =
     (if inst_opcode i = Some OpCommit
      then commit_message (sc_keys c) (stream_digest_of (sc_stream c)) (last prefix) prefix
      else frame_message (sc_keys c) (last prefix) prefix)"

definition valid_tagged :: "security_context \<Rightarrow> inst \<Rightarrow> bool \<Rightarrow> bytes \<Rightarrow> bytes \<Rightarrow> bool" where
  "valid_tagged c i broadcast covered prefix \<longleftrightarrow>
     4 \<le> length prefix \<and>
     covered = prefix @ le32_bytes (mac (session_keys_for_frame (sc_keys c) broadcast) (auth_message c i prefix))"

lemma ctx_evaluate_tagged:
  assumes "sc_state c = Secured" "session_keys_is_ready (sc_keys c)" "inst_authenticated i"
  shows "ctx_evaluate c i b covered =
    (case trailer_split covered of
       None \<Rightarrow> (c, AvBadTag)
     | Some tr \<Rightarrow>
         if replay_check (sc_replay c) (tr_seq tr) \<noteq> Inr () then (c, AvReplay)
         else if valid_tagged c i b covered (tr_tagged_prefix tr)
           then (c\<lparr> sc_replay := replay_commit (sc_replay c) (tr_seq tr) \<rparr>, AvPass)
           else (c, AvBadTag))"
proof (cases "trailer_split covered")
  case None
  with assms show ?thesis by (simp add: ctx_evaluate_def)
next
  case (Some tr)
  then have t: "4 \<le> length (tr_tagged_prefix tr)" "tr_seq tr = last (tr_tagged_prefix tr)"
    "covered = tr_tagged_prefix tr @ le32_bytes (tr_tag tr)"
    by (simp_all add: trailer_split_iff tag_to_bytes_def)
  let ?e = "if inst_opcode i = Some OpCommit
            then commit_tag c (session_keys_for_frame (sc_keys c) b) (tr_seq tr) (tr_tagged_prefix tr)
            else frame_tag c (session_keys_for_frame (sc_keys c) b) (tr_seq tr) (tr_tagged_prefix tr)"
  have "?e = mac (session_keys_for_frame (sc_keys c) b) (auth_message c i (tr_tagged_prefix tr))"
    by (simp add: commit_tag_mac frame_tag_mac auth_message_def t(2))
  then have v: "valid_tagged c i b covered (tr_tagged_prefix tr) \<longleftrightarrow> ?e = tr_tag tr"
    using t(1) by (auto simp: valid_tagged_def t(3))
  show ?thesis
    using v assms Some
    by (auto simp: ctx_evaluate_def Let_def tag_ct_eq_iff split: sum.split if_splits)
qed

subsection \<open>What a verdict changes\<close>

lemma ctx_evaluate_state: "fst (ctx_evaluate c i b covered) = c \<or>
  (\<exists>seq. fst (ctx_evaluate c i b covered) = c\<lparr> sc_replay := replay_commit (sc_replay c) seq \<rparr> \<and>
     snd (ctx_evaluate c i b covered) = AvPass)"
  by (auto simp: ctx_evaluate_def Let_def split: option.split sum.split)

lemma ctx_evaluate_not_pass:
  "snd (ctx_evaluate c i b covered) \<noteq> AvPass \<Longrightarrow> fst (ctx_evaluate c i b covered) = c"
  using ctx_evaluate_state by blast

lemma ctx_record_keeps [simp]:
  "sc_keys (ctx_record c v) = sc_keys c" "sc_stream (ctx_record c v) = sc_stream c"
  "sc_replay (ctx_record c v) = sc_replay c" "sc_policy (ctx_record c v) = sc_policy c"
  by (simp_all add: ctx_record_def Let_def)

lemma ctx_evaluate_keeps [simp]:
  "sc_keys (fst (ctx_evaluate c i b covered)) = sc_keys c"
  "sc_stream (fst (ctx_evaluate c i b covered)) = sc_stream c"
  "sc_policy (fst (ctx_evaluate c i b covered)) = sc_policy c"
  "sc_state (fst (ctx_evaluate c i b covered)) = sc_state c"
  "sc_fails (fst (ctx_evaluate c i b covered)) = sc_fails c"
  using ctx_evaluate_state [of c i b covered] by auto

lemma ctx_verify_simps [simp]:
  "snd (ctx_verify c i b covered) = snd (ctx_evaluate c i b covered)"
  "fst (ctx_verify c i b covered) =
     ctx_record (fst (ctx_evaluate c i b covered)) (snd (ctx_evaluate c i b covered))"
  by (simp_all add: ctx_verify_def split_beta)

lemma ctx_record_state:
  "sc_state (ctx_record c v) =
     (if is_attack_evidence v \<and> pol_lockout_after (sc_policy c) \<le> sat_add (sc_fails c) 1 \<and> sc_state c = Secured
      then LockedOut else sc_state c)"
  by (auto simp: ctx_record_def Let_def is_attack_evidence_def)

lemma ctx_record_fails:
  "sc_fails (ctx_record c v) =
     (if v = AvPass then 0 else if is_attack_evidence v then sat_add (sc_fails c) 1 else sc_fails c)"
  by (auto simp: ctx_record_def Let_def is_attack_evidence_def)

subsection \<open>The digest of a folded stream\<close>

text \<open>Folding depends on the folded bytes only, not on how the ring seam splits each frame.\<close>

definition fold_all :: "stream_digest \<Rightarrow> (bytes \<times> bytes) list \<Rightarrow> stream_digest" where
  "fold_all s frames = foldl (\<lambda>s (a, b). fold_frame s a b) s frames"

lemma fold_all_hasher:
  "sd_hasher (fold_all s frames) = foldl hasher_update (sd_hasher s) (concat (map (\<lambda>(a, b). [a, b]) frames))"
  unfolding fold_all_def
  by (induction frames arbitrary: s) (auto simp: fold_frame_def)

lemma stream_digest_fold_all:
  "stream_digest_of (fold_all (stream_new k) frames) =
     mac k (DOMAIN_STREAM # concat (map (\<lambda>(a, b). a @ b) frames))"
proof -
  let ?cs = "concat (map (\<lambda>(a, b). [a, b]) frames)"
  have "hasher_finish (foldl hasher_update (hasher_new k) ([DOMAIN_STREAM] # ?cs)) =
      mac k (concat ([DOMAIN_STREAM] # ?cs))"
    by (rule mac_chunks)
  moreover have "concat ?cs = concat (map (\<lambda>(a, b). a @ b) frames)"
    by (induction frames) auto
  ultimately show ?thesis
    by (simp add: stream_digest_of_def fold_all_hasher stream_new_def)
qed

subsection \<open>Reachable sessions\<close>

text \<open>The sequence number a verification accepts, if it accepts a tagged frame.\<close>

definition accepted_seq :: "security_context \<Rightarrow> inst \<Rightarrow> bool \<Rightarrow> bytes \<Rightarrow> u8 list" where
  "accepted_seq c i broadcast covered =
     (if sc_state c = Secured \<and> inst_authenticated i \<and> snd (ctx_verify c i broadcast covered) = AvPass
      then (case trailer_split covered of Some tr \<Rightarrow> [tr_seq tr] | None \<Rightarrow> []) else [])"

text \<open>Every way the transport and the establishment code change a context, while the policies in force
  are taken from \<open>P\<close>; \<open>acc\<close> are the sequence numbers accepted in the current session, oldest first.
  \<open>install\<close> is entered with complete keys (the asserted precondition).\<close>

inductive session_reachable :: "policy set \<Rightarrow> u8 list \<Rightarrow> security_context \<Rightarrow> bool" for P where
  sr_new: "p \<in> P \<Longrightarrow> session_reachable P [] (ctx_new p)"
| sr_policy: "session_reachable P acc c \<Longrightarrow> p \<in> P \<Longrightarrow> session_reachable P acc (ctx_set_policy c p)"
| sr_install: "session_reachable P acc c \<Longrightarrow> session_keys_is_ready k \<Longrightarrow> session_reachable P [] (ctx_install c k)"
| sr_clear: "session_reachable P acc c \<Longrightarrow> session_reachable P [] (ctx_clear c)"
| sr_fold: "session_reachable P acc c \<Longrightarrow> session_reachable P acc (ctx_fold c i a b)"
| sr_rollback: "session_reachable P acc c \<Longrightarrow> session_reachable P acc (ctx_rollback_stream c)"
| sr_verify: "session_reachable P acc c \<Longrightarrow>
    session_reachable P (acc @ accepted_seq c i bc covered) (fst (ctx_verify c i bc covered))"
| sr_close: "session_reachable P acc c \<Longrightarrow> session_reachable P acc (ctx_close_cycle c)"

inductive_cases session_reachableE: "session_reachable P acc c"

text \<open>A stream is open under a key when its hasher has absorbed the domain byte and some bytes under
  that key.\<close>

definition stream_open :: "mac_key \<Rightarrow> stream_digest \<Rightarrow> bool" where
  "stream_open k s \<longleftrightarrow> sd_key s = k \<and> hasher_inv (sd_hasher s) \<and>
     (\<exists>m. stream_digest_of s = mac k (DOMAIN_STREAM # m) \<and>
        hasher_obs (sd_hasher s) = hasher_obs (hasher_update (hasher_new k) (DOMAIN_STREAM # m)))"

text \<open>The window after the sequence numbers \<open>acc\<close>, each in the window of the one before.\<close>

definition window_at :: "u8 list \<Rightarrow> replay_window \<Rightarrow> bool" where
  "window_at acc w \<longleftrightarrow> w = (if acc = [] then replay_new else \<lparr> rw_last = last acc, rw_primed = True \<rparr>) \<and>
     successively (\<lambda>s t. 1 \<le> unat (t - s) \<and> unat (t - s) \<le> 127) acc"

lemma window_at_new [simp]: "window_at [] (replay_restart w)" "window_at [] replay_new"
  by (simp_all add: window_at_def replay_restart_def)

lemma window_at_commit:
  assumes "window_at acc w" "replay_check w t = Inr ()"
  shows "window_at (acc @ [t]) (replay_commit w t)"
  using assms by (cases "acc = []") (auto simp: window_at_def successively_append_iff replay_check_Inr_iff replay_commit_def replay_new_def)

definition session_inv :: "policy set \<Rightarrow> u8 list \<Rightarrow> security_context \<Rightarrow> bool" where
  "session_inv P acc c \<longleftrightarrow>
     sc_policy c \<in> P \<and> sc_state c \<noteq> Establishing \<and>
     stream_open (sk_group (sc_keys c)) (sc_stream c) \<and>
     (sc_state c = Secured \<or> sc_state c = LockedOut \<longrightarrow> session_keys_is_ready (sc_keys c)) \<and>
     (sc_state c = Unsecured \<longrightarrow> sc_keys c = session_keys_UNSET \<and> acc = []) \<and>
     window_at acc (sc_replay c) \<and>
     (sc_state c = Secured \<longrightarrow> sc_fails c = 0 \<or> (\<exists>p\<in>P. sc_fails c < pol_lockout_after p))"

lemma stream_open_new [simp]: "stream_open k (stream_new k)"
  by (auto simp: stream_open_def stream_new_def stream_digest_of_def mac_def hsip.inv_feed
      intro!: exI [of _ "[]"])

lemma stream_open_fold:
  assumes "stream_open k s"
  shows "stream_open k (fold_frame s a b)"
proof -
  obtain m where inv: "hasher_inv (sd_hasher s)"
    and m: "hasher_obs (sd_hasher s) = hasher_obs (hasher_update (hasher_new k) (DOMAIN_STREAM # m))"
    using assms by (auto simp: stream_open_def)
  let ?h = "hasher_update (hasher_update (sd_hasher s) a) b"
  have obs: "hasher_obs ?h = hasher_obs (hasher_update (hasher_new k) (DOMAIN_STREAM # m @ a @ b))"
    using m inv by (simp add: hasher_update_obs)
  then have "hasher_finish ?h = mac k (DOMAIN_STREAM # m @ a @ b)"
    unfolding mac_def by (rule hasher_finish_obs)
  with assms inv obs show ?thesis
    by (auto simp: stream_open_def fold_frame_def stream_digest_of_def hsip.inv_feed)
qed

lemma ctx_record_replay [simp]: "sc_replay (ctx_record c v) = sc_replay c"
  by (simp add: ctx_record_def Let_def)

lemma ctx_verify_replay:
  "accepted_seq c i b covered = [] \<and> sc_replay (fst (ctx_verify c i b covered)) = sc_replay c \<or>
   (\<exists>t. accepted_seq c i b covered = [t] \<and> sc_state c = Secured \<and> replay_check (sc_replay c) t = Inr () \<and>
      sc_replay (fst (ctx_verify c i b covered)) = replay_commit (sc_replay c) t)"
  by (auto simp: accepted_seq_def ctx_evaluate_def Let_def split: option.split sum.split)

lemma session_inv_verify:
  assumes "session_inv P acc c"
  shows "session_inv P (acc @ accepted_seq c i b covered) (fst (ctx_verify c i b covered))"
proof -
  have "sc_fails c = 0 \<or> (\<exists>p\<in>P. sc_fails c < pol_lockout_after p)" if "sc_state c = Secured"
    using assms that by (auto simp: session_inv_def)
  moreover have "window_at (acc @ accepted_seq c i b covered) (sc_replay (fst (ctx_verify c i b covered)))"
    "sc_state c = Unsecured \<longrightarrow> accepted_seq c i b covered = []"
    using assms ctx_verify_replay [of c i b covered] window_at_commit [of acc "sc_replay c"] by (auto simp: session_inv_def)
  ultimately show ?thesis
    using assms by (auto simp: session_inv_def ctx_record_state ctx_record_fails not_le not_less)
qed

lemma session_inv_reachable: "session_reachable P acc c \<Longrightarrow> session_inv P acc c"
proof (induction rule: session_reachable.induct)
  case (sr_new p)
  then show ?case by (simp add: session_inv_def ctx_new_def session_keys_UNSET_def)
next
  case (sr_policy acc c p)
  then show ?case by (auto simp: session_inv_def ctx_set_policy_def)
next
  case (sr_install acc c k)
  then show ?case by (simp add: session_inv_def ctx_install_def stream_reset_def)
next
  case (sr_clear acc c)
  then show ?case by (simp add: session_inv_def ctx_clear_def stream_reset_def session_keys_UNSET_def)
next
  case (sr_fold acc c i a b)
  then show ?case by (simp add: session_inv_def ctx_fold_def stream_open_fold)
next
  case (sr_rollback acc c)
  then show ?case by (simp add: session_inv_def ctx_rollback_stream_def stream_reset_def)
next
  case (sr_verify acc c i b covered)
  then show ?case by (simp only: session_inv_verify)
next
  case (sr_close acc c)
  then show ?case by (simp add: session_inv_def ctx_close_cycle_def stream_reset_def)
qed

subsection \<open>Properties\<close>

lemma valid_tagged_unique:
  "valid_tagged c i b covered prefix \<Longrightarrow>
   \<exists>t. trailer_split covered = Some \<lparr> tr_seq = last prefix, tr_tag = t, tr_tagged_prefix = prefix \<rparr>"
  by (auto simp: valid_tagged_def trailer_split_iff tag_to_bytes_def)

lemma ctx_evaluate_pass_iff:
  assumes "sc_state c = Secured" "session_keys_is_ready (sc_keys c)" "requires_tag (sc_policy c) i"
  shows "snd (ctx_evaluate c i b covered) = AvPass \<longleftrightarrow>
    inst_authenticated i \<and>
    (\<exists>prefix. valid_tagged c i b covered prefix \<and> replay_check (sc_replay c) (last prefix) = Inr ())"
proof (cases "inst_authenticated i")
  case False
  with assms show ?thesis by (simp add: ctx_evaluate_def)
next
  case True
  note ev = ctx_evaluate_tagged [OF assms(1,2) True, of b covered]
  show ?thesis
  proof (cases "trailer_split covered")
    case None
    with True show ?thesis by (auto simp: ev dest: valid_tagged_unique)
  next
    case (Some tr)
    have seq: "tr_seq tr = last (tr_tagged_prefix tr)" using Some by (simp add: trailer_split_iff)
    have "valid_tagged c i b covered prefix \<Longrightarrow> prefix = tr_tagged_prefix tr" for prefix
      using valid_tagged_unique [of c i b covered prefix] Some by auto
    then have "(\<exists>prefix. valid_tagged c i b covered prefix \<and> replay_check (sc_replay c) (last prefix) = Inr ()) \<longleftrightarrow>
        valid_tagged c i b covered (tr_tagged_prefix tr) \<and> replay_check (sc_replay c) (tr_seq tr) = Inr ()"
      unfolding seq by blast
    with True Some show ?thesis by (simp add: ev)
  qed
qed

text \<open>C2. A frame that policy gates passes exactly when it is authentic: in a secured session the
  verdict is Pass if and only if the frame announces a trailer, its last four covered bytes are the
  keyed tag of the rest (for COMMIT together with the digest of the whole write stream) under the
  group or unicast key and the current epoch, and its sequence byte is fresh.\<close>

theorem verify_pass_iff:
  assumes "sc_state c = Secured" "session_keys_is_ready (sc_keys c)" "requires_tag (sc_policy c) i"
  shows "snd (ctx_verify c i b covered) = AvPass \<longleftrightarrow>
    inst_authenticated i \<and>
    (\<exists>prefix. valid_tagged c i b covered prefix \<and> replay_check (sc_replay c) (last prefix) = Inr ())"
  using ctx_evaluate_pass_iff [OF assms] by simp

definition demo_keys :: session_keys where
  "demo_keys = \<lparr> sk_unicast = \<lparr> mk_k0 = 1, mk_k1 = 2 \<rparr>, sk_group = \<lparr> mk_k0 = 3, mk_k1 = 4 \<rparr>, sk_epoch = 7 \<rparr>"

definition demo_ctx :: security_context where
  "demo_ctx = ctx_install (ctx_new policy_FLIGHT) demo_keys"

lemma demo_ctx_facts [simp]:
  "sc_state demo_ctx = Secured" "session_keys_is_ready (sc_keys demo_ctx)"
  "sc_policy demo_ctx = policy_FLIGHT" "sc_fails demo_ctx = 0" "sc_replay demo_ctx = replay_new"
  by (simp_all add: demo_ctx_def ctx_install_def ctx_new_def demo_keys_def session_keys_is_ready_def
      mac_key_is_zero_def replay_restart_def)

lemma requires_tag_write: "requires_tag policy_FLIGHT (inst_instruction OpWrite 2)"
  by (simp add: requires_tag_def policy_FLIGHT_def effect_bearing_def bit_simps)

theorem verify_pass_iff_witness:
  "snd (ctx_verify demo_ctx (inst_instruction OpWrite 2) False
     ([5, 10, 0x32, 0, 1, 9, 1] @ le32_bytes (mac (sk_unicast (sc_keys demo_ctx))
        (frame_message (sc_keys demo_ctx) 1 [5, 10, 0x32, 0, 1, 9, 1])))) = AvPass"
proof -
  let ?p = "[5, 10, 0x32, 0, 1, 9, 1] :: bytes"
  have "valid_tagged demo_ctx (inst_instruction OpWrite 2) False
      (?p @ le32_bytes (mac (sk_unicast (sc_keys demo_ctx)) (frame_message (sc_keys demo_ctx) 1 ?p))) ?p"
    by (simp add: valid_tagged_def auth_message_def session_keys_for_frame_def)
  moreover have "replay_check (sc_replay demo_ctx) (last ?p) = Inr ()" by (simp add: replay_defs)
  ultimately show ?thesis
    using verify_pass_iff [of demo_ctx "inst_instruction OpWrite 2" False] requires_tag_write
    by (auto simp: bit_simps)
qed

text \<open>A refused frame costs nothing but evidence: any verdict other than Pass leaves keys,
  stream digest, replay window and policy as they were, adds one to the saturating failure count,
  and can change the state only from secured to locked out.\<close>

theorem reject_keeps_session:
  assumes "snd (ctx_verify c i b covered) = v" "v \<noteq> AvPass"
  defines "c' \<equiv> fst (ctx_verify c i b covered)"
  shows "sc_keys c' = sc_keys c \<and> sc_stream c' = sc_stream c \<and> sc_replay c' = sc_replay c \<and>
    sc_policy c' = sc_policy c \<and> sc_auth_fail_count c' = sat_add (sc_auth_fail_count c) 1 \<and>
    (sc_state c' = sc_state c \<or> sc_state c = Secured \<and> sc_state c' = LockedOut \<and> is_attack_evidence v)"
proof -
  have e: "fst (ctx_evaluate c i b covered) = c" "snd (ctx_evaluate c i b covered) = v"
    using assms(1,2) ctx_evaluate_not_pass [of c i b covered] by auto
  have "sc_auth_fail_count (ctx_record c v) = sat_add (sc_auth_fail_count c) 1"
    using assms(2) by (simp add: ctx_record_def Let_def)
  then show ?thesis by (simp add: c'_def e ctx_record_state)
qed

theorem reject_keeps_session_witness:
  "sc_replay (fst (ctx_verify demo_ctx (inst_instruction OpWrite 2) False [])) = replay_new"
proof -
  have "snd (ctx_verify demo_ctx (inst_instruction OpWrite 2) False []) = AvBadTag"
    by (simp add: ctx_evaluate_def trailer_split_def TRAILER_LEN_def bit_simps)
  from reject_keeps_session [OF this] show ?thesis by simp
qed

text \<open>C3. The session invariant. Whatever the transport and the establishment code do to a context, with the
  policy changed at any time within a set: a secured or locked-out servo holds complete keys, an unsecured one
  holds none; the digest is always a keyed hash under the current group key, so no cycle ever mixes keys; the
  replay window is fresh until a tagged frame is accepted in this session and then stands at the last accepted
  sequence number, each of which was 1 to 127 ahead of the one before; the establishing state is never entered;
  and a secured servo with failures on record is below the lockout threshold of one of the policies.\<close>

theorem session_invariant: "session_reachable P acc c \<Longrightarrow> session_inv P acc c"
  by (rule session_inv_reachable)

theorem session_invariant_witness: "session_inv {policy_FLIGHT} [] demo_ctx"
  by (rule session_invariant) (auto simp: demo_ctx_def demo_keys_def session_keys_is_ready_def
      mac_key_is_zero_def intro: session_reachable.intros)

lemma ctx_evaluate_cong:
  assumes "sc_state c = sc_state d" "sc_policy c = sc_policy d" "sc_keys c = sc_keys d"
    "sc_stream c = sc_stream d" "sc_replay c = sc_replay d"
  shows "snd (ctx_evaluate c i b covered) = snd (ctx_evaluate d i b covered)"
  using assms
  by (simp add: ctx_evaluate_def frame_tag_def commit_tag_def Let_def split: option.split sum.split)

text \<open>A run of verdicts on a sequence of frames.\<close>

fun verify_run :: "security_context \<Rightarrow> (inst \<times> bool \<times> bytes) list \<Rightarrow> security_context \<times> auth_verdict list" where
  "verify_run c [] = (c, [])"
| "verify_run c ((i, b, cov) # fs) =
     (let (c', v) = ctx_verify c i b cov; (c'', vs) = verify_run c' fs in (c'', v # vs))"

lemma verify_run_Cons:
  "fst (verify_run c ((i, b, cov) # fs)) = fst (verify_run (fst (ctx_verify c i b cov)) fs)"
  "snd (verify_run c ((i, b, cov) # fs)) =
     snd (ctx_verify c i b cov) # snd (verify_run (fst (ctx_verify c i b cov)) fs)"
  by (simp_all add: split_beta)

lemma verify_run_attack:
  assumes "\<forall>v\<in>set (snd (verify_run c fs)). is_attack_evidence v" "sc_state c = Secured"
    "unat (sc_fails c) + length fs = unat (pol_lockout_after (sc_policy c))" "fs \<noteq> []"
  shows "sc_state (fst (verify_run c fs)) = LockedOut"
  using assms
proof (induction fs arbitrary: c)
  case (Cons f fs)
  obtain i b cov where f: "f = (i, b, cov)" by (cases f)
  let ?v = "snd (ctx_evaluate c i b cov)" and ?c = "fst (ctx_verify c i b cov)"
  have a: "is_attack_evidence ?v" and rest: "\<forall>v\<in>set (snd (verify_run ?c fs)). is_attack_evidence v"
    using Cons.prems(1) unfolding f verify_run_Cons by auto
  then have np: "?v \<noteq> AvPass" by (auto simp: is_attack_evidence_def)
  have lt: "Suc (unat (sc_fails c)) \<le> unat (pol_lockout_after (sc_policy c))"
    using Cons.prems(3) by simp
  then have sat: "unat (sat_add (sc_fails c) 1) = Suc (unat (sc_fails c))"
    using unat_less_256 [of "pol_lockout_after (sc_policy c)"] by (simp add: unat_sat_add_Suc)
  show ?case
  proof (cases "fs = []")
    case True
    then have "sc_state ?c = LockedOut"
      using Cons.prems a sat by (simp add: ctx_record_state word_le_nat_alt)
    with True show ?thesis by (simp add: f split_beta)
  next
    case False
    then have "Suc (unat (sc_fails c)) < unat (pol_lockout_after (sc_policy c))"
      using Cons.prems(3) by (cases fs) simp_all
    then have st: "sc_state ?c = Secured"
      using Cons.prems(2) sat by (simp add: ctx_record_state word_le_nat_alt)
    have "sc_fails ?c = sat_add (sc_fails c) 1" using np a by (simp add: ctx_record_fails)
    with st Cons.IH [OF rest st] Cons.prems(3) False sat show ?thesis
      unfolding f verify_run_Cons by simp
  qed
qed simp

lemma locked_out_stays:
  assumes "sc_state c = LockedOut"
  shows "sc_state (fst (verify_run c fs)) = LockedOut"
  using assms
proof (induction fs arbitrary: c)
  case (Cons f fs)
  obtain i b cov where f: "f = (i, b, cov)" by (cases f)
  have "sc_state (fst (ctx_verify c i b cov)) = LockedOut" using Cons.prems by (simp add: ctx_record_state)
  from Cons.IH [OF this] show ?case unfolding f verify_run_Cons .
qed simp

lemma locked_out_refuses:
  assumes "sc_state c = LockedOut" "requires_tag (sc_policy c) i"
  shows "snd (ctx_verify c i b cov) = AvLockedOut"
  using assms by (simp add: ctx_evaluate_def)

text \<open>Lockout. A secured servo that sees as many attack verdicts in a row as its policy
  tolerates ends locked out, and from then on, whatever frames follow, every frame that policy gates
  is refused.\<close>

theorem lockout_engages:
  assumes "sc_state c = Secured" "sc_fails c = 0" "fs \<noteq> []"
    "length fs = unat (pol_lockout_after (sc_policy c))"
    "\<forall>v\<in>set (snd (verify_run c fs)). is_attack_evidence v"
  shows "sc_state (fst (verify_run c (fs @ gs))) = LockedOut \<and>
    (requires_tag (sc_policy c) i \<longrightarrow> snd (ctx_verify (fst (verify_run c (fs @ gs))) i b cov) = AvLockedOut)"
proof -
  have app: "fst (verify_run c (fs @ gs)) = fst (verify_run (fst (verify_run c fs)) gs)" for c
    by (induction fs arbitrary: c) (auto simp: split_beta)
  have pol: "sc_policy (fst (verify_run c hs)) = sc_policy c" for c hs
    by (induction hs arbitrary: c) (auto simp: split_beta)
  have lock: "sc_state (fst (verify_run c (fs @ gs))) = LockedOut"
    unfolding app by (rule locked_out_stays, rule verify_run_attack) (use assms in simp_all)
  then show ?thesis using locked_out_refuses by (auto simp only: pol)
qed

lemma demo_forgery:
  "sc_state c = Secured \<Longrightarrow> session_keys_is_ready (sc_keys c) \<Longrightarrow>
   ctx_evaluate c (inst_instruction OpWrite 2) False [] = (c, AvBadTag)"
  by (simp add: ctx_evaluate_def trailer_split_def TRAILER_LEN_def bit_simps)

theorem lockout_engages_witness:
  "sc_state (fst (verify_run (demo_ctx\<lparr> sc_policy := policy_FLIGHT\<lparr> pol_lockout_after := 1 \<rparr> \<rparr>)
     ([(inst_instruction OpWrite 2, False, [])] @ [(inst_instruction OpPing 0, False, [5, 3, 0x10])]))) = LockedOut"
  by (rule lockout_engages [THEN conjunct1])
    (simp_all add: split_beta demo_forgery is_attack_evidence_def)

text \<open>C4. The lockout can be evaded. Any passing frame clears the count of consecutive failures,
  and an untagged PING passes under the flight policy, so an attacker who interleaves two forgeries
  with one PING keeps the servo secured forever: the forgeries never become a lockout.\<close>

theorem lockout_evaded:
  fixes ping :: bytes
  assumes "sc_state c = Secured" "session_keys_is_ready (sc_keys c)" "sc_policy c = policy_FLIGHT"
    "sc_fails c = 0" "snd (ctx_verify c i b forged) = AvBadTag"
  defines "attack \<equiv> \<lambda>c. fst (verify_run c
    [(i, b, forged), (i, b, forged), (inst_instruction OpPing 0, False, ping)])"
  shows "sc_state ((attack ^^ n) c) = Secured \<and> sc_fails ((attack ^^ n) c) = 0 \<and>
    snd (ctx_verify ((attack ^^ n) c) i b forged) = AvBadTag"
proof -
  let ?same = "\<lambda>d. sc_state d = Secured \<and> sc_policy d = policy_FLIGHT \<and> sc_keys d = sc_keys c \<and>
    sc_stream d = sc_stream c \<and> sc_replay d = sc_replay c"
  have forged: "snd (ctx_evaluate d i b forged) = AvBadTag" if "?same d" for d
    using ctx_evaluate_cong [of d c i b forged] that assms(1,3,5) by simp
  have ping: "ctx_evaluate d (inst_instruction OpPing 0) False ping = (d, AvPass)" if "?same d" for d
    using that by (simp add: ctx_evaluate_def requires_tag_def effect_bearing_def policy_FLIGHT_def bit_simps)
  have stay: "fst (ctx_evaluate d i b forged) = d" if "?same d" for d
    using forged [OF that] ctx_evaluate_not_pass [of d i b forged] by simp
  have sat: "sat_add 0 1 = (1 :: u8)" "sat_add 1 1 = (2 :: u8)" by (simp_all add: sat_add_def)
  have one: "?same (fst (ctx_verify d i b forged))" "sc_fails (fst (ctx_verify d i b forged)) = sat_add (sc_fails d) 1"
    if "?same d" "sc_fails d \<le> 1" for d
    using that forged [OF that(1)] stay [OF that(1)] sat
    by (auto simp: ctx_record_state ctx_record_fails is_attack_evidence_def policy_FLIGHT_def
        DEFAULT_LOCKOUT_def word_le_nat_alt unat_sat_add)
  have pass: "?same (fst (ctx_verify d (inst_instruction OpPing 0) False ping)) \<and>
      sc_fails (fst (ctx_verify d (inst_instruction OpPing 0) False ping)) = 0" if "?same d" for d
    using that ping [OF that] by (simp add: ctx_record_state ctx_record_fails is_attack_evidence_def)
  have rnd: "?same (attack d) \<and> sc_fails (attack d) = 0" if "?same d" "sc_fails d = 0" for d
  proof -
    let ?d1 = "fst (ctx_verify d i b forged)" and ?d2 = "fst (ctx_verify (fst (ctx_verify d i b forged)) i b forged)"
    have d1: "?same ?d1" "sc_fails ?d1 = 1" using one [of d] that sat by simp_all
    have d2: "?same ?d2" using one [of ?d1] d1 by simp
    have "attack d = fst (ctx_verify ?d2 (inst_instruction OpPing 0) False ping)"
      by (simp add: attack_def verify_run_Cons del: ctx_verify_simps verify_run.simps(2))
    with pass [OF d2] show ?thesis by (simp only:)
  qed
  have "?same ((attack ^^ n) c) \<and> sc_fails ((attack ^^ n) c) = 0"
    by (induction n) (use assms rnd in simp_all)
  with forged show ?thesis by simp
qed

theorem lockout_evaded_witness:
  "sc_state (((\<lambda>c. fst (verify_run c [(inst_instruction OpWrite 2, False, []), (inst_instruction OpWrite 2, False, []),
      (inst_instruction OpPing 0, False, [5, 3, 0x10])])) ^^ 1000) demo_ctx) = Secured"
proof -
  have "snd (ctx_verify demo_ctx (inst_instruction OpWrite 2) False []) = AvBadTag"
    by (simp add: demo_forgery)
  from lockout_evaded [OF _ _ _ _ this, where ping = "[5, 3, 0x10]" and n = 1000] show ?thesis by simp
qed

text \<open>C5. The 8-bit window forgets. A captured frame (other than COMMIT) that was accepted once is
  accepted again, under the same session keys, as soon as the window has moved on by 129 to 255
  counts: its tag does not depend on how often the sequence byte has wrapped.\<close>

theorem replay_after_wrap:
  assumes c: "sc_state c = Secured" "session_keys_is_ready (sc_keys c)" "inst_authenticated i"
    "inst_opcode i \<noteq> Some OpCommit" "snd (ctx_verify c i b covered) = AvPass"
    and tr: "trailer_split covered = Some tr"
    and d: "sc_state d = Secured" "sc_keys d = sc_keys c" "129 \<le> unat (rw_last (sc_replay d) - tr_seq tr)"
  shows "snd (ctx_verify d i b covered) = AvPass"
proof -
  have "valid_tagged c i b covered (tr_tagged_prefix tr)"
    using c(5) tr by (auto simp: ctx_evaluate_tagged [OF c(1-3)] split: if_splits)
  then have v: "valid_tagged d i b covered (tr_tagged_prefix tr)"
    using c(4) d(2) by (simp add: valid_tagged_def auth_message_def)
  let ?x = "rw_last (sc_replay d) - tr_seq tr"
  have "?x \<noteq> 0" using d(3) by auto
  then have "unat (tr_seq tr - rw_last (sc_replay d)) = 256 - unat ?x"
    using unat_neg_u8 [of ?x] by simp
  then have "replay_check (sc_replay d) (tr_seq tr) = Inr ()"
    using d(3) unat_less_256 [of ?x] unfolding replay_check_Inr_iff by linarith
  with v tr c(2,3) d(1,2) show ?thesis by (simp add: ctx_evaluate_tagged)
qed

theorem replay_after_wrap_witness:
  "snd (ctx_verify (demo_ctx\<lparr> sc_replay := \<lparr> rw_last = 130, rw_primed = True \<rparr> \<rparr>) (inst_instruction OpWrite 2) False
     ([5, 10, 0x32, 0, 1, 9, 1] @ le32_bytes (mac (sk_unicast (sc_keys demo_ctx))
        (frame_message (sc_keys demo_ctx) 1 [5, 10, 0x32, 0, 1, 9, 1])))) = AvPass"
proof (rule replay_after_wrap [where c = demo_ctx])
  let ?p = "[5, 10, 0x32, 0, 1, 9, 1] :: bytes"
  let ?cov = "?p @ le32_bytes (mac (sk_unicast (sc_keys demo_ctx)) (frame_message (sc_keys demo_ctx) 1 ?p))"
  have "valid_tagged demo_ctx (inst_instruction OpWrite 2) False ?cov ?p"
    by (simp add: valid_tagged_def auth_message_def session_keys_for_frame_def)
  moreover have "replay_check (sc_replay demo_ctx) (last ?p) = Inr ()" by (simp add: replay_defs)
  ultimately show "snd (ctx_verify demo_ctx (inst_instruction OpWrite 2) False ?cov) = AvPass"
    using ctx_evaluate_pass_iff [of demo_ctx "inst_instruction OpWrite 2" False] requires_tag_write
    by (auto simp: bit_simps)
  show "trailer_split ?cov = Some \<lparr> tr_seq = 1, tr_tag = mac (sk_unicast (sc_keys demo_ctx))
      (frame_message (sc_keys demo_ctx) 1 ?p), tr_tagged_prefix = ?p \<rparr>"
    by (simp add: trailer_split_iff tag_to_bytes_def)
qed (simp_all add: bit_simps)

text \<open>One COMMIT tag serves the fleet. Two secured servos that share the group key and epoch
  and have folded the same frames, each split by its own ring seam, hold the same stream digest and
  give the same verdict on any broadcast COMMIT, even though their unicast keys differ.\<close>

theorem fleet_common_commit:
  assumes "sc_state c = Secured" "session_keys_is_ready (sc_keys c)"
    and "sc_state d = Secured" "session_keys_is_ready (sc_keys d)"
    and "sk_group (sc_keys c) = k" "sk_group (sc_keys d) = k" "sk_epoch (sc_keys c) = sk_epoch (sc_keys d)"
    and "sc_stream c = fold_all (stream_new k) fs" "sc_stream d = fold_all (stream_new k) gs"
    and "map (\<lambda>(a, b). a @ b) fs = map (\<lambda>(a, b). a @ b) gs"
    and "sc_replay c = sc_replay d" "sc_policy c = sc_policy d" "inst_opcode i = Some OpCommit"
  shows "stream_digest_of (sc_stream c) = stream_digest_of (sc_stream d) \<and>
    snd (ctx_verify c i True covered) = snd (ctx_verify d i True covered)"
proof
  show dig: "stream_digest_of (sc_stream c) = stream_digest_of (sc_stream d)"
    using assms(8,9,10) by (simp add: stream_digest_fold_all)
  show "snd (ctx_verify c i True covered) = snd (ctx_verify d i True covered)"
  proof (cases "inst_authenticated i")
    case False
    with assms show ?thesis by (simp add: ctx_evaluate_def)
  next
    case True
    have "valid_tagged c i True covered p = valid_tagged d i True covered p" for p
      using assms(5-7,13) dig
      by (simp add: valid_tagged_def auth_message_def commit_message_def session_keys_for_frame_def)
    with True assms(1-4,11) show ?thesis by (simp add: ctx_evaluate_tagged split: option.split)
  qed
qed

theorem fleet_common_commit_witness:
  "snd (ctx_verify (demo_ctx\<lparr> sc_stream := fold_all (stream_new (sk_group demo_keys)) [([1, 2], [3])] \<rparr>)
      (inst_instruction OpCommit 2) True [0xFE, 3, 0x42]) =
   snd (ctx_verify (demo_ctx\<lparr> sc_stream := fold_all (stream_new (sk_group demo_keys)) [([1], [2, 3])] \<rparr>)
      (inst_instruction OpCommit 2) True [0xFE, 3, 0x42])"
proof -
  have k: "sc_keys demo_ctx = demo_keys" by (simp add: demo_ctx_def ctx_install_def)
  then have "session_keys_is_ready demo_keys" using demo_ctx_facts(2) by simp
  with k show ?thesis
    by (intro fleet_common_commit [where k = "sk_group demo_keys" and fs = "[([1, 2], [3])]"
          and gs = "[([1], [2, 3])]", THEN conjunct2]) simp_all
qed

end
