(* ===== verification/Sec_Element.thy ===== *)
theory Sec_Element
  imports Osc_Prelude
begin

text \<open>
  The secure element: the port and its absent instance (\<open>osc-security/src/se.rs\<close>), the single-wire encoding
  over a UART (\<open>drivers/src/se/swi.rs\<close>) and the ECC204 command layer (\<open>drivers/src/se/ecc204.rs\<close>). The UART and
  the command framing have no implementation in the tree, so both are parameters: a UART answers as a
  function of everything done on it so far, and a framing encodes, decodes and wakes. \<open>None\<close> is a panic.
\<close>

subsection \<open>The port\<close>

datatype se_error = SeNotPresent | SeBadResponse | SeRejected | SeTimeout | SeUnprovisioned | SeCounterExhausted | SeUnavailable

definition SERIAL_LEN :: nat where [osc_const]: "SERIAL_LEN = 9"
definition SIGNATURE_LEN :: nat where [osc_const]: "SIGNATURE_LEN = 64"

text \<open>The operations of a secure element in state \<open>'s\<close>; \<open>out\<close> buffers go in and come back.\<close>

record 's secure_element =
  se_hmac :: "bytes \<Rightarrow> bytes \<Rightarrow> 's \<Rightarrow> ((se_error + unit) \<times> bytes \<times> 's) option"
  se_random :: "bytes \<Rightarrow> 's \<Rightarrow> ((se_error + unit) \<times> bytes \<times> 's) option"
  se_sign :: "bytes \<Rightarrow> bytes \<Rightarrow> 's \<Rightarrow> ((se_error + unit) \<times> bytes \<times> 's) option"
  se_serial :: "bytes \<Rightarrow> 's \<Rightarrow> ((se_error + unit) \<times> bytes \<times> 's) option"
  se_counter_increment :: "'s \<Rightarrow> ((se_error + u32) \<times> 's) option"

definition absent_se :: "unit secure_element" where
  "absent_se =
     \<lparr> se_hmac = \<lambda>msg out s. Some (Inl SeNotPresent, out, s),
       se_random = \<lambda>out s. Some (Inl SeNotPresent, out, s),
       se_sign = \<lambda>digest out s. Some (Inl SeNotPresent, out, s),
       se_serial = \<lambda>out s. Some (Inl SeNotPresent, out, s),
       se_counter_increment = \<lambda>s. Some (Inl SeNotPresent, s) \<rparr>"

subsection \<open>Single-wire encoding\<close>

definition SWI_BAUD :: u32 where [osc_const]: "SWI_BAUD = 230400"
definition BIT_ONE :: u8 where [osc_const]: "BIT_ONE = 0x7F"
definition BIT_ZERO :: u8 where [osc_const]: "BIT_ZERO = 0x7D"
definition CHARS_PER_BIT :: nat where [osc_const]: "CHARS_PER_BIT = 1"
definition CHARS_PER_BYTE :: nat where [osc_const]: "CHARS_PER_BYTE = 8"
definition EFFECTIVE_BPS :: u32 where [osc_const]: "EFFECTIVE_BPS = SWI_BAUD div 10"

definition encode_byte :: "u8 \<Rightarrow> bytes" where
  "encode_byte b = map (\<lambda>i. if drop_bit i b AND 1 \<noteq> 0 then BIT_ONE else BIT_ZERO) [0..<CHARS_PER_BYTE]"

definition decode_byte :: "bytes \<Rightarrow> u8" where
  "decode_byte chars = fold (\<lambda>(i, c) b. if c XOR BIT_ONE < 2 then b OR push_bit i 1 else b) (enumerate 0 chars) 0"

text \<open>The multiplication is at 32 bits: it panics in a build with overflow checks and wraps in one without.\<close>

definition transfer_time_us :: "nat \<Rightarrow> u32" where
  "transfer_time_us n = of_nat n * of_nat CHARS_PER_BYTE * 10 * 1000000 div SWI_BAUD"

subsection \<open>ECC204 commands\<close>

definition OP_READ :: u8 where [osc_const]: "OP_READ = 0x02"
definition OP_MAC :: u8 where [osc_const]: "OP_MAC = 0x08"
definition OP_WRITE :: u8 where [osc_const]: "OP_WRITE = 0x12"
definition OP_DELETE :: u8 where [osc_const]: "OP_DELETE = 0x13"
definition OP_NONCE :: u8 where [osc_const]: "OP_NONCE = 0x16"
definition OP_LOCK :: u8 where [osc_const]: "OP_LOCK = 0x17"
definition OP_COUNTER :: u8 where [osc_const]: "OP_COUNTER = 0x24"
definition OP_INFO :: u8 where [osc_const]: "OP_INFO = 0x30"
definition OP_GENKEY :: u8 where [osc_const]: "OP_GENKEY = 0x40"
definition OP_SIGN :: u8 where [osc_const]: "OP_SIGN = 0x41"
definition OP_SHA :: u8 where [osc_const]: "OP_SHA = 0x47"
definition OP_SELFTEST :: u8 where [osc_const]: "OP_SELFTEST = 0x77"
definition ECC204_HMAC_START :: u8 where [osc_const]: "ECC204_HMAC_START = 0x03"
definition ECC204_HMAC_END :: u8 where [osc_const]: "ECC204_HMAC_END = 0x02"
definition MS_COUNTER :: u32 where [osc_const]: "MS_COUNTER = 20"
definition MS_INFO :: u32 where [osc_const]: "MS_INFO = 20"
definition MS_NONCE :: u32 where [osc_const]: "MS_NONCE = 20"
definition MS_READ :: u32 where [osc_const]: "MS_READ = 40"
definition MS_LOCK :: u32 where [osc_const]: "MS_LOCK = 80"
definition MS_WRITE :: u32 where [osc_const]: "MS_WRITE = 80"
definition MS_GENKEY :: u32 where [osc_const]: "MS_GENKEY = 500"
definition MS_SELFTEST :: u32 where [osc_const]: "MS_SELFTEST = 600"
definition MS_SHA :: u32 where [osc_const]: "MS_SHA = 80"
definition MS_SIGN :: u32 where [osc_const]: "MS_SIGN = 500"
definition COUNTER_MAX :: u32 where [osc_const]: "COUNTER_MAX = 10000"

definition CONFIG_ZONE_LEN :: nat where [osc_const]: "CONFIG_ZONE_LEN = 64"
definition CONFIG_SLOT_LEN :: nat where [osc_const]: "CONFIG_SLOT_LEN = 16"
definition UNAVAILABLE :: se_error where "UNAVAILABLE = SeUnavailable"

datatype uart_op = UoBaud u32 | UoWrite bytes | UoRead nat u32

text \<open>What the UART answers after the operations so far, the asked one last; a read gives what was received.\<close>

record swi_uart =
  ua_set_baud :: "uart_op list \<Rightarrow> bool"
  ua_write :: "uart_op list \<Rightarrow> bool"
  ua_read :: "uart_op list \<Rightarrow> bytes option"

record framing =
  fm_encode :: "u8 \<Rightarrow> u8 \<Rightarrow> u16 \<Rightarrow> bytes \<Rightarrow> bytes \<Rightarrow> se_error + (bytes \<times> nat)"
  fm_decode :: "bytes \<Rightarrow> se_error + bytes"
  fm_wake :: "swi_uart \<Rightarrow> uart_op list \<Rightarrow> (se_error + unit) \<times> uart_op list"

record ecc204 =
  ec_hist :: "uart_op list"
  ec_serial :: "bytes option"

definition ecc204_new :: "uart_op list \<Rightarrow> ecc204" where
  "ecc204_new hist = \<lparr> ec_hist = hist, ec_serial = None \<rparr>"

definition saturating_mul32 :: "u32 \<Rightarrow> u32 \<Rightarrow> u32" where
  "saturating_mul32 a b = (if unat a * unat b < 2 ^ 32 then a * b else - 1)"

definition ecc_exchange ::
  "swi_uart \<Rightarrow> framing \<Rightarrow> u8 \<Rightarrow> u8 \<Rightarrow> u16 \<Rightarrow> bytes \<Rightarrow> u32 \<Rightarrow> bytes \<Rightarrow> ecc204 \<Rightarrow> ((se_error + nat) \<times> bytes \<times> ecc204) option" where
  "ecc_exchange U F opc mode param2 data exec_ms out s =
     (case fm_encode F opc mode param2 data (replicate 96 0) of
        Inl e \<Rightarrow> Some (Inl e, out, s)
      | Inr (cmd, n) \<Rightarrow>
          (case fm_wake F U (ec_hist s) of
             (Inl e, h) \<Rightarrow> Some (Inl e, out, s\<lparr> ec_hist := h \<rparr>)
           | (Inr _, h) \<Rightarrow>
               if 96 < n then None
               else
                 let h = h @ [UoWrite (take n cmd)]
                 in if \<not> ua_write U h then Some (Inl SeBadResponse, out, s\<lparr> ec_hist := h \<rparr>)
                    else
                      let h = h @ [UoRead 96 (saturating_mul32 exec_ms 1500)]; s = s\<lparr> ec_hist := h \<rparr>
                      in case ua_read U h of
                           None \<Rightarrow> Some (Inl SeTimeout, out, s)
                         | Some raw \<Rightarrow>
                             if 96 < length raw then None
                             else
                               (case fm_decode F raw of
                                  Inl e \<Rightarrow> Some (Inl e, out, s)
                                | Inr payload \<Rightarrow>
                                    if length out < length payload then Some (Inl SeBadResponse, out, s)
                                    else Some (Inr (length payload), put 0 payload out, s))))"

definition ecc_hmac :: "swi_uart \<Rightarrow> framing \<Rightarrow> bytes \<Rightarrow> bytes \<Rightarrow> ecc204 \<Rightarrow> ((se_error + unit) \<times> bytes \<times> ecc204) option" where
  "ecc_hmac U F msg out s =
     do { (r, _, s) \<leftarrow> ecc_exchange U F OP_SHA ECC204_HMAC_START 0 [] MS_SHA (replicate 32 0) s;
          case r of
            Inl e \<Rightarrow> Some (Inl e, out, s)
          | Inr _ \<Rightarrow>
              do { (r, out, s) \<leftarrow> ecc_exchange U F OP_SHA ECC204_HMAC_END (of_nat (length msg)) msg MS_SHA out s;
                   case r of
                     Inl e \<Rightarrow> Some (Inl e, out, s)
                   | Inr n \<Rightarrow> Some (if n \<noteq> 32 then Inl SeBadResponse else Inr (), out, s) } }"

definition ecc_random :: "swi_uart \<Rightarrow> framing \<Rightarrow> bytes \<Rightarrow> ecc204 \<Rightarrow> ((se_error + unit) \<times> bytes \<times> ecc204) option" where
  "ecc_random U F out s =
     do { (r, buf, s) \<leftarrow> ecc_exchange U F OP_NONCE 0 0 [] MS_NONCE (replicate 32 0) s;
          case r of
            Inl e \<Rightarrow> Some (Inl e, out, s)
          | Inr n \<Rightarrow> if n < length out then Some (Inl SeBadResponse, out, s) else Some (Inr (), take (length out) buf, s) }"

definition ecc_sign :: "swi_uart \<Rightarrow> framing \<Rightarrow> bytes \<Rightarrow> bytes \<Rightarrow> ecc204 \<Rightarrow> ((se_error + unit) \<times> bytes \<times> ecc204) option" where
  "ecc_sign U F digest out s =
     do { (r, out, s) \<leftarrow> ecc_exchange U F OP_SIGN 0 0 digest MS_SIGN out s;
          case r of
            Inl e \<Rightarrow> Some (Inl e, out, s)
          | Inr n \<Rightarrow> Some (if n \<noteq> SIGNATURE_LEN then Inl SeBadResponse else Inr (), out, s) }"

definition ecc_serial :: "swi_uart \<Rightarrow> framing \<Rightarrow> bytes \<Rightarrow> ecc204 \<Rightarrow> ((se_error + unit) \<times> bytes \<times> ecc204) option" where
  "ecc_serial U F out s =
     (case ec_serial s of
        Some serial \<Rightarrow> Some (Inr (), serial, s)
      | None \<Rightarrow>
          do { (r, buf, s) \<leftarrow> ecc_exchange U F OP_INFO 0 0 [] MS_INFO (replicate 32 0) s;
               case r of
                 Inl e \<Rightarrow> Some (Inl e, out, s)
               | Inr n \<Rightarrow>
                   if n < SERIAL_LEN then Some (Inl SeBadResponse, out, s)
                   else Some (Inr (), take SERIAL_LEN buf, s\<lparr> ec_serial := Some (take SERIAL_LEN buf) \<rparr>) })"

definition ecc_counter_increment :: "swi_uart \<Rightarrow> framing \<Rightarrow> ecc204 \<Rightarrow> ((se_error + u32) \<times> ecc204) option" where
  "ecc_counter_increment U F s =
     do { (r, buf, s) \<leftarrow> ecc_exchange U F OP_COUNTER 1 0 [] MS_COUNTER (replicate 4 0) s;
          case r of
            Inl e \<Rightarrow> Some (Inl e, s)
          | Inr n \<Rightarrow>
              if n < 4 then Some (Inl SeBadResponse, s)
              else let v = le32 (buf ! 0) (buf ! 1) (buf ! 2) (buf ! 3)
                   in if COUNTER_MAX \<le> v then Some (Inl SeCounterExhausted, s) else Some (Inr v, s) }"

definition ecc204_se :: "swi_uart \<Rightarrow> framing \<Rightarrow> ecc204 secure_element" where
  "ecc204_se U F =
     \<lparr> se_hmac = ecc_hmac U F, se_random = ecc_random U F, se_sign = ecc_sign U F, se_serial = ecc_serial U F,
       se_counter_increment = ecc_counter_increment U F \<rparr>"


subsection \<open>The single-wire encoding round-trips\<close>

lemma decode_step_bit:
  "bit (if P then b OR push_bit k 1 else b :: u8) j \<longleftrightarrow> bit b j \<or> P \<and> j = k \<and> j < 8"
  by (auto simp: bit_simps)

lemma decode_fold_bit:
  "bit (fold (\<lambda>(i, c) b. if c XOR BIT_ONE < 2 then b OR push_bit i 1 else b) (enumerate k chars) (b :: u8)) j \<longleftrightarrow>
     bit b j \<or> k \<le> j \<and> j < k + length chars \<and> j < 8 \<and> chars ! (j - k) XOR BIT_ONE < 2"
proof (induction chars arbitrary: k b)
  case (Cons c cs)
  have "(c # cs) ! (j - k) = cs ! (j - Suc k)" if "k < j" using that by (simp add: nth_Cons')
  then show ?case
    unfolding enumerate_simps fold_simps prod.case Cons.IH decode_step_bit
    by (cases "k < j"; cases "j = k") auto
qed auto

lemma word_less_2: "x < 2 \<Longrightarrow> x = 0 \<or> x = 1" for x :: u8
proof -
  assume "x < 2"
  then have "unat x < 2" by (simp add: word_less_nat_alt)
  then have "unat x = unat (0 :: u8) \<or> unat x = unat (1 :: u8)" by auto
  then show ?thesis by (metis unsigned_word_eqI)
qed

lemma swi_zero_char: "\<not> c XOR BIT_ONE < 2" if "c XOR BIT_ZERO < 2"
proof -
  have "c = (c XOR BIT_ZERO) XOR BIT_ZERO" by (simp add: xor.assoc)
  then have "c = BIT_ZERO \<or> c = 1 XOR BIT_ZERO" using word_less_2 [OF that] by auto
  then show ?thesis by (auto simp: BIT_ZERO_def BIT_ONE_def)
qed

text \<open>
  The single-wire encoding survives the jitter it is meant to survive: a byte is read back from any eight
  characters that differ from its encoding in their lowest bits only.
\<close>

theorem swi_round_trip:
  assumes "length chars = CHARS_PER_BYTE" "\<forall>i<CHARS_PER_BYTE. chars ! i XOR encode_byte b ! i < 2"
  shows "decode_byte chars = b"
proof (rule word8_eqI, intro allI impI)
  fix j :: nat assume j: "j < 8"
  have one: "drop_bit j b AND 1 \<noteq> 0 \<longleftrightarrow> bit b j"
    by (simp add: and_one_eq bit_iff_odd_drop_bit mod_2_eq_odd)
  have "encode_byte b ! j = (if bit b j then BIT_ONE else BIT_ZERO)"
    using j by (simp add: encode_byte_def CHARS_PER_BYTE_def one)
  moreover have "chars ! j XOR encode_byte b ! j < 2" using assms(2) j by (simp add: CHARS_PER_BYTE_def)
  ultimately have "chars ! j XOR BIT_ONE < 2 \<longleftrightarrow> bit b j" using swi_zero_char [of "chars ! j"] by (auto split: if_splits)
  then show "bit (decode_byte chars) j = bit b j"
    using j assms(1) by (simp add: decode_byte_def decode_fold_bit CHARS_PER_BYTE_def)
qed

theorem swi_round_trip_witness: "decode_byte [0x7E, 0x7D, 0x7F, 0x7C, 0x7D, 0x7D, 0x7D, 0x7E] = 0x85"
  by (rule swi_round_trip) code_simp+

subsection \<open>The wire-time estimate\<close>

lemma transfer_time_mod: "unat (transfer_time_us n) = n * 80000000 mod 2 ^ 32 div 230400"
proof -
  have "of_nat n * of_nat CHARS_PER_BYTE * 10 * 1000000 = (of_nat (n * 80000000) :: u32)"
    by (simp add: CHARS_PER_BYTE_def)
  moreover have "unat (of_nat (n * 80000000) :: u32) = n * 80000000 mod 2 ^ 32"
    by (simp only: unat_of_nat take_bit_eq_mod) simp
  ultimately show ?thesis by (simp add: transfer_time_us_def unat_div SWI_BAUD_def)
qed

text \<open>
  The wire-time estimate is exact for up to 53 bytes and wrong for a signature: the product is formed in
  32 bits, so the 64 bytes that a SIGN response carries, 22 ms of wire time, come out as 3.6 ms.
\<close>

theorem transfer_time_overflows:
  "(n \<le> 53 \<longrightarrow> unat (transfer_time_us n) = n * (CHARS_PER_BYTE * 10) * 1000000 div unat SWI_BAUD) \<and>
   unat (transfer_time_us SIGNATURE_LEN) = 3580 \<and> SIGNATURE_LEN * (CHARS_PER_BYTE * 10) * 1000000 div unat SWI_BAUD = 22222"
proof (intro conjI impI)
  assume "n \<le> 53"
  then have "n * 80000000 mod 2 ^ 32 = n * 80000000" by (intro mod_less) simp
  then show "unat (transfer_time_us n) = n * (CHARS_PER_BYTE * 10) * 1000000 div unat SWI_BAUD"
    unfolding transfer_time_mod by (simp add: CHARS_PER_BYTE_def SWI_BAUD_def)
qed (simp_all only: transfer_time_mod, simp_all add: SIGNATURE_LEN_def CHARS_PER_BYTE_def SWI_BAUD_def)

theorem transfer_time_overflows_witness: "unat (transfer_time_us 35) = 12152 \<and> unat (transfer_time_us 64) = 3580"
  using transfer_time_overflows [of 35] by (simp add: CHARS_PER_BYTE_def SWI_BAUD_def SIGNATURE_LEN_def)


subsection \<open>The driver fails closed\<close>

text \<open>One exchange in which the device was woken, took the command and answered with a response the framing accepts.\<close>

definition answered :: "swi_uart \<Rightarrow> framing \<Rightarrow> u8 \<Rightarrow> u8 \<Rightarrow> u16 \<Rightarrow> bytes \<Rightarrow> u32 \<Rightarrow> ecc204 \<Rightarrow> bytes \<Rightarrow> ecc204 \<Rightarrow> bool" where
  "answered U F opc mode param2 data exec_ms s payload s' \<longleftrightarrow>
     (\<exists>cmd n h raw.
        fm_encode F opc mode param2 data (replicate 96 0) = Inr (cmd, n) \<and> n \<le> 96 \<and>
        fm_wake F U (ec_hist s) = (Inr (), h) \<and>
        ua_write U (h @ [UoWrite (take n cmd)]) \<and>
        ua_read U (h @ [UoWrite (take n cmd), UoRead 96 (saturating_mul32 exec_ms 1500)]) = Some raw \<and>
        length raw \<le> 96 \<and> fm_decode F raw = Inr payload \<and>
        s' = s\<lparr> ec_hist := h @ [UoWrite (take n cmd), UoRead 96 (saturating_mul32 exec_ms 1500)] \<rparr>)"

lemma exchange_Ok_iff:
  "ecc_exchange U F opc mode param2 data ms out s = Some (Inr n, out', s') \<longleftrightarrow>
     (\<exists>payload. answered U F opc mode param2 data ms s payload s' \<and> length payload \<le> length out \<and>
        n = length payload \<and> out' = put 0 payload out)"
  by (auto simp: ecc_exchange_def answered_def Let_def not_less not_le split: sum.splits prod.splits if_splits option.splits)

lemma exchange_Ok_ex:
  "(\<exists>n buf. ecc_exchange U F opc mode param2 data ms out s = Some (Inr n, buf, s') \<and> P n buf) \<longleftrightarrow>
     (\<exists>p. answered U F opc mode param2 data ms s p s' \<and> length p \<le> length out \<and> P (length p) (put 0 p out))"
  by (auto simp: exchange_Ok_iff)

lemma bind_sum_Ok:
  "(do { (r, x, s) \<leftarrow> m; case r of Inl e \<Rightarrow> Some (Inl e, f x s) | Inr n \<Rightarrow> g n x s }) = Some (Inr y, z) \<longleftrightarrow>
     (\<exists>n x s. m = Some (Inr n, x, s) \<and> g n x s = Some (Inr y, z))"
proof (cases m)
  case (Some q)
  obtain r x s where "q = (r, x, s)" by (cases q) auto
  then show ?thesis using Some by (cases r) auto
qed simp

lemma hmac_Ok_iff:
  assumes "length out = 32"
  shows "ecc_hmac U F msg out s = Some (Inr (), out', s') \<longleftrightarrow>
    (\<exists>key s1. answered U F OP_SHA ECC204_HMAC_START 0 [] MS_SHA s key s1 \<and> length key \<le> 32 \<and>
       answered U F OP_SHA ECC204_HMAC_END (of_nat (length msg)) msg MS_SHA s1 out' s' \<and> length out' = 32)"
    (is "?l = ?r")
proof
  assume ?l
  then obtain k x s1 where a: "ecc_exchange U F OP_SHA ECC204_HMAC_START 0 [] MS_SHA (replicate 32 0) s = Some (Inr k, x, s1)"
      and b: "ecc_exchange U F OP_SHA ECC204_HMAC_END (of_nat (length msg)) msg MS_SHA out s1 = Some (Inr 32, out', s')"
    unfolding ecc_hmac_def bind_sum_Ok by (auto split: if_splits)
  from a obtain key where key: "answered U F OP_SHA ECC204_HMAC_START 0 [] MS_SHA s key s1" "length key \<le> 32"
    unfolding exchange_Ok_iff by auto
  from b have "answered U F OP_SHA ECC204_HMAC_END (of_nat (length msg)) msg MS_SHA s1 out' s'" "length out' = 32"
    using assms unfolding exchange_Ok_iff by (auto simp: put_def)
  with key show ?r by blast
next
  assume ?r
  then obtain key s1 where a: "answered U F OP_SHA ECC204_HMAC_START 0 [] MS_SHA s key s1" "length key \<le> 32"
      "answered U F OP_SHA ECC204_HMAC_END (of_nat (length msg)) msg MS_SHA s1 out' s'" "length out' = 32" by blast
  have "ecc_exchange U F OP_SHA ECC204_HMAC_START 0 [] MS_SHA (replicate 32 0) s = Some (Inr (length key), put 0 key (replicate 32 0), s1)"
    using a unfolding exchange_Ok_iff by auto
  moreover have "ecc_exchange U F OP_SHA ECC204_HMAC_END (of_nat (length msg)) msg MS_SHA out s1 = Some (Inr 32, out', s')"
    using a assms unfolding exchange_Ok_iff by (auto simp: put_def)
  ultimately show ?l by (simp add: ecc_hmac_def)
qed

lemma sign_Ok_iff:
  assumes "length out = SIGNATURE_LEN"
  shows "ecc_sign U F digest out s = Some (Inr (), out', s') \<longleftrightarrow>
    answered U F OP_SIGN 0 0 digest MS_SIGN s out' s' \<and> length out' = SIGNATURE_LEN" (is "?l = ?r")
proof -
  have "?l \<longleftrightarrow> ecc_exchange U F OP_SIGN 0 0 digest MS_SIGN out s = Some (Inr SIGNATURE_LEN, out', s')"
    unfolding ecc_sign_def bind_sum_Ok by (auto split: if_splits)
  also have "\<dots> \<longleftrightarrow> ?r" using assms unfolding exchange_Ok_iff by (auto simp: put_def)
  finally show ?thesis .
qed

lemma random_Ok_iff:
  "ecc_random U F out s = Some (Inr (), out', s') \<longleftrightarrow>
    (\<exists>payload. answered U F OP_NONCE 0 0 [] MS_NONCE s payload s' \<and> length out \<le> length payload \<and> length payload \<le> 32 \<and>
       out' = take (length out) payload)" (is "?l = ?r")
proof -
  have "?l \<longleftrightarrow> (\<exists>n buf. ecc_exchange U F OP_NONCE 0 0 [] MS_NONCE (replicate 32 0) s = Some (Inr n, buf, s') \<and>
      length out \<le> n \<and> out' = take (length out) buf)"
    unfolding ecc_random_def bind_sum_Ok by (auto simp: not_less split: if_splits)
  also have "\<dots> \<longleftrightarrow> ?r" unfolding exchange_Ok_ex by (intro ex_cong1) (auto simp: put_def)
  finally show ?thesis .
qed

lemma serial_Ok_iff:
  "ecc_serial U F out s = Some (Inr (), out', s') \<longleftrightarrow>
    ec_serial s = Some out' \<and> s' = s \<or>
    ec_serial s = None \<and>
    (\<exists>payload s1. answered U F OP_INFO 0 0 [] MS_INFO s payload s1 \<and> SERIAL_LEN \<le> length payload \<and> length payload \<le> 32 \<and>
       out' = take SERIAL_LEN payload \<and> s' = s1\<lparr> ec_serial := Some out' \<rparr>)"
proof (cases "ec_serial s")
  case None
  have "ecc_serial U F out s = Some (Inr (), out', s') \<longleftrightarrow>
      (\<exists>s1 n buf. ecc_exchange U F OP_INFO 0 0 [] MS_INFO (replicate 32 0) s = Some (Inr n, buf, s1) \<and>
         SERIAL_LEN \<le> n \<and> out' = take SERIAL_LEN buf \<and> s' = s1\<lparr> ec_serial := Some out' \<rparr>)"
    unfolding ecc_serial_def None option.case bind_sum_Ok by (auto simp: not_less split: if_splits)
  also have "\<dots> \<longleftrightarrow> (\<exists>s1 payload. answered U F OP_INFO 0 0 [] MS_INFO s payload s1 \<and> SERIAL_LEN \<le> length payload \<and>
      length payload \<le> 32 \<and> out' = take SERIAL_LEN payload \<and> s' = s1\<lparr> ec_serial := Some out' \<rparr>)"
    unfolding exchange_Ok_ex by (intro ex_cong1) (auto simp: put_def)
  finally show ?thesis using None by auto
qed (auto simp: ecc_serial_def)

lemma counter_Ok_iff:
  "ecc_counter_increment U F s = Some (Inr v, s') \<longleftrightarrow>
    answered U F OP_COUNTER 1 0 [] MS_COUNTER s (le32_bytes v) s' \<and> v < COUNTER_MAX" (is "?l = ?r")
proof -
  have "?l \<longleftrightarrow> (\<exists>n buf. ecc_exchange U F OP_COUNTER 1 0 [] MS_COUNTER (replicate 4 0) s = Some (Inr n, buf, s') \<and>
      4 \<le> n \<and> v = le32 (buf ! 0) (buf ! 1) (buf ! 2) (buf ! 3) \<and> v < COUNTER_MAX)"
    unfolding ecc_counter_increment_def bind_sum_Ok by (auto simp: Let_def not_less not_le split: if_splits)
  also have "\<dots> \<longleftrightarrow> (\<exists>p. answered U F OP_COUNTER 1 0 [] MS_COUNTER s p s' \<and> length p = 4 \<and>
      v = le32 (p ! 0) (p ! 1) (p ! 2) (p ! 3) \<and> v < COUNTER_MAX)"
    unfolding exchange_Ok_ex by (intro ex_cong1) (auto simp: put_def)
  also have "\<dots> \<longleftrightarrow> ?r"
  proof -
    have e: "length p = 4 \<and> v = le32 (p ! 0) (p ! 1) (p ! 2) (p ! 3) \<longleftrightarrow> p = le32_bytes v" for p
    proof
      assume "length p = 4 \<and> v = le32 (p ! 0) (p ! 1) (p ! 2) (p ! 3)"
      then show "p = le32_bytes v" using length_4_ex [of p] by (auto simp: le32_bytes_le32)
    qed (simp add: le32_bytes_def)
    show ?thesis
    proof
      assume "\<exists>p. answered U F OP_COUNTER 1 0 [] MS_COUNTER s p s' \<and> length p = 4 \<and>
        v = le32 (p ! 0) (p ! 1) (p ! 2) (p ! 3) \<and> v < COUNTER_MAX"
      then obtain p where "answered U F OP_COUNTER 1 0 [] MS_COUNTER s p s'" "p = le32_bytes v" "v < COUNTER_MAX" using e by blast
      then show ?r by simp
    next
      assume ?r
      then show "\<exists>p. answered U F OP_COUNTER 1 0 [] MS_COUNTER s p s' \<and> length p = 4 \<and>
        v = le32 (p ! 0) (p ! 1) (p ! 2) (p ! 3) \<and> v < COUNTER_MAX" using e [of "le32_bytes v"] by blast
    qed
  qed
  finally show ?thesis .
qed


text \<open>
  C6. The secure-element driver never invents a success. Each operation returns \<open>Ok\<close> exactly when the device,
  in this call, was woken, took the very command and answered within the framing's rules with a payload of
  the right length, and then the result is that payload: an HMAC needs both of its commands, in order, the
  second over the message; randomness is never padded; a counter value below the ceiling is the device's
  little-endian answer. The one exception is the serial, which after its first success is answered from the
  cache, unchanged and without touching the wire.
\<close>

theorem ecc204_fails_closed:
  assumes "length digest = 32" "length sig = SIGNATURE_LEN"
  shows "(se_hmac (ecc204_se U F) msg digest s = Some (Inr (), out', s') \<longleftrightarrow>
      (\<exists>key s1. answered U F OP_SHA ECC204_HMAC_START 0 [] MS_SHA s key s1 \<and> length key \<le> 32 \<and>
         answered U F OP_SHA ECC204_HMAC_END (of_nat (length msg)) msg MS_SHA s1 out' s' \<and> length out' = 32)) \<and>
    (se_sign (ecc204_se U F) msg sig s = Some (Inr (), out', s') \<longleftrightarrow>
      answered U F OP_SIGN 0 0 msg MS_SIGN s out' s' \<and> length out' = SIGNATURE_LEN) \<and>
    (se_random (ecc204_se U F) out s = Some (Inr (), out', s') \<longleftrightarrow>
      (\<exists>p. answered U F OP_NONCE 0 0 [] MS_NONCE s p s' \<and> length out \<le> length p \<and> length p \<le> 32 \<and>
         out' = take (length out) p)) \<and>
    (se_serial (ecc204_se U F) out s = Some (Inr (), out', s') \<longleftrightarrow>
      ec_serial s = Some out' \<and> s' = s \<or>
      ec_serial s = None \<and>
      (\<exists>p s1. answered U F OP_INFO 0 0 [] MS_INFO s p s1 \<and> SERIAL_LEN \<le> length p \<and> length p \<le> 32 \<and>
         out' = take SERIAL_LEN p \<and> s' = s1\<lparr> ec_serial := Some out' \<rparr>)) \<and>
    (se_counter_increment (ecc204_se U F) s = Some (Inr v, s') \<longleftrightarrow>
      answered U F OP_COUNTER 1 0 [] MS_COUNTER s (le32_bytes v) s' \<and> v < COUNTER_MAX)"
  by (simp add: ecc204_se_def hmac_Ok_iff [OF assms(1)] sign_Ok_iff [OF assms(2)] random_Ok_iff serial_Ok_iff counter_Ok_iff)

text \<open>A framing that sends opcode, mode and data as they are, and a device that answers every command with 32 sevens.\<close>

definition plain_framing :: framing where
  "plain_framing =
     \<lparr> fm_encode = \<lambda>opc mode param2 data buf. if length buf < 2 + length data then Inl SeRejected else Inr (put 0 (opc # mode # data) buf, 2 + length data),
       fm_decode = Inr, fm_wake = \<lambda>U h. (Inr (), h @ [UoBaud SWI_BAUD]) \<rparr>"

definition seven_uart :: swi_uart where
  "seven_uart = \<lparr> ua_set_baud = \<lambda>h. True, ua_write = \<lambda>h. True, ua_read = \<lambda>h. Some (replicate 32 7) \<rparr>"

theorem ecc204_fails_closed_witness:
  "se_hmac (ecc204_se seven_uart plain_framing) [1, 2, 3] (replicate 32 0) (ecc204_new []) =
     Some (Inr (), replicate 32 7, \<lparr> ec_hist = [UoBaud SWI_BAUD, UoWrite [0x47, 3], UoRead 96 120000, UoBaud SWI_BAUD,
       UoWrite [0x47, 2, 1, 2, 3], UoRead 96 120000], ec_serial = None \<rparr>)" (is "_ = Some (Inr (), _, ?s2)")
proof (rule ecc204_fails_closed [THEN conjunct1, THEN iffD2, of _ "replicate SIGNATURE_LEN 0"])
  let ?s1 = "\<lparr> ec_hist = [UoBaud SWI_BAUD, UoWrite [0x47, 3], UoRead 96 120000], ec_serial = None \<rparr>"
  have t: "saturating_mul32 MS_SHA 1500 = 120000" by (simp add: saturating_mul32_def MS_SHA_def)
  have "answered seven_uart plain_framing OP_SHA ECC204_HMAC_START 0 [] MS_SHA (ecc204_new []) (replicate 32 7) ?s1"
    by (simp add: answered_def plain_framing_def seven_uart_def ecc204_new_def t put_def OP_SHA_def ECC204_HMAC_START_def)
  moreover have "answered seven_uart plain_framing OP_SHA ECC204_HMAC_END (of_nat (length [1, 2, 3 :: u8])) [1, 2, 3] MS_SHA ?s1 (replicate 32 7) ?s2"
    by (simp add: answered_def plain_framing_def seven_uart_def t put_def OP_SHA_def ECC204_HMAC_END_def)
  ultimately show "\<exists>key s1. answered seven_uart plain_framing OP_SHA ECC204_HMAC_START 0 [] MS_SHA (ecc204_new []) key s1 \<and> length key \<le> 32 \<and>
      answered seven_uart plain_framing OP_SHA ECC204_HMAC_END (of_nat (length [1, 2, 3 :: u8])) [1, 2, 3] MS_SHA s1 (replicate 32 7) ?s2 \<and>
      length (replicate 32 (7 :: u8)) = 32"
    by (intro exI [of _ "replicate 32 7"] exI [of _ ?s1]) simp
qed simp_all

text \<open>
  Through the driver's 96-byte buffers no signature can be asked for and no digest received. If the framing
  expands data into bit characters, as the single-wire protocol needs and nothing else in the driver does, at
  \<open>CHARS_PER_BYTE\<close> characters per byte, then SIGN over a 32-byte digest and HMAC fail on every device.
\<close>

theorem swi_buffers_too_small:
  assumes "\<And>opc mode param2 data buf cmd n. fm_encode F opc mode param2 data buf = Inr (cmd, n) \<Longrightarrow>
      CHARS_PER_BYTE * length data \<le> n \<and> n \<le> length buf"
    and "\<And>raw p. fm_decode F raw = Inr p \<Longrightarrow> CHARS_PER_BYTE * length p \<le> length raw"
    and "length digest = 32" "length sig = SIGNATURE_LEN" "length out = 32"
  shows "ecc_sign U F digest sig s \<noteq> Some (Inr (), out', s')" "ecc_hmac U F msg out s \<noteq> Some (Inr (), out', s')"
proof -
  have small: "length data \<le> 12 \<and> length p \<le> 12" if a: "answered U F opc mode param2 data ms t p t'" for opc mode param2 data ms t p t'
  proof -
    obtain cmd n raw where "fm_encode F opc mode param2 data (replicate 96 0) = Inr (cmd, n)" "n \<le> 96"
        "fm_decode F raw = Inr p" "length raw \<le> 96"
      using a unfolding answered_def by blast
    then show ?thesis using assms(1) [of opc mode param2 data "replicate 96 0" cmd n] assms(2) [of raw p]
      by (simp add: CHARS_PER_BYTE_def)
  qed
  show "ecc_sign U F digest sig s \<noteq> Some (Inr (), out', s')"
    using small [of OP_SIGN 0 0 digest MS_SIGN s out' s'] assms(3) unfolding sign_Ok_iff [OF assms(4)] by auto
  show "ecc_hmac U F msg out s \<noteq> Some (Inr (), out', s')"
    using small [of OP_SHA ECC204_HMAC_END "of_nat (length msg)" msg MS_SHA _ out' s'] unfolding hmac_Ok_iff [OF assms(5)] by auto
qed


text \<open>The single-wire framing itself: every byte as its eight bit characters.\<close>

definition bit_framing :: framing where
  "bit_framing =
     \<lparr> fm_encode = \<lambda>opc mode param2 data buf.
         let chars = concat (map encode_byte (opc # mode # data))
         in if length buf < length chars then Inl SeRejected else Inr (put 0 chars buf, length chars),
       fm_decode = \<lambda>raw. Inr (map (\<lambda>i. decode_byte (take CHARS_PER_BYTE (drop (CHARS_PER_BYTE * i) raw))) [0..<length raw div CHARS_PER_BYTE]),
       fm_wake = \<lambda>U h. (Inr (), h @ [UoBaud SWI_BAUD]) \<rparr>"

lemma length_encode_bytes: "length (concat (map encode_byte bs)) = CHARS_PER_BYTE * length bs"
  by (induction bs) (simp_all add: encode_byte_def)

theorem swi_buffers_too_small_witness:
  "ecc_sign seven_uart bit_framing (replicate 32 1) (replicate 64 0) (ecc204_new []) \<noteq> Some (Inr (), replicate 64 7, ecc204_new [])"
proof (rule swi_buffers_too_small(1) [where out = "replicate 32 0"])
  fix opc mode param2 data buf cmd n
  assume "fm_encode bit_framing opc mode param2 data buf = Inr (cmd, n)"
  then show "CHARS_PER_BYTE * length data \<le> n \<and> n \<le> length buf"
    using length_encode_bytes [of "opc # mode # data"] by (auto simp: bit_framing_def Let_def split: if_splits)
qed (auto simp: bit_framing_def SIGNATURE_LEN_def)

end
