(* ===== verification/Ct_Stage.thy ===== *)
theory Ct_Stage
  imports Osc_Wire
begin

text \<open>
  \<open>control-table/src/stage.rs\<close>: the transactional staging buffer in which writes wait for their
  verdict or for a COMMIT. A \<open>heapless::Vec\<close> is the list of its elements; its two operations that
  can fail on a full vector come from that package and are the argument \<open>vec_ops\<close>, with their
  documented behaviour as the premise \<open>vec_ok\<close>. The locale \<open>staging\<close> is what the register file and
  the dispatcher rely on; the buffer implements it through the list of staged writes.
\<close>

subsection \<open>Errors and capacities\<close>

datatype validation_kind = VkEnum | VkCompare

datatype ct_error = OutOfRange | AccessError | StagingFull | ValidationError validation_kind

fun parse_digits :: "nat \<Rightarrow> bytes \<Rightarrow> nat option" where
  "parse_digits n [] = Some n"
| "parse_digits n (b # bs) =
     (if 0x30 \<le> b \<and> b \<le> 0x39 then parse_digits (n * 10 + unat (b - 0x30)) bs else None)"

definition parse_usize :: "bytes \<Rightarrow> nat option" where "parse_usize s = parse_digits 0 s"

definition env_usize :: "bytes option \<Rightarrow> nat \<Rightarrow> nat option" where
  "env_usize value dflt = (case value of Some s \<Rightarrow> parse_usize s | None \<Rightarrow> Some dflt)"

text \<open>The capacities of a build without the two environment overrides.\<close>

definition STAGE_DATA_CAP :: nat where [osc_const]: "STAGE_DATA_CAP = 256"
definition STAGE_ENTRY_CAP :: nat where [osc_const]: "STAGE_ENTRY_CAP = 16"

subsection \<open>The buffer\<close>

record staged_entry =
  se_addr :: u16
  se_len :: u16
  se_data_off :: u16

record snapshot =
  sn_data :: u16
  sn_entries :: u16

definition snapshot_ZERO :: snapshot where
  "snapshot_ZERO = \<lparr> sn_data = 0, sn_entries = 0 \<rparr>"

record staged_writes =
  sw_data :: bytes
  sw_entries :: "staged_entry list"

record vec_ops =
  vo_extend :: "nat \<Rightarrow> bytes \<Rightarrow> bytes \<Rightarrow> bytes option"
  vo_push :: "nat \<Rightarrow> staged_entry list \<Rightarrow> staged_entry \<Rightarrow> staged_entry list option"

definition staged_new :: staged_writes where
  "staged_new = \<lparr> sw_data = [], sw_entries = [] \<rparr>"

definition staged_clear :: "staged_writes \<Rightarrow> staged_writes" where
  "staged_clear s = s\<lparr> sw_data := [], sw_entries := [] \<rparr>"

definition staged_is_empty :: "staged_writes \<Rightarrow> bool" where
  "staged_is_empty s \<longleftrightarrow> sw_entries s = []"

definition staged_snapshot :: "staged_writes \<Rightarrow> snapshot" where
  "staged_snapshot s = \<lparr> sn_data = of_nat (length (sw_data s)), sn_entries = of_nat (length (sw_entries s)) \<rparr>"

definition revert_to :: "staged_writes \<Rightarrow> snapshot \<Rightarrow> staged_writes" where
  "revert_to s snap =
     s\<lparr> sw_data := take (unat (sn_data snap)) (sw_data s),
        sw_entries := take (unat (sn_entries snap)) (sw_entries s) \<rparr>"

definition push_split ::
    "vec_ops \<Rightarrow> staged_writes \<Rightarrow> u16 \<Rightarrow> bytes \<Rightarrow> bytes \<Rightarrow> staged_writes \<times> (ct_error + unit)" where
  "push_split V s addr h t =
     (let data_off = length (sw_data s); total = length h + length t
      in if data_off + total > STAGE_DATA_CAP then (s, Inl StagingFull)
         else case vo_extend V STAGE_DATA_CAP (sw_data s) h of
                None \<Rightarrow> (s, Inl StagingFull)
              | Some d1 \<Rightarrow>
                  (case vo_extend V STAGE_DATA_CAP d1 t of
                     None \<Rightarrow> (s\<lparr> sw_data := take data_off d1 \<rparr>, Inl StagingFull)
                   | Some d2 \<Rightarrow>
                       (case vo_push V STAGE_ENTRY_CAP (sw_entries s)
                               \<lparr> se_addr = addr, se_len = of_nat total, se_data_off = of_nat data_off \<rparr> of
                          None \<Rightarrow> (s\<lparr> sw_data := take data_off d2 \<rparr>, Inl StagingFull)
                        | Some es \<Rightarrow> (s\<lparr> sw_data := d2, sw_entries := es \<rparr>, Inr ()))))"

definition staged_push ::
    "vec_ops \<Rightarrow> staged_writes \<Rightarrow> u16 \<Rightarrow> bytes \<Rightarrow> staged_writes \<times> (ct_error + unit)" where
  "staged_push V s addr src = push_split V s addr src []"

definition entry_span :: "staged_writes \<Rightarrow> staged_entry \<Rightarrow> u16 \<times> bytes" where
  "entry_span s e =
     (let lo = unat (se_data_off e); hi = lo + unat (se_len e)
      in (se_addr e, take (hi - lo) (drop lo (sw_data s))))"

definition iter_from :: "staged_writes \<Rightarrow> snapshot \<Rightarrow> (u16 \<times> bytes) list" where
  "iter_from s snap = map (entry_span s) (drop (unat (sn_entries snap)) (sw_entries s))"

definition iter_all :: "staged_writes \<Rightarrow> (u16 \<times> bytes) list" where
  "iter_all s = iter_from s snapshot_ZERO"

subsection \<open>Documented behaviour of the vector package\<close>

definition vec_ok :: "vec_ops \<Rightarrow> bool" where
  "vec_ok V \<longleftrightarrow>
     (\<forall>cap v x. vo_extend V cap v x = (if length v + length x \<le> cap then Some (v @ x) else None)) \<and>
     (\<forall>cap v x. vo_push V cap v x = (if length v < cap then Some (v @ [x]) else None))"

definition vec_std :: vec_ops where
  "vec_std = \<lparr> vo_extend = (\<lambda>cap v x. if length v + length x \<le> cap then Some (v @ x) else None),
     vo_push = (\<lambda>cap v x. if length v < cap then Some (v @ [x]) else None) \<rparr>"

lemma vec_std_ok [simp]: "vec_ok vec_std"
  by (simp add: vec_ok_def vec_std_def)

subsection \<open>The entries tile the data\<close>

fun tiles :: "nat \<Rightarrow> staged_entry list \<Rightarrow> nat option" where
  "tiles off [] = Some off"
| "tiles off (e # es) = (if unat (se_data_off e) = off then tiles (off + unat (se_len e)) es else None)"

definition staged_inv :: "staged_writes \<Rightarrow> bool" where
  "staged_inv s \<longleftrightarrow> tiles 0 (sw_entries s) = Some (length (sw_data s)) \<and>
     length (sw_data s) \<le> STAGE_DATA_CAP \<and> length (sw_entries s) \<le> STAGE_ENTRY_CAP"

lemma tiles_append:
  "tiles off (es @ fs) = (case tiles off es of None \<Rightarrow> None | Some m \<Rightarrow> tiles m fs)"
  by (induction es arbitrary: off) auto

lemma tiles_mono: "tiles off es = Some m \<Longrightarrow> off \<le> m"
  by (induction es arbitrary: off) (fastforce split: if_splits)+

lemma tiles_bound:
  "tiles off es = Some m \<Longrightarrow> e \<in> set es \<Longrightarrow> unat (se_data_off e) + unat (se_len e) \<le> m"
  by (induction es arbitrary: off) (auto split: if_splits dest: tiles_mono)

lemma staged_new_inv [simp]: "staged_inv staged_new"
  by (simp add: staged_inv_def staged_new_def)

lemma staged_clear_inv [simp]: "staged_inv (staged_clear s)"
  by (simp add: staged_inv_def staged_clear_def)

lemma iter_all_alt: "iter_all s = map (entry_span s) (sw_entries s)"
  by (simp add: iter_all_def iter_from_def snapshot_ZERO_def)

lemma staged_caps: "staged_inv s \<Longrightarrow> length (sw_data s) < 65536 \<and> length (sw_entries s) < 65536"
  by (simp add: staged_inv_def STAGE_DATA_CAP_def STAGE_ENTRY_CAP_def)

lemma snapshot_unat:
  "staged_inv s \<Longrightarrow> unat (sn_data (staged_snapshot s)) = length (sw_data s) \<and>
     unat (sn_entries (staged_snapshot s)) = length (sw_entries s)"
  using staged_caps [of s] by (simp add: staged_snapshot_def unat_of_nat)

subsection \<open>Push, revert and iterate\<close>

lemma push_split_law:
  assumes V: "vec_ok V" and inv: "staged_inv s"
  shows "push_split V s addr h t =
    (if length (sw_data s) + length h + length t \<le> STAGE_DATA_CAP \<and> length (sw_entries s) < STAGE_ENTRY_CAP
     then (s\<lparr> sw_data := sw_data s @ h @ t,
              sw_entries := sw_entries s @ [\<lparr> se_addr = addr, se_len = of_nat (length h + length t),
                 se_data_off = of_nat (length (sw_data s)) \<rparr>] \<rparr>, Inr ())
     else (s, Inl StagingFull))"
  using V by (auto simp: push_split_def vec_ok_def Let_def)

lemma unat_of_nat_add16: "a + b < 65536 \<Longrightarrow> unat (of_nat a + of_nat b :: u16) = a + b"
  by (simp add: unat_of_nat flip: of_nat_add)

lemma push_split_inv:
  assumes "vec_ok V" "staged_inv s"
  shows "staged_inv (fst (push_split V s addr h t))"
  using assms(2)
  by (auto simp: push_split_law [OF assms] staged_inv_def tiles_append unat_of_nat
      unat_of_nat_add16 STAGE_DATA_CAP_def)

lemma iter_all_push:
  assumes V: "vec_ok V" and inv: "staged_inv s" and ok: "snd (push_split V s addr h t) = Inr ()"
  shows "iter_all (fst (push_split V s addr h t)) = iter_all s @ [(addr, h @ t)]"
proof -
  have fits: "length (sw_data s) + length h + length t \<le> STAGE_DATA_CAP" "length (sw_entries s) < STAGE_ENTRY_CAP"
    using ok by (auto simp: push_split_law [OF V inv] split: if_splits)
  have t0: "tiles 0 (sw_entries s) = Some (length (sw_data s))" using inv by (simp add: staged_inv_def)
  show ?thesis
    using fits
    by (auto simp: push_split_law [OF V inv] iter_all_alt entry_span_def Let_def unat_of_nat
        unat_of_nat_add16 STAGE_DATA_CAP_def dest!: tiles_bound [OF t0])
qed

text \<open>A buffer extends another when it was reached from it by pushes.\<close>

definition staged_extends :: "staged_writes \<Rightarrow> staged_writes \<Rightarrow> bool" where
  "staged_extends s0 s \<longleftrightarrow> staged_inv s0 \<and> staged_inv s \<and>
     (\<exists>d es. sw_data s = sw_data s0 @ d \<and> sw_entries s = sw_entries s0 @ es)"

lemma staged_extends_refl: "staged_inv s \<Longrightarrow> staged_extends s s"
  by (simp add: staged_extends_def)

lemma staged_extends_push:
  "vec_ok V \<Longrightarrow> staged_extends s0 s \<Longrightarrow> staged_extends s0 (fst (push_split V s addr h t))"
  using push_split_inv [of V s addr h t]
  by (auto simp: staged_extends_def push_split_law)

lemma revert_to_snapshot:
  assumes "staged_extends s0 s"
  shows "revert_to s (staged_snapshot s0) = s0"
  using assms snapshot_unat [of s0]
  by (cases s; cases s0) (auto simp: staged_extends_def revert_to_def)

lemma iter_from_snapshot:
  assumes "staged_extends s0 s"
  shows "iter_all s = iter_all s0 @ iter_from s (staged_snapshot s0)"
proof -
  have t0: "tiles 0 (sw_entries s0) = Some (length (sw_data s0))" and inv: "staged_inv s0"
    using assms by (simp_all add: staged_extends_def staged_inv_def)
  from assms show ?thesis using snapshot_unat [OF inv]
    by (auto simp: staged_extends_def iter_all_alt iter_from_def entry_span_def Let_def
        dest!: tiles_bound [OF t0])
qed

subsection \<open>The staging contract\<close>

text \<open>
  What the register file and the dispatcher rely on: a buffer holds a list of writes, a push
  appends one or refuses and changes nothing, and reverting to a mark taken before any number of
  pushes restores the marked buffer exactly.
\<close>

locale staging =
  fixes inv :: "'s \<Rightarrow> bool"
    and writes :: "'s \<Rightarrow> (u16 \<times> bytes) list"
    and push :: "'s \<Rightarrow> u16 \<Rightarrow> bytes \<Rightarrow> bytes \<Rightarrow> 's \<times> (ct_error + unit)"
    and extends :: "'s \<Rightarrow> 's \<Rightarrow> bool"
    and mark :: "'s \<Rightarrow> 'm" and revert :: "'s \<Rightarrow> 'm \<Rightarrow> 's"
    and since :: "'s \<Rightarrow> 'm \<Rightarrow> (u16 \<times> bytes) list"
    and wipe :: "'s \<Rightarrow> 's"
  assumes push_appends: "inv s \<Longrightarrow> snd (push s a h t) = Inr () \<Longrightarrow>
      writes (fst (push s a h t)) = writes s @ [(a, h @ t)]"
    and push_refuses: "inv s \<Longrightarrow> snd (push s a h t) = Inl e \<Longrightarrow> fst (push s a h t) = s \<and> e = StagingFull"
    and inv_push: "inv s \<Longrightarrow> inv (fst (push s a h t))"
    and extends_refl: "inv s \<Longrightarrow> extends s s"
    and extends_push: "extends s0 s \<Longrightarrow> extends s0 (fst (push s a h t))"
    and revert_mark: "extends s0 s \<Longrightarrow> revert s (mark s0) = s0"
    and since_mark: "extends s0 s \<Longrightarrow> writes s = writes s0 @ since s (mark s0)"
    and wipe_writes: "inv (wipe s) \<and> writes (wipe s) = []"
begin

lemma extends_pushes: "extends s0 s \<Longrightarrow> extends s0 (foldl (\<lambda>s (a, h, t). fst (push s a h t)) s ws)"
  by (induction ws arbitrary: s) (auto simp: extends_push)

lemma transaction_rolls_back:
  "inv s \<Longrightarrow> revert (foldl (\<lambda>s (a, h, t). fst (push s a h t)) s ws) (mark s) = s"
  by (rule revert_mark, rule extends_pushes, rule extends_refl)

lemma transaction_since:
  "inv s \<Longrightarrow> writes (foldl (\<lambda>s (a, h, t). fst (push s a h t)) s ws) =
     writes s @ since (foldl (\<lambda>s (a, h, t). fst (push s a h t)) s ws) (mark s)"
  by (rule since_mark, rule extends_pushes, rule extends_refl)

end

lemma push_split_refuses:
  "vec_ok V \<Longrightarrow> staged_inv s \<Longrightarrow> snd (push_split V s a h t) = Inl e \<Longrightarrow>
   fst (push_split V s a h t) = s \<and> e = StagingFull"
  by (auto simp: push_split_law split: if_splits)

lemma staged_clear_wipes: "staged_inv (staged_clear s) \<and> iter_all (staged_clear s) = []"
  by (simp add: iter_all_alt staged_clear_def staged_inv_def)

interpretation stage: staging staged_inv iter_all "push_split vec_std" staged_extends staged_snapshot
  revert_to iter_from staged_clear
  by unfold_locales
    (fact iter_all_push [OF vec_std_ok] push_split_refuses [OF vec_std_ok] push_split_inv [OF vec_std_ok]
      staged_extends_refl staged_extends_push [OF vec_std_ok] revert_to_snapshot iter_from_snapshot
      staged_clear_wipes)+

lemma vec_ok_unique: "vec_ok V \<Longrightarrow> V = vec_std"
  by (cases V) (auto simp: vec_ok_def vec_std_def fun_eq_iff)

text \<open>Staging is transactional. After any sequence of pushes, whether accepted or refused for
  lack of room, reverting to the snapshot taken before them restores the buffer exactly, and the
  entries walked since that snapshot are precisely what was added, oldest first, after everything
  that was pending before.\<close>

theorem stage_transaction:
  fixes ws :: "(u16 \<times> bytes \<times> bytes) list"
  assumes "vec_ok V" "staged_inv s"
  defines "s' \<equiv> foldl (\<lambda>s (a, h, t). fst (push_split V s a h t)) s ws"
  shows "revert_to s' (staged_snapshot s) = s \<and> iter_all s' = iter_all s @ iter_from s' (staged_snapshot s)"
  using assms(2) stage.transaction_rolls_back [of s ws] stage.transaction_since [of s ws]
  unfolding s'_def vec_ok_unique [OF assms(1)] by simp

theorem stage_transaction_witness:
  "revert_to (fst (push_split vec_std staged_new 0x180 [1] [2])) (staged_snapshot staged_new) = staged_new"
  using stage_transaction [of vec_std staged_new "[(0x180, [1], [2])]"] by simp

end
