(* ===== verification/Ct_Map.thy ===== *)
theory Ct_Map
  imports Ct_Stage
begin

text \<open>
  \<open>control-table/src/rules.rs\<close> and \<open>map.rs\<close>: the field rules, the overlay view and the validated
  register file. A register map is the record of its compile-time constants; the storage behind its
  base pointer is a byte list of length \<open>SIZE\<close>. Signed comparisons are over \<^typ>\<open>int\<close>, read off the
  two's-complement words.
\<close>

subsection \<open>The overlay view\<close>

record view =
  vw_base :: bytes
  vw_size :: nat
  vw_overlay_addr :: u16
  vw_o1 :: bytes
  vw_o2 :: bytes

definition view_new_split :: "bytes \<Rightarrow> nat \<Rightarrow> u16 \<Rightarrow> bytes \<Rightarrow> bytes \<Rightarrow> view" where
  "view_new_split base sz overlay_addr o1 o2 =
     \<lparr> vw_base = base, vw_size = sz, vw_overlay_addr = overlay_addr, vw_o1 = o1, vw_o2 = o2 \<rparr>"

definition view_new :: "bytes \<Rightarrow> nat \<Rightarrow> u16 \<Rightarrow> bytes \<Rightarrow> view" where
  "view_new base sz overlay_addr overlay = view_new_split base sz overlay_addr overlay []"

definition load_le4 :: "bytes \<Rightarrow> nat \<Rightarrow> nat \<Rightarrow> bytes" where
  "load_le4 m p len =
     (if 4 \<le> len then [m ! p, m ! (p + 1), m ! (p + 2), m ! (p + 3)]
      else if len = 2 then [m ! p, m ! (p + 1), 0, 0]
      else if len = 1 then [m ! p, 0, 0, 0]
      else if len = 3 then [m ! p, m ! (p + 1), m ! (p + 2), 0]
      else [0, 0, 0, 0])"

definition opt_byte :: "u8 option \<Rightarrow> u8" where
  "opt_byte x = (case x of Some b \<Rightarrow> b | None \<Rightarrow> 0)"

definition read_mixed :: "view \<Rightarrow> nat \<Rightarrow> nat \<Rightarrow> nat \<Rightarrow> nat \<Rightarrow> nat \<Rightarrow> bytes" where
  "read_mixed v lo len o_lo split o_hi =
     map (\<lambda>i. if i < len then
                (let a = lo + i
                 in if o_lo \<le> a \<and> a < split then opt_byte (nth_opt (vw_o1 v) (a - o_lo))
                    else if split \<le> a \<and> a < o_hi then opt_byte (nth_opt (vw_o2 v) (a - split))
                    else vw_base v ! a)
              else 0) [0..<4]"

definition read_fixed :: "view \<Rightarrow> u16 \<Rightarrow> nat \<Rightarrow> ct_error + bytes" where
  "read_fixed v addr len =
     (let lo = unat addr; hi = lo + len
      in if hi > vw_size v then Inl OutOfRange
         else let o_lo = unat (vw_overlay_addr v);
                  split = o_lo + length (vw_o1 v);
                  o_hi = split + length (vw_o2 v)
              in if hi \<le> o_lo \<or> o_hi \<le> lo then Inr (load_le4 (vw_base v) lo len)
                 else if o_lo \<le> lo \<and> hi \<le> split then Inr (load_le4 (vw_o1 v) (lo - o_lo) len)
                 else Inr (read_mixed v lo len o_lo split o_hi))"

subsection \<open>Field rules\<close>

definition OP_LT :: u8 where "OP_LT = 0"
definition OP_LE :: u8 where "OP_LE = 1"
definition OP_GT :: u8 where "OP_GT = 2"
definition OP_GE :: u8 where "OP_GE = 3"
definition OP_EQ :: u8 where "OP_EQ = 4"
definition OP_NE :: u8 where "OP_NE = 5"

definition SPEC_SIGNED :: u16 where "SPEC_SIGNED = 0x10"
definition SPEC_ABS :: u16 where "SPEC_ABS = 0x20"
definition SPEC_RHS_REG :: u16 where "SPEC_RHS_REG = 0x40"

record cmp_rule =
  cmp_addr :: u16
  cmp_spec :: u16
  cmp_val :: u32

record allowed_rule =
  alw_addr :: u16
  alw_allowed :: bytes

definition rule_spec :: "u8 \<Rightarrow> bool \<Rightarrow> bool \<Rightarrow> u8 \<Rightarrow> u16" where
  "rule_spec width sgnd ab op =
     ucast width OR (if sgnd then SPEC_SIGNED else 0) OR (if ab then SPEC_ABS else 0) OR push_bit 8 (ucast op)"

datatype rhs = RhsImm int | RhsReg u16

definition check_allowed :: "view \<Rightarrow> u16 \<Rightarrow> bytes \<Rightarrow> ct_error + unit" where
  "check_allowed v addr allowed =
     (case read_fixed v addr 1 of
        Inl e \<Rightarrow> Inl e
      | Inr b \<Rightarrow> if b ! 0 \<in> set allowed then Inr () else Inl (ValidationError VkEnum))"

definition widen :: "view \<Rightarrow> u16 \<Rightarrow> u8 \<Rightarrow> bool \<Rightarrow> ct_error + int" where
  "widen v addr width sgnd =
     (case read_fixed v addr (unat width) of
        Inl e \<Rightarrow> Inl e
      | Inr b \<Rightarrow>
          Inr (if width = 1 \<and> \<not> sgnd then uint (b ! 0)
               else if width = 1 \<and> sgnd then sint (b ! 0)
               else if width = 2 \<and> \<not> sgnd then uint (le16 (b ! 0) (b ! 1))
               else if width = 2 \<and> sgnd then sint (le16 (b ! 0) (b ! 1))
               else sint (le32 (b ! 0) (b ! 1) (b ! 2) (b ! 3))))"

definition saturating_abs :: "int \<Rightarrow> int" where
  "saturating_abs a = (if a = - (2 ^ 31) then 2 ^ 31 - 1 else \<bar>a\<bar>)"

definition check_cmp :: "view \<Rightarrow> u16 \<Rightarrow> u16 \<Rightarrow> rhs \<Rightarrow> ct_error + unit" where
  "check_cmp v addr spec rhs =
     (let width = ucast (spec AND 0xF) :: u8; sgnd = (spec AND SPEC_SIGNED \<noteq> 0)
      in case widen v addr width sgnd of
           Inl e \<Rightarrow> Inl e
         | Inr a \<Rightarrow>
             (case (case rhs of RhsImm i \<Rightarrow> Inr i | RhsReg reg \<Rightarrow> widen v reg width sgnd) of
                Inl e \<Rightarrow> Inl e
              | Inr r \<Rightarrow>
                  (let sat_max = (if width = 1 then 127 else if width = 2 then 32767 else 2147483647);
                       (a, r) = (if spec AND SPEC_ABS \<noteq> 0
                                 then (min (saturating_abs a) sat_max, min (saturating_abs r) sat_max)
                                 else (a, r));
                       op = ucast (drop_bit 8 spec) :: u8;
                       ok = (if op = OP_LT then a < r else if op = OP_LE then a \<le> r
                             else if op = OP_GT then a > r else if op = OP_GE then a \<ge> r
                             else if op = OP_EQ then a = r else a \<noteq> r)
                   in if ok then Inr () else Inl (ValidationError VkCompare))))"

subsection \<open>Register map and validation\<close>

record section_meta =
  sm_base :: u16
  sm_size :: u16
  sm_cmp_rules :: "u16 \<times> u16"
  sm_allowed_rules :: "u16 \<times> u16"

record register_map =
  rm_SIZE :: nat
  rm_WRITABLE :: "u32 list"
  rm_SECTIONS :: "section_meta list"
  rm_CMP_RULES :: "cmp_rule list"
  rm_ALLOWED_RULES :: "allowed_rule list"

definition overlaps :: "nat \<Rightarrow> nat \<Rightarrow> nat \<Rightarrow> nat \<Rightarrow> bool" where
  "overlaps a_lo a_len lo hi \<longleftrightarrow> a_lo < hi \<and> a_lo + a_len > lo"

definition mask_word :: "nat \<Rightarrow> nat \<Rightarrow> nat \<Rightarrow> u32" where
  "mask_word lo hi wi =
     (let word_lo = wi * 32; start_bit = lo - word_lo; end_bit = min (hi - word_lo) 32;
          covered = (if end_bit = 32 then NOT 0 else push_bit end_bit 1 - 1)
      in covered AND NOT (push_bit start_bit 1 - 1))"

definition mask_ok :: "register_map \<Rightarrow> nat \<Rightarrow> nat \<Rightarrow> nat \<Rightarrow> bool" where
  "mask_ok m lo hi wi =
     (let mask = mask_word lo hi wi;
          w = (case nth_opt (rm_WRITABLE m) wi of Some w \<Rightarrow> w | None \<Rightarrow> 0)
      in w AND mask = mask)"

fun scan_allowed :: "view \<Rightarrow> nat \<Rightarrow> nat \<Rightarrow> allowed_rule list \<Rightarrow> ct_error + unit" where
  "scan_allowed v lo hi [] = Inr ()"
| "scan_allowed v lo hi (r # rs) =
     (if unat (alw_addr r) \<ge> hi then Inr ()
      else if overlaps (unat (alw_addr r)) 1 lo hi then
        (case check_allowed v (alw_addr r) (alw_allowed r) of
           Inl e \<Rightarrow> Inl e | Inr _ \<Rightarrow> scan_allowed v lo hi rs)
      else scan_allowed v lo hi rs)"

definition rule_rhs :: "cmp_rule \<Rightarrow> rhs" where
  "rule_rhs r =
     (if cmp_spec r AND SPEC_RHS_REG \<noteq> 0 then RhsReg (ucast (cmp_val r)) else RhsImm (sint (cmp_val r)))"

definition rule_width :: "cmp_rule \<Rightarrow> nat" where
  "rule_width r = unat (cmp_spec r AND 0xF)"

fun scan_cmp :: "view \<Rightarrow> nat \<Rightarrow> nat \<Rightarrow> cmp_rule list \<Rightarrow> ct_error + unit" where
  "scan_cmp v lo hi [] = Inr ()"
| "scan_cmp v lo hi (r # rs) =
     (if unat (cmp_addr r) \<ge> hi then Inr ()
      else if overlaps (unat (cmp_addr r)) (rule_width r) lo hi then
        (case check_cmp v (cmp_addr r) (cmp_spec r) (rule_rhs r) of
           Inl e \<Rightarrow> Inl e | Inr _ \<Rightarrow> scan_cmp v lo hi rs)
      else scan_cmp v lo hi rs)"

definition stripe :: "'a list \<Rightarrow> u16 \<times> u16 \<Rightarrow> 'a list option" where
  "stripe rs r = slice_opt rs (unat (fst r)) (unat (snd r))"

fun scan_sections :: "register_map \<Rightarrow> view \<Rightarrow> nat \<Rightarrow> nat \<Rightarrow> section_meta list \<Rightarrow> ct_error + unit" where
  "scan_sections m v lo hi [] = Inr ()"
| "scan_sections m v lo hi (sec # secs) =
     (if \<not> overlaps (unat (sm_base sec)) (unat (sm_size sec)) lo hi then scan_sections m v lo hi secs
      else case (case stripe (rm_ALLOWED_RULES m) (sm_allowed_rules sec) of
                   Some rs \<Rightarrow> scan_allowed v lo hi rs | None \<Rightarrow> Inr ()) of
             Inl e \<Rightarrow> Inl e
           | Inr _ \<Rightarrow>
               (case (case stripe (rm_CMP_RULES m) (sm_cmp_rules sec) of
                        Some rs \<Rightarrow> scan_cmp v lo hi rs | None \<Rightarrow> Inr ()) of
                  Inl e \<Rightarrow> Inl e
                | Inr _ \<Rightarrow> scan_sections m v lo hi secs))"

definition validate :: "register_map \<Rightarrow> bytes \<Rightarrow> u16 \<Rightarrow> bytes \<Rightarrow> bytes \<Rightarrow> ct_error + unit" where
  "validate m mem addr o1 o2 =
     (let total = length o1 + length o2
      in if total = 0 then Inr ()
         else let lo = unat addr; hi = lo + total
              in if hi > rm_SIZE m then Inl OutOfRange
                 else let first = lo div 32; last = (hi - 1) div 32
                      in if \<not> list_all (mask_ok m lo hi) [first..<last + 1] then Inl AccessError
                         else scan_sections m (view_new_split mem (rm_SIZE m) addr o1 o2) lo hi (rm_SECTIONS m))"

subsection \<open>Register file\<close>

fun apply_writes :: "nat \<Rightarrow> bytes \<Rightarrow> (u16 \<times> bytes) list \<Rightarrow> bytes" where
  "apply_writes sz mem [] = mem"
| "apply_writes sz mem ((addr, data) # ws) =
     (let stop = unat addr + length data
      in if stop > sz then apply_writes sz mem ws
         else apply_writes sz (put (unat addr) data mem) ws)"

definition apply_from :: "register_map \<Rightarrow> bytes \<Rightarrow> staged_writes \<Rightarrow> snapshot \<Rightarrow> bytes" where
  "apply_from m mem staged snap = apply_writes (rm_SIZE m) mem (iter_from staged snap)"

definition rf_read :: "register_map \<Rightarrow> bytes \<Rightarrow> u16 \<Rightarrow> u16 \<Rightarrow> ct_error + bytes" where
  "rf_read m mem addr len =
     (let hi = unat addr + unat len
      in if hi > rm_SIZE m then Inl OutOfRange
         else if len = 0 then Inr [] else Inr (take (unat len) (drop (unat addr) mem)))"

definition rf_write_split :: "register_map \<Rightarrow> bytes \<Rightarrow> u16 \<Rightarrow> bytes \<Rightarrow> bytes \<Rightarrow> bytes \<times> (ct_error + unit)" where
  "rf_write_split m mem addr h t =
     (case validate m mem addr h t of
        Inl e \<Rightarrow> (mem, Inl e)
      | Inr _ \<Rightarrow> (put (unat addr + length h) t (put (unat addr) h mem), Inr ()))"

definition rf_write :: "register_map \<Rightarrow> bytes \<Rightarrow> u16 \<Rightarrow> bytes \<Rightarrow> bytes \<times> (ct_error + unit)" where
  "rf_write m mem addr src = rf_write_split m mem addr src []"

definition rf_stage_split ::
    "vec_ops \<Rightarrow> register_map \<Rightarrow> bytes \<Rightarrow> u16 \<Rightarrow> bytes \<Rightarrow> bytes \<Rightarrow> staged_writes \<Rightarrow> staged_writes \<times> (ct_error + unit)" where
  "rf_stage_split V m mem addr h t staged =
     (case validate m mem addr h t of
        Inl e \<Rightarrow> (staged, Inl e)
      | Inr _ \<Rightarrow> push_split V staged addr h t)"

definition rf_stage ::
    "vec_ops \<Rightarrow> register_map \<Rightarrow> bytes \<Rightarrow> u16 \<Rightarrow> bytes \<Rightarrow> staged_writes \<Rightarrow> staged_writes \<times> (ct_error + unit)" where
  "rf_stage V m mem addr src staged = rf_stage_split V m mem addr src [] staged"

definition rf_commit_staged :: "register_map \<Rightarrow> bytes \<Rightarrow> staged_writes \<Rightarrow> bytes \<times> staged_writes" where
  "rf_commit_staged m mem staged = (apply_from m mem staged snapshot_ZERO, staged_clear staged)"

definition rf_commit_from ::
    "register_map \<Rightarrow> bytes \<Rightarrow> staged_writes \<Rightarrow> snapshot \<Rightarrow> bytes \<times> staged_writes" where
  "rf_commit_from m mem staged snap = (apply_from m mem staged snap, revert_to staged snap)"

subsection \<open>The view reads live storage under the overlay\<close>

definition overlay_byte :: "view \<Rightarrow> nat \<Rightarrow> u8" where
  "overlay_byte v a =
     (let ov = vw_o1 v @ vw_o2 v; o_lo = unat (vw_overlay_addr v)
      in if o_lo \<le> a \<and> a < o_lo + length ov then ov ! (a - o_lo) else vw_base v ! a)"

lemma upt_4: "[0..<4] = [0, 1, 2, 3]"
  by (simp add: upt_rec numeral_eq_Suc)

lemma load_le4_alt: "load_le4 m p len = map (\<lambda>i. if i < len then m ! (p + i) else 0) [0..<4]"
  by (auto simp: load_le4_def upt_4)

lemma read_mixed_alt:
  "read_mixed v lo len (unat (vw_overlay_addr v)) (unat (vw_overlay_addr v) + length (vw_o1 v))
     (unat (vw_overlay_addr v) + length (vw_o1 v) + length (vw_o2 v)) =
   map (\<lambda>i. if i < len then overlay_byte v (lo + i) else 0) [0..<4]"
  unfolding read_mixed_def
  by (rule map_cong [OF refl])
    (auto simp: overlay_byte_def Let_def opt_byte_def nth_opt_def nth_append diff_diff_left)

lemma read_fixed_overlay:
  "read_fixed v addr len =
    (if unat addr + len > vw_size v then Inl OutOfRange
     else Inr (map (\<lambda>i. if i < len then overlay_byte v (unat addr + i) else 0) [0..<4]))"
proof -
  let ?o = "unat (vw_overlay_addr v)" and ?lo = "unat addr"
  have base: "load_le4 (vw_base v) ?lo len = map (\<lambda>i. if i < len then overlay_byte v (?lo + i) else 0) [0..<4]"
    if "?lo + len \<le> ?o \<or> ?o + length (vw_o1 v) + length (vw_o2 v) \<le> ?lo"
    unfolding load_le4_alt
    by (rule map_cong [OF refl]) (use that in \<open>auto simp: overlay_byte_def Let_def\<close>)
  have inner: "load_le4 (vw_o1 v) (?lo - ?o) len = map (\<lambda>i. if i < len then overlay_byte v (?lo + i) else 0) [0..<4]"
    if "?o \<le> ?lo" "?lo + len \<le> ?o + length (vw_o1 v)"
    unfolding load_le4_alt
    by (rule map_cong [OF refl]) (use that in \<open>auto simp: overlay_byte_def Let_def nth_append\<close>)
  show ?thesis
    by (auto simp: read_fixed_def Let_def base inner read_mixed_alt)
qed

lemma read_fixed_cong:
  assumes "vw_base v = vw_base w" "vw_size v = vw_size w" "vw_overlay_addr v = vw_overlay_addr w"
    "vw_o1 v @ vw_o2 v = vw_o1 w @ vw_o2 w"
  shows "read_fixed v addr len = read_fixed w addr len"
proof -
  have "overlay_byte v = overlay_byte w"
    by (intro ext) (simp only: overlay_byte_def assms(1,3,4))
  with assms show ?thesis by (simp add: read_fixed_overlay)
qed

subsection \<open>The writable mask\<close>

definition writable :: "register_map \<Rightarrow> nat \<Rightarrow> bool" where
  "writable m a \<longleftrightarrow> a div 32 < length (rm_WRITABLE m) \<and> bit (rm_WRITABLE m ! (a div 32)) (a mod 32)"

lemma exp_minus_1_mask: "2 ^ k - 1 = (mask k :: u32)"
  by (simp add: mask_eq_exp_minus_1)

lemma and_eq_right_iff: "x AND y = y \<longleftrightarrow> (\<forall>n. bit y n \<longrightarrow> bit x n)" for x y :: u32
  using bit_imp_le_length [of y] by (auto simp: bit_eq_iff bit_and_iff)

lemma bit_mask_word:
  assumes "lo < hi" "wi * 32 < hi" "lo < (wi + 1) * 32"
  shows "bit (mask_word lo hi wi) n \<longleftrightarrow> n < 32 \<and> lo \<le> wi * 32 + n \<and> wi * 32 + n < hi"
proof -
  have "lo - wi * 32 < 32" using assms(3) by simp
  then show ?thesis
    using assms(2)
    by (auto simp: mask_word_def Let_def exp_minus_1_mask bit_simps min_def not_le)
qed

lemma mask_ok_iff:
  assumes "lo < hi" "wi * 32 < hi" "lo < (wi + 1) * 32"
  shows "mask_ok m lo hi wi \<longleftrightarrow> (\<forall>a. lo \<le> a \<and> a < hi \<and> a div 32 = wi \<longrightarrow> writable m a)"
proof -
  let ?w = "case nth_opt (rm_WRITABLE m) wi of Some w \<Rightarrow> w | None \<Rightarrow> 0"
  have w: "bit ?w n \<longleftrightarrow> wi < length (rm_WRITABLE m) \<and> bit (rm_WRITABLE m ! wi) n" for n
    by (simp add: nth_opt_def)
  have "mask_ok m lo hi wi \<longleftrightarrow> (\<forall>n. bit (mask_word lo hi wi) n \<longrightarrow> bit ?w n)"
    unfolding mask_ok_def Let_def by (rule and_eq_right_iff)
  also have "\<dots> \<longleftrightarrow> (\<forall>n<32. lo \<le> wi * 32 + n \<and> wi * 32 + n < hi \<longrightarrow> writable m (wi * 32 + n))"
    by (auto simp: bit_mask_word [OF assms] w writable_def)
  also have "\<dots> \<longleftrightarrow> (\<forall>a. lo \<le> a \<and> a < hi \<and> a div 32 = wi \<longrightarrow> writable m a)"
  proof safe
    fix a assume all: "\<forall>n<32. lo \<le> a div 32 * 32 + n \<and> a div 32 * 32 + n < hi \<longrightarrow> writable m (a div 32 * 32 + n)"
      and "lo \<le> a" "a < hi" "wi = a div 32"
    then show "writable m a" using all [rule_format, of "a mod 32"] by simp
  qed auto
  finally show ?thesis .
qed

lemma mask_words_iff:
  assumes "lo < hi"
  shows "list_all (mask_ok m lo hi) [lo div 32..<(hi - 1) div 32 + 1] \<longleftrightarrow> (\<forall>a. lo \<le> a \<and> a < hi \<longrightarrow> writable m a)"
proof -
  have range: "wi * 32 < hi" "lo < (wi + 1) * 32" if "lo div 32 \<le> wi" "wi \<le> (hi - 1) div 32" for wi
  proof -
    have "wi * 32 \<le> hi - 1" using that(2) by (simp add: less_eq_div_iff_mult_less_eq)
    then show "wi * 32 < hi" using assms by simp
    have "lo div 32 < wi + 1" using that(1) by simp
    then show "lo < (wi + 1) * 32" by (simp add: div_less_iff_less_mult)
  qed
  have "list_all (mask_ok m lo hi) [lo div 32..<(hi - 1) div 32 + 1] \<longleftrightarrow>
      (\<forall>wi. lo div 32 \<le> wi \<and> wi \<le> (hi - 1) div 32 \<longrightarrow> mask_ok m lo hi wi)"
    by (auto simp: list_all_iff)
  also have "\<dots> \<longleftrightarrow> (\<forall>wi. lo div 32 \<le> wi \<and> wi \<le> (hi - 1) div 32 \<longrightarrow>
      (\<forall>a. lo \<le> a \<and> a < hi \<and> a div 32 = wi \<longrightarrow> writable m a))"
    using mask_ok_iff [OF assms range] by blast
  also have "\<dots> \<longleftrightarrow> (\<forall>a. lo \<le> a \<and> a < hi \<longrightarrow> writable m a)"
    by (auto intro: div_le_mono)
  finally show ?thesis .
qed

subsection \<open>What validation accepts\<close>

lemma scan_cong:
  assumes "\<And>a l. read_fixed v a l = read_fixed w a l"
  shows "scan_sections m v lo hi secs = scan_sections m w lo hi secs"
proof -
  have wd: "widen v = widen w" using assms by (intro ext) (simp add: widen_def)
  have al: "check_allowed v a x = check_allowed w a x" for a x using assms by (simp add: check_allowed_def)
  have cm: "check_cmp v a sp r = check_cmp w a sp r" for a sp r by (simp only: check_cmp_def wd)
  have "scan_allowed v lo hi rs = scan_allowed w lo hi rs" for rs
    by (induction rs) (simp_all add: al split: sum.split)
  moreover have "scan_cmp v lo hi rs = scan_cmp w lo hi rs" for rs
    by (induction rs) (simp_all add: cm split: sum.split)
  ultimately show ?thesis by (induction secs) (simp_all split: sum.split option.split)
qed

text \<open>The seam that splits a write is invisible to validation.\<close>

lemma validate_seam: "validate m mem addr o1 o2 = validate m mem addr (o1 @ o2) []"
proof -
  let ?v = "view_new_split mem (rm_SIZE m) addr o1 o2" and ?w = "view_new_split mem (rm_SIZE m) addr (o1 @ o2) []"
  have "read_fixed ?v a l = read_fixed ?w a l" for a l
    by (rule read_fixed_cong) (simp_all add: view_new_split_def)
  from scan_cong [OF this] show ?thesis by (simp add: validate_def Let_def)
qed

lemma scan_allowed_iff:
  assumes "sorted (map (\<lambda>r. unat (alw_addr r)) rs)"
  shows "scan_allowed v lo hi rs = Inr () \<longleftrightarrow>
    (\<forall>r\<in>set rs. overlaps (unat (alw_addr r)) 1 lo hi \<longrightarrow> check_allowed v (alw_addr r) (alw_allowed r) = Inr ())"
  using assms by (induction rs) (auto simp: overlaps_def split: sum.split)

lemma scan_cmp_iff:
  assumes "sorted (map (\<lambda>r. unat (cmp_addr r)) rs)"
  shows "scan_cmp v lo hi rs = Inr () \<longleftrightarrow>
    (\<forall>r\<in>set rs. overlaps (unat (cmp_addr r)) (rule_width r) lo hi \<longrightarrow>
       check_cmp v (cmp_addr r) (cmp_spec r) (rule_rhs r) = Inr ())"
  using assms by (induction rs) (auto simp: overlaps_def split: sum.split)

text \<open>The map is laid out as the derive emits it: each section's rule stripes are in address order.\<close>

definition map_sorted :: "register_map \<Rightarrow> bool" where
  "map_sorted m \<longleftrightarrow> (\<forall>sec\<in>set (rm_SECTIONS m).
     (\<forall>rs. stripe (rm_ALLOWED_RULES m) (sm_allowed_rules sec) = Some rs \<longrightarrow> sorted (map (\<lambda>r. unat (alw_addr r)) rs)) \<and>
     (\<forall>rs. stripe (rm_CMP_RULES m) (sm_cmp_rules sec) = Some rs \<longrightarrow> sorted (map (\<lambda>r. unat (cmp_addr r)) rs)))"

definition section_rules_hold :: "register_map \<Rightarrow> view \<Rightarrow> nat \<Rightarrow> nat \<Rightarrow> section_meta \<Rightarrow> bool" where
  "section_rules_hold m v lo hi sec \<longleftrightarrow>
     (\<forall>rs. stripe (rm_ALLOWED_RULES m) (sm_allowed_rules sec) = Some rs \<longrightarrow>
        (\<forall>r\<in>set rs. overlaps (unat (alw_addr r)) 1 lo hi \<longrightarrow> check_allowed v (alw_addr r) (alw_allowed r) = Inr ())) \<and>
     (\<forall>rs. stripe (rm_CMP_RULES m) (sm_cmp_rules sec) = Some rs \<longrightarrow>
        (\<forall>r\<in>set rs. overlaps (unat (cmp_addr r)) (rule_width r) lo hi \<longrightarrow>
           check_cmp v (cmp_addr r) (cmp_spec r) (rule_rhs r) = Inr ()))"

lemma scan_sections_iff:
  assumes "map_sorted m" "set secs \<subseteq> set (rm_SECTIONS m)"
  shows "scan_sections m v lo hi secs = Inr () \<longleftrightarrow>
    (\<forall>sec\<in>set secs. overlaps (unat (sm_base sec)) (unat (sm_size sec)) lo hi \<longrightarrow> section_rules_hold m v lo hi sec)"
  using assms(2)
proof (induction secs)
  case (Cons sec secs)
  let ?a = "case stripe (rm_ALLOWED_RULES m) (sm_allowed_rules sec) of Some rs \<Rightarrow> scan_allowed v lo hi rs | None \<Rightarrow> Inr ()"
  let ?c = "case stripe (rm_CMP_RULES m) (sm_cmp_rules sec) of Some rs \<Rightarrow> scan_cmp v lo hi rs | None \<Rightarrow> Inr ()"
  have "(?a = Inr () \<and> ?c = Inr ()) \<longleftrightarrow> section_rules_hold m v lo hi sec"
    using assms(1) Cons.prems
    by (auto simp: section_rules_hold_def map_sorted_def scan_allowed_iff scan_cmp_iff split: option.split)
  moreover have "scan_sections m v lo hi (sec # secs) = Inr () \<longleftrightarrow>
      (overlaps (unat (sm_base sec)) (unat (sm_size sec)) lo hi \<longrightarrow> ?a = Inr () \<and> ?c = Inr ()) \<and>
      scan_sections m v lo hi secs = Inr ()"
    by (auto split: sum.split)
  ultimately show ?case using Cons by auto
qed simp

lemma validate_contiguous_iff:
  assumes "map_sorted m" "d \<noteq> []"
  shows "validate m mem addr d [] = Inr () \<longleftrightarrow>
    unat addr + length d \<le> rm_SIZE m \<and>
    (\<forall>a. unat addr \<le> a \<and> a < unat addr + length d \<longrightarrow> writable m a) \<and>
    (\<forall>sec\<in>set (rm_SECTIONS m).
       overlaps (unat (sm_base sec)) (unat (sm_size sec)) (unat addr) (unat addr + length d) \<longrightarrow>
       section_rules_hold m (view_new mem (rm_SIZE m) addr d) (unat addr) (unat addr + length d) sec)"
proof -
  let ?lo = "unat addr" and ?hi = "unat addr + length d" and ?v = "view_new mem (rm_SIZE m) addr d"
  have lt: "?lo < ?hi" using assms(2) by simp
  have "validate m mem addr d [] =
      (if ?hi > rm_SIZE m then Inl OutOfRange
       else if \<not> list_all (mask_ok m ?lo ?hi) [?lo div 32..<(?hi - 1) div 32 + 1] then Inl AccessError
       else scan_sections m ?v ?lo ?hi (rm_SECTIONS m))"
    using assms(2) by (simp add: validate_def Let_def view_new_def)
  also have "\<dots> = Inr () \<longleftrightarrow> ?hi \<le> rm_SIZE m \<and>
      list_all (mask_ok m ?lo ?hi) [?lo div 32..<(?hi - 1) div 32 + 1] \<and>
      scan_sections m ?v ?lo ?hi (rm_SECTIONS m) = Inr ()"
    by (simp only: not_le [symmetric] split: if_split) blast
  finally show ?thesis
    by (simp only: mask_words_iff [OF lt] scan_sections_iff [OF assms(1) subset_refl])
qed

text \<open>C7. What the register file accepts. A non-empty write, split by the ring seam or not, is
  accepted exactly when it stays inside the table, every byte it covers is marked writable (the
  word-at-a-time mask walk misses none and tests no other), and every enum and compare rule of every
  section it touches holds on live storage with the write laid over it; the early exit of the rule
  scans loses nothing on an address-ordered table.\<close>

theorem validate_accepts_iff:
  assumes "map_sorted m" "o1 @ o2 \<noteq> []"
  shows "validate m mem addr o1 o2 = Inr () \<longleftrightarrow>
    unat addr + length (o1 @ o2) \<le> rm_SIZE m \<and>
    (\<forall>a. unat addr \<le> a \<and> a < unat addr + length (o1 @ o2) \<longrightarrow> writable m a) \<and>
    (\<forall>sec\<in>set (rm_SECTIONS m).
       overlaps (unat (sm_base sec)) (unat (sm_size sec)) (unat addr) (unat addr + length (o1 @ o2)) \<longrightarrow>
       section_rules_hold m (view_new mem (rm_SIZE m) addr (o1 @ o2)) (unat addr) (unat addr + length (o1 @ o2)) sec)"
  unfolding validate_seam [of m mem addr o1] by (rule validate_contiguous_iff [OF assms])

definition demo_map :: register_map where
  "demo_map = \<lparr> rm_SIZE = 4, rm_WRITABLE = [0xC],
     rm_SECTIONS = [\<lparr> sm_base = 0, sm_size = 4, sm_cmp_rules = (0, 0), sm_allowed_rules = (0, 1) \<rparr>],
     rm_CMP_RULES = [], rm_ALLOWED_RULES = [\<lparr> alw_addr = 2, alw_allowed = [0, 1] \<rparr>] \<rparr>"

lemma demo_map_sorted: "map_sorted demo_map"
  by (simp add: map_sorted_def demo_map_def stripe_def slice_opt_def)

theorem validate_accepts_iff_witness:
  "validate demo_map [0, 0, 0, 0] 2 [1] [7] = Inr () \<and> validate demo_map [0, 0, 0, 0] 1 [1] [] \<noteq> Inr ()"
proof
  have "writable demo_map a" if "2 \<le> a" "a < 4" for a
  proof -
    have "a = 2 \<or> a = 3" using that by auto
    then show ?thesis by (auto simp: writable_def demo_map_def bit_simps)
  qed
  then show "validate demo_map [0, 0, 0, 0] 2 [1] [7] = Inr ()"
    using validate_accepts_iff [OF demo_map_sorted, of "[1]" "[7]" "[0, 0, 0, 0]" 2]
    by (simp add: section_rules_hold_def) (simp add: demo_map_def stripe_def slice_opt_def check_allowed_def
        view_new_def view_new_split_def read_fixed_overlay overlay_byte_def upt_4)
  have "\<not> writable demo_map 1" by (simp add: writable_def demo_map_def bit_simps)
  then show "validate demo_map [0, 0, 0, 0] 1 [1] [] \<noteq> Inr ()"
    using validate_accepts_iff [OF demo_map_sorted, of "[1]" "[]" "[0, 0, 0, 0]" 1] by auto
qed

subsection \<open>Commit\<close>

lemma length_apply_writes [simp]: "length mem = n \<Longrightarrow> length (apply_writes n mem ws) = n"
  by (induction n mem ws rule: apply_writes.induct) (simp_all add: Let_def)

lemma apply_writes_append: "apply_writes n mem (xs @ ys) = apply_writes n (apply_writes n mem xs) ys"
  by (induction n mem xs rule: apply_writes.induct) (simp_all add: Let_def)

definition covers :: "nat \<Rightarrow> nat \<Rightarrow> u16 \<times> bytes \<Rightarrow> bool" where
  "covers n a w \<longleftrightarrow> unat (fst w) \<le> a \<and> a < unat (fst w) + length (snd w) \<and> unat (fst w) + length (snd w) \<le> n"

lemma nth_put:
  "off + length ys \<le> length xs \<Longrightarrow> a < length xs \<Longrightarrow>
   put off ys xs ! a = (if off \<le> a \<and> a < off + length ys then ys ! (a - off) else xs ! a)"
  by (auto simp: put_def nth_append)

lemma apply_writes_nth:
  "length mem = n \<Longrightarrow> a < n \<Longrightarrow>
   apply_writes n mem ws ! a =
     (case find (covers n a) (rev ws) of Some (addr, d) \<Rightarrow> d ! (a - unat addr) | None \<Rightarrow> mem ! a)"
proof (induction ws rule: rev_induct)
  case (snoc w ws)
  obtain addr d where w: "w = (addr, d)" by (cases w)
  have len: "length (apply_writes n mem ws) = n" using snoc.prems by simp
  show ?case
  proof (cases "unat addr + length d \<le> n")
    case True
    then have "apply_writes n mem (ws @ [w]) = put (unat addr) d (apply_writes n mem ws)"
      by (simp add: apply_writes_append w Let_def)
    with True len snoc show ?thesis by (auto simp: nth_put w covers_def)
  next
    case False
    then have "apply_writes n mem (ws @ [w]) = apply_writes n mem ws"
      by (simp add: apply_writes_append w Let_def)
    with False snoc show ?thesis by (auto simp: w covers_def)
  qed
qed simp

lemma validate_bounds: "validate m mem addr h t = Inr () \<Longrightarrow> h @ t = [] \<or> unat addr + length (h @ t) \<le> rm_SIZE m"
  by (auto simp: validate_def Let_def split: if_splits)

lemma stage_commit_write:
  assumes V: "vec_ok V" and inv: "staged_inv s" and mem: "length mem = rm_SIZE m"
    and st: "rf_stage_split V m mem addr h t s = (s', Inr ())"
  shows "rf_commit_from m mem s' (staged_snapshot s) = (fst (rf_write_split m mem addr h t), s) \<and>
    snd (rf_write_split m mem addr h t) = Inr ()"
proof -
  have val: "validate m mem addr h t = Inr ()" and push: "push_split V s addr h t = (s', Inr ())"
    using st by (auto simp: rf_stage_split_def split: sum.splits)
  have ext: "staged_extends s s'"
    using staged_extends_push [OF V staged_extends_refl [OF inv], of addr h t] push by simp
  have "iter_all s' = iter_all s @ [(addr, h @ t)]" using iter_all_push [OF V inv, of addr h t] push by simp
  with iter_from_snapshot [OF ext] have since: "iter_from s' (staged_snapshot s) = [(addr, h @ t)]" by simp
  have "apply_writes (rm_SIZE m) mem [(addr, h @ t)] = put (unat addr + length h) t (put (unat addr) h mem)"
    using validate_bounds [OF val] mem by (auto simp: Let_def put_append)
  then show ?thesis
    by (simp add: rf_commit_from_def apply_from_def since revert_to_snapshot [OF ext] rf_write_split_def val)
qed

lemma stage_appends:
  assumes "vec_ok V" "staged_inv s" "rf_stage_split V m mem addr h t s = (s', Inr ())"
  shows "iter_all s' = iter_all s @ [(addr, h @ t)]"
  using iter_all_push [OF assms(1,2), of addr h t] assms(3) by (auto simp: rf_stage_split_def split: sum.splits)

text \<open>Staging a write and committing it on its own verdict is the direct write: same memory,
  same outcome, and the staging buffer is back to what it was, with every write that was pending
  before still pending.\<close>

theorem stage_commit_equals_write:
  assumes V: "vec_ok V" and inv: "staged_inv s" and mem: "length mem = rm_SIZE m"
    and st: "rf_stage_split V m mem addr h t s = (s', Inr ())"
  shows "rf_commit_from m mem s' (staged_snapshot s) = (fst (rf_write_split m mem addr h t), s) \<and>
    snd (rf_write_split m mem addr h t) = Inr ()"
  using assms by (rule stage_commit_write)

theorem stage_commit_equals_write_witness:
  "rf_commit_from demo_map [0, 0, 0, 0]
     (fst (rf_stage_split vec_std demo_map [0, 0, 0, 0] 2 [1] [7] staged_new)) (staged_snapshot staged_new) =
   ([0, 0, 1, 7], staged_new)"
proof -
  have val: "validate demo_map [0, 0, 0, 0] 2 [1] [7] = Inr ()"
    by (simp add: validate_def Let_def demo_map_def mask_ok_def mask_word_def stripe_def slice_opt_def overlaps_def
        check_allowed_def view_new_split_def read_fixed_overlay overlay_byte_def upt_4)
  then have st: "rf_stage_split vec_std demo_map [0, 0, 0, 0] 2 [1] [7] staged_new =
      (fst (rf_stage_split vec_std demo_map [0, 0, 0, 0] 2 [1] [7] staged_new), Inr ())"
    by (simp add: rf_stage_split_def push_split_law STAGE_DATA_CAP_def STAGE_ENTRY_CAP_def staged_new_def
        staged_inv_def)
  have "length [0, 0, 0, 0 :: u8] = rm_SIZE demo_map" by (simp add: demo_map_def)
  from stage_commit_equals_write [OF vec_std_ok staged_new_inv this st] val show ?thesis
    by (simp add: rf_write_split_def put_def)
qed

text \<open>COMMIT is the ordered application of everything pending: the buffer is emptied and each
  byte of the table afterwards is the byte of the last staged write that covers it, or its old value
  where none does; nothing outside the table is touched.\<close>

theorem commit_staged_last_write_wins:
  assumes "length mem = rm_SIZE m" "a < rm_SIZE m"
  shows "iter_all (snd (rf_commit_staged m mem s)) = [] \<and>
    length (fst (rf_commit_staged m mem s)) = rm_SIZE m \<and>
    fst (rf_commit_staged m mem s) ! a =
      (case find (covers (rm_SIZE m) a) (rev (iter_all s)) of
         Some (addr, d) \<Rightarrow> d ! (a - unat addr) | None \<Rightarrow> mem ! a)"
  using assms staged_clear_wipes [of s]
  by (simp add: rf_commit_staged_def apply_from_def apply_writes_nth flip: iter_all_def)

theorem commit_staged_last_write_wins_witness:
  "fst (rf_commit_staged demo_map [9, 9, 9, 9] \<lparr> sw_data = [1, 2, 3], sw_entries =
     [\<lparr> se_addr = 0, se_len = 2, se_data_off = 0 \<rparr>, \<lparr> se_addr = 1, se_len = 1, se_data_off = 2 \<rparr>] \<rparr>) ! 1 = 3"
  using commit_staged_last_write_wins [of "[9, 9, 9, 9]" demo_map 1 "\<lparr> sw_data = [1, 2, 3], sw_entries =
     [\<lparr> se_addr = 0, se_len = 2, se_data_off = 0 \<rparr>, \<lparr> se_addr = 1, se_len = 1, se_data_off = 2 \<rparr>] \<rparr>"]
  by (simp add: demo_map_def iter_all_alt entry_span_def covers_def)

end
