(* ===== verification/Ct_Derive.thy ===== *)
theory Ct_Derive
  imports Ct_Map
begin

text \<open>
  \<open>control-table-derive/\<close>: the \<open>Block\<close>, \<open>Section\<close> and \<open>Table\<close> derives and the field descriptors of
  \<open>control-table/src/descriptor.rs\<close>. A derive input is the list of its declared fields; expansion
  computes the constants the macro emits, or the error the macro or one of its emitted compile-time
  assertions raises. Byte offsets are those of a \<open>repr(C)\<close> structure. The theorems relate the emitted
  register map to the declarations: which bytes are writable and that rule stripes are in address order.
\<close>

subsection \<open>Field declarations\<close>

type_synonym enum_variants = "(string \<times> u8) list"

datatype field_ty = TU8 | TU16 | TU32 | TI8 | TI16 | TI32 | TBool | TEnum enum_variants | TArray field_ty nat

fun size_of :: "field_ty \<Rightarrow> nat" where
  "size_of TU8 = 1"
| "size_of TU16 = 2"
| "size_of TU32 = 4"
| "size_of TI8 = 1"
| "size_of TI16 = 2"
| "size_of TI32 = 4"
| "size_of TBool = 1"
| "size_of (TEnum vs) = 1"
| "size_of (TArray t n) = size_of t * n"

fun align_of :: "field_ty \<Rightarrow> nat" where
  "align_of (TArray t n) = align_of t"
| "align_of t = size_of t"

datatype access_mode = Ro | Rw

datatype cmp_op = CmpLt | CmpLe | CmpGt | CmpGe | CmpEq | CmpNe

fun const_tokens :: "cmp_op \<Rightarrow> u8" where
  "const_tokens CmpLt = OP_LT"
| "const_tokens CmpLe = OP_LE"
| "const_tokens CmpGt = OP_GT"
| "const_tokens CmpGe = OP_GE"
| "const_tokens CmpEq = OP_EQ"
| "const_tokens CmpNe = OP_NE"

text \<open>The right-hand side of a compare clause: \<open>&path\<close> names a register, anything else is an immediate.\<close>

datatype cmp_expr = ExprReference u16 | ExprValue int

record 'h field_decl =
  fd_name :: string
  fd_ty :: field_ty
  fd_skip :: bool
  fd_access :: access_mode
  fd_compares :: "(cmp_op \<times> cmp_expr) list"
  fd_abs :: bool
  fd_hook :: "'h option"

definition field_default :: "string \<Rightarrow> field_ty \<Rightarrow> 'h field_decl" where
  "field_default name ty = \<lparr> fd_name = name, fd_ty = ty, fd_skip = False, fd_access = Rw,
     fd_compares = [], fd_abs = False, fd_hook = None \<rparr>"

subsection \<open>Structure layout\<close>

definition align_up :: "nat \<Rightarrow> nat \<Rightarrow> nat" where
  "align_up off a = (off + a - 1) div a * a"

fun repr_c_offsets :: "nat \<Rightarrow> (nat \<times> nat) list \<Rightarrow> nat list \<times> nat" where
  "repr_c_offsets off [] = ([], off)"
| "repr_c_offsets off ((sz, al) # fs) =
     (let at = align_up off al; r = repr_c_offsets (at + sz) fs in (at # fst r, snd r))"

definition struct_align :: "(nat \<times> nat) list \<Rightarrow> nat" where
  "struct_align fs = foldr (\<lambda>f m. max (snd f) m) fs 1"

definition struct_size :: "(nat \<times> nat) list \<Rightarrow> nat" where
  "struct_size fs = align_up (snd (repr_c_offsets 0 fs)) (struct_align fs)"

definition struct_offsets :: "(nat \<times> nat) list \<Rightarrow> nat list" where
  "struct_offsets fs = fst (repr_c_offsets 0 fs)"

text \<open>The emitted assertion that the declared fields leave no padding.\<close>

definition no_padding :: "(nat \<times> nat) list \<Rightarrow> bool" where
  "no_padding fs \<longleftrightarrow> sum_list (map fst fs) = struct_size fs"

subsection \<open>Descriptors\<close>

datatype field_kind = KUInt | KInt | KBool | KEnum enum_variants | KBytes

record field_desc =
  de_name :: string
  de_addr :: u16
  de_width :: u16
  de_writable :: bool
  de_kind :: field_kind
  de_min :: "int option"
  de_max :: "int option"

fun field_kind_of :: "field_ty \<Rightarrow> field_kind" where
  "field_kind_of (TArray t n) = KBytes"
| "field_kind_of TBool = KBool"
| "field_kind_of TU8 = KUInt"
| "field_kind_of TU16 = KUInt"
| "field_kind_of TU32 = KUInt"
| "field_kind_of TI8 = KInt"
| "field_kind_of TI16 = KInt"
| "field_kind_of TI32 = KInt"
| "field_kind_of (TEnum vs) = KEnum vs"

datatype derive_error =
    DeadCompare string
  | CompareType string
  | TwoBounds string
  | Padding
  | SizeMismatch
  | BaseMismatch
  | PastTableEnd
  | SectionsOverlap

text \<open>One clause of the scalar bounds: only immediates count, strict bounds fold to inclusive ones,
  and a second bound on the same side is an error.\<close>

definition bound_slot :: "'a option \<Rightarrow> 'a \<Rightarrow> 'a option option" where
  "bound_slot s v = (case s of None \<Rightarrow> Some (Some v) | Some _ \<Rightarrow> None)"

fun bounds_go :: "(cmp_op \<times> cmp_expr) list \<Rightarrow> int option \<Rightarrow> int option \<Rightarrow> (int option \<times> int option) option" where
  "bounds_go [] mn mx = Some (mn, mx)"
| "bounds_go ((_, ExprReference _) # cs) mn mx = bounds_go cs mn mx"
| "bounds_go ((CmpGe, ExprValue v) # cs) mn mx = Option.bind (bound_slot mn v) (\<lambda>mn'. bounds_go cs mn' mx)"
| "bounds_go ((CmpGt, ExprValue v) # cs) mn mx = Option.bind (bound_slot mn (v + 1)) (\<lambda>mn'. bounds_go cs mn' mx)"
| "bounds_go ((CmpLe, ExprValue v) # cs) mn mx = Option.bind (bound_slot mx v) (\<lambda>mx'. bounds_go cs mn mx')"
| "bounds_go ((CmpLt, ExprValue v) # cs) mn mx = Option.bind (bound_slot mx (v - 1)) (\<lambda>mx'. bounds_go cs mn mx')"
| "bounds_go ((CmpEq, ExprValue v) # cs) mn mx = bounds_go cs mn mx"
| "bounds_go ((CmpNe, ExprValue v) # cs) mn mx = bounds_go cs mn mx"

definition field_bounds ::
    "string \<Rightarrow> (cmp_op \<times> cmp_expr) list \<Rightarrow> bool \<Rightarrow> derive_error + (int option \<times> int option)" where
  "field_bounds name compares ab =
     (if ab then Inr (None, None)
      else case bounds_go compares None None of None \<Rightarrow> Inl (TwoBounds name) | Some b \<Rightarrow> Inr b)"

subsection \<open>The block derive\<close>

definition BOOL_ALLOWED :: bytes where "BOOL_ALLOWED = [0, 1]"

definition enum_ALLOWED :: "enum_variants \<Rightarrow> bytes" where "enum_ALLOWED vs = map snd vs"

fun auto_enum_allowed :: "field_ty \<Rightarrow> bytes option" where
  "auto_enum_allowed TBool = Some BOOL_ALLOWED"
| "auto_enum_allowed (TEnum vs) = Some (enum_ALLOWED vs)"
| "auto_enum_allowed _ = None"

fun cmp_width_signed :: "field_ty \<Rightarrow> (u8 \<times> bool) option" where
  "cmp_width_signed TU8 = Some (1, False)"
| "cmp_width_signed TI8 = Some (1, True)"
| "cmp_width_signed TU16 = Some (2, False)"
| "cmp_width_signed TI16 = Some (2, True)"
| "cmp_width_signed TI32 = Some (4, True)"
| "cmp_width_signed _ = None"

fun build_rule_val :: "cmp_expr \<Rightarrow> bool \<times> u32" where
  "build_rule_val (ExprReference a) = (True, ucast a)"
| "build_rule_val (ExprValue v) = (False, word_of_int v)"

definition build_cmp_rule :: "u16 \<Rightarrow> u8 \<Rightarrow> bool \<Rightarrow> bool \<Rightarrow> cmp_op \<times> cmp_expr \<Rightarrow> cmp_rule" where
  "build_cmp_rule rel_addr width sgnd ab c =
     (let (is_reg, val) = build_rule_val (snd c);
          sp = rule_spec width sgnd ab (const_tokens (fst c))
      in \<lparr> cmp_addr = rel_addr, cmp_spec = (if is_reg then sp OR SPEC_RHS_REG else sp), cmp_val = val \<rparr>)"

record 'h block_meta =
  bm_size :: nat
  bm_align :: nat
  CT_WRITABLE :: "(u16 \<times> u16) list"
  CT_CMP_RULES :: "cmp_rule list"
  CT_ALLOWED_RULES :: "allowed_rule list"
  CT_FIELDS :: "field_desc list"
  CT_HOOKS :: "(u16 \<times> nat \<times> 'h) list"

definition block_cmp_rules :: "u16 \<Rightarrow> 'h field_decl \<Rightarrow> derive_error + cmp_rule list" where
  "block_cmp_rules rel_addr f =
     (if fd_skip f \<or> fd_access f = Ro \<or> fd_compares f = [] then Inr []
      else case cmp_width_signed (fd_ty f) of
             None \<Rightarrow> Inl (CompareType (fd_name f))
           | Some (width, sgnd) \<Rightarrow>
               Inr (map (build_cmp_rule rel_addr width sgnd (fd_abs f \<and> sgnd)) (fd_compares f)))"

definition block_allowed_rules :: "u16 \<Rightarrow> 'h field_decl \<Rightarrow> allowed_rule list" where
  "block_allowed_rules rel_addr f =
     (if fd_skip f \<or> fd_access f = Ro then []
      else case auto_enum_allowed (fd_ty f) of
             Some al \<Rightarrow> [\<lparr> alw_addr = rel_addr, alw_allowed = al \<rparr>] | None \<Rightarrow> [])"

definition block_writable :: "u16 \<Rightarrow> 'h field_decl \<Rightarrow> (u16 \<times> u16) list" where
  "block_writable rel_addr f =
     (if fd_skip f \<or> fd_access f = Ro then [] else [(rel_addr, of_nat (size_of (fd_ty f)))])"

definition block_field_descs :: "u16 \<Rightarrow> 'h field_decl \<Rightarrow> derive_error + field_desc list" where
  "block_field_descs rel_addr f =
     (if fd_skip f then Inr []
      else case field_bounds (fd_name f) (fd_compares f) (fd_abs f) of
             Inl e \<Rightarrow> Inl e
           | Inr (mn, mx) \<Rightarrow>
               Inr [\<lparr> de_name = fd_name f, de_addr = rel_addr, de_width = of_nat (size_of (fd_ty f)),
                      de_writable = (fd_access f \<noteq> Ro), de_kind = field_kind_of (fd_ty f),
                      de_min = mn, de_max = mx \<rparr>])"

definition block_hooks :: "u16 \<Rightarrow> 'h field_decl \<Rightarrow> (u16 \<times> nat \<times> 'h) list" where
  "block_hooks rel_addr f = (case fd_hook f of Some h \<Rightarrow> [(rel_addr, size_of (fd_ty f), h)] | None \<Rightarrow> [])"

definition field_meta :: "u16 \<Rightarrow> 'h field_decl \<Rightarrow> derive_error + 'h block_meta" where
  "field_meta rel_addr f =
     (if fd_compares f \<noteq> [] \<and> (fd_skip f \<or> fd_access f = Ro) then Inl (DeadCompare (fd_name f))
      else case block_cmp_rules rel_addr f of
             Inl e \<Rightarrow> Inl e
           | Inr cmps \<Rightarrow>
               (case block_field_descs rel_addr f of
                  Inl e \<Rightarrow> Inl e
                | Inr descs \<Rightarrow>
                    Inr \<lparr> bm_size = 0, bm_align = 1, CT_WRITABLE = block_writable rel_addr f,
                          CT_CMP_RULES = cmps, CT_ALLOWED_RULES = block_allowed_rules rel_addr f,
                          CT_FIELDS = descs, CT_HOOKS = block_hooks rel_addr f \<rparr>))"

definition meta_append :: "'h block_meta \<Rightarrow> 'h block_meta \<Rightarrow> 'h block_meta" where
  "meta_append a b = b\<lparr> CT_WRITABLE := CT_WRITABLE a @ CT_WRITABLE b,
     CT_CMP_RULES := CT_CMP_RULES a @ CT_CMP_RULES b,
     CT_ALLOWED_RULES := CT_ALLOWED_RULES a @ CT_ALLOWED_RULES b,
     CT_FIELDS := CT_FIELDS a @ CT_FIELDS b, CT_HOOKS := CT_HOOKS a @ CT_HOOKS b \<rparr>"

definition meta_empty :: "nat \<Rightarrow> nat \<Rightarrow> 'h block_meta" where
  "meta_empty sz al = \<lparr> bm_size = sz, bm_align = al, CT_WRITABLE = [], CT_CMP_RULES = [],
     CT_ALLOWED_RULES = [], CT_FIELDS = [], CT_HOOKS = [] \<rparr>"

fun expand_fields :: "nat \<Rightarrow> nat \<Rightarrow> (nat \<times> 'h field_decl) list \<Rightarrow> derive_error + 'h block_meta" where
  "expand_fields sz al [] = Inr (meta_empty sz al)"
| "expand_fields sz al ((off, f) # fs) =
     (case field_meta (of_nat off) f of
        Inl e \<Rightarrow> Inl e
      | Inr m \<Rightarrow> (case expand_fields sz al fs of Inl e \<Rightarrow> Inl e | Inr ms \<Rightarrow> Inr (meta_append m ms)))"

definition block_shape :: "'h field_decl list \<Rightarrow> (nat \<times> nat) list" where
  "block_shape fs = map (\<lambda>f. (size_of (fd_ty f), align_of (fd_ty f))) fs"

definition expand_block :: "'h field_decl list \<Rightarrow> derive_error + 'h block_meta" where
  "expand_block fs =
     (let shape = block_shape fs
      in case expand_fields (struct_size shape) (struct_align shape) (zip (struct_offsets shape) fs) of
           Inl e \<Rightarrow> Inl e
         | Inr m \<Rightarrow> if no_padding shape then Inr m else Inl Padding)"

subsection \<open>The section derive\<close>

datatype 'h section_field = SecBlock string "'h field_decl list" | SecSkip string nat

record 'h section_decl =
  sd_base :: u16
  sd_size :: u16
  sd_fields :: "'h section_field list"

text \<open>A skipped field contributes its bytes only.\<close>

fun section_field_meta :: "'h section_field \<Rightarrow> derive_error + 'h block_meta" where
  "section_field_meta (SecBlock _ fs) = expand_block fs"
| "section_field_meta (SecSkip _ n) = Inr (meta_empty n 1)"

fun collect_metas :: "(derive_error + 'm) list \<Rightarrow> derive_error + 'm list" where
  "collect_metas [] = Inr []"
| "collect_metas (Inl e # ms) = Inl e"
| "collect_metas (Inr m # ms) = (case collect_metas ms of Inl e \<Rightarrow> Inl e | Inr r \<Rightarrow> Inr (m # r))"

definition rebase_meta :: "u16 \<Rightarrow> 'h block_meta \<Rightarrow> 'h block_meta" where
  "rebase_meta base m = m\<lparr>
     CT_WRITABLE := map (\<lambda>(a, l). (a + base, l)) (CT_WRITABLE m),
     CT_CMP_RULES := map (\<lambda>r. r\<lparr> cmp_addr := cmp_addr r + base \<rparr>) (CT_CMP_RULES m),
     CT_ALLOWED_RULES := map (\<lambda>r. r\<lparr> alw_addr := alw_addr r + base \<rparr>) (CT_ALLOWED_RULES m),
     CT_FIELDS := map (\<lambda>d. d\<lparr> de_addr := de_addr d + base \<rparr>) (CT_FIELDS m),
     CT_HOOKS := map (\<lambda>(a, n, h). (a + base, n, h)) (CT_HOOKS m) \<rparr>"

definition meta_shape :: "'h block_meta list \<Rightarrow> (nat \<times> nat) list" where
  "meta_shape ms = map (\<lambda>m. (bm_size m, bm_align m)) ms"

definition expand_section :: "'h section_decl \<Rightarrow> derive_error + 'h block_meta" where
  "expand_section sd =
     (case collect_metas (map section_field_meta (sd_fields sd)) of
        Inl e \<Rightarrow> Inl e
      | Inr ms \<Rightarrow>
          (let shape = meta_shape ms;
               parts = map (\<lambda>(off, m). rebase_meta (sd_base sd + of_nat off) m) (zip (struct_offsets shape) ms)
           in if struct_size shape \<noteq> unat (sd_size sd) then Inl SizeMismatch
              else if \<not> no_padding shape then Inl Padding
              else Inr (foldr meta_append parts (meta_empty (struct_size shape) (struct_align shape)))))"

subsection \<open>The table derive\<close>

datatype 'h table_field = TabSection string "'h section_decl" | TabSkip string nat

record 'h table_decl =
  td_size :: nat
  td_fields :: "'h table_field list"

record 'h table_out =
  to_map :: register_map
  to_FIELDS :: "field_desc list"
  to_hooks :: "(u16 \<times> nat \<times> 'h) list"

definition set_bit32 :: "nat \<Rightarrow> u32 list \<Rightarrow> u32 list" where
  "set_bit32 b w = w[b div 32 := (w ! (b div 32)) OR push_bit (b mod 32) 1]"

definition fill_span :: "u16 \<times> u16 \<Rightarrow> u32 list \<Rightarrow> u32 list" where
  "fill_span sp w = foldl (\<lambda>w b. set_bit32 b w) w [unat (fst sp)..<unat (fst sp) + unat (snd sp)]"

definition WRITABLE_WORDS :: "nat \<Rightarrow> (u16 \<times> u16) list \<Rightarrow> u32 list" where
  "WRITABLE_WORDS sz spans = foldl (\<lambda>w sp. fill_span sp w) (replicate ((sz + 31) div 32) 0) spans"

fun section_metas :: "u16 \<Rightarrow> u16 \<Rightarrow> ('h section_decl \<times> 'h block_meta) list \<Rightarrow> section_meta list" where
  "section_metas c0 a0 [] = []"
| "section_metas c0 a0 ((sd, m) # ms) =
     (let c1 = c0 + of_nat (length (CT_CMP_RULES m)); a1 = a0 + of_nat (length (CT_ALLOWED_RULES m))
      in \<lparr> sm_base = sd_base sd, sm_size = sd_size sd, sm_cmp_rules = (c0, c1), sm_allowed_rules = (a0, a1) \<rparr>
         # section_metas c1 a1 ms)"

fun extents_ok :: "nat \<Rightarrow> (nat \<times> nat) list \<Rightarrow> derive_error option" where
  "extents_ok sz [] = None"
| "extents_ok sz ((a, s) # es) =
     (if a + s > sz then Some PastTableEnd
      else if list_all (\<lambda>(a', s'). a \<ge> a' + s' \<or> a' \<ge> a + s) es then extents_ok sz es
      else Some SectionsOverlap)"

fun table_field_meta :: "'h table_field \<Rightarrow> derive_error + ('h section_decl option \<times> 'h block_meta)" where
  "table_field_meta (TabSection _ sd) =
     (case expand_section sd of Inl e \<Rightarrow> Inl e | Inr m \<Rightarrow> Inr (Some sd, m))"
| "table_field_meta (TabSkip _ n) = Inr (None, meta_empty n 1)"

fun table_sections :: "('h section_decl option \<times> 'h block_meta) list \<Rightarrow> ('h section_decl \<times> 'h block_meta) list" where
  "table_sections [] = []"
| "table_sections ((Some sd, m) # ms) = (sd, m) # table_sections ms"
| "table_sections ((None, m) # ms) = table_sections ms"

definition emit_map :: "nat \<Rightarrow> ('h section_decl \<times> 'h block_meta) list \<Rightarrow> register_map" where
  "emit_map sz secs =
     \<lparr> rm_SIZE = sz,
       rm_WRITABLE = WRITABLE_WORDS sz (concat (map (\<lambda>(_, m). CT_WRITABLE m) secs)),
       rm_SECTIONS = section_metas 0 0 secs,
       rm_CMP_RULES = concat (map (\<lambda>(_, m). CT_CMP_RULES m) secs),
       rm_ALLOWED_RULES = concat (map (\<lambda>(_, m). CT_ALLOWED_RULES m) secs) \<rparr>"

definition expand_table :: "'h table_decl \<Rightarrow> derive_error + 'h table_out" where
  "expand_table td =
     (case collect_metas (map table_field_meta (td_fields td)) of
        Inl e \<Rightarrow> Inl e
      | Inr fs \<Rightarrow>
          (let shape = meta_shape (map snd fs); secs = table_sections fs
           in if struct_size shape \<noteq> td_size td then Inl SizeMismatch
              else if \<not> no_padding shape then Inl Padding
              else if \<not> list_all (\<lambda>(off, sd, _). case sd of Some s \<Rightarrow> of_nat off = sd_base s | None \<Rightarrow> True)
                          (zip (struct_offsets shape) fs) then Inl BaseMismatch
              else case extents_ok (td_size td) (map (\<lambda>(s, _). (unat (sd_base s), unat (sd_size s))) secs) of
                     Some e \<Rightarrow> Inl e
                   | None \<Rightarrow>
                       Inr \<lparr> to_map = emit_map (td_size td) secs,
                             to_FIELDS = concat (map (\<lambda>(_, m). CT_FIELDS m) secs),
                             to_hooks = concat (map (\<lambda>(_, m). CT_HOOKS m) secs) \<rparr>))"

subsection \<open>Field-write events\<close>

definition field_touched :: "u16 \<Rightarrow> u16 \<Rightarrow> u16 \<Rightarrow> nat \<Rightarrow> bool" where
  "field_touched abs_addr len f w \<longleftrightarrow>
     (let f_lo = unat f; f_hi = f_lo + w; w_lo = unat abs_addr; w_hi = w_lo + unat len
      in w_lo < f_hi \<and> f_lo < w_hi)"

definition dispatch_hooks ::
    "('h \<Rightarrow> bytes \<Rightarrow> 'e list) \<Rightarrow> (u16 \<times> nat \<times> 'h) list \<Rightarrow> bytes \<Rightarrow> u16 \<Rightarrow> u16 \<Rightarrow> 'e list" where
  "dispatch_hooks run hooks mem abs_addr len =
     concat (map (\<lambda>(a, w, h). if field_touched abs_addr len a w then run h (take w (drop (unat a) mem)) else [])
       hooks)"

subsection \<open>Declared layout\<close>

text \<open>What the declarations say of each byte: the flat list of write permissions, field by field.\<close>

definition field_rw :: "'h field_decl \<Rightarrow> bool" where
  "field_rw f \<longleftrightarrow> \<not> fd_skip f \<and> fd_access f = Rw"

definition block_rw_bytes :: "'h field_decl list \<Rightarrow> bool list" where
  "block_rw_bytes fs = concat (map (\<lambda>f. replicate (size_of (fd_ty f)) (field_rw f)) fs)"

fun section_field_rw :: "'h section_field \<Rightarrow> bool list" where
  "section_field_rw (SecBlock _ fs) = block_rw_bytes fs"
| "section_field_rw (SecSkip _ n) = replicate n False"

fun table_field_rw :: "'h table_field \<Rightarrow> bool list" where
  "table_field_rw (TabSection _ sd) = concat (map section_field_rw (sd_fields sd))"
| "table_field_rw (TabSkip _ n) = replicate n False"

definition table_rw_bytes :: "'h table_decl \<Rightarrow> bool list" where
  "table_rw_bytes td = concat (map table_field_rw (td_fields td))"

definition flagged :: "nat \<Rightarrow> bool list \<Rightarrow> nat \<Rightarrow> bool" where
  "flagged base bs a \<longleftrightarrow> base \<le> a \<and> a - base < length bs \<and> bs ! (a - base)"

lemma flagged_append:
  "flagged base (xs @ ys) a \<longleftrightarrow> flagged base xs a \<or> flagged (base + length xs) ys a"
  by (auto simp: flagged_def nth_append not_less)

lemma flagged_replicate [simp]: "flagged base (replicate n v) a \<longleftrightarrow> v \<and> base \<le> a \<and> a < base + n"
  by (auto simp: flagged_def)

lemma flagged_Nil [simp]: "\<not> flagged base [] a"
  by (simp add: flagged_def)

definition marks :: "(u16 \<times> u16) list \<Rightarrow> nat \<Rightarrow> bool" where
  "marks spans a \<longleftrightarrow> (\<exists>(s, l)\<in>set spans. unat s \<le> a \<and> a < unat s + unat l)"

lemma marks_append [simp]: "marks (xs @ ys) a \<longleftrightarrow> marks xs a \<or> marks ys a"
  by (auto simp: marks_def)

lemma marks_Nil [simp]: "\<not> marks [] a"
  by (simp add: marks_def)

definition addrs_in :: "nat \<Rightarrow> nat \<Rightarrow> nat list \<Rightarrow> bool" where
  "addrs_in lo hi as \<longleftrightarrow> sorted as \<and> (\<forall>a\<in>set as. lo \<le> a \<and> a < hi)"

lemma addrs_in_append:
  "addrs_in lo mid xs \<Longrightarrow> addrs_in mid hi ys \<Longrightarrow> lo \<le> mid \<Longrightarrow> mid \<le> hi \<Longrightarrow> addrs_in lo hi (xs @ ys)"
  by (fastforce simp: addrs_in_def sorted_append)

lemma addrs_in_Nil [simp]: "addrs_in lo hi []"
  by (simp add: addrs_in_def)

definition meta_ok :: "nat \<Rightarrow> bool list \<Rightarrow> 'h block_meta \<Rightarrow> bool" where
  "meta_ok base bs m \<longleftrightarrow> (\<forall>a. marks (CT_WRITABLE m) a \<longleftrightarrow> flagged base bs a) \<and>
     addrs_in base (base + length bs) (map (\<lambda>r. unat (cmp_addr r)) (CT_CMP_RULES m)) \<and>
     addrs_in base (base + length bs) (map (\<lambda>r. unat (alw_addr r)) (CT_ALLOWED_RULES m))"

lemma meta_shape_simps [simp]:
  "bm_size (meta_append a b) = bm_size b" "bm_align (meta_append a b) = bm_align b"
  "bm_size (meta_empty sz al) = sz" "bm_align (meta_empty sz al) = al"
  by (simp_all add: meta_append_def meta_empty_def)

lemma meta_ok_append:
  "meta_ok base xs a \<Longrightarrow> meta_ok (base + length xs) ys b \<Longrightarrow> meta_ok base (xs @ ys) (meta_append a b)"
  unfolding meta_ok_def meta_append_def
  by (auto simp: flagged_append add.assoc intro!: addrs_in_append [where mid = "base + length xs"])

lemma meta_ok_empty [simp]: "meta_ok base (replicate n False) (meta_empty sz al)" "meta_ok base [] (meta_empty sz al)"
  by (simp_all add: meta_ok_def meta_empty_def)

lemma size_pos_cmp: "cmp_width_signed t = Some p \<Longrightarrow> 0 < size_of t"
  by (cases t) auto

lemma size_pos_allowed: "auto_enum_allowed t = Some al \<Longrightarrow> 0 < size_of t"
  by (cases t) auto

lemma addrs_in_const: "(\<And>x. x \<in> set xs \<Longrightarrow> f x = a) \<Longrightarrow> lo \<le> a \<Longrightarrow> a < hi \<Longrightarrow> addrs_in lo hi (map f xs)"
proof -
  assume eq: "\<And>x. x \<in> set xs \<Longrightarrow> f x = a" and "lo \<le> a" "a < hi"
  moreover have "map f xs = map (\<lambda>_. a) xs" using eq by simp
  ultimately show ?thesis by (simp add: addrs_in_def sorted_replicate map_replicate_const)
qed

lemma access_cases: "a \<noteq> Ro \<longleftrightarrow> a = Rw"
  by (cases a) auto

lemma meta_ok_field:
  assumes m: "field_meta (of_nat off) f = Inr m" and lt: "off + size_of (fd_ty f) < 65536"
  shows "meta_ok off (replicate (size_of (fd_ty f)) (field_rw f)) m"
proof -
  have off: "unat (of_nat off :: u16) = off" and sz: "unat (of_nat (size_of (fd_ty f)) :: u16) = size_of (fd_ty f)"
    using lt by (simp_all add: unat_of_nat)
  obtain cmps where cmps: "block_cmp_rules (of_nat off) f = Inr cmps" and
    mm: "CT_WRITABLE m = block_writable (of_nat off) f" "CT_CMP_RULES m = cmps"
      "CT_ALLOWED_RULES m = block_allowed_rules (of_nat off) f"
    using m by (auto simp: field_meta_def split: if_splits sum.splits)
  have w: "marks (CT_WRITABLE m) a \<longleftrightarrow> field_rw f \<and> off \<le> a \<and> a < off + size_of (fd_ty f)" for a
    by (auto simp: mm block_writable_def marks_def field_rw_def off sz access_cases)
  have c: "addrs_in off (off + size_of (fd_ty f)) (map (\<lambda>r. unat (cmp_addr r)) cmps)"
  proof (cases "cmps = []")
    case False
    then have "\<exists>p. cmp_width_signed (fd_ty f) = Some p" and
      eq: "\<And>r. r \<in> set cmps \<Longrightarrow> unat (cmp_addr r) = off"
      using cmps by (auto simp: block_cmp_rules_def build_cmp_rule_def off Let_def split: if_splits option.splits prod.splits)
    then show ?thesis using size_pos_cmp by (auto intro!: addrs_in_const [OF eq])
  qed simp
  have "addrs_in off (off + size_of (fd_ty f)) (map (\<lambda>r. unat (alw_addr r)) (CT_ALLOWED_RULES m))"
    by (auto simp: mm block_allowed_rules_def off addrs_in_def dest: size_pos_allowed split: option.split)
  with w c show ?thesis by (simp add: meta_ok_def mm)
qed

lemma meta_ok_rebase:
  assumes ok: "meta_ok off bs m" and lt: "base + off + length bs < 65536"
  shows "meta_ok (base + off) bs (rebase_meta (of_nat base) m)"
proof -
  have add: "unat (w + of_nat base) = unat w + base" if "unat w < off + length bs" for w :: u16
    using that lt unat_of_nat_add16 [of "unat w" base] by simp
  have span: "unat s < off + length bs" if "(s, l) \<in> set (CT_WRITABLE m)" "0 < unat l" for s l
  proof -
    have "marks (CT_WRITABLE m) (unat s)" using that by (auto simp: marks_def intro!: bexI [of _ "(s, l)"])
    then have "flagged off bs (unat s)" using ok by (simp add: meta_ok_def)
    then show ?thesis by (auto simp: flagged_def)
  qed
  have w: "marks (CT_WRITABLE (rebase_meta (of_nat base) m)) a \<longleftrightarrow> base \<le> a \<and> marks (CT_WRITABLE m) (a - base)" for a
  proof
    assume "marks (CT_WRITABLE (rebase_meta (of_nat base) m)) a"
    then obtain s l where sl: "(s, l) \<in> set (CT_WRITABLE m)" "unat (s + of_nat base) \<le> a"
        "a < unat (s + of_nat base) + unat l"
      by (auto simp: marks_def rebase_meta_def)
    then have "0 < unat l" by simp
    from add [OF span [OF sl(1) this]] sl show "base \<le> a \<and> marks (CT_WRITABLE m) (a - base)"
      by (auto simp: marks_def intro!: bexI [of _ "(s, l)"])
  next
    assume "base \<le> a \<and> marks (CT_WRITABLE m) (a - base)"
    then obtain s l where sl: "(s, l) \<in> set (CT_WRITABLE m)" "unat s \<le> a - base" "a - base < unat s + unat l" "base \<le> a"
      by (auto simp: marks_def)
    then have "0 < unat l" by simp
    from add [OF span [OF sl(1) this]] sl show "marks (CT_WRITABLE (rebase_meta (of_nat base) m)) a"
      by (auto simp: marks_def rebase_meta_def intro!: bexI [of _ "(s, l)"])
  qed
  have shift: "addrs_in (base + off) (base + off + length bs) (map (\<lambda>r. unat (g r + of_nat base)) rs)"
    if "addrs_in off (off + length bs) (map (\<lambda>r. unat (g r)) rs)" for g :: "'b \<Rightarrow> u16" and rs
  proof -
    have "map (\<lambda>r. unat (g r + of_nat base)) rs = map (\<lambda>n. n + base) (map (\<lambda>r. unat (g r)) rs)"
      using that by (simp add: addrs_in_def add)
    moreover have "sorted (map (\<lambda>n. n + base) (map (\<lambda>r. unat (g r)) rs))"
      using that by (simp add: addrs_in_def sorted_map)
    ultimately show ?thesis using that by (simp only: addrs_in_def) auto
  qed
  have flag: "base \<le> a \<and> flagged off bs (a - base) \<longleftrightarrow> flagged (base + off) bs a" for a
    by (auto simp: flagged_def diff_diff_left)
  have "\<forall>a. marks (CT_WRITABLE (rebase_meta (of_nat base) m)) a \<longleftrightarrow> flagged (base + off) bs a"
    using ok by (simp add: w meta_ok_def flag)
  then show ?thesis
    using ok shift [of cmp_addr "CT_CMP_RULES m"] shift [of alw_addr "CT_ALLOWED_RULES m"]
    by (simp add: meta_ok_def rebase_meta_def comp_def)
qed


subsection \<open>Packed offsets\<close>

fun packed :: "nat \<Rightarrow> nat list \<Rightarrow> nat list" where
  "packed off [] = []"
| "packed off (s # ss) = off # packed (off + s) ss"

lemma length_packed [simp]: "length (packed off ss) = length ss"
  by (induction ss arbitrary: off) simp_all

lemma align_up_ge: "0 < a \<Longrightarrow> off \<le> align_up off a"
  unfolding align_up_def using div_mult_mod_eq [of "off + a - 1" a] mod_less_divisor [of a "off + a - 1"]
  by linarith

lemma repr_c_ge: "list_all (\<lambda>f. 0 < snd f) fs \<Longrightarrow> off + sum_list (map fst fs) \<le> snd (repr_c_offsets off fs)"
proof (induction off fs rule: repr_c_offsets.induct)
  case (2 off sz al fs)
  then show ?case using align_up_ge [of al off] by (auto simp: Let_def)
qed simp

lemma repr_c_packed:
  "list_all (\<lambda>f. 0 < snd f) fs \<Longrightarrow> snd (repr_c_offsets off fs) = off + sum_list (map fst fs) \<Longrightarrow>
   fst (repr_c_offsets off fs) = packed off (map fst fs)"
proof (induction off fs rule: repr_c_offsets.induct)
  case (2 off sz al fs)
  have "align_up off al + sz + sum_list (map fst fs) \<le> snd (repr_c_offsets (align_up off al + sz) fs)"
    using 2(2) by (intro repr_c_ge) simp
  with 2(2,3) align_up_ge [of al off] have e: "align_up off al = off" by (simp add: Let_def)
  with 2 show ?case by (simp add: Let_def)
qed simp

lemma struct_align_pos: "0 < struct_align fs"
  unfolding struct_align_def by (induction fs) (auto simp: max_def)

lemma no_padding_packed:
  assumes "list_all (\<lambda>f. 0 < snd f) fs" "no_padding fs"
  shows "struct_offsets fs = packed 0 (map fst fs)"
proof -
  have "snd (repr_c_offsets 0 fs) = sum_list (map fst fs)"
    using repr_c_ge [OF assms(1), of 0] align_up_ge [OF struct_align_pos, of "snd (repr_c_offsets 0 fs)" fs] assms(2)
    by (simp add: no_padding_def struct_size_def)
  then show ?thesis using repr_c_packed [OF assms(1), of 0] by (simp add: struct_offsets_def)
qed

lemma align_of_pos: "0 < align_of t"
  by (induction t) simp_all

lemma block_shape_aligned: "list_all (\<lambda>f. 0 < snd f) (block_shape fs)"
  by (induction fs) (simp_all add: block_shape_def align_of_pos)

lemma block_shape_sizes: "map fst (block_shape fs) = map (\<lambda>f. size_of (fd_ty f)) fs"
  by (simp add: block_shape_def)

subsection \<open>Blocks, sections and tables\<close>

lemma length_block_rw: "length (block_rw_bytes fs) = sum_list (map (\<lambda>f. size_of (fd_ty f)) fs)"
  by (simp add: block_rw_bytes_def length_concat comp_def)

lemma expand_fields_shape: "expand_fields sz al fs = Inr m \<Longrightarrow> bm_size m = sz \<and> bm_align m = al"
  by (induction fs arbitrary: m) (force split: sum.splits prod.splits)+

lemma expand_fields_ok:
  "expand_fields sz al (zip (packed off (map (\<lambda>f. size_of (fd_ty f)) fs)) fs) = Inr m \<Longrightarrow>
   off + length (block_rw_bytes fs) < 65536 \<Longrightarrow> meta_ok off (block_rw_bytes fs) m"
proof (induction fs arbitrary: off m)
  case Nil
  then show ?case by (auto simp: block_rw_bytes_def)
next
  case (Cons f fs)
  let ?n = "size_of (fd_ty f)"
  obtain m1 m2 where m1: "field_meta (of_nat off) f = Inr m1"
    and m2: "expand_fields sz al (zip (packed (off + ?n) (map (\<lambda>f. size_of (fd_ty f)) fs)) fs) = Inr m2"
    and m: "m = meta_append m1 m2"
    using Cons.prems(1) by (auto split: sum.splits)
  have lt: "off + ?n + length (block_rw_bytes fs) < 65536"
    using Cons.prems(2) by (simp add: block_rw_bytes_def add.assoc)
  have "meta_ok off (replicate ?n (field_rw f)) m1" using meta_ok_field [OF m1] lt by simp
  moreover have "meta_ok (off + ?n) (block_rw_bytes fs) m2" using Cons.IH [OF m2 lt] .
  ultimately show ?case
    using meta_ok_append [of off "replicate ?n (field_rw f)" m1 "block_rw_bytes fs" m2]
    by (simp add: m block_rw_bytes_def)
qed

lemma expand_block_ok:
  assumes "expand_block fs = Inr m"
  shows "bm_size m = length (block_rw_bytes fs) \<and> 0 < bm_align m \<and>
    (length (block_rw_bytes fs) < 65536 \<longrightarrow> meta_ok 0 (block_rw_bytes fs) m)"
proof -
  let ?s = "block_shape fs"
  have e: "expand_fields (struct_size ?s) (struct_align ?s) (zip (struct_offsets ?s) fs) = Inr m" and np: "no_padding ?s"
    using assms by (auto simp: expand_block_def Let_def split: sum.splits if_splits)
  have off: "struct_offsets ?s = packed 0 (map (\<lambda>f. size_of (fd_ty f)) fs)"
    using no_padding_packed [OF block_shape_aligned np] by (simp only: block_shape_sizes)
  show ?thesis
    using expand_fields_shape [OF e] expand_fields_ok [of _ _ 0 fs m] e np struct_align_pos [of ?s]
    by (simp add: off length_block_rw no_padding_def flip: block_shape_sizes)
qed

lemma section_field_ok:
  assumes "section_field_meta sf = Inr m"
  shows "bm_size m = length (section_field_rw sf) \<and> 0 < bm_align m \<and>
    (length (section_field_rw sf) < 65536 \<longrightarrow> meta_ok 0 (section_field_rw sf) m)"
  using assms by (cases sf) (auto dest: expand_block_ok)


text \<open>The contract one level of the derive gives the next, on any list of declarations.\<close>

definition emits :: "('d \<Rightarrow> derive_error + 'h block_meta) \<Rightarrow> ('d \<Rightarrow> bool list) \<Rightarrow> bool" where
  "emits g rw \<longleftrightarrow> (\<forall>d m. g d = Inr m \<longrightarrow> bm_size m = length (rw d) \<and> 0 < bm_align m \<and>
     (length (rw d) < 65536 \<longrightarrow> meta_ok 0 (rw d) m))"

lemma emits_section_field: "emits section_field_meta section_field_rw"
  by (simp add: emits_def section_field_ok)

lemma collect_metas_Cons:
  "collect_metas (x # xs) = Inr ms \<longleftrightarrow> (\<exists>m ms'. x = Inr m \<and> collect_metas xs = Inr ms' \<and> ms = m # ms')"
  by (cases x) (auto split: sum.splits)

lemma emits_sizes:
  assumes "emits g rw" "collect_metas (map g ds) = Inr ms"
  shows "map bm_size ms = map (\<lambda>d. length (rw d)) ds \<and> list_all (\<lambda>f. 0 < snd f) (meta_shape ms)"
  using assms(2)
proof (induction ds arbitrary: ms)
  case (Cons d ds)
  then show ?case using assms(1) by (auto simp: collect_metas_Cons emits_def meta_shape_def)
qed (simp add: meta_shape_def)

lemma emits_rebased:
  assumes g: "emits g rw"
  shows "collect_metas (map g ds) = Inr ms \<Longrightarrow> base + off + length (concat (map rw ds)) < 65536 \<Longrightarrow>
    meta_ok (base + off) (concat (map rw ds))
      (foldr meta_append (map (\<lambda>(o1, m). rebase_meta (of_nat base + of_nat o1) m) (zip (packed off (map bm_size ms)) ms))
         (meta_empty sz al))"
proof (induction ds arbitrary: ms off)
  case (Cons d ds)
  obtain m ms' where m: "g d = Inr m" and ms': "collect_metas (map g ds) = Inr ms'" and ms: "ms = m # ms'"
    using Cons.prems(1) by (auto simp: collect_metas_Cons)
  have sz: "bm_size m = length (rw d)" and ok: "meta_ok 0 (rw d) m"
    using g m Cons.prems(2) by (auto simp: emits_def)
  have "meta_ok (base + off + 0) (rw d) (rebase_meta (of_nat (base + off)) m)"
    using meta_ok_rebase [OF ok, of "base + off"] Cons.prems(2) by simp
  moreover have "meta_ok (base + off + length (rw d)) (concat (map rw ds))
      (foldr meta_append (map (\<lambda>(o1, m). rebase_meta (of_nat base + of_nat o1) m)
        (zip (packed (off + length (rw d)) (map bm_size ms')) ms')) (meta_empty sz al))"
    using Cons.IH [OF ms', of "off + length (rw d)"] Cons.prems(2) by (simp add: add.assoc)
  ultimately show ?case
    using meta_ok_append [of "base + off" "rw d" "rebase_meta (of_nat (base + off)) m"] by (simp add: ms sz)
qed simp

lemma foldr_meta_shape:
  "bm_size (foldr meta_append parts (meta_empty sz al)) = sz \<and> bm_align (foldr meta_append parts (meta_empty sz al)) = al"
  by (induction parts) simp_all

lemma expand_section_ok:
  assumes "expand_section sd = Inr m"
  defines "bs \<equiv> concat (map section_field_rw (sd_fields sd))"
  shows "bm_size m = length bs \<and> length bs = unat (sd_size sd) \<and> 0 < bm_align m \<and>
    (unat (sd_base sd) + length bs < 65536 \<longrightarrow> meta_ok (unat (sd_base sd)) bs m)"
proof -
  obtain ms where ms: "collect_metas (map section_field_meta (sd_fields sd)) = Inr ms"
    using assms by (auto simp: expand_section_def split: sum.splits)
  let ?s = "meta_shape ms"
  let ?parts = "map (\<lambda>(off, m). rebase_meta (sd_base sd + of_nat off) m) (zip (struct_offsets ?s) ms)"
  have np: "no_padding ?s" and sz: "struct_size ?s = unat (sd_size sd)"
    and m: "m = foldr meta_append ?parts (meta_empty (struct_size ?s) (struct_align ?s))"
    using assms(1) ms by (auto simp: expand_section_def Let_def split: if_splits)
  have sizes: "map bm_size ms = map (\<lambda>d. length (section_field_rw d)) (sd_fields sd)"
    and al: "list_all (\<lambda>f. 0 < snd f) ?s"
    using emits_sizes [OF emits_section_field ms] by auto
  have fst: "map fst ?s = map bm_size ms" by (simp add: meta_shape_def)
  have off: "struct_offsets ?s = packed 0 (map bm_size ms)" using no_padding_packed [OF al np] by (simp add: fst)
  have len: "length bs = struct_size ?s"
    using np by (simp add: no_padding_def fst sizes bs_def length_concat comp_def)
  have shape: "bm_size m = struct_size ?s \<and> bm_align m = struct_align ?s"
    unfolding m by (rule foldr_meta_shape)
  have "meta_ok (unat (sd_base sd)) bs m" if "unat (sd_base sd) + length bs < 65536"
    using emits_rebased [OF emits_section_field ms, of "unat (sd_base sd)" 0] that by (simp add: m off bs_def)
  then show ?thesis using shape len sz struct_align_pos [of ?s] by simp
qed


lemma table_sections_combined:
  assumes "collect_metas (map table_field_meta fds) = Inr fs"
  defines "m \<equiv> foldr meta_append (map snd fs) (meta_empty 0 1)"
  shows "concat (map (\<lambda>(_, m). CT_WRITABLE m) (table_sections fs)) = CT_WRITABLE m \<and>
    concat (map (\<lambda>(_, m). CT_CMP_RULES m) (table_sections fs)) = CT_CMP_RULES m \<and>
    concat (map (\<lambda>(_, m). CT_ALLOWED_RULES m) (table_sections fs)) = CT_ALLOWED_RULES m"
  using assms(1) unfolding m_def
proof (induction fds arbitrary: fs)
  case (Cons fd fds)
  then show ?case
    by (cases fd) (auto simp: collect_metas_Cons meta_append_def meta_empty_def split: sum.splits)
qed (simp add: meta_empty_def)

lemma table_field_ok:
  assumes "table_field_meta fd = Inr (sd, m)" "off + length (table_field_rw fd) < 65536"
    "case sd of Some s \<Rightarrow> of_nat off = sd_base s | None \<Rightarrow> True"
  shows "meta_ok off (table_field_rw fd) m"
proof (cases fd)
  case (TabSection n s)
  then have e: "expand_section s = Inr m" and b: "unat (sd_base s) = off"
    using assms by (auto split: sum.splits simp: unat_of_nat dest!: sym [of "of_nat off"])
  show ?thesis using expand_section_ok [OF e] assms(2) by (simp add: TabSection b)
qed (use assms in auto)

lemma table_field_size:
  assumes "table_field_meta fd = Inr p"
  shows "bm_size (snd p) = length (table_field_rw fd) \<and> 0 < bm_align (snd p)"
  using assms by (cases fd) (auto dest!: expand_section_ok split: sum.splits)

lemma table_sizes:
  assumes "collect_metas (map table_field_meta fds) = Inr fs"
  shows "map bm_size (map snd fs) = map (\<lambda>d. length (table_field_rw d)) fds \<and>
    list_all (\<lambda>f. 0 < snd f) (meta_shape (map snd fs))"
  using assms
proof (induction fds arbitrary: fs)
  case (Cons d ds)
  then show ?case by (fastforce simp: collect_metas_Cons meta_shape_def dest: table_field_size)
qed (simp add: meta_shape_def)

lemma table_combined_ok:
  "collect_metas (map table_field_meta fds) = Inr fs \<Longrightarrow>
   off + length (concat (map table_field_rw fds)) < 65536 \<Longrightarrow>
   list_all (\<lambda>(off, sd, _). case sd of Some s \<Rightarrow> of_nat off = sd_base s | None \<Rightarrow> True)
     (zip (packed off (map bm_size (map snd fs))) fs) \<Longrightarrow>
   meta_ok off (concat (map table_field_rw fds)) (foldr meta_append (map snd fs) (meta_empty 0 1))"
proof (induction fds arbitrary: fs off)
  case (Cons fd fds)
  obtain sd m fs' where fd: "table_field_meta fd = Inr (sd, m)" and fs: "fs = (sd, m) # fs'"
    and fs': "collect_metas (map table_field_meta fds) = Inr fs'"
    using Cons.prems(1) by (auto simp: collect_metas_Cons)
  have sz: "bm_size m = length (table_field_rw fd)" using table_field_size [OF fd] by simp
  have "meta_ok off (table_field_rw fd) m"
    using table_field_ok [OF fd, of off] Cons.prems by (simp add: fs)
  moreover have "meta_ok (off + length (table_field_rw fd)) (concat (map table_field_rw fds))
      (foldr meta_append (map snd fs') (meta_empty 0 1))"
    using Cons.IH [OF fs', of "off + length (table_field_rw fd)"] Cons.prems(2,3) by (simp add: fs sz add.assoc)
  ultimately show ?case using meta_ok_append by (simp add: fs)
qed simp

subsection \<open>The writable words\<close>

definition bitset :: "u32 list \<Rightarrow> nat \<Rightarrow> bool" where
  "bitset w a \<longleftrightarrow> a div 32 < length w \<and> bit (w ! (a div 32)) (a mod 32)"

lemma length_set_bit32 [simp]: "length (set_bit32 b w) = length w"
  by (simp add: set_bit32_def)

lemma length_fill_span [simp]: "length (fill_span sp w) = length w"
proof -
  have "length (foldl (\<lambda>w b. set_bit32 b w) w bs) = length w" for bs
    by (induction bs arbitrary: w) simp_all
  then show ?thesis by (simp add: fill_span_def)
qed

lemma bit_exp32: "bit (2 ^ k :: u32) n \<longleftrightarrow> k = n" if "n < 32"
  using that by (simp add: bit_exp_iff possible_bit_def) auto

lemma bitset_set_bit32:
  assumes b: "b div 32 < length w"
  shows "bitset (set_bit32 b w) a \<longleftrightarrow> a = b \<or> bitset w a"
proof (cases "a div 32 = b div 32")
  case True
  have "a = b \<longleftrightarrow> b mod 32 = a mod 32" using True by (metis div_mult_mod_eq)
  with b True show ?thesis by (auto simp: bitset_def set_bit32_def bit_or_iff bit_exp32)
next
  case False
  then show ?thesis by (auto simp: bitset_def set_bit32_def)
qed

lemma bitset_fill_span:
  "(\<And>b. unat (fst sp) \<le> b \<Longrightarrow> b < unat (fst sp) + unat (snd sp) \<Longrightarrow> b div 32 < length w) \<Longrightarrow>
   bitset (fill_span sp w) a \<longleftrightarrow> bitset w a \<or> unat (fst sp) \<le> a \<and> a < unat (fst sp) + unat (snd sp)"
proof -
  have "(\<forall>b\<in>set bs. b div 32 < length w) \<Longrightarrow>
      bitset (foldl (\<lambda>w b. set_bit32 b w) w bs) a \<longleftrightarrow> bitset w a \<or> a \<in> set bs" for bs
    by (induction bs arbitrary: w) (auto simp: bitset_set_bit32)
  then show ?thesis
    if "\<And>b. unat (fst sp) \<le> b \<Longrightarrow> b < unat (fst sp) + unat (snd sp) \<Longrightarrow> b div 32 < length w"
    using that by (auto simp: fill_span_def)
qed

lemma bitset_spans:
  "(\<And>b. marks spans b \<Longrightarrow> b div 32 < length w) \<Longrightarrow>
   bitset (foldl (\<lambda>w sp. fill_span sp w) w spans) a \<longleftrightarrow> bitset w a \<or> marks spans a"
proof (induction spans arbitrary: w)
  case (Cons sp spans)
  have cons: "marks (sp # spans) b \<longleftrightarrow> unat (fst sp) \<le> b \<and> b < unat (fst sp) + unat (snd sp) \<or> marks spans b" for b
    by (auto simp: marks_def)
  show ?case
    using Cons.IH [of "fill_span sp w"] bitset_fill_span [of sp w a] Cons.prems by (auto simp: cons)
qed simp

lemma writable_words:
  assumes "\<And>b. marks spans b \<Longrightarrow> b < sz"
  shows "bitset (WRITABLE_WORDS sz spans) a \<longleftrightarrow> marks spans a"
proof -
  have z: "\<not> bitset (replicate ((sz + 31) div 32) 0) a" by (simp add: bitset_def)
  have "b div 32 < (sz + 31) div 32" if "marks spans b" for b
    using assms [OF that] by linarith
  then show ?thesis unfolding WRITABLE_WORDS_def using bitset_spans [of spans] z by simp
qed

lemma stripe_sorted: "sorted (map f rs) \<Longrightarrow> stripe rs p = Some xs \<Longrightarrow> sorted (map f xs)"
  by (auto simp: stripe_def slice_opt_Some_iff take_map [symmetric] drop_map [symmetric]
      intro!: sorted_wrt_take sorted_wrt_drop)

text \<open>The table derive meets its purpose: a byte of the emitted map is writable exactly when the
  declaration it belongs to is neither skipped nor read-only, the flat layout has no gaps, and the
  rule tables are in address order.\<close>

lemma derive_map_ok:
  assumes exp: "expand_table td = Inr out" and sz: "td_size td < 65536"
  shows "length (table_rw_bytes td) = td_size td" "rm_SIZE (to_map out) = td_size td"
    "writable (to_map out) a \<longleftrightarrow> a < td_size td \<and> table_rw_bytes td ! a"
    "map_sorted (to_map out)"
    "sorted (map (\<lambda>r. unat (cmp_addr r)) (rm_CMP_RULES (to_map out)))"
    "sorted (map (\<lambda>r. unat (alw_addr r)) (rm_ALLOWED_RULES (to_map out)))"
proof -
  obtain fs where fs: "collect_metas (map table_field_meta (td_fields td)) = Inr fs"
    using exp by (auto simp: expand_table_def split: sum.splits)
  let ?s = "meta_shape (map snd fs)" and ?c = "foldr meta_append (map snd fs) (meta_empty 0 1)"
  have np: "no_padding ?s" and st: "struct_size ?s = td_size td"
    and bases: "list_all (\<lambda>(off, sd, _). case sd of Some s \<Rightarrow> of_nat off = sd_base s | None \<Rightarrow> True)
        (zip (struct_offsets ?s) fs)"
    and out: "to_map out = emit_map (td_size td) (table_sections fs)"
    using exp fs by (auto simp: expand_table_def Let_def split: if_splits option.splits)
  have fst: "map fst ?s = map bm_size (map snd fs)" by (simp add: meta_shape_def)
  have off: "struct_offsets ?s = packed 0 (map bm_size (map snd fs))"
    using no_padding_packed [OF _ np] table_sizes [OF fs] by (simp add: fst)
  show len: "length (table_rw_bytes td) = td_size td"
    using np st table_sizes [OF fs]
    by (simp add: no_padding_def fst table_rw_bytes_def length_concat comp_def)
  have ok: "meta_ok 0 (table_rw_bytes td) ?c"
    using table_combined_ok [OF fs, of 0] bases sz len by (simp add: off table_rw_bytes_def)
  have W: "rm_WRITABLE (to_map out) = WRITABLE_WORDS (td_size td) (CT_WRITABLE ?c)"
    and C: "rm_CMP_RULES (to_map out) = CT_CMP_RULES ?c" and A: "rm_ALLOWED_RULES (to_map out) = CT_ALLOWED_RULES ?c"
    using table_sections_combined [OF fs] by (simp_all add: out emit_map_def)
  have mk: "marks (CT_WRITABLE ?c) b \<longleftrightarrow> b < td_size td \<and> table_rw_bytes td ! b" for b
    using ok by (auto simp: meta_ok_def flagged_def len)
  have "bitset (rm_WRITABLE (to_map out)) a \<longleftrightarrow> a < td_size td \<and> table_rw_bytes td ! a"
    unfolding W using writable_words [of "CT_WRITABLE ?c" "td_size td" a] mk by simp
  then show "writable (to_map out) a \<longleftrightarrow> a < td_size td \<and> table_rw_bytes td ! a"
    by (simp add: writable_def bitset_def)
  show sc: "sorted (map (\<lambda>r. unat (cmp_addr r)) (rm_CMP_RULES (to_map out)))"
    and sa: "sorted (map (\<lambda>r. unat (alw_addr r)) (rm_ALLOWED_RULES (to_map out)))"
    using ok by (simp_all add: C A meta_ok_def addrs_in_def)
  show "map_sorted (to_map out)"
    using stripe_sorted [OF sc] stripe_sorted [OF sa] by (auto simp: map_sorted_def)
  show "rm_SIZE (to_map out) = td_size td" by (simp add: out emit_map_def)
qed

end
