(* ===== verification/Core_Table.thy ===== *)
theory Core_Table
  imports Ct_Derive Osc_Frame
begin

text \<open>
  The control table of \<open>core/src/regions/\<close>: the placement of the regions in the flat 1024-byte map and
  the declarations of every block and section, which the derives of \<open>Ct_Derive\<close> turn into the register
  map the firmware runs on. The address constants the firmware uses by name are shown to be the ones the
  derive emits.
\<close>

subsection \<open>Placement\<close>

definition TABLE_SIZE :: nat where [osc_const]: "TABLE_SIZE = 1024"

definition CONFIG_REGION_SIZE :: u16 where [osc_const]: "CONFIG_REGION_SIZE = 128"
definition CALIB_REGION_SIZE :: u16 where [osc_const]: "CALIB_REGION_SIZE = 256"
definition CONTROL_REGION_SIZE :: u16 where [osc_const]: "CONTROL_REGION_SIZE = 128"
definition TELEMETRY_REGION_SIZE :: u16 where [osc_const]: "TELEMETRY_REGION_SIZE = 128"
definition PROFILE_REGION_SIZE :: u16 where [osc_const]: "PROFILE_REGION_SIZE = 64"

definition CONFIG_BASE_ADDR :: u16 where [osc_const]: "CONFIG_BASE_ADDR = 0x000"
definition CALIB_BASE_ADDR :: u16 where [osc_const]: "CALIB_BASE_ADDR = 0x080"
definition CONTROL_BASE_ADDR :: u16 where [osc_const]: "CONTROL_BASE_ADDR = 0x180"
definition TELEMETRY_BASE_ADDR :: u16 where [osc_const]: "TELEMETRY_BASE_ADDR = 0x200"
definition PROFILE_BASE_ADDR :: u16 where [osc_const]: "PROFILE_BASE_ADDR = 0x280"

definition SPANS_PER_SLOT :: nat where [osc_const]: "SPANS_PER_SLOT = 8"

text \<open>The register addresses named in the source, as the \<open>addr\<close> modules give them.\<close>

definition ADDR_MODEL_NUMBER :: u16 where [osc_const]: "ADDR_MODEL_NUMBER = 0x000"
definition ADDR_FIRMWARE_VERSION :: u16 where [osc_const]: "ADDR_FIRMWARE_VERSION = 0x002"
definition ADDR_HARDWARE_REVISION :: u16 where [osc_const]: "ADDR_HARDWARE_REVISION = 0x003"
definition ADDR_ID :: u16 where [osc_const]: "ADDR_ID = 0x010"
definition ADDR_BAUD_RATE_IDX :: u16 where [osc_const]: "ADDR_BAUD_RATE_IDX = 0x011"
definition ADDR_RESPONSE_DEADLINE_US :: u16 where [osc_const]: "ADDR_RESPONSE_DEADLINE_US = 0x012"
definition ADDR_POS_MIN_PHYS_URAD :: u16 where [osc_const]: "ADDR_POS_MIN_PHYS_URAD = 0x020"
definition ADDR_POS_MAX_PHYS_URAD :: u16 where [osc_const]: "ADDR_POS_MAX_PHYS_URAD = 0x024"
definition ADDR_POS_MIN_SOFT_URAD :: u16 where [osc_const]: "ADDR_POS_MIN_SOFT_URAD = 0x028"
definition ADDR_POS_MAX_SOFT_URAD :: u16 where [osc_const]: "ADDR_POS_MAX_SOFT_URAD = 0x02C"
definition ADDR_WINDING_CUTOFF_CC :: u16 where [osc_const]: "ADDR_WINDING_CUTOFF_CC = 0x040"
definition ADDR_WINDING_RECOVER_CC :: u16 where [osc_const]: "ADDR_WINDING_RECOVER_CC = 0x042"
definition ADDR_MAX_EFFORT :: u16 where [osc_const]: "ADDR_MAX_EFFORT = 0x05A"
definition ADDR_VDD_MV :: u16 where [osc_const]: "ADDR_VDD_MV = 0x060"
definition ADDR_TORQUE_ENABLE :: u16 where [osc_const]: "ADDR_TORQUE_ENABLE = 0x180"
definition ADDR_BOOT_MODE :: u16 where [osc_const]: "ADDR_BOOT_MODE = 0x19C"
definition ADDR_FAULT_FLAGS :: u16 where [osc_const]: "ADDR_FAULT_FLAGS = 0x200"
definition ADDR_STATUS_FLAGS :: u16 where [osc_const]: "ADDR_STATUS_FLAGS = 0x201"

subsection \<open>Enumerations and hooks\<close>

definition StallResponse_VARIANTS :: enum_variants where
  "StallResponse_VARIANTS = [(''Disable'', 0), (''Comply'', 1)]"

definition Mode_VARIANTS :: enum_variants where
  "Mode_VARIANTS = [(''OpenLoop'', 0), (''PositionPid'', 1)]"

definition BootMode_VARIANTS :: enum_variants where
  "BootMode_VARIANTS = [(''App'', 0), (''Bootloader'', 1)]"

datatype hook = OnIdWrite | OnBaudRateIdxWrite | OnResponseDeadlineUsWrite

subsection \<open>Blocks and sections\<close>

definition ConfigCommon :: "hook field_decl list" where
  "ConfigCommon =
    [(field_default ''model_number'' TU16)\<lparr> fd_access := Ro \<rparr>,
     (field_default ''firmware_version'' TU8)\<lparr> fd_access := Ro \<rparr>,
     (field_default ''hardware_revision'' TU8)\<lparr> fd_access := Ro \<rparr>,
     (field_default ''capability_flags'' TU32)\<lparr> fd_access := Ro \<rparr>,
     (field_default ''_rsvd_identity'' (TArray TU8 8))\<lparr> fd_skip := True \<rparr>,
     (field_default ''id'' TU8)\<lparr> fd_compares := [(CmpGe, ExprValue 1), (CmpLe, ExprValue 249)],
       fd_hook := Some OnIdWrite \<rparr>,
     (field_default ''baud_rate_idx'' TU8)\<lparr> fd_compares := [(CmpLe, ExprValue 3)],
       fd_hook := Some OnBaudRateIdxWrite \<rparr>,
     (field_default ''response_deadline_us'' TU16)\<lparr> fd_hook := Some OnResponseDeadlineUsWrite \<rparr>,
     (field_default ''_rsvd_tail'' (TArray TU8 12))\<lparr> fd_skip := True \<rparr>]"

definition ConfigPosLimits :: "hook field_decl list" where
  "ConfigPosLimits =
    [(field_default ''pos_min_phys_urad'' TI32)\<lparr> fd_compares := [(CmpLt,
       ExprReference ADDR_POS_MAX_PHYS_URAD)] \<rparr>,
     (field_default ''pos_max_phys_urad'' TI32)\<lparr> fd_compares := [(CmpGt,
       ExprReference ADDR_POS_MIN_PHYS_URAD)] \<rparr>,
     (field_default ''pos_min_soft_urad'' TI32)\<lparr> fd_compares := [(CmpGe,
       ExprReference ADDR_POS_MIN_PHYS_URAD), (CmpLe, ExprReference ADDR_POS_MAX_PHYS_URAD), (CmpLt,
       ExprReference ADDR_POS_MAX_SOFT_URAD)] \<rparr>,
     (field_default ''pos_max_soft_urad'' TI32)\<lparr> fd_compares := [(CmpGe,
       ExprReference ADDR_POS_MIN_PHYS_URAD), (CmpLe, ExprReference ADDR_POS_MAX_PHYS_URAD), (CmpGt,
       ExprReference ADDR_POS_MIN_SOFT_URAD)] \<rparr>]"

definition ConfigStall :: "hook field_decl list" where
  "ConfigStall =
    [field_default ''stall_response'' (TEnum StallResponse_VARIANTS),
     (field_default ''_rsvd_align'' TU8)\<lparr> fd_skip := True \<rparr>,
     field_default ''stall_effort_threshold'' TI16,
     field_default ''stall_motion_threshold_urad'' TU32,
     field_default ''stall_time_threshold_ms'' TU16,
     field_default ''comply_release_window_ms'' TU16]"

definition ConfigThermal :: "hook field_decl list" where
  "ConfigThermal =
    [field_default ''motor_thermal_k_q88'' TU16,
     field_default ''motor_thermal_tau_ms'' TU16,
     (field_default ''winding_cutoff_cc'' TI16)\<lparr> fd_compares := [(CmpGt,
       ExprReference ADDR_WINDING_RECOVER_CC)] \<rparr>,
     (field_default ''winding_recover_cc'' TI16)\<lparr> fd_compares := [(CmpLt,
       ExprReference ADDR_WINDING_CUTOFF_CC)] \<rparr>,
     field_default ''v_undervolt_mv'' TU16,
     (field_default ''_rsvd_tail'' TU16)\<lparr> fd_skip := True \<rparr>]"

definition ConfigCalibration :: "hook field_decl list" where
  "ConfigCalibration =
    [field_default ''vdd_mv'' TU16,
     (field_default ''_rsvd_align'' TU16)\<lparr> fd_skip := True \<rparr>]"

definition ConfigControlPosition :: "hook field_decl list" where
  "ConfigControlPosition =
    [field_default ''pid_kp_q88'' TU16,
     field_default ''pid_ki_q88'' TU16,
     field_default ''pid_kd_q88'' TU16,
     (field_default ''_rsvd_align'' TU16)\<lparr> fd_skip := True \<rparr>,
     field_default ''pid_i_limit'' TI32,
     field_default ''pos_deadband_urad'' TU32,
     (field_default ''pwm_deadband_pct'' TU8)\<lparr> fd_compares := [(CmpLe, ExprValue 50)] \<rparr>,
     field_default ''v_comp_enable'' TBool,
     field_default ''max_effort'' TI16,
     field_default ''v_nominal_mv'' TU16,
     (field_default ''_rsvd_tail'' TU16)\<lparr> fd_skip := True \<rparr>]"

definition ConfigRegs :: "hook section_decl" where
  "ConfigRegs = \<lparr> sd_base = CONFIG_BASE_ADDR, sd_size = CONFIG_REGION_SIZE, sd_fields =
    [SecBlock ''common'' ConfigCommon, SecBlock ''pos_limits'' ConfigPosLimits, SecBlock ''stall'' ConfigStall,
       SecBlock ''thermal'' ConfigThermal, SecBlock ''ctrl_pos'' ConfigControlPosition,
       SecBlock ''calibration'' ConfigCalibration, SecSkip ''_rsvd_tail'' 28] \<rparr>"

definition PotLutBlock :: "hook field_decl list" where
  "PotLutBlock =
    [field_default ''raw_min'' TU16,
     field_default ''raw_max'' TU16,
     field_default ''lut'' (TArray TI32 55)]"

definition BemfCalibBlock :: "hook field_decl list" where
  "BemfCalibBlock =
    [field_default ''ke_uvs_per_rad'' TU16,
     field_default ''r_motor_mohm'' TU16,
     field_default ''calib_v_bus_mv'' TU16,
     field_default ''calib_i_ma'' TU16]"

definition CalibRegs :: "hook section_decl" where
  "CalibRegs = \<lparr> sd_base = CALIB_BASE_ADDR, sd_size = CALIB_REGION_SIZE, sd_fields =
    [SecBlock ''pot_lut'' PotLutBlock, SecBlock ''bemf'' BemfCalibBlock, SecSkip ''_rsvd_tail'' 24] \<rparr>"

definition ControlLifecycle :: "hook field_decl list" where
  "ControlLifecycle =
    [field_default ''torque_enable'' TBool,
     field_default ''mode'' (TEnum Mode_VARIANTS),
     (field_default ''_rsvd_align'' (TArray TU8 2))\<lparr> fd_skip := True \<rparr>,
     (field_default ''goal_position'' TI32)\<lparr> fd_compares := [(CmpGe,
       ExprReference ADDR_POS_MIN_SOFT_URAD), (CmpLe, ExprReference ADDR_POS_MAX_SOFT_URAD)] \<rparr>,
     field_default ''goal_velocity'' TI32,
     (field_default ''goal_effort'' TI16)\<lparr> fd_compares := [(CmpLe, ExprReference ADDR_MAX_EFFORT)],
       fd_abs := True \<rparr>,
     (field_default ''_rsvd_tail'' (TArray TU8 2))\<lparr> fd_skip := True \<rparr>]"

definition ControlStreaming :: "hook field_decl list" where
  "ControlStreaming =
    [field_default ''stream_enable'' TBool,
     field_default ''stream_decimation'' TU8,
     (field_default ''stream_duration_ms'' TU16)\<lparr> fd_compares := [(CmpGe, ExprValue 1)] \<rparr>,
     field_default ''stream_field_mask'' TU32,
     (field_default ''stream_dropped'' TU32)\<lparr> fd_access := Ro \<rparr>]"

definition ControlSystem :: "hook field_decl list" where
  "ControlSystem =
    [field_default ''boot_mode'' (TEnum BootMode_VARIANTS)]"

definition ControlRegs :: "hook section_decl" where
  "ControlRegs = \<lparr> sd_base = CONTROL_BASE_ADDR, sd_size = CONTROL_REGION_SIZE, sd_fields =
    [SecBlock ''lifecycle'' ControlLifecycle, SecBlock ''streaming'' ControlStreaming,
       SecBlock ''system'' ControlSystem, SecSkip ''_rsvd_tail'' 99] \<rparr>"

definition TelemetryConverted :: "hook field_decl list" where
  "TelemetryConverted =
    [(field_default ''present_position'' TI32)\<lparr> fd_access := Ro \<rparr>,
     (field_default ''present_velocity'' TI32)\<lparr> fd_access := Ro \<rparr>,
     (field_default ''present_current'' TI16)\<lparr> fd_access := Ro \<rparr>,
     (field_default ''present_temp'' TI16)\<lparr> fd_access := Ro \<rparr>,
     (field_default ''present_vbus_mv'' TU16)\<lparr> fd_access := Ro \<rparr>,
     (field_default ''_rsvd_tail'' TU16)\<lparr> fd_skip := True \<rparr>]"

definition TelemetryIntermediaries :: "hook field_decl list" where
  "TelemetryIntermediaries =
    [(field_default ''vbus_filt_mv'' TU16)\<lparr> fd_access := Ro \<rparr>,
     (field_default ''t_winding_dc'' TI16)\<lparr> fd_access := Ro \<rparr>,
     (field_default ''pwm_duty_actual'' TI16)\<lparr> fd_access := Ro \<rparr>,
     (field_default ''_rsvd_align'' TU16)\<lparr> fd_skip := True \<rparr>,
     (field_default ''pid_error_last'' TI32)\<lparr> fd_access := Ro \<rparr>,
     (field_default ''pid_output_last'' TI32)\<lparr> fd_access := Ro \<rparr>,
     (field_default ''internal_goal'' TI32)\<lparr> fd_access := Ro \<rparr>,
     (field_default ''sample_tick'' TU32)\<lparr> fd_access := Ro \<rparr>]"

definition TelemetryCommon :: "hook field_decl list" where
  "TelemetryCommon =
    [(field_default ''fault_flags'' TU8)\<lparr> fd_access := Ro \<rparr>,
     (field_default ''status_flags'' TU8)\<lparr> fd_access := Ro \<rparr>,
     (field_default ''trim_steps'' TI8)\<lparr> fd_access := Ro \<rparr>,
     (field_default ''_rsvd_align'' TU8)\<lparr> fd_skip := True \<rparr>,
     field_default ''crc_fail_count'' TU32,
     field_default ''framing_drop_count'' TU32,
     (field_default ''_rsvd_tail'' (TArray TU8 20))\<lparr> fd_skip := True \<rparr>]"

definition TelemetryMode :: "hook field_decl list" where
  "TelemetryMode =
    [(field_default ''mode_active'' TU8)\<lparr> fd_access := Ro \<rparr>,
     (field_default ''fault_code'' TU8)\<lparr> fd_access := Ro \<rparr>,
     (field_default ''_rsvd_align'' TU16)\<lparr> fd_skip := True \<rparr>]"

definition TelemetryRaw :: "hook field_decl list" where
  "TelemetryRaw =
    [(field_default ''raw_pos'' TU16)\<lparr> fd_access := Ro \<rparr>,
     (field_default ''raw_current'' TU16)\<lparr> fd_access := Ro \<rparr>,
     (field_default ''raw_temp'' TU16)\<lparr> fd_access := Ro \<rparr>,
     (field_default ''raw_vbus'' TU16)\<lparr> fd_access := Ro \<rparr>,
     (field_default ''raw_vmotor_a'' TU16)\<lparr> fd_access := Ro \<rparr>,
     (field_default ''raw_vmotor_b'' TU16)\<lparr> fd_access := Ro \<rparr>,
     (field_default ''raw_enc_a'' TU16)\<lparr> fd_access := Ro \<rparr>,
     (field_default ''raw_enc_b'' TU16)\<lparr> fd_access := Ro \<rparr>]"

definition TelemetryRegs :: "hook section_decl" where
  "TelemetryRegs = \<lparr> sd_base = TELEMETRY_BASE_ADDR, sd_size = TELEMETRY_REGION_SIZE, sd_fields =
    [SecBlock ''common'' TelemetryCommon, SecBlock ''mode'' TelemetryMode,
       SecBlock ''converted'' TelemetryConverted, SecBlock ''intermediaries'' TelemetryIntermediaries,
       SecBlock ''raw'' TelemetryRaw, SecSkip ''_rsvd_tail'' 36] \<rparr>"

definition ProfileSlots :: "hook field_decl list" where
  "ProfileSlots =
    [field_default ''words'' (TArray TU16 (unat PROFILE_SLOTS * SPANS_PER_SLOT))]"

definition ProfileRegs :: "hook section_decl" where
  "ProfileRegs = \<lparr> sd_base = PROFILE_BASE_ADDR, sd_size = PROFILE_REGION_SIZE, sd_fields =
    [SecBlock ''slots'' ProfileSlots] \<rparr>"

definition ControlTable :: "hook table_decl" where
  "ControlTable = \<lparr> td_size = TABLE_SIZE, td_fields =
    [TabSection ''config'' ConfigRegs, TabSection ''calib'' CalibRegs, TabSection ''control'' ControlRegs,
     TabSection ''telemetry'' TelemetryRegs, TabSection ''profile'' ProfileRegs, TabSkip ''_rsvd'' 320] \<rparr>"

definition control_out :: "hook table_out" where
  "control_out = projr (expand_table ControlTable)"

definition control_map :: register_map where "control_map = to_map control_out"

text \<open>The \<open>addr\<close> module of a section: a field's address is the section base plus the offset of its block
  plus its own offset.\<close>

fun addr_in_block :: "u16 \<Rightarrow> nat list \<Rightarrow> 'h field_decl list \<Rightarrow> string \<Rightarrow> u16 option" where
  "addr_in_block base (off # offs) (f # fs) name =
     (if fd_name f = name \<and> \<not> fd_skip f then Some (base + of_nat off) else addr_in_block base offs fs name)"
| "addr_in_block base _ _ name = None"

definition section_shape :: "'h section_decl \<Rightarrow> (nat \<times> nat) list" where
  "section_shape sd = map (\<lambda>f. case f of
     SecBlock _ fs \<Rightarrow> (struct_size (block_shape fs), struct_align (block_shape fs)) | SecSkip _ n \<Rightarrow> (n, 1)) (sd_fields sd)"

definition addr_const :: "'h section_decl \<Rightarrow> string \<Rightarrow> string \<Rightarrow> u16 option" where
  "addr_const sd block name =
     (case find (\<lambda>(_, f). case f of SecBlock b _ \<Rightarrow> b = block | SecSkip _ _ \<Rightarrow> False)
             (zip (struct_offsets (section_shape sd)) (sd_fields sd)) of
        Some (off, SecBlock _ fs) \<Rightarrow> addr_in_block (sd_base sd + of_nat off) (struct_offsets (block_shape fs)) fs name
      | _ \<Rightarrow> None)"

subsection \<open>What the derives emit\<close>

abbreviation cmpr :: "u16 \<Rightarrow> u16 \<Rightarrow> u32 \<Rightarrow> cmp_rule" where
  "cmpr a s v \<equiv> \<lparr> cmp_addr = a, cmp_spec = s, cmp_val = v \<rparr>"

abbreviation allow :: "u16 \<Rightarrow> bytes \<Rightarrow> allowed_rule" where
  "allow a bs \<equiv> \<lparr> alw_addr = a, alw_allowed = bs \<rparr>"

abbreviation meta :: "u16 \<Rightarrow> u16 \<Rightarrow> u16 \<times> u16 \<Rightarrow> u16 \<times> u16 \<Rightarrow> section_meta" where
  "meta b n cs al \<equiv> \<lparr> sm_base = b, sm_size = n, sm_cmp_rules = cs, sm_allowed_rules = al \<rparr>"

text \<open>Layout by running offsets: when every field starts aligned and the total is a multiple of the
  structure's alignment there is no padding to compute.\<close>

fun packs :: "nat \<Rightarrow> (nat \<times> nat) list \<Rightarrow> bool" where
  "packs off [] \<longleftrightarrow> True"
| "packs off ((sz, al) # fs) \<longleftrightarrow> 0 < al \<and> al dvd off \<and> packs (off + sz) fs"

lemma align_up_aligned: "a dvd off \<Longrightarrow> 0 < a \<Longrightarrow> align_up off a = off"
proof -
  assume "a dvd off" "0 < a"
  then obtain k where k: "off = a * k" by (auto simp: dvd_def)
  have "(a - 1 + a * k) div a = k" using \<open>0 < a\<close> by (subst div_mult_self2) simp_all
  moreover have "off + a - 1 = a - 1 + a * k" using \<open>0 < a\<close> by (simp add: k)
  ultimately show ?thesis by (simp add: align_up_def k)
qed

lemma packs_repr_c: "packs off fs \<Longrightarrow> repr_c_offsets off fs = (packed off (map fst fs), off + sum_list (map fst fs))"
  by (induction off fs rule: packs.induct) (simp_all add: align_up_aligned Let_def)

lemma packs_layout:
  assumes "packs 0 fs \<and> struct_align fs dvd sum_list (map fst fs)"
  shows "struct_offsets fs = packed 0 (map fst fs)" "struct_size fs = sum_list (map fst fs)" "no_padding fs"
  using assms packs_repr_c [of 0 fs] align_up_aligned [OF _ struct_align_pos, of fs "sum_list (map fst fs)"]
  by (simp_all add: struct_offsets_def struct_size_def no_padding_def)

lemma expand_block_packs:
  assumes "block_shape fs = shape" "packs 0 shape \<and> struct_align shape dvd sum_list (map fst shape)"
  shows "expand_block fs =
    expand_fields (sum_list (map fst shape)) (struct_align shape) (zip (packed 0 (map fst shape)) fs)"
  using packs_layout [OF assms(2)] assms(1) by (simp add: expand_block_def split: sum.split)

lemma meta_append_eval:
  "meta_append \<lparr> bm_size = s, bm_align = a, CT_WRITABLE = w, CT_CMP_RULES = c, CT_ALLOWED_RULES = al,
       CT_FIELDS = d, CT_HOOKS = h \<rparr>
     \<lparr> bm_size = s', bm_align = a', CT_WRITABLE = w', CT_CMP_RULES = c', CT_ALLOWED_RULES = al',
       CT_FIELDS = d', CT_HOOKS = h' \<rparr> =
   \<lparr> bm_size = s', bm_align = a', CT_WRITABLE = w @ w', CT_CMP_RULES = c @ c', CT_ALLOWED_RULES = al @ al',
     CT_FIELDS = d @ d', CT_HOOKS = h @ h' \<rparr>"
  by (simp add: meta_append_def)

lemma rule_spec_eval:
  "rule_spec 1 False False OP_GE = 0x301" "rule_spec 1 False False OP_LE = 0x101"
  "rule_spec 2 False False OP_GE = 0x302" "rule_spec 2 True True OP_LE OR SPEC_RHS_REG = 0x172"
  "rule_spec 2 True False OP_GT OR SPEC_RHS_REG = 0x252" "rule_spec 2 True False OP_LT OR SPEC_RHS_REG = 0x52"
  "rule_spec 4 True False OP_GT OR SPEC_RHS_REG = 0x254" "rule_spec 4 True False OP_LT OR SPEC_RHS_REG = 0x54"
  "rule_spec 4 True False OP_GE OR SPEC_RHS_REG = 0x354" "rule_spec 4 True False OP_LE OR SPEC_RHS_REG = 0x154"
  by (simp_all add: rule_spec_def SPEC_SIGNED_def SPEC_ABS_def SPEC_RHS_REG_def OP_GE_def OP_LE_def OP_GT_def OP_LT_def)

lemmas derive_block_eval = expand_block_packs [OF refl] block_shape_def struct_align_def field_meta_def
  block_cmp_rules_def block_allowed_rules_def block_writable_def block_field_descs_def block_hooks_def
  field_default_def build_cmp_rule_def rule_spec_eval field_bounds_def bound_slot_def meta_append_eval meta_empty_def
  BOOL_ALLOWED_def enum_ALLOWED_def StallResponse_VARIANTS_def Mode_VARIANTS_def BootMode_VARIANTS_def osc_const

lemmas derive_section_eval = packs_layout struct_align_def expand_section_def meta_shape_def rebase_meta_def
  meta_append_eval meta_empty_def osc_const

lemma region_extents:
  "sd_base ConfigRegs = 0" "sd_base CalibRegs = 0x80" "sd_base ControlRegs = 0x180"
  "sd_base TelemetryRegs = 0x200" "sd_base ProfileRegs = 0x280"
  "sd_size ConfigRegs = 128" "sd_size CalibRegs = 256" "sd_size ControlRegs = 128"
  "sd_size TelemetryRegs = 128" "sd_size ProfileRegs = 64"
  by (simp_all add: ConfigRegs_def CalibRegs_def ControlRegs_def TelemetryRegs_def ProfileRegs_def osc_const)

lemmas derive_table_eval = packs_layout region_extents struct_align_def expand_table_def meta_shape_def emit_map_def
  meta_empty_def osc_const

lemma expand_ConfigCommon:
  "\<exists>ds. expand_block ConfigCommon = Inr \<lparr> bm_size = 32, bm_align = 4,
     CT_WRITABLE = [(0x010, 1), (0x011, 1), (0x012, 2)],
     CT_CMP_RULES = [cmpr 0x010 0x301 1, cmpr 0x010 0x101 249, cmpr 0x011 0x101 3],
     CT_ALLOWED_RULES = [],
     CT_FIELDS = ds, CT_HOOKS = [(0x010, 1, OnIdWrite), (0x011, 1, OnBaudRateIdxWrite),
       (0x012, 2, OnResponseDeadlineUsWrite)] \<rparr>"
  by (simp add: derive_block_eval ConfigCommon_def del: One_nat_def add_2_eq_Suc add_2_eq_Suc')

lemma expand_ConfigPosLimits:
  "\<exists>ds. expand_block ConfigPosLimits = Inr \<lparr> bm_size = 16, bm_align = 4,
     CT_WRITABLE = [(0x000, 4), (0x004, 4), (0x008, 4), (0x00C, 4)],
     CT_CMP_RULES = [cmpr 0x000 0x54 36, cmpr 0x004 0x254 32, cmpr 0x008 0x354 32, cmpr 0x008 0x154 36,
       cmpr 0x008 0x54 44, cmpr 0x00C 0x354 32, cmpr 0x00C 0x154 36, cmpr 0x00C 0x254 40],
     CT_ALLOWED_RULES = [],
     CT_FIELDS = ds, CT_HOOKS = [] \<rparr>"
  by (simp add: derive_block_eval ConfigPosLimits_def del: One_nat_def add_2_eq_Suc add_2_eq_Suc')

lemma expand_ConfigStall:
  "\<exists>ds. expand_block ConfigStall = Inr \<lparr> bm_size = 12, bm_align = 4,
     CT_WRITABLE = [(0x000, 1), (0x002, 2), (0x004, 4), (0x008, 2), (0x00A, 2)],
     CT_CMP_RULES = [],
     CT_ALLOWED_RULES = [allow 0x000 [0, 1]],
     CT_FIELDS = ds, CT_HOOKS = [] \<rparr>"
  by (simp add: derive_block_eval ConfigStall_def del: One_nat_def add_2_eq_Suc add_2_eq_Suc')

lemma expand_ConfigThermal:
  "\<exists>ds. expand_block ConfigThermal = Inr \<lparr> bm_size = 12, bm_align = 2,
     CT_WRITABLE = [(0x000, 2), (0x002, 2), (0x004, 2), (0x006, 2), (0x008, 2)],
     CT_CMP_RULES = [cmpr 0x004 0x252 66, cmpr 0x006 0x52 64],
     CT_ALLOWED_RULES = [],
     CT_FIELDS = ds, CT_HOOKS = [] \<rparr>"
  by (simp add: derive_block_eval ConfigThermal_def del: One_nat_def add_2_eq_Suc add_2_eq_Suc')

lemma expand_ConfigCalibration:
  "\<exists>ds. expand_block ConfigCalibration = Inr \<lparr> bm_size = 4, bm_align = 2,
     CT_WRITABLE = [(0x000, 2)],
     CT_CMP_RULES = [],
     CT_ALLOWED_RULES = [],
     CT_FIELDS = ds, CT_HOOKS = [] \<rparr>"
  by (simp add: derive_block_eval ConfigCalibration_def del: One_nat_def add_2_eq_Suc add_2_eq_Suc')

lemma expand_ConfigControlPosition:
  "\<exists>ds. expand_block ConfigControlPosition = Inr \<lparr> bm_size = 24, bm_align = 4,
     CT_WRITABLE = [(0x000, 2), (0x002, 2), (0x004, 2), (0x008, 4), (0x00C, 4), (0x010, 1), (0x011, 1),
       (0x012, 2), (0x014, 2)],
     CT_CMP_RULES = [cmpr 0x010 0x101 50],
     CT_ALLOWED_RULES = [allow 0x011 [0, 1]],
     CT_FIELDS = ds, CT_HOOKS = [] \<rparr>"
  by (simp add: derive_block_eval ConfigControlPosition_def del: One_nat_def add_2_eq_Suc add_2_eq_Suc')

lemma expand_PotLutBlock:
  "\<exists>ds. expand_block PotLutBlock = Inr \<lparr> bm_size = 224, bm_align = 4,
     CT_WRITABLE = [(0x000, 2), (0x002, 2), (0x004, 220)],
     CT_CMP_RULES = [],
     CT_ALLOWED_RULES = [],
     CT_FIELDS = ds, CT_HOOKS = [] \<rparr>"
  by (simp add: derive_block_eval PotLutBlock_def del: One_nat_def add_2_eq_Suc add_2_eq_Suc')

lemma expand_BemfCalibBlock:
  "\<exists>ds. expand_block BemfCalibBlock = Inr \<lparr> bm_size = 8, bm_align = 2,
     CT_WRITABLE = [(0x000, 2), (0x002, 2), (0x004, 2), (0x006, 2)],
     CT_CMP_RULES = [],
     CT_ALLOWED_RULES = [],
     CT_FIELDS = ds, CT_HOOKS = [] \<rparr>"
  by (simp add: derive_block_eval BemfCalibBlock_def del: One_nat_def add_2_eq_Suc add_2_eq_Suc')

lemma expand_ControlLifecycle:
  "\<exists>ds. expand_block ControlLifecycle = Inr \<lparr> bm_size = 16, bm_align = 4,
     CT_WRITABLE = [(0x000, 1), (0x001, 1), (0x004, 4), (0x008, 4), (0x00C, 2)],
     CT_CMP_RULES = [cmpr 0x004 0x354 40, cmpr 0x004 0x154 44, cmpr 0x00C 0x172 90],
     CT_ALLOWED_RULES = [allow 0x000 [0, 1], allow 0x001 [0, 1]],
     CT_FIELDS = ds, CT_HOOKS = [] \<rparr>"
  by (simp add: derive_block_eval ControlLifecycle_def del: One_nat_def add_2_eq_Suc add_2_eq_Suc')

lemma expand_ControlStreaming:
  "\<exists>ds. expand_block ControlStreaming = Inr \<lparr> bm_size = 12, bm_align = 4,
     CT_WRITABLE = [(0x000, 1), (0x001, 1), (0x002, 2), (0x004, 4)],
     CT_CMP_RULES = [cmpr 0x002 0x302 1],
     CT_ALLOWED_RULES = [allow 0x000 [0, 1]],
     CT_FIELDS = ds, CT_HOOKS = [] \<rparr>"
  by (simp add: derive_block_eval ControlStreaming_def del: One_nat_def add_2_eq_Suc add_2_eq_Suc')

lemma expand_ControlSystem:
  "\<exists>ds. expand_block ControlSystem = Inr \<lparr> bm_size = 1, bm_align = 1,
     CT_WRITABLE = [(0x000, 1)],
     CT_CMP_RULES = [],
     CT_ALLOWED_RULES = [allow 0x000 [0, 1]],
     CT_FIELDS = ds, CT_HOOKS = [] \<rparr>"
  by (simp add: derive_block_eval ControlSystem_def del: One_nat_def add_2_eq_Suc add_2_eq_Suc')

lemma expand_TelemetryConverted:
  "\<exists>ds. expand_block TelemetryConverted = Inr \<lparr> bm_size = 16, bm_align = 4,
     CT_WRITABLE = [],
     CT_CMP_RULES = [],
     CT_ALLOWED_RULES = [],
     CT_FIELDS = ds, CT_HOOKS = [] \<rparr>"
  by (simp add: derive_block_eval TelemetryConverted_def del: One_nat_def add_2_eq_Suc add_2_eq_Suc')

lemma expand_TelemetryIntermediaries:
  "\<exists>ds. expand_block TelemetryIntermediaries = Inr \<lparr> bm_size = 24, bm_align = 4,
     CT_WRITABLE = [],
     CT_CMP_RULES = [],
     CT_ALLOWED_RULES = [],
     CT_FIELDS = ds, CT_HOOKS = [] \<rparr>"
  by (simp add: derive_block_eval TelemetryIntermediaries_def del: One_nat_def add_2_eq_Suc add_2_eq_Suc')

lemma expand_TelemetryCommon:
  "\<exists>ds. expand_block TelemetryCommon = Inr \<lparr> bm_size = 32, bm_align = 4,
     CT_WRITABLE = [(0x004, 4), (0x008, 4)],
     CT_CMP_RULES = [],
     CT_ALLOWED_RULES = [],
     CT_FIELDS = ds, CT_HOOKS = [] \<rparr>"
  by (simp add: derive_block_eval TelemetryCommon_def del: One_nat_def add_2_eq_Suc add_2_eq_Suc')

lemma expand_TelemetryMode:
  "\<exists>ds. expand_block TelemetryMode = Inr \<lparr> bm_size = 4, bm_align = 2,
     CT_WRITABLE = [],
     CT_CMP_RULES = [],
     CT_ALLOWED_RULES = [],
     CT_FIELDS = ds, CT_HOOKS = [] \<rparr>"
  by (simp add: derive_block_eval TelemetryMode_def del: One_nat_def add_2_eq_Suc add_2_eq_Suc')

lemma expand_TelemetryRaw:
  "\<exists>ds. expand_block TelemetryRaw = Inr \<lparr> bm_size = 16, bm_align = 2,
     CT_WRITABLE = [],
     CT_CMP_RULES = [],
     CT_ALLOWED_RULES = [],
     CT_FIELDS = ds, CT_HOOKS = [] \<rparr>"
  by (simp add: derive_block_eval TelemetryRaw_def del: One_nat_def add_2_eq_Suc add_2_eq_Suc')

lemma expand_ProfileSlots:
  "\<exists>ds. expand_block ProfileSlots = Inr \<lparr> bm_size = 64, bm_align = 2,
     CT_WRITABLE = [(0x000, 64)],
     CT_CMP_RULES = [],
     CT_ALLOWED_RULES = [],
     CT_FIELDS = ds, CT_HOOKS = [] \<rparr>"
  by (simp add: derive_block_eval ProfileSlots_def del: One_nat_def add_2_eq_Suc add_2_eq_Suc')

lemma expand_ConfigRegs:
  "\<exists>ds. expand_section ConfigRegs = Inr \<lparr> bm_size = 128, bm_align = 4,
     CT_WRITABLE = [(0x010, 1), (0x011, 1), (0x012, 2), (0x020, 4), (0x024, 4), (0x028, 4), (0x02C, 4),
       (0x030, 1), (0x032, 2), (0x034, 4), (0x038, 2), (0x03A, 2), (0x03C, 2), (0x03E, 2), (0x040, 2),
       (0x042, 2), (0x044, 2), (0x048, 2), (0x04A, 2), (0x04C, 2), (0x050, 4), (0x054, 4), (0x058, 1),
       (0x059, 1), (0x05A, 2), (0x05C, 2), (0x060, 2)],
     CT_CMP_RULES = [cmpr 0x010 0x301 1, cmpr 0x010 0x101 249, cmpr 0x011 0x101 3, cmpr 0x020 0x54 36,
       cmpr 0x024 0x254 32, cmpr 0x028 0x354 32, cmpr 0x028 0x154 36, cmpr 0x028 0x54 44,
       cmpr 0x02C 0x354 32, cmpr 0x02C 0x154 36, cmpr 0x02C 0x254 40, cmpr 0x040 0x252 66,
       cmpr 0x042 0x52 64, cmpr 0x058 0x101 50],
     CT_ALLOWED_RULES = [allow 0x030 [0, 1], allow 0x059 [0, 1]],
     CT_FIELDS = ds, CT_HOOKS = [(0x010, 1, OnIdWrite), (0x011, 1, OnBaudRateIdxWrite),
       (0x012, 2, OnResponseDeadlineUsWrite)] \<rparr>"
  using expand_ConfigCommon expand_ConfigPosLimits expand_ConfigStall expand_ConfigThermal
       expand_ConfigControlPosition expand_ConfigCalibration
  by (auto simp: derive_section_eval ConfigRegs_def simp del: One_nat_def add_2_eq_Suc add_2_eq_Suc')

lemma expand_CalibRegs:
  "\<exists>ds. expand_section CalibRegs = Inr \<lparr> bm_size = 256, bm_align = 4,
     CT_WRITABLE = [(0x080, 2), (0x082, 2), (0x084, 220), (0x160, 2), (0x162, 2), (0x164, 2), (0x166, 2)],
     CT_CMP_RULES = [],
     CT_ALLOWED_RULES = [],
     CT_FIELDS = ds, CT_HOOKS = [] \<rparr>"
  using expand_PotLutBlock expand_BemfCalibBlock
  by (auto simp: derive_section_eval CalibRegs_def simp del: One_nat_def add_2_eq_Suc add_2_eq_Suc')

lemma expand_ControlRegs:
  "\<exists>ds. expand_section ControlRegs = Inr \<lparr> bm_size = 128, bm_align = 4,
     CT_WRITABLE = [(0x180, 1), (0x181, 1), (0x184, 4), (0x188, 4), (0x18C, 2), (0x190, 1), (0x191, 1),
       (0x192, 2), (0x194, 4), (0x19C, 1)],
     CT_CMP_RULES = [cmpr 0x184 0x354 40, cmpr 0x184 0x154 44, cmpr 0x18C 0x172 90, cmpr 0x192 0x302 1],
     CT_ALLOWED_RULES = [allow 0x180 [0, 1], allow 0x181 [0, 1], allow 0x190 [0, 1], allow 0x19C [0, 1]],
     CT_FIELDS = ds, CT_HOOKS = [] \<rparr>"
  using expand_ControlLifecycle expand_ControlStreaming expand_ControlSystem
  by (auto simp: derive_section_eval ControlRegs_def simp del: One_nat_def add_2_eq_Suc add_2_eq_Suc')

lemma expand_TelemetryRegs:
  "\<exists>ds. expand_section TelemetryRegs = Inr \<lparr> bm_size = 128, bm_align = 4,
     CT_WRITABLE = [(0x204, 4), (0x208, 4)],
     CT_CMP_RULES = [],
     CT_ALLOWED_RULES = [],
     CT_FIELDS = ds, CT_HOOKS = [] \<rparr>"
  using expand_TelemetryCommon expand_TelemetryMode expand_TelemetryConverted expand_TelemetryIntermediaries
       expand_TelemetryRaw
  by (auto simp: derive_section_eval TelemetryRegs_def simp del: One_nat_def add_2_eq_Suc add_2_eq_Suc')

lemma expand_ProfileRegs:
  "\<exists>ds. expand_section ProfileRegs = Inr \<lparr> bm_size = 64, bm_align = 2,
     CT_WRITABLE = [(0x280, 64)],
     CT_CMP_RULES = [],
     CT_ALLOWED_RULES = [],
     CT_FIELDS = ds, CT_HOOKS = [] \<rparr>"
  using expand_ProfileSlots
  by (auto simp: derive_section_eval ProfileRegs_def simp del: One_nat_def add_2_eq_Suc add_2_eq_Suc')

lemma expand_ControlTable:
  "\<exists>ds. expand_table ControlTable = Inr \<lparr> to_map = \<lparr> rm_SIZE = 1024,
     rm_WRITABLE = WRITABLE_WORDS 1024 [(0x010, 1), (0x011, 1), (0x012, 2), (0x020, 4), (0x024, 4),
       (0x028, 4), (0x02C, 4), (0x030, 1), (0x032, 2), (0x034, 4), (0x038, 2), (0x03A, 2), (0x03C, 2),
       (0x03E, 2), (0x040, 2), (0x042, 2), (0x044, 2), (0x048, 2), (0x04A, 2), (0x04C, 2), (0x050, 4),
       (0x054, 4), (0x058, 1), (0x059, 1), (0x05A, 2), (0x05C, 2), (0x060, 2), (0x080, 2), (0x082, 2),
       (0x084, 220), (0x160, 2), (0x162, 2), (0x164, 2), (0x166, 2), (0x180, 1), (0x181, 1), (0x184, 4),
       (0x188, 4), (0x18C, 2), (0x190, 1), (0x191, 1), (0x192, 2), (0x194, 4), (0x19C, 1), (0x204, 4),
       (0x208, 4), (0x280, 64)],
     rm_SECTIONS = [meta 0x000 128 (0, 14) (0, 2), meta 0x080 256 (14, 14) (2, 2),
       meta 0x180 128 (14, 18) (2, 6), meta 0x200 128 (18, 18) (6, 6), meta 0x280 64 (18, 18) (6, 6)],
     rm_CMP_RULES = [cmpr 0x010 0x301 1, cmpr 0x010 0x101 249, cmpr 0x011 0x101 3, cmpr 0x020 0x54 36,
       cmpr 0x024 0x254 32, cmpr 0x028 0x354 32, cmpr 0x028 0x154 36, cmpr 0x028 0x54 44,
       cmpr 0x02C 0x354 32, cmpr 0x02C 0x154 36, cmpr 0x02C 0x254 40, cmpr 0x040 0x252 66,
       cmpr 0x042 0x52 64, cmpr 0x058 0x101 50, cmpr 0x184 0x354 40, cmpr 0x184 0x154 44,
       cmpr 0x18C 0x172 90, cmpr 0x192 0x302 1],
     rm_ALLOWED_RULES = [allow 0x030 [0, 1], allow 0x059 [0, 1], allow 0x180 [0, 1], allow 0x181 [0, 1],
       allow 0x190 [0, 1], allow 0x19C [0, 1]] \<rparr>,
     to_FIELDS = ds, to_hooks = [(0x010, 1, OnIdWrite), (0x011, 1, OnBaudRateIdxWrite),
       (0x012, 2, OnResponseDeadlineUsWrite)] \<rparr>"
  using expand_ConfigRegs expand_CalibRegs expand_ControlRegs expand_TelemetryRegs expand_ProfileRegs
  by (auto simp: derive_table_eval ControlTable_def simp del: One_nat_def add_2_eq_Suc add_2_eq_Suc')

lemma control_table_expands: "expand_table ControlTable = Inr control_out"
  using expand_ControlTable by (auto simp: control_out_def)

lemma control_map_SIZE [simp]: "rm_SIZE control_map = 1024"
  using expand_ControlTable by (auto simp: control_map_def control_out_def)

lemma control_map_SECTIONS: "rm_SECTIONS control_map =
    [meta 0x000 128 (0, 14) (0, 2), meta 0x080 256 (14, 14) (2, 2), meta 0x180 128 (14, 18) (2, 6),
     meta 0x200 128 (18, 18) (6, 6), meta 0x280 64 (18, 18) (6, 6)]"
  using expand_ControlTable by (auto simp: control_map_def control_out_def)

lemma control_map_ALLOWED: "rm_ALLOWED_RULES control_map =
    [allow 0x030 [0, 1], allow 0x059 [0, 1], allow 0x180 [0, 1], allow 0x181 [0, 1], allow 0x190 [0, 1],
     allow 0x19C [0, 1]]"
  using expand_ControlTable by (auto simp: control_map_def control_out_def)

lemma control_map_CMP: "rm_CMP_RULES control_map =
    [cmpr 0x010 0x301 1, cmpr 0x010 0x101 249, cmpr 0x011 0x101 3, cmpr 0x020 0x54 36, cmpr 0x024 0x254 32,
     cmpr 0x028 0x354 32, cmpr 0x028 0x154 36, cmpr 0x028 0x54 44, cmpr 0x02C 0x354 32, cmpr 0x02C 0x154 36,
     cmpr 0x02C 0x254 40, cmpr 0x040 0x252 66, cmpr 0x042 0x52 64, cmpr 0x058 0x101 50, cmpr 0x184 0x354 40,
     cmpr 0x184 0x154 44, cmpr 0x18C 0x172 90, cmpr 0x192 0x302 1]"
  using expand_ControlTable by (auto simp: control_map_def control_out_def)

lemma control_hooks: "to_hooks control_out =
    [(0x010, 1, OnIdWrite), (0x011, 1, OnBaudRateIdxWrite), (0x012, 2, OnResponseDeadlineUsWrite)]"
  using expand_ControlTable by (auto simp: control_out_def)

lemmas addr_eval = addr_const_def section_shape_def packs_layout struct_align_def block_shape_def field_default_def
  osc_const StallResponse_VARIANTS_def Mode_VARIANTS_def BootMode_VARIANTS_def

lemma config_addrs:
  "addr_const ConfigRegs ''common'' ''model_number'' = Some ADDR_MODEL_NUMBER"
  "addr_const ConfigRegs ''common'' ''firmware_version'' = Some ADDR_FIRMWARE_VERSION"
  "addr_const ConfigRegs ''common'' ''hardware_revision'' = Some ADDR_HARDWARE_REVISION"
  "addr_const ConfigRegs ''common'' ''id'' = Some ADDR_ID"
  "addr_const ConfigRegs ''common'' ''baud_rate_idx'' = Some ADDR_BAUD_RATE_IDX"
  "addr_const ConfigRegs ''common'' ''response_deadline_us'' = Some ADDR_RESPONSE_DEADLINE_US"
  "addr_const ConfigRegs ''pos_limits'' ''pos_min_phys_urad'' = Some ADDR_POS_MIN_PHYS_URAD"
  "addr_const ConfigRegs ''pos_limits'' ''pos_max_phys_urad'' = Some ADDR_POS_MAX_PHYS_URAD"
  "addr_const ConfigRegs ''pos_limits'' ''pos_min_soft_urad'' = Some ADDR_POS_MIN_SOFT_URAD"
  "addr_const ConfigRegs ''pos_limits'' ''pos_max_soft_urad'' = Some ADDR_POS_MAX_SOFT_URAD"
  "addr_const ConfigRegs ''thermal'' ''winding_cutoff_cc'' = Some ADDR_WINDING_CUTOFF_CC"
  "addr_const ConfigRegs ''thermal'' ''winding_recover_cc'' = Some ADDR_WINDING_RECOVER_CC"
  "addr_const ConfigRegs ''ctrl_pos'' ''max_effort'' = Some ADDR_MAX_EFFORT"
  "addr_const ConfigRegs ''calibration'' ''vdd_mv'' = Some ADDR_VDD_MV"
  by (simp_all add: addr_eval ConfigRegs_def ConfigCommon_def ConfigPosLimits_def ConfigStall_def ConfigThermal_def
      ConfigControlPosition_def ConfigCalibration_def del: One_nat_def add_2_eq_Suc add_2_eq_Suc')

lemma control_addrs:
  "addr_const ControlRegs ''lifecycle'' ''torque_enable'' = Some ADDR_TORQUE_ENABLE"
  "addr_const ControlRegs ''system'' ''boot_mode'' = Some ADDR_BOOT_MODE"
  "addr_const TelemetryRegs ''common'' ''fault_flags'' = Some ADDR_FAULT_FLAGS"
  "addr_const TelemetryRegs ''common'' ''status_flags'' = Some ADDR_STATUS_FLAGS"
  by (simp_all add: addr_eval ControlRegs_def ControlLifecycle_def ControlStreaming_def ControlSystem_def
      TelemetryRegs_def TelemetryCommon_def TelemetryMode_def TelemetryConverted_def TelemetryIntermediaries_def
      TelemetryRaw_def del: One_nat_def add_2_eq_Suc add_2_eq_Suc')

lemma control_map_WRITABLE: "rm_WRITABLE control_map = WRITABLE_WORDS 1024
    [(0x010, 1), (0x011, 1), (0x012, 2), (0x020, 4), (0x024, 4), (0x028, 4), (0x02C, 4), (0x030, 1),
     (0x032, 2), (0x034, 4), (0x038, 2), (0x03A, 2), (0x03C, 2), (0x03E, 2), (0x040, 2), (0x042, 2),
     (0x044, 2), (0x048, 2), (0x04A, 2), (0x04C, 2), (0x050, 4), (0x054, 4), (0x058, 1), (0x059, 1),
     (0x05A, 2), (0x05C, 2), (0x060, 2), (0x080, 2), (0x082, 2), (0x084, 220), (0x160, 2), (0x162, 2),
     (0x164, 2), (0x166, 2), (0x180, 1), (0x181, 1), (0x184, 4), (0x188, 4), (0x18C, 2), (0x190, 1),
     (0x191, 1), (0x192, 2), (0x194, 4), (0x19C, 1), (0x204, 4), (0x208, 4), (0x280, 64)]"
  using expand_ControlTable by (auto simp: control_map_def control_out_def)

lemma control_writable: "writable control_map a \<longleftrightarrow> marks
    [(0x010, 1), (0x011, 1), (0x012, 2), (0x020, 4), (0x024, 4), (0x028, 4), (0x02C, 4), (0x030, 1),
     (0x032, 2), (0x034, 4), (0x038, 2), (0x03A, 2), (0x03C, 2), (0x03E, 2), (0x040, 2), (0x042, 2),
     (0x044, 2), (0x048, 2), (0x04A, 2), (0x04C, 2), (0x050, 4), (0x054, 4), (0x058, 1), (0x059, 1),
     (0x05A, 2), (0x05C, 2), (0x060, 2), (0x080, 2), (0x082, 2), (0x084, 220), (0x160, 2), (0x162, 2),
     (0x164, 2), (0x166, 2), (0x180, 1), (0x181, 1), (0x184, 4), (0x188, 4), (0x18C, 2), (0x190, 1),
     (0x191, 1), (0x192, 2), (0x194, 4), (0x19C, 1), (0x204, 4), (0x208, 4), (0x280, 64)] a"
proof -
  have "bitset (rm_WRITABLE control_map) a \<longleftrightarrow> marks
    [(0x010, 1), (0x011, 1), (0x012, 2), (0x020, 4), (0x024, 4), (0x028, 4), (0x02C, 4), (0x030, 1),
     (0x032, 2), (0x034, 4), (0x038, 2), (0x03A, 2), (0x03C, 2), (0x03E, 2), (0x040, 2), (0x042, 2),
     (0x044, 2), (0x048, 2), (0x04A, 2), (0x04C, 2), (0x050, 4), (0x054, 4), (0x058, 1), (0x059, 1),
     (0x05A, 2), (0x05C, 2), (0x060, 2), (0x080, 2), (0x082, 2), (0x084, 220), (0x160, 2), (0x162, 2),
     (0x164, 2), (0x166, 2), (0x180, 1), (0x181, 1), (0x184, 4), (0x188, 4), (0x18C, 2), (0x190, 1),
     (0x191, 1), (0x192, 2), (0x194, 4), (0x19C, 1), (0x204, 4), (0x208, 4), (0x280, 64)] a"
    unfolding control_map_WRITABLE by (rule writable_words) (auto simp: marks_def)
  then show ?thesis by (simp add: writable_def bitset_def)
qed

lemma control_map_sorted: "map_sorted control_map"
  using derive_map_ok(4) [OF control_table_expands] by (simp add: control_map_def ControlTable_def TABLE_SIZE_def)

text \<open>C8. What the table derive emits is what the structures declare. Whenever expansion succeeds, the
  declared fields tile the table without a gap, a byte is writable in the emitted bit mask exactly when
  the field it belongs to is neither skipped nor read-only, and both rule tables are in address order,
  on which the early exit of validation relies.\<close>

theorem derive_emits_declared_map:
  assumes "expand_table td = Inr out" "td_size td < 65536"
  shows "length (table_rw_bytes td) = td_size td \<and> rm_SIZE (to_map out) = td_size td \<and>
    (\<forall>a. writable (to_map out) a \<longleftrightarrow> a < td_size td \<and> table_rw_bytes td ! a) \<and> map_sorted (to_map out) \<and>
    sorted (map (\<lambda>r. unat (cmp_addr r)) (rm_CMP_RULES (to_map out))) \<and>
    sorted (map (\<lambda>r. unat (alw_addr r)) (rm_ALLOWED_RULES (to_map out)))"
  using derive_map_ok [OF assms] by simp

theorem derive_emits_declared_map_witness:
  "length (table_rw_bytes ControlTable) = 1024 \<and> (writable control_map 0x10 \<longleftrightarrow> table_rw_bytes ControlTable ! 0x10) \<and>
   \<not> writable control_map 0x400"
  using derive_emits_declared_map [OF control_table_expands]
  by (simp add: ControlTable_def TABLE_SIZE_def control_map_def)

end
