(* ===== verification/Core_Regions.thy ===== *)
theory Core_Regions
  imports Core_Table
begin

text \<open>
  \<open>core/src/regions/\<close> at run time: named registers of the raw table image, the boot-time seeding of
  identity and defaults, the read-profile span words and the field-write hooks that forward committed
  values to the bus. The table is its raw byte image; a named register is the byte or little-endian word
  at its address.
\<close>

subsection \<open>Named registers\<close>

definition reg8 :: "bytes \<Rightarrow> u16 \<Rightarrow> u8" where "reg8 mem a = mem ! unat a"

definition reg16 :: "bytes \<Rightarrow> u16 \<Rightarrow> u16" where
  "reg16 mem a = le16 (mem ! unat a) (mem ! (unat a + 1))"

definition set_reg8 :: "u16 \<Rightarrow> u8 \<Rightarrow> bytes \<Rightarrow> bytes" where "set_reg8 a v mem = mem[unat a := v]"

datatype boot_mode = BootApp | BootBootloader

text \<open>The enum rule on \<open>boot_mode\<close> admits the bytes 0 and 1 only.\<close>

definition boot_mode_of :: "u8 \<Rightarrow> boot_mode" where
  "boot_mode_of b = (if b = 0 then BootApp else BootBootloader)"

text \<open>Every \<open>bool\<close> and enum byte of the table holds a listed discriminant; constructing one from any other
  byte would be undefined behaviour.\<close>

definition enums_ok :: "bytes \<Rightarrow> bool" where
  "enums_ok mem \<longleftrightarrow>
     list_all (\<lambda>r. mem ! unat (alw_addr r) \<in> set (alw_allowed r)) (rm_ALLOWED_RULES control_map)"

subsection \<open>Read profiles\<close>

definition span_word :: "u16 \<Rightarrow> u8 \<Rightarrow> u16" where
  "span_word addr count = push_bit 6 addr OR (ucast count AND 0x3F)"

definition span_of :: "u16 \<Rightarrow> (u16 \<times> u16) option" where
  "span_of word = (let count = word AND 0x3F in if count = 0 then None else Some (drop_bit 6 word, count))"

definition slot_words :: "bytes \<Rightarrow> u8 \<Rightarrow> u16 list option" where
  "slot_words mem slot =
     (if slot \<ge> PROFILE_SLOTS then None
      else let at = unat slot * SPANS_PER_SLOT
           in Some (map (\<lambda>k. reg16 mem (PROFILE_BASE_ADDR + of_nat (2 * (at + k)))) [0..<SPANS_PER_SLOT]))"

subsection \<open>Field-write hooks\<close>

text \<open>What the dispatcher asks of the bus, in call order.\<close>

datatype reply_event =
    EvStatus result_code bool bytes
  | EvGather result_code bool "bytes list"
  | EvStageId u8
  | EvSetId u8
  | EvStageBaud baud_rate
  | EvSetResponseDeadline u16
  | EvStageReboot boot_mode
  | EvBeginClockCal u16 u8

definition on_id_write :: "u8 \<Rightarrow> reply_event list" where
  "on_id_write v = [EvStageId v]"

definition on_baud_rate_idx_write :: "u8 \<Rightarrow> reply_event list" where
  "on_baud_rate_idx_write v = (case baud_from_idx v of Some b \<Rightarrow> [EvStageBaud b] | None \<Rightarrow> [])"

definition on_response_deadline_us_write :: "u16 \<Rightarrow> reply_event list" where
  "on_response_deadline_us_write v = [EvSetResponseDeadline v]"

definition run_hook :: "hook \<Rightarrow> bytes \<Rightarrow> reply_event list" where
  "run_hook h v =
     (case h of
        OnIdWrite \<Rightarrow> on_id_write (v ! 0)
      | OnBaudRateIdxWrite \<Rightarrow> on_baud_rate_idx_write (v ! 0)
      | OnResponseDeadlineUsWrite \<Rightarrow> on_response_deadline_us_write (le16 (v ! 0) (v ! 1)))"

definition dispatch_events :: "bytes \<Rightarrow> u16 \<Rightarrow> u16 \<Rightarrow> reply_event list" where
  "dispatch_events mem addr len = dispatch_hooks run_hook (to_hooks control_out) mem addr len"

subsection \<open>Seeding\<close>

definition FIRMWARE_VERSION :: u8 where [osc_const]: "FIRMWARE_VERSION = 1"

record config_defaults =
  cd_pos_min_phys_urad :: u32
  cd_pos_max_phys_urad :: u32
  cd_vdd_mv :: u16
  cd_id :: u8
  cd_baud :: baud_rate
  cd_response_deadline_us :: u16

definition table_new :: bytes where "table_new = replicate TABLE_SIZE 0"

definition seed_config_defaults :: "config_defaults \<Rightarrow> bytes \<Rightarrow> bytes" where
  "seed_config_defaults d mem =
     (let m1 = put (unat ADDR_POS_MIN_PHYS_URAD) (le32_bytes (cd_pos_min_phys_urad d)) mem;
          m2 = put (unat ADDR_POS_MAX_PHYS_URAD) (le32_bytes (cd_pos_max_phys_urad d)) m1;
          m3 = put (unat ADDR_POS_MIN_SOFT_URAD) (le32_bytes (cd_pos_min_phys_urad d)) m2;
          m4 = put (unat ADDR_POS_MAX_SOFT_URAD) (le32_bytes (cd_pos_max_phys_urad d)) m3;
          m5 = put (unat ADDR_VDD_MV) (le16_bytes (cd_vdd_mv d)) m4;
          m6 = set_reg8 ADDR_ID (cd_id d) m5;
          m7 = set_reg8 ADDR_BAUD_RATE_IDX (baud_as_idx (cd_baud d)) m6
      in put (unat ADDR_RESPONSE_DEADLINE_US) (le16_bytes (cd_response_deadline_us d)) m7)"

definition seed_identity :: "u16 \<Rightarrow> u8 \<Rightarrow> bytes \<Rightarrow> bytes" where
  "seed_identity model hw_rev mem =
     set_reg8 ADDR_FIRMWARE_VERSION FIRMWARE_VERSION
       (set_reg8 ADDR_HARDWARE_REVISION hw_rev (put (unat ADDR_MODEL_NUMBER) (le16_bytes model) mem))"

subsection \<open>Span words\<close>

lemma word_high_bits_clear:
  assumes "unat (w :: 'a::len word) < 2 ^ k" "k \<le> n" shows "\<not> bit w n"
proof -
  have "take_bit k (unat w) = unat w" using assms(1) by (rule take_bit_nat_eq_self)
  then have "bit (unat w) n \<longleftrightarrow> n < k \<and> bit (unat w) n" using bit_take_bit_iff [of k "unat w" n] by simp
  then have "\<not> bit (unat w) n" using assms(2) by simp
  then show ?thesis by (auto simp: bit_unsigned_iff dest: bit_imp_le_length)
qed

lemma word16_and_3F_bits: "bit ((w :: u16) AND 0x3F) n \<longleftrightarrow> n < 6 \<and> bit w n"
proof -
  have e: "(0x3F :: u16) = mask 6" by (simp add: mask_eq_exp_minus_1)
  show ?thesis unfolding e bit_and_iff bit_mask_iff by auto
qed

lemma span_of_span_word:
  assumes "unat addr < 1024" "unat count < 64" "count \<noteq> 0"
  shows "span_of (span_word addr count) = Some (addr, ucast count)"
proof -
  have hi: "n < 10" if "bit addr n" for n
    using word_high_bits_clear [of addr 10 n] assms(1) that by (cases "n < 10") auto
  have lo: "n < 6" if "bit count n" for n
    using word_high_bits_clear [of count 6 n] assms(2) that by (cases "n < 6") auto
  have c: "span_word addr count AND 0x3F = ucast count"
    by (rule bit_word_eqI)
      (auto simp: word16_and_3F_bits span_word_def bit_or_iff bit_push_bit_iff bit_unsigned_iff not_less
        dest: lo dest: bit_imp_le_length)
  have "drop_bit 6 (span_word addr count) = addr"
    by (rule bit_word_eqI)
      (auto simp: span_word_def bit_drop_bit_eq bit_or_iff bit_push_bit_iff word16_and_3F_bits
        dest: hi dest: bit_imp_le_length)
  moreover have "(ucast count :: u16) \<noteq> 0"
  proof
    assume "(ucast count :: u16) = 0"
    moreover have "ucast (ucast count :: u16) = count" by (rule bit_word_eqI) (auto simp: bit_simps)
    ultimately show False using assms(3) by simp
  qed
  ultimately show ?thesis by (simp add: span_of_def c Let_def)
qed

end
