(* ===== verification/Core_Persist.thy ===== *)
theory Core_Persist
  imports Core_Regions Osc_Crc
begin

text \<open>
  \<open>core/src/persist.rs\<close>, the saved-image codec and the boot-time A/B pick, and
  \<open>servo-ch32/src/providers/config_store.rs\<close>, the flash store behind MGMT SAVE and FACTORY. The flash
  controller (\<open>hal/flash\<close>, registers and the memory-mapped window) is the argument \<open>flash_ops\<close>; what the
  store relies on is that a page operation leaves the other slot's page alone (\<open>flash_ok\<close>). Writes are
  not assumed to succeed: the store reads its slot back.
\<close>

subsection \<open>The image\<close>

definition CONFIG_LEN :: nat where "CONFIG_LEN = unat CONFIG_REGION_SIZE"
definition PROFILE_LEN :: nat where "PROFILE_LEN = unat PROFILE_REGION_SIZE"
definition HEADER_LEN :: nat where [osc_const]: "HEADER_LEN = 8"
definition IMAGE_LEN :: nat where "IMAGE_LEN = HEADER_LEN + CONFIG_LEN + PROFILE_LEN"
definition IMAGE_MAGIC :: u8 where [osc_const]: "IMAGE_MAGIC = 0x43"
definition IMAGE_VERSION :: u8 where [osc_const]: "IMAGE_VERSION = 1"

datatype slot = SlotA | SlotB

fun slot_other :: "slot \<Rightarrow> slot" where
  "slot_other SlotA = SlotB"
| "slot_other SlotB = SlotA"

record boot_pick =
  bp_next_slot :: slot
  bp_next_seq :: u16
  bp_loaded :: bool

definition header :: "u16 \<Rightarrow> bytes \<Rightarrow> bytes \<Rightarrow> bytes" where
  "header seq config profile =
     (let body_len = of_nat (CONFIG_LEN + PROFILE_LEN) :: u16;
          h0 = replicate HEADER_LEN 0;
          h1 = h0[0 := IMAGE_MAGIC];
          h2 = h1[1 := IMAGE_VERSION];
          h3 = put 2 (le16_bytes seq) h2;
          h4 = put 4 (le16_bytes body_len) h3;
          crc = osc_crc_continue (osc_crc_continue (osc_crc (take 6 h4)) config) profile
      in put 6 (le16_bytes crc) h4)"

definition assemble :: "bytes \<Rightarrow> u16 \<Rightarrow> bytes \<Rightarrow> bytes \<Rightarrow> bytes" where
  "assemble out seq config profile =
     put (HEADER_LEN + CONFIG_LEN) profile (put HEADER_LEN config (put 0 (header seq config profile) out))"

record image =
  im_seq :: u16
  im_config :: bytes
  im_profile :: bytes

definition persisted_byte :: "image \<Rightarrow> u16 \<Rightarrow> u8 option" where
  "persisted_byte im addr =
     (if CONFIG_BASE_ADDR \<le> addr \<and> addr < CONFIG_BASE_ADDR + CONFIG_REGION_SIZE
      then Some (im_config im ! unat (addr - CONFIG_BASE_ADDR))
      else if PROFILE_BASE_ADDR \<le> addr \<and> addr < PROFILE_BASE_ADDR + PROFILE_REGION_SIZE
      then Some (im_profile im ! unat (addr - PROFILE_BASE_ADDR))
      else None)"

definition fields_allowed :: "image \<Rightarrow> bool" where
  "fields_allowed im \<longleftrightarrow>
     list_all (\<lambda>r. case persisted_byte im (alw_addr r) of Some b \<Rightarrow> b \<in> set (alw_allowed r) | None \<Rightarrow> True)
       (rm_ALLOWED_RULES control_map)"

definition image_parse :: "bytes \<Rightarrow> image option" where
  "image_parse slot =
     (case slice_opt slot 0 IMAGE_LEN of
        None \<Rightarrow> None
      | Some bytes \<Rightarrow>
          if bytes ! 0 \<noteq> IMAGE_MAGIC \<or> bytes ! 1 \<noteq> IMAGE_VERSION then None
          else if le16 (bytes ! 4) (bytes ! 5) \<noteq> of_nat (CONFIG_LEN + PROFILE_LEN) then None
          else if osc_crc_continue (osc_crc (take 6 bytes)) (drop HEADER_LEN bytes) \<noteq> le16 (bytes ! 6) (bytes ! 7) then None
          else let im = \<lparr> im_seq = le16 (bytes ! 2) (bytes ! 3),
                          im_config = take CONFIG_LEN (drop HEADER_LEN bytes),
                          im_profile = drop (HEADER_LEN + CONFIG_LEN) bytes \<rparr>
               in if fields_allowed im then Some im else None)"

subsection \<open>Boot\<close>

definition overlay_persistent :: "bytes \<Rightarrow> bytes \<Rightarrow> bytes \<Rightarrow> bytes" where
  "overlay_persistent mem config profile =
     (let skip = unat ADDR_ID
      in put (unat PROFILE_BASE_ADDR) profile (put (unat CONFIG_BASE_ADDR + skip) (drop skip config) mem))"

definition boot_choice :: "image option \<Rightarrow> image option \<Rightarrow> image option \<times> slot" where
  "boot_choice a b =
     (case (a, b) of
        (Some ia, Some ib) \<Rightarrow> if sint (im_seq ia - im_seq ib) > 0 then (Some ia, SlotB) else (Some ib, SlotA)
      | (Some ia, None) \<Rightarrow> (Some ia, SlotB)
      | (None, b) \<Rightarrow> (b, SlotA))"

definition boot_overlay :: "bytes \<Rightarrow> bytes \<Rightarrow> bytes \<Rightarrow> bytes \<times> boot_pick" where
  "boot_overlay mem slot_a slot_b =
     (let (img, next_slot) = boot_choice (image_parse slot_a) (image_parse slot_b)
      in case img of
           Some im \<Rightarrow> (overlay_persistent mem (im_config im) (im_profile im),
             \<lparr> bp_next_slot = next_slot, bp_next_seq = im_seq im + 1, bp_loaded = True \<rparr>)
         | None \<Rightarrow> (mem, \<lparr> bp_next_slot = SlotA, bp_next_seq = 1, bp_loaded = False \<rparr>))"

subsection \<open>The flash store\<close>

record 'f flash_ops =
  fl_erase :: "slot \<Rightarrow> 'f \<Rightarrow> 'f"
  fl_write :: "slot \<Rightarrow> bytes list \<Rightarrow> 'f \<Rightarrow> 'f"
  fl_slot_bytes :: "slot \<Rightarrow> 'f \<Rightarrow> bytes"

record 'f chip_store =
  st_next_slot :: slot
  st_next_seq :: u16
  st_flash :: 'f

definition store_boot_load :: "'f flash_ops \<Rightarrow> bytes \<Rightarrow> 'f chip_store \<Rightarrow> bytes \<times> 'f chip_store" where
  "store_boot_load F mem st =
     (let (mem', pick) = boot_overlay mem (fl_slot_bytes F SlotA (st_flash st)) (fl_slot_bytes F SlotB (st_flash st))
      in (mem', st\<lparr> st_next_slot := bp_next_slot pick, st_next_seq := bp_next_seq pick \<rparr>))"

definition store_save :: "'f flash_ops \<Rightarrow> 'f chip_store \<Rightarrow> bytes \<Rightarrow> bytes \<Rightarrow> 'f chip_store \<times> bool" where
  "store_save F st config profile =
     (let s = st_next_slot st;
          h = header (st_next_seq st) config profile;
          f1 = fl_erase F s (st_flash st);
          f2 = fl_write F s [h, config, profile] f1;
          stored = fl_slot_bytes F s f2;
          intact = (take HEADER_LEN stored = h \<and> take CONFIG_LEN (drop HEADER_LEN stored) = config \<and>
                    drop (HEADER_LEN + CONFIG_LEN) stored = profile)
      in if \<not> intact then (st\<lparr> st_flash := f2 \<rparr>, False)
         else (st\<lparr> st_flash := f2, st_next_slot := slot_other s, st_next_seq := st_next_seq st + 1 \<rparr>, True))"

definition store_wipe :: "'f flash_ops \<Rightarrow> 'f chip_store \<Rightarrow> 'f chip_store \<times> bool" where
  "store_wipe F st =
     (let f = fl_erase F SlotB (fl_erase F SlotA (st_flash st))
      in if list_ex (\<lambda>s. list_ex (\<lambda>b. b \<noteq> 0xFF) (fl_slot_bytes F s f)) [SlotA, SlotB]
         then (st\<lparr> st_flash := f \<rparr>, False)
         else (st\<lparr> st_flash := f, st_next_slot := SlotA, st_next_seq := 1 \<rparr>, True))"

text \<open>What the store relies on: slots are read as whole images and a page operation on one slot leaves
  the other slot's page alone.\<close>

definition flash_ok :: "'f flash_ops \<Rightarrow> bool" where
  "flash_ok F \<longleftrightarrow> (\<forall>s f. length (fl_slot_bytes F s f) = IMAGE_LEN) \<and>
     (\<forall>s f. fl_slot_bytes F (slot_other s) (fl_erase F s f) = fl_slot_bytes F (slot_other s) f) \<and>
     (\<forall>s d f. fl_slot_bytes F (slot_other s) (fl_write F s d f) = fl_slot_bytes F (slot_other s) f)"

text \<open>A flash that keeps this contract: two pages, programming stores the concatenated segments.\<close>

definition ram_flash :: "(bytes \<times> bytes) flash_ops" where
  "ram_flash = \<lparr>
     fl_erase = (\<lambda>s f. case s of SlotA \<Rightarrow> (replicate IMAGE_LEN 0xFF, snd f) | SlotB \<Rightarrow> (fst f, replicate IMAGE_LEN 0xFF)),
     fl_write = (\<lambda>s d f. let img = take IMAGE_LEN (concat d @ replicate IMAGE_LEN 0xFF)
                         in case s of SlotA \<Rightarrow> (img, snd f) | SlotB \<Rightarrow> (fst f, img)),
     fl_slot_bytes = (\<lambda>s f. take IMAGE_LEN ((case s of SlotA \<Rightarrow> fst f | SlotB \<Rightarrow> snd f) @ replicate IMAGE_LEN 0xFF)) \<rparr>"

lemma ram_flash_ok: "flash_ok ram_flash"
  unfolding flash_ok_def ram_flash_def by (auto simp: Let_def split: slot.split)

lemma slot_other_other [simp]: "slot_other (slot_other s) = s"
  by (cases s) simp_all

lemma region_lens [simp]: "CONFIG_LEN = 128" "PROFILE_LEN = 64" "IMAGE_LEN = 200"
  by (simp_all add: CONFIG_LEN_def PROFILE_LEN_def IMAGE_LEN_def osc_const)

subsection \<open>Images\<close>

definition image_prefix :: "u16 \<Rightarrow> bytes" where
  "image_prefix seq = [IMAGE_MAGIC, IMAGE_VERSION] @ le16_bytes seq @ le16_bytes 192"

lemma replicate_8: "replicate 8 x = [x, x, x, x, x, x, x, x]"
  by (simp add: numeral_eq_Suc)

lemma header_alt:
  "header seq c p = image_prefix seq @ le16_bytes (osc_crc (image_prefix seq @ c @ p))"
  by (simp add: header_def image_prefix_def put_def osc_const le16_bytes_def osc_crc_def replicate_8 Let_def
      osc_crc_continue_append)

lemma length_image_prefix [simp]: "length (image_prefix seq) = 6"
  by (simp add: image_prefix_def)

lemma length_header [simp]: "length (header seq c p) = 8"
  by (simp add: header_alt)

definition image_bytes :: "image \<Rightarrow> bytes" where
  "image_bytes im = header (im_seq im) (im_config im) (im_profile im) @ im_config im @ im_profile im"

definition image_wf :: "image \<Rightarrow> bool" where
  "image_wf im \<longleftrightarrow> length (im_config im) = 128 \<and> length (im_profile im) = 64 \<and> fields_allowed im"

lemma assemble_alt:
  assumes "length out = 200" "length c = 128" "length p = 64"
  shows "assemble out seq c p = image_bytes \<lparr> im_seq = seq, im_config = c, im_profile = p \<rparr>"
  using assms by (simp add: assemble_def image_bytes_def put_def osc_const)

lemma split_8:
  assumes "8 \<le> length bs"
  obtains b0 b1 b2 b3 b4 b5 b6 b7 where "bs = [b0, b1, b2, b3, b4, b5, b6, b7] @ drop 8 bs"
proof -
  have "bs = take 4 bs @ take 4 (drop 4 bs) @ drop 8 bs" by (simp flip: take_add add: append_assoc [symmetric] del: append_assoc)
  moreover obtain a b c d where "take 4 bs = [a, b, c, d]" using length_4_ex [of "take 4 bs"] assms by auto
  moreover obtain e f g h where "take 4 (drop 4 bs) = [e, f, g, h]" using length_4_ex [of "take 4 (drop 4 bs)"] assms by auto
  ultimately show ?thesis using that [of a b c d e f g h] by simp
qed

lemma le16_eq_iff: "le16 a b = w \<longleftrightarrow> [a, b] = le16_bytes w"
proof
  assume "[a, b] = le16_bytes w"
  then show "le16 a b = w" by (simp add: le16_bytes_def)
qed (simp add: le16_bytes_le16 [symmetric])

lemma four_append:
  "length a = length a' \<Longrightarrow> length b = length b' \<Longrightarrow> length c = length c' \<Longrightarrow>
   a @ b @ c @ d = a' @ b' @ c' @ d' \<longleftrightarrow> a = a' \<and> b = b' \<and> c = c' \<and> d = d'"
  by simp

lemma le16_192: "le16 a b = 192 \<longleftrightarrow> a = 192 \<and> b = 0"
  by (simp add: le16_eq_iff le16_bytes_def)

lemma image_parse_iff:
  "image_parse slot = Some im \<longleftrightarrow> 200 \<le> length slot \<and> take 200 slot = image_bytes im \<and> image_wf im"
proof (cases "200 \<le> length slot")
  case True
  define bs where "bs = take 200 slot"
  have len: "length bs = 200" using True by (simp add: bs_def)
  obtain b0 b1 b2 b3 b4 b5 b6 b7 where "bs = [b0, b1, b2, b3, b4, b5, b6, b7] @ drop 8 bs"
    by (rule split_8 [of bs]) (use len in simp_all)
  then obtain body where bs: "bs = [b0, b1, b2, b3, b4, b5, b6, b7] @ body" and body: "length body = 192"
    using len that [of "drop 8 bs"] by simp
  define c p where "c = take 128 body" and "p = drop 128 body"
  have cp: "body = c @ p" "length c = 128" "length p = 64" using body by (simp_all add: c_def p_def)
  have sl: "slice_opt slot 0 IMAGE_LEN = Some bs" using True by (simp add: slice_opt_def bs_def)
  define im0 where "im0 = \<lparr> im_seq = le16 b2 b3, im_config = c, im_profile = p \<rparr>"
  define ok where "ok \<longleftrightarrow> b0 = IMAGE_MAGIC \<and> b1 = IMAGE_VERSION \<and> b4 = 192 \<and> b5 = 0 \<and>
    le16 b6 b7 = osc_crc (image_prefix (le16 b2 b3) @ c @ p) \<and> fields_allowed im0"
  have crc: "osc_crc_continue (osc_crc (take 6 bs)) (drop HEADER_LEN bs) = osc_crc (image_prefix (le16 b2 b3) @ c @ p)"
    if "b0 = IMAGE_MAGIC" "b1 = IMAGE_VERSION" "b4 = 192" "b5 = 0"
    using that by (simp add: bs cp osc_crc_def osc_crc_continue_append image_prefix_def le16_bytes_le16 HEADER_LEN_def
        le16_bytes_def)
  have parse: "image_parse slot = (if ok then Some im0 else None)"
    unfolding image_parse_def sl
    using crc by (auto simp: bs cp ok_def im0_def le16_192 HEADER_LEN_def Let_def)
  have "image_bytes im = bs \<and> image_wf im \<longleftrightarrow> ok \<and> im = im0"
  proof
    assume L: "image_bytes im = bs \<and> image_wf im"
    obtain sq ic ip where im: "im = \<lparr> im_seq = sq, im_config = ic, im_profile = ip \<rparr>" by (cases im)
    have "image_prefix sq @ le16_bytes (osc_crc (image_prefix sq @ ic @ ip)) @ ic @ ip = [b0, b1, b2, b3, b4, b5] @ [b6, b7] @ c @ p"
      using L by (simp add: image_bytes_def header_alt im bs cp)
    then have "image_prefix sq = [b0, b1, b2, b3, b4, b5]" "le16_bytes (osc_crc (image_prefix sq @ ic @ ip)) = [b6, b7]"
        "ic = c" "ip = p"
      using four_append [of "image_prefix sq" "[b0, b1, b2, b3, b4, b5]"
          "le16_bytes (osc_crc (image_prefix sq @ ic @ ip))" "[b6, b7]" ic c ip p] L cp
      by (simp_all add: image_wf_def im)
    then show "ok \<and> im = im0"
      using L by (auto simp: ok_def im im0_def image_prefix_def le16_bytes_def image_wf_def)
  next
    assume "ok \<and> im = im0"
    then show "image_bytes im = bs \<and> image_wf im"
      using cp by (simp add: ok_def im0_def image_bytes_def header_alt image_wf_def bs le16_eq_iff)
        (simp add: image_prefix_def le16_bytes_def)
  qed
  then show ?thesis using True by (auto simp: parse bs_def)
next
  case False
  then show ?thesis by (simp add: image_parse_def slice_opt_def)
qed


lemma crc_update_inject_byte: "crc_update c a = crc_update c b \<longleftrightarrow> a = b"
  using crc_pair_inject [of c a 0 b 0] by (simp add: crc_update_inject_state)

lemma osc_crc_inject_byte: "osc_crc (xs @ a # ys) = osc_crc (xs @ b # ys) \<longleftrightarrow> a = b"
  by (simp add: osc_crc_def osc_crc_continue_append osc_crc_continue_inject crc_update_inject_byte)

lemma osc_crc_update_byte: "j < length m \<Longrightarrow> osc_crc (m[j := b]) = osc_crc m \<longleftrightarrow> m ! j = b"
  using osc_crc_inject_byte [of "take j m" b "drop (Suc j) m" "m ! j"]
  by (auto simp: upd_conv_take_nth_drop id_take_nth_drop [symmetric])

lemma image_bytes_crc:
  "take 2 (drop 6 (image_bytes im)) = le16_bytes (osc_crc (take 6 (image_bytes im) @ drop 8 (image_bytes im)))"
  by (simp add: image_bytes_def header_alt)

lemma image_corruption:
  assumes a: "image_bytes im' = (image_bytes im)[i := b]" and i: "i < length (image_bytes im)"
  shows "image_bytes im ! i = b"
proof -
  let ?m = "image_bytes im" and ?m' = "image_bytes im'"
  have len: "8 \<le> length ?m" by (simp add: image_bytes_def)
  consider "i < 6" | "6 \<le> i" "i < 8" | "8 \<le> i" by linarith
  then show ?thesis
  proof cases
    case 1
    have "take 6 ?m' @ drop 8 ?m' = (take 6 ?m @ drop 8 ?m)[i := b]"
      using 1 len by (simp add: a list_update_append take_update_swap drop_update_cancel)
    moreover have "take 2 (drop 6 ?m') = take 2 (drop 6 ?m)" using 1 by (simp add: a drop_update_cancel)
    ultimately show ?thesis
      using 1 len osc_crc_update_byte [of i "take 6 ?m @ drop 8 ?m" b]
      by (simp add: image_bytes_crc nth_append)
  next
    case 2
    have "take 6 ?m' @ drop 8 ?m' = take 6 ?m @ drop 8 ?m" using 2 by (simp add: a drop_update_cancel)
    then have "take 2 (drop 6 ?m') = take 2 (drop 6 ?m)" by (simp add: image_bytes_crc)
    then have "take 2 (drop 6 ?m') ! (i - 6) = take 2 (drop 6 ?m) ! (i - 6)" by simp
    then show ?thesis using 2 len i by (simp add: a)
  next
    case 3
    then have idx: "\<not> i - 2 < 6" "i - 2 - 6 = i - 8" by simp_all
    have "take 6 ?m' @ drop 8 ?m' = (take 6 ?m @ drop 8 ?m)[i - 2 := b]"
      using 3 len idx by (simp add: a list_update_append drop_update_swap)
    moreover have "take 2 (drop 6 ?m') = take 2 (drop 6 ?m)" using 3 len by (simp add: a drop_update_swap)
    ultimately show ?thesis
      using 3 len i idx osc_crc_update_byte [of "i - 2" "take 6 ?m @ drop 8 ?m" b]
      by (simp add: image_bytes_crc nth_append)
  qed
qed

lemma image_parse_corrupt:
  assumes "image_parse slot = Some im" "i < 200" "slot ! i \<noteq> b"
  shows "image_parse (slot[i := b]) = None"
proof (rule ccontr)
  assume "image_parse (slot[i := b]) \<noteq> None"
  then obtain im' where im': "image_parse (slot[i := b]) = Some im'" by auto
  have "image_bytes im' = (image_bytes im)[i := b]" "length (image_bytes im) = 200" "image_bytes im ! i = slot ! i"
    using assms im' by (auto simp: image_parse_iff take_update_swap dest: arg_cong [of _ _ length] arg_cong [of _ _ "\<lambda>x. x ! i"])
  then show False using image_corruption [of im' im i b] assms by simp
qed


subsection \<open>The store against the boot pick\<close>

abbreviation slot_image :: "'f flash_ops \<Rightarrow> 'f \<Rightarrow> slot \<Rightarrow> image option" where
  "slot_image F f s \<equiv> image_parse (fl_slot_bytes F s f)"

abbreviation slot_choice :: "'f flash_ops \<Rightarrow> 'f \<Rightarrow> image option \<times> slot" where
  "slot_choice F f \<equiv> boot_choice (slot_image F f SlotA) (slot_image F f SlotB)"

text \<open>The store's state is what a boot on the same flash would compute.\<close>

definition store_coherent :: "'f flash_ops \<Rightarrow> 'f chip_store \<Rightarrow> bool" where
  "store_coherent F st \<longleftrightarrow>
     (case slot_choice F (st_flash st) of
        (Some im, s) \<Rightarrow> st_next_slot st = s \<and> st_next_seq st = im_seq im + 1
      | (None, s) \<Rightarrow> st_next_slot st = SlotA \<and> st_next_seq st = 1)"

definition boot_table :: "'f flash_ops \<Rightarrow> 'f \<Rightarrow> bytes \<Rightarrow> bytes" where
  "boot_table F f mem = fst (boot_overlay mem (fl_slot_bytes F SlotA f) (fl_slot_bytes F SlotB f))"

lemma boot_table_alt:
  "boot_table F f mem = (case fst (slot_choice F f) of
     Some im \<Rightarrow> overlay_persistent mem (im_config im) (im_profile im) | None \<Rightarrow> mem)"
  by (simp add: boot_table_def boot_overlay_def split: prod.split option.split)

lemma boot_load_coherent: "store_coherent F (snd (store_boot_load F mem st))"
  by (auto simp: store_coherent_def store_boot_load_def boot_overlay_def split: prod.split option.split)

lemma boot_choice_slot: "slot_choice F f = (Some im, s) \<Longrightarrow> slot_image F f (slot_other s) = Some im"
  by (auto simp: boot_choice_def split: option.splits if_splits)

lemma coherent_other:
  assumes "store_coherent F st" "slot_image F (st_flash st) (slot_other (st_next_slot st)) = Some old"
  shows "slot_choice F (st_flash st) = (Some old, st_next_slot st) \<and> st_next_seq st = im_seq old + 1"
proof (cases "slot_choice F (st_flash st)")
  case (Pair c s)
  show ?thesis
  proof (cases c)
    case None
    then have "slot_image F (st_flash st) SlotA = None \<and> slot_image F (st_flash st) SlotB = None"
      using Pair by (auto simp: boot_choice_def split: option.splits if_splits)
    then show ?thesis using assms(2) by (cases "st_next_slot st") auto
  next
    case (Some im)
    with Pair assms have "st_next_slot st = s" "st_next_seq st = im_seq im + 1" by (simp_all add: store_coherent_def)
    with boot_choice_slot [of F "st_flash st" im s] Pair Some assms(2) show ?thesis by simp
  qed
qed

lemma choice_of_new:
  assumes co: "store_coherent F st" and new: "slot_image F f' (st_next_slot st) = Some im"
    and seq: "im_seq im = st_next_seq st"
    and keep: "slot_image F f' (slot_other (st_next_slot st)) = slot_image F (st_flash st) (slot_other (st_next_slot st))"
  shows "slot_choice F f' = (Some im, slot_other (st_next_slot st))"
proof (cases "slot_image F (st_flash st) (slot_other (st_next_slot st))")
  case None
  then show ?thesis using new keep by (cases "st_next_slot st") (auto simp: boot_choice_def)
next
  case (Some old)
  with coherent_other [OF co] have "im_seq im = im_seq old + 1" using seq by simp
  then have d: "im_seq im - im_seq old = 1" "im_seq old - im_seq im = - 1" by simp_all
  show ?thesis using new keep Some by (cases "st_next_slot st") (auto simp: boot_choice_def d)
qed

lemma choice_of_torn:
  assumes co: "store_coherent F st" and torn: "slot_image F f' (st_next_slot st) = None"
    and keep: "slot_image F f' (slot_other (st_next_slot st)) = slot_image F (st_flash st) (slot_other (st_next_slot st))"
  shows "fst (slot_choice F f') = fst (slot_choice F (st_flash st))"
proof (cases "slot_image F (st_flash st) (slot_other (st_next_slot st))")
  case None
  have "fst (slot_choice F (st_flash st)) = None"
  proof (rule ccontr)
    assume "fst (slot_choice F (st_flash st)) \<noteq> None"
    then obtain im s where c: "slot_choice F (st_flash st) = (Some im, s)" by (cases "slot_choice F (st_flash st)") auto
    then have "st_next_slot st = s" using co by (simp add: store_coherent_def)
    with boot_choice_slot [OF c] None show False by simp
  qed
  moreover have "fst (slot_choice F f') = None"
    using None torn keep by (cases "st_next_slot st") (auto simp: boot_choice_def)
  ultimately show ?thesis by simp
next
  case (Some old)
  then show ?thesis
    using coherent_other [OF co Some] torn keep by (cases "st_next_slot st") (auto simp: boot_choice_def)
qed

text \<open>Whatever page operations hit one slot, however they end, the other slot reads as before.\<close>

fun page_ops :: "'f flash_ops \<Rightarrow> slot \<Rightarrow> bytes list option list \<Rightarrow> 'f \<Rightarrow> 'f" where
  "page_ops F s [] f = f"
| "page_ops F s (None # ops) f = page_ops F s ops (fl_erase F s f)"
| "page_ops F s (Some d # ops) f = page_ops F s ops (fl_write F s d f)"

lemma page_ops_other:
  "flash_ok F \<Longrightarrow> fl_slot_bytes F (slot_other s) (page_ops F s ops f) = fl_slot_bytes F (slot_other s) f"
  by (induction F s ops f rule: page_ops.induct) (simp_all add: flash_ok_def)

lemma save_alt:
  assumes F: "flash_ok F" and save: "store_save F st c p = (st', True)"
  shows "fl_slot_bytes F (st_next_slot st) (st_flash st') = header (st_next_seq st) c p @ c @ p"
    "fl_slot_bytes F (slot_other (st_next_slot st)) (st_flash st') =
       fl_slot_bytes F (slot_other (st_next_slot st)) (st_flash st)"
    "st_next_slot st' = slot_other (st_next_slot st)" "st_next_seq st' = st_next_seq st + 1"
proof -
  let ?h = "header (st_next_seq st) c p"
  let ?b = "fl_slot_bytes F (st_next_slot st) (st_flash st')"
  have "take 8 ?b = ?h" "take 128 (drop 8 ?b) = c" "drop 136 ?b = p"
    using save by (auto simp: store_save_def Let_def HEADER_LEN_def split: if_splits)
  moreover have "?b = take 8 ?b @ take 128 (drop 8 ?b) @ drop 136 ?b"
    using append_take_drop_id [of 8 ?b] append_take_drop_id [of 128 "drop 8 ?b"] by simp
  ultimately show "?b = ?h @ c @ p" by simp
  show "fl_slot_bytes F (slot_other (st_next_slot st)) (st_flash st') =
       fl_slot_bytes F (slot_other (st_next_slot st)) (st_flash st)"
    using F save by (auto simp: store_save_def Let_def flash_ok_def split: if_splits)
  show "st_next_slot st' = slot_other (st_next_slot st)" "st_next_seq st' = st_next_seq st + 1"
    using save by (auto simp: store_save_def Let_def split: if_splits)
qed


text \<open>The image codec. Whatever follows it in the page, an assembled image parses back to its
  sequence number and regions; nothing else parses to them (an accepted slot is byte for byte the
  assembled image of what it parses to); and changing any single byte of an accepted image to another
  value makes it rejected.\<close>

theorem image_round_trip:
  assumes "length out = IMAGE_LEN" "length config = CONFIG_LEN" "length profile = PROFILE_LEN"
    "fields_allowed \<lparr> im_seq = seq, im_config = config, im_profile = profile \<rparr>"
  shows "image_parse (assemble out seq config profile @ rest) =
      Some \<lparr> im_seq = seq, im_config = config, im_profile = profile \<rparr> \<and>
    (\<forall>slot. image_parse slot = Some \<lparr> im_seq = seq, im_config = config, im_profile = profile \<rparr> \<longrightarrow>
       take IMAGE_LEN slot = assemble out seq config profile) \<and>
    (\<forall>i<IMAGE_LEN. \<forall>b. assemble out seq config profile ! i \<noteq> b \<longrightarrow>
       image_parse ((assemble out seq config profile)[i := b]) = None)"
proof -
  let ?im = "\<lparr> im_seq = seq, im_config = config, im_profile = profile \<rparr>"
  have as: "assemble out seq config profile = image_bytes ?im" using assms assemble_alt by simp
  have len: "length (image_bytes ?im) = 200" using assms by (simp add: image_bytes_def)
  have "image_parse (image_bytes ?im @ r) = Some ?im" for r
    using assms len by (simp add: image_parse_iff image_wf_def)
  from this [of rest] this [of "[]"] show ?thesis
    using len image_parse_corrupt [of "image_bytes ?im" ?im] by (auto simp: as image_parse_iff)
qed

lemma blank_fields_allowed: "fields_allowed \<lparr> im_seq = q, im_config = replicate 128 0, im_profile = replicate 64 0 \<rparr>"
  by (simp add: fields_allowed_def control_map_ALLOWED persisted_byte_def osc_const)

theorem image_round_trip_witness:
  "image_parse (assemble (replicate 200 0) 9 (replicate 128 0) (replicate 64 0) @ [0xFF]) =
     Some \<lparr> im_seq = 9, im_config = replicate 128 0, im_profile = replicate 64 0 \<rparr>"
  using image_round_trip [of "replicate 200 0" "replicate 128 0" "replicate 64 0" 9 "[0xFF]"] blank_fields_allowed
  by simp

text \<open>C9. SAVE is durable. When the store reports success, a boot on the resulting flash overlays
  exactly the saved regions, whatever image it would have picked before, also across the wrap of the
  sequence number; and the store's slot and sequence state again agree with what that boot computes.\<close>

theorem save_is_durable:
  assumes F: "flash_ok F" and co: "store_coherent F st"
    and len: "length config = CONFIG_LEN" "length profile = PROFILE_LEN"
    and ok: "fields_allowed \<lparr> im_seq = st_next_seq st, im_config = config, im_profile = profile \<rparr>"
    and save: "store_save F st config profile = (st', True)"
  shows "boot_table F (st_flash st') mem = overlay_persistent mem config profile \<and> store_coherent F st'"
proof -
  let ?im = "\<lparr> im_seq = st_next_seq st, im_config = config, im_profile = profile \<rparr>"
  have "slot_image F (st_flash st') (st_next_slot st) = Some ?im"
    using len ok F by (simp add: save_alt [OF F save] image_parse_iff image_bytes_def image_wf_def)
  from choice_of_new [OF co this] have c: "slot_choice F (st_flash st') = (Some ?im, slot_other (st_next_slot st))"
    by (simp add: save_alt [OF F save])
  then show ?thesis by (simp add: boot_table_alt store_coherent_def save_alt [OF F save])
qed

lemma image_parse_erased: "image_parse (replicate 200 0xFF) = None"
  by (simp add: image_parse_def slice_opt_def IMAGE_MAGIC_def)

lemma ram_save_ok:
  assumes "length c = 128" "length p = 64"
  shows "store_save ram_flash st c p = (fst (store_save ram_flash st c p), True)"
  using assms
  by (cases "st_next_slot st") (auto simp: store_save_def ram_flash_def Let_def HEADER_LEN_def)

definition erased_store :: "(bytes \<times> bytes) chip_store" where
  "erased_store = \<lparr> st_next_slot = SlotA, st_next_seq = 1, st_flash = (replicate 200 0xFF, replicate 200 0xFF) \<rparr>"

lemma erased_store_coherent: "store_coherent ram_flash erased_store"
  by (simp add: store_coherent_def erased_store_def ram_flash_def image_parse_erased boot_choice_def)

theorem save_is_durable_witness:
  "boot_table ram_flash (st_flash (fst (store_save ram_flash erased_store (replicate 128 0) (replicate 64 0)))) table_new =
   overlay_persistent table_new (replicate 128 0) (replicate 64 0)"
  using save_is_durable [OF ram_flash_ok erased_store_coherent _ _ _ ram_save_ok,
      of "replicate 128 0" "replicate 64 0"] blank_fields_allowed by simp




subsection \<open>The overlay\<close>

lemma wipe_boots_defaults:
  assumes "flash_ok F" "store_wipe F st = (st', True)"
  shows "boot_table F (st_flash st') mem = mem \<and> store_coherent F st'"
proof -
  have "image_parse (fl_slot_bytes F s (st_flash st')) = None" for s
  proof -
    have "\<forall>b\<in>set (fl_slot_bytes F s (st_flash st')). b = 0xFF" "length (fl_slot_bytes F s (st_flash st')) = 200"
      using assms by (cases s; auto simp: store_wipe_def Let_def list_ex_iff flash_ok_def split: if_splits)+
    then have "fl_slot_bytes F s (st_flash st') = replicate 200 0xFF" by (metis replicate_eqI)
    then show ?thesis by (simp add: image_parse_erased)
  qed
  then show ?thesis
    using assms(2) by (auto simp: boot_table_alt boot_choice_def store_coherent_def store_wipe_def Let_def split: if_splits)
qed

lemma overlay_nth:
  assumes "length mem = 1024" "length c = 128" "length p = 64" "a < 1024"
  shows "overlay_persistent mem c p ! a =
    (if 0x10 \<le> a \<and> a < 0x80 then c ! a else if 0x280 \<le> a \<and> a < 0x2C0 then p ! (a - 0x280) else mem ! a)"
  using assms by (auto simp: overlay_persistent_def osc_const nth_put)

lemma overlay_enums_ok:
  assumes "length mem = 1024" "image_wf im" "enums_ok mem"
  shows "enums_ok (overlay_persistent mem (im_config im) (im_profile im))"
  using assms
  by (simp add: enums_ok_def image_wf_def control_map_ALLOWED fields_allowed_def persisted_byte_def overlay_nth osc_const)

text \<open>C11. The boot overlay is confined and safe. Whatever bytes the two slots hold, the table after boot
  has the same size, agrees with the seeded one on the identity front and on everything outside the
  persisted regions, and no enum or bool register receives an unlisted discriminant.\<close>

theorem boot_overlay_safe:
  fixes slot_a slot_b :: bytes
  assumes "length mem = rm_SIZE control_map" "enums_ok mem"
  defines "mem' \<equiv> fst (boot_overlay mem slot_a slot_b)"
  shows "length mem' = rm_SIZE control_map \<and> enums_ok mem' \<and>
    (\<forall>a<rm_SIZE control_map. \<not> (0x10 \<le> a \<and> a < 0x80) \<and> \<not> (0x280 \<le> a \<and> a < 0x2C0) \<longrightarrow> mem' ! a = mem ! a)"
proof (cases "fst (boot_choice (image_parse slot_a) (image_parse slot_b))")
  case None
  then have "mem' = mem" unfolding mem'_def boot_overlay_def by (auto split: prod.split)
  then show ?thesis using assms(1,2) by simp
next
  case (Some im)
  then have "image_parse slot_a = Some im \<or> image_parse slot_b = Some im"
    by (auto simp: boot_choice_def split: option.splits if_splits)
  then have wf: "image_wf im" by (auto simp: image_parse_iff)
  have m: "mem' = overlay_persistent mem (im_config im) (im_profile im)"
    using Some unfolding mem'_def boot_overlay_def by (auto split: prod.split)
  have "length mem' = 1024" using assms(1) wf by (simp add: m overlay_persistent_def image_wf_def osc_const)
  then show ?thesis using assms(1,2) wf overlay_enums_ok [of mem im] by (simp add: m image_wf_def overlay_nth)
qed

lemma table_new_ok: "length table_new = 1024" "enums_ok table_new"
  by (simp_all add: table_new_def TABLE_SIZE_def enums_ok_def control_map_ALLOWED)

theorem boot_overlay_safe_witness: "enums_ok (fst (boot_overlay table_new (replicate 200 0xFF) [1, 2, 3]))"
  using boot_overlay_safe [of table_new "replicate 200 0xFF" "[1, 2, 3]"] table_new_ok by simp

end
