(* ===== verification/Core_Dispatch.thy ===== *)
theory Core_Dispatch
  imports Core_Persist
begin

text \<open>
  \<open>core/src/services/bus/dispatch.rs\<close> with \<open>session.rs\<close>, \<open>shared.rs\<close> and the request and reply types of
  \<open>traits/services.rs\<close>: the single-shot dispatcher that runs before the frame's checksum verdict. A
  handler takes the dispatcher state and returns the new state with the calls it makes on the reply
  surface, in order. The persistence port is a record of its two operations over a store state; the
  store of \<open>Core_Persist\<close> is one.
\<close>

subsection \<open>Requests\<close>

datatype request =
    ReqPing
  | ReqRead u16 u16
  | ReqReadProfile u8
  | ReqWrite u16 frame_bytes bool
  | ReqCommit
  | ReqEnumerate u8 bytes
  | ReqAssign bytes u8
  | ReqCalibrate u16 u8
  | ReqMgmt mgmt_op frame_bytes
  | ReqUnsupported

record request_ctx =
  may_reply :: bool

datatype dispatched = Done | Pending

definition GATHER_MAX :: nat where [osc_const]: "GATHER_MAX = 8"

subsection \<open>State\<close>

record 's config_store =
  cs_save :: "'s \<Rightarrow> bytes \<Rightarrow> bytes \<Rightarrow> 's \<times> bool"
  cs_wipe :: "'s \<Rightarrow> 's \<times> bool"

record 's shared =
  sh_table :: bytes
  sh_uid :: bytes
  sh_store :: "'s config_store option"
  sh_store_state :: 's

definition shared_new :: "'s \<Rightarrow> 's shared" where
  "shared_new s = \<lparr> sh_table = table_new, sh_uid = replicate UID_LEN 0, sh_store = None, sh_store_state = s \<rparr>"

definition seed_uid :: "bytes \<Rightarrow> 's shared \<Rightarrow> 's shared" where
  "seed_uid uid sh = sh\<lparr> sh_uid := uid \<rparr>"

definition seed_store :: "'s config_store \<Rightarrow> 's shared \<Rightarrow> 's shared" where
  "seed_store cs sh = sh\<lparr> sh_store := Some cs \<rparr>"

record pending_write =
  pw_snap :: snapshot
  pw_hold :: bool
  pw_addr :: u16
  pw_len :: u16

record 's dispatcher =
  d_shared :: "'s shared"
  d_staged :: staged_writes
  d_pending :: "pending_write option"

text \<open>\<open>Session::new\<close> with the dispatcher it hands out.\<close>

definition session_new :: "'s shared \<Rightarrow> 's dispatcher" where
  "session_new sh = \<lparr> d_shared = sh, d_staged = staged_new, d_pending = None \<rparr>"

abbreviation d_table :: "'s dispatcher \<Rightarrow> bytes" where
  "d_table d \<equiv> sh_table (d_shared d)"

definition with_table :: "(bytes \<Rightarrow> bytes) \<Rightarrow> 's dispatcher \<Rightarrow> 's dispatcher" where
  "with_table f d = d\<lparr> d_shared := (d_shared d)\<lparr> sh_table := f (d_table d) \<rparr> \<rparr>"

definition error_to_result :: "ct_error \<Rightarrow> result_code" where
  "error_to_result e =
     (case e of AccessError \<Rightarrow> RcAccess | ValidationError _ \<Rightarrow> RcValidation | _ \<Rightarrow> RcRange)"

definition revert_dangling :: "'s dispatcher \<Rightarrow> 's dispatcher" where
  "revert_dangling d =
     (case d_pending d of
        None \<Rightarrow> d
      | Some p \<Rightarrow> d\<lparr> d_pending := None, d_staged := revert_to (d_staged d) (pw_snap p) \<rparr>)"

definition alert :: "'s dispatcher \<Rightarrow> bool" where
  "alert d \<longleftrightarrow> reg8 (d_table d) ADDR_FAULT_FLAGS \<noteq> 0"

subsection \<open>Replies\<close>

definition ack_code :: "bool \<Rightarrow> request_ctx \<Rightarrow> result_code \<Rightarrow> reply_event list" where
  "ack_code al ctx code = (if \<not> may_reply ctx then [] else [EvStatus code al []])"

definition ack :: "bool \<Rightarrow> request_ctx \<Rightarrow> ct_error + unit \<Rightarrow> reply_event list" where
  "ack al ctx result = ack_code al ctx (case result of Inr _ \<Rightarrow> RcOk | Inl e \<Rightarrow> error_to_result e)"

definition instruction_error :: "bool \<Rightarrow> request_ctx \<Rightarrow> reply_event list" where
  "instruction_error al ctx = (if \<not> may_reply ctx then [] else [EvStatus RcInstruction al []])"

definition CONFIG_END :: u16 where [osc_const]: "CONFIG_END = CONFIG_BASE_ADDR + CONFIG_REGION_SIZE"

definition hits_persistent :: "u16 \<Rightarrow> u16 \<Rightarrow> bool" where
  "hits_persistent addr len \<longleftrightarrow>
     (let stop = sat_add addr len; profile_end = PROFILE_BASE_ADDR + PROFILE_REGION_SIZE
      in addr < CONFIG_END \<or> (addr < profile_end \<and> stop > PROFILE_BASE_ADDR))"

definition set_dirty :: "bytes \<Rightarrow> bytes" where
  "set_dirty mem = set_reg8 ADDR_STATUS_FLAGS (reg8 mem ADDR_STATUS_FLAGS OR STATUS_FLAG_CONFIG_DIRTY) mem"

definition clear_dirty :: "bytes \<Rightarrow> bytes" where
  "clear_dirty mem = set_reg8 ADDR_STATUS_FLAGS (reg8 mem ADDR_STATUS_FLAGS AND NOT STATUS_FLAG_CONFIG_DIRTY) mem"

definition mark_dirty_if_persistent :: "u16 \<Rightarrow> u16 \<Rightarrow> 's dispatcher \<Rightarrow> 's dispatcher" where
  "mark_dirty_if_persistent addr len d = (if hits_persistent addr len then with_table set_dirty d else d)"

subsection \<open>Reads\<close>

definition ping :: "'s dispatcher \<Rightarrow> bool \<Rightarrow> request_ctx \<Rightarrow> reply_event list" where
  "ping d al ctx =
     (if \<not> may_reply ctx then []
      else [EvStatus RcOk al
              (case rf_read control_map (d_table d) ADDR_MODEL_NUMBER 3 of Inr x \<Rightarrow> x | Inl _ \<Rightarrow> [])])"

definition disp_read :: "'s dispatcher \<Rightarrow> bool \<Rightarrow> request_ctx \<Rightarrow> u16 \<Rightarrow> u16 \<Rightarrow> reply_event list" where
  "disp_read d al ctx addr count =
     (if \<not> may_reply ctx then []
      else if count = 0 then [EvStatus RcRange al []]
      else if count > ucast MAX_PAYLOAD then [EvStatus RcLimit al []]
      else case rf_read control_map (d_table d) addr count of
             Inr data \<Rightarrow> [EvStatus RcOk al data]
           | Inl _ \<Rightarrow> [EvStatus RcRange al []])"

text \<open>The span loop: \<open>None\<close> is the early \<open>range\<close> answer; otherwise the spans and their running total.\<close>

fun profile_gather :: "bytes \<Rightarrow> u16 list \<Rightarrow> bytes list \<Rightarrow> u16 \<Rightarrow> (bytes list \<times> u16) option" where
  "profile_gather mem [] spans tot = Some (spans, tot)"
| "profile_gather mem (w # ws) spans tot =
     (case span_of w of
        None \<Rightarrow> profile_gather mem ws spans tot
      | Some (addr, count) \<Rightarrow>
          (case rf_read control_map mem addr count of
             Inl _ \<Rightarrow> None
           | Inr data \<Rightarrow> profile_gather mem ws (spans @ [data]) (tot + count)))"

definition read_profile :: "'s dispatcher \<Rightarrow> bool \<Rightarrow> request_ctx \<Rightarrow> u8 \<Rightarrow> reply_event list" where
  "read_profile d al ctx slot =
     (if \<not> may_reply ctx then []
      else case slot_words (d_table d) slot of
             None \<Rightarrow> [EvStatus RcRange al []]
           | Some words \<Rightarrow>
               (case profile_gather (d_table d) words [] 0 of
                  None \<Rightarrow> [EvStatus RcRange al []]
                | Some (spans, tot) \<Rightarrow>
                    if spans = [] then [EvStatus RcRange al []]
                    else if tot > ucast MAX_PAYLOAD then [EvStatus RcLimit al []]
                    else [EvGather RcOk al spans]))"

subsection \<open>Writes\<close>

definition disp_write ::
    "vec_ops \<Rightarrow> 's dispatcher \<Rightarrow> bool \<Rightarrow> request_ctx \<Rightarrow> u16 \<Rightarrow> frame_bytes \<Rightarrow> bool \<Rightarrow>
     's dispatcher \<times> reply_event list \<times> dispatched" where
  "disp_write V d al ctx addr data hold =
     (let (h, t) = fb_segments data; snap = staged_snapshot (d_staged d);
          (staged, res) = rf_stage_split V control_map (d_table d) addr h t (d_staged d);
          d' = d\<lparr> d_staged := staged \<rparr>
      in case res of
           Inr _ \<Rightarrow>
             (d'\<lparr> d_pending := Some \<lparr> pw_snap = snap, pw_hold = hold, pw_addr = addr, pw_len = of_nat (fb_len data) \<rparr> \<rparr>,
              ack al ctx (Inr ()), Pending)
         | Inl StagingFull \<Rightarrow> (d', if may_reply ctx then [EvStatus RcBusy al []] else [], Done)
         | Inl e \<Rightarrow> (d', ack al ctx (Inl e), Done))"

fun fire_spans :: "(u16 \<times> u16) list \<Rightarrow> 's dispatcher \<Rightarrow> 's dispatcher \<times> reply_event list" where
  "fire_spans [] d = (d, [])"
| "fire_spans ((addr, len) # ss) d =
     (let d1 = mark_dirty_if_persistent addr len d;
          ev = dispatch_events (d_table d1) addr len;
          (d2, evs) = fire_spans ss d1
      in (d2, ev @ evs))"

definition apply_commit :: "'s dispatcher \<Rightarrow> bool \<Rightarrow> request_ctx \<Rightarrow> 's dispatcher \<times> reply_event list" where
  "apply_commit d al ctx =
     (let spans = take STAGE_ENTRY_CAP (map (\<lambda>(addr, data). (addr, of_nat (length data))) (iter_all (d_staged d)));
          (mem, staged) = rf_commit_staged control_map (d_table d) (d_staged d);
          d1 = with_table (\<lambda>_. mem) (d\<lparr> d_staged := staged \<rparr>);
          (d2, evs) = fire_spans spans d1
      in (d2, ack al ctx (Inr ()) @ evs))"

subsection \<open>Management\<close>

definition disp_enumerate :: "'s dispatcher \<Rightarrow> bool \<Rightarrow> request_ctx \<Rightarrow> u8 \<Rightarrow> bytes \<Rightarrow> reply_event list option" where
  "disp_enumerate d al ctx prefix_len prefix =
     (if \<not> may_reply ctx then Some []
      else case uid_prefix_matches (sh_uid (d_shared d)) prefix_len prefix of
             None \<Rightarrow> None
           | Some False \<Rightarrow> Some []
           | Some True \<Rightarrow> Some [EvStatus RcOk al (sh_uid (d_shared d))])"

definition disp_assign ::
    "'s dispatcher \<Rightarrow> bool \<Rightarrow> request_ctx \<Rightarrow> bytes \<Rightarrow> u8 \<Rightarrow> 's dispatcher \<times> reply_event list" where
  "disp_assign d al ctx uid new_id =
     (if uid \<noteq> sh_uid (d_shared d) then (d, [])
      else if id_try_unicast new_id = None then (d, ack al ctx (Inl (ValidationError VkCompare)))
      else (with_table (\<lambda>m. set_dirty (set_reg8 ADDR_ID new_id m)) d, EvSetId new_id # ack al ctx (Inr ())))"

definition torque_enabled :: "'s dispatcher \<Rightarrow> bool" where
  "torque_enabled d \<longleftrightarrow> reg8 (d_table d) ADDR_TORQUE_ENABLE \<noteq> 0"

definition persist_table :: "'s dispatcher \<Rightarrow> 's dispatcher \<times> bool" where
  "persist_table d =
     (case sh_store (d_shared d) of
        None \<Rightarrow> (d, False)
      | Some cs \<Rightarrow>
          (case (rf_read control_map (d_table d) CONFIG_BASE_ADDR CONFIG_REGION_SIZE,
                 rf_read control_map (d_table d) PROFILE_BASE_ADDR PROFILE_REGION_SIZE) of
             (Inr config, Inr profile) \<Rightarrow>
               if length config = CONFIG_LEN \<and> length profile = PROFILE_LEN then
                 (let (s, ok) = cs_save cs (sh_store_state (d_shared d)) config profile
                  in (d\<lparr> d_shared := (d_shared d)\<lparr> sh_store_state := s \<rparr> \<rparr>, ok))
               else (d, False)
           | _ \<Rightarrow> (d, False)))"

definition disp_save :: "'s dispatcher \<Rightarrow> bool \<Rightarrow> request_ctx \<Rightarrow> 's dispatcher \<times> reply_event list" where
  "disp_save d al ctx =
     (if torque_enabled d then (d, ack al ctx (Inl AccessError))
      else case persist_table d of
             (d1, True) \<Rightarrow> (with_table clear_dirty d1, ack_code al ctx RcOk)
           | (d1, False) \<Rightarrow> (d1, ack_code al ctx RcHardware))"

definition stage_reboot_event :: "'s dispatcher \<Rightarrow> reply_event" where
  "stage_reboot_event d = EvStageReboot (boot_mode_of (reg8 (d_table d) ADDR_BOOT_MODE))"

definition disp_factory :: "'s dispatcher \<Rightarrow> bool \<Rightarrow> request_ctx \<Rightarrow> 's dispatcher \<times> reply_event list" where
  "disp_factory d al ctx =
     (if torque_enabled d then (d, ack al ctx (Inl AccessError))
      else let (d1, wiped) =
                 (case sh_store (d_shared d) of
                    None \<Rightarrow> (d, False)
                  | Some cs \<Rightarrow> (let (s, ok) = cs_wipe cs (sh_store_state (d_shared d))
                                in (d\<lparr> d_shared := (d_shared d)\<lparr> sh_store_state := s \<rparr> \<rparr>, ok)))
           in if wiped then (d1, ack al ctx (Inr ()) @ [stage_reboot_event d1])
              else (d1, ack_code al ctx RcHardware))"

text \<open>\<open>None\<close>: the operation has no arm in the source's match.\<close>

definition mgmt :: "'s dispatcher \<Rightarrow> bool \<Rightarrow> request_ctx \<Rightarrow> mgmt_op \<Rightarrow> ('s dispatcher \<times> reply_event list) option" where
  "mgmt d al ctx op =
     (case op of
        MgmtSave \<Rightarrow> Some (disp_save d al ctx)
      | MgmtFactory \<Rightarrow> Some (disp_factory d al ctx)
      | MgmtReboot \<Rightarrow> Some (d, ack al ctx (Inr ()) @ [stage_reboot_event d])
      | MgmtEnum \<Rightarrow> Some (d, instruction_error al ctx)
      | MgmtAssign \<Rightarrow> Some (d, instruction_error al ctx)
      | MgmtCal \<Rightarrow> Some (d, instruction_error al ctx)
      | _ \<Rightarrow> None)"

subsection \<open>The dispatch port\<close>

definition dispatch ::
    "vec_ops \<Rightarrow> 's dispatcher \<Rightarrow> request \<Rightarrow> request_ctx \<Rightarrow> ('s dispatcher \<times> reply_event list \<times> dispatched) option" where
  "dispatch V d0 req ctx =
     (let d = revert_dangling d0; al = alert d
      in case req of
           ReqPing \<Rightarrow> Some (d, ping d al ctx, Done)
         | ReqRead addr count \<Rightarrow> Some (d, disp_read d al ctx addr count, Done)
         | ReqReadProfile slot \<Rightarrow> Some (d, read_profile d al ctx slot, Done)
         | ReqWrite addr data hold \<Rightarrow> Some (disp_write V d al ctx addr data hold)
         | ReqCommit \<Rightarrow> (let (d1, ev) = apply_commit d al ctx in Some (d1, ev, Done))
         | ReqEnumerate prefix_len prefix \<Rightarrow>
             map_option (\<lambda>ev. (d, ev, Done)) (disp_enumerate d al ctx prefix_len prefix)
         | ReqAssign uid new_id \<Rightarrow> (let (d1, ev) = disp_assign d al ctx uid new_id in Some (d1, ev, Done))
         | ReqCalibrate gap_us gaps \<Rightarrow> Some (d, [EvBeginClockCal gap_us gaps], Done)
         | ReqMgmt op args \<Rightarrow> map_option (\<lambda>(d1, ev). (d1, ev, Done)) (mgmt d al ctx op)
         | ReqUnsupported \<Rightarrow> Some (d, instruction_error al ctx, Done))"

definition disp_commit :: "'s dispatcher \<Rightarrow> 's dispatcher \<times> reply_event list" where
  "disp_commit d =
     (case d_pending d of
        None \<Rightarrow> (d, [])
      | Some p \<Rightarrow>
          let d0 = d\<lparr> d_pending := None \<rparr>
          in if pw_hold p then (d0, [])
             else let (mem, staged) = rf_commit_from control_map (d_table d0) (d_staged d0) (pw_snap p);
                      d1 = with_table (\<lambda>_. mem) (d0\<lparr> d_staged := staged \<rparr>);
                      d2 = mark_dirty_if_persistent (pw_addr p) (pw_len p) d1
                  in (d2, dispatch_events (d_table d2) (pw_addr p) (pw_len p)))"

definition disp_revert :: "'s dispatcher \<Rightarrow> 's dispatcher" where
  "disp_revert d =
     (case d_pending d of
        None \<Rightarrow> d
      | Some p \<Rightarrow> d\<lparr> d_pending := None, d_staged := revert_to (d_staged d) (pw_snap p) \<rparr>)"

subsection \<open>Validated writes respect enum registers\<close>

text \<open>A staged write that stays inside the table and puts only listed discriminants into enum and bool
  registers.\<close>

definition write_ok :: "u16 \<times> bytes \<Rightarrow> bool" where
  "write_ok w \<longleftrightarrow> unat (fst w) + length (snd w) \<le> 1024 \<and>
     list_all (\<lambda>r. unat (fst w) \<le> unat (alw_addr r) \<and> unat (alw_addr r) < unat (fst w) + length (snd w) \<longrightarrow>
        snd w ! (unat (alw_addr r) - unat (fst w)) \<in> set (alw_allowed r)) (rm_ALLOWED_RULES control_map)"

lemma check_allowed_overlay:
  assumes "check_allowed (view_new mem 1024 addr d) a al = Inr ()" "unat addr \<le> unat a" "unat a < unat addr + length d"
  shows "d ! (unat a - unat addr) \<in> set al"
  using assms
  by (auto simp: check_allowed_def read_fixed_overlay view_new_def view_new_split_def overlay_byte_def upt_4
      split: if_splits)

lemma overlaps_1: "lo \<le> a \<Longrightarrow> a < hi \<Longrightarrow> overlaps a 1 lo hi"
  by (simp add: overlaps_def)

lemma section_rule_holds:
  assumes "validate control_map mem addr d [] = Inr ()" "sec \<in> set (rm_SECTIONS control_map)"
    "stripe (rm_ALLOWED_RULES control_map) (sm_allowed_rules sec) = Some rs" "r \<in> set rs"
    "unat addr \<le> unat (alw_addr r)" "unat (alw_addr r) < unat addr + length d"
    "unat (sm_base sec) \<le> unat (alw_addr r)" "unat (alw_addr r) < unat (sm_base sec) + unat (sm_size sec)"
  shows "d ! (unat (alw_addr r) - unat addr) \<in> set (alw_allowed r)"
proof -
  have ne: "d \<noteq> []" using assms(5,6) by auto
  have "overlaps (unat (sm_base sec)) (unat (sm_size sec)) (unat addr) (unat addr + length d)"
    using assms(5-8) by (auto simp: overlaps_def)
  then have "section_rules_hold control_map (view_new mem 1024 addr d) (unat addr) (unat addr + length d) sec"
    using assms(1,2) validate_contiguous_iff [OF control_map_sorted ne] by simp
  then have "check_allowed (view_new mem 1024 addr d) (alw_addr r) (alw_allowed r) = Inr ()"
    using assms(3-6) overlaps_1 by (auto simp: section_rules_hold_def)
  then show ?thesis using assms(5,6) by (rule check_allowed_overlay)
qed

lemma stripe_control:
  "stripe (rm_ALLOWED_RULES control_map) (0, 2) = Some [allow 0x030 [0, 1], allow 0x059 [0, 1]]"
  "stripe (rm_ALLOWED_RULES control_map) (2, 6) =
     Some [allow 0x180 [0, 1], allow 0x181 [0, 1], allow 0x190 [0, 1], allow 0x19C [0, 1]]"
  by (simp_all add: stripe_def control_map_ALLOWED slice_opt_def)

lemma validated_write_ok:
  assumes v: "validate control_map mem addr h t = Inr ()"
  shows "h @ t = [] \<or> write_ok (addr, h @ t)"
proof (cases "h @ t = []")
  case False
  have v': "validate control_map mem addr (h @ t) [] = Inr ()" using v by (simp add: validate_seam [symmetric])
  let ?d = "h @ t"
  have c: "?d ! (unat (alw_addr r) - unat addr) \<in> set (alw_allowed r)"
    if "r \<in> {allow 0x030 [0, 1], allow 0x059 [0, 1]}" "unat addr \<le> unat (alw_addr r)" "unat (alw_addr r) < unat addr + length ?d" for r
    using section_rule_holds [OF v', of "meta 0x000 128 (0, 14) (0, 2)" _ r] that
    by (auto simp: control_map_SECTIONS stripe_control)
  have l: "?d ! (unat (alw_addr r) - unat addr) \<in> set (alw_allowed r)"
    if "r \<in> {allow 0x180 [0, 1], allow 0x181 [0, 1], allow 0x190 [0, 1], allow 0x19C [0, 1]}"
      "unat addr \<le> unat (alw_addr r)" "unat (alw_addr r) < unat addr + length ?d" for r
    using section_rule_holds [OF v', of "meta 0x180 128 (14, 18) (2, 6)" _ r] that
    by (auto simp: control_map_SECTIONS stripe_control)
  have "unat addr + length ?d \<le> 1024" using validate_bounds [OF v] False by auto
  moreover have "?d ! (unat (alw_addr r) - unat addr) \<in> set (alw_allowed r)"
    if "r \<in> set (rm_ALLOWED_RULES control_map)" "unat addr \<le> unat (alw_addr r) \<and> unat (alw_addr r) < unat addr + length ?d" for r
  proof -
    have "r \<in> {allow 0x030 [0, 1], allow 0x059 [0, 1]} \<or>
        r \<in> {allow 0x180 [0, 1], allow 0x181 [0, 1], allow 0x190 [0, 1], allow 0x19C [0, 1]}"
      using that(1) by (simp only: control_map_ALLOWED set_simps) blast
    then show ?thesis using c l that(2) by blast
  qed
  ultimately show ?thesis by (simp add: write_ok_def list_all_iff)
qed simp

lemma apply_write_ok:
  assumes "length mem = 1024" "enums_ok mem" "write_ok (addr, d)"
  shows "enums_ok (put (unat addr) d mem)"
proof -
  have "put (unat addr) d mem ! unat (alw_addr r) \<in> set (alw_allowed r)"
    if r: "r \<in> set (rm_ALLOWED_RULES control_map)" for r
  proof -
    have "unat (alw_addr r) < 1024" using r by (auto simp: control_map_ALLOWED)
    moreover have "mem ! unat (alw_addr r) \<in> set (alw_allowed r)" using assms(2) r by (simp add: enums_ok_def list_all_iff)
    ultimately show ?thesis using assms(1,3) r by (auto simp: write_ok_def list_all_iff nth_put)
  qed
  then show ?thesis by (simp add: enums_ok_def list_all_iff)
qed

lemma apply_writes_ok:
  "length mem = 1024 \<Longrightarrow> enums_ok mem \<Longrightarrow> list_all (\<lambda>w. snd w = [] \<or> write_ok w) ws \<Longrightarrow> enums_ok (apply_writes 1024 mem ws)"
proof (induction "1024 :: nat" mem ws rule: apply_writes.induct)
  case (2 mem addr data ws)
  then show ?case
    using apply_write_ok [of mem addr data] by (cases "data = []") (auto simp: Let_def write_ok_def)
qed simp


subsection \<open>The dispatcher invariant\<close>

definition writes_ok :: "staged_writes \<Rightarrow> bool" where
  "writes_ok s \<longleftrightarrow> staged_inv s \<and> list_all (\<lambda>w. snd w = [] \<or> write_ok w) (iter_all s)"

definition pending_ok :: "staged_writes \<Rightarrow> pending_write option \<Rightarrow> bool" where
  "pending_ok s po \<longleftrightarrow> (\<forall>p. po = Some p \<longrightarrow> (\<exists>s0. staged_extends s0 s \<and> pw_snap p = staged_snapshot s0))"

definition table_ok :: "bytes \<Rightarrow> bool" where
  "table_ok mem \<longleftrightarrow> length mem = 1024 \<and> enums_ok mem"

definition disp_inv :: "'s dispatcher \<Rightarrow> bool" where
  "disp_inv d \<longleftrightarrow> table_ok (d_table d) \<and> writes_ok (d_staged d) \<and> pending_ok (d_staged d) (d_pending d) \<and>
     length (sh_uid (d_shared d)) = UID_LEN"

lemma pending_ok_None [simp]: "pending_ok s None"
  by (simp add: pending_ok_def)

lemma with_table_simps [simp]:
  "d_table (with_table f d) = f (d_table d)" "d_staged (with_table f d) = d_staged d"
  "d_pending (with_table f d) = d_pending d" "sh_uid (d_shared (with_table f d)) = sh_uid (d_shared d)"
  by (simp_all add: with_table_def)

lemma disp_revert_eq: "disp_revert d = revert_dangling d"
  by (simp add: disp_revert_def revert_dangling_def)

lemma writes_ok_prefix: "staged_extends s0 s \<Longrightarrow> writes_ok s \<Longrightarrow> writes_ok s0"
  using iter_from_snapshot [of s0 s] by (auto simp: writes_ok_def staged_extends_def)

lemma revert_dangling_simps [simp]:
  "d_shared (revert_dangling d) = d_shared d" "d_pending (revert_dangling d) = None"
  "revert_dangling (revert_dangling d) = revert_dangling d"
  by (simp_all add: revert_dangling_def split: option.split)

lemma revert_dangling_inv: "disp_inv d \<Longrightarrow> disp_inv (revert_dangling d)"
proof (cases "d_pending d")
  case (Some p)
  assume inv: "disp_inv d"
  then obtain s0 where s0: "staged_extends s0 (d_staged d)" "pw_snap p = staged_snapshot s0"
    using Some by (auto simp: disp_inv_def pending_ok_def)
  then show ?thesis
    using inv Some writes_ok_prefix [OF s0(1)]
    by (simp add: disp_inv_def revert_dangling_def revert_to_snapshot [OF s0(1)])
qed (simp add: revert_dangling_def)

lemma length_set_reg8 [simp]: "length (set_reg8 a v mem) = length mem"
  by (simp add: set_reg8_def)

lemma set_reg8_enums:
  assumes "enums_ok mem" "length mem = 1024" "list_all (\<lambda>r. unat (alw_addr r) \<noteq> unat a) (rm_ALLOWED_RULES control_map)"
  shows "enums_ok (set_reg8 a v mem)"
  using assms by (auto simp: enums_ok_def list_all_iff set_reg8_def)

lemma dirty_table_ok: "table_ok mem \<Longrightarrow> table_ok (set_dirty mem)" "table_ok mem \<Longrightarrow> table_ok (clear_dirty mem)"
  by (auto simp: table_ok_def set_dirty_def clear_dirty_def ADDR_STATUS_FLAGS_def control_map_ALLOWED
      intro!: set_reg8_enums)

lemma set_id_table_ok: "table_ok mem \<Longrightarrow> table_ok (set_reg8 ADDR_ID v mem)"
  by (auto simp: table_ok_def ADDR_ID_def control_map_ALLOWED intro!: set_reg8_enums)

lemma mark_dirty_simps [simp]:
  "d_table (mark_dirty_if_persistent a l d) = (if hits_persistent a l then set_dirty (d_table d) else d_table d)"
  "d_staged (mark_dirty_if_persistent a l d) = d_staged d" "d_pending (mark_dirty_if_persistent a l d) = d_pending d"
  "sh_uid (d_shared (mark_dirty_if_persistent a l d)) = sh_uid (d_shared d)"
  by (simp_all add: mark_dirty_if_persistent_def)

lemma mark_dirty_inv: "disp_inv d \<Longrightarrow> disp_inv (mark_dirty_if_persistent a l d)"
  by (simp add: disp_inv_def dirty_table_ok)

lemma fire_spans_inv: "disp_inv d \<Longrightarrow> disp_inv (fst (fire_spans ss d)) \<and> d_pending (fst (fire_spans ss d)) = d_pending d"
proof (induction ss d rule: fire_spans.induct)
  case (2 addr len ss d)
  then show ?case using mark_dirty_inv [of d addr len] by (simp add: Let_def split: prod.split_asm) (simp add: split_beta)
qed simp

lemma table_ok_writes: "table_ok mem \<Longrightarrow> list_all (\<lambda>w. snd w = [] \<or> write_ok w) ws \<Longrightarrow> table_ok (apply_writes 1024 mem ws)"
  by (simp add: table_ok_def apply_writes_ok)

lemma apply_commit_inv:
  assumes "disp_inv d" "d_pending d = None"
  shows "disp_inv (fst (apply_commit d al ctx)) \<and> d_pending (fst (apply_commit d al ctx)) = None"
proof -
  let ?d1 = "with_table (\<lambda>_. apply_writes 1024 (d_table d) (iter_all (d_staged d))) (d\<lparr> d_staged := staged_clear (d_staged d) \<rparr>)"
  have "disp_inv ?d1"
    using assms staged_clear_wipes [of "d_staged d"]
    by (auto simp: disp_inv_def writes_ok_def intro!: table_ok_writes)
  then show ?thesis
    using fire_spans_inv [of ?d1] assms
    by (simp add: apply_commit_def rf_commit_staged_def apply_from_def iter_all_def split_beta Let_def)
qed

lemma stage_split_inv:
  assumes V: "vec_ok V" and s: "writes_ok s"
  shows "writes_ok (fst (rf_stage_split V control_map mem addr h t s)) \<and>
    staged_extends s (fst (rf_stage_split V control_map mem addr h t s))"
proof (cases "validate control_map mem addr h t")
  case (Inl e)
  then show ?thesis using s by (simp add: rf_stage_split_def writes_ok_def staged_extends_refl)
next
  case (Inr u)
  have inv: "staged_inv s" using s by (simp add: writes_ok_def)
  have e: "fst (rf_stage_split V control_map mem addr h t s) = fst (push_split V s addr h t)"
    by (simp add: rf_stage_split_def Inr)
  have "list_all (\<lambda>w. snd w = [] \<or> write_ok w) (iter_all (fst (push_split V s addr h t)))"
  proof (cases "snd (push_split V s addr h t)")
    case (Inl e)
    then show ?thesis using push_split_refuses [OF V inv] s by (simp add: writes_ok_def)
  next
    case (Inr x)
    then show ?thesis
      using iter_all_push [OF V inv, of addr h t] s validated_write_ok [of mem addr h t] \<open>validate _ _ _ _ _ = Inr u\<close>
      by (simp add: writes_ok_def)
  qed
  then show ?thesis
    using staged_extends_push [OF V staged_extends_refl [OF inv], of addr h t] push_split_inv [OF V inv, of addr h t]
    by (simp add: e writes_ok_def)
qed

lemma disp_write_inv:
  assumes "vec_ok V" "disp_inv d" "d_pending d = None"
  shows "disp_inv (fst (disp_write V d al ctx addr data hold)) \<and>
    d_shared (fst (disp_write V d al ctx addr data hold)) = d_shared d"
proof -
  have w: "writes_ok (d_staged d)" using assms by (simp add: disp_inv_def)
  show ?thesis
    using assms stage_split_inv [OF assms(1) w, of "d_table d" addr "fb_head data" "fb_tail data"]
    by (auto simp: disp_write_def disp_inv_def fb_segments_def Let_def split_beta pending_ok_def
        split: sum.split ct_error.split)
qed

lemma persist_table_inv: "disp_inv d \<Longrightarrow> disp_inv (fst (persist_table d)) \<and> d_pending (fst (persist_table d)) = d_pending d \<and>
   d_staged (fst (persist_table d)) = d_staged d \<and> d_table (fst (persist_table d)) = d_table d"
  by (auto simp: persist_table_def disp_inv_def Let_def split_beta split: option.split sum.split)

lemma disp_save_inv: "disp_inv d \<Longrightarrow> disp_inv (fst (disp_save d al ctx))"
  using persist_table_inv [of d]
  by (auto simp: disp_save_def disp_inv_def dirty_table_ok split: prod.split bool.split)

lemma disp_factory_inv: "disp_inv d \<Longrightarrow> disp_inv (fst (disp_factory d al ctx))"
  by (auto simp: disp_factory_def disp_inv_def Let_def split_beta split: option.split)

lemma disp_assign_inv: "disp_inv d \<Longrightarrow> disp_inv (fst (disp_assign d al ctx uid i))"
  by (auto simp: disp_assign_def disp_inv_def dirty_table_ok set_id_table_ok)

lemma disp_commit_inv: "disp_inv d \<Longrightarrow> disp_inv (fst (disp_commit d))"
proof (cases "d_pending d")
  case (Some p)
  assume inv: "disp_inv d"
  then obtain s0 where s0: "staged_extends s0 (d_staged d)" "pw_snap p = staged_snapshot s0"
    using Some by (auto simp: disp_inv_def pending_ok_def)
  have it: "iter_all (d_staged d) = iter_all s0 @ iter_from (d_staged d) (staged_snapshot s0)" using iter_from_snapshot [OF s0(1)] .
  then have "table_ok (apply_writes 1024 (d_table d) (iter_from (d_staged d) (staged_snapshot s0)))"
    using inv by (intro table_ok_writes) (auto simp: disp_inv_def writes_ok_def)
  then show ?thesis
    using inv Some writes_ok_prefix [OF s0(1)]
    by (auto simp: disp_commit_def Let_def disp_inv_def rf_commit_from_def apply_from_def s0 revert_to_snapshot [OF s0(1)]
        dirty_table_ok)
qed (simp add: disp_commit_def)

lemma dispatch_inv:
  assumes V: "vec_ok V" and inv: "disp_inv d" and r: "dispatch V d req ctx = Some (d', ev, r)"
  shows "disp_inv d'"
proof -
  have i: "disp_inv (revert_dangling d)" using revert_dangling_inv [OF inv] .
  show ?thesis
  proof (cases req)
    case (ReqWrite addr data hold)
    then show ?thesis using r disp_write_inv [OF V i] by (simp add: dispatch_def Let_def) (metis fst_conv)
  next
    case ReqCommit
    then show ?thesis using r apply_commit_inv [OF i] by (simp add: dispatch_def Let_def split_beta) (metis fst_conv)
  next
    case (ReqMgmt op args)
    then show ?thesis
      using r i disp_save_inv [OF i] disp_factory_inv [OF i]
      by (auto simp: dispatch_def Let_def mgmt_def split: mgmt_op.splits) (metis fst_conv)+
  next
    case (ReqAssign uid i')
    then show ?thesis using r disp_assign_inv [OF i] by (simp add: dispatch_def Let_def split_beta) (metis fst_conv)
  qed (use r i in \<open>auto simp: dispatch_def Let_def\<close>)
qed


subsection \<open>Every reachable dispatcher state\<close>

inductive disp_step :: "vec_ops \<Rightarrow> 's dispatcher \<Rightarrow> 's dispatcher \<Rightarrow> bool" for V where
  Dispatch: "dispatch V d req ctx = Some (d', ev, r) \<Longrightarrow> disp_step V d d'"
| Commit: "disp_commit d = (d', ev) \<Longrightarrow> disp_step V d d'"
| Revert: "disp_step V d (disp_revert d)"

inductive disp_reachable :: "vec_ops \<Rightarrow> 's shared \<Rightarrow> 's dispatcher \<Rightarrow> bool" for V sh where
  Boot: "disp_reachable V sh (session_new sh)"
| Step: "disp_reachable V sh d \<Longrightarrow> disp_step V d d' \<Longrightarrow> disp_reachable V sh d'"

inductive_cases disp_stepE: "disp_step V d d'"

lemma disp_step_inv: "vec_ok V \<Longrightarrow> disp_step V d d' \<Longrightarrow> disp_inv d \<Longrightarrow> disp_inv d'"
  by (erule disp_stepE) (auto simp: disp_revert_eq intro: dispatch_inv revert_dangling_inv dest: disp_commit_inv)

lemma session_new_inv: "table_ok (sh_table sh) \<Longrightarrow> length (sh_uid sh) = UID_LEN \<Longrightarrow> disp_inv (session_new sh)"
  by (simp add: disp_inv_def session_new_def writes_ok_def iter_all_alt) (simp add: staged_new_def)

lemma disp_reachable_inv:
  assumes "vec_ok V" "table_ok (sh_table sh)" "length (sh_uid sh) = UID_LEN"
  shows "disp_reachable V sh d \<Longrightarrow> disp_inv d"
  by (induction rule: disp_reachable.induct) (auto simp: session_new_inv assms intro: disp_step_inv [OF assms(1)])

subsection \<open>The write path\<close>

lemma disp_write_shape:
  assumes V: "vec_ok V" and inv: "disp_inv d" and p: "d_pending d = None"
    and r: "r = disp_write V d al ctx addr data hold"
  shows "d_shared (fst r) = d_shared d \<and> revert_dangling (fst r) = d"
proof -
  have s: "staged_inv (d_staged d)" and w: "writes_ok (d_staged d)" using inv by (simp_all add: disp_inv_def writes_ok_def)
  let ?st = "rf_stage_split V control_map (d_table d) addr (fb_head data) (fb_tail data) (d_staged d)"
  have ext: "staged_extends (d_staged d) (fst ?st)" using stage_split_inv [OF V w] by simp
  have keep: "fst ?st = d_staged d" if "snd ?st = Inl e" for e
    using that push_split_refuses [OF V s] by (auto simp: rf_stage_split_def split: sum.splits)
  show ?thesis
  proof (cases "snd ?st")
    case (Inl e)
    then show ?thesis
      using keep [OF Inl] p by (auto simp: r disp_write_def fb_segments_def Let_def split_beta revert_dangling_def split: ct_error.split)
  next
    case (Inr u)
    then show ?thesis
      using p revert_to_snapshot [OF ext]
      by (simp add: r disp_write_def fb_segments_def Let_def split_beta revert_dangling_def)
  qed
qed

lemma disp_write_commit:
  assumes V: "vec_ok V" and inv: "disp_inv d" and p: "d_pending d = None"
    and r: "disp_write V d al ctx addr data hold = (d', ev, Pending)"
  shows "validate control_map (d_table d) addr (fb_head data) (fb_tail data) = Inr ()"
    "if hold then d_table (fst (disp_commit d')) = d_table d \<and>
        iter_all (d_staged (fst (disp_commit d'))) = iter_all (d_staged d) @ [(addr, fb_head data @ fb_tail data)]
      else d_staged (fst (disp_commit d')) = d_staged d \<and>
        d_table (fst (disp_commit d')) =
          (let m = fst (rf_write_split control_map (d_table d) addr (fb_head data) (fb_tail data))
           in if hits_persistent addr (of_nat (fb_len data)) then set_dirty m else m)"
proof -
  have s: "staged_inv (d_staged d)" and len: "length (d_table d) = rm_SIZE control_map"
    using inv by (simp_all add: disp_inv_def writes_ok_def table_ok_def)
  obtain s' where st: "rf_stage_split V control_map (d_table d) addr (fb_head data) (fb_tail data) (d_staged d) = (s', Inr ())"
    and d': "d' = d\<lparr> d_staged := s', d_pending := Some \<lparr> pw_snap = staged_snapshot (d_staged d), pw_hold = hold,
      pw_addr = addr, pw_len = of_nat (fb_len data) \<rparr> \<rparr>"
    using r by (auto simp: disp_write_def fb_segments_def Let_def split: prod.splits sum.splits ct_error.splits)
  then show val: "validate control_map (d_table d) addr (fb_head data) (fb_tail data) = Inr ()"
    and "if hold then d_table (fst (disp_commit d')) = d_table d \<and>
        iter_all (d_staged (fst (disp_commit d'))) = iter_all (d_staged d) @ [(addr, fb_head data @ fb_tail data)]
      else d_staged (fst (disp_commit d')) = d_staged d \<and>
        d_table (fst (disp_commit d')) =
          (let m = fst (rf_write_split control_map (d_table d) addr (fb_head data) (fb_tail data))
           in if hits_persistent addr (of_nat (fb_len data)) then set_dirty m else m)"
    using stage_commit_write [OF V s len st] stage_appends [OF V s st]
    by (auto simp: disp_commit_def Let_def rf_stage_split_def split: sum.splits)
qed

end
