(* ===== verification/Core_Port.thy ===== *)
theory Core_Port
  imports Core_Dispatch "HOL-Library.Sublist"
begin

text \<open>
  What the bus may rely on when it drives the dispatcher: replies obey the reply contract, frames that do
  not pass their check leave nothing behind (locale \<open>verdict_port\<close>), a write applies exactly on its
  verdict, and held writes wait for COMMIT and then apply together, in order.
\<close>

subsection \<open>Frames and their verdicts\<close>

text \<open>
  The contract of the dispatch port as the bus uses it: a frame is dispatched and later passes its
  check, fails it, or dies without one. Whatever has not passed must not count. \<open>settle\<close> is the state
  with anything unverified dropped.
\<close>

locale verdict_port =
  fixes inv :: "'s \<Rightarrow> bool" and settle :: "'s \<Rightarrow> 's"
    and run :: "'f \<Rightarrow> 's \<Rightarrow> 's option" and passes :: "'f \<Rightarrow> bool"
  assumes run_inv: "inv s \<Longrightarrow> run f s = Some s' \<Longrightarrow> inv s'"
    and settle_inv: "inv s \<Longrightarrow> inv (settle s)"
    and settle_settle: "settle (settle s) = settle s"
    and run_settled: "inv s \<Longrightarrow> passes f \<Longrightarrow> run f s = run f (settle s)"
    and run_void: "inv s \<Longrightarrow> \<not> passes f \<Longrightarrow> run f s = Some s' \<Longrightarrow> settle s' = settle s"
begin

fun run_all :: "'f list \<Rightarrow> 's \<Rightarrow> 's option" where
  "run_all [] s = Some s"
| "run_all (f # fs) s = Option.bind (run f s) (run_all fs)"

lemma only_passing_count_aux:
  "inv s \<Longrightarrow> inv t \<Longrightarrow> settle s = settle t \<Longrightarrow> run_all fs s = Some s' \<Longrightarrow>
   \<exists>t'. run_all (filter passes fs) t = Some t' \<and> settle t' = settle s'"
proof (induction fs arbitrary: s t)
  case (Cons f fs)
  obtain s1 where s1: "run f s = Some s1" and rest: "run_all fs s1 = Some s'"
    using Cons.prems(4) by (auto split: bind_splits)
  have i1: "inv s1" using run_inv [OF Cons.prems(1) s1] .
  show ?case
  proof (cases "passes f")
    case True
    have "run f t = Some s1"
      using run_settled [OF Cons.prems(1) True] run_settled [OF Cons.prems(2) True] Cons.prems(3) s1 by simp
    with Cons.IH [OF i1 i1 refl rest] show ?thesis by (simp add: True)
  next
    case False
    have "settle s1 = settle t" using run_void [OF Cons.prems(1) False s1] Cons.prems(3) by simp
    with Cons.IH [OF i1 Cons.prems(2) _ rest] show ?thesis by (simp add: False)
  qed
qed simp

lemma only_passing_count:
  "inv s \<Longrightarrow> run_all fs s = Some s' \<Longrightarrow> \<exists>t'. run_all (filter passes fs) s = Some t' \<and> settle t' = settle s'"
  by (rule only_passing_count_aux) auto

end

datatype verdict = VPass | VFail | VDied

text \<open>The requests the bus dispatches only after their frame has passed.\<close>

fun verdict_first :: "request \<Rightarrow> bool" where
  "verdict_first ReqCommit = True"
| "verdict_first (ReqMgmt _ _) = True"
| "verdict_first (ReqAssign _ _) = True"
| "verdict_first (ReqEnumerate _ _) = True"
| "verdict_first (ReqCalibrate _ _) = True"
| "verdict_first _ = False"

type_synonym frame_run = "request \<times> request_ctx \<times> verdict"

definition frame_passes :: "frame_run \<Rightarrow> bool" where
  "frame_passes f \<longleftrightarrow> snd (snd f) = VPass"

definition run_frame :: "vec_ops \<Rightarrow> frame_run \<Rightarrow> 's dispatcher \<Rightarrow> 's dispatcher option" where
  "run_frame V f d =
     (let (req, ctx, v) = f
      in if verdict_first req \<and> v \<noteq> VPass then Some d
         else case dispatch V d req ctx of
                None \<Rightarrow> None
              | Some (d', ev, r) \<Rightarrow>
                  Some (case (r, v) of (Pending, VPass) \<Rightarrow> fst (disp_commit d') | (Pending, VFail) \<Rightarrow> disp_revert d' | _ \<Rightarrow> d'))"

fun run_frames :: "vec_ops \<Rightarrow> frame_run list \<Rightarrow> 's dispatcher \<Rightarrow> 's dispatcher option" where
  "run_frames V [] d = Some d"
| "run_frames V (f # fs) d = Option.bind (run_frame V f d) (run_frames V fs)"

lemma dispatch_settled: "dispatch V (revert_dangling d) req ctx = dispatch V d req ctx"
  by (simp add: dispatch_def)

lemma run_frame_inv: "vec_ok V \<Longrightarrow> disp_inv d \<Longrightarrow> run_frame V f d = Some d' \<Longrightarrow> disp_inv d'"
  by (auto simp: run_frame_def disp_revert_eq split: prod.splits if_splits option.splits dispatched.splits verdict.splits
      dest!: dispatch_inv intro: disp_commit_inv revert_dangling_inv)

lemma run_frame_settled: "frame_passes f \<Longrightarrow> run_frame V f d = run_frame V f (revert_dangling d)"
  by (auto simp: run_frame_def frame_passes_def dispatch_settled split: prod.split)

lemma read_keeps:
  assumes V: "vec_ok V" and inv: "disp_inv d" and nv: "\<not> verdict_first req" and r: "dispatch V d req ctx = Some (d', ev, r)"
  shows "revert_dangling d' = revert_dangling d \<and> d_shared d' = d_shared d"
proof (cases req)
  case (ReqWrite addr data hold)
  then show ?thesis
    using r disp_write_shape [OF V revert_dangling_inv [OF inv] revert_dangling_simps(2) refl, of "alert (revert_dangling d)" ctx addr data hold]
    by (simp add: dispatch_def Let_def)
qed (use r nv in \<open>auto simp: dispatch_def Let_def\<close>)

lemma run_frame_void:
  assumes "vec_ok V" "disp_inv d" "\<not> frame_passes f" "run_frame V f d = Some d'"
  shows "revert_dangling d' = revert_dangling d"
  using assms read_keeps [OF assms(1,2)]
  by (auto simp: run_frame_def frame_passes_def disp_revert_eq
      split: prod.splits if_splits option.splits dispatched.splits verdict.splits)

interpretation port: verdict_port disp_inv revert_dangling "run_frame vec_std" frame_passes
  by unfold_locales
    (auto intro: run_frame_inv [OF vec_std_ok] revert_dangling_inv run_frame_settled dest: run_frame_void [OF vec_std_ok])

lemma run_frames_eq: "run_frames vec_std fs d = port.run_all fs d"
  by (induction fs arbitrary: d) (auto split: bind_splits)


subsection \<open>Replies\<close>

fun status_events :: "reply_event list \<Rightarrow> bytes list" where
  "status_events [] = []"
| "status_events (EvStatus _ _ data # es) = data # status_events es"
| "status_events (EvGather _ _ spans # es) = concat spans # status_events es"
| "status_events (_ # es) = status_events es"

lemma status_events_append [simp]: "status_events (xs @ ys) = status_events xs @ status_events ys"
  by (induction xs rule: status_events.induct) simp_all

lemma status_hooks [simp]: "status_events (dispatch_events mem addr len) = []"
  by (simp add: dispatch_events_def dispatch_hooks_def control_hooks run_hook_def on_id_write_def
      on_baud_rate_idx_write_def on_response_deadline_us_write_def split: option.split)

lemma status_fire_spans [simp]: "status_events (snd (fire_spans ss d)) = []"
  by (induction ss d rule: fire_spans.induct) (simp_all add: Let_def split_beta)

lemma status_ack [simp]:
  "status_events (ack_code al ctx c) = (if may_reply ctx then [[]] else [])"
  "status_events (ack al ctx r) = (if may_reply ctx then [[]] else [])"
  "status_events (instruction_error al ctx) = (if may_reply ctx then [[]] else [])"
  by (simp_all add: ack_code_def ack_def instruction_error_def)

lemma rf_read_length: "rf_read control_map mem a n = Inr x \<Longrightarrow> length x \<le> unat n"
  by (auto simp: rf_read_def Let_def split: if_splits)

lemma span_of_bound: "span_of w = Some (a, n) \<Longrightarrow> unat n \<le> 63"
proof -
  assume "span_of w = Some (a, n)"
  then have n: "n = w AND 0x3F" by (auto simp: span_of_def Let_def split: if_splits)
  have "w AND 0x3F \<le> 0x3F" by (rule word_and_le1)
  then show ?thesis by (simp add: n word_le_nat_alt)
qed

lemma profile_gather_total:
  "profile_gather mem ws spans tot = Some (spans', tot') \<Longrightarrow> length (concat spans) \<le> unat tot \<Longrightarrow>
   unat tot + 63 * length ws < 65536 \<Longrightarrow> length (concat spans') \<le> unat tot'"
proof (induction mem ws spans tot rule: profile_gather.induct)
  case (2 mem w ws spans tot)
  show ?case
  proof (cases "span_of w")
    case None
    then show ?thesis using 2 by simp
  next
    case (Some p)
    obtain a n where p: "p = (a, n)" by (cases p)
    obtain data where d: "rf_read control_map mem a n = Inr data"
      using 2(3) Some p by (auto split: sum.splits)
    have n: "unat n \<le> 63" using span_of_bound Some p by simp
    then have u: "unat (tot + n) = unat tot + unat n"
      using 2(5) unat_of_nat_add16 [of "unat tot" "unat n"] by simp
    show ?thesis
      using 2(2) [OF Some p [symmetric] d] 2(3-5) Some p d n u rf_read_length [OF d] by simp
  qed
qed simp

lemma slot_words_length: "slot_words mem slot = Some ws \<Longrightarrow> length ws = 8"
  by (auto simp: slot_words_def Let_def osc_const split: if_splits)

lemma read_profile_fits: "list_all (\<lambda>x. length x \<le> 252) (status_events (read_profile d al ctx slot))"
proof -
  have "length (concat sp) \<le> 252"
    if "slot_words (d_table d) slot = Some ws" "profile_gather (d_table d) ws [] 0 = Some (sp, n)" "\<not> n > ucast MAX_PAYLOAD" for ws sp n
  proof -
    have "length (concat sp) \<le> unat n"
      using profile_gather_total [OF that(2)] slot_words_length [OF that(1)] by simp
    moreover have "unat n \<le> 252" using that(3) by (simp add: not_less word_le_nat_alt MAX_PAYLOAD_def)
    ultimately show ?thesis by simp
  qed
  then show ?thesis by (auto simp: read_profile_def split: option.split)
qed

lemma disp_read_fits: "list_all (\<lambda>x. length x \<le> 252) (status_events (disp_read d al ctx addr n))"
  using rf_read_length [of "d_table d" addr n]
  by (auto simp: disp_read_def not_less word_le_nat_alt MAX_PAYLOAD_def split: sum.split intro: order_trans)

lemma ping_fits: "list_all (\<lambda>x. length x \<le> 252) (status_events (ping d al ctx))"
  using rf_read_length [of "d_table d" ADDR_MODEL_NUMBER 3] by (auto simp: ping_def split: sum.split)

text \<open>C12. Every reply is lawful. A request whose context forbids a reply is never answered, any request
  is answered at most once, and every answer, including the concatenated spans of a read profile, fits
  the 252-byte payload of one frame.\<close>

theorem dispatch_reply_lawful:
  assumes "disp_inv d" "dispatch V d req ctx = Some (d', ev, r)"
  shows "(\<not> may_reply ctx \<longrightarrow> status_events ev = []) \<and> length (status_events ev) \<le> 1 \<and>
    list_all (\<lambda>x. length x \<le> unat MAX_PAYLOAD) (status_events ev)"
proof -
  have uid: "length (sh_uid (d_shared d)) = 16" using assms(1) by (simp add: disp_inv_def UID_LEN_def)
  show ?thesis
  proof (cases req)
    case (ReqReadProfile slot)
    then show ?thesis
      using assms(2) read_profile_fits [of "revert_dangling d" "alert (revert_dangling d)" ctx slot]
      by (auto simp: dispatch_def Let_def read_profile_def MAX_PAYLOAD_def split: option.splits)
  next
    case (ReqRead addr n)
    then show ?thesis
      using assms(2) disp_read_fits [of "revert_dangling d" "alert (revert_dangling d)" ctx addr n]
      by (auto simp: dispatch_def Let_def disp_read_def MAX_PAYLOAD_def split: sum.splits)
  next
    case ReqPing
    then show ?thesis
      using assms(2) ping_fits [of "revert_dangling d" "alert (revert_dangling d)" ctx]
      by (auto simp: dispatch_def Let_def ping_def MAX_PAYLOAD_def)
  next
    case (ReqMgmt op args)
    then show ?thesis
      using assms(2)
      by (auto simp: dispatch_def Let_def mgmt_def disp_save_def disp_factory_def stage_reboot_event_def split_beta
          split: mgmt_op.splits if_splits prod.splits bool.splits)
  qed (use assms(2) uid in \<open>auto simp: dispatch_def Let_def disp_write_def apply_commit_def disp_assign_def disp_enumerate_def
      MAX_PAYLOAD_def split_beta split: sum.splits ct_error.splits if_splits option.splits bool.splits\<close>)
qed


definition fresh :: "unit dispatcher" where "fresh = session_new (shared_new ())"

lemma fresh_inv: "disp_inv fresh"
  unfolding fresh_def
  by (rule session_new_inv) (simp_all add: shared_new_def table_ok_def table_new_ok)

theorem dispatch_reply_lawful_witness:
  "status_events (instruction_error False \<lparr> may_reply = False \<rparr>) = [] \<and>
   (\<exists>d' ev r. dispatch vec_std fresh ReqUnsupported \<lparr> may_reply = False \<rparr> = Some (d', ev, r) \<and> status_events ev = [])"
proof -
  obtain d' ev r where "dispatch vec_std fresh ReqUnsupported \<lparr> may_reply = False \<rparr> = Some (d', ev, r)"
    by (simp add: dispatch_def Let_def)
  with dispatch_reply_lawful [OF fresh_inv this] show ?thesis by auto
qed

text \<open>C13. The dispatcher's invariant. In every state the dispatcher can reach from a sound table by any
  interleaving of dispatches, commits and reverts, including frames that die without a verdict, the table
  keeps its size, no enum or bool register holds an unlisted discriminant, the staging buffer is well
  formed within its capacities, and a pending write's snapshot still marks a state of that buffer.\<close>

theorem dispatcher_invariant:
  assumes "vec_ok V" "table_ok (sh_table sh)" "length (sh_uid sh) = UID_LEN" "disp_reachable V sh d"
  shows "length (d_table d) = rm_SIZE control_map \<and> enums_ok (d_table d) \<and> staged_inv (d_staged d) \<and>
    pending_ok (d_staged d) (d_pending d)"
  using disp_reachable_inv [OF assms(1-3) assms(4)] by (simp add: disp_inv_def table_ok_def writes_ok_def)

theorem dispatcher_invariant_witness:
  "\<exists>d'. disp_reachable vec_std (shared_new ()) d' \<and> dispatch vec_std fresh ReqCommit \<lparr> may_reply = True \<rparr> = Some (d', [EvStatus RcOk False []], Done) \<and>
     enums_ok (d_table d')"
proof -
  obtain d' where d': "dispatch vec_std fresh ReqCommit \<lparr> may_reply = True \<rparr> = Some (d', [EvStatus RcOk False []], Done)"
    by (simp add: dispatch_def Let_def fresh_def session_new_def revert_dangling_def apply_commit_def rf_commit_staged_def
        iter_all_alt alert_def shared_new_def reg8_def table_new_def TABLE_SIZE_def osc_const ack_def ack_code_def)
      (simp add: staged_new_def)
  have "disp_reachable vec_std (shared_new ()) fresh" unfolding fresh_def by (rule disp_reachable.Boot)
  from disp_reachable.Step [OF this disp_step.Dispatch [OF d']] have r: "disp_reachable vec_std (shared_new ()) d'" .
  have "enums_ok (d_table d')"
    using dispatcher_invariant [OF vec_std_ok _ _ r] table_new_ok by (simp add: shared_new_def table_ok_def)
  with r d' show ?thesis by blast
qed

text \<open>C14. The write path. Dispatching a write never touches the table. A revert restores the exact state
  the frame found; a passing verdict on a plain write makes the table what the direct validated write
  would have made it, with the modified-since-save bit set exactly for persistent spans, and leaves the
  earlier held writes staged; on a held write it leaves the table alone and appends the write to the
  staged ones. The dispatcher owes a verdict exactly when the write validated and found room.\<close>

theorem write_takes_effect_on_verdict:
  assumes "vec_ok V" "disp_inv d" "dispatch V d (ReqWrite addr data hold) ctx = Some (d', ev, r)"
  defines "s \<equiv> revert_dangling d"
  shows "d_table d' = d_table d \<and> disp_revert d' = s \<and>
    (r = Pending \<longleftrightarrow> snd (rf_stage_split V control_map (d_table d) addr (fb_head data) (fb_tail data) (d_staged s)) = Inr ()) \<and>
    (r = Pending \<and> \<not> hold \<longrightarrow> d_staged (fst (disp_commit d')) = d_staged s \<and>
       d_table (fst (disp_commit d')) =
         (let m = fst (rf_write_split control_map (d_table d) addr (fb_head data) (fb_tail data))
          in if hits_persistent addr (of_nat (fb_len data)) then set_dirty m else m)) \<and>
    (r = Pending \<and> hold \<longrightarrow> d_table (fst (disp_commit d')) = d_table d \<and>
       iter_all (d_staged (fst (disp_commit d'))) = iter_all (d_staged s) @ [(addr, fb_head data @ fb_tail data)])"
proof -
  have i: "disp_inv s" and p: "d_pending s = None" using assms revert_dangling_inv by (simp_all add: s_def)
  have w: "disp_write V s (alert s) ctx addr data hold = (d', ev, r)"
    using assms(3) by (simp add: dispatch_def Let_def s_def)
  have iff: "r = Pending \<longleftrightarrow> snd (rf_stage_split V control_map (d_table s) addr (fb_head data) (fb_tail data) (d_staged s)) = Inr ()"
    using w by (auto simp: disp_write_def fb_segments_def Let_def split_beta split: sum.splits ct_error.splits)
  show ?thesis
    using disp_write_shape [OF assms(1) i p w [symmetric]] disp_write_commit [OF assms(1) i p, of "alert s" ctx addr data hold d' ev] w iff
    by (cases r; cases hold) (auto simp: disp_revert_eq s_def)
qed

theorem write_takes_effect_on_verdict_witness:
  "\<exists>d' ev r. dispatch vec_std fresh (ReqWrite 0x188 (fb_new [1] [0]) False) \<lparr> may_reply = True \<rparr> = Some (d', ev, r) \<and>
     disp_revert d' = revert_dangling fresh"
proof -
  obtain d' ev r where "dispatch vec_std fresh (ReqWrite 0x188 (fb_new [1] [0]) False) \<lparr> may_reply = True \<rparr> = Some (d', ev, r)"
    by (cases "disp_write vec_std (revert_dangling fresh) (alert (revert_dangling fresh)) \<lparr> may_reply = True \<rparr> 0x188 (fb_new [1] [0]) False")
      (auto simp: dispatch_def Let_def)
  with write_takes_effect_on_verdict [OF vec_std_ok fresh_inv this] show ?thesis by blast
qed

text \<open>C15. Only verified frames count. Run any sequence of frames through dispatch and verdict, where each
  frame passes, fails or dies: once anything still unverified is dropped, the servo is in the same state
  as if the frames that did not pass had never been on the wire.\<close>

theorem only_verified_frames_count:
  assumes "vec_ok V" "disp_inv d" "run_frames V fs d = Some d'"
  shows "\<exists>d''. run_frames V (filter frame_passes fs) d = Some d'' \<and> revert_dangling d'' = revert_dangling d'"
  using port.only_passing_count [OF assms(2)] assms(3)
  by (simp add: vec_ok_unique [OF assms(1)] run_frames_eq)

theorem only_verified_frames_count_witness:
  "\<exists>d'. run_frames vec_std [(ReqWrite 0x188 (fb_new [1] [0]) True, \<lparr> may_reply = True \<rparr>, VDied)] fresh = Some d' \<and>
     revert_dangling fresh = revert_dangling d'"
proof -
  obtain d' where r: "run_frames vec_std [(ReqWrite 0x188 (fb_new [1] [0]) True, \<lparr> may_reply = True \<rparr>, VDied)] fresh = Some d'"
    by (cases "disp_write vec_std (revert_dangling fresh) (alert (revert_dangling fresh)) \<lparr> may_reply = True \<rparr> 0x188 (fb_new [1] [0]) True")
      (auto simp: run_frame_def dispatch_def Let_def)
  from only_verified_frames_count [OF vec_std_ok fresh_inv r] r show ?thesis
    by (auto simp: frame_passes_def)
qed

subsection \<open>Held writes and COMMIT\<close>

lemma set_dirty_twice [simp]: "set_dirty (set_dirty m) = set_dirty m"
  by (cases "unat ADDR_STATUS_FLAGS < length m")
    (simp_all add: set_dirty_def set_reg8_def reg8_def list_update_beyond not_less)

lemma fire_spans_effect:
  "d_table (fst (fire_spans ss d)) =
     (if list_ex (\<lambda>(a, l). hits_persistent a l) ss then set_dirty (d_table d) else d_table d) \<and>
   d_staged (fst (fire_spans ss d)) = d_staged d"
proof (induction ss d rule: fire_spans.induct)
  case (2 addr len ss d)
  from 2 [OF refl] show ?case by (auto simp: Let_def split_beta)
qed simp

definition held_frame :: "request_ctx \<Rightarrow> u16 \<times> frame_bytes \<Rightarrow> frame_run" where
  "held_frame ctx w = (ReqWrite (fst w) (snd w) True, ctx, VPass)"

definition write_of :: "u16 \<times> frame_bytes \<Rightarrow> u16 \<times> bytes" where
  "write_of w = (fst w, fb_head (snd w) @ fb_tail (snd w))"

lemma held_frame_run:
  assumes V: "vec_ok V" and inv: "disp_inv d" and r: "run_frame V (held_frame ctx w) d = Some d'"
  shows "d_table d' = d_table d \<and> disp_inv d' \<and> d_pending d' = None \<and>
    (iter_all (d_staged d') = iter_all (d_staged (revert_dangling d)) @ [write_of w] \<or>
     iter_all (d_staged d') = iter_all (d_staged (revert_dangling d)))"
proof -
  let ?s = "revert_dangling d"
  have i: "disp_inv ?s" and p: "d_pending ?s = None" using revert_dangling_inv [OF inv] by simp_all
  obtain d1 ev q where w: "disp_write V ?s (alert ?s) ctx (fst w) (snd w) True = (d1, ev, q)"
    by (cases "disp_write V ?s (alert ?s) ctx (fst w) (snd w) True") auto
  have d': "d' = (case q of Pending \<Rightarrow> fst (disp_commit d1) | Done \<Rightarrow> d1)"
    using r w by (simp add: run_frame_def held_frame_def dispatch_def Let_def split: dispatched.splits)
  have inv': "disp_inv d'" using run_frame_inv [OF V inv r] .
  show ?thesis
  proof (cases q)
    case Pending
    have "d_pending (fst (disp_commit d1)) = None" by (simp add: disp_commit_def Let_def split_beta split: option.split)
    with disp_write_commit(2) [OF V i p w [unfolded Pending]] inv' show ?thesis
      by (simp add: d' Pending write_of_def)
  next
    case Done
    have sh: "d_shared d1 = d_shared d" "revert_dangling d1 = ?s"
      using disp_write_shape [OF V i p w [symmetric]] by simp_all
    have "d_pending d1 = None"
      using w p Done by (auto simp: disp_write_def fb_segments_def Let_def split_beta split: sum.splits ct_error.splits)
    then have "d1 = ?s" using sh(2) by (simp add: revert_dangling_def)
    then show ?thesis using inv' by (simp add: d' Done)
  qed
qed

lemma held_frames_run:
  "vec_ok V \<Longrightarrow> disp_inv d \<Longrightarrow> d_pending d = None \<Longrightarrow> run_frames V (map (held_frame ctx) ws) d = Some d' \<Longrightarrow>
   d_table d' = d_table d \<and> disp_inv d' \<and> d_pending d' = None \<and>
   (\<exists>acc. subseq acc ws \<and> iter_all (d_staged d') = iter_all (d_staged d) @ map write_of acc)"
proof (induction ws arbitrary: d)
  case (Cons w ws)
  obtain d1 where d1: "run_frame V (held_frame ctx w) d = Some d1" and rest: "run_frames V (map (held_frame ctx) ws) d1 = Some d'"
    using Cons.prems(4) by (auto split: bind_splits)
  have s: "revert_dangling d = d" using Cons.prems(3) by (simp add: revert_dangling_def)
  note h = held_frame_run [OF Cons.prems(1,2) d1, unfolded s]
  have i1: "disp_inv d1" and p1: "d_pending d1 = None" using h by simp_all
  obtain acc where acc: "subseq acc ws" "iter_all (d_staged d') = iter_all (d_staged d1) @ map write_of acc"
    and t: "d_table d' = d_table d1" "disp_inv d'" "d_pending d' = None"
    using Cons.IH [OF Cons.prems(1) i1 p1 rest] by (elim conjE exE)
  have "\<exists>acc'. subseq acc' (w # ws) \<and> iter_all (d_staged d') = iter_all (d_staged d) @ map write_of acc'"
  proof (cases "iter_all (d_staged d1) = iter_all (d_staged d)")
    case True
    then show ?thesis using acc by (auto intro!: exI [of _ acc])
  next
    case False
    then have "iter_all (d_staged d1) = iter_all (d_staged d) @ [write_of w]" using h by blast
    then show ?thesis using acc by (auto intro!: exI [of _ "w # acc"])
  qed
  then show ?case using h t by simp
qed (auto simp: disp_inv_def)

text \<open>HOLD and COMMIT are one atomic update. However many held writes pass, the table does not move;
  the ones accepted are staged in order. The COMMIT that follows empties the buffer and makes the table
  the in-order application of exactly those writes, with the modified-since-save bit set when one of
  them reached a persistent span.\<close>

theorem held_writes_commit_atomically:
  assumes V: "vec_ok V" and inv: "disp_inv d" and clean: "d_pending d = None" "iter_all (d_staged d) = []"
    and held: "run_frames V (map (held_frame ctx) ws) d = Some d1"
    and commit: "dispatch V d1 ReqCommit ctx' = Some (d2, ev, r)"
  shows "d_table d1 = d_table d \<and> iter_all (d_staged d2) = [] \<and>
    (\<exists>acc. subseq acc ws \<and>
       d_table d2 =
         (let m = apply_writes (rm_SIZE control_map) (d_table d) (map write_of acc)
          in if list_ex (\<lambda>(a, x). hits_persistent a (of_nat (length x))) (map write_of acc) then set_dirty m else m))"
proof -
  obtain acc where acc: "subseq acc ws" "iter_all (d_staged d1) = map write_of acc"
    and d1: "d_table d1 = d_table d" "disp_inv d1" "d_pending d1 = None"
    using held_frames_run [OF V inv clean(1) held] clean(2) by auto
  have s: "revert_dangling d1 = d1" using d1 by (simp add: revert_dangling_def)
  have "length (iter_all (d_staged d1)) \<le> STAGE_ENTRY_CAP"
    using d1(2) by (simp add: disp_inv_def writes_ok_def staged_inv_def iter_all_alt)
  then have "take STAGE_ENTRY_CAP (map (\<lambda>(a, x). (a, of_nat (length x) :: u16)) (map write_of acc)) =
      map (\<lambda>(a, x). (a, of_nat (length x))) (map write_of acc)"
    by (simp add: acc(2))
  then have "d2 = fst (fire_spans (map (\<lambda>(a, x). (a, of_nat (length x))) (map write_of acc))
      (with_table (\<lambda>_. apply_writes 1024 (d_table d) (map write_of acc)) (d1\<lparr> d_staged := staged_clear (d_staged d1) \<rparr>)))"
    using commit acc(2) d1(1)
    by (simp add: dispatch_def Let_def s apply_commit_def rf_commit_staged_def apply_from_def split_beta flip: iter_all_def)
  then show ?thesis
    using acc(1) d1(1) staged_clear_wipes [of "d_staged d1"]
    by (auto simp: fire_spans_effect list_ex_iff Let_def split_beta intro!: exI [of _ acc])
qed


lemma held_write_runs: "\<exists>d'. run_frames V (map (held_frame ctx) ws) d = Some d'"
proof (induction ws arbitrary: d)
  case (Cons w ws)
  have "\<exists>d1. run_frame V (held_frame ctx w) d = Some d1"
    by (cases "disp_write V (revert_dangling d) (alert (revert_dangling d)) ctx (fst w) (snd w) True")
      (simp add: run_frame_def held_frame_def dispatch_def Let_def)
  then show ?case using Cons.IH by auto
qed simp

lemma commit_runs: "\<exists>d' ev r. dispatch V d ReqCommit ctx = Some (d', ev, r)"
  by (simp add: dispatch_def Let_def split_beta)

theorem held_writes_commit_atomically_witness:
  "\<exists>d1 d2 ev r. run_frames vec_std (map (held_frame \<lparr> may_reply = True \<rparr>) [(0x188, fb_new [1] [0]), (0x18A, fb_new [2] [])]) fresh = Some d1 \<and>
     dispatch vec_std d1 ReqCommit \<lparr> may_reply = True \<rparr> = Some (d2, ev, r) \<and> d_table d1 = table_new \<and> iter_all (d_staged d2) = []"
proof -
  obtain d1 where h: "run_frames vec_std (map (held_frame \<lparr> may_reply = True \<rparr>) [(0x188, fb_new [1] [0]), (0x18A, fb_new [2] [])]) fresh = Some d1"
    using held_write_runs by blast
  obtain d2 ev r where c: "dispatch vec_std d1 ReqCommit \<lparr> may_reply = True \<rparr> = Some (d2, ev, r)" using commit_runs by blast
  have "d_pending fresh = None" "iter_all (d_staged fresh) = []" "d_table fresh = table_new"
    by (simp_all add: fresh_def session_new_def iter_all_alt shared_new_def) (simp add: staged_new_def)
  with held_writes_commit_atomically [OF vec_std_ok fresh_inv _ _ h c] show ?thesis using h c by auto
qed

subsection \<open>Rules between registers and held writes\<close>

definition limits_table :: bytes where
  "limits_table = seed_config_defaults \<lparr> cd_pos_min_phys_urad = 0, cd_pos_max_phys_urad = 1000, cd_vdd_mv = 3300,
     cd_id = 1, cd_baud = B1000000, cd_response_deadline_us = 100 \<rparr> table_new"

lemma limits_table_nth:
  "length limits_table = 1024"
  "limits_table ! 0x20 = 0" "limits_table ! 0x21 = 0" "limits_table ! 0x22 = 0" "limits_table ! 0x23 = 0"
  "limits_table ! 0x24 = 0xE8" "limits_table ! 0x25 = 3" "limits_table ! 0x26 = 0" "limits_table ! 0x27 = 0"
  "limits_table ! 0x28 = 0" "limits_table ! 0x29 = 0" "limits_table ! 0x2A = 0" "limits_table ! 0x2B = 0"
  "limits_table ! 0x2C = 0xE8" "limits_table ! 0x2D = 3" "limits_table ! 0x2E = 0" "limits_table ! 0x2F = 0"
  by (simp_all add: limits_table_def seed_config_defaults_def Let_def nth_put osc_const table_new_def set_reg8_def
      le32_bytes_def le16_bytes_def)

lemmas rule_eval = section_rules_hold_def control_map_SECTIONS stripe_def slice_opt_def control_map_ALLOWED control_map_CMP
  overlaps_def rule_width_def rule_rhs_def check_cmp_def widen_def read_fixed_overlay overlay_byte_def view_new_def
  view_new_split_def upt_4 SPEC_SIGNED_def SPEC_ABS_def SPEC_RHS_REG_def OP_LT_def OP_LE_def OP_GT_def OP_GE_def OP_EQ_def
  le32_def limits_table_nth

lemma limits_writable: "0x20 \<le> a \<Longrightarrow> a < 0x30 \<Longrightarrow> writable control_map a"
proof -
  assume a: "0x20 \<le> a" "a < 0x30"
  consider "a < 0x24" | "0x24 \<le> a" "a < 0x28" | "0x28 \<le> a" "a < 0x2C" | "0x2C \<le> a" by linarith
  then show "writable control_map a" unfolding control_writable marks_def using a by cases auto
qed

lemma min_soft_validates: "validate control_map limits_table 0x28 [0x84, 3, 0, 0] [] = Inr ()"
  by (subst validate_contiguous_iff [OF control_map_sorted]) (simp_all add: limits_writable rule_eval)

lemma max_soft_validates: "validate control_map limits_table 0x2C [0xF4, 1, 0, 0] [] = Inr ()"
  by (subst validate_contiguous_iff [OF control_map_sorted]) (simp_all add: limits_writable rule_eval)


definition limits_session :: "unit dispatcher" where
  "limits_session = session_new ((shared_new ())\<lparr> sh_table := limits_table \<rparr>)"

lemmas frame_eval = run_frame_def held_frame_def dispatch_def Let_def revert_dangling_def disp_write_def fb_segments_def fb_new_def
  rf_stage_split_def push_split_def vec_std_def disp_commit_def staged_snapshot_def STAGE_DATA_CAP_def STAGE_ENTRY_CAP_def

lemma held_min_soft:
  "run_frame vec_std (held_frame \<lparr> may_reply = False \<rparr> (0x28, fb_new [0x84, 3, 0, 0] [])) limits_session =
   Some (limits_session\<lparr> d_staged := \<lparr> sw_data = [0x84, 3, 0, 0],
     sw_entries = [\<lparr> se_addr = 0x28, se_len = 4, se_data_off = 0 \<rparr>] \<rparr> \<rparr>)"
  by (simp add: frame_eval min_soft_validates limits_session_def session_new_def) (simp add: staged_new_def)

lemma held_max_soft:
  "run_frame vec_std (held_frame \<lparr> may_reply = False \<rparr> (0x2C, fb_new [0xF4, 1, 0, 0] []))
     (limits_session\<lparr> d_staged := \<lparr> sw_data = [0x84, 3, 0, 0],
        sw_entries = [\<lparr> se_addr = 0x28, se_len = 4, se_data_off = 0 \<rparr>] \<rparr> \<rparr>) =
   Some (limits_session\<lparr> d_staged := \<lparr> sw_data = [0x84, 3, 0, 0, 0xF4, 1, 0, 0],
     sw_entries = [\<lparr> se_addr = 0x28, se_len = 4, se_data_off = 0 \<rparr>, \<lparr> se_addr = 0x2C, se_len = 4, se_data_off = 4 \<rparr>] \<rparr> \<rparr>)"
  by (simp add: frame_eval max_soft_validates limits_session_def session_new_def)

lemma committed_limits:
  assumes "dispatch vec_std (limits_session\<lparr> d_staged := \<lparr> sw_data = [0x84, 3, 0, 0, 0xF4, 1, 0, 0],
     sw_entries = [\<lparr> se_addr = 0x28, se_len = 4, se_data_off = 0 \<rparr>, \<lparr> se_addr = 0x2C, se_len = 4, se_data_off = 4 \<rparr>] \<rparr> \<rparr>)
     ReqCommit ctx = Some (d', ev, r)"
  shows "d_table d' = set_dirty (put 0x2C [0xF4, 1, 0, 0] (put 0x28 [0x84, 3, 0, 0] limits_table))"
proof -
  have hp: "hits_persistent 0x28 4" by (simp add: hits_persistent_def osc_const)
  show ?thesis
    using assms
    by (auto simp: dispatch_def Let_def revert_dangling_def limits_session_def session_new_def apply_commit_def rf_commit_staged_def
        apply_from_def iter_from_def iter_all_def snapshot_ZERO_def entry_span_def STAGE_ENTRY_CAP_def split_beta fire_spans_effect hp
        shared_new_def)
qed

text \<open>C16. A rule that relates two registers does not survive COMMIT. Both soft limits of a sound
  configuration are moved by held writes, each accepted because it is checked against the live table
  alone; COMMIT applies them without looking again and leaves the lower limit above the upper one, which
  the rule on either register forbids.\<close>

theorem held_writes_break_cross_rule:
  "\<exists>d'. run_frames vec_std [held_frame \<lparr> may_reply = False \<rparr> (0x28, fb_new [0x84, 3, 0, 0] []),
       held_frame \<lparr> may_reply = False \<rparr> (0x2C, fb_new [0xF4, 1, 0, 0] []), (ReqCommit, \<lparr> may_reply = True \<rparr>, VPass)]
       limits_session = Some d' \<and>
     check_cmp (view_new (d_table limits_session) 1024 0 []) 0x28 0x54 (RhsReg 0x2C) = Inr () \<and>
     check_cmp (view_new (d_table d') 1024 0 []) 0x28 0x54 (RhsReg 0x2C) = Inl (ValidationError VkCompare)"
proof -
  let ?s = "limits_session\<lparr> d_staged := \<lparr> sw_data = [0x84, 3, 0, 0, 0xF4, 1, 0, 0],
     sw_entries = [\<lparr> se_addr = 0x28, se_len = 4, se_data_off = 0 \<rparr>, \<lparr> se_addr = 0x2C, se_len = 4, se_data_off = 4 \<rparr>] \<rparr> \<rparr>"
  obtain d' ev r where c: "dispatch vec_std ?s ReqCommit \<lparr> may_reply = True \<rparr> = Some (d', ev, r)" using commit_runs by blast
  have r: "r = Done" using c by (auto simp: dispatch_def Let_def split_beta)
  have "d_table d' ! n = (put 0x2C [0xF4, 1, 0, 0] (put 0x28 [0x84, 3, 0, 0] limits_table)) ! n" if "n < 0x100" for n
    using that by (simp add: committed_limits [OF c] set_dirty_def set_reg8_def osc_const)
  then have b: "d_table d' ! n = (if n < 0x2C then [0x84, 3, 0, 0] ! (n - 0x28) else [0xF4, 1, 0, 0] ! (n - 0x2C))"
    if "0x28 \<le> n" "n < 0x30" for n
    using that by (simp add: nth_put limits_table_nth)
  have "check_cmp (view_new (d_table d') 1024 0 []) 0x28 0x54 (RhsReg 0x2C) = Inl (ValidationError VkCompare)"
    by (simp add: rule_eval b)
  moreover have "check_cmp (view_new (d_table limits_session) 1024 0 []) 0x28 0x54 (RhsReg 0x2C) = Inr ()"
    by (simp add: rule_eval limits_session_def session_new_def)
  ultimately show ?thesis
    using c r by (simp add: held_min_soft held_max_soft) (simp add: run_frame_def)
qed

end
