(* ===== verification/Bus_Chain.thy ===== *)
theory Bus_Chain
  imports Osc_Prelude
begin

text \<open>
  The reply sequencer of the servo transport (\<open>drivers/src/bus/chain.rs\<close>): a state machine that
  holds one staged reply, counts the predecessor status frames of a GREAD chain (or the reclaim
  windows that expire in their place) and then starts the reply. Ticks are \<open>u32\<close> and wrap.

  The second half composes the sequencers of all servos that one GREAD lists: a fleet on one
  wire, in which the sequencers fire at their armed ticks and hear each other's frames.
\<close>

subsection \<open>State and operations\<close>

datatype chain_out = ChNone | ChWait u32 | ChTrigger bool

datatype chain_state = ChIdle | ChPending bool | ChWaiting u8 bool

record chain =
  ch_state :: chain_state
  ch_reply_gap :: u32
  ch_reclaim :: u32
  ch_allowance :: u32

definition chain_new :: chain where
  "chain_new = \<lparr> ch_state = ChIdle, ch_reply_gap = 0, ch_reclaim = 0, ch_allowance = 0 \<rparr>"

definition chain_active :: "chain \<Rightarrow> bool" where
  "chain_active c = (case ch_state c of ChIdle \<Rightarrow> False | _ \<Rightarrow> True)"

definition chain_waiting :: "chain \<Rightarrow> bool" where
  "chain_waiting c = (case ch_state c of ChWaiting _ _ \<Rightarrow> True | _ \<Rightarrow> False)"

definition chain_reset :: "chain \<Rightarrow> chain" where
  "chain_reset c = c\<lparr>ch_state := ChIdle\<rparr>"

definition saturating_sub8 :: "u8 \<Rightarrow> u8 \<Rightarrow> u8" where
  "saturating_sub8 a b = (if b \<le> a then a - b else 0)"

definition chain_on_reply_staged ::
  "chain \<Rightarrow> u8 \<Rightarrow> u32 \<Rightarrow> u32 \<Rightarrow> u32 \<Rightarrow> u32 \<Rightarrow> chain \<times> chain_out" where
  "chain_on_reply_staged c slot fin reply_gap reclaim allowance =
     (let c = c\<lparr>ch_reply_gap := reply_gap, ch_reclaim := reclaim, ch_allowance := allowance\<rparr>
      in if slot = 0
         then (c\<lparr>ch_state := ChPending False\<rparr>, ChWait (fin + reply_gap))
         else (c\<lparr>ch_state := ChWaiting slot False\<rparr>, ChWait (fin + reply_gap + reclaim)))"

definition chain_on_break_observed :: "chain \<Rightarrow> u32 \<Rightarrow> chain_out" where
  "chain_on_break_observed c now =
     (case ch_state c of ChWaiting _ _ \<Rightarrow> ChWait (now + ch_allowance c) | _ \<Rightarrow> ChNone)"

definition chain_on_status_end :: "chain \<Rightarrow> u32 \<Rightarrow> chain \<times> chain_out" where
  "chain_on_status_end c fin =
     (case ch_state c of
        ChWaiting remaining silent \<Rightarrow>
          (let remaining = saturating_sub8 remaining 1
           in if remaining = 0
              then (c\<lparr>ch_state := ChPending silent\<rparr>, ChWait (fin + ch_reply_gap c))
              else (c\<lparr>ch_state := ChWaiting remaining silent\<rparr>,
                    ChWait (fin + ch_reply_gap c + ch_reclaim c)))
      | _ \<Rightarrow> (c, ChNone))"

definition chain_on_deadline :: "chain \<Rightarrow> u32 \<Rightarrow> chain \<times> chain_out" where
  "chain_on_deadline c now =
     (case ch_state c of
        ChPending silent \<Rightarrow> (c\<lparr>ch_state := ChIdle\<rparr>, ChTrigger silent)
      | ChWaiting remaining _ \<Rightarrow>
          (let remaining = saturating_sub8 remaining 1
           in if remaining = 0
              then (c\<lparr>ch_state := ChIdle\<rparr>, ChTrigger True)
              else (c\<lparr>ch_state := ChWaiting remaining True\<rparr>, ChWait (now + ch_reclaim c)))
      | ChIdle \<Rightarrow> (c, ChNone))"

subsection \<open>Runs of one sequencer\<close>

datatype chain_event = CeBreak u32 | CeStatus u32 | CeDeadline u32

fun chain_step :: "chain \<Rightarrow> chain_event \<Rightarrow> chain \<times> chain_out" where
  "chain_step c (CeBreak now) = (c, chain_on_break_observed c now)"
| "chain_step c (CeStatus fin) = chain_on_status_end c fin"
| "chain_step c (CeDeadline now) = chain_on_deadline c now"

fun chain_run :: "chain \<Rightarrow> chain_event list \<Rightarrow> chain \<times> chain_out list" where
  "chain_run c [] = (c, [])"
| "chain_run c (e # es) =
     (let (c', x) = chain_step c e; (c'', xs) = chain_run c' es in (c'', x # xs))"

fun is_deadline :: "chain_event \<Rightarrow> bool" where
  "is_deadline (CeDeadline _) = True"
| "is_deadline _ = False"

fun is_break :: "chain_event \<Rightarrow> bool" where
  "is_break (CeBreak _) = True"
| "is_break _ = False"

definition heard :: "chain_event list \<Rightarrow> nat" where
  "heard es = length (filter (\<lambda>e. \<not> is_break e) es)"

definition reclaimed :: "chain_event list \<Rightarrow> bool" where
  "reclaimed es = (\<exists>e\<in>set es. is_deadline e)"

fun triggers :: "chain_out list \<Rightarrow> bool list" where
  "triggers [] = []"
| "triggers (ChTrigger s # xs) = s # triggers xs"
| "triggers (_ # xs) = triggers xs"

lemmas chain_defs = chain_on_break_observed_def chain_on_status_end_def chain_on_deadline_def
  saturating_sub8_def Let_def

lemma triggers_append [simp]: "triggers (xs @ ys) = triggers xs @ triggers ys"
  by (induction xs rule: triggers.induct) auto

lemma heard_simps [simp]:
  "heard [] = 0" "heard (CeBreak t # es) = heard es" "heard (CeStatus t # es) = Suc (heard es)"
  "heard (CeDeadline t # es) = Suc (heard es)" "heard (es @ fs) = heard es + heard fs"
  by (simp_all add: heard_def)

lemma reclaimed_simps [simp]:
  "\<not> reclaimed []" "reclaimed (CeBreak t # es) = reclaimed es"
  "reclaimed (CeStatus t # es) = reclaimed es" "reclaimed (CeDeadline t # es)"
  "reclaimed (es @ fs) = (reclaimed es \<or> reclaimed fs)"
  by (auto simp: reclaimed_def)

lemma chain_run_Cons [simp]:
  "fst (chain_run c (e # es)) = fst (chain_run (fst (chain_step c e)) es)"
  "snd (chain_run c (e # es)) = snd (chain_step c e) # snd (chain_run (fst (chain_step c e)) es)"
  by (simp_all add: Let_def split: prod.splits)

declare chain_run.simps(2) [simp del]

lemma chain_run_append:
  "snd (chain_run c (es @ fs)) = snd (chain_run c es) @ snd (chain_run (fst (chain_run c es)) fs)"
  by (induction es arbitrary: c) simp_all

lemma chain_idle_run: "ch_state c = ChIdle \<Longrightarrow> fst (chain_run c es) = c \<and> triggers (snd (chain_run c es)) = []"
proof (induction es)
  case (Cons e es)
  then show ?case by (cases e) (auto simp: chain_defs Let_def split: prod.splits)
qed simp

lemma chain_waiting_run:
  assumes "ch_state c = ChWaiting k s" "heard es < unat k"
  shows "fst (chain_run c es) =
           c\<lparr>ch_state := ChWaiting (k - of_nat (heard es)) (s \<or> reclaimed es)\<rparr> \<and>
         triggers (snd (chain_run c es)) = []"
  using assms
proof (induction es arbitrary: c k s)
  case Nil
  then show ?case by simp
next
  case (Cons e es)
  from Cons.prems have k0: "k \<noteq> 0" by auto
  from Cons.prems have "heard es < unat (k - 1)" "k \<noteq> 1" if "\<not> is_break e"
    using that k0 by (cases e; auto simp: u8_pred)+
  with Cons.prems k0 Cons.IH [of c k s]
    Cons.IH [of "c\<lparr>ch_state := ChWaiting (k - 1) s\<rparr>" "k - 1" s]
    Cons.IH [of "c\<lparr>ch_state := ChWaiting (k - 1) True\<rparr>" "k - 1" True]
  show ?case
    by (cases e) (auto simp: chain_defs u8_ge_1 algebra_simps split: prod.splits)
qed

lemma chain_pending_run:
  assumes "ch_state c = ChPending s"
  shows "triggers (snd (chain_run c es)) = (if reclaimed es then [s] else [])"
  using assms
proof (induction es arbitrary: c)
  case (Cons e es)
  then show ?case
    using chain_idle_run [of "c\<lparr>ch_state := ChIdle\<rparr>" es] Cons.IH [of c]
    by (cases e) (auto simp: chain_defs split: prod.splits)
qed simp

lemma chain_last_event:
  assumes c: "ch_state c = ChWaiting 1 s" and e: "\<not> is_break e"
  shows "chain_step c e =
    (if is_deadline e then (c\<lparr>ch_state := ChIdle\<rparr>, ChTrigger True)
     else (c\<lparr>ch_state := ChPending s\<rparr>, snd (chain_step c e))) \<and>
    (\<not> is_deadline e \<longrightarrow> (\<exists>t. snd (chain_step c e) = ChWait t))"
  using assms by (cases e) (auto simp: chain_defs)

text \<open>
  A staged reply starts only when every slot before its own is accounted for. Whatever the
  order of the breaks, status frames and deadlines a sequencer staged at chain slot \<open>slot\<close> sees,
  it starts nothing while fewer than \<open>slot\<close> status ends or deadlines have happened. When the
  \<open>slot\<close>-th of them is a deadline, the reply starts there and is marked predecessor-silent; when
  it is a status frame (or the slot is 0), the reply starts at the next deadline, exactly once,
  and is marked predecessor-silent if and only if one of the waits before ended by a deadline.
\<close>

theorem chain_counts_predecessors:
  assumes "staged = fst (chain_on_reply_staged c slot fin gap reclaim allowance)"
    and "heard pre = unat slot" and "pre = [] \<or> \<not> is_break (last pre)"
  shows "(\<forall>es. heard es < unat slot \<longrightarrow> triggers (snd (chain_run staged es)) = []) \<and>
    triggers (snd (chain_run staged (pre @ post))) =
      (if pre \<noteq> [] \<and> is_deadline (last pre) then [True]
       else if reclaimed post then [reclaimed pre] else [])"
proof (cases "slot = 0")
  case True
  with assms have "pre = []"
    by (cases pre rule: rev_cases) (auto simp: heard_def)
  with True assms show ?thesis
    by (simp add: chain_on_reply_staged_def chain_pending_run Let_def)
next
  case False
  then have st: "ch_state staged = ChWaiting slot False"
    using assms by (simp add: chain_on_reply_staged_def Let_def)
  from False assms(2) obtain pre' e where pre: "pre = pre' @ [e]"
    by (cases pre rule: rev_cases) (auto simp: word_unat_eq_iff)
  with assms(3) have e: "\<not> is_break e" by simp
  with assms(2) pre have n: "heard pre' + 1 = unat slot" by (cases e) auto
  then have one: "slot - of_nat (heard pre') = 1"
    proof -
    have "slot = of_nat (heard pre' + 1)" using n by simp
    then show ?thesis by simp
  qed
  define c1 where "c1 = fst (chain_run staged pre')"
  have c1: "ch_state c1 = ChWaiting 1 (reclaimed pre')" "triggers (snd (chain_run staged pre')) = []"
    using chain_waiting_run [OF st, of pre'] n one by (simp_all add: c1_def)
  have run: "triggers (snd (chain_run staged (pre @ post))) = triggers (snd (chain_run c1 (e # post)))"
    using c1(2) by (simp add: pre chain_run_append c1_def)
  have "triggers (snd (chain_run c1 (e # post))) =
      (if is_deadline e then [True] else if reclaimed post then [reclaimed pre'] else [])"
    using chain_last_event [OF c1(1) e] chain_idle_run [of "c1\<lparr>ch_state := ChIdle\<rparr>" post]
      chain_pending_run [of "c1\<lparr>ch_state := ChPending (reclaimed pre')\<rparr>" "reclaimed pre'" post]
    by (auto split: prod.splits if_splits)
  moreover have "reclaimed pre = reclaimed pre'" if "\<not> is_deadline e"
    using that e by (cases e) (auto simp: pre)
  moreover have "pre \<noteq> []" "last pre = e" by (simp_all add: pre)
  ultimately show ?thesis
    using chain_waiting_run [OF st] unfolding run by auto
qed

theorem chain_counts_predecessors_witness:
  "triggers (snd (chain_run (fst (chain_on_reply_staged chain_new 2 100 12 50 500))
     ([CeDeadline 162, CeBreak 170, CeStatus 300] @ [CeDeadline 312]))) = [True]"
  using chain_counts_predecessors
    [of "fst (chain_on_reply_staged chain_new 2 100 12 50 500)" chain_new 2 100 12 50 500
        "[CeDeadline 162, CeBreak 170, CeStatus 300]" "[CeDeadline 312]"]
  by simp

subsection \<open>A fleet of sequencers on one wire\<close>

text \<open>
  A member of the fleet is its chain slot, its sequencer and its armed chain deadline. The output
  of a handler re-arms the deadline as \<open>route_chain\<close> does for a tick that is still ahead; a
  deadline is disarmed before its handler runs (\<open>on_deadline\<close> of \<open>servo_bus.rs\<close>).
\<close>

type_synonym member = "u8 \<times> chain \<times> u32 option"

fun rearm :: "u32 option \<Rightarrow> chain_out \<Rightarrow> u32 option" where
  "rearm at ChNone = at"
| "rearm at (ChWait t) = Some t"
| "rearm at (ChTrigger _) = at"

definition member_stage :: "chain \<Rightarrow> u32 \<Rightarrow> u32 \<Rightarrow> u32 \<Rightarrow> u32 \<Rightarrow> u8 \<Rightarrow> member" where
  "member_stage c fin gap reclaim allowance k =
     (let (c', x) = chain_on_reply_staged c k fin gap reclaim allowance in (k, c', rearm None x))"

definition member_expire :: "u32 \<Rightarrow> member \<Rightarrow> member \<times> (u8 \<times> bool) list" where
  "member_expire t m = (case m of (k, c, at) \<Rightarrow>
     if at = Some t
     then let (c', x) = chain_on_deadline c t
          in ((k, c', rearm None x), case x of ChTrigger s \<Rightarrow> [(k, s)] | _ \<Rightarrow> [])
     else (m, []))"

datatype air_event = AeBreak | AeEnd

definition member_hears :: "u32 \<Rightarrow> air_event \<Rightarrow> member \<Rightarrow> member" where
  "member_hears t w m = (case m of (k, c, at) \<Rightarrow>
     (case w of
        AeBreak \<Rightarrow> (k, c, rearm at (chain_on_break_observed c t))
      | AeEnd \<Rightarrow> let (c', x) = chain_on_status_end c t in (k, c', rearm at x)))"

text \<open>
  The fleet on its wire: the current tick, the breaks and frame ends still to come of the frames in flight,
  and the members. The next event is the soonest of these and of the armed deadlines. Deadlines that are due
  expire; a reply they start breaks the wire \<open>lead\<close> ticks later and ends \<open>dur k\<close> ticks after its break. A break
  and an end are heard by every member when they happen, so that deadlines can expire in between. An
  event yields the replies it starts, each with its predecessor-silent mark and with whether it clashes:
  whether another frame is in flight or another reply starts at the same tick.
\<close>

type_synonym fleet = "u32 \<times> (u32 \<times> air_event) list \<times> member list"

definition armed :: "member list \<Rightarrow> u32 list" where
  "armed ms = List.map_filter (\<lambda>(k, c, at). at) ms"

definition soonest :: "u32 \<Rightarrow> u32 list \<Rightarrow> u32" where
  "soonest e ts = e + of_nat (Min (set (map (\<lambda>t. unat (t - e)) ts)))"

definition fleet_event :: "(u8 \<Rightarrow> u32) \<Rightarrow> u32 \<Rightarrow> fleet \<Rightarrow> fleet \<times> (u8 \<times> bool \<times> bool) list" where
  "fleet_event dur lead fl = (case fl of (now, wire, ms) \<Rightarrow>
     let t = soonest now (map fst wire @ armed ms);
         fired = map (member_expire t) ms;
         replies = concat (map snd fired);
         due = filter (\<lambda>w. fst w = t) wire;
         flight = filter (\<lambda>w. fst w \<noteq> t) wire;
         started = concat (map (\<lambda>(k, s). [(t + lead, AeBreak), (t + lead + dur k, AeEnd)]) replies)
     in ((t, flight @ started, fold (\<lambda>w. map (member_hears t (snd w))) due (map fst fired)),
         map (\<lambda>(k, s). (k, s, flight \<noteq> [] \<or> 1 < length replies)) replies))"

fun fleet_run :: "nat \<Rightarrow> (u8 \<Rightarrow> u32) \<Rightarrow> u32 \<Rightarrow> fleet \<Rightarrow> (u8 \<times> bool \<times> bool) list" where
  "fleet_run 0 dur lead fl = []"
| "fleet_run (Suc n) dur lead fl =
     (if fst (snd fl) = [] \<and> armed (snd (snd fl)) = [] then []
      else let (fl', rs) = fleet_event dur lead fl in rs @ fleet_run n dur lead fl')"

text \<open>
  The fleet between two frames: \<open>b\<close> slots are accounted for at the frame end \<open>e\<close>, \<open>j\<close> reclaim
  windows have expired since, and \<open>s\<close> says whether a slot below \<open>b\<close> was silent.
\<close>

definition member_at :: "u32 \<Rightarrow> u32 \<Rightarrow> u32 \<Rightarrow> u32 \<Rightarrow> nat \<Rightarrow> nat \<Rightarrow> bool \<Rightarrow> u8 \<Rightarrow> member" where
  "member_at gap reclaim allowance e b j s k =
     (k, \<lparr> ch_state = (if unat k < b then ChIdle
                       else if unat k = b \<and> j = 0 then ChPending s
                       else ChWaiting (of_nat (unat k - b - j)) (s \<or> 0 < j)),
            ch_reply_gap = gap, ch_reclaim = reclaim, ch_allowance = allowance \<rparr>,
      if unat k < b then None
      else if unat k = b \<and> j = 0 then Some (e + gap)
      else Some (e + gap + of_nat (Suc j) * reclaim))"

lemma fleet_start:
  "map (member_stage c fin gap reclaim allowance) ks =
   map (member_at gap reclaim allowance fin 0 0 False) ks" if "chain.more c = ()"
  using that
  by (cases c) (auto simp: member_stage_def member_at_def chain_on_reply_staged_def Let_def word_unat_eq_iff)

lemma u8_of_nat_pred: "0 < n \<Longrightarrow> (of_nat n :: u8) - 1 = of_nat (n - 1)"
  by simp

lemma saturating_sub8_of_nat:
  "0 < n \<Longrightarrow> n < 256 \<Longrightarrow> saturating_sub8 (of_nat n) 1 = of_nat (n - 1)"
  using u8_of_nat_eq [of n 0] by (simp add: saturating_sub8_def u8_ge_1)

lemma expire_pending:
  assumes "unat k = b"
  shows "member_expire (e + gap) (member_at gap rc alw e b 0 s k) =
    ((k, \<lparr> ch_state = ChIdle, ch_reply_gap = gap, ch_reclaim = rc, ch_allowance = alw \<rparr>, None), [(k, s)])"
  using assms by (simp add: member_expire_def member_at_def chain_on_deadline_def)

lemma expire_waiting:
  assumes "b + j < unat k" "j = 0 \<longrightarrow> unat k \<noteq> b" and t: "t = e + gap + of_nat (Suc j) * rc"
  shows "member_expire t (member_at gap rc alw e b j s k) =
    (if unat k = Suc (b + j)
     then ((k, \<lparr> ch_state = ChIdle, ch_reply_gap = gap, ch_reclaim = rc, ch_allowance = alw \<rparr>, None), [(k, True)])
     else (member_at gap rc alw e b (Suc j) s k, []))"
proof -
  have n: "0 < unat k - b - j" "unat k - b - j < 256" "\<not> unat k < b"
    using assms unat_less_256 [of k] by auto
  have sub: "saturating_sub8 (of_nat (unat k - b - j)) 1 = of_nat (unat k - b - j - 1)"
    using n by (intro saturating_sub8_of_nat)
  have zero: "(of_nat (unat k - b - j - 1) :: u8) = 0 \<longleftrightarrow> unat k = Suc (b + j)"
    using n u8_of_nat_eq [of "unat k - b - j - 1" 0] by auto
  show ?thesis
    using n assms sub zero
    by (auto simp: member_expire_def member_at_def chain_on_deadline_def Let_def algebra_simps)
qed

lemma expire_idle: "unat k < b \<Longrightarrow> member_expire t (member_at gap rc alw e b j s k) = (member_at gap rc alw e b j s k, [])"
  by (simp add: member_expire_def member_at_def)

lemma expire_None: "member_expire t (k, c, None) = ((k, c, None), [])"
  by (simp add: member_expire_def)

lemma expire_later:
  "member_expire t (member_at gap rc alw e b 0 s k) = (member_at gap rc alw e b 0 s k, [])"
  if "unat k \<noteq> b" "t \<noteq> e + gap + rc"
  using that by (auto simp: member_expire_def member_at_def)

lemma member_at_idle:
  "unat k < b \<Longrightarrow> member_at gap rc alw e b j s k =
     (k, \<lparr> ch_state = ChIdle, ch_reply_gap = gap, ch_reclaim = rc, ch_allowance = alw \<rparr>, None)"
  by (simp add: member_at_def)

text \<open>The fleet while the frame of slot \<open>k0\<close> is in flight: the members behind it wait, armed at \<open>at\<close>.\<close>

definition member_in :: "u32 \<Rightarrow> u32 \<Rightarrow> u32 \<Rightarrow> nat \<Rightarrow> bool \<Rightarrow> u32 \<Rightarrow> u8 \<Rightarrow> member" where
  "member_in gap rc alw k0 s at k =
     (k, \<lparr> ch_state = (if unat k \<le> k0 then ChIdle else ChWaiting (of_nat (unat k - k0)) s),
            ch_reply_gap = gap, ch_reclaim = rc, ch_allowance = alw \<rparr>,
      if unat k \<le> k0 then None else Some at)"

lemma hears_break: "member_hears t AeBreak (member_in gap rc alw k0 s at k) = member_in gap rc alw k0 s (t + alw) k"
  by (simp add: member_hears_def member_in_def chain_on_break_observed_def)

lemma hears_end: "member_hears t AeEnd (member_in gap rc alw k0 s at k) = member_at gap rc alw t (Suc k0) 0 s k"
proof (cases "unat k \<le> k0")
  case True
  then show ?thesis by (simp add: member_hears_def member_in_def member_at_def chain_on_status_end_def)
next
  case False
  have n: "0 < unat k - k0" "unat k - k0 < 256" using False unat_less_256 [of k] by auto
  have sub: "saturating_sub8 (of_nat (unat k - k0)) 1 = of_nat (unat k - k0 - 1)" using n by (intro saturating_sub8_of_nat)
  have zero: "(of_nat (unat k - k0 - 1) :: u8) = 0 \<longleftrightarrow> unat k = Suc k0"
    using n u8_of_nat_eq [of "unat k - k0 - 1" 0] by auto
  show ?thesis using False sub zero
    by (auto simp: member_hears_def member_in_def member_at_def chain_on_status_end_def Let_def)
qed

lemma expire_in: "t \<noteq> at \<Longrightarrow> member_expire t (member_in gap rc alw k0 s at k) = (member_in gap rc alw k0 s at k, [])"
  by (auto simp: member_expire_def member_in_def)

lemma armed_in: "set (armed (map (member_in gap rc alw k0 s at) ks)) \<subseteq> {at}"
  by (induction ks) (auto simp: armed_def member_in_def List.map_filter_simps)

lemma concat_single:
  "distinct ks \<Longrightarrow> concat (map (\<lambda>k. if k = k0 then [x] else []) ks) = (if k0 \<in> set ks then [x] else [])"
  by (induction ks) auto

lemma armed_members:
  "armed (map (member_at gap rc alw e b j s) ks) =
     map (\<lambda>k. if unat k = b \<and> j = 0 then e + gap else e + gap + of_nat (Suc j) * rc)
       (filter (\<lambda>k. b \<le> unat k) ks)"
  by (induction ks) (simp_all add: armed_def member_at_def List.map_filter_simps not_less del: of_nat_Suc)

lemma set_armed:
  "set (armed (map (member_at gap rc alw e b j s) ks)) =
     (\<lambda>k. if unat k = b \<and> j = 0 then e + gap else e + gap + of_nat (Suc j) * rc) ` {k \<in> set ks. b \<le> unat k}"
  by (simp only: armed_members set_map set_filter)

lemma armed_Nil_iff: "armed (map (member_at gap rc alw e b j s) ks) = [] \<longleftrightarrow> (\<forall>k\<in>set ks. unat k < b)"
  unfolding set_empty [symmetric] set_armed by (auto simp: not_le)

text \<open>The soonest of the ticks \<open>ts\<close> seen from \<open>e\<close> is the one at the least distance.\<close>

lemma soonest_eq:
  assumes "e + d \<in> set ts" "\<forall>t\<in>set ts. unat d \<le> unat (t - e)"
  shows "soonest e ts = e + d"
proof -
  have "Min (set (map (\<lambda>t. unat (t - e)) ts)) = unat d"
  proof (rule Min_eqI)
    show "unat d \<in> set (map (\<lambda>t. unat (t - e)) ts)" using assms(1) by (auto intro!: image_eqI [of _ _ "e + d"])
  qed (use assms(2) in auto)
  then show ?thesis by (simp add: soonest_def)
qed

lemma soonest_pending:
  assumes "unat k = b" "k \<in> set ks" "unat gap + unat rc < 2 ^ 32"
  shows "soonest e (armed (map (member_at gap rc alw e b 0 s) ks)) = e + gap"
proof (rule soonest_eq)
  have "unat gap \<le> unat (gap + rc)" using assms(3) by (simp add: unat_word_ariths)
  then show "\<forall>t\<in>set (armed (map (member_at gap rc alw e b 0 s) ks)). unat gap \<le> unat (t - e)"
    unfolding set_armed by auto
qed (use assms(1,2) in \<open>auto simp: set_armed intro!: image_eqI [of _ _ k]\<close>)

lemma soonest_waiting:
  assumes "k \<in> set ks" "b \<le> unat k" "\<forall>k\<in>set ks. b \<le> unat k \<longrightarrow> b + j < unat k"
  shows "soonest now (armed (map (member_at gap rc alw e b j s) ks)) = e + gap + of_nat (Suc j) * rc"
proof -
  let ?t = "e + gap + of_nat (Suc j) * rc"
  have "(if unat k = b \<and> j = 0 then e + gap else ?t) = ?t" if "k \<in> set ks" "b \<le> unat k" for k
    using assms(3) that by auto
  then have "set (armed (map (member_at gap rc alw e b j s) ks)) = {?t}"
    using assms(1,2) unfolding set_armed by force
  then show ?thesis using soonest_eq [of now "?t - now" "armed (map (member_at gap rc alw e b j s) ks)"] by (simp del: of_nat_Suc)
qed

text \<open>The frame that slot \<open>k\<close> puts in flight at \<open>t\<close>.\<close>

abbreviation flight_of :: "u32 \<Rightarrow> u32 \<Rightarrow> (u32 \<times> air_event) list" where
  "flight_of b d \<equiv> [(b, AeBreak), (b + d, AeEnd)]"

lemma event_pending:
  assumes ks: "distinct ks" and k: "k \<in> set ks" "unat k = b"
    and rc: "rc \<noteq> 0" "unat gap + unat rc < 2 ^ 32"
  shows "fleet_event dur lead (e, [], map (member_at gap rc alw e b 0 s) ks) =
    ((e + gap, flight_of (e + gap + lead) (dur k), map (member_in gap rc alw b s (e + gap + rc)) ks), [(k, s, False)])"
proof -
  have t: "soonest e (armed (map (member_at gap rc alw e b 0 s) ks)) = e + gap"
    using k rc by (intro soonest_pending)
  have later: "member_expire (e + gap) (member_at gap rc alw e b 0 s i) = (member_at gap rc alw e b 0 s i, [])"
    if "unat i \<noteq> b" for i
    using that rc by (intro expire_later) auto
  have fired: "snd (member_expire (e + gap) (member_at gap rc alw e b 0 s i)) = (if i = k then [(k, s)] else [])" for i
    using k later [of i] by (cases "unat i = b") (auto simp: expire_pending word_unat_eq_iff)
  have rest: "fst (member_expire (e + gap) (member_at gap rc alw e b 0 s i)) = member_in gap rc alw b s (e + gap + rc) i" for i
  proof (cases "unat i = b")
    case True
    then show ?thesis using expire_pending [OF True, of e gap rc alw s] by (simp add: member_in_def)
  next
    case False
    then show ?thesis using later [of i] by (auto simp: member_in_def member_at_def)
  qed
  show ?thesis
    using k ks by (simp add: fleet_event_def t fired rest Let_def comp_def concat_single)
qed

lemma event_waiting:
  assumes ks: "distinct ks" and k: "i \<in> set ks" "b \<le> unat i"
    and gone: "\<forall>k\<in>set ks. b \<le> unat k \<longrightarrow> b + j < unat k"
    and t: "t = e + gap + of_nat (Suc j) * rc" and nxt: "unat k = Suc (b + j)"
  shows "fleet_event dur lead (now, [], map (member_at gap rc alw e b j s) ks) =
    (if k \<in> set ks
     then ((t, flight_of (t + lead) (dur k), map (member_in gap rc alw (unat k) True (t + rc)) ks), [(k, True, False)])
     else ((t, [], map (member_at gap rc alw e b (Suc j) s) ks), []))"
proof -
  have at: "soonest now (armed (map (member_at gap rc alw e b j s) ks)) = t"
    using k gone unfolding t by (intro soonest_waiting)
  have fired: "snd (member_expire t (member_at gap rc alw e b j s i)) = (if i = k then [(k, True)] else [])"
    if "i \<in> set ks" for i
    using that gone t nxt by (cases "unat i < b") (auto simp: expire_idle expire_waiting word_unat_eq_iff)
  have hit: "fst (member_expire t (member_at gap rc alw e b j s i)) = member_in gap rc alw (unat k) True (t + rc) i"
    if "i \<in> set ks" for i
  proof (cases "unat i < b")
    case True
    then show ?thesis using nxt by (simp add: expire_None member_at_idle member_in_def)
  next
    case False
    with that gone have "b + j < unat i" by simp
    note w = expire_waiting [OF this _ t, where s = s and alw = alw]
    show ?thesis
    proof (cases "unat i = Suc (b + j)")
      case True
      then show ?thesis using w nxt by (simp add: member_in_def)
    next
      case 2: False
      then have "member_expire t (member_at gap rc alw e b j s i) = (member_at gap rc alw e b (Suc j) s i, [])" using w \<open>b + j < unat i\<close> by simp
      moreover have "member_at gap rc alw e b (Suc j) s i = member_in gap rc alw (unat k) True (t + rc) i"
        using \<open>b + j < unat i\<close> 2 nxt False by (auto simp: member_in_def member_at_def t algebra_simps)
      ultimately show ?thesis by simp
    qed
  qed
  have quiet: "fst (member_expire t (member_at gap rc alw e b j s i)) = member_at gap rc alw e b (Suc j) s i"
    if "i \<in> set ks" "k \<notin> set ks" for i
  proof (cases "unat i < b")
    case True
    then show ?thesis by (simp add: expire_None member_at_idle)
  next
    case False
    with that gone have "b + j < unat i" by simp
    moreover have "i \<noteq> k" using that by auto
    then have "unat i \<noteq> Suc (b + j)" using nxt by (simp add: word_unat_eq_iff)
    ultimately show ?thesis by (simp add: expire_waiting t)
  qed
  have replies: "concat (map (\<lambda>i. snd (member_expire t (member_at gap rc alw e b j s i))) ks) = (if k \<in> set ks then [(k, True)] else [])"
    using ks by (simp add: fired concat_single cong: map_cong)
  show ?thesis
  proof (cases "k \<in> set ks")
    case True
    then show ?thesis using replies by (simp add: fleet_event_def at hit Let_def comp_def cong: map_cong)
  next
    case False
    then show ?thesis using replies by (simp add: fleet_event_def at quiet Let_def comp_def cong: map_cong)
  qed
qed

lemma expire_none: "t \<noteq> at \<Longrightarrow> map (member_expire t) (map (member_in gap rc alw k0 s at) ks) = map (\<lambda>k. (member_in gap rc alw k0 s at k, [])) ks"
  by (simp add: expire_in)

lemma event_break:
  assumes "lead < rc" "0 < d" "unat lead + unat d < 2 ^ 32"
  shows "fleet_event dur lead (t, flight_of (t + lead) d, map (member_in gap rc alw k0 s (t + rc)) ks) =
    ((t + lead, [(t + lead + d, AeEnd)], map (member_in gap rc alw k0 s (t + lead + alw)) ks), [])"
proof -
  let ?ms = "map (member_in gap rc alw k0 s (t + rc)) ks"
  have d: "unat lead \<le> unat (lead + d)" "unat lead < unat rc" "d \<noteq> 0"
    using assms by (simp_all add: unat_word_ariths word_less_nat_alt) auto
  have at: "soonest t (map fst (flight_of (t + lead) d) @ armed ?ms) = t + lead"
    by (rule soonest_eq) (use d armed_in [of gap rc alw k0 s "t + rc" ks] in \<open>auto simp: algebra_simps\<close>)
  have "t + lead \<noteq> t + rc" using assms(1) by auto
  note ex = expire_none [OF this, of gap rc alw k0 s ks]
  show ?thesis using d(3) by (simp add: fleet_event_def at [simplified] ex [simplified] Let_def comp_def hears_break)
qed

lemma event_end:
  assumes "d < alw"
  shows "fleet_event dur lead (t, [(t + d, AeEnd)], map (member_in gap rc alw k0 s (t + alw)) ks) =
    ((t + d, [], map (member_at gap rc alw (t + d) (Suc k0) 0 s) ks), [])"
proof -
  let ?ms = "map (member_in gap rc alw k0 s (t + alw)) ks"
  have d: "unat d < unat alw" using assms by (simp add: word_less_nat_alt)
  have at: "soonest t (map fst [(t + d, AeEnd)] @ armed ?ms) = t + d"
    by (rule soonest_eq) (use d armed_in [of gap rc alw k0 s "t + alw" ks] in auto)
  have "t + d \<noteq> t + alw" using assms by auto
  note ex = expire_none [OF this, of gap rc alw k0 s ks]
  show ?thesis by (simp add: fleet_event_def at [simplified] ex [simplified] Let_def comp_def hears_end)
qed

text \<open>What a fleet in the state of \<^const>\<open>member_at\<close> still has to answer.\<close>

definition fleet_rest :: "u8 list \<Rightarrow> nat \<Rightarrow> bool \<Rightarrow> (u8 \<times> bool \<times> bool) list" where
  "fleet_rest ks b s = map (\<lambda>k. (k, s \<or> (\<exists>i<k. b \<le> unat i \<and> i \<notin> set ks), False)) (filter (\<lambda>k. b \<le> unat k) ks)"

lemma filter_sorted_hit:
  assumes "sorted (ks :: u8 list)" "distinct ks" "k \<in> set ks" "unat k = n" "\<forall>i\<in>set ks. b \<le> unat i \<longrightarrow> n \<le> unat i" "b \<le> n"
  shows "filter (\<lambda>k. b \<le> unat k) ks = k # filter (\<lambda>k. Suc n \<le> unat k) ks"
  using assms
proof (induction ks)
  case (Cons a ks)
  show ?case
  proof (cases "a = k")
    case True
    with Cons.prems have "\<forall>i\<in>set ks. n < unat i"
      by (auto simp: word_le_nat_alt word_unat_eq_iff) (metis le_neq_implies_less word_unat_eq_iff)
    then have "filter (\<lambda>k. b \<le> unat k) ks = ks" "filter (\<lambda>k. Suc n \<le> unat k) ks = ks"
      using Cons.prems by (auto simp: filter_id_conv)
    with True Cons.prems show ?thesis by simp
  next
    case False
    with Cons.prems have "k \<in> set ks" by auto
    with Cons.prems False have "unat a < n" by (auto simp: word_le_nat_alt word_unat_eq_iff le_less)
    with Cons.prems have "\<not> b \<le> unat a" by auto
    with Cons False \<open>unat a < n\<close> show ?thesis by auto
  qed
qed simp

lemma fleet_rest_Nil: "\<forall>k\<in>set ks. unat k < b \<Longrightarrow> fleet_rest ks b s = []"
  by (auto simp: fleet_rest_def filter_empty_conv)

lemma fleet_rest_pending:
  assumes "sorted ks" "distinct ks" "k \<in> set ks" "unat k = b"
  shows "fleet_rest ks b s = (k, s, False) # fleet_rest ks (Suc b) s"
proof -
  have "(\<exists>i<k'. b \<le> unat i \<and> i \<notin> set ks) = (\<exists>i<k'. Suc b \<le> unat i \<and> i \<notin> set ks)" for k'
    using assms(3,4) by (metis Suc_leD Suc_leI le_neq_implies_less word_unat_eq_iff)
  moreover have "\<not> (\<exists>i<k. b \<le> unat i \<and> i \<notin> set ks)"
    using assms(4) by (auto simp: word_less_nat_alt)
  ultimately show ?thesis
    using filter_sorted_hit [OF assms, of b] by (auto simp: fleet_rest_def)
qed

lemma fleet_rest_silent:
  assumes "\<forall>k\<in>set ks. b \<le> unat k \<longrightarrow> b < unat k"
  shows "fleet_rest ks b s = map (\<lambda>k. (k, True, False)) (filter (\<lambda>k. b \<le> unat k) ks)"
proof -
  have "\<exists>i<k. b \<le> unat i \<and> i \<notin> set ks" if "k \<in> set ks" "b \<le> unat k" for k
  proof -
    have "b < unat k" using that assms by blast
    moreover from this have "unat (of_nat b :: u8) = b"
      using unat_less_256 [of k] by (intro unat_of_nat8) simp
    ultimately show ?thesis
      using assms by (intro exI [of _ "of_nat b"]) (auto simp: word_less_nat_alt)
  qed
  then show ?thesis by (simp add: fleet_rest_def cong: map_cong)
qed

lemma fleet_rest_reclaimed:
  assumes ks: "sorted ks" "distinct ks" and k: "k \<in> set ks" "unat k = Suc (b + j)"
    and gone: "\<forall>k\<in>set ks. b \<le> unat k \<longrightarrow> b + j < unat k"
  shows "fleet_rest ks b s = (k, True, False) # fleet_rest ks (b + j + 2) True"
proof -
  have "filter (\<lambda>k. b \<le> unat k) ks = k # filter (\<lambda>k. Suc (Suc (b + j)) \<le> unat k) ks"
    using gone by (intro filter_sorted_hit [OF ks k]) auto
  moreover have "\<forall>k\<in>set ks. b \<le> unat k \<longrightarrow> b < unat k"
    using gone by fastforce
  ultimately show ?thesis
    by (simp add: fleet_rest_silent) (simp add: fleet_rest_def)
qed

text \<open>A frame in flight plays out: two events later it is accounted for.\<close>

lemma run_flight:
  assumes "lead < rc" "0 < d" "d < alw" "unat rc + unat alw < 2 ^ 32"
  shows "fleet_run (n + 2) dur lead (t, flight_of (t + lead) d, map (member_in gap rc alw k0 s (t + rc)) ks) =
    fleet_run n dur lead (t + lead + d, [], map (member_at gap rc alw (t + lead + d) (Suc k0) 0 s) ks)"
proof -
  have "unat lead + unat d < 2 ^ 32" using assms by (simp add: word_less_nat_alt)
  note ev = event_break [OF assms(1,2) this] event_end [OF assms(3)]
  show ?thesis by (simp add: numeral_2_eq_2 ev)
qed

lemma fleet_run_rest:
  assumes ks: "sorted ks" "distinct ks" and rc: "lead < rc" "unat gap + unat rc < 2 ^ 32"
    and dur: "\<forall>k\<in>set ks. 0 < dur k \<and> dur k < alw" "unat rc + unat alw < 2 ^ 32"
  shows "(0 < j \<longrightarrow> (\<forall>k\<in>set ks. b \<le> unat k \<longrightarrow> b + j < unat k)) \<Longrightarrow> (j = 0 \<longrightarrow> now = e) \<Longrightarrow> 768 \<le> n + 3 * (b + j) \<Longrightarrow>
    fleet_run n dur lead (now, [], map (member_at gap rc alw e b j s) ks) = fleet_rest ks b s"
proof (induction n arbitrary: now e b j s rule: less_induct)
  case (less n)
  have rc0: "rc \<noteq> 0" using rc(1) by auto
  show ?case
  proof (cases "\<forall>k\<in>set ks. unat k < b")
    case True
    then have "armed (map (member_at gap rc alw e b j s) ks) = []" by (simp only: armed_Nil_iff)
    then show ?thesis using True by (cases n) (simp_all add: fleet_rest_Nil)
  next
    case False
    then obtain i where i: "i \<in> set ks" "b \<le> unat i" by (auto simp: not_less)
    then have busy: "armed (map (member_at gap rc alw e b j s) ks) \<noteq> []" unfolding armed_Nil_iff by (auto simp: not_less)
    have bj: "b + j < 256" using less.prems(1) i unat_less_256 [of i] by (cases "j = 0") force+
    define m where "m = n - 3"
    have m: "n = Suc (m + 2)" using less.prems(3) bj by (simp add: m_def)
    have step: "fleet_run n dur lead (now, [], map (member_at gap rc alw e b j s) ks) = rs @ fleet_run (m + 2) dur lead fl"
      if "fleet_event dur lead (now, [], map (member_at gap rc alw e b j s) ks) = (fl, rs)" for fl rs
      using that busy by (simp add: m)
    have frame: "fleet_run (m + 2) dur lead (t, flight_of (t + lead) (dur k), map (member_in gap rc alw k0 u (t + rc)) ks) = fleet_rest ks (Suc k0) u"
      if "k \<in> set ks" "b + j \<le> k0" for t k k0 u
      using that dur(1) less.prems(3) run_flight [OF rc(1) _ _ dur(2), of "dur k" m dur t gap k0 u ks]
        less.IH [of m, where j = 0 and b = "Suc k0" and s = u and now = "t + lead + dur k" and e = "t + lead + dur k"] by (simp add: m)
    show ?thesis
    proof (cases "j = 0 \<and> (\<exists>k\<in>set ks. unat k = b)")
      case True
      then obtain k where k: "k \<in> set ks" "unat k = b" "j = 0" by blast
      show ?thesis
        using step [unfolded k(3) , of _ "[(k, s, False)]"] event_pending [OF ks(2) k(1,2) rc0 rc(2), of dur lead e alw s] less.prems(2) k(3)
          frame [OF k(1), of b] fleet_rest_pending [OF ks k(1,2)] by simp
    next
      case pending: False
      have gone: "\<forall>k\<in>set ks. b \<le> unat k \<longrightarrow> b + j < unat k"
        using less.prems(1) pending by (cases "j = 0") (auto simp: le_less)
      define k :: u8 where "k = of_nat (Suc (b + j))"
      have k: "unat k = Suc (b + j)"
        using gone i unat_less_256 [of i] unfolding k_def by (intro unat_of_nat8) force
      define t where "t = e + gap + of_nat (Suc j) * rc"
      note ev = event_waiting [OF ks(2) i gone t_def k, of dur lead now alw s]
      show ?thesis
      proof (cases "k \<in> set ks")
        case True
        then show ?thesis using step [OF ev [unfolded if_P [OF True]]] frame [OF True, of "unat k"] k fleet_rest_reclaimed [OF ks True k gone]
          by simp
      next
        case absent: False
        have "\<forall>k\<in>set ks. b \<le> unat k \<longrightarrow> b + Suc j < unat k"
          using gone absent k by (metis Suc_leI add_Suc_right le_neq_implies_less word_unat_eq_iff)
        then show ?thesis
          using step [OF ev [unfolded if_not_P [OF absent]]] less.IH [of "m + 2", where j = "Suc j" and b = b and now = t and e = e and s = s] less.prems(3) by (simp add: m)
      qed
    qed
  qed
qed

lemma fleet_in_order:
  assumes "sorted ks" "distinct ks" "lead < reclaim" "unat gap + unat reclaim < 2 ^ 32"
    "\<forall>k\<in>set ks. 0 < dur k \<and> dur k < allowance" "unat reclaim + unat allowance < 2 ^ 32" "768 \<le> n"
  shows "fleet_run n dur lead (fin, [], map (member_stage chain_new fin gap reclaim allowance) ks) =
    map (\<lambda>k. (k, \<exists>i<k. i \<notin> set ks, False)) ks"
proof -
  have "chain.more chain_new = ()" by simp
  then show ?thesis
    using fleet_run_rest [OF assms(1-6), of 0 0 fin fin n False] assms(7)
    by (simp add: fleet_start fleet_rest_def)
qed

end
