(* ===== verification/Bus_Decode.thy ===== *)
theory Bus_Decode
  imports Core_Dispatch Osc_Build Bus_Chain Sec_Policy
begin

text \<open>
  \<open>drivers/src/bus/decode.rs\<close>: the map from a whole frame, as a view of up to two ring segments, to
  the request the dispatcher runs, its reply contract and its chain slot. Plain operations are
  addressed by the frame ID, group operations by their id-lists.
\<close>

subsection \<open>Definitions\<close>

datatype decoded = DecStatus | DecSkip | DecOwn request request_ctx u8

definition dec_own_read :: "u16 \<Rightarrow> u16 \<Rightarrow> u8 \<Rightarrow> decoded" where
  "dec_own_read addr count slot = DecOwn (ReqRead addr count) \<lparr> may_reply = True \<rparr> slot"

definition dec_own_read_profile :: "u8 \<Rightarrow> u8 \<Rightarrow> decoded" where
  "dec_own_read_profile profile slot = DecOwn (ReqReadProfile profile) \<lparr> may_reply = True \<rparr> slot"

definition dec_own_write :: "u16 \<Rightarrow> frame_bytes \<Rightarrow> bool \<Rightarrow> decoded" where
  "dec_own_write addr data hold = DecOwn (ReqWrite addr data hold) \<lparr> may_reply = False \<rparr> 0"

definition dec_gread :: "inst \<Rightarrow> frame_bytes \<Rightarrow> frame_id \<Rightarrow> decoded" where
  "dec_gread inst pay own =
     (case (inst_profile inst, inst_per_target inst) of
        (False, True) \<Rightarrow>
          (case gread_per_target_parse pay \<bind> (\<lambda>g. gread_per_target_find g own) of
             Some (slot, t) \<Rightarrow> dec_own_read (gt_addr t) (gt_count t) slot
           | None \<Rightarrow> DecSkip)
      | (False, False) \<Rightarrow>
          (case gread_uniform_parse pay of
             Some g \<Rightarrow>
               (case gread_uniform_slot_of g own of
                  Some slot \<Rightarrow> dec_own_read (gu_addr g) (gu_count g) slot
                | None \<Rightarrow> DecSkip)
           | None \<Rightarrow> DecSkip)
      | (True, True) \<Rightarrow>
          (case gread_profile_per_target_parse pay \<bind> (\<lambda>g. gread_profile_per_target_find g own) of
             Some (slot, t) \<Rightarrow> dec_own_read_profile (gp_slot t) slot
           | None \<Rightarrow> DecSkip)
      | (True, False) \<Rightarrow>
          (case gread_profile_uniform_parse pay of
             Some g \<Rightarrow>
               (case gread_profile_uniform_slot_of g own of
                  Some slot \<Rightarrow> dec_own_read_profile (gpu_slot g) slot
                | None \<Rightarrow> DecSkip)
           | None \<Rightarrow> DecSkip))"

definition dec_gwrite :: "inst \<Rightarrow> frame_bytes \<Rightarrow> frame_id \<Rightarrow> decoded" where
  "dec_gwrite inst pay own =
     (let hold = inst_hold inst
      in if inst_per_target inst
         then case gwrite_per_target_parse pay \<bind> (\<lambda>g. gwrite_per_target_find g own) of
                Some t \<Rightarrow> dec_own_write (gw_addr t) (gw_data t) hold
              | None \<Rightarrow> DecSkip
         else case gwrite_uniform_parse pay of
                Some g \<Rightarrow>
                  (case gwrite_uniform_find g own of
                     Some data \<Rightarrow> dec_own_write (gwu_addr g) data hold
                   | None \<Rightarrow> DecSkip)
              | None \<Rightarrow> DecSkip)"

definition is_enum_or_assign :: "request \<Rightarrow> bool" where
  "is_enum_or_assign req = (case req of ReqEnumerate _ _ \<Rightarrow> True | ReqAssign _ _ \<Rightarrow> True | _ \<Rightarrow> False)"

definition dec_mgmt :: "bool \<Rightarrow> frame_bytes \<Rightarrow> request" where
  "dec_mgmt broadcast pay =
     (case mgmt_req_parse pay of
        None \<Rightarrow> ReqUnsupported
      | Some m \<Rightarrow>
          (case mr_op m of
             MgmtEnum \<Rightarrow>
               (case enum_req_parse (mr_args m) of
                  Some e \<Rightarrow> ReqEnumerate (er_prefix_len e) (er_prefix e)
                | None \<Rightarrow> ReqUnsupported)
           | MgmtAssign \<Rightarrow>
               (case assign_req_parse (mr_args m) of
                  Some a \<Rightarrow> ReqAssign (ar_uid a) (ar_new_id a)
                | None \<Rightarrow> ReqUnsupported)
           | MgmtCal \<Rightarrow>
               (case cal_req_parse (mr_args m) of
                  Some c \<Rightarrow> if broadcast then ReqCalibrate (cr_gap_us c) (cr_gaps c) else ReqUnsupported
                | None \<Rightarrow> ReqUnsupported)
           | op \<Rightarrow> ReqMgmt op (mr_args m)))"

definition dec_plain :: "opcode \<Rightarrow> inst \<Rightarrow> frame_id \<Rightarrow> frame_bytes \<Rightarrow> frame_id \<Rightarrow> decoded" where
  "dec_plain op inst frame_id pay own =
     (let broadcast = id_is_broadcast frame_id
      in if \<not> id_addresses frame_id own then DecSkip
         else
           let req =
             (case op of
                OpPing \<Rightarrow> ReqPing
              | OpRead \<Rightarrow>
                  if inst_profile inst
                  then case profile_req_parse pay of
                         Some r \<Rightarrow> ReqReadProfile (pr_slot r)
                       | None \<Rightarrow> ReqUnsupported
                  else case read_req_parse pay of
                         Some r \<Rightarrow> ReqRead (rr_addr r) (rr_count r)
                       | None \<Rightarrow> ReqUnsupported
              | OpWrite \<Rightarrow>
                  (case write_req_parse pay of
                     Some w \<Rightarrow> ReqWrite (wr_addr w) (wr_data w) (inst_hold inst)
                   | None \<Rightarrow> ReqUnsupported)
              | OpCommit \<Rightarrow> ReqCommit
              | OpMgmt \<Rightarrow> dec_mgmt broadcast pay
              | _ \<Rightarrow> ReqUnsupported);
               reply = \<not> inst_noreply inst \<and> (\<not> broadcast \<or> is_enum_or_assign req)
           in DecOwn req \<lparr> may_reply = reply \<rparr> 0)"

definition decode :: "frame_bytes \<Rightarrow> u8 \<Rightarrow> decoded" where
  "decode frame own =
     (case (u8_at frame 0, u8_at frame 1, u8_at frame 2, u8_at frame 3) of
        (Some b0, Some b1, Some b2, Some b3) \<Rightarrow>
          (case header_from_bytes [b0, b1, b2, b3] of
             None \<Rightarrow> DecSkip
           | Some h \<Rightarrow>
               if inst_is_status (hd_inst h) then DecStatus
               else case inst_opcode (hd_inst h) of
                 None \<Rightarrow> DecSkip
               | Some op \<Rightarrow>
                   (case fb_sub frame 4 (unat (header_payload_len h)) of
                      None \<Rightarrow> DecSkip
                    | Some pay \<Rightarrow>
                        (case op of
                           OpGread \<Rightarrow> dec_gread (hd_inst h) pay own
                         | OpGwrite \<Rightarrow> dec_gwrite (hd_inst h) pay own
                         | _ \<Rightarrow> dec_plain op (hd_inst h) (hd_id h) pay own)))
      | _ \<Rightarrow> DecSkip)"

subsection \<open>Decoding as a function of the frame bytes\<close>

definition dec_route :: "inst \<Rightarrow> frame_id \<Rightarrow> frame_bytes \<Rightarrow> frame_id \<Rightarrow> decoded" where
  "dec_route inst i pay own =
     (if inst_is_status inst then DecStatus
      else case inst_opcode inst of
        None \<Rightarrow> DecSkip
      | Some OpGread \<Rightarrow> dec_gread inst pay own
      | Some OpGwrite \<Rightarrow> dec_gwrite inst pay own
      | Some op \<Rightarrow> dec_plain op inst i pay own)"

lemma decode_view:
  assumes f: "fb_bytes f = [b0, i, len_for p, inst] @ pay @ crc" and p: "length pay = unat p"
  shows "\<exists>pv. fb_bytes pv = pay \<and> decode f own = dec_route inst i pv own"
proof -
  have "4 + unat p \<le> fb_len f" using assms by (simp add: fb_len_view)
  then obtain pv where pv: "fb_sub f 4 (unat p) = Some pv" "fb_bytes pv = take (unat p) (drop 4 (fb_bytes f))"
    using fb_sub_exists by blast
  then have "fb_bytes pv = pay" using assms by simp
  moreover have "decode f own = dec_route inst i pv own"
    using pv(1) by (simp add: decode_def dec_route_def osc_view f header_from_bytes_def header_payload_len_def
        payload_len_def len_for_def split: option.split opcode.split)
  ultimately show ?thesis by blast
qed

lemma decode_OwnD:
  assumes "decode f own = DecOwn req ctx slot"
  obtains i inst pay where "dec_route inst i pay own = DecOwn req ctx slot" "fb_len pay \<le> 255"
    "\<And>own. decode f own = dec_route inst i pay own" "u8_at f 1 = Some i" "u8_at f 3 = Some inst"
proof -
  from assms obtain b0 i l inst where b: "u8_at f 0 = Some b0" "u8_at f 1 = Some i" "u8_at f 2 = Some l" "u8_at f 3 = Some inst"
    by (auto simp: decode_def split: option.splits)
  let ?h = "\<lparr> hd_brk = b0, hd_id = i, hd_len = l, hd_inst = inst \<rparr>"
  have h: "header_from_bytes [b0, i, l, inst] = Some ?h" by (simp add: header_from_bytes_def)
  from assms b h obtain op pay where pay: "fb_sub f 4 (unat (header_payload_len ?h)) = Some pay"
      "inst_opcode inst = Some op" "\<not> inst_is_status inst"
    by (auto simp: decode_def split: option.splits if_splits)
  then have route: "decode f own' = dec_route inst i pay own'" for own'
    using b h by (simp add: decode_def dec_route_def split: opcode.split)
  show thesis
  proof (rule that)
    show "dec_route inst i pay own = DecOwn req ctx slot" using route assms by simp
    show "fb_len pay \<le> 255" using fb_sub_len [OF pay(1)] unat_less_256 [of "header_payload_len ?h"] by simp
  qed (use b route in auto)
qed

lemma u8_of_nat_inj: "(of_nat m :: u8) = of_nat n \<Longrightarrow> m < 256 \<Longrightarrow> n < 256 \<Longrightarrow> m = n"
  by (metis unat_of_nat8)

lemma byte_position_inj:
  assumes "byte_position ids a = Some k" "byte_position ids b = Some k" "fb_len ids \<le> 255"
  shows "a = b"
proof -
  from assms obtain m n where "position (\<lambda>x. x = a) (fb_bytes ids) = Some m" "position (\<lambda>x. x = b) (fb_bytes ids) = Some n"
     "(of_nat m :: u8) = of_nat n"
    by (auto simp: byte_position_def)
  then show ?thesis
    using assms(3) u8_of_nat_inj [of m n] by (auto simp: position_Some_iff fb_len_view)
qed

lemma iter_find_collect:
  "iter_find nxt P n k s =
     map_option (\<lambda>p. (k + p, iter_collect nxt n s ! p)) (position P (iter_collect nxt n s))"
  by (induction n arbitrary: k s) (auto simp: option.map_comp comp_def split: option.split)

lemma iter_collect_length: "length (iter_collect nxt n s) \<le> n"
  by (induction n arbitrary: s) (auto split: option.split)

lemma iter_find_inj:
  assumes "map_option (\<lambda>(k, t). (of_nat k :: u8, t)) (iter_find nxt (\<lambda>t. key t = a) n 0 s) = Some (k, t)"
    and "map_option (\<lambda>(k, t). (of_nat k :: u8, t)) (iter_find nxt (\<lambda>t. key t = b) n 0 s) = Some (k, u)"
    and "n \<le> 255"
  shows "a = b"
proof -
  let ?ts = "iter_collect nxt n s"
  from assms obtain p q where "position (\<lambda>t. key t = a) ?ts = Some p" "position (\<lambda>t. key t = b) ?ts = Some q"
      "(of_nat p :: u8) = of_nat q"
    by (auto simp: iter_find_collect)
  then show ?thesis
    using u8_of_nat_inj [of p q] iter_collect_length [of nxt n s] assms(3) by (auto simp: position_Some_iff)
qed

lemma gread_uniform_ids_len: "gread_uniform_parse f = Some g \<Longrightarrow> fb_len (gu_ids g) \<le> fb_len f"
  by (auto simp: gread_uniform_parse_def checked_sub_def bind_eq_Some_conv dest!: fb_sub_len split: if_splits)

lemma gread_profile_uniform_ids_len: "gread_profile_uniform_parse f = Some g \<Longrightarrow> fb_len (gpu_ids g) \<le> fb_len f"
  by (auto simp: gread_profile_uniform_parse_def checked_sub_def bind_eq_Some_conv dest!: fb_sub_len split: if_splits)

lemma dec_gread_OwnD:
  assumes "dec_gread inst pay own = DecOwn r c k"
  shows "(\<not> inst_profile inst \<and> inst_per_target inst \<and>
      (\<exists>t. gread_per_target_find \<lparr> gpt_entries = pay \<rparr> own = Some (k, t))) \<or>
    (\<not> inst_profile inst \<and> \<not> inst_per_target inst \<and>
      (\<exists>g. gread_uniform_parse pay = Some g \<and> byte_position (gu_ids g) own = Some k)) \<or>
    (inst_profile inst \<and> inst_per_target inst \<and>
      (\<exists>t. gread_profile_per_target_find \<lparr> gppt_entries = pay \<rparr> own = Some (k, t))) \<or>
    (inst_profile inst \<and> \<not> inst_per_target inst \<and>
      (\<exists>g. gread_profile_uniform_parse pay = Some g \<and> byte_position (gpu_ids g) own = Some k))"
  using assms
  by (cases "inst_profile inst"; cases "inst_per_target inst")
    (auto simp: dec_gread_def dec_own_read_def dec_own_read_profile_def gread_uniform_slot_of_def
      gread_profile_uniform_slot_of_def gread_per_target_parse_def gread_profile_per_target_parse_def
      bind_eq_Some_conv split: option.splits if_splits)

lemma gread_slot_inj:
  assumes a: "dec_gread inst pay a = DecOwn r c k" and b: "dec_gread inst pay b = DecOwn r' c' k"
    and len: "fb_len pay \<le> 255"
  shows "a = b"
proof (cases "inst_per_target inst")
  case True
  with dec_gread_OwnD [OF a] dec_gread_OwnD [OF b] show ?thesis
    using len iter_find_inj [of gread_per_target_next gt_id a "fb_len pay" pay k _ b]
      iter_find_inj [of gread_profile_per_target_next gp_id a "fb_len pay" pay k _ b]
    by (auto simp: gread_per_target_find_def gread_profile_per_target_find_def)
next
  case False
  with dec_gread_OwnD [OF a] dec_gread_OwnD [OF b] show ?thesis
    using len byte_position_inj [of _ a k b] gread_uniform_ids_len [of pay] gread_profile_uniform_ids_len [of pay]
    by fastforce
qed

lemma dec_plain_OwnD:
  assumes "dec_plain op inst i pay own = DecOwn r c k" "may_reply c"
  shows "i = own \<or> is_enum_or_assign r"
  using assms by (auto simp: dec_plain_def id_addresses_def Let_def split: if_splits)

lemma dec_gwrite_silent: "dec_gwrite inst pay own = DecOwn r c k \<Longrightarrow> \<not> may_reply c"
  by (auto simp: dec_gwrite_def dec_own_write_def Let_def split: if_splits option.splits)

lemma dec_plain_same_request:
  "dec_plain op inst i pay a = DecOwn r c k \<Longrightarrow> dec_plain op inst i pay b = DecOwn r' c' k' \<Longrightarrow> r' = r"
  by (auto simp: dec_plain_def Let_def split: if_splits)

lemma dec_route_exclusive:
  assumes "dec_route inst i pay a = DecOwn r c k" "dec_route inst i pay b = DecOwn r' c' k"
    "may_reply c" "may_reply c'" "a \<noteq> b" "fb_len pay \<le> 255"
  shows "is_enum_or_assign r \<and> inst_opcode inst \<noteq> Some OpGread"
proof -
  obtain op where op: "inst_opcode inst = Some op" "\<not> inst_is_status inst"
    using assms(1) by (auto simp: dec_route_def split: if_splits option.splits)
  show ?thesis
  proof (cases "op = OpGread \<or> op = OpGwrite")
    case True
    then show ?thesis
      using assms op gread_slot_inj dec_gwrite_silent by (auto simp: dec_route_def)
  next
    case False
    then have p: "dec_plain op inst i pay a = DecOwn r c k" "dec_plain op inst i pay b = DecOwn r' c' k"
      using assms(1,2) op by (auto simp: dec_route_def split: opcode.splits)
    show ?thesis
      using dec_plain_OwnD [OF p(1)] dec_plain_OwnD [OF p(2)] dec_plain_same_request [OF p] assms(3-5) False op
      by auto
  qed
qed

lemma decode_exclusive:
  assumes "decode f a = DecOwn r c k" "decode f b = DecOwn r' c' k" "may_reply c" "may_reply c'" "a \<noteq> b"
  shows "is_enum_or_assign r" "u8_at f 3 = Some inst \<Longrightarrow> inst_opcode inst \<noteq> Some OpGread"
proof -
  obtain i inst' pay where *: "dec_route inst' i pay a = DecOwn r c k" "fb_len pay \<le> 255"
    "\<And>own. decode f own = dec_route inst' i pay own" "u8_at f 3 = Some inst'"
    using decode_OwnD [OF assms(1)] by metis
  with assms show "is_enum_or_assign r" "u8_at f 3 = Some inst \<Longrightarrow> inst_opcode inst \<noteq> Some OpGread"
    using dec_route_exclusive [of inst' i pay a r c k b r' c'] by auto
qed

subsection \<open>Properties\<close>

text \<open>
  C34. One frame never gives two servos the same reply slot. When two servos with different ids
  decode the same frame as addressed to them and both may reply, their chain slots differ, except
  for the broadcast enumeration and assignment requests, whose repliers are elected by UID. In
  particular a broadcast PING, READ, WRITE, COMMIT or other management frame is answered by nobody
  and two servos of a GREAD never share a slot.
\<close>

theorem decode_reply_slots_exclusive:
  assumes "decode f a = DecOwn r c k" "decode f b = DecOwn r' c' k'"
    and "may_reply c" "may_reply c'" "a \<noteq> b" "\<not> is_enum_or_assign r"
  shows "k \<noteq> k'"
  using assms decode_exclusive by blast

lemma demo_gread:
  "decode (fb_new [0, 0xFE, 10, 0x50, 0, 2] [4, 0, 4, 5, 6, 0xAA, 0xBB]) 4 =
     DecOwn (ReqRead 0x200 4) \<lparr> may_reply = True \<rparr> 0"
  "decode (fb_new [0, 0xFE, 10, 0x50, 0, 2] [4, 0, 4, 5, 6, 0xAA, 0xBB]) 6 =
     DecOwn (ReqRead 0x200 4) \<lparr> may_reply = True \<rparr> 2"
  by code_simp+

theorem decode_reply_slots_exclusive_witness:
  "\<exists>f r r' c k k'. decode f 4 = DecOwn r c k \<and> decode f 6 = DecOwn r' c k' \<and> may_reply c \<and> k \<noteq> k'"
proof -
  have "(0::u8) \<noteq> 2"
    by (rule decode_reply_slots_exclusive [OF demo_gread]) (simp_all add: is_enum_or_assign_def)
  then show ?thesis using demo_gread by (metis request_ctx.select_convs(1))
qed

lemma find_map: "find P (map f xs) = map_option f (find (P \<circ> f) xs)"
  by (induction xs) auto

lemma iter_find_find: "map_option snd (iter_find nxt P n k s) = find P (iter_collect nxt n s)"
  by (induction n arbitrary: k s) (auto split: option.split)

lemma gwrite_per_target_find_view:
  "map_option gwrite_target_ent (gwrite_per_target_find g i) = find (\<lambda>e. fst e = i) (gwrite_per_target_view g)"
  by (simp add: gwrite_per_target_find_def gwrite_per_target_view_def gwrite_per_target_iter_def find_map
      iter_find_find comp_def gwrite_target_ent_def)

lemma gwrite_uniform_find_view:
  assumes "gwrite_uniform_view g = (addr, cnt, es)"
  shows "map_option fb_bytes (gwrite_uniform_find g i) = map_option snd (find (\<lambda>e. fst e = i) es)"
proof -
  have e: "(\<lambda>(j, d). j = i) = (\<lambda>e. fst e = i)" "(\<lambda>(k, (j, d)). d) = (\<lambda>x. snd (snd x))"
    for i :: frame_id by (auto simp: fun_eq_iff)
  have "gwrite_uniform_find g i = map_option snd (find (\<lambda>e. fst e = i) (gwrite_uniform_iter g))"
    by (simp add: gwrite_uniform_find_def gwrite_uniform_iter_def iter_find_find [symmetric, where k = 0]
        option.map_comp comp_def e)
  then show ?thesis
    using assms by (auto simp: gwrite_uniform_view_def find_map option.map_comp comp_def)
qed

text \<open>What a group write leaves a servo to do: the span and bytes of a silent write, or nothing.\<close>

fun written :: "decoded \<Rightarrow> (u16 \<times> bytes \<times> bool) option" where
  "written (DecOwn (ReqWrite addr data hold) c slot) =
     (if \<not> may_reply c \<and> slot = 0 then Some (addr, fb_bytes data, hold) else None)"
| "written _ = None"

lemma written_own_write [simp]: "written (dec_own_write addr d hold) = Some (addr, fb_bytes d, hold)"
  by (simp add: dec_own_write_def)

lemma written_gwrite_per_target:
  assumes "inst_per_target inst" "gwrite_per_target_parse pay = Some g"
  shows "written (dec_gwrite inst pay own) =
    map_option (\<lambda>(_, addr, data). (addr, data, inst_hold inst)) (find (\<lambda>e. fst e = own) (gwrite_per_target_view g))"
  using assms gwrite_per_target_find_view [of g own, symmetric]
  by (cases "gwrite_per_target_find g own") (auto simp: dec_gwrite_def gwrite_target_ent_def Let_def)

lemma written_gwrite_uniform:
  assumes "\<not> inst_per_target inst" "gwrite_uniform_parse pay = Some g" "gwrite_uniform_view g = (addr, cnt, es)"
  shows "written (dec_gwrite inst pay own) =
    map_option (\<lambda>(_, data). (addr, data, inst_hold inst)) (find (\<lambda>e. fst e = own) es)"
  using assms gwrite_uniform_find_view [OF assms(3), of own]
  by (cases "gwrite_uniform_find g own"; cases "find (\<lambda>e. fst e = own) es")
    (auto simp: dec_gwrite_def gwrite_uniform_view_def Let_def)

lemma built_payload_len:
  assumes "n \<le> 252" "n \<le> length dst'"
  shows "length (take n dst') = unat (of_nat n :: u8)"
  using assms by (simp add: unat_of_nat8)

text \<open>
  C35. A group write delivers to every listed servo its own span and to nobody else anything. A
  GWRITE frame whose payload a builder produced from the entries \<open>es\<close>, wherever it lies across the
  ring seam, is decoded by a servo as a silent write of exactly the bytes of the first entry that
  names it, at that entry's (or the common) address and with the frame's HOLD flag; a servo no
  entry names does nothing.
\<close>

theorem gwrite_frame_delivers:
  assumes f: "fb_bytes f = [b0, i, len_for (of_nat n), inst] @ take n dst' @ crc"
    and op: "inst_opcode inst = Some OpGwrite" "\<not> inst_is_status inst"
  shows "(inst_per_target inst \<longrightarrow> build_gwrite_per_target dst es = Some (dst', n) \<longrightarrow>
     written (decode f own) =
       map_option (\<lambda>(_, addr, data). (addr, data, inst_hold inst)) (find (\<lambda>e. fst e = own) es)) \<and>
   (\<not> inst_per_target inst \<longrightarrow> build_gwrite_uniform dst (addr, cnt, us) = Some (dst', n) \<longrightarrow>
     written (decode f own) =
       map_option (\<lambda>(_, data). (addr, data, inst_hold inst)) (find (\<lambda>e. fst e = own) us))"
proof (intro conjI impI)
  assume pt: "inst_per_target inst" and b: "build_gwrite_per_target dst es = Some (dst', n)"
  have "n \<le> 252" "n \<le> length dst'"
    using b c_gwrite_per_target.build_bounds [OF b]
    by (auto simp: build_gwrite_per_target_law build_cap_def split: if_splits)
  from decode_view [OF f built_payload_len [OF this], of own]
  obtain pv where pv: "fb_bytes pv = take n dst'" "decode f own = dec_gwrite inst pv own"
    using op by (auto simp: dec_route_def)
  then obtain g where "gwrite_per_target_parse pv = Some g" "gwrite_per_target_view g = es"
    using c_gwrite_per_target.round_trip [OF b] by blast
  with pt pv show "written (decode f own) =
       map_option (\<lambda>(_, addr, data). (addr, data, inst_hold inst)) (find (\<lambda>e. fst e = own) es)"
    by (simp add: written_gwrite_per_target)
next
  assume pt: "\<not> inst_per_target inst" and b: "build_gwrite_uniform dst (addr, cnt, us) = Some (dst', n)"
  have "n \<le> 252" "n \<le> length dst'"
    using b c_gwrite_uniform.build_bounds [OF b]
    by (auto simp: build_gwrite_uniform_law build_cap_def split: if_splits)
  from decode_view [OF f built_payload_len [OF this], of own]
  obtain pv where pv: "fb_bytes pv = take n dst'" "decode f own = dec_gwrite inst pv own"
    using op by (auto simp: dec_route_def)
  then obtain g where "gwrite_uniform_parse pv = Some g" "gwrite_uniform_view g = (addr, cnt, us)"
    using c_gwrite_uniform.round_trip [OF b] by blast
  with pt pv show "written (decode f own) =
       map_option (\<lambda>(_, data). (addr, data, inst_hold inst)) (find (\<lambda>e. fst e = own) us)"
    by (simp add: written_gwrite_uniform)
qed

theorem gwrite_frame_delivers_witness:
  "written (decode (fb_new [0, 0xFE, 8, 0x69, 5, 0x80] [0x01, 1, 0xAA, 0x12, 0x34]) 5) = Some (0x180, [0xAA], True)"
proof -
  have b: "build_gwrite_per_target [0, 0, 0, 0, 0, 0] [(5, 0x180, [0xAA])] = Some ([5, 0x80, 0x01, 1, 0xAA, 0], 5)"
    by (simp add: build_gwrite_per_target_law gwrite_per_target_ok_def enc_gwrite_target_def build_cap_def
        MAX_PAYLOAD_def put_def le16_bytes_def)
  have i: "inst_opcode 0x69 = Some OpGwrite" "\<not> inst_is_status 0x69" "inst_per_target 0x69" "inst_hold 0x69"
    by code_simp+
  show ?thesis
    using gwrite_frame_delivers [of "fb_new [0, 0xFE, 8, 0x69, 5, 0x80] [0x01, 1, 0xAA, 0x12, 0x34]" 0 "0xFE" 5
        "0x69" "[5, 0x80, 0x01, 1, 0xAA, 0]" "[0x12, 0x34]" "[0, 0, 0, 0, 0, 0]" "[(5, 0x180, [0xAA])]" 5] b i
    by (simp add: len_for_def)
qed

text \<open>The chain slot a servo answers a frame at, if it answers.\<close>

definition reply_slot :: "frame_bytes \<Rightarrow> u8 \<Rightarrow> u8 option" where
  "reply_slot f own = (case decode f own of
     DecOwn _ c k \<Rightarrow> if may_reply c then Some k else None | _ \<Rightarrow> None)"

lemma reply_slot_inj:
  assumes "u8_at f 3 = Some inst" "inst_opcode inst = Some OpGread"
    and "reply_slot f a = Some k" "reply_slot f b = Some k"
  shows "a = b"
  using assms decode_exclusive(2) by (fastforce simp: reply_slot_def split: decoded.splits if_splits)

text \<open>
  C36. Every live servo a GREAD lists answers it exactly once, in list order, never two at a time.
  For a GREAD frame of any of the four forms and any set of live servos \<open>owns\<close> that decode a slot
  from it, the sequencers staged at those slots, which arm deadlines and hear each other's breaks and
  frame ends at their own times, start one reply per servo in ascending order of the slots, none of
  them while another frame is in flight, and a reply is marked predecessor-silent exactly when some
  slot before it stayed empty. It holds for every reply that breaks the wire within the reclaim window
  of its trigger and ends within the frame allowance of its break, which may be far longer than the
  reclaim window; 768 events are always enough.
\<close>

theorem gread_fleet_answers:
  assumes op: "u8_at f 3 = Some inst" "inst_opcode inst = Some OpGread"
    and owns: "distinct owns" "\<forall>own\<in>set owns. reply_slot f own \<noteq> None"
    and ks: "ks = sort (map (the \<circ> reply_slot f) owns)"
    and window: "lead < reclaim" "unat gap + unat reclaim < 2 ^ 32"
    and frames: "\<forall>k\<in>set ks. 0 < dur k \<and> dur k < allowance" "unat reclaim + unat allowance < 2 ^ 32"
    and n: "768 \<le> n"
  shows "length ks = length owns \<and> distinct ks \<and>
    fleet_run n dur lead (fin, [], map (member_stage chain_new fin gap reclaim allowance) ks) =
      map (\<lambda>k. (k, \<exists>i<k. i \<notin> set ks, False)) ks"
proof -
  have "inj_on (the \<circ> reply_slot f) (set owns)"
  proof (rule inj_onI)
    fix a b assume ab: "a \<in> set owns" "b \<in> set owns" "(the \<circ> reply_slot f) a = (the \<circ> reply_slot f) b"
    with owns(2) obtain j k where "reply_slot f a = Some j" "reply_slot f b = Some k" by blast
    with ab reply_slot_inj [OF op] show "a = b" by simp
  qed
  then have "distinct ks" using owns(1) by (simp add: ks distinct_map)
  moreover have "sorted ks" "length ks = length owns" by (simp_all add: ks)
  ultimately show ?thesis using fleet_in_order [OF _ _ window frames n] by blast
qed

text \<open>Slot 0 answers with a frame of 9000 ticks, well past the reclaim window of 4800; slot 1 is dead.\<close>

theorem gread_fleet_answers_witness:
  "fleet_run 768 (\<lambda>k. 9000) 240 (1000, [], map (member_stage chain_new 1000 576 4800 90000) [0, 2]) =
    [(0, False, False), (2, True, False)]"
proof -
  let ?f = "fb_new [0, 0xFE, 10, 0x50, 0, 2] [4, 0, 4, 5, 6, 0xAA, 0xBB]"
  have slots: "reply_slot ?f 4 = Some 0" "reply_slot ?f 6 = Some 2"
    using demo_gread by (simp_all add: reply_slot_def)
  have "u8_at ?f 3 = Some 0x50" "inst_opcode 0x50 = Some OpGread" by code_simp+
  from gread_fleet_answers [OF this, of "[6, 4]" "[0, 2]" 240 4800 576 "\<lambda>k. 9000" 90000 768 1000] slots
  have "fleet_run 768 (\<lambda>k. 9000) 240 (1000, [], map (member_stage chain_new 1000 576 4800 90000) [0, 2]) =
    map (\<lambda>k. (k, \<exists>i<k. i \<notin> set [0, 2], False)) [0, 2]" by simp
  moreover have "\<not> (\<exists>i<0. i \<notin> set [0, 2 :: u8])" "\<exists>i<2. i \<notin> set [0, 2 :: u8]"
    by (auto intro: exI [of _ 1])
  ultimately show ?thesis by simp
qed

text \<open>The allowance matters: a frame that outlasts it is taken for a dead one and the next slot talks over it.\<close>

lemma outlasted_allowance_clashes:
  "fleet_run 4 (\<lambda>k. 9) 1 (0, [], map (member_stage chain_new 0 2 4 6) [0, 1]) = [(0, False, False), (1, True, True)]"
  by code_simp

text \<open>
  C37. The AUTH trailer of an authenticated frame reaches the dispatcher. The five trailer bytes
  are not removed before the payload is parsed: an authenticated unicast WRITE is decoded as a
  write of its data followed by the trailer, an authenticated READ and an authenticated ASSIGN,
  whose payloads have a fixed length, as unsupported requests.
\<close>

theorem trailer_reaches_dispatcher:
  assumes f: "fb_bytes f = [b0, own, len_for p, inst] @ (pay @ trailer) @ crc" and p: "length (pay @ trailer) = unat p"
    and t: "length trailer = TRAILER_LEN" and i: "inst_authenticated inst" "\<not> inst_is_status inst"
  shows "(inst_opcode inst = Some OpWrite \<longrightarrow> pay = le16_bytes addr @ data \<longrightarrow>
      (\<exists>d c. decode f own = DecOwn (ReqWrite addr d (inst_hold inst)) c 0 \<and> fb_bytes d = data @ trailer)) \<and>
    (inst_opcode inst = Some OpRead \<longrightarrow> \<not> inst_profile inst \<longrightarrow> length pay = 4 \<longrightarrow>
      (\<exists>c. decode f own = DecOwn ReqUnsupported c 0)) \<and>
    (inst_opcode inst = Some OpMgmt \<longrightarrow> pay = mgmt_byte MgmtAssign # uid @ [new_id] \<longrightarrow> length uid = UID_LEN \<longrightarrow>
      (\<exists>c. decode f own = DecOwn ReqUnsupported c 0))"
proof -
  obtain pv where pv: "fb_bytes pv = pay @ trailer" "decode f own = dec_route inst own pv own"
    using decode_view [OF f p] by blast
  have own: "id_addresses own own" by (simp add: id_addresses_def)
  have "\<exists>d c. decode f own = DecOwn (ReqWrite addr d (inst_hold inst)) c 0 \<and> fb_bytes d = data @ trailer"
    if "inst_opcode inst = Some OpWrite" "pay = le16_bytes addr @ data"
    using that pv own i write_req_parse_view [of pv]
    by (auto simp: dec_route_def dec_plain_def Let_def le16_bytes_def split: option.splits)
  moreover have "read_req_parse pv = None" if "length pay = 4"
    using length_4_ex [OF that] pv(1) t by (cases trailer) (auto simp: read_req_parse_view TRAILER_LEN_def)
  then have "\<exists>c. decode f own = DecOwn ReqUnsupported c 0"
    if "inst_opcode inst = Some OpRead" "\<not> inst_profile inst" "length pay = 4"
    using that pv own i by (auto simp: dec_route_def dec_plain_def Let_def)
  moreover have "\<exists>c. decode f own = DecOwn ReqUnsupported c 0"
    if m: "inst_opcode inst = Some OpMgmt" "pay = mgmt_byte MgmtAssign # uid @ [new_id]" "length uid = UID_LEN"
  proof -
    obtain r where "mgmt_req_parse pv = Some r" "mr_op r = MgmtAssign" "fb_bytes (mr_args r) = uid @ [new_id] @ trailer"
      using mgmt_req_parse_byte [of pv MgmtAssign "uid @ [new_id] @ trailer"] pv m by auto
    moreover from this have "assign_req_parse (mr_args r) = None"
      using m t by (simp add: assign_req_parse_view TRAILER_LEN_def)
    ultimately show ?thesis
      using m pv own i by (auto simp: dec_route_def dec_plain_def dec_mgmt_def Let_def)
  qed
  ultimately show ?thesis by blast
qed

theorem trailer_reaches_dispatcher_witness:
  "\<exists>d c. decode (fb_from [0, 5, 11, 0x32, 0x80, 0x01, 7, 1, 2, 3, 4, 5, 0xAA, 0xBB]) 5 =
     DecOwn (ReqWrite 0x180 d False) c 0 \<and> fb_bytes d = [7, 1, 2, 3, 4, 5]"
proof -
  have i: "inst_opcode 0x32 = Some OpWrite" "inst_authenticated 0x32" "\<not> inst_is_status 0x32" "\<not> inst_hold 0x32"
    by code_simp+
  show ?thesis
    using trailer_reaches_dispatcher [of "fb_from [0, 5, 11, 0x32, 0x80, 0x01, 7, 1, 2, 3, 4, 5, 0xAA, 0xBB]"
        0 5 8 "0x32" "[0x80, 0x01, 7]" "[1, 2, 3, 4, 5]" "[0xAA, 0xBB]" "0x180" "[7]" "[]" 0] i
    by (simp add: len_for_def TRAILER_LEN_def le16_bytes_def)
qed

end
