(* ===== verification/Bus_Framer.thy ===== *)
theory Bus_Framer
  imports Osc_Frame
begin

text \<open>
  \<open>drivers/src/bus/framer.rs\<close> and the ring helpers of \<open>bus/mod.rs\<close> and \<open>traits/bus.rs\<close>: the resolver
  that finds frames in the RX ring. The ring is the list of its bytes, \<open>cursor\<close> the index the next
  received byte goes to, \<open>anchor\<close> the index of the current frame's break byte. \<open>None\<close> is the panic of
  an index outside the ring; it is shown unreachable. Ticks are \<open>u32\<close> and wrap.
\<close>

subsection \<open>Ring and tick helpers\<close>

definition ring_wrap :: "nat \<Rightarrow> nat \<Rightarrow> nat" where
  "ring_wrap i len = i AND (len - 1)"

definition tick_reached :: "u32 \<Rightarrow> u32 \<Rightarrow> bool" where
  "tick_reached a b \<longleftrightarrow> a - b < 0xFFFFFFFF div 2"

definition REPLY_GAP_US :: u32 where [osc_const]: "REPLY_GAP_US = 12"

definition FRAME_MAX :: nat where "FRAME_MAX = footprint 255"

definition frame_view :: "bytes \<Rightarrow> u16 \<Rightarrow> u16 \<Rightarrow> frame_bytes option" where
  "frame_view ring anchor fp =
     (let a = unat anchor; n = unat fp; len = length ring
      in if a + n \<le> len
         then do { x \<leftarrow> slice_opt ring a (a + n); Some (fb_from x) }
         else do { x \<leftarrow> slice_opt ring a len;
                   y \<leftarrow> slice_opt ring 0 (n - (len - a));
                   Some (fb_new x y) })"

subsection \<open>State\<close>

record frame_span =
  fs_anchor :: u16
  fs_footprint :: u16
  fs_packet_end :: u32

datatype framer_out = FoNone | FoWait u32 | FoCovered frame_span u32 | FoFrame frame_span

definition HEADER_SPAN_BYTES :: u16 where [osc_const]: "HEADER_SPAN_BYTES = 4"
definition BREAK_RING_BYTE :: u8 where [osc_const]: "BREAK_RING_BYTE = 0"
definition BREAK_TAIL_EPS_DIV :: u32 where [osc_const]: "BREAK_TAIL_EPS_DIV = 2"
definition DRIFT_SHIFT :: nat where [osc_const]: "DRIFT_SHIFT = 6"
definition COVERED_TAIL_BYTES :: u32 where [osc_const]: "COVERED_TAIL_BYTES = 2"
definition STARVE_GIVEUP_BYTES :: u32 where [osc_const]: "STARVE_GIVEUP_BYTES = STARVE_HORIZON_BYTE_TIMES"
definition HUNT_BYTES_PER_WAKE :: nat where [osc_const]: "HUNT_BYTES_PER_WAKE = 64"

definition wire_lead :: "u32 \<Rightarrow> u32 \<Rightarrow> u32" where
  "wire_lead n tpb = (let t = n * tpb in t + drop_bit DRIFT_SHIFT t)"

record frontier =
  fr_covered :: bool
  fr_observed :: bool
  fr_seen :: u16
  fr_progress_tick :: u32

definition frontier_idle :: frontier where
  "frontier_idle = \<lparr> fr_covered = False, fr_observed = False, fr_seen = 0, fr_progress_tick = 0 \<rparr>"

definition frontier_advance :: "frontier \<Rightarrow> u16 \<Rightarrow> u32 \<Rightarrow> frontier" where
  "frontier_advance fr cursor now =
     (if fr_observed fr \<and> cursor = fr_seen fr then fr
      else fr\<lparr> fr_observed := True, fr_seen := cursor, fr_progress_tick := now \<rparr>)"

record framer =
  fm_anchor :: u16
  fm_hunting :: bool
  fm_frontier :: frontier
  fm_fault_seen :: u16
  fm_drops :: u32

definition framer_new :: framer where
  "framer_new = \<lparr> fm_anchor = 0, fm_hunting = False, fm_frontier = frontier_idle, fm_fault_seen = 0, fm_drops = 0 \<rparr>"

definition framer_resync :: "framer \<Rightarrow> u16 \<Rightarrow> framer" where
  "framer_resync fm cursor =
     fm\<lparr> fm_anchor := cursor, fm_frontier := frontier_idle, fm_fault_seen := cursor \<rparr>"

definition framer_on_wire_fault :: "framer \<Rightarrow> u16 \<Rightarrow> framer \<times> bool" where
  "framer_on_wire_fault fm cursor =
     (if cursor = fm_fault_seen fm then (fm, False) else (fm\<lparr> fm_fault_seen := cursor \<rparr>, True))"

definition framer_on_frame_rejected :: "framer \<Rightarrow> u16 \<Rightarrow> nat \<Rightarrow> framer" where
  "framer_on_frame_rejected fm anchor len =
     fm\<lparr> fm_hunting := True, fm_anchor := of_nat (ring_wrap (unat anchor + 1) len),
         fm_frontier := frontier_idle \<rparr>"

definition framer_on_frame_verified :: "framer \<Rightarrow> framer" where
  "framer_on_frame_verified fm = fm\<lparr> fm_hunting := False \<rparr>"

definition framer_caught_up :: "framer \<Rightarrow> u16 \<Rightarrow> bool" where
  "framer_caught_up fm cursor \<longleftrightarrow> fm_anchor fm = cursor"

definition framer_dist :: "u16 \<Rightarrow> u16 \<Rightarrow> nat \<Rightarrow> u16" where
  "framer_dist cursor anchor len = of_nat (ring_wrap ((unat cursor + len) - unat anchor) len)"

subsection \<open>Resolution\<close>

definition framer_give_up :: "framer \<Rightarrow> nat \<Rightarrow> u32 \<Rightarrow> framer \<times> framer_out" where
  "framer_give_up fm len now =
     (let fm1 = (if \<not> fm_hunting fm then fm\<lparr> fm_drops := fm_drops fm + 1, fm_hunting := True \<rparr> else fm)
      in (fm1\<lparr> fm_anchor := of_nat (ring_wrap (unat (fm_anchor fm1) + 1) len), fm_frontier := frontier_idle \<rparr>,
          FoWait now))"

definition framer_wait :: "framer \<Rightarrow> u32 \<Rightarrow> u32 \<Rightarrow> u32 \<Rightarrow> u16 \<Rightarrow> nat \<Rightarrow> framer \<times> framer_out" where
  "framer_wait fm aim now tpb cursor len =
     (let giveup_span = STARVE_GIVEUP_BYTES * tpb;
          stalled = fr_observed (fm_frontier fm) \<and> cursor = fr_seen (fm_frontier fm);
          fm = fm\<lparr> fm_frontier := frontier_advance (fm_frontier fm) cursor now \<rparr>
      in if stalled \<and> tick_reached now (fr_progress_tick (fm_frontier fm) + giveup_span)
         then framer_give_up fm len now
         else let horizon = fr_progress_tick (fm_frontier fm) + giveup_span;
                  sooner = (if aim - now \<le> horizon - now then aim else horizon)
              in (fm, FoWait sooner))"

definition framer_plausible :: "bytes \<Rightarrow> nat \<Rightarrow> u16 \<Rightarrow> bool option" where
  "framer_plausible ring a received =
     do { b \<leftarrow> nth_opt ring a;
          if b \<noteq> BREAK_RING_BYTE then Some False
          else if received < HEADER_SPAN_BYTES then Some True
          else do { l \<leftarrow> nth_opt ring (ring_wrap (a + 2) (length ring)); Some (3 \<le> l) } }"

fun framer_hunt :: "bytes \<Rightarrow> u32 \<Rightarrow> nat \<Rightarrow> u16 \<Rightarrow> framer \<Rightarrow> (framer \<times> (framer_out + u16)) option" where
  "framer_hunt ring now 0 received fm = Some (fm, Inl (FoWait now))"
| "framer_hunt ring now (Suc budget) received fm =
     (let a = unat (fm_anchor fm)
      in do { plausible \<leftarrow> framer_plausible ring a received;
              if plausible then Some (fm, Inr received)
              else let fm = fm\<lparr> fm_hunting := True,
                                fm_anchor := of_nat (ring_wrap (a + 1) (length ring)),
                                fm_frontier := frontier_idle \<rparr>;
                       received = received - 1
                   in if received = 0 then Some (fm, Inl FoNone)
                      else framer_hunt ring now budget received fm })"

definition ring_header :: "bytes \<Rightarrow> u16 \<Rightarrow> header option" where
  "ring_header ring anchor =
     do { hb \<leftarrow> those (map (\<lambda>i. nth_opt ring (ring_wrap (unat anchor + i) (length ring))) [0..<4]);
          header_from_bytes hb }"

definition framer_candidate :: "framer \<Rightarrow> bytes \<Rightarrow> u16 \<Rightarrow> u16 \<Rightarrow> u32 \<Rightarrow> u32 \<Rightarrow> (framer \<times> framer_out) option" where
  "framer_candidate fm ring cursor received now tpb =
     (let len = length ring
      in if received < HEADER_SPAN_BYTES
         then Some (framer_wait fm
                (now + wire_lead (ucast (HEADER_SPAN_BYTES - received)) tpb + tpb div BREAK_TAIL_EPS_DIV)
                now tpb cursor len)
         else do {
           h \<leftarrow> ring_header ring (fm_anchor fm);
           let fp = (of_nat (header_frame_end h) :: u16);
           if received \<ge> fp
           then let anchor = fm_anchor fm
                in Some (fm\<lparr> fm_anchor := of_nat (ring_wrap (unat anchor + unat fp) len),
                             fm_frontier := frontier_idle \<rparr>,
                         FoFrame \<lparr> fs_anchor = anchor, fs_footprint = fp, fs_packet_end = now \<rparr>)
           else let missing = (ucast (fp - received) :: u32)
                in if \<not> fr_covered (fm_frontier fm) \<and> missing \<le> COVERED_TAIL_BYTES
                   then let fr = frontier_advance (fm_frontier fm) cursor now;
                            packet_end = now + wire_lead missing tpb
                        in Some (fm\<lparr> fm_frontier := fr\<lparr> fr_covered := True \<rparr> \<rparr>,
                                 FoCovered \<lparr> fs_anchor = fm_anchor fm, fs_footprint = fp,
                                             fs_packet_end = packet_end \<rparr> packet_end)
                   else let to_target = (if fr_covered (fm_frontier fm) then missing
                                         else missing - COVERED_TAIL_BYTES)
                        in Some (framer_wait fm (now + wire_lead to_target tpb) now tpb cursor len) })"

definition framer_resolve :: "framer \<Rightarrow> bytes \<Rightarrow> u16 \<Rightarrow> u32 \<Rightarrow> u32 \<Rightarrow> (framer \<times> framer_out) option" where
  "framer_resolve fm ring cursor now tpb =
     (let len = length ring
      in if len = 0 then Some (fm, FoNone)
         else let received = framer_dist cursor (fm_anchor fm) len
              in if received = 0 then Some (fm\<lparr> fm_frontier := frontier_idle \<rparr>, FoNone)
                 else do { (fm, r) \<leftarrow> framer_hunt ring now HUNT_BYTES_PER_WAKE received fm;
                           case r of
                             Inl out \<Rightarrow> Some (fm, out)
                           | Inr received \<Rightarrow> framer_candidate fm ring cursor received now tpb })"

subsection \<open>Logical positions\<close>

text \<open>The contract of \<open>RxRing\<close>: a power-of-two length above the largest frame, within \<open>u16\<close>.\<close>

definition ring_ok :: "bytes \<Rightarrow> bool" where
  "ring_ok ring \<longleftrightarrow> (\<exists>k. length ring = 2 ^ k) \<and> FRAME_MAX < length ring \<and> length ring \<le> 2 ^ 15"

definition window :: "bytes \<Rightarrow> nat \<Rightarrow> nat \<Rightarrow> bytes" where
  "window ring a n = map (\<lambda>i. ring ! ((a + i) mod length ring)) [0..<n]"

lemma ring_wrap_mod: "\<exists>k. len = 2 ^ k \<Longrightarrow> ring_wrap i len = i mod len"
  by (auto simp: ring_wrap_def take_bit_eq_mask mask_eq_exp_minus_1 simp flip: take_bit_eq_mod)

lemma length_window [simp]: "length (window ring a n) = n"
  by (simp add: window_def)

lemma nth_window: "i < n \<Longrightarrow> window ring a n ! i = ring ! ((a + i) mod length ring)"
  by (simp add: window_def)

lemma window_drop: "drop m (window ring a n) = window ring ((a + m) mod length ring) (n - m)"
  by (rule nth_equalityI) (simp_all add: nth_window mod_simps add.assoc)

lemma window_take: "m \<le> n \<Longrightarrow> take m (window ring a n) = window ring a m"
  by (rule nth_equalityI) (simp_all add: nth_window)

lemma frame_view_window:
  assumes "unat a < length ring" "unat n \<le> length ring"
  shows "\<exists>v. frame_view ring a n = Some v \<and> fb_bytes v = window ring (unat a) (unat n)"
proof (cases "unat a + unat n \<le> length ring")
  case True
  then have "take (unat n) (drop (unat a) ring) = window ring (unat a) (unat n)"
    using assms by (intro nth_equalityI) (auto simp: nth_window)
  with True show ?thesis by (simp add: frame_view_def slice_opt_def Let_def)
next
  case False
  then have "drop (unat a) ring @ take (unat n - (length ring - unat a)) ring = window ring (unat a) (unat n)"
    using assms by (intro nth_equalityI) (auto simp: nth_window nth_append mod_if add.commute)
  with False assms show ?thesis by (auto simp: frame_view_def slice_opt_def Let_def)
qed

subsection \<open>The resolver keeps its anchor in the ring and never panics\<close>

lemma ring_okD:
  assumes "ring_ok ring"
  shows "\<exists>k. length ring = 2 ^ k" "258 < length ring" "length ring \<le> 32768" "ring \<noteq> []"
  using assms by (auto simp: ring_ok_def FRAME_MAX_def footprint_def)

lemma ring_wrap_ok: "ring_ok ring \<Longrightarrow> ring_wrap i (length ring) = i mod length ring"
  using ring_okD(1) ring_wrap_mod by blast

lemma u16_mod:
  assumes "ring_ok ring"
  shows "unat (of_nat (i mod length ring) :: u16) = i mod length ring"
proof -
  have "i mod length ring < 65536"
    using ring_okD [OF assms] mod_less_divisor [of "length ring" i] by linarith
  then show ?thesis by (simp add: unat_of_nat take_bit_nat_eq_self)
qed

lemma framer_dist_ok:
  assumes "ring_ok ring" "unat anchor < length ring" "unat cursor < length ring"
  shows "unat (framer_dist cursor anchor (length ring)) = (unat cursor + length ring - unat anchor) mod length ring"
  using assms by (simp add: framer_dist_def ring_wrap_ok u16_mod)

lemma dist_advance:
  assumes "(a :: nat) < len" "c < len" "m \<le> (c + len - a) mod len"
  shows "(c + len - (a + m) mod len) mod len = (c + len - a) mod len - m"
proof (cases "a \<le> c")
  case True
  have d: "(c + len - a) mod len = c - a"
    using True assms(1,2) by (metis Nat.add_diff_assoc2 less_imp_diff_less mod_add_self2 mod_less)
  then have "a + m \<le> c" using assms True by linarith
  then have "(a + m) mod len = a + m" "(c + len - (a + m)) mod len = c - (a + m)"
    using assms(1,2) by (simp, metis Nat.add_diff_assoc2 less_imp_diff_less mod_add_self2 mod_less)
  then show ?thesis using d by simp
next
  case False
  have d: "(c + len - a) mod len = c + len - a" using False assms(1,2) by simp
  show ?thesis
  proof (cases "a + m < len")
    case True
    then have "(c + len - (a + m)) mod len = c + len - (a + m)" using False assms(1,2) by simp
    then show ?thesis using True d by simp
  next
    case wrap: False
    then have w: "(a + m) mod len = a + m - len" using d assms by (simp add: le_mod_geq)
    then have le: "a + m - len \<le> c" using assms d by linarith
    then have "(c + len - (a + m - len)) mod len = c - (a + m - len)"
      using assms(1,2) by (metis Nat.add_diff_assoc2 less_imp_diff_less mod_add_self2 mod_less)
    then show ?thesis using w wrap d by simp
  qed
qed

lemma plausible_view:
  assumes "ring_ok ring" "a < length ring"
  shows "framer_plausible ring a received =
    Some (ring ! a = 0 \<and> (received < 4 \<or> 3 \<le> ring ! ((a + 2) mod length ring)))"
  using assms ring_okD [of ring]
  by (simp add: framer_plausible_def ring_wrap_ok nth_opt_def BREAK_RING_BYTE_def HEADER_SPAN_BYTES_def)

lemma ring_header_view:
  assumes "ring_ok ring" "unat a < length ring"
  shows "ring_header ring a =
    Some \<lparr> hd_brk = ring ! unat a, hd_id = ring ! ((unat a + 1) mod length ring),
           hd_len = ring ! ((unat a + 2) mod length ring), hd_inst = ring ! ((unat a + 3) mod length ring) \<rparr>"
proof -
  have "[0..<4] = [0, 1, 2, 3 :: nat]" by (simp add: upt_rec)
  then show ?thesis
    using assms ring_okD [of ring]
    by (simp add: ring_header_def ring_wrap_ok nth_opt_def header_from_bytes_def)
qed

text \<open>A hunt stops at the first plausible byte, after the budget, or when the ring is exhausted; it
  moves the anchor forward only, over bytes that are not plausible frame starts.\<close>

definition hunt_post :: "bytes \<Rightarrow> u32 \<Rightarrow> nat \<Rightarrow> u16 \<Rightarrow> framer \<Rightarrow> nat \<Rightarrow> framer \<Rightarrow> framer_out + u16 \<Rightarrow> bool" where
  "hunt_post ring now n received fm m fm' r \<longleftrightarrow>
    unat (fm_anchor fm') = (unat (fm_anchor fm) + m) mod length ring \<and> m \<le> n \<and> m \<le> unat received \<and>
    fm_drops fm' = fm_drops fm \<and> fm_fault_seen fm' = fm_fault_seen fm \<and>
    (m = 0 \<longrightarrow> fm' = fm) \<and> (0 < m \<longrightarrow> fm_hunting fm' \<and> fm_frontier fm' = frontier_idle) \<and>
    (\<forall>i<m. framer_plausible ring ((unat (fm_anchor fm) + i) mod length ring) (received - of_nat i) = Some False) \<and>
    (case r of
       Inr rest \<Rightarrow> unat rest = unat received - m \<and> rest \<noteq> 0 \<and>
         framer_plausible ring (unat (fm_anchor fm')) rest = Some True
     | Inl out \<Rightarrow> (out = FoNone \<and> m = unat received) \<or> (out = FoWait now \<and> m = n))"

lemma hunt_post_step:
  assumes post: "hunt_post ring now n (received - 1) fm1 m fm' r"
    and a1: "unat (fm_anchor fm1) = (unat (fm_anchor fm) + 1) mod length ring"
    and fm1: "fm_drops fm1 = fm_drops fm" "fm_fault_seen fm1 = fm_fault_seen fm" "fm_hunting fm1" "fm_frontier fm1 = frontier_idle"
    and p: "framer_plausible ring (unat (fm_anchor fm)) received = Some False"
    and r: "unat (received - 1) = unat received - 1" "0 < unat received" "unat (fm_anchor fm) < length ring"
  shows "hunt_post ring now (Suc n) received fm (Suc m) fm' r"
proof -
  have skipped: "framer_plausible ring ((unat (fm_anchor fm) + i) mod length ring) (received - of_nat i) = Some False"
    if "i < Suc m" for i
  proof (cases i)
    case 0
    then show ?thesis using p r by simp
  next
    case (Suc j)
    then have "framer_plausible ring ((unat (fm_anchor fm1) + j) mod length ring) (received - 1 - of_nat j) = Some False"
      using post that by (simp add: hunt_post_def)
    then show ?thesis unfolding a1 Suc by (simp add: mod_simps diff_diff_eq)
  qed
  have "unat (fm_anchor fm') = (unat (fm_anchor fm) + Suc m) mod length ring"
    using post unfolding hunt_post_def a1 by (simp add: mod_simps)
  moreover have "fm_hunting fm' \<and> fm_frontier fm' = frontier_idle"
    using post fm1 by (cases "m = 0") (auto simp: hunt_post_def)
  moreover have "Suc m \<le> unat received"
    using post r by (auto simp: hunt_post_def)
  ultimately show ?thesis
    using post skipped fm1 r by (auto simp: hunt_post_def split: sum.splits)
qed

lemma hunt_spec:
  assumes ok: "ring_ok ring" and a: "unat (fm_anchor fm) < length ring" and r: "received \<noteq> 0"
  shows "\<exists>fm' r' m. framer_hunt ring now n received fm = Some (fm', r') \<and> hunt_post ring now n received fm m fm' r'"
  using a r
proof (induction n arbitrary: received fm)
  case 0
  then show ?case by (intro exI [of _ fm] exI [of _ "Inl (FoWait now)"] exI [of _ 0]) (simp add: hunt_post_def)
next
  case (Suc n)
  let ?a = "unat (fm_anchor fm)"
  let ?fm = "fm\<lparr> fm_hunting := True, fm_anchor := of_nat (ring_wrap (?a + 1) (length ring)), fm_frontier := frontier_idle \<rparr>"
  obtain p where p: "framer_plausible ring ?a received = Some p" using plausible_view [OF ok Suc.prems(1)] by blast
  show ?case
  proof (cases p)
    case True
    with p Suc.prems show ?thesis
      by (intro exI [of _ fm] exI [of _ "Inr received"] exI [of _ 0]) (simp add: hunt_post_def)
  next
    case False
    have a1: "unat (fm_anchor ?fm) = (?a + 1) mod length ring" "unat (fm_anchor ?fm) < length ring"
      using ok ring_okD [OF ok] by (simp_all add: ring_wrap_ok u16_mod)
    have r0: "0 < unat received" using Suc.prems(2) by (simp add: unat_gt_0)
    have r1: "unat (received - 1) = unat received - 1"
      using r0 by (simp add: unat_sub word_le_nat_alt Suc_le_eq)
    show ?thesis
    proof (cases "received = 1")
      case True
      with False p a1 show ?thesis
        by (intro exI [of _ ?fm] exI [of _ "Inl FoNone"] exI [of _ 1]) (simp add: Let_def Suc.prems(1) hunt_post_def)
    next
      case more: False
      then obtain fm' r' m where IH: "framer_hunt ring now n (received - 1) ?fm = Some (fm', r')"
        "hunt_post ring now n (received - 1) ?fm m fm' r'"
        using Suc.IH [OF a1(2), of "received - 1"] by auto
      have "hunt_post ring now (Suc n) received fm (Suc m) fm' r'"
        by (rule hunt_post_step [OF IH(2) a1(1)]) (use p False r0 r1 Suc.prems in simp_all)
      moreover have "framer_hunt ring now (Suc n) received fm = Some (fm', r')"
        using p False more IH(1) by (simp add: Let_def)
      ultimately show ?thesis by blast
    qed
  qed
qed

lemma give_up_anchor:
  assumes "ring_ok ring"
  shows "unat (fm_anchor (fst (framer_give_up fm (length ring) now))) = (unat (fm_anchor fm) + 1) mod length ring"
  using assms by (simp add: framer_give_up_def ring_wrap_ok u16_mod Let_def)

lemma wait_anchor:
  assumes "ring_ok ring" "unat (fm_anchor fm) < length ring"
  shows "\<exists>m\<le>1. unat (fm_anchor (fst (framer_wait fm aim now tpb cursor (length ring)))) =
      (unat (fm_anchor fm) + m) mod length ring"
    "\<exists>t. snd (framer_wait fm aim now tpb cursor (length ring)) = FoWait t"
proof -
  have "\<exists>m\<le>1. x = (unat (fm_anchor fm) + m) mod length ring"
    if "x = unat (fm_anchor fm) \<or> x = (unat (fm_anchor fm) + 1) mod length ring" for x
    using that assms(2) by (elim disjE) (intro exI [of _ 0] exI [of _ 1]; simp)+
  then show "\<exists>m\<le>1. unat (fm_anchor (fst (framer_wait fm aim now tpb cursor (length ring)))) =
      (unat (fm_anchor fm) + m) mod length ring"
    using give_up_anchor [OF assms(1), of "fm\<lparr> fm_frontier := frontier_advance (fm_frontier fm) cursor now \<rparr>" now]
    by (auto simp: framer_wait_def Let_def)
  show "\<exists>t. snd (framer_wait fm aim now tpb cursor (length ring)) = FoWait t"
    by (simp add: framer_wait_def framer_give_up_def Let_def)
qed

text \<open>The span a header at ring index \<open>i\<close> announces.\<close>

definition span_at :: "bytes \<Rightarrow> nat \<Rightarrow> frame_span \<Rightarrow> bool" where
  "span_at ring i s \<longleftrightarrow> unat (fs_anchor s) = i \<and> ring ! i = 0 \<and> 3 \<le> ring ! ((i + 2) mod length ring) \<and>
     unat (fs_footprint s) = 3 + unat (ring ! ((i + 2) mod length ring))"

definition resolve_post :: "bytes \<Rightarrow> nat \<Rightarrow> nat \<Rightarrow> framer \<Rightarrow> framer_out \<Rightarrow> bool" where
  "resolve_post ring a d fm out \<longleftrightarrow>
     (\<exists>m\<le>d. unat (fm_anchor fm) = (a + m) mod length ring \<and>
        (case out of
           FoFrame s \<Rightarrow> \<exists>j. span_at ring ((a + j) mod length ring) s \<and> m = j + unat (fs_footprint s)
         | FoCovered s t \<Rightarrow> span_at ring ((a + m) mod length ring) s \<and> unat (fs_footprint s) \<le> d - m + 2 \<and> d - m < unat (fs_footprint s)
         | _ \<Rightarrow> True))"

lemma unat_of_nat16: "n < 65536 \<Longrightarrow> unat (of_nat n :: u16) = n"
  by (simp add: unat_of_nat take_bit_nat_eq_self)

lemma footprint_u16: "unat (of_nat (header_frame_end h) :: u16) = header_frame_end h"
  using unat_less_256 [of "hd_len h"] by (intro unat_of_nat16) (simp add: header_frame_end_def footprint_def)

lemma unat_ucast_u32: "unat (ucast (x :: u16) :: u32) = unat x"
proof -
  have "unat x < 2 ^ 16" using unsigned_less [of x, where ?'a = nat] by simp
  then show ?thesis by (simp add: unsigned_ucast_eq take_bit_nat_eq_self)
qed

lemma resolve_post_shift:
  assumes "resolve_post ring ((a + m) mod length ring) (d - m) fm out" "m \<le> d"
  shows "resolve_post ring a d fm out"
proof -
  have sum: "((a + m) mod length ring + n) mod length ring = (a + (m + n)) mod length ring" for n
    by (simp add: mod_simps add.assoc)
  obtain n where n: "n \<le> d - m" "unat (fm_anchor fm) = (a + (m + n)) mod length ring"
    and out: "case out of
        FoFrame s \<Rightarrow> \<exists>j. span_at ring ((a + (m + j)) mod length ring) s \<and> n = j + unat (fs_footprint s)
      | FoCovered s t \<Rightarrow> span_at ring ((a + (m + n)) mod length ring) s \<and>
          unat (fs_footprint s) \<le> d - m - n + 2 \<and> d - m - n < unat (fs_footprint s)
      | _ \<Rightarrow> True"
    using assms(1) unfolding resolve_post_def sum by auto
  show ?thesis
    unfolding resolve_post_def
  proof (intro exI [of _ "m + n"] conjI)
    show "case out of
        FoFrame s \<Rightarrow> \<exists>j. span_at ring ((a + j) mod length ring) s \<and> m + n = j + unat (fs_footprint s)
      | FoCovered s t \<Rightarrow> span_at ring ((a + (m + n)) mod length ring) s \<and>
          unat (fs_footprint s) \<le> d - (m + n) + 2 \<and> d - (m + n) < unat (fs_footprint s)
      | _ \<Rightarrow> True"
      using out by (auto split: framer_out.splits intro: exI [of _ "m + j" for j])
  qed (use n assms(2) in auto)
qed

lemma wait_post:
  assumes "ring_ok ring" "unat (fm_anchor fm) < length ring" "0 < d"
    and w: "framer_wait fm aim now tpb cursor (length ring) = (fm', out)"
  shows "resolve_post ring (unat (fm_anchor fm)) d fm' out"
proof -
  obtain m t where "m \<le> 1" "unat (fm_anchor fm') = (unat (fm_anchor fm) + m) mod length ring" "out = FoWait t"
    using wait_anchor [OF assms(1,2)] w by (metis fst_conv snd_conv)
  then show ?thesis using assms(3) by (auto simp: resolve_post_def intro!: exI [of _ m])
qed

lemma candidate_spec:
  assumes ok: "ring_ok ring" and a: "unat (fm_anchor fm) < length ring" and r: "received \<noteq> 0"
    and p: "framer_plausible ring (unat (fm_anchor fm)) received = Some True"
  shows "\<exists>fm' out. framer_candidate fm ring cursor received now tpb = Some (fm', out) \<and>
    resolve_post ring (unat (fm_anchor fm)) (unat received) fm' out"
proof -
  have d: "0 < unat received" using r by (simp add: unat_gt_0)
  have waits: "\<exists>fm' out. Some (framer_wait fm aim now tpb cursor (length ring)) = Some (fm', out) \<and>
      resolve_post ring (unat (fm_anchor fm)) (unat received) fm' out" for aim
    using wait_post [OF ok a d] by (metis surj_pair)
  show ?thesis
  proof (cases "received < 4")
    case True
    then show ?thesis using waits by (simp add: framer_candidate_def HEADER_SPAN_BYTES_def Let_def)
  next
    case False
    let ?a = "unat (fm_anchor fm)"
    obtain h where h: "ring_header ring (fm_anchor fm) = Some h" "hd_len h = ring ! ((?a + 2) mod length ring)"
      using ring_header_view [OF ok a] by auto
    define fp where "fp = (of_nat (header_frame_end h) :: u16)"
    have fp: "unat fp = 3 + unat (ring ! ((?a + 2) mod length ring))"
      by (simp add: fp_def footprint_u16) (simp add: header_frame_end_def footprint_def h)
    have span: "span_at ring ?a \<lparr> fs_anchor = fm_anchor fm, fs_footprint = fp, fs_packet_end = t \<rparr>" for t
      using p False fp by (simp add: span_at_def plausible_view [OF ok a])
    show ?thesis
    proof (cases "fp \<le> received")
      case True
      then have "unat fp \<le> unat received" by (simp add: word_le_nat_alt)
      moreover have "(unat (of_nat (ring_wrap (?a + unat fp) (length ring)) :: u16)) = (?a + unat fp) mod length ring"
        using ok by (simp add: ring_wrap_ok u16_mod)
      ultimately have "resolve_post ring ?a (unat received)
          (fm\<lparr> fm_anchor := of_nat (ring_wrap (?a + unat fp) (length ring)), fm_frontier := frontier_idle \<rparr>)
          (FoFrame \<lparr> fs_anchor = fm_anchor fm, fs_footprint = fp, fs_packet_end = now \<rparr>)"
        unfolding resolve_post_def
        by (intro exI [of _ "unat fp"]) (use span a in \<open>auto intro!: exI [of _ 0]\<close>)
      then show ?thesis
        using True False h by (simp add: framer_candidate_def HEADER_SPAN_BYTES_def Let_def flip: fp_def)
    next
      case short: False
      then have lt: "unat received < unat fp" by (simp add: word_le_nat_alt)
      have m: "unat (ucast (fp - received) :: u32) = unat fp - unat received"
        using short by (simp add: unat_ucast_u32 unat_sub)
      show ?thesis
      proof (cases "\<not> fr_covered (fm_frontier fm) \<and> (ucast (fp - received) :: u32) \<le> COVERED_TAIL_BYTES")
        case True
        then have "unat fp - unat received \<le> 2" using m by (simp add: word_le_nat_alt COVERED_TAIL_BYTES_def)
        with True short False h span a lt show ?thesis
          by (auto simp: framer_candidate_def HEADER_SPAN_BYTES_def Let_def resolve_post_def simp flip: fp_def
              intro!: exI [of _ 0])
      next
        case nc: False
        with short False h waits show ?thesis
          by (auto simp: framer_candidate_def HEADER_SPAN_BYTES_def Let_def simp flip: fp_def)
      qed
    qed
  qed
qed

lemma resolve_spec:
  assumes ok: "ring_ok ring" and a: "unat (fm_anchor fm) < length ring" and c: "unat cursor < length ring"
  shows "\<exists>fm' out. framer_resolve fm ring cursor now tpb = Some (fm', out) \<and>
    resolve_post ring (unat (fm_anchor fm)) ((unat cursor + length ring - unat (fm_anchor fm)) mod length ring) fm' out"
proof -
  let ?a = "unat (fm_anchor fm)"
  define received where "received = framer_dist cursor (fm_anchor fm) (length ring)"
  have d: "unat received = (unat cursor + length ring - ?a) mod length ring"
    using framer_dist_ok [OF ok a c] by (simp add: received_def)
  show ?thesis
  proof (cases "received = 0")
    case True
    then show ?thesis
      using ring_okD [OF ok] a
      by (auto simp: framer_resolve_def resolve_post_def simp flip: received_def intro: exI [of _ 0])
  next
    case False
    obtain fm1 r m where h: "framer_hunt ring now HUNT_BYTES_PER_WAKE received fm = Some (fm1, r)"
      and post: "hunt_post ring now HUNT_BYTES_PER_WAKE received fm m fm1 r"
      using hunt_spec [OF ok a False] by blast
    have a1: "unat (fm_anchor fm1) = (?a + m) mod length ring" "m \<le> unat received" using post by (auto simp: hunt_post_def)
    then have a1': "unat (fm_anchor fm1) < length ring" using ring_okD [OF ok] by simp
    show ?thesis
    proof (cases r)
      case (Inl out)
      with post have "out = FoNone \<or> out = FoWait now" by (auto simp: hunt_post_def)
      then have "resolve_post ring ?a (unat received) fm1 out" using a1 by (auto simp: resolve_post_def)
      with h Inl False show ?thesis
        using ring_okD [OF ok] d by (auto simp: framer_resolve_def simp flip: received_def)
    next
      case (Inr rest)
      with post have rest: "unat rest = unat received - m" "rest \<noteq> 0"
        "framer_plausible ring (unat (fm_anchor fm1)) rest = Some True" by (auto simp: hunt_post_def)
      obtain fm' out where cand: "framer_candidate fm1 ring cursor rest now tpb = Some (fm', out)"
        "resolve_post ring (unat (fm_anchor fm1)) (unat rest) fm' out"
        using candidate_spec [OF ok a1' rest(2,3)] by blast
      then have "resolve_post ring ?a (unat received) fm' out"
        using resolve_post_shift [of ring ?a m "unat received" fm' out] a1 rest(1) by metis
      with h Inr False cand show ?thesis
        using ring_okD [OF ok] d by (auto simp: framer_resolve_def simp flip: received_def)
    qed
  qed
qed

subsection \<open>Streams of frames\<close>

definition wf_frame :: "bytes \<Rightarrow> bool" where
  "wf_frame fr \<longleftrightarrow> 6 \<le> length fr \<and> fr ! 0 = 0 \<and> length fr = 3 + unat (fr ! 2)"

abbreviation ringed :: "bytes \<Rightarrow> framer \<Rightarrow> u16 \<Rightarrow> nat" where
  "ringed ring fm cursor \<equiv> (unat cursor + length ring - unat (fm_anchor fm)) mod length ring"

text \<open>The frames one pass of the resolver hands out, as the drive loop of the composite takes them,
  with the resolver and its last answer.\<close>

fun framer_drain ::
  "nat \<Rightarrow> framer \<Rightarrow> bytes \<Rightarrow> u16 \<Rightarrow> u32 \<Rightarrow> u32 \<Rightarrow> (framer \<times> frame_span list \<times> framer_out) option" where
  "framer_drain 0 fm ring cursor now tpb = Some (fm, [], FoWait now)"
| "framer_drain (Suc n) fm ring cursor now tpb =
     do { (fm', out) \<leftarrow> framer_resolve fm ring cursor now tpb;
          case out of
            FoFrame s \<Rightarrow> do { (fm'', ss, last) \<leftarrow> framer_drain n fm' ring cursor now tpb;
                            Some (fm'', s # ss, last) }
          | _ \<Rightarrow> Some (fm', [], out) }"

lemma wf_frame_header: "wf_frame fr \<Longrightarrow> 3 \<le> fr ! 2"
  by (simp add: wf_frame_def word_le_nat_alt)

lemma hunt_stops_at:
  assumes ok: "ring_ok ring" and a: "unat (fm_anchor fm) < length ring" and m0: "m0 < n" "m0 \<le> unat received" "received \<noteq> 0"
    and noise: "\<forall>i<m0. ring ! ((unat (fm_anchor fm) + i) mod length ring) \<noteq> 0"
    and stop: "m0 = unat received \<or>
      framer_plausible ring ((unat (fm_anchor fm) + m0) mod length ring) (received - of_nat m0) = Some True"
  shows "\<exists>fm'. framer_hunt ring now n received fm =
      Some (fm', if m0 = unat received then Inl FoNone else Inr (received - of_nat m0)) \<and>
    unat (fm_anchor fm') = (unat (fm_anchor fm) + m0) mod length ring"
proof -
  let ?a = "unat (fm_anchor fm)"
  obtain fm' r m where h: "framer_hunt ring now n received fm = Some (fm', r)" "hunt_post ring now n received fm m fm' r"
    using hunt_spec [OF ok a m0(3)] by blast
  have at: "(?a + i) mod length ring < length ring" for i using ring_okD [OF ok] by simp
  have m: "unat (fm_anchor fm') = (?a + m) mod length ring" "m \<le> unat received"
    "\<forall>i<m. framer_plausible ring ((?a + i) mod length ring) (received - of_nat i) = Some False"
    using h(2) by (auto simp: hunt_post_def)
  have impl: "framer_plausible ring ((?a + i) mod length ring) rc = Some False" if "i < m0" for i rc
    using noise that by (simp add: plausible_view [OF ok at])
  have "m \<le> m0"
    using m stop by (metis not_le option.inject)
  have r: "case r of Inr rest \<Rightarrow> unat rest = unat received - m \<and> rest \<noteq> 0 \<and> framer_plausible ring ((?a + m) mod length ring) rest = Some True
      | Inl out \<Rightarrow> (out = FoNone \<and> m = unat received) \<or> (out = FoWait now \<and> m = n)"
    using h(2) m(1) by (auto simp: hunt_post_def split: sum.splits)
  have "m = m0"
  proof (rule ccontr)
    assume "m \<noteq> m0"
    with \<open>m \<le> m0\<close> have "m < m0" by simp
    then show False using r impl m0 by (auto split: sum.splits)
  qed
  moreover have "rest = received - of_nat m" if "r = Inr rest" for rest
  proof -
    have "unat received < 65536" using unsigned_less [of received, where ?'a = nat] by simp
    then have "unat (of_nat m :: u16) = m" using m(2) by (intro unat_of_nat16) simp
    then have "unat rest = unat (received - of_nat m)"
      using that r m(2) by (simp add: unat_sub word_le_nat_alt)
    then show ?thesis by (simp add: word_unat_eq_iff)
  qed
  ultimately show ?thesis
    using h r m0 m(1) stop by (cases r) (auto split: if_splits)
qed

lemma ringed_bound: "ring_ok ring \<Longrightarrow> ringed ring fm cursor < length ring"
  using ring_okD [of ring] by simp

lemma resolve_skips_to_frame:
  assumes ok: "ring_ok ring" and a: "unat (fm_anchor fm) < length ring" and c: "unat cursor < length ring"
    and w: "window ring (unat (fm_anchor fm)) (ringed ring fm cursor) = noise @ fr @ rest"
    and noise: "0 \<notin> set noise" "length noise < HUNT_BYTES_PER_WAKE" and fr: "wf_frame fr"
  shows "\<exists>fm' s. framer_resolve fm ring cursor now tpb = Some (fm', FoFrame s) \<and>
    unat (fs_anchor s) = (unat (fm_anchor fm) + length noise) mod length ring \<and> unat (fs_footprint s) = length fr \<and>
    unat (fm_anchor fm') < length ring \<and>
    window ring (unat (fm_anchor fm')) (ringed ring fm' cursor) = rest"
proof -
  let ?a = "unat (fm_anchor fm)" and ?m = "length noise" and ?d = "ringed ring fm cursor"
  define received where "received = framer_dist cursor (fm_anchor fm) (length ring)"
  have d: "unat received = ?d" using framer_dist_ok [OF ok a c] by (simp add: received_def)
  have len: "?d = ?m + length fr + length rest" using arg_cong [OF w, of length] by simp
  have byte: "ring ! ((?a + i) mod length ring) = (noise @ fr @ rest) ! i" if "i < ?d" for i
    using that by (simp add: nth_window flip: w)
  have fr6: "6 \<le> length fr" "fr \<noteq> []" "fr ! 0 = 0" using fr by (auto simp: wf_frame_def)
  have hdr: "ring ! ((?a + ?m) mod length ring) = 0" "ring ! ((?a + ?m + 2) mod length ring) = fr ! 2"
    using byte [of ?m] byte [of "?m + 2"] fr6 len by (simp_all add: nth_append add.assoc)
  have at: "(?a + ?m) mod length ring < length ring" using ring_okD [OF ok] by simp
  have "\<forall>i<?m. ring ! ((?a + i) mod length ring) \<noteq> 0"
    using byte noise(1) len by (auto simp: nth_append) (metis nth_mem)
  moreover have "framer_plausible ring ((?a + ?m) mod length ring) (received - of_nat ?m) = Some True"
    using hdr fr by (simp add: plausible_view [OF ok at] wf_frame_header mod_simps add.assoc)
  moreover have nz: "received \<noteq> 0" using d len fr6 by (auto simp: word_unat_eq_iff)
  ultimately obtain fm1 where h: "framer_hunt ring now HUNT_BYTES_PER_WAKE received fm = Some (fm1, Inr (received - of_nat ?m))"
      "unat (fm_anchor fm1) = (?a + ?m) mod length ring"
    using hunt_stops_at [OF ok a noise(2), of received] d len fr6 by auto
  define rr where "rr = received - of_nat ?m"
  have rr: "unat rr = length fr + length rest"
  proof -
    have "unat (of_nat ?m :: u16) = ?m" using noise(2) by (intro unat_of_nat16) (simp add: HUNT_BYTES_PER_WAKE_def)
    then show ?thesis using d len by (simp add: rr_def unat_sub word_le_nat_alt)
  qed
  obtain hh where hh: "ring_header ring (fm_anchor fm1) = Some hh" "hd_len hh = fr ! 2"
    using ring_header_view [OF ok, of "fm_anchor fm1"] at hdr h(2) by (simp add: mod_simps)
  define fp where "fp = (of_nat (header_frame_end hh) :: u16)"
  have "header_frame_end hh = length fr"
    using fr by (simp add: header_frame_end_def footprint_def hh wf_frame_def)
  then have fp: "unat fp = length fr" using footprint_u16 [of hh] by (simp add: fp_def)
  have "\<not> rr < 4" "fp \<le> rr" using rr fp fr6 by (simp_all add: word_less_nat_alt word_le_nat_alt)
  then have cand: "framer_candidate fm1 ring cursor rr now tpb =
      Some (fm1\<lparr> fm_anchor := of_nat (ring_wrap (unat (fm_anchor fm1) + unat fp) (length ring)), fm_frontier := frontier_idle \<rparr>,
            FoFrame \<lparr> fs_anchor = fm_anchor fm1, fs_footprint = fp, fs_packet_end = now \<rparr>)"
    using hh by (simp add: framer_candidate_def HEADER_SPAN_BYTES_def Let_def flip: fp_def)
  let ?fm = "fm1\<lparr> fm_anchor := of_nat (ring_wrap (unat (fm_anchor fm1) + unat fp) (length ring)), fm_frontier := frontier_idle \<rparr>"
  have a2: "unat (fm_anchor ?fm) = (?a + (?m + length fr)) mod length ring"
    using ok h(2) fp by (simp add: ring_wrap_ok u16_mod mod_simps add.assoc)
  have r2: "ringed ring ?fm cursor = ?d - (?m + length fr)"
    unfolding a2 by (rule dist_advance [OF a c]) (simp add: len)
  have win: "window ring ((?a + (?m + length fr)) mod length ring) (?d - (?m + length fr)) = rest"
    by (simp add: w flip: window_drop)
  have "window ring (unat (fm_anchor ?fm)) (ringed ring ?fm cursor) = rest"
    using win a2 r2 by metis
  moreover have "framer_resolve fm ring cursor now tpb =
      Some (?fm, FoFrame \<lparr> fs_anchor = fm_anchor fm1, fs_footprint = fp, fs_packet_end = now \<rparr>)"
    using h(1) nz cand ring_okD [OF ok] by (simp add: framer_resolve_def rr_def flip: received_def)
  moreover have "unat (fm_anchor ?fm) < length ring" unfolding a2 using ring_okD [OF ok] by simp
  ultimately show ?thesis using h(2) fp by (intro exI [of _ ?fm] exI) (auto simp del: unat_of_nat)
qed

lemma resolve_exhausts_noise:
  assumes ok: "ring_ok ring" and a: "unat (fm_anchor fm) < length ring" and c: "unat cursor < length ring"
    and w: "window ring (unat (fm_anchor fm)) (ringed ring fm cursor) = noise"
    and noise: "0 \<notin> set noise" "length noise < HUNT_BYTES_PER_WAKE"
  shows "\<exists>fm'. framer_resolve fm ring cursor now tpb = Some (fm', FoNone) \<and> framer_caught_up fm' cursor"
proof -
  let ?a = "unat (fm_anchor fm)" and ?d = "ringed ring fm cursor"
  define received where "received = framer_dist cursor (fm_anchor fm) (length ring)"
  have d: "unat received = ?d" "length noise = ?d"
    using framer_dist_ok [OF ok a c] w by (auto simp: received_def)
  have home: "(?a + ?d) mod length ring = unat cursor"
    using a c by (cases "?a \<le> unat cursor") (auto simp: mod_simps)
  show ?thesis
  proof (cases "received = 0")
    case True
    then have "framer_caught_up (fm\<lparr> fm_frontier := frontier_idle \<rparr>) cursor"
      using d a home by (simp add: word_unat_eq_iff framer_caught_up_def)
    moreover have "framer_resolve fm ring cursor now tpb = Some (fm\<lparr> fm_frontier := frontier_idle \<rparr>, FoNone)"
      using True ring_okD [OF ok] by (simp add: framer_resolve_def flip: received_def)
    ultimately show ?thesis by blast
  next
    case False
    have "\<forall>i<?d. ring ! ((?a + i) mod length ring) \<noteq> 0"
      using noise(1) d(2) w nth_window [of _ ?d ring ?a] by (metis nth_mem)
    then obtain fm1 where "framer_hunt ring now HUNT_BYTES_PER_WAKE received fm = Some (fm1, Inl FoNone)"
        "unat (fm_anchor fm1) = (?a + ?d) mod length ring"
      using hunt_stops_at [OF ok a, of ?d HUNT_BYTES_PER_WAKE received] noise(2) d False by auto
    then show ?thesis
      using False ring_okD [OF ok] home
      by (auto simp: framer_resolve_def framer_caught_up_def word_unat_eq_iff simp flip: received_def)
  qed
qed

text \<open>
  C38. The resolver recovers the stream of frames. Whatever the resolver did before, when the
  unread ring bytes are some noise without a zero byte (fewer than the hunt budget), followed by
  whole frames back to back, wherever they lie across the ring seam, one pass of the drive loop
  hands out exactly these frames, in order and with exactly their bytes, and ends with nothing
  unread. No clock value has any influence on it.
\<close>

theorem framer_recovers_stream:
  assumes ok: "ring_ok ring" and a: "unat (fm_anchor fm) < length ring" and c: "unat cursor < length ring"
    and w: "window ring (unat (fm_anchor fm)) (ringed ring fm cursor) = noise @ concat frames"
    and noise: "0 \<notin> set noise" "length noise < HUNT_BYTES_PER_WAKE"
    and frames: "list_all wf_frame frames" "length frames < n"
  shows "\<exists>fm' ss. framer_drain n fm ring cursor now tpb = Some (fm', ss, FoNone) \<and>
    map (\<lambda>s. map_option fb_bytes (frame_view ring (fs_anchor s) (fs_footprint s))) ss = map Some frames \<and>
    framer_caught_up fm' cursor"
  using a w noise frames
proof (induction frames arbitrary: n fm noise)
  case Nil
  then obtain k where k: "n = Suc k" by (cases n) auto
  obtain fm' where "framer_resolve fm ring cursor now tpb = Some (fm', FoNone)" "framer_caught_up fm' cursor"
    using resolve_exhausts_noise [OF ok Nil(1) c, of noise now tpb] Nil by auto
  with k show ?case by simp
next
  case (Cons fr frames)
  then obtain k where k: "n = Suc k" "length frames < k" by (cases n) auto
  obtain fm' s where r: "framer_resolve fm ring cursor now tpb = Some (fm', FoFrame s)"
    "unat (fs_anchor s) = (unat (fm_anchor fm) + length noise) mod length ring" "unat (fs_footprint s) = length fr"
    "unat (fm_anchor fm') < length ring"
    "window ring (unat (fm_anchor fm')) (ringed ring fm' cursor) = concat frames"
    using resolve_skips_to_frame [OF ok Cons.prems(1) c, of noise fr "concat frames" now tpb] Cons.prems by auto
  obtain fm'' ss where IH: "framer_drain k fm' ring cursor now tpb = Some (fm'', ss, FoNone)"
    "map (\<lambda>s. map_option fb_bytes (frame_view ring (fs_anchor s) (fs_footprint s))) ss = map Some frames"
    "framer_caught_up fm'' cursor"
    using Cons.IH [OF r(4), of "[]" k] r(5) k Cons.prems by (auto simp: HUNT_BYTES_PER_WAKE_def)
  have len: "ringed ring fm cursor = length noise + length fr + length (concat frames)"
    using arg_cong [OF Cons.prems(2), of length] by simp
  then have fl: "length fr \<le> length ring" using ringed_bound [OF ok, of cursor fm] by linarith
  have "window ring (unat (fs_anchor s)) (length fr) = take (length fr) (drop (length noise) (noise @ concat (fr # frames)))"
    unfolding Cons.prems(2) [symmetric] window_drop r(2) using len by (simp add: window_take)
  then have "map_option fb_bytes (frame_view ring (fs_anchor s) (fs_footprint s)) = Some fr"
    using frame_view_window [of "fs_anchor s" ring "fs_footprint s"] r(2,3) fl ring_okD [OF ok] by auto
  with r IH k show ?case by auto
qed

lemma demo_ring:
  defines "ring \<equiv> [3, 0x10, 0xAA, 0xBB] @ replicate 505 7 @ [9, 0, 5 :: u8]"
  shows "ring_ok ring" "length ring = 512"
    "window ring 509 ((4 + 512 - 509) mod 512) = [9] @ concat [[0, 5, 3, 0x10, 0xAA, 0xBB]]"
proof -
  have "(2::nat) ^ 9 = 512" by simp
  then show "ring_ok ring" "length ring = 512"
    by (auto simp: ring_ok_def FRAME_MAX_def footprint_def ring_def intro!: exI [of _ 9])
  have "[0..<7] = [0, 1, 2, 3, 4, 5, 6 :: nat]" by (simp add: upt_rec)
  then show "window ring 509 ((4 + 512 - 509) mod 512) = [9] @ concat [[0, 5, 3, 0x10, 0xAA, 0xBB]]"
    using \<open>length ring = 512\<close> by (simp add: window_def) (simp add: ring_def nth_append)
qed

theorem framer_recovers_stream_witness:
  "\<exists>fm' ss. framer_drain 16 (framer_new\<lparr> fm_anchor := 509 \<rparr>)
      ([3, 0x10, 0xAA, 0xBB] @ replicate 505 7 @ [9, 0, 5]) 4 1000 480 = Some (fm', ss, FoNone) \<and>
    map (\<lambda>s. map_option fb_bytes (frame_view ([3, 0x10, 0xAA, 0xBB] @ replicate 505 7 @ [9, 0, 5])
      (fs_anchor s) (fs_footprint s))) ss = map Some [[0, 5, 3, 0x10, 0xAA, 0xBB]] \<and>
    framer_caught_up fm' 4"
  using demo_ring
  by (intro framer_recovers_stream [where noise = "[9]"])
    (simp_all add: framer_new_def HUNT_BYTES_PER_WAKE_def wf_frame_def del: concat.simps)

subsection \<open>Partial frames\<close>

lemma tick_reached_iff:
  assumes "unat (b - p) \<le> unat (a - p)" "unat (a - p) - unat (b - p) < 2 ^ 31 - 1"
  shows "tick_reached a b"
proof -
  have "a - b = (a - p) - (b - p)" by simp
  then have "unat (a - b) = unat (a - p) - unat (b - p)"
    using assms(1) by (metis unat_sub word_le_nat_alt)
  then show ?thesis using assms(2) by (simp add: tick_reached_def word_less_nat_alt)
qed

definition candidate_incomplete :: "bytes \<Rightarrow> framer \<Rightarrow> u16 \<Rightarrow> bool" where
  "candidate_incomplete ring fm received \<longleftrightarrow>
     (received < 4 \<or>
      (let fp = 3 + unat (ring ! ((unat (fm_anchor fm) + 2) mod length ring))
       in unat received < fp \<and> (fr_covered (fm_frontier fm) \<or> unat received + 2 < fp)))"

lemma candidate_waits:
  assumes ok: "ring_ok ring" and a: "unat (fm_anchor fm) < length ring" and inc: "candidate_incomplete ring fm received"
  shows "\<exists>aim. framer_candidate fm ring cursor received now tpb = Some (framer_wait fm aim now tpb cursor (length ring))"
proof (cases "received < 4")
  case True
  then show ?thesis by (auto simp: framer_candidate_def HEADER_SPAN_BYTES_def Let_def)
next
  case False
  let ?a = "unat (fm_anchor fm)"
  obtain h where h: "ring_header ring (fm_anchor fm) = Some h" "hd_len h = ring ! ((?a + 2) mod length ring)"
    using ring_header_view [OF ok a] by auto
  define fp where "fp = (of_nat (header_frame_end h) :: u16)"
  have "header_frame_end h = 3 + unat (ring ! ((?a + 2) mod length ring))"
    by (simp add: header_frame_end_def footprint_def h)
  then have fp: "unat fp = 3 + unat (ring ! ((?a + 2) mod length ring))"
    using footprint_u16 [of h] by (simp add: fp_def)
  then have lt: "\<not> fp \<le> received" using inc False by (auto simp: candidate_incomplete_def Let_def word_le_nat_alt)
  then have "unat (ucast (fp - received) :: u32) = unat fp - unat received"
    by (simp add: unat_ucast_u32 unat_sub)
  then have "\<not> (\<not> fr_covered (fm_frontier fm) \<and> (ucast (fp - received) :: u32) \<le> COVERED_TAIL_BYTES)"
    using inc False fp by (auto simp: candidate_incomplete_def Let_def word_le_nat_alt COVERED_TAIL_BYTES_def)
  then show ?thesis
    using False h lt by (auto simp: framer_candidate_def HEADER_SPAN_BYTES_def Let_def simp flip: fp_def)
qed

text \<open>
  A dead transmitter costs one byte and one count. When the frame at the anchor is incomplete
  (its header or its body, past the point where its covered checkpoint could still be reported) and
  the ring has made no progress since the tick \<open>fr_progress_tick\<close>, then once the 64-byte-time
  horizon has passed the next resolution sacrifices exactly one byte, starts a recovery episode,
  counts the drop unless an episode was already running, and asks to be resumed at once.
\<close>

theorem stalled_frontier_given_up:
  assumes ok: "ring_ok ring" and a: "unat (fm_anchor fm) < length ring" and c: "unat cursor < length ring"
    and r: "received = framer_dist cursor (fm_anchor fm) (length ring)" "received \<noteq> 0"
    and p: "framer_plausible ring (unat (fm_anchor fm)) received = Some True"
    and inc: "candidate_incomplete ring fm received"
    and stalled: "fr_observed (fm_frontier fm)" "fr_seen (fm_frontier fm) = cursor"
    and late: "unat (64 * tpb) \<le> unat (now - fr_progress_tick (fm_frontier fm))"
      "unat (now - fr_progress_tick (fm_frontier fm)) < unat (64 * tpb) + (2 ^ 31 - 1)"
  shows "\<exists>fm'. framer_resolve fm ring cursor now tpb = Some (fm', FoWait now) \<and>
    unat (fm_anchor fm') = (unat (fm_anchor fm) + 1) mod length ring \<and> fm_hunting fm' \<and>
    fm_drops fm' = (if fm_hunting fm then fm_drops fm else fm_drops fm + 1) \<and>
    fm_frontier fm' = frontier_idle"
proof -
  have h: "framer_hunt ring now HUNT_BYTES_PER_WAKE received fm = Some (fm, Inr received)"
    using p by (simp add: HUNT_BYTES_PER_WAKE_def numeral_eq_Suc)
  obtain aim where aim: "framer_candidate fm ring cursor received now tpb =
      Some (framer_wait fm aim now tpb cursor (length ring))"
    using candidate_waits [OF ok a inc] by blast
  have adv: "fm\<lparr> fm_frontier := frontier_advance (fm_frontier fm) cursor now \<rparr> = fm"
    using stalled by (simp add: frontier_advance_def)
  have "tick_reached now (fr_progress_tick (fm_frontier fm) + STARVE_GIVEUP_BYTES * tpb)"
    using late by (intro tick_reached_iff [of _ "fr_progress_tick (fm_frontier fm)"])
      (auto simp: STARVE_GIVEUP_BYTES_def STARVE_HORIZON_BYTE_TIMES_def)
  then have w: "framer_wait fm aim now tpb cursor (length ring) = framer_give_up fm (length ring) now"
    using stalled by (simp add: framer_wait_def Let_def adv)
  have "framer_resolve fm ring cursor now tpb = Some (framer_give_up fm (length ring) now)"
    using h aim w r ring_okD [OF ok] by (simp add: framer_resolve_def Let_def)
  moreover have "snd (framer_give_up fm (length ring) now) = FoWait now" by (simp add: framer_give_up_def Let_def)
  ultimately show ?thesis
    using give_up_anchor [OF ok, of fm now]
    by (intro exI [of _ "fst (framer_give_up fm (length ring) now)"])
      (auto simp: prod_eq_iff, auto simp: framer_give_up_def Let_def)
qed

theorem stalled_frontier_given_up_witness:
  "\<exists>fm'. framer_resolve \<lparr> fm_anchor = 510, fm_hunting = False,
       fm_frontier = \<lparr> fr_covered = False, fr_observed = True, fr_seen = 1, fr_progress_tick = 1000 \<rparr>,
       fm_fault_seen = 0, fm_drops = 6 \<rparr>
      ([3, 0x10, 0xAA, 0xBB] @ replicate 505 7 @ [9, 0, 5]) 1 40000 480 = Some (fm', FoWait 40000) \<and>
    unat (fm_anchor fm') = 511 \<and> fm_hunting fm' \<and> fm_drops fm' = 7 \<and> fm_frontier fm' = frontier_idle"
proof -
  let ?ring = "[3, 0x10, 0xAA, 0xBB] @ replicate 505 7 @ [9, 0, 5] :: bytes"
  let ?fm = "\<lparr> fm_anchor = 510, fm_hunting = False,
       fm_frontier = \<lparr> fr_covered = False, fr_observed = True, fr_seen = 1, fr_progress_tick = 1000 \<rparr>,
       fm_fault_seen = 0, fm_drops = 6 \<rparr>"
  have r: "framer_dist 1 510 512 = 3" by (simp add: framer_dist_def ring_wrap_mod [of 512] exI [of _ 9])
  have "framer_plausible ?ring 510 3 = Some True"
    by (subst plausible_view [OF demo_ring(1)]) (simp_all add: nth_append)
  then show ?thesis
    using stalled_frontier_given_up [OF demo_ring(1), of ?fm 1 3 480 40000] demo_ring(2) r
    by (simp add: candidate_incomplete_def)
qed

end
