(* ===== verification/Bus_Tx.thy ===== *)
theory Bus_Tx
  imports Osc_Reply Bus_Framer
begin

text \<open>
  \<open>drivers/src/bus/tx.rs\<close>: the status-reply transmit engine. A reply is staged as a list of DMA arms
  and CRC feeds over the frame buffer and the CRC engine's snapshot; the trigger starts the wire
  before the checksum is known, and the value is patched into the last arm at the boundary before
  it. The CRC engine is a parameter (\<open>CrcEngine\<close> of \<open>traits/bus.rs\<close>, a peripheral on the chip): its
  operations are the record \<open>crc_ops\<close>, its documented behaviour the locale \<open>crc_engine\<close>, which the
  simulator's engine (\<open>integration/src/sim/providers.rs\<close>) implements. The wire is the log of the
  \<open>TxWire\<close> calls. \<open>None\<close> is the panic of a slice index.
\<close>

subsection \<open>The CRC engine\<close>

record 'c crc_ops =
  ce_reset :: "'c \<Rightarrow> 'c"
  ce_feed :: "'c \<Rightarrow> bytes \<Rightarrow> 'c"
  ce_snapshot :: "'c \<Rightarrow> u16 \<Rightarrow> bytes \<Rightarrow> 'c \<times> nat"
  ce_result :: "'c \<Rightarrow> 'c \<times> u16 option"
  ce_read :: "'c \<Rightarrow> nat \<Rightarrow> nat \<Rightarrow> bytes"

text \<open>\<open>ce_read c p n\<close> is what the \<open>n\<close> bytes at the snapshot address \<open>p\<close> hold.\<close>

locale crc_engine =
  fixes C :: "'c crc_ops" and acc :: "'c \<Rightarrow> u16" and base :: nat
  assumes reset_law: "acc (ce_reset C c) = 0" "ce_read C (ce_reset C c) p n = ce_read C c p n"
    and feed_law: "even (length s) \<Longrightarrow> acc (ce_feed C c s) = osc_crc_continue (acc c) s"
      "ce_read C (ce_feed C c s) p n = ce_read C c p n"
    and result_law: "snd (ce_result C c) = Some v \<Longrightarrow> v = acc c"
      "acc (fst (ce_result C c)) = acc c" "ce_read C (fst (ce_result C c)) p n = ce_read C c p n"
    and snapshot_law: "snd (ce_snapshot C c off s) = base + unat off"
      "ce_read C (fst (ce_snapshot C c off s)) (base + unat off) (length s) = s"
      "m \<le> unat off \<Longrightarrow> ce_read C (fst (ce_snapshot C c off s)) base m = ce_read C c base m"
    and read_split: "ce_read C c p (m + n) = ce_read C c p m @ ce_read C c (p + m) n"
    and read_len: "length (ce_read C c p n) = n"
    and snapshot_acc: "acc (fst (ce_snapshot C c off s)) = acc c"

locale prompt_crc_engine = crc_engine +
  assumes prompt: "snd (ce_result C c) \<noteq> None"

text \<open>The simulator's software engine: the accumulator and the snapshot vector, which grows on
  demand. Its answer is immediate.\<close>

record sim_crc =
  simc_state :: u16
  simc_snap :: bytes

definition sim_crc_new :: sim_crc where
  "sim_crc_new = \<lparr> simc_state = 0, simc_snap = [] \<rparr>"

definition sim_crc_reset :: "sim_crc \<Rightarrow> sim_crc" where
  "sim_crc_reset c = c\<lparr> simc_state := 0 \<rparr>"

definition sim_crc_feed :: "sim_crc \<Rightarrow> bytes \<Rightarrow> sim_crc" where
  "sim_crc_feed c span = c\<lparr> simc_state := osc_crc_continue (simc_state c) span \<rparr>"

definition sim_crc_snapshot :: "sim_crc \<Rightarrow> u16 \<Rightarrow> bytes \<Rightarrow> sim_crc \<times> nat" where
  "sim_crc_snapshot c off src =
     (let n = unat off + length src;
          snap = (if length (simc_snap c) < n then simc_snap c @ replicate (n - length (simc_snap c)) 0
                  else simc_snap c)
      in (c\<lparr> simc_snap := put (unat off) src snap \<rparr>, unat off))"

definition sim_crc_result :: "sim_crc \<Rightarrow> sim_crc \<times> u16 option" where
  "sim_crc_result c = (c, Some (simc_state c))"

definition sim_crc_read :: "sim_crc \<Rightarrow> nat \<Rightarrow> nat \<Rightarrow> bytes" where
  "sim_crc_read c p n = map (\<lambda>i. if i < length (simc_snap c) then simc_snap c ! i else 0) [p..<p + n]"

definition sim_crc_ops :: "sim_crc crc_ops" where
  "sim_crc_ops = \<lparr> ce_reset = sim_crc_reset, ce_feed = sim_crc_feed, ce_snapshot = sim_crc_snapshot,
     ce_result = sim_crc_result, ce_read = sim_crc_read \<rparr>"

lemma nth_put_inside: "off \<le> length xs \<Longrightarrow> i < length s \<Longrightarrow> put off s xs ! (off + i) = s ! i"
  by (simp add: put_def nth_append)

lemma sim_crc_read_put:
  assumes "off + length s \<le> length xs"
  shows "sim_crc_read (c\<lparr> simc_snap := put off s xs \<rparr>) off (length s) = s"
  using assms by (intro nth_equalityI) (auto simp: sim_crc_read_def nth_put_inside)

interpretation sim: prompt_crc_engine sim_crc_ops simc_state 0
proof (unfold_locales, goal_cases)
  case (9 c off s)
  then show ?case
    by (simp add: sim_crc_ops_def sim_crc_snapshot_def sim_crc_read_put Let_def)
next
  case (10 m off c s)
  then show ?case
    by (auto simp: sim_crc_ops_def sim_crc_snapshot_def sim_crc_read_def put_def nth_append Let_def)
next
  case (11 c p m n)
  have "[p..<p + (m + n)] = [p..<p + m] @ [p + m..<p + m + n]"
    unfolding add.assoc [symmetric] by (rule upt_add_eq_append) simp
  then show ?case by (simp add: sim_crc_ops_def sim_crc_read_def)
qed (auto simp: sim_crc_ops_def sim_crc_reset_def sim_crc_feed_def sim_crc_result_def sim_crc_snapshot_def
    sim_crc_read_def Let_def)

subsection \<open>State\<close>

definition REPLY_BUF :: nat where [osc_const]: "REPLY_BUF = 16"
definition SMALL_COPY_MAX :: nat where [osc_const]: "SMALL_COPY_MAX = 2"
definition SPIN_PER_BYTE :: nat where [osc_const]: "SPIN_PER_BYTE = 64"

datatype send_error = SendBusy | SendOverflow

datatype tx_out = TxArmed | TxReleased

datatype arm = ArmBuf u16 u16 | ArmExt nat u16

definition NO_ARM :: arm where "NO_ARM = ArmBuf 0 0"

datatype tail_ref = TailBuf nat | TailExt nat

datatype tx_state = TxIdle | TxStaged "u8 option" | TxStreaming u8

datatype wire_event = WStart | WSend bytes | WRelease

record tx_engine =
  tx_wire :: "wire_event list"
  tx_buf :: frame_buf
  tx_arms :: "arm list"
  tx_n_arms :: u8
  tx_feeds :: "arm list"
  tx_n_feeds :: u8
  tx_crc_off :: u16
  tx_state :: tx_state
  tx_result :: result_code
  tx_tail :: "tail_ref option"
  tx_alert :: bool
  tx_crc_misses :: u32

definition tx_new :: tx_engine where
  "tx_new = \<lparr> tx_wire = [], tx_buf = \<lparr> fbuf_bytes = replicate REPLY_BUF 0 \<rparr>,
     tx_arms = replicate 4 NO_ARM, tx_n_arms = 0, tx_feeds = replicate 3 NO_ARM, tx_n_feeds = 0,
     tx_crc_off = 0, tx_state = TxIdle, tx_result = RcOk, tx_tail = None, tx_alert = False,
     tx_crc_misses = 0 \<rparr>"

definition tx_busy :: "tx_engine \<Rightarrow> bool" where
  "tx_busy t = (tx_state t \<noteq> TxIdle)"

definition tx_staged :: "tx_engine \<Rightarrow> bool" where
  "tx_staged t = (case tx_state t of TxStaged _ \<Rightarrow> True | _ \<Rightarrow> False)"

definition tx_slot_key :: "tx_engine \<Rightarrow> u8 option" where
  "tx_slot_key t = (case tx_state t of TxStaged k \<Rightarrow> k | _ \<Rightarrow> None)"

definition tx_collision_tolerant :: "tx_engine \<Rightarrow> bool" where
  "tx_collision_tolerant t = (tx_slot_key t \<noteq> None)"

definition tx_mark_collision_tolerant :: "tx_engine \<Rightarrow> u8 \<Rightarrow> tx_engine" where
  "tx_mark_collision_tolerant t key =
     (case tx_state t of TxStaged _ \<Rightarrow> t\<lparr> tx_state := TxStaged (Some key) \<rparr> | _ \<Rightarrow> t)"

definition tx_streaming :: "tx_engine \<Rightarrow> bool" where
  "tx_streaming t = (case tx_state t of TxStreaming _ \<Rightarrow> True | _ \<Rightarrow> False)"

subsection \<open>Staging\<close>

fun copy_spans :: "bytes list \<Rightarrow> nat \<Rightarrow> bytes \<Rightarrow> bytes option" where
  "copy_spans [] at pay = Some pay"
| "copy_spans (s # ss) at pay =
     (if at + length s \<le> length pay then copy_spans ss (at + length s) (put at s pay) else None)"

fun snapshot_spans :: "'c crc_ops \<Rightarrow> bytes list \<Rightarrow> u16 \<Rightarrow> nat \<Rightarrow> 'c \<Rightarrow> 'c \<times> nat" where
  "snapshot_spans C [] off ptr c = (c, ptr)"
| "snapshot_spans C (s # ss) off ptr c =
     (if s = [] then snapshot_spans C ss off ptr c
      else let (c', dst) = ce_snapshot C c off s
           in snapshot_spans C ss (off + of_nat (length s)) (if off = 0 then dst else ptr) c')"

definition stage_small :: "tx_engine \<Rightarrow> u8 \<Rightarrow> inst \<Rightarrow> u8 \<Rightarrow> bytes list \<Rightarrow> tx_engine option" where
  "stage_small t i n p spans =
     do { let fb = frame_buf_start (tx_buf t) i n;
          pay \<leftarrow> frame_buf_payload_mut fb;
          pay' \<leftarrow> copy_spans spans 0 pay;
          fb' \<leftarrow> frame_buf_finish (frame_buf_with_payload fb pay') p;
          let cov = covered_len (len_for p);
          let bulk = (of_nat cov :: u16) AND NOT 1;
          Some (t\<lparr> tx_buf := fb',
             tx_arms := (tx_arms t)[0 := ArmBuf 1 (of_nat (cov - 1)), 1 := ArmBuf (of_nat cov) 2],
             tx_n_arms := 2,
             tx_feeds := (tx_feeds t)[0 := ArmBuf 0 bulk], tx_n_feeds := 1,
             tx_tail := (if odd cov then Some (TailBuf (cov - 1)) else None),
             tx_crc_off := of_nat cov \<rparr>) }"

definition stage_large :: "'c crc_ops \<Rightarrow> tx_engine \<Rightarrow> 'c \<Rightarrow> u8 \<Rightarrow> inst \<Rightarrow> u8 \<Rightarrow> bytes list \<Rightarrow> tx_engine \<times> 'c" where
  "stage_large C t c i n p spans =
     (let b = (fbuf_bytes (tx_buf t))[0 := ALIGN_BYTE, 1 := i, 2 := len_for p, 3 := n];
          (c', ptr) = snapshot_spans C spans 0 0 c
      in (t\<lparr> tx_buf := (tx_buf t)\<lparr> fbuf_bytes := b \<rparr>,
             tx_arms := (tx_arms t)[0 := ArmBuf 1 3, 1 := ArmExt ptr (ucast p), 2 := ArmBuf 4 2],
             tx_n_arms := 3,
             tx_feeds := (tx_feeds t)[0 := ArmBuf 0 4, 1 := ArmExt ptr (ucast (p AND NOT 1))],
             tx_n_feeds := 2,
             tx_tail := (if odd p then Some (TailExt (ptr + unat p - 1)) else None),
             tx_crc_off := 4 \<rparr>, c'))"

definition tx_stage_gather ::
  "'c crc_ops \<Rightarrow> tx_engine \<Rightarrow> 'c \<Rightarrow> u8 \<Rightarrow> result_code \<Rightarrow> bool \<Rightarrow> bytes list \<Rightarrow>
     (tx_engine \<times> 'c \<times> (send_error + unit)) option" where
  "tx_stage_gather C t c i result alert spans =
     (if tx_busy t then Some (t, c, Inl SendBusy)
      else let n_total = sum_list (map length spans)
           in if n_total > unat MAX_PAYLOAD then Some (t, c, Inl SendOverflow)
              else let p = of_nat n_total; inst = inst_status result alert
                   in do { (t1, c1) \<leftarrow>
                             (if n_total \<le> SMALL_COPY_MAX
                              then map_option (\<lambda>t1. (t1, c)) (stage_small t i inst p spans)
                              else Some (stage_large C t c i inst p spans));
                           let off = unat (tx_crc_off t1);
                           if off + 2 \<le> length (fbuf_bytes (tx_buf t1))
                           then Some (t1\<lparr> tx_buf := (tx_buf t1)\<lparr> fbuf_bytes := put off [0, 0] (fbuf_bytes (tx_buf t1)) \<rparr>,
                                          tx_result := result, tx_alert := alert,
                                          tx_state := TxStaged None \<rparr>, c1, Inr ())
                           else None })"

definition tx_stage ::
  "'c crc_ops \<Rightarrow> tx_engine \<Rightarrow> 'c \<Rightarrow> u8 \<Rightarrow> result_code \<Rightarrow> bool \<Rightarrow> bytes \<Rightarrow>
     (tx_engine \<times> 'c \<times> (send_error + unit)) option" where
  "tx_stage C t c i result alert data = tx_stage_gather C t c i result alert [data]"

subsection \<open>Streaming\<close>

definition tx_resolve :: "'c crc_ops \<Rightarrow> 'c \<Rightarrow> frame_buf \<Rightarrow> arm \<Rightarrow> bytes option" where
  "tx_resolve C c buf a =
     (case a of
        ArmBuf off len \<Rightarrow> slice_opt (fbuf_bytes buf) (unat off) (unat off + unat len)
      | ArmExt ptr len \<Rightarrow> Some (ce_read C c ptr (unat len)))"

definition tx_trigger :: "'c crc_ops \<Rightarrow> tx_engine \<Rightarrow> 'c \<Rightarrow> result_code option \<Rightarrow> (tx_engine \<times> 'c) option" where
  "tx_trigger C t c over =
     (if \<not> tx_staged t then Some (t, c)
      else do {
        let buf = (tx_buf t)\<lparr> fbuf_bytes := (fbuf_bytes (tx_buf t))
                     [3 := inst_status (case over of Some r \<Rightarrow> r | None \<Rightarrow> tx_result t) (tx_alert t)] \<rparr>;
        let c1 = ce_reset C c;
        arm \<leftarrow> nth_opt (tx_arms t) 0;
        x \<leftarrow> tx_resolve C c1 buf arm;
        fd \<leftarrow> nth_opt (tx_feeds t) 0;
        y \<leftarrow> tx_resolve C c1 buf fd;
        Some (t\<lparr> tx_buf := buf, tx_wire := tx_wire t @ [WStart, WSend x], tx_state := TxStreaming 1 \<rparr>,
              ce_feed C c1 y) })"

fun crc_poll :: "'c crc_ops \<Rightarrow> nat \<Rightarrow> 'c \<Rightarrow> 'c \<times> u16 option" where
  "crc_poll C 0 c = ce_result C c"
| "crc_poll C (Suc budget) c =
     (case ce_result C c of (c', Some v) \<Rightarrow> (c', Some v) | (c', None) \<Rightarrow> crc_poll C budget c')"

definition tx_patch_crc :: "'c crc_ops \<Rightarrow> tx_engine \<Rightarrow> 'c \<Rightarrow> (tx_engine \<times> 'c) option" where
  "tx_patch_crc C t c =
     (case crc_poll C SPIN_PER_BYTE c of
        (c', Some v) \<Rightarrow>
          do { v' \<leftarrow> (case tx_tail t of
                        None \<Rightarrow> Some v
                      | Some (TailBuf i) \<Rightarrow> map_option (\<lambda>b. osc_crc_continue v [b]) (nth_opt (fbuf_bytes (tx_buf t)) i)
                      | Some (TailExt p) \<Rightarrow> Some (osc_crc_continue v (ce_read C c' p 1)));
               let off = unat (tx_crc_off t);
               if off + 2 \<le> length (fbuf_bytes (tx_buf t))
               then Some (t\<lparr> tx_buf := (tx_buf t)\<lparr> fbuf_bytes := put off (le16_bytes v') (fbuf_bytes (tx_buf t)) \<rparr> \<rparr>, c')
               else None }
      | (c', None) \<Rightarrow> Some (t\<lparr> tx_crc_misses := tx_crc_misses t + 1 \<rparr>, c'))"

definition tx_on_arm_complete :: "'c crc_ops \<Rightarrow> tx_engine \<Rightarrow> 'c \<Rightarrow> (tx_engine \<times> 'c \<times> tx_out) option" where
  "tx_on_arm_complete C t c =
     (case tx_state t of
        TxStreaming nxt \<Rightarrow>
          (if nxt < tx_n_arms t
           then do {
             (t1, c1) \<leftarrow>
               (if nxt < tx_n_feeds t
                then do { fd \<leftarrow> nth_opt (tx_feeds t) (unat nxt);
                          y \<leftarrow> tx_resolve C c (tx_buf t) fd;
                          Some (t, ce_feed C c y) }
                else tx_patch_crc C t c);
             arm \<leftarrow> nth_opt (tx_arms t1) (unat nxt);
             x \<leftarrow> tx_resolve C c1 (tx_buf t1) arm;
             Some (t1\<lparr> tx_wire := tx_wire t1 @ [WSend x], tx_state := TxStreaming (nxt + 1) \<rparr>, c1, TxArmed) }
           else Some (t\<lparr> tx_wire := tx_wire t @ [WRelease], tx_state := TxIdle \<rparr>, c, TxReleased))
      | _ \<Rightarrow> Some (t, c, TxReleased))"

definition tx_abort :: "tx_engine \<Rightarrow> tx_engine" where
  "tx_abort t = (if tx_busy t then t\<lparr> tx_wire := tx_wire t @ [WRelease], tx_state := TxIdle \<rparr> else t)"

subsection \<open>What a staged reply puts on the wire\<close>

fun tx_drain :: "nat \<Rightarrow> 'c crc_ops \<Rightarrow> tx_engine \<Rightarrow> 'c \<Rightarrow> (tx_engine \<times> 'c) option" where
  "tx_drain 0 C t c = None"
| "tx_drain (Suc n) C t c =
     do { (t', c', out) \<leftarrow> tx_on_arm_complete C t c;
          (case out of TxReleased \<Rightarrow> Some (t', c') | TxArmed \<Rightarrow> tx_drain n C t' c') }"

definition tx_ok :: "tx_engine \<Rightarrow> bool" where
  "tx_ok t \<longleftrightarrow> length (fbuf_bytes (tx_buf t)) = REPLY_BUF \<and> length (tx_arms t) = 4 \<and> length (tx_feeds t) = 3"

lemma tx_ok_new: "tx_ok tx_new"
  by (simp add: tx_ok_def tx_new_def REPLY_BUF_def)

lemma copy_spans_concat:
  "at + sum_list (map length spans) \<le> length pay \<Longrightarrow>
   copy_spans spans at pay = Some (put at (concat spans) pay)"
proof (induction spans arbitrary: at pay)
  case (Cons s spans)
  then show ?case by (simp add: put_put length_concat)
qed simp

context crc_engine
begin

lemma snapshot_spans_read:
  assumes "unat off + sum_list (map length spans) < 65536" "off \<noteq> 0 \<longrightarrow> ptr = base"
    "off = 0 \<longrightarrow> concat spans \<noteq> []"
  shows "snd (snapshot_spans C spans off ptr c) = base \<and>
    ce_read C (fst (snapshot_spans C spans off ptr c)) base (unat off + length (concat spans)) =
      ce_read C c base (unat off) @ concat spans"
  using assms
proof (induction spans arbitrary: off ptr c)
  case Nil
  then show ?case by simp
next
  case (Cons s spans)
  show ?case
  proof (cases "s = []")
    case True
    then show ?thesis using Cons by simp
  next
    case False
    obtain c1 where c1: "ce_snapshot C c off s = (c1, base + unat off)"
      using snapshot_law(1) by (metis prod.collapse)
    have off: "unat (off + of_nat (length s)) = unat off + length s"
      using Cons.prems(1) by (simp add: unat_word_ariths unat_of_nat)
    have nz: "off + of_nat (length s) \<noteq> 0" using off False by (auto simp: word_unat_eq_iff)
    have read: "ce_read C c1 base (unat off + length s) = ce_read C c base (unat off) @ s"
      using snapshot_law(2) [of c off s] snapshot_law(3) [of "unat off" off c s] c1 by (simp add: read_split)
    have "(if off = 0 then base + unat off else ptr) = base" using Cons.prems(2) by auto
    then show ?thesis
      using Cons.IH [of "off + of_nat (length s)" "if off = 0 then base + unat off else ptr" c1] Cons.prems(1) False c1 nz off read
      by (simp add: add.assoc)
  qed
qed

end

lemma clear_bit0: "even (p AND NOT 1)" "p = (p AND NOT 1) + (p AND 1)" for p :: u8
proof -
  show "even (p AND NOT 1)" by (simp add: even_and_iff even_not_iff)
  have "(p AND NOT 1) + (p AND 1) = (p AND NOT 1) OR (p AND 1)"
    by (rule disjunctive_add) (auto simp: bit_simps)
  also have "\<dots> = p" by (rule bit_word_eqI) (auto simp: bit_simps)
  finally show "p = (p AND NOT 1) + (p AND 1)" by simp
qed

lemma even_unat8: "even (unat (w :: u8)) = even w"
  using bit_unsigned_iff [of w 0, where ?'a = nat] by (simp add: bit_0)

lemma unat_clear_bit0:
  fixes p :: u8
  shows "even (unat (p AND NOT 1))" "unat p = unat (p AND NOT 1) + (if odd p then 1 else 0)"
proof -
  let ?q = "p AND NOT 1"
  show ev: "even (unat ?q)" using clear_bit0(1) [of p] by (simp only: even_unat8)
  show "unat p = unat ?q + (if odd p then 1 else 0)"
  proof (cases "odd p")
    case True
    then have "p AND 1 = 1" by (simp add: and_one_eq odd_iff_mod_2_eq_one)
    then have p: "p = ?q + 1" using clear_bit0(2) [of p] by simp
    have "unat ?q \<noteq> 255" using ev by auto
    then have "unat ?q + 1 < 256" using unat_less_256 [of ?q] by linarith
    then have "unat (?q + 1) = unat ?q + 1" by (simp add: unat_word_ariths)
    then show ?thesis using True p by simp
  next
    case False
    then have "p AND 1 = 0" by (simp add: and_one_eq even_iff_mod_2_eq_zero)
    then show ?thesis using False clear_bit0(2) [of p] by simp
  qed
qed

context prompt_crc_engine
begin

lemma poll_prompt: "crc_poll C n c = (fst (ce_result C c), Some (acc c))"
proof -
  obtain v where "snd (ce_result C c) = Some v" using prompt by blast
  then have "ce_result C c = (fst (ce_result C c), Some (acc c))"
    using result_law(1) by (metis prod.collapse)
  then show ?thesis by (cases n) (auto split: prod.splits option.splits)
qed

lemma tx_large_wire:
  assumes t: "tx_ok t" "tx_state t = TxIdle" and n: "2 < sum_list (map length spans)" "sum_list (map length spans) \<le> 252"
    and p: "p = of_nat (sum_list (map length spans))"
    and body: "body = [i, len_for p, inst_status (case over of Some r \<Rightarrow> r | None \<Rightarrow> res) alert] @ concat spans"
  shows "\<exists>t1 c1 t2 c2 t3 c3 sends. tx_stage_gather C t c i res alert spans = Some (t1, c1, Inr ()) \<and>
    tx_trigger C t1 c1 over = Some (t2, c2) \<and> tx_drain 4 C t2 c2 = Some (t3, c3) \<and>
    tx_wire t3 = tx_wire t @ [WStart] @ map WSend sends @ [WRelease] \<and>
    concat sends = body @ le16_bytes (osc_crc body) \<and>
    tx_ok t3 \<and> tx_state t3 = TxIdle \<and> tx_crc_misses t3 = tx_crc_misses t"
proof -
  obtain b0 b1 b2 b3 b4 b5 r where bs: "fbuf_bytes (tx_buf t) = b0 # b1 # b2 # b3 # b4 # b5 # r" "length r = 10"
    using t(1) by (auto simp: tx_ok_def REPLY_BUF_def numeral_eq_Suc length_Suc_conv)
  obtain a0 a1 a2 a3 where arms: "tx_arms t = [a0, a1, a2, a3]"
    using t(1) length_4_ex unfolding tx_ok_def by metis
  obtain f0 f1 f2 where feeds: "tx_feeds t = [f0, f1, f2]"
    using t(1) length_3_ex unfolding tx_ok_def by metis
  have up: "unat p = length (concat spans)" using n p by (simp add: unat_of_nat8 length_concat)
  define c1 where "c1 = fst (snapshot_spans C spans 0 0 c)"
  have ne: "concat spans \<noteq> []"
    using n(1) length_concat [of spans] by (metis length_0_conv not_less_zero)
  have snap: "snapshot_spans C spans 0 0 c = (c1, base)" and rd: "ce_read C c1 base (unat p) = concat spans"
    using snapshot_spans_read [of 0 spans 0 c] n ne up read_len [of c base 0] by (auto simp: c1_def prod_eq_iff)
  let ?inst = "inst_status res alert" and ?inst' = "inst_status (case over of Some r \<Rightarrow> r | None \<Rightarrow> res) alert"
  let ?tail = "if odd p then Some (TailExt (base + unat p - 1)) else None"
  define t1 where "t1 = t\<lparr> tx_buf := (tx_buf t)\<lparr> fbuf_bytes := [0, i, len_for p, ?inst, 0, 0] @ r \<rparr>,
    tx_arms := [ArmBuf 1 3, ArmExt base (ucast p), ArmBuf 4 2, a3], tx_n_arms := 3,
    tx_feeds := [ArmBuf 0 4, ArmExt base (ucast (p AND NOT 1)), f2], tx_n_feeds := 2,
    tx_tail := ?tail, tx_crc_off := 4, tx_result := res, tx_alert := alert, tx_state := TxStaged None \<rparr>"
  have stage: "tx_stage_gather C t c i res alert spans = Some (t1, c1, Inr ())"
    using t(2) n snap
    by (simp add: tx_stage_gather_def tx_busy_def MAX_PAYLOAD_def SMALL_COPY_MAX_def stage_large_def bs arms feeds
        t1_def put_def ALIGN_BYTE_def flip: p)
  define c2 where "c2 = ce_feed C (ce_reset C c1) [0, i, len_for p, ?inst']"
  define t2 where "t2 = t1\<lparr> tx_buf := (tx_buf t)\<lparr> fbuf_bytes := [0, i, len_for p, ?inst', 0, 0] @ r \<rparr>,
    tx_wire := tx_wire t @ [WStart, WSend [i, len_for p, ?inst']], tx_state := TxStreaming 1 \<rparr>"
  have trig: "tx_trigger C t1 c1 over = Some (t2, c2)"
    by (cases over) (simp_all add: tx_trigger_def tx_staged_def t1_def t2_def c2_def tx_resolve_def slice_opt_def)
  let ?q = "p AND NOT 1"
  have keep: "ce_read C c2 x y = ce_read C c1 x y" for x y
    by (simp add: c2_def feed_law reset_law)
  have bulk: "ce_read C c1 base (unat ?q) = take (unat ?q) (concat spans)"
    and last: "odd p \<Longrightarrow> ce_read C c1 (base + unat p - 1) 1 = drop (unat ?q) (concat spans)"
    using rd unat_clear_bit0(2) [of p] read_split [of c1 base "unat ?q" "if odd p then 1 else 0"]
      read_len [of c1 base "unat ?q"] by (auto split: if_splits)
  define c3 where "c3 = ce_feed C c2 (take (unat ?q) (concat spans))"
  define t3 where "t3 = t2\<lparr> tx_wire := tx_wire t @ [WStart, WSend [i, len_for p, ?inst'], WSend (concat spans)],
    tx_state := TxStreaming 2 \<rparr>"
  have up16: "unat (ucast x :: u16) = unat x" for x :: u8
    using unat_less_256 [of x] by (simp add: unsigned_ucast_eq take_bit_nat_eq_self)
  have step1: "tx_on_arm_complete C t2 c2 = Some (t3, c3, TxArmed)"
    using bulk rd by (simp add: tx_on_arm_complete_def t2_def t1_def t3_def c3_def tx_resolve_def up16 keep feed_law(2))
  define c4 where "c4 = fst (ce_result C c3)"
  let ?crc = "osc_crc body"
  have acc3: "acc c3 = osc_crc_continue (osc_crc [0, i, len_for p, ?inst']) (take (unat ?q) (concat spans))"
  proof -
    have "even (length (take (unat ?q) (concat spans)))"
      using unat_clear_bit0 [of p] up by (auto simp: min_def)
    then show ?thesis by (simp add: c3_def c2_def feed_law(1) reset_law(1) osc_crc_def)
  qed
  have crc: "(if odd p then osc_crc_continue (acc c3) (drop (unat ?q) (concat spans)) else acc c3) = ?crc"
  proof -
    have full: "osc_crc_continue (acc c3) (drop (unat ?q) (concat spans)) = ?crc"
      unfolding acc3 osc_crc_def
      by (simp add: body osc_crc_continue_append [symmetric] osc_crc_leading_zero flip: osc_crc_def)
    moreover have "drop (unat ?q) (concat spans) = []" if "even p"
      using unat_clear_bit0(2) [of p] that up by simp
    ultimately show ?thesis by auto
  qed
  have keep4: "ce_read C c4 x y = ce_read C c1 x y" for x y
    by (simp add: c4_def c3_def keep feed_law(2) result_law(3))
  have patch: "tx_patch_crc C t3 c3 = Some (t3\<lparr> tx_buf := (tx_buf t)\<lparr> fbuf_bytes := [0, i, len_for p, ?inst'] @ le16_bytes ?crc @ r \<rparr> \<rparr>, c4)"
    using crc last bs(2)
    by (auto simp: tx_patch_crc_def poll_prompt keep4 t3_def t2_def t1_def put_def simp flip: c4_def split: if_splits)
  define t4 where "t4 = t3\<lparr> tx_buf := (tx_buf t)\<lparr> fbuf_bytes := [0, i, len_for p, ?inst'] @ le16_bytes ?crc @ r \<rparr>,
    tx_wire := tx_wire t @ [WStart, WSend [i, len_for p, ?inst'], WSend (concat spans), WSend (le16_bytes ?crc)],
    tx_state := TxStreaming 3 \<rparr>"
  have step2: "tx_on_arm_complete C t3 c3 = Some (t4, c4, TxArmed)"
  proof -
    have "tx_state t3 = TxStreaming 2" "tx_n_arms t3 = 3" "tx_n_feeds t3 = 2"
      by (simp_all add: t3_def t2_def t1_def)
    then show ?thesis
      by (simp add: tx_on_arm_complete_def patch)
        (simp add: t4_def t3_def t2_def t1_def tx_resolve_def slice_opt_def bs)
  qed
  define t5 where "t5 = t4\<lparr> tx_wire := tx_wire t4 @ [WRelease], tx_state := TxIdle \<rparr>"
  have step3: "tx_on_arm_complete C t4 c4 = Some (t5, c4, TxReleased)"
    by (simp add: tx_on_arm_complete_def t5_def) (simp add: t4_def t3_def t2_def t1_def)
  have "tx_drain 4 C t2 c2 = Some (t5, c4)"
    by (simp add: numeral_eq_Suc step1 step2 step3)
  moreover have "tx_ok t5"
    by (simp add: tx_ok_def t5_def t4_def t3_def t2_def t1_def bs REPLY_BUF_def)
  moreover have "tx_wire t5 = tx_wire t @ [WStart] @ map WSend [[i, len_for p, ?inst'], concat spans, le16_bytes ?crc] @ [WRelease]"
    by (simp add: t5_def t4_def)
  moreover have "tx_state t5 = TxIdle" "tx_crc_misses t5 = tx_crc_misses t"
    by (simp_all add: t5_def t4_def t3_def t2_def t1_def)
  moreover have "concat [[i, len_for p, ?inst'], concat spans, le16_bytes ?crc] = body @ le16_bytes ?crc"
    by (simp add: body)
  ultimately show ?thesis using stage trig by blast
qed

lemma tx_small_wire:
  assumes t: "tx_ok t" "tx_state t = TxIdle" and n: "sum_list (map length spans) \<le> 2"
    and p: "p = of_nat (sum_list (map length spans))"
    and body: "body = [i, len_for p, inst_status (case over of Some r \<Rightarrow> r | None \<Rightarrow> res) alert] @ concat spans"
  shows "\<exists>t1 c1 t2 c2 t3 c3 sends. tx_stage_gather C t c i res alert spans = Some (t1, c1, Inr ()) \<and>
    tx_trigger C t1 c1 over = Some (t2, c2) \<and> tx_drain 4 C t2 c2 = Some (t3, c3) \<and>
    tx_wire t3 = tx_wire t @ [WStart] @ map WSend sends @ [WRelease] \<and>
    concat sends = body @ le16_bytes (osc_crc body) \<and>
    tx_ok t3 \<and> tx_state t3 = TxIdle \<and> tx_crc_misses t3 = tx_crc_misses t"
proof -
  obtain b0 b1 b2 b3 r0 r1 r2 r3 r where bs: "fbuf_bytes (tx_buf t) = b0 # b1 # b2 # b3 # r0 # r1 # r2 # r3 # r" "length r = 8"
    using t(1) by (auto simp: tx_ok_def REPLY_BUF_def numeral_eq_Suc length_Suc_conv)
  obtain a0 a1 a2 a3 where arms: "tx_arms t = [a0, a1, a2, a3]"
    using t(1) length_4_ex unfolding tx_ok_def by metis
  obtain f0 f1 f2 where feeds: "tx_feeds t = [f0, f1, f2]"
    using t(1) length_3_ex unfolding tx_ok_def by metis
  define d where "d = concat spans"
  have len: "sum_list (map length spans) = length d" by (simp add: d_def length_concat)
  have cs: "copy_spans spans 0 pay = Some (put 0 d pay)" if "length pay = 10" for pay
    using n that unfolding d_def by (intro copy_spans_concat) simp
  let ?over = "case over of Some r \<Rightarrow> r | None \<Rightarrow> res"
  let ?sends = "[[i, len_for p, inst_status ?over alert] @ d, le16_bytes (osc_crc body)]"
  have lead: "osc_crc_continue 0 (0 # xs) = osc_crc xs" for xs
    using osc_crc_leading_zero [of xs] by (simp add: osc_crc_def)
  have join: "osc_crc_continue (osc_crc_continue x xs) ys = osc_crc_continue x (xs @ ys)" for x xs ys
    by (simp add: osc_crc_continue_append)
  have d: "d = [] \<or> (\<exists>x. d = [x]) \<or> (\<exists>x y. d = [x, y])"
    using n unfolding len by (auto simp: numeral_eq_Suc le_Suc_eq length_Suc_conv)
  let ?cov = "4 + length d" and ?rest = "drop (length d) (r2 # r3 # r)"
  let ?bulk = "if length d = 2 then 6 else 4" and ?tail = "if length d = 1 then Some (TailBuf 4) else None"
  define t1 where "t1 = t\<lparr> tx_buf := (tx_buf t)\<lparr> fbuf_bytes := [0, i, len_for p, inst_status res alert] @ d @ [0, 0] @ ?rest \<rparr>,
    tx_arms := [ArmBuf 1 (of_nat (3 + length d)), ArmBuf (of_nat ?cov) 2, a2, a3], tx_n_arms := 2,
    tx_feeds := [ArmBuf 0 ?bulk, f1, f2], tx_n_feeds := 1, tx_tail := ?tail, tx_crc_off := of_nat ?cov,
    tx_result := res, tx_alert := alert, tx_state := TxStaged None \<rparr>"
  have stage: "tx_stage_gather C t c i res alert spans = Some (t1, c, Inr ())"
    using d t(2) n bs(2)
    by (elim disjE exE)
      (simp_all add: tx_stage_gather_def tx_busy_def MAX_PAYLOAD_def SMALL_COPY_MAX_def stage_small_def len p cs
        frame_buf_start_def frame_buf_payload_mut_def frame_buf_with_payload_def frame_buf_finish_def
        slice_opt_def put_def bs arms feeds t1_def ALIGN_BYTE_def covered_len_def len_for_def word_le_nat_alt)
  let ?inst' = "inst_status ?over alert"
  let ?head = "[0, i, len_for p, ?inst']"
  define c2 where "c2 = ce_feed C (ce_reset C c) (take ?bulk (?head @ d))"
  define t2 where "t2 = t1\<lparr> tx_buf := (tx_buf t)\<lparr> fbuf_bytes := ?head @ d @ [0, 0] @ ?rest \<rparr>,
    tx_wire := tx_wire t @ [WStart, WSend ([i, len_for p, ?inst'] @ d)], tx_state := TxStreaming 1 \<rparr>"
  have trig: "tx_trigger C t1 c over = Some (t2, c2)"
    using d by (cases over; elim disjE exE)
      (simp_all add: tx_trigger_def tx_staged_def t1_def t2_def c2_def tx_resolve_def slice_opt_def)
  define c3 where "c3 = fst (ce_result C c2)"
  have "acc c2 = osc_crc_continue 0 (take ?bulk (?head @ d))"
    using d by (elim disjE exE) (simp_all add: c2_def feed_law(1) reset_law(1))
  then have crc: "osc_crc_continue (acc c2) (drop ?bulk (?head @ d)) = osc_crc body"
    by (simp add: join body d_def lead del: osc_crc_continue.simps append_Cons take_Cons_numeral drop_Cons_numeral)
      (simp add: lead del: osc_crc_continue.simps)
  have patch: "tx_patch_crc C t2 c2 = Some (t2\<lparr> tx_buf := (tx_buf t)\<lparr> fbuf_bytes := ?head @ d @ le16_bytes (osc_crc body) @ ?rest \<rparr> \<rparr>, c3)"
    using d crc bs(2)
    by (elim disjE exE)
      (simp_all add: tx_patch_crc_def poll_prompt t2_def t1_def put_def flip: c3_def)
  define t3 where "t3 = t2\<lparr> tx_buf := (tx_buf t)\<lparr> fbuf_bytes := ?head @ d @ le16_bytes (osc_crc body) @ ?rest \<rparr>,
    tx_wire := tx_wire t @ [WStart, WSend ([i, len_for p, ?inst'] @ d), WSend (le16_bytes (osc_crc body))],
    tx_state := TxStreaming 2 \<rparr>"
  have step1: "tx_on_arm_complete C t2 c2 = Some (t3, c3, TxArmed)"
  proof -
    have "tx_state t2 = TxStreaming 1" "tx_n_arms t2 = 2" "tx_n_feeds t2 = 1"
      by (simp_all add: t2_def t1_def)
    then show ?thesis
      using d by (simp add: tx_on_arm_complete_def patch)
        (elim disjE exE; simp add: t3_def t2_def t1_def tx_resolve_def slice_opt_def bs)
  qed
  define t4 where "t4 = t3\<lparr> tx_wire := tx_wire t3 @ [WRelease], tx_state := TxIdle \<rparr>"
  have step2: "tx_on_arm_complete C t3 c3 = Some (t4, c3, TxReleased)"
    by (simp add: tx_on_arm_complete_def t4_def) (simp add: t3_def t2_def t1_def)
  have "tx_drain 4 C t2 c2 = Some (t4, c3)"
    by (simp add: numeral_eq_Suc step1 step2)
  moreover have "tx_ok t4"
    using d bs(2) by (elim disjE exE) (simp_all add: tx_ok_def t4_def t3_def t2_def t1_def REPLY_BUF_def)
  moreover have "tx_wire t4 = tx_wire t @ [WStart] @ map WSend ?sends @ [WRelease]"
    by (simp add: t4_def t3_def)
  moreover have "tx_state t4 = TxIdle" "tx_crc_misses t4 = tx_crc_misses t"
    by (simp_all add: t4_def t3_def t2_def t1_def)
  moreover have "concat ?sends = body @ le16_bytes (osc_crc body)"
    by (simp add: body d_def)
  ultimately show ?thesis using stage trig by blast
qed

end

subsection \<open>Properties\<close>

text \<open>
  C39. A reply goes out as one well-formed frame whose checksum covers exactly the bytes sent. For
  every CRC engine that behaves as documented, whatever spans the payload is gathered from (up to
  252 bytes in all, odd lengths and both the copied and the streamed layout included), staging
  succeeds, the trigger claims the wire with a break and the arms, in order, carry id, length, the
  INST byte of the (possibly overridden) result, the payload and the little-endian osc-CRC-16 of
  these bytes; then the wire is released and the engine is idle again. Behind the break's zero byte
  the receiver finds a frame of exactly the announced length. No slice index is out of range.
\<close>

theorem reply_frame_exact:
  assumes crc: "prompt_crc_engine C acc base" and t: "tx_ok t" "tx_state t = TxIdle"
    and n: "sum_list (map length spans) \<le> 252"
    and body: "body = [i, len_for (of_nat (length (concat spans))),
      inst_status (case over of Some r \<Rightarrow> r | None \<Rightarrow> res) alert] @ concat spans"
  shows "\<exists>t1 c1 t2 c2 t3 c3 sends. tx_stage_gather C t c i res alert spans = Some (t1, c1, Inr ()) \<and>
    tx_trigger C t1 c1 over = Some (t2, c2) \<and> tx_drain 4 C t2 c2 = Some (t3, c3) \<and>
    tx_wire t3 = tx_wire t @ [WStart] @ map WSend sends @ [WRelease] \<and>
    concat sends = body @ le16_bytes (osc_crc body) \<and> wf_frame (0 # concat sends) \<and>
    tx_ok t3 \<and> tx_state t3 = TxIdle \<and> tx_crc_misses t3 = tx_crc_misses t"
proof -
  have len: "length (concat spans) \<le> 252" using n by (simp add: length_concat)
  then have "unat (len_for (of_nat (length (concat spans)))) = 3 + length (concat spans)"
    by (simp add: len_for_def unat_word_ariths unat_of_nat)
  then have wf: "wf_frame (0 # body @ le16_bytes (osc_crc body))"
    by (simp add: wf_frame_def body)
  show ?thesis
  proof (cases "sum_list (map length spans) \<le> 2")
    case True
    show ?thesis
      using prompt_crc_engine.tx_small_wire [OF crc t True refl, of body i res over alert c] wf body
      by (simp only: length_concat) metis
  next
    case False
    then have "2 < sum_list (map length spans)" by simp
    from prompt_crc_engine.tx_large_wire [OF crc t this n refl, of body i res over alert c] show ?thesis
      using wf body by (simp only: length_concat) metis
  qed
qed

theorem reply_frame_exact_witness:
  "\<exists>t1 c1 t2 c2 t3 c3 sends.
    tx_stage_gather sim_crc_ops tx_new sim_crc_new 7 RcOk False [[1, 2], [3]] = Some (t1, c1, Inr ()) \<and>
    tx_trigger sim_crc_ops t1 c1 (Some RcPredecessorSilent) = Some (t2, c2) \<and>
    tx_drain 4 sim_crc_ops t2 c2 = Some (t3, c3) \<and>
    tx_wire t3 = [WStart] @ map WSend sends @ [WRelease] \<and>
    concat sends = [7, 6, inst_status RcPredecessorSilent False, 1, 2, 3] @
      le16_bytes (osc_crc [7, 6, inst_status RcPredecessorSilent False, 1, 2, 3])"
proof -
  have "tx_state tx_new = TxIdle" "tx_wire tx_new = []" by (simp_all add: tx_new_def)
  then show ?thesis
    using reply_frame_exact [OF sim.prompt_crc_engine_axioms tx_ok_new, of "[[1, 2], [3]]"
        "[7, 6, inst_status RcPredecessorSilent False, 1, 2, 3]" 7 RcOk "Some RcPredecessorSilent" False sim_crc_new]
    by (simp add: len_for_def del: osc_crc_continue.simps) metis
qed

end
