(* ===== verification/Bus_Clock.thy ===== *)
theory Bus_Clock
  imports Bus_Framer "HOL-Library.Signed_Division"
begin

text \<open>
  Clock discipline of the servo transport: \<open>drivers/src/bus/trim.rs\<close> (the trim controller) and
  \<open>clock.rs\<close> (the CAL break train and the drift tracker that feed it). An \<open>i32\<close> or \<open>i8\<close> is an
  \<^typ>\<open>int\<close> with its wrap-around written out (\<open>wrap32\<close>); the \<open>u64\<close> products of the code stay below
  \<open>2 ^ 53\<close>, so they are \<^typ>\<open>nat\<close>. The instrumentation calls (\<open>bench::trim_probe\<close>) have no effect on
  the state and are left out.
\<close>

subsection \<open>The trim controller\<close>

definition wrap32 :: "int \<Rightarrow> int" where
  "wrap32 x = signed_take_bit 31 x"

definition STEP_PPM_MIN :: int where [osc_const]: "STEP_PPM_MIN = 800"
definition STEP_PPM_MAX :: int where [osc_const]: "STEP_PPM_MAX = 4000"
definition STEPS_MAX :: nat where [osc_const]: "STEPS_MAX = 4"
definition TOTAL_MAX :: int where [osc_const]: "TOTAL_MAX = 15"

record trim_loop =
  tl_total :: int
  tl_step_ppm :: int
  tl_last_ppm :: int
  tl_last_steps :: int

definition trim_new :: "u32 \<Rightarrow> trim_loop" where
  "trim_new nominal = \<lparr> tl_total = 0, tl_step_ppm = sint nominal, tl_last_ppm = 0, tl_last_steps = 0 \<rparr>"

text \<open>The restoring division: from bit \<open>k - 1\<close> down, with the divisor shifted along.\<close>

fun ppm_loop :: "nat \<Rightarrow> nat \<Rightarrow> nat \<Rightarrow> nat \<Rightarrow> nat" where
  "ppm_loop 0 rem ds q = q"
| "ppm_loop (Suc k) rem ds q =
     (if rem \<ge> ds then ppm_loop k (rem - ds) (ds div 2) (q OR push_bit k 1)
      else ppm_loop k rem (ds div 2) q)"

definition ppm :: "int \<Rightarrow> u32 \<Rightarrow> int" where
  "ppm err span =
     (let rem = nat \<bar>err\<bar> * 1000000;
          (rem, q) = (if rem \<ge> unat span * 2 ^ 20 then (0, 2 ^ 20 - 1) else (rem, 0));
          q = ppm_loop 20 rem (unat span * 2 ^ 19) q
      in if err < 0 then - int q else int q)"

definition trim_observed :: "int \<Rightarrow> int \<Rightarrow> int" where
  "trim_observed delta last_steps =
     (let mag = nat \<bar>delta\<bar>;
          q = (if \<bar>last_steps\<bar> = 1 then mag else if \<bar>last_steps\<bar> = 2 then mag div 2
               else if \<bar>last_steps\<bar> = 3 then mag div 3 else mag div 4)
      in if (delta < 0) = (last_steps < 0) then int q else - int q)"

definition trim_mag :: "u32 \<Rightarrow> u32 \<Rightarrow> int" where
  "trim_mag t d = sum_list (map (\<lambda>k. if t \<ge> (2 * of_nat k + 1) * d then 1 else 0) [0..<STEPS_MAX])"

definition clamp_total :: "int \<Rightarrow> int" where
  "clamp_total x = (if x < - TOTAL_MAX then - TOTAL_MAX else if x > TOTAL_MAX then TOTAL_MAX else x)"

definition trim_on_window :: "trim_loop \<Rightarrow> int \<Rightarrow> u32 \<Rightarrow> trim_loop \<times> int option" where
  "trim_on_window lp err span =
     (if span = 0 then (lp, None)
      else let p = ppm err span;
               lp = (if tl_last_steps lp \<noteq> 0
                     then let observed = trim_observed (tl_last_ppm lp - p) (tl_last_steps lp)
                          in if STEP_PPM_MIN \<le> observed \<and> observed \<le> STEP_PPM_MAX
                             then lp\<lparr> tl_step_ppm := observed \<rparr> else lp
                     else lp);
               d = (of_int (tl_step_ppm lp) :: u32);
               t = (2 * of_nat (nat \<bar>p\<bar>) :: u32);
               mag = trim_mag t d;
               steps = (if p < 0 then - mag else mag);
               new_total = clamp_total (tl_total lp + steps);
               applied = new_total - tl_total lp;
               lp = lp\<lparr> tl_last_ppm := p, tl_last_steps := applied \<rparr>
           in if applied = 0 then (lp, None)
              else (lp\<lparr> tl_total := new_total \<rparr>, Some new_total))"

subsection \<open>The clock tracker\<close>

definition TRIM_GATE_SHIFT :: nat where [osc_const]: "TRIM_GATE_SHIFT = 4"
definition CAL_WATCHDOG_GAPS :: u32 where [osc_const]: "CAL_WATCHDOG_GAPS = 2"
definition DRIFT_BASELINE_PAIRS :: u8 where [osc_const]: "DRIFT_BASELINE_PAIRS = 32"
definition DRIFT_WINDOW_PAIRS :: u8 where [osc_const]: "DRIFT_WINDOW_PAIRS = 128"
definition DRIFT_SANITY_PPM :: nat where [osc_const]: "DRIFT_SANITY_PPM = 8000"

record cal_run =
  cr_gap_ticks :: u32
  cr_gaps_left :: u8
  cr_total :: u8
  cr_valid :: u8
  cr_last_break :: u32
  cr_cursor :: u16
  cr_err :: int
  cr_span :: u32

datatype verified_span = VsNone | VsOne u16 bool | VsMany

record clock_tracker =
  ck_pending_cal :: "(u16 \<times> u8) option"
  ck_cal :: "cal_run option"
  ck_cal_ready :: bool
  ck_drift_prev :: "(u32 \<times> u16) option"
  ck_drift_seen :: verified_span
  ck_drift_base :: "int option"
  ck_drift_base_err :: int
  ck_drift_base_n :: u8
  ck_drift_win_err :: int
  ck_drift_win_span :: u32
  ck_drift_win_n :: u8
  ck_drift_ready :: bool
  ck_cadence_err :: int
  ck_cadence_span :: u32
  ck_trim :: trim_loop

definition clock_new :: "u32 \<Rightarrow> clock_tracker" where
  "clock_new step_ppm =
     \<lparr> ck_pending_cal = None, ck_cal = None, ck_cal_ready = False, ck_drift_prev = None,
       ck_drift_seen = VsNone, ck_drift_base = None, ck_drift_base_err = 0, ck_drift_base_n = 0,
       ck_drift_win_err = 0, ck_drift_win_span = 0, ck_drift_win_n = 0, ck_drift_ready = False,
       ck_cadence_err = 0, ck_cadence_span = 0, ck_trim = trim_new step_ppm \<rparr>"

definition cal_active :: "clock_tracker \<Rightarrow> bool" where
  "cal_active ck \<longleftrightarrow> ck_cal ck \<noteq> None \<or> ck_pending_cal ck \<noteq> None"

definition clock_restart :: "clock_tracker \<Rightarrow> clock_tracker" where
  "clock_restart ck =
     ck\<lparr> ck_drift_prev := None, ck_drift_seen := VsNone, ck_drift_base := None, ck_drift_base_err := 0,
         ck_drift_base_n := 0, ck_drift_win_err := 0, ck_drift_win_span := 0, ck_drift_win_n := 0,
         ck_drift_ready := False \<rparr>"

definition cal_watchdog_at :: "u32 \<Rightarrow> u32 \<Rightarrow> u32" where
  "cal_watchdog_at now gap_ticks = now + gap_ticks * CAL_WATCHDOG_GAPS"

text \<open>One gap of a live train; the gate accepts an error of at most a sixteenth of the nominal gap.\<close>

definition in_gate :: "int \<Rightarrow> u32 \<Rightarrow> bool" where
  "in_gate err span \<longleftrightarrow> nat \<bar>err\<bar> \<le> unat (drop_bit TRIM_GATE_SHIFT span)"

definition cal_gap :: "cal_run \<Rightarrow> u32 \<Rightarrow> u16 \<Rightarrow> cal_run" where
  "cal_gap c now cursor =
     (let delta = now - cr_last_break c;
          c = c\<lparr> cr_cursor := cursor, cr_last_break := now \<rparr>;
          err = sint (delta - cr_gap_ticks c);
          c = (if in_gate err (cr_gap_ticks c)
               then c\<lparr> cr_err := wrap32 (cr_err c + err), cr_span := cr_span c + cr_gap_ticks c,
                      cr_valid := cr_valid c + 1 \<rparr>
               else c)
      in c\<lparr> cr_gaps_left := (if cr_gaps_left c = 0 then 0 else cr_gaps_left c - 1) \<rparr>)"

definition on_cal_break :: "clock_tracker \<Rightarrow> u32 \<Rightarrow> u16 \<Rightarrow> u32 \<Rightarrow> clock_tracker \<times> u32 option" where
  "on_cal_break ck now cursor ticks_per_us =
     (case ck_pending_cal ck of
        Some (gap_us, gaps) \<Rightarrow>
          let ck = clock_restart (ck\<lparr> ck_pending_cal := None \<rparr>);
              gap_ticks = ucast gap_us * ticks_per_us
          in (ck\<lparr> ck_cal := Some \<lparr> cr_gap_ticks = gap_ticks, cr_gaps_left = gaps, cr_total = gaps, cr_valid = 0,
                                  cr_last_break = now, cr_cursor = cursor, cr_err = 0, cr_span = 0 \<rparr> \<rparr>,
              Some (cal_watchdog_at now gap_ticks))
      | None \<Rightarrow>
          (case ck_cal ck of
             None \<Rightarrow> (ck, None)
           | Some c \<Rightarrow>
               if cursor = cr_cursor c then (ck, None)
               else let c = cal_gap c now cursor
                    in if cr_gaps_left c \<noteq> 0
                       then (ck\<lparr> ck_cal := Some c \<rparr>, Some (cal_watchdog_at now (cr_gap_ticks c)))
                       else let ck = ck\<lparr> ck_cal := None \<rparr>;
                                ck = (if unat (cr_valid c) * 2 \<ge> unat (cr_total c)
                                      then ck\<lparr> ck_cadence_err := cr_err c, ck_cadence_span := cr_span c,
                                              ck_cal_ready := True \<rparr>
                                      else ck)
                            in (ck, Some now)))"

definition abandon_cal :: "clock_tracker \<Rightarrow> clock_tracker" where
  "abandon_cal ck = ck\<lparr> ck_cal := None, ck_pending_cal := None \<rparr>"

text \<open>The accepted pair of \<open>on_drift_break\<close>, folded into the baseline or the window.\<close>

definition drift_pair :: "clock_tracker \<Rightarrow> int \<Rightarrow> u32 \<Rightarrow> clock_tracker" where
  "drift_pair ck err span =
     (case ck_drift_base ck of
        None \<Rightarrow>
          let ck = ck\<lparr> ck_drift_base_err := wrap32 (ck_drift_base_err ck + err),
                      ck_drift_base_n := ck_drift_base_n ck + 1 \<rparr>
          in if ck_drift_base_n ck \<ge> DRIFT_BASELINE_PAIRS
             then ck\<lparr> ck_drift_base := Some (ck_drift_base_err ck sdiv int (unat DRIFT_BASELINE_PAIRS)) \<rparr>
             else ck
      | Some base \<Rightarrow>
          let ck = ck\<lparr> ck_drift_win_err := wrap32 (ck_drift_win_err ck + wrap32 (err - base)),
                      ck_drift_win_span := sat_add (ck_drift_win_span ck) span,
                      ck_drift_win_n := ck_drift_win_n ck + 1 \<rparr>
          in if ck_drift_win_n ck \<ge> DRIFT_WINDOW_PAIRS
             then (if \<not> ck_cal_ready ck \<and> \<not> ck_drift_ready ck
                   then ck\<lparr> ck_cadence_err := ck_drift_win_err ck, ck_cadence_span := ck_drift_win_span ck,
                           ck_drift_ready := True \<rparr>
                   else ck)\<lparr> ck_drift_win_err := 0, ck_drift_win_span := 0, ck_drift_win_n := 0 \<rparr>
             else ck)"

definition on_drift_break :: "clock_tracker \<Rightarrow> u32 \<Rightarrow> u16 \<Rightarrow> nat \<Rightarrow> u32 \<Rightarrow> clock_tracker" where
  "on_drift_break ck now cursor len tpb =
     (let prev = ck_drift_prev ck;
          seen = ck_drift_seen ck;
          ck = ck\<lparr> ck_drift_prev := Some (now, cursor), ck_drift_seen := VsNone \<rparr>
      in case (prev, seen) of
           (Some (t1, c1), VsOne fp True) \<Rightarrow>
             if len = 0 \<or> of_nat (ring_wrap (unat cursor + len - unat c1) len) \<noteq> fp then ck
             else let span = ucast fp * tpb;
                      err = sint (now - t1 - span)
                  in if \<not> in_gate err span then ck else drift_pair ck err span
         | _ \<Rightarrow> ck)"

definition pair_open :: "clock_tracker \<Rightarrow> bool" where
  "pair_open ck \<longleftrightarrow> (case ck_drift_seen ck of VsNone \<Rightarrow> True | _ \<Rightarrow> False)"

definition note_verified :: "clock_tracker \<Rightarrow> u16 \<Rightarrow> bool \<Rightarrow> clock_tracker" where
  "note_verified ck fp silent =
     ck\<lparr> ck_drift_seen := (case ck_drift_seen ck of VsNone \<Rightarrow> VsOne fp silent | _ \<Rightarrow> VsMany) \<rparr>"

definition clock_poll :: "clock_tracker \<Rightarrow> clock_tracker \<times> int option" where
  "clock_poll ck =
     (if ck_cal_ready ck
      then let err = ck_cadence_err ck; span = ck_cadence_span ck;
               ck = clock_restart (ck\<lparr> ck_cal_ready := False, ck_cadence_err := 0, ck_cadence_span := 0 \<rparr>);
               (trim, out) = trim_on_window (ck_trim ck) err span
           in (ck\<lparr> ck_trim := trim \<rparr>, out)
      else if \<not> ck_drift_ready ck then (ck, None)
      else let err = ck_cadence_err ck; span = ck_cadence_span ck;
               ck = ck\<lparr> ck_drift_ready := False, ck_cadence_err := 0, ck_cadence_span := 0 \<rparr>
           in if span = 0 then (ck, None)
              else if nat \<bar>err\<bar> * 1000000 \<ge> (DRIFT_SANITY_PPM + 1) * unat span then (ck, None)
              else let (trim, out) = trim_on_window (ck_trim ck) err span;
                       ck = ck\<lparr> ck_trim := trim \<rparr>
                   in (if out \<noteq> None then clock_restart ck else ck, out))"

subsection \<open>The division and the rounding are exact\<close>

lemma or_fresh_bit: "q mod 2 ^ Suc k = 0 \<Longrightarrow> q OR push_bit k 1 = q + 2 ^ k" for q :: nat
proof -
  assume q: "q mod 2 ^ Suc k = 0"
  have "\<not> bit q n" if "n \<le> k" for n
  proof -
    have "bit (take_bit (Suc k) q) n = bit q n" using that by (simp add: bit_take_bit_iff)
    then show ?thesis using q by (simp add: take_bit_eq_mod)
  qed
  then have "q OR push_bit k 1 = q + push_bit k 1"
    by (intro disjunctive_add [symmetric]) (auto simp: bit_simps)
  then show ?thesis by (simp add: push_bit_eq_mult)
qed

lemma ppm_loop_div:
  "rem < span * 2 ^ k \<Longrightarrow> q mod 2 ^ k = 0 \<Longrightarrow>
   ppm_loop k rem (span * 2 ^ k div 2) q = q + rem div span"
proof (induction k arbitrary: rem q)
  case 0
  then show ?case by simp
next
  case (Suc k)
  have ds: "span * 2 ^ Suc k div 2 = span * 2 ^ k" by simp
  have q: "q mod 2 ^ k = 0" "(q + 2 ^ k) mod 2 ^ k = 0"
    using Suc.prems(2) by (auto simp: mod_2_eq_odd elim!: dvd_trans [rotated] simp flip: dvd_eq_mod_eq_0)
  show ?case
  proof (cases "span * 2 ^ k \<le> rem")
    case True
    have "rem - span * 2 ^ k < span * 2 ^ k" using Suc.prems(1) True by simp
    moreover have "rem div span = 2 ^ k + (rem - span * 2 ^ k) div span"
    proof -
      have "0 < span" using Suc.prems(1) by (cases span) auto
      then have "(span * 2 ^ k + (rem - span * 2 ^ k)) div span = 2 ^ k + (rem - span * 2 ^ k) div span"
        by simp
      then show ?thesis using True by simp
    qed
    ultimately show ?thesis
      using True Suc.IH [of "rem - span * 2 ^ k" "q + 2 ^ k"] q or_fresh_bit [OF Suc.prems(2)]
      by (simp add: ds del: push_bit_of_1)
  next
    case False
    then show ?thesis using Suc.IH [of rem q] q by (simp add: ds)
  qed
qed

text \<open>
  The division-free parts-per-million reading is the truncated quotient whenever the error is below
  \<open>2 ^ 20 / 10 ^ 6\<close> of the span (every caller gates it to a sixteenth); outside it saturates.
\<close>

lemma ppm_loop_zero: "0 < ds \<Longrightarrow> ppm_loop k 0 (ds * 2 ^ k div 2) q = q"
proof (induction k)
  case (Suc k)
  have "\<not> ds * 2 ^ k \<le> 0" using Suc.prems by simp
  moreover have "ds * 2 ^ Suc k div 2 = ds * 2 ^ k" by simp
  ultimately show ?case using Suc by simp
qed simp

lemma ppm_in_domain:
  assumes lt: "nat \<bar>err\<bar> * 1000000 < unat span * 2 ^ 20"
  shows "ppm err span = (err * 1000000) sdiv int (unat span)"
proof -
  have half: "unat span * 2 ^ 20 div 2 = unat span * 2 ^ 19" by simp
  have loop: "ppm_loop 20 (nat \<bar>err\<bar> * 1000000) (unat span * 2 ^ 19) 0 = nat \<bar>err\<bar> * 1000000 div unat span"
    using ppm_loop_div [OF lt, of 0] unfolding half by simp
  have sg: "sgn (int (unat span)) = 1" using lt by (cases "unat span") auto
  have "ppm err span = (if err < 0 then - 1 else 1) * int (nat \<bar>err\<bar> * 1000000 div unat span)"
    using lt loop by (cases "err < 0") (simp_all add: ppm_def Let_def)
  also have "\<dots> = (if err < 0 then - 1 else 1) * (\<bar>err\<bar> * 1000000 div int (unat span))"
    by (simp add: zdiv_int)
  also have "\<dots> = (err * 1000000) sdiv int (unat span)"
    using sg by (auto simp: signed_divide_int_def sgn_mult abs_mult sgn_if)
  finally show ?thesis .
qed

lemma ppm_saturates:
  assumes ge: "unat span * 2 ^ 20 \<le> nat \<bar>err\<bar> * 1000000" and s: "span \<noteq> 0"
  shows "ppm err span = (if err < 0 then - (2 ^ 20 - 1) else 2 ^ 20 - 1)"
proof -
  have half: "unat span * 2 ^ 20 div 2 = unat span * 2 ^ 19" by simp
  have "0 < unat span" using s by (simp add: unat_gt_0)
  from ppm_loop_zero [OF this, of 20 "2 ^ 20 - 1"]
  have "ppm_loop 20 0 (unat span * 2 ^ 19) (2 ^ 20 - 1) = 2 ^ 20 - 1" unfolding half .
  then show ?thesis using ge by (simp add: ppm_def Let_def)
qed

lemma ppm_bound: "span \<noteq> 0 \<Longrightarrow> \<bar>ppm err span\<bar> < 2 ^ 20"
proof (cases "nat \<bar>err\<bar> * 1000000 < unat span * 2 ^ 20")
  case True
  assume "span \<noteq> 0"
  then have sp: "0 < unat span" by (simp add: unat_gt_0)
  have "nat \<bar>err\<bar> * 1000000 div unat span < 2 ^ 20"
    using True sp by (simp add: less_mult_imp_div_less mult.commute)
  then have "int (nat \<bar>err\<bar> * 1000000 div unat span) < 2 ^ 20" by simp
  then have "\<bar>err\<bar> * 1000000 div int (unat span) < 2 ^ 20" by (simp add: zdiv_int)
  moreover have "0 \<le> \<bar>err\<bar> * 1000000 div int (unat span)"
    using of_nat_0_le_iff [where 'a = int, of "nat \<bar>err\<bar> * 1000000 div unat span"] by (simp add: zdiv_int)
  ultimately show ?thesis
    using sp by (auto simp: ppm_in_domain [OF True] signed_divide_int_def sgn_mult abs_mult sgn_if)
next
  case False
  assume "span \<noteq> 0"
  then show ?thesis using False by (subst ppm_saturates) auto
qed

text \<open>The four threshold compares round to the nearest multiple of the step effect, half away from zero.\<close>

definition round_steps :: "int \<Rightarrow> int \<Rightarrow> int" where
  "round_steps p d =
     (let m = (if 7 * d \<le> 2 * \<bar>p\<bar> then 4 else if 5 * d \<le> 2 * \<bar>p\<bar> then 3
               else if 3 * d \<le> 2 * \<bar>p\<bar> then 2 else if d \<le> 2 * \<bar>p\<bar> then 1 else 0)
      in if p < 0 then - m else m)"

definition step_band :: "int \<Rightarrow> bool" where
  "step_band d \<longleftrightarrow> STEP_PPM_MIN \<le> d \<and> d \<le> STEP_PPM_MAX"

lemma trim_mag_threshold:
  assumes "\<bar>p\<bar> < 2 ^ 20" "step_band d"
  shows "trim_mag (2 * of_nat (nat \<bar>p\<bar>)) (of_int d) =
         (if 7 * d \<le> 2 * \<bar>p\<bar> then 4 else if 5 * d \<le> 2 * \<bar>p\<bar> then 3
          else if 3 * d \<le> 2 * \<bar>p\<bar> then 2 else if d \<le> 2 * \<bar>p\<bar> then 1 else 0)"
proof -
  define n where "n = nat \<bar>p\<bar>"
  define e where "e = nat d"
  have n: "n < 2 ^ 20" "int n = \<bar>p\<bar>" using assms(1) by (auto simp: n_def)
  have e: "e \<le> 4000" "800 \<le> e" "int e = d" using assms(2) by (auto simp: e_def step_band_def osc_const)
  have "(of_int d :: u32) = of_nat e" using e by (metis of_int_of_nat_eq)
  moreover have "(2 * of_nat n :: u32) = of_nat (2 * n)" by simp
  moreover have cmp: "((2 * of_nat k + 1) * of_nat e \<le> (of_nat (2 * n) :: u32)) = ((2 * k + 1) * e \<le> 2 * n)"
    if "k < 4" for k
  proof -
    have "(2 * k + 1) * e \<le> 7 * 4000" using that e by (intro mult_mono) auto
    then have u: "unat (of_nat ((2 * k + 1) * e) :: u32) = (2 * k + 1) * e"
      "unat (of_nat (2 * n) :: u32) = 2 * n"
      using n by (intro unat_of_nat32; simp)+
    have "((2 * of_nat k + 1) * of_nat e :: u32) = of_nat ((2 * k + 1) * e)" by (simp add: algebra_simps)
    then show ?thesis using u by (simp only: word_le_nat_alt)
  qed
  ultimately have "trim_mag (2 * of_nat n) (of_int d) =
      (\<Sum>k\<leftarrow>[0, 1, 2, 3]. if (2 * k + 1) * e \<le> 2 * n then 1 else 0)"
    using cmp [of 0] cmp [of 1] cmp [of 2] cmp [of 3]
    by (simp add: trim_mag_def osc_const upt_rec)
  then show ?thesis unfolding n_def [symmetric] using e(3) n(2) by auto
qed


lemma round_steps_bound: "\<bar>round_steps p d\<bar> \<le> 4"
  by (simp add: round_steps_def Let_def)

definition trim_learn :: "trim_loop \<Rightarrow> int \<Rightarrow> int" where
  "trim_learn lp p =
     (let observed = trim_observed (tl_last_ppm lp - p) (tl_last_steps lp)
      in if tl_last_steps lp \<noteq> 0 \<and> step_band observed then observed else tl_step_ppm lp)"

lemma trim_learn_band: "step_band (tl_step_ppm lp) \<Longrightarrow> step_band (trim_learn lp p)"
  by (simp add: trim_learn_def Let_def)

text \<open>One window, in closed form: learn the step effect, round, clamp at the rail.\<close>

lemma trim_window_closed:
  fixes err :: int
  assumes "span \<noteq> 0" "step_band (tl_step_ppm lp)"
  defines "p \<equiv> ppm err span"
  defines "tot \<equiv> clamp_total (tl_total lp + round_steps p (trim_learn lp p))"
  shows "trim_on_window lp err span =
    (\<lparr> tl_total = tot, tl_step_ppm = trim_learn lp p, tl_last_ppm = p, tl_last_steps = tot - tl_total lp,
       \<dots> = trim_loop.more lp \<rparr>,
     if tot = tl_total lp then None else Some tot)"
proof -
  have pb: "\<bar>p\<bar> < 2 ^ 20" using ppm_bound [OF assms(1)] by (simp add: p_def)
  have mag: "(if p < 0 then - trim_mag (2 * of_nat (nat \<bar>p\<bar>)) (of_int (trim_learn lp p))
              else trim_mag (2 * of_nat (nat \<bar>p\<bar>)) (of_int (trim_learn lp p))) =
             round_steps p (trim_learn lp p)"
    unfolding trim_mag_threshold [OF pb trim_learn_band [OF assms(2)]] round_steps_def Let_def by simp
  define lp1 where "lp1 = (if tl_last_steps lp \<noteq> 0
      then let observed = trim_observed (tl_last_ppm lp - p) (tl_last_steps lp)
           in if STEP_PPM_MIN \<le> observed \<and> observed \<le> STEP_PPM_MAX then lp\<lparr> tl_step_ppm := observed \<rparr> else lp
      else lp)"
  have lp1: "lp1 = lp\<lparr> tl_step_ppm := trim_learn lp p \<rparr>"
    by (simp add: lp1_def trim_learn_def step_band_def Let_def)
  have d: "tl_step_ppm lp1 = trim_learn lp p" "tl_total lp1 = tl_total lp" by (simp_all add: lp1)
  have "trim_on_window lp err span =
    (let steps = (if p < 0 then - trim_mag (2 * of_nat (nat \<bar>p\<bar>)) (of_int (tl_step_ppm lp1))
                  else trim_mag (2 * of_nat (nat \<bar>p\<bar>)) (of_int (tl_step_ppm lp1)));
         new_total = clamp_total (tl_total lp1 + steps);
         applied = new_total - tl_total lp1;
         lp2 = lp1\<lparr> tl_last_ppm := p, tl_last_steps := applied \<rparr>
     in if applied = 0 then (lp2, None) else (lp2\<lparr> tl_total := new_total \<rparr>, Some new_total))"
    using assms(1) unfolding trim_on_window_def p_def [symmetric] lp1_def by (simp only: Let_def if_False)
  also have "\<dots> = (\<lparr> tl_total = tot, tl_step_ppm = trim_learn lp p, tl_last_ppm = p,
       tl_last_steps = tot - tl_total lp, \<dots> = trim_loop.more lp \<rparr>,
     if tot = tl_total lp then None else Some tot)"
    unfolding Let_def d mag tot_def [symmetric] by (cases lp) (simp add: lp1)
  finally show ?thesis .
qed

subsection \<open>The closed loop settles\<close>

text \<open>
  The noiseless plant of the unit tests: an oscillator with a true offset \<open>o\<close> and a true step effect
  \<open>s\<close>, both in ppm, whose residual is measured over a million ticks.
\<close>

definition plant_residual :: "int \<Rightarrow> int \<Rightarrow> trim_loop \<Rightarrow> int" where
  "plant_residual o' s lp = o' - tl_total lp * s"

definition plant_window :: "int \<Rightarrow> int \<Rightarrow> trim_loop \<Rightarrow> trim_loop \<times> int option" where
  "plant_window o' s lp = trim_on_window lp (plant_residual o' s lp) 1000000"

lemma ppm_million: "\<bar>err\<bar> < 2 ^ 20 \<Longrightarrow> ppm err 1000000 = err"
  by (subst ppm_in_domain) (auto simp: signed_divide_int_def sgn_mult abs_mult sgn_if zabs_def)

lemma trim_observed_exact: "0 < \<bar>a\<bar> \<Longrightarrow> \<bar>a\<bar> \<le> 4 \<Longrightarrow> 0 < s \<Longrightarrow> trim_observed (a * s) a = s"
proof -
  assume a: "0 < \<bar>a\<bar>" "\<bar>a\<bar> \<le> 4" and s: "0 < s"
  have "a \<in> {-4, -3, -2, -1, 1, 2, 3, 4}" using a by auto
  then show ?thesis
    using s by (elim insertE) (simp_all add: trim_observed_def nat_mult_distrib)
qed

text \<open>The two phases of the loop: still on the seed with nothing applied, or with the gain known.\<close>

definition plant_seed :: "int \<Rightarrow> trim_loop \<Rightarrow> bool" where
  "plant_seed d lp \<longleftrightarrow> tl_total lp = 0 \<and> tl_step_ppm lp = d \<and> tl_last_steps lp = 0"

definition plant_known :: "int \<Rightarrow> int \<Rightarrow> trim_loop \<Rightarrow> bool" where
  "plant_known o' s lp \<longleftrightarrow> \<bar>tl_total lp\<bar> \<le> 15 \<and> step_band (tl_step_ppm lp) \<and>
     (if tl_last_steps lp = 0 then tl_step_ppm lp = s
      else \<bar>tl_last_steps lp\<bar> \<le> 4 \<and> tl_last_ppm lp = o' - (tl_total lp - tl_last_steps lp) * s)"

lemma plant_known_learn:
  assumes "plant_known o' s lp" "step_band s"
  shows "trim_learn lp (plant_residual o' s lp) = s"
proof -
  have "tl_last_ppm lp - plant_residual o' s lp = tl_last_steps lp * s" if "tl_last_steps lp \<noteq> 0"
    using assms(1) that by (simp add: plant_known_def plant_residual_def algebra_simps)
  moreover have "0 < s" using assms(2) by (simp add: step_band_def osc_const)
  ultimately show ?thesis
    using assms trim_observed_exact [of "tl_last_steps lp" s]
    by (auto simp: trim_learn_def plant_known_def split: if_splits)
qed

lemma round_steps_half:
  "0 < round_steps p s \<Longrightarrow> 2 * (round_steps p s * s) - s \<le> 2 * p"
  "round_steps p s < 0 \<Longrightarrow> 2 * p \<le> 2 * (round_steps p s * s) + s"
  by (auto simp: round_steps_def Let_def split: if_splits)

lemma round_steps_total:
  assumes "0 < s" "\<bar>o'\<bar> \<le> 15 * s" "\<bar>t\<bar> \<le> 15"
  shows "\<bar>t + round_steps (o' - t * s) s\<bar> \<le> 15"
proof -
  define m where "m = round_steps (o' - t * s) s"
  have up: "(2 * (t + m) - 1) * s \<le> 30 * s" if "0 < m"
  proof -
    have "2 * (m * s) - s \<le> 2 * (o' - t * s)" using round_steps_half(1) that unfolding m_def by blast
    then show ?thesis using assms(2) by (simp add: left_diff_distrib distrib_right abs_le_iff)
  qed
  have dn: "(- 2 * (t + m) - 1) * s \<le> 30 * s" if "m < 0"
  proof -
    have "2 * (o' - t * s) \<le> 2 * (m * s) + s" using round_steps_half(2) that unfolding m_def by blast
    then show ?thesis using assms(2) by (simp add: left_diff_distrib distrib_right abs_le_iff)
  qed
  consider "0 < m" | "m = 0" | "m < 0" by linarith
  then show ?thesis
  proof cases
    case 1
    then have "2 * (t + m) - 1 \<le> 30" using mult_right_le_imp_le [OF up] assms(1) by simp
    then show ?thesis using 1 assms(3) by (simp add: m_def [symmetric])
  next
    case 3
    then have "- 2 * (t + m) - 1 \<le> 30" using mult_right_le_imp_le [OF dn] assms(1) by simp
    then show ?thesis using 3 assms(3) by (simp add: m_def [symmetric])
  qed (use assms(3) in \<open>simp add: m_def [symmetric]\<close>)
qed

lemma clamp_total_id: "\<bar>x\<bar> \<le> 15 \<Longrightarrow> clamp_total x = x"
  by (auto simp: clamp_total_def osc_const)

lemma plant_residual_bound:
  assumes "step_band s" "\<bar>o'\<bar> \<le> 15 * s" "\<bar>tl_total lp\<bar> \<le> 15"
  shows "\<bar>plant_residual o' s lp\<bar> < 2 ^ 20" "\<bar>plant_residual o' s lp\<bar> \<le> 30 * s"
proof -
  have s: "0 < s" "s \<le> 4000" using assms(1) by (auto simp: step_band_def osc_const)
  have "\<bar>tl_total lp * s\<bar> \<le> 15 * s" using s assms(3) by (simp add: abs_mult mult_right_mono)
  then show "\<bar>plant_residual o' s lp\<bar> \<le> 30 * s" using assms(2) by (simp add: plant_residual_def)
  then show "\<bar>plant_residual o' s lp\<bar> < 2 ^ 20" using s by simp
qed

text \<open>A window with the gain known moves the total by the rounded residual, and keeps it known.\<close>

lemma plant_known_window:
  assumes "plant_known o' s lp" "step_band s" "\<bar>o'\<bar> \<le> 15 * s"
  defines "r \<equiv> plant_residual o' s lp"
  shows "plant_known o' s (fst (plant_window o' s lp))"
    "plant_residual o' s (fst (plant_window o' s lp)) = r - round_steps r s * s"
    "snd (plant_window o' s lp) = None \<longleftrightarrow> round_steps r s = 0"
proof -
  have s: "0 < s" using assms(2) by (simp add: step_band_def osc_const)
  have tot: "\<bar>tl_total lp\<bar> \<le> 15" and band: "step_band (tl_step_ppm lp)"
    using assms(1) by (auto simp: plant_known_def)
  have p: "ppm r 1000000 = r" unfolding r_def
    by (rule ppm_million [OF plant_residual_bound(1) [OF assms(2,3) tot]])
  have learn: "trim_learn lp r = s" unfolding r_def by (rule plant_known_learn [OF assms(1,2)])
  have "clamp_total (tl_total lp + round_steps r s) = tl_total lp + round_steps r s"
    using round_steps_total [OF s assms(3) tot] by (simp add: clamp_total_id r_def plant_residual_def)
  then have win: "plant_window o' s lp =
      (\<lparr> tl_total = tl_total lp + round_steps r s, tl_step_ppm = s, tl_last_ppm = r,
         tl_last_steps = round_steps r s, \<dots> = trim_loop.more lp \<rparr>,
       if round_steps r s = 0 then None else Some (tl_total lp + round_steps r s))"
    using trim_window_closed [OF _ band, of 1000000 r] by (simp add: plant_window_def r_def [symmetric] p learn)
  show "plant_known o' s (fst (plant_window o' s lp))"
    using win assms(2) round_steps_bound [of r s] round_steps_total [OF s assms(3) tot]
    by (auto simp: plant_known_def r_def plant_residual_def)
  show "plant_residual o' s (fst (plant_window o' s lp)) = r - round_steps r s * s"
    using win by (simp add: plant_residual_def r_def algebra_simps)
  show "snd (plant_window o' s lp) = None \<longleftrightarrow> round_steps r s = 0" using win by simp
qed

lemma round_steps_shrinks:
  assumes "0 < s" "2 * \<bar>r\<bar> \<le> s + 8 * s * int (Suc k)"
  shows "2 * \<bar>r - round_steps r s * s\<bar> \<le> s + 8 * s * int k"
proof -
  define K where "K = 8 * s * int k"
  have pos: "0 \<le> K" using assms(1) by (simp add: K_def)
  have "8 * s * int (Suc k) = K + 8 * s" by (simp add: K_def algebra_simps)
  then show ?thesis
    using assms pos unfolding K_def [symmetric] round_steps_def Let_def by (auto simp: abs_if split: if_splits)
qed

lemma round_steps_settled:
  assumes "0 < s" "2 * \<bar>r\<bar> \<le> s"
  shows "2 * \<bar>r - round_steps r s * s\<bar> \<le> s" "2 * \<bar>r\<bar> < s \<Longrightarrow> round_steps r s = 0"
  using assms by (auto simp: round_steps_def Let_def abs_if split: if_splits)

lemma plant_known_settles:
  assumes "step_band s" "\<bar>o'\<bar> \<le> 15 * s"
  shows "plant_known o' s lp \<Longrightarrow> 2 * \<bar>plant_residual o' s lp\<bar> \<le> s + 8 * s * int k \<Longrightarrow> k \<le> n \<Longrightarrow>
    let lp' = ((\<lambda>l. fst (plant_window o' s l)) ^^ n) lp
    in plant_known o' s lp' \<and> 2 * \<bar>plant_residual o' s lp'\<bar> \<le> s"
proof (induction n arbitrary: lp k)
  case 0
  then show ?case by simp
next
  case (Suc n)
  have s: "0 < s" using assms(1) by (simp add: step_band_def osc_const)
  let ?lp = "fst (plant_window o' s lp)"
  note win = plant_known_window [OF Suc.prems(1) assms]
  have "2 * \<bar>plant_residual o' s ?lp\<bar> \<le> s + 8 * s * int (k - 1)"
    using round_steps_shrinks [OF s, of _ "k - 1"] round_steps_settled(1) [OF s] Suc.prems(2)
    by (cases k) (simp_all add: win(2))
  then show ?case
    using Suc.IH [OF win(1), of "k - 1"] Suc.prems(3) by (simp add: funpow_Suc_right del: funpow.simps)
qed


lemma plant_seed_window:
  assumes "plant_seed d lp" "step_band d" "step_band s" "\<bar>o'\<bar> \<le> 15 * s"
  shows "if 2 * \<bar>o'\<bar> < d then plant_seed d (fst (plant_window o' s lp)) \<and> snd (plant_window o' s lp) = None
    else plant_known o' s (fst (plant_window o' s lp)) \<and>
         2 * \<bar>plant_residual o' s (fst (plant_window o' s lp))\<bar> \<le> s + 8 * s * 4"
proof -
  have lp: "tl_total lp = 0" "tl_step_ppm lp = d" "tl_last_steps lp = 0" using assms(1) by (auto simp: plant_seed_def)
  have s: "0 < s" using assms(3) by (simp add: step_band_def osc_const)
  have p: "ppm o' 1000000 = o'"
    using ppm_million plant_residual_bound(1) [OF assms(3,4), of lp] by (simp add: plant_residual_def lp)
  define m where "m = round_steps o' d"
  have mb: "\<bar>m\<bar> \<le> 4" by (simp add: m_def round_steps_bound)
  have sgn: "0 < m \<Longrightarrow> 0 < o'" "m < 0 \<Longrightarrow> o' < 0" "m = 0 \<longleftrightarrow> 2 * \<bar>o'\<bar> < d"
    using assms(2) by (auto simp: m_def round_steps_def step_band_def osc_const Let_def split: if_splits)
  have "clamp_total m = m" using mb by (simp add: clamp_total_id)
  then have win: "plant_window o' s lp =
      (\<lparr> tl_total = m, tl_step_ppm = d, tl_last_ppm = o', tl_last_steps = m, \<dots> = trim_loop.more lp \<rparr>,
       if m = 0 then None else Some m)"
    using trim_window_closed [of 1000000 lp o'] assms(2)
    by (simp add: plant_window_def plant_residual_def lp p trim_learn_def m_def [symmetric])
  have far: "2 * \<bar>o' - m * s\<bar> \<le> 33 * s" if "m \<noteq> 0"
  proof -
    define ms where "ms = m * s"
    have "\<bar>ms\<bar> \<le> 4 * s" using mb s by (simp add: ms_def abs_mult)
    moreover have "0 < ms \<and> 0 < o' \<or> ms < 0 \<and> o' < 0"
      using sgn(1,2) that s by (cases "0 < m") (auto simp: ms_def mult_less_0_iff)
    ultimately show ?thesis unfolding ms_def [symmetric] using assms(4) s by (auto simp: abs_if split: if_splits)
  qed
  show ?thesis
    using win sgn(3) far mb assms(2) by (auto simp: plant_seed_def plant_known_def plant_residual_def)
qed



subsection \<open>The CAL break train\<close>

definition cal_marks :: "u32 \<Rightarrow> clock_tracker \<Rightarrow> (u32 \<times> u16) list \<Rightarrow> clock_tracker" where
  "cal_marks tpu = foldl (\<lambda>ck (now, cursor). fst (on_cal_break ck now cursor tpu))"

text \<open>The error of every gap between consecutive marks, and that each mark rings a byte of its own.\<close>

fun cal_errs :: "u32 \<Rightarrow> u32 \<Rightarrow> (u32 \<times> u16) list \<Rightarrow> int list" where
  "cal_errs gap t [] = []"
| "cal_errs gap t ((now, cursor) # ms) = sint (now - t - gap) # cal_errs gap now ms"

fun cal_fresh :: "u16 \<Rightarrow> (u32 \<times> u16) list \<Rightarrow> bool" where
  "cal_fresh c [] \<longleftrightarrow> True"
| "cal_fresh c ((now, cursor) # ms) \<longleftrightarrow> cursor \<noteq> c \<and> cal_fresh cursor ms"

definition gated :: "u32 \<Rightarrow> int list \<Rightarrow> int list" where
  "gated gap errs = filter (\<lambda>e. in_gate e gap) errs"

lemma gated_simps [simp]:
  "gated gap [] = []"
  "gated gap (e # es) = (if in_gate e gap then e # gated gap es else gated gap es)"
  by (simp_all add: gated_def)

lemma wrap32_add: "wrap32 (wrap32 x + y) = wrap32 (x + y)"
  unfolding wrap32_def by (metis signed_take_bit_add signed_take_bit_signed_take_bit min.idem)

lemma wrap32_id: "- (2 ^ 31) \<le> x \<Longrightarrow> x < 2 ^ 31 \<Longrightarrow> wrap32 x = x"
  unfolding wrap32_def by (rule signed_take_bit_int_eq_self) simp_all

definition cal_finish :: "clock_tracker \<Rightarrow> cal_run \<Rightarrow> clock_tracker" where
  "cal_finish ck c =
     (let ck = ck\<lparr> ck_cal := None \<rparr>
      in if unat (cr_valid c) * 2 \<ge> unat (cr_total c)
         then ck\<lparr> ck_cadence_err := cr_err c, ck_cadence_span := cr_span c, ck_cal_ready := True \<rparr> else ck)"

lemma cal_marks_run:
  assumes "ck_pending_cal ck = None" "ck_cal ck = Some c" "length ms = unat (cr_gaps_left c)" "ms \<noteq> []"
    "cal_fresh (cr_cursor c) ms" "wrap32 (cr_err c) = cr_err c"
  shows "\<exists>c'. cal_marks tpu ck ms = cal_finish ck c' \<and> cr_total c' = cr_total c \<and>
    (let es = gated (cr_gap_ticks c) (cal_errs (cr_gap_ticks c) (cr_last_break c) ms)
     in cr_err c' = wrap32 (cr_err c + sum_list es) \<and>
        cr_valid c' = cr_valid c + of_nat (length es) \<and>
        cr_span c' = cr_span c + of_nat (length es) * cr_gap_ticks c)"
  using assms
proof (induction ms arbitrary: ck c)
  case Nil
  then show ?case by simp
next
  case (Cons m ms)
  obtain now cursor where m: "m = (now, cursor)" by fastforce
  define c1 where "c1 = cal_gap c now cursor"
  let ?e = "sint (now - cr_last_break c - cr_gap_ticks c)"
  have left: "cr_gaps_left c \<noteq> 0" using Cons.prems(3) by (auto simp: unat_eq_zero)
  have c1: "cr_gap_ticks c1 = cr_gap_ticks c" "cr_total c1 = cr_total c" "cr_last_break c1 = now"
    "cr_cursor c1 = cursor" "unat (cr_gaps_left c1) = unat (cr_gaps_left c) - 1"
    "wrap32 (cr_err c1) = cr_err c1"
    "cr_err c1 = (if in_gate ?e (cr_gap_ticks c) then wrap32 (cr_err c + ?e) else cr_err c)"
    "cr_valid c1 = (if in_gate ?e (cr_gap_ticks c) then cr_valid c + 1 else cr_valid c)"
    "cr_span c1 = (if in_gate ?e (cr_gap_ticks c) then cr_span c + cr_gap_ticks c else cr_span c)"
    using left Cons.prems(6) u8_pred [OF left] wrap32_add [of _ 0] by (simp_all add: c1_def cal_gap_def Let_def)
  have fresh: "cursor \<noteq> cr_cursor c" "cal_fresh cursor ms" using Cons.prems(5) by (simp_all add: m)
  have len: "length ms = unat (cr_gaps_left c1)" using Cons.prems(3) c1(5) by simp
  show ?case
  proof (cases "ms = []")
    case True
    then have "cr_gaps_left c1 = 0" using len by (simp add: unat_eq_zero)
    then have "cal_marks tpu ck (m # ms) = cal_finish ck c1"
      using Cons.prems(1,2) fresh True
      by (simp add: cal_marks_def m on_cal_break_def cal_finish_def c1_def [symmetric] Let_def)
    then show ?thesis using c1 True Cons.prems(6) by (intro exI [of _ c1]) (simp add: m Let_def)
  next
    case False
    then have "cr_gaps_left c1 \<noteq> 0" using len by (auto simp: unat_eq_zero)
    then have step: "cal_marks tpu ck (m # ms) = cal_marks tpu (ck\<lparr> ck_cal := Some c1 \<rparr>) ms"
      using Cons.prems(1,2) fresh
      by (simp add: cal_marks_def m on_cal_break_def c1_def [symmetric] Let_def)
    have fin: "cal_finish (ck\<lparr> ck_cal := Some c1 \<rparr>) c' = cal_finish ck c'" for c'
      by (simp add: cal_finish_def Let_def)
    let ?es = "gated (cr_gap_ticks c) (cal_errs (cr_gap_ticks c) now ms)"
    obtain c' where c': "cal_marks tpu (ck\<lparr> ck_cal := Some c1 \<rparr>) ms = cal_finish ck c'" "cr_total c' = cr_total c"
      "cr_err c' = wrap32 (cr_err c1 + sum_list ?es)" "cr_valid c' = cr_valid c1 + of_nat (length ?es)"
      "cr_span c' = cr_span c1 + of_nat (length ?es) * cr_gap_ticks c"
      using Cons.IH [of "ck\<lparr> ck_cal := Some c1 \<rparr>" c1, unfolded fin] Cons.prems(1) False len fresh(2) c1(1-6)
      by (auto simp: Let_def)
    have "wrap32 (wrap32 (cr_err c + ?e) + sum_list ?es) = wrap32 (cr_err c + (?e + sum_list ?es))"
      by (simp add: wrap32_add add.assoc)
    then show ?thesis
      unfolding step using c' c1(7-9)
      by (intro exI [of _ c']) (simp add: m Let_def algebra_simps)
  qed
qed

lemma in_gate_abs: "in_gate e gap \<Longrightarrow> 16 * \<bar>e\<bar> \<le> int (unat gap)"
proof -
  assume "in_gate e gap"
  then have "nat \<bar>e\<bar> \<le> unat gap div 16" by (simp add: in_gate_def osc_const drop_bit_eq_div unat_div)
  then have "16 * nat \<bar>e\<bar> \<le> unat gap" by simp
  then show ?thesis by linarith
qed

lemma gated_sum: "16 * \<bar>sum_list (gated gap es)\<bar> \<le> int (length (gated gap es)) * int (unat gap)"
proof (induction es)
  case (Cons e es)
  show ?case
  proof (cases "in_gate e gap")
    case True
    have "16 * \<bar>e + sum_list (gated gap es)\<bar> \<le> 16 * \<bar>e\<bar> + 16 * \<bar>sum_list (gated gap es)\<bar>"
      using abs_triangle_ineq [of e "sum_list (gated gap es)"] by simp
    then show ?thesis using in_gate_abs [OF True] Cons True by (simp add: distrib_right)
  qed (use Cons in simp)
qed simp

lemma length_cal_errs [simp]: "length (cal_errs gap t ms) = length ms"
  by (induction gap t ms rule: cal_errs.induct) auto

lemma length_gated: "length (gated gap es) \<le> length es"
  by (simp add: gated_def)

text \<open>
  C40. A CAL break train measures the local clock against the host's ruler. After an announce of \<open>gaps\<close>
  gaps of \<open>gap_us\<close>, the train of \<open>gaps + 1\<close> breaks, each with a byte of its own in the ring, ends with no
  train active; when at least half of the gaps passed the gate the pending measurement is exactly the
  sum of the accepted gap errors over the accepted nominal span, with no wrap-around, and otherwise no
  measurement is made.
\<close>

theorem cal_train_measures:
  fixes t0 :: u32
  assumes "ck_pending_cal ck = Some (gap_us, gaps)" "gaps \<noteq> 0" "length ms = unat gaps" "cal_fresh c0 ms"
    "unat gaps * unat (ucast gap_us * tpu :: u32) < 2 ^ 32"
  defines "gap \<equiv> (ucast gap_us * tpu :: u32)"
  defines "ck' \<equiv> cal_marks tpu ck ((t0, c0) # ms)"
  defines "es \<equiv> gated gap (cal_errs gap t0 ms)"
  shows "\<not> cal_active ck' \<and>
    (if unat gaps \<le> 2 * length es
     then ck_cal_ready ck' \<and> ck_cadence_err ck' = sum_list es \<and> unat (ck_cadence_span ck') = length es * unat gap
     else ck_cal_ready ck' = ck_cal_ready ck \<and> ck_cadence_err ck' = ck_cadence_err ck \<and>
          ck_cadence_span ck' = ck_cadence_span ck)"
proof -
  define c where "c = \<lparr> cr_gap_ticks = gap, cr_gaps_left = gaps, cr_total = gaps, cr_valid = 0,
    cr_last_break = t0, cr_cursor = c0, cr_err = 0, cr_span = 0 \<rparr>"
  define ck1 where "ck1 = (clock_restart (ck\<lparr> ck_pending_cal := None \<rparr>))\<lparr> ck_cal := Some c \<rparr>"
  have ck': "ck' = cal_marks tpu ck1 ms"
    using assms(1) by (simp add: ck'_def cal_marks_def on_cal_break_def ck1_def c_def gap_def Let_def)
  have ne: "ms \<noteq> []" using assms(2,3) by (auto simp: unat_eq_zero)
  obtain c' where c': "ck' = cal_finish ck1 c'" "cr_total c' = gaps" "cr_err c' = wrap32 (sum_list es)"
    "cr_valid c' = of_nat (length es)" "cr_span c' = of_nat (length es) * gap"
    using cal_marks_run [of ck1 c ms tpu] assms(3,4) ne
    by (auto simp: ck' ck1_def c_def clock_restart_def es_def Let_def wrap32_def)
  have le: "length es \<le> unat gaps" using length_gated [of gap "cal_errs gap t0 ms"] assms(3) by (simp add: es_def)
  have small: "length es * unat gap < 2 ^ 32"
    by (rule le_less_trans [OF mult_le_mono1 [OF le]]) (use assms(5) in \<open>simp add: gap_def\<close>)
  then have "int (length es) * int (unat gap) < 2 ^ 32"
    by (metis of_nat_less_iff of_nat_mult of_nat_numeral of_nat_power)
  then have "wrap32 (sum_list es) = sum_list es"
    using gated_sum [of gap "cal_errs gap t0 ms"] by (intro wrap32_id) (auto simp: es_def)
  moreover have "unat (of_nat (length es) :: u8) = length es"
    using le unat_less_256 [of gaps] by (intro unat_of_nat8) linarith
  moreover have "unat (of_nat (length es) * gap) = length es * unat gap"
    using small unat_of_nat32 [of "length es * unat gap"] by simp
  ultimately show ?thesis
    using c' by (auto simp: cal_finish_def cal_active_def ck1_def clock_restart_def Let_def)
qed

theorem cal_train_measures_witness:
  "let ck = (clock_new 2500)\<lparr> ck_pending_cal := Some (1000, 3) \<rparr>;
       ck' = cal_marks 48 ck [(100, 0), (48110, 1), (96120, 2), (150000, 3)]
   in ck_cal_ready ck' \<and> ck_cadence_err ck' = 20 \<and> unat (ck_cadence_span ck') = 96000"
  using cal_train_measures [of "(clock_new 2500)\<lparr> ck_pending_cal := Some (1000, 3) \<rparr>" 1000 3
      "[(48110, 1), (96120, 2), (150000, 3)]" 0 48 100]
  by (simp add: in_gate_def osc_const)


subsection \<open>The counters never overflow\<close>

text \<open>
  The \<open>u8\<close> increments of the tracker are plain additions: they stay in range because the baseline
  closes at 32 pairs, a window at 128, and a train counts at most one valid gap per announced gap.
\<close>

definition clock_ok :: "clock_tracker \<Rightarrow> bool" where
  "clock_ok ck \<longleftrightarrow>
     (ck_drift_base ck = None \<longrightarrow> ck_drift_base_n ck < DRIFT_BASELINE_PAIRS) \<and>
     ck_drift_win_n ck < DRIFT_WINDOW_PAIRS \<and>
     (\<forall>c. ck_cal ck = Some c \<longrightarrow> unat (cr_valid c) + unat (cr_gaps_left c) \<le> unat (cr_total c))"

lemma clock_ok_new: "clock_ok (clock_new ppm_nominal)"
  by (simp add: clock_ok_def clock_new_def osc_const)

lemma clock_ok_restart: "clock_ok ck \<Longrightarrow> clock_ok (clock_restart ck)"
  by (simp add: clock_ok_def clock_restart_def osc_const)

lemma clock_ok_abandon: "clock_ok ck \<Longrightarrow> clock_ok (abandon_cal ck)"
  by (simp add: clock_ok_def abandon_cal_def)

lemma clock_ok_note: "clock_ok ck \<Longrightarrow> clock_ok (note_verified ck fp silent)"
  by (simp add: clock_ok_def note_verified_def)

lemma clock_ok_drift_pair: "clock_ok ck \<Longrightarrow> clock_ok (drift_pair ck err span)"
  by (auto simp: clock_ok_def drift_pair_def osc_const Let_def word_less_nat_alt word_le_nat_alt
      unat_word_ariths split: option.splits)

lemma clock_ok_drift_break: "clock_ok ck \<Longrightarrow> clock_ok (on_drift_break ck now cursor len tpb)"
proof -
  assume ok: "clock_ok ck"
  define ck1 where "ck1 = ck\<lparr> ck_drift_prev := Some (now, cursor), ck_drift_seen := VsNone \<rparr>"
  have "clock_ok ck1" using ok by (simp add: ck1_def clock_ok_def)
  moreover from this have "clock_ok (drift_pair ck1 err span)" for err span by (rule clock_ok_drift_pair)
  ultimately show ?thesis
    unfolding on_drift_break_def Let_def ck1_def [symmetric]
    by (simp split: option.split verified_span.split bool.split)
qed

lemma cal_gap_counts:
  assumes "unat (cr_valid c) + unat (cr_gaps_left c) \<le> unat (cr_total c)" "cr_gaps_left c \<noteq> 0"
  shows "unat (cr_valid (cal_gap c now cursor)) + unat (cr_gaps_left (cal_gap c now cursor)) \<le> unat (cr_total c)"
    "cr_total (cal_gap c now cursor) = cr_total c"
proof -
  have left: "unat (cr_gaps_left c - 1) = unat (cr_gaps_left c) - 1" "0 < unat (cr_gaps_left c)"
    using u8_pred assms(2) by (auto simp: unat_gt_0)
  have "unat (cr_valid c + 1) = unat (cr_valid c) + 1"
    using assms(1) left(2) unat_less_256 [of "cr_total c"] by (simp add: unat_word_ariths)
  then show "unat (cr_valid (cal_gap c now cursor)) + unat (cr_gaps_left (cal_gap c now cursor)) \<le> unat (cr_total c)"
    using assms left by (auto simp: cal_gap_def Let_def)
  show "cr_total (cal_gap c now cursor) = cr_total c" by (simp add: cal_gap_def Let_def)
qed

end
