(* ===== verification/Servo_Bus.thy ===== *)
theory Servo_Bus
  imports Bus_Tx Bus_Decode Bus_Clock Sec_Session Core_Port
begin

text \<open>
  The transport composite of the servo: \<open>drivers/src/bus/servo_bus.rs\<close> and its \<open>route\<close>, \<open>security\<close>, \<open>crc\<close>
  and \<open>reply\<close> modules, over the framer, the chain, the transmit engine and the clock tracker of the
  sibling theories, the security context and the dispatcher.

  The providers are parameters (\<open>bus_env\<close>): the CRC engine of \<open>Bus_Tx\<close>, and the tick counter, the ring
  cursor and the ring bytes as functions of a sample index that the state carries and that every
  read of the counter or the cursor advances. The ring bytes a handler looks at are those of the
  current sample. The tick-compare and the baud register are the last value written. \<open>None\<close> is a
  panic (a slice or index out of range, an unsigned subtraction below zero, or an unimplemented
  management operation of the dispatcher). The probes of \<open>bench.rs\<close> only count and are left out.
\<close>

subsection \<open>Providers and state\<close>

record 'c bus_env =
  be_crc :: "'c crc_ops"
  be_now :: "nat \<Rightarrow> u32"
  be_cursor :: "nat \<Rightarrow> u16"
  be_ring :: "nat \<Rightarrow> bytes"
  be_ticks_per_us :: u32
  be_trim_step_ppm :: u32

record 'd dispatch_port =
  dp_dispatch :: "'d \<Rightarrow> request \<Rightarrow> request_ctx \<Rightarrow> ('d \<times> reply_event list \<times> dispatched) option"
  dp_commit :: "'d \<Rightarrow> 'd \<times> reply_event list"
  dp_revert :: "'d \<Rightarrow> 'd"

definition core_port :: "vec_ops \<Rightarrow> 's dispatcher dispatch_port" where
  "core_port V = \<lparr> dp_dispatch = dispatch V, dp_commit = disp_commit, dp_revert = disp_revert \<rparr>"

definition BYTE_TIME_NUMERATOR :: u32 where [osc_const]: "BYTE_TIME_NUMERATOR = 10000000"
definition FRAME_ALLOWANCE_SLACK_BYTES :: u32 where [osc_const]: "FRAME_ALLOWANCE_SLACK_BYTES = 8"
definition DEADLINE_DRAIN_MAX :: nat where [osc_const]: "DEADLINE_DRAIN_MAX = 8"
definition FRAMES_PER_WAKE :: nat where [osc_const]: "FRAMES_PER_WAKE = 16"

record pending_frame =
  pf_anchor :: u16
  pf_footprint :: u16
  pf_packet_end :: u32
  pf_slot :: u8
  pf_staged :: bool
  pf_table :: bool

record 'c servo_bus =
  sb_framer :: framer
  sb_chain :: chain
  sb_tx :: tx_engine
  sb_crc :: 'c
  sb_compare :: "u32 option"
  sb_baud :: baud_rate
  sb_id :: u8
  sb_rate :: baud_rate
  sb_tpb :: u32
  sb_response_deadline_us :: u16
  sb_pending_id :: "u8 option"
  sb_pending_baud :: "baud_rate option"
  sb_pending_reboot :: "boot_mode option"
  sb_crc_fails :: u32
  sb_pending :: "pending_frame option"
  sb_framer_at :: "u32 option"
  sb_chain_at :: "u32 option"
  sb_clock :: clock_tracker
  sb_security :: security_context
  sb_sample :: nat

definition read_now :: "('c, 'e) bus_env_scheme \<Rightarrow> 'c servo_bus \<Rightarrow> u32 \<times> 'c servo_bus" where
  "read_now E s = (be_now E (sb_sample s), s\<lparr> sb_sample := sb_sample s + 1 \<rparr>)"

definition read_cursor :: "('c, 'e) bus_env_scheme \<Rightarrow> 'c servo_bus \<Rightarrow> u16 \<times> 'c servo_bus" where
  "read_cursor E s = (be_cursor E (sb_sample s), s\<lparr> sb_sample := sb_sample s + 1 \<rparr>)"

definition ring_of :: "('c, 'e) bus_env_scheme \<Rightarrow> 'c servo_bus \<Rightarrow> bytes" where
  "ring_of E s = be_ring E (sb_sample s)"

definition tpb_for :: "('c, 'e) bus_env_scheme \<Rightarrow> baud_rate \<Rightarrow> u32" where
  "tpb_for E rate = be_ticks_per_us E * BYTE_TIME_NUMERATOR div baud_as_hz rate"

definition due :: "u32 \<Rightarrow> u32 option \<Rightarrow> bool" where
  "due now at = (case at of Some t \<Rightarrow> tick_reached now t | None \<Rightarrow> False)"

definition bus_new :: "('c, 'e) bus_env_scheme \<Rightarrow> 'c \<Rightarrow> u8 \<Rightarrow> baud_rate \<Rightarrow> u16 \<Rightarrow> 'c servo_bus" where
  "bus_new E crc i rate response_deadline_us =
     \<lparr> sb_framer = framer_new, sb_chain = chain_new, sb_tx = tx_new, sb_crc = crc, sb_compare = None,
       sb_baud = rate, sb_id = i, sb_rate = rate, sb_tpb = tpb_for E rate,
       sb_response_deadline_us = response_deadline_us, sb_pending_id = None, sb_pending_baud = None,
       sb_pending_reboot = None, sb_crc_fails = 0, sb_pending = None, sb_framer_at = None,
       sb_chain_at = None, sb_clock = clock_new (be_trim_step_ppm E), sb_security = ctx_new policy_OPEN,
       sb_sample = 0 \<rparr>"

definition install_session :: "'c servo_bus \<Rightarrow> session_keys \<Rightarrow> 'c servo_bus" where
  "install_session s keys = s\<lparr> sb_security := ctx_install (sb_security s) keys \<rparr>"

definition set_policy :: "'c servo_bus \<Rightarrow> policy \<Rightarrow> 'c servo_bus" where
  "set_policy s p = s\<lparr> sb_security := ctx_set_policy (sb_security s) p \<rparr>"

definition link_diag :: "'c servo_bus \<Rightarrow> u32 \<times> u32" where
  "link_diag s = (sb_crc_fails s, fm_drops (sb_framer s))"

definition security_diag :: "'c servo_bus \<Rightarrow> u32 \<times> u32" where
  "security_diag s = (sc_auth_fail_count (sb_security s), sc_replay_drop_count (sb_security s))"

definition reply_gap :: "('c, 'e) bus_env_scheme \<Rightarrow> u32" where
  "reply_gap E = REPLY_GAP_US * be_ticks_per_us E"

definition reclaim :: "('c, 'e) bus_env_scheme \<Rightarrow> 'c servo_bus \<Rightarrow> u32" where
  "reclaim E s = ucast (sb_response_deadline_us s) * be_ticks_per_us E"

definition frame_allowance :: "'c servo_bus \<Rightarrow> u32" where
  "frame_allowance s = (of_nat FRAME_MAX + FRAME_ALLOWANCE_SLACK_BYTES) * sb_tpb s"

definition arm_deadline :: "('c, 'e) bus_env_scheme \<Rightarrow> 'c servo_bus \<Rightarrow> 'c servo_bus" where
  "arm_deadline E s0 =
     (let (now, s) = read_now E s0;
          remaining = (\<lambda>at. if tick_reached now at then 0 else at - now)
      in s\<lparr> sb_compare :=
             (case (sb_framer_at s, sb_chain_at s) of
                (Some a, Some b) \<Rightarrow> Some (if remaining a \<le> remaining b then a else b)
              | (Some a, None) \<Rightarrow> Some a
              | (None, b) \<Rightarrow> b) \<rparr>)"

subsection \<open>The reply surface\<close>

definition slot_key_of :: "u16 \<Rightarrow> u8" where
  "slot_key_of crc = ucast (crc XOR drop_bit 8 crc)"

definition slot_key :: "bytes \<Rightarrow> u8" where
  "slot_key payload = slot_key_of (osc_crc payload)"

text \<open>A call on the reply handle; the flag says whether the handle has staged a reply.\<close>

definition handle_staged ::
  "bool \<Rightarrow> u8 \<Rightarrow> bool \<Rightarrow> 'c servo_bus \<Rightarrow> tx_engine \<times> 'c \<times> (send_error + unit) \<Rightarrow> 'c servo_bus \<times> bool" where
  "handle_staged tolerant key staged s r =
     (case r of
        (t, c, Inr _) \<Rightarrow> (s\<lparr> sb_tx := (if tolerant then tx_mark_collision_tolerant t key else t), sb_crc := c \<rparr>, True)
      | (t, c, Inl _) \<Rightarrow> (s\<lparr> sb_tx := t, sb_crc := c \<rparr>, staged))"

fun handle_event ::
  "('c, 'e) bus_env_scheme \<Rightarrow> bool \<Rightarrow> 'c servo_bus \<times> bool \<Rightarrow> reply_event \<Rightarrow> ('c servo_bus \<times> bool) option" where
  "handle_event E tolerant (s, staged) (EvStatus result al data) =
     map_option (handle_staged tolerant (slot_key data) staged s)
       (tx_stage (be_crc E) (sb_tx s) (sb_crc s) (sb_id s) result al data)"
| "handle_event E tolerant (s, staged) (EvGather result al spans) =
     map_option (handle_staged tolerant (slot_key_of (foldl osc_crc_continue 0 spans)) staged s)
       (tx_stage_gather (be_crc E) (sb_tx s) (sb_crc s) (sb_id s) result al spans)"
| "handle_event E tolerant (s, staged) (EvStageId i) = Some (s\<lparr> sb_pending_id := Some i \<rparr>, staged)"
| "handle_event E tolerant (s, staged) (EvSetId i) = Some (s\<lparr> sb_id := i \<rparr>, staged)"
| "handle_event E tolerant (s, staged) (EvStageBaud b) = Some (s\<lparr> sb_pending_baud := Some b \<rparr>, staged)"
| "handle_event E tolerant (s, staged) (EvSetResponseDeadline us) = Some (s\<lparr> sb_response_deadline_us := us \<rparr>, staged)"
| "handle_event E tolerant (s, staged) (EvStageReboot m) = Some (s\<lparr> sb_pending_reboot := Some m \<rparr>, staged)"
| "handle_event E tolerant (s, staged) (EvBeginClockCal gap_us gaps) =
     Some (s\<lparr> sb_clock := (sb_clock s)\<lparr> ck_pending_cal := Some (gap_us, gaps) \<rparr> \<rparr>, staged)"

fun handle_events ::
  "('c, 'e) bus_env_scheme \<Rightarrow> bool \<Rightarrow> 'c servo_bus \<times> bool \<Rightarrow> reply_event list \<Rightarrow> ('c servo_bus \<times> bool) option" where
  "handle_events E tolerant sb [] = Some sb"
| "handle_events E tolerant sb (e # es) = do { sb' \<leftarrow> handle_event E tolerant sb e; handle_events E tolerant sb' es }"

subsection \<open>The receive checksum\<close>

definition crc_feed :: "'c crc_ops \<Rightarrow> bytes \<Rightarrow> 'c \<Rightarrow> u16 \<Rightarrow> u16 \<Rightarrow> 'c option" where
  "crc_feed C ring c anchor fp =
     (let len = length ring; a = unat anchor; start = a + a mod 2
      in if a + unat fp < start + 2 then None
         else let fin = a + unat fp - 2;
                  bulk_end = fin - (fin - start) mod 2;
                  c = ce_reset C c
              in if bulk_end \<le> len
                 then do { x \<leftarrow> slice_opt ring start bulk_end; Some (ce_feed C c x) }
                 else do { x \<leftarrow> slice_opt ring start len;
                           y \<leftarrow> slice_opt ring 0 (bulk_end - len);
                           Some (ce_feed C (ce_feed C c x) y) })"

definition crc_tail :: "bytes \<Rightarrow> u16 \<Rightarrow> u16 \<Rightarrow> u8 option option" where
  "crc_tail ring anchor fp =
     (let a = unat anchor; start = a + a mod 2
      in if a + unat fp < start + 2 then None
         else let fin = a + unat fp - 2
              in if (fin - start) mod 2 = 1 then map_option Some (nth_opt ring ((fin - 1) mod length ring))
                 else Some None)"

definition crc_verify :: "'c crc_ops \<Rightarrow> bytes \<Rightarrow> 'c \<Rightarrow> u16 \<Rightarrow> u16 \<Rightarrow> ('c \<times> bool) option" where
  "crc_verify C ring c anchor fp =
     (let len = length ring; covered = unat fp - 2; fin = unat anchor + covered
      in do { lo \<leftarrow> nth_opt ring (fin mod len);
              hi \<leftarrow> nth_opt ring ((fin + 1) mod len);
              tail \<leftarrow> crc_tail ring anchor fp;
              Some (case crc_poll C (SPIN_PER_BYTE * covered) c of
                      (c', Some v) \<Rightarrow>
                        (c', (case tail of Some b \<Rightarrow> osc_crc_continue v [b] | None \<Rightarrow> v) = le16 lo hi)
                    | (c', None) \<Rightarrow> (c', False)) })"

definition crc_ok :: "'c crc_ops \<Rightarrow> bytes \<Rightarrow> 'c \<Rightarrow> u16 \<Rightarrow> u16 \<Rightarrow> ('c \<times> bool) option" where
  "crc_ok C ring c anchor fp =
     (if ring = [] \<or> unat fp < 2 then Some (c, False)
      else do { c' \<leftarrow> crc_feed C ring c anchor fp; crc_verify C ring c' anchor fp })"

definition ring_inst :: "bytes \<Rightarrow> u16 \<Rightarrow> inst option" where
  "ring_inst ring anchor = nth_opt ring ((unat anchor + 3) mod length ring)"

subsection \<open>The message plane\<close>

definition AUTH_SPAN_MAX :: nat where [osc_const]: "AUTH_SPAN_MAX = 96"

definition covered_span :: "u16 \<Rightarrow> u16 \<Rightarrow> nat \<Rightarrow> nat \<times> nat" where
  "covered_span anchor fp ring_len = ((unat anchor + 1) mod ring_len, unat fp - 3)"

definition security_fold :: "bytes \<Rightarrow> security_context \<Rightarrow> u16 \<Rightarrow> u16 \<Rightarrow> security_context option" where
  "security_fold ring sec anchor fp =
     do { inst \<leftarrow> ring_inst ring anchor;
          if \<not> folds_into_stream inst then Some sec
          else let (start, covered) = covered_span anchor fp (length ring);
                   fin = start + covered
               in if fin \<le> length ring
                  then do { x \<leftarrow> slice_opt ring start fin; Some (ctx_fold sec inst x []) }
                  else do { x \<leftarrow> slice_opt ring start (length ring);
                            y \<leftarrow> slice_opt ring 0 (fin - length ring);
                            Some (ctx_fold sec inst x y) } }"

definition auth_verify :: "bytes \<Rightarrow> security_context \<Rightarrow> u16 \<Rightarrow> u16 \<Rightarrow> (security_context \<times> bool) option" where
  "auth_verify ring sec anchor fp =
     do { inst \<leftarrow> ring_inst ring anchor;
          let (start, covered) = covered_span anchor fp (length ring);
          b \<leftarrow> nth_opt ring start;
          let broadcast = (b = Id_BROADCAST);
          if covered > AUTH_SPAN_MAX
          then Some (sec, \<not> requires_tag (sc_policy sec) inst \<and> \<not> inst_authenticated inst)
          else do {
            buf \<leftarrow> those (map (\<lambda>i. nth_opt ring ((start + i) mod length ring)) [0..<covered]);
            let (sec, verdict) = ctx_verify sec inst broadcast buf;
            let sec = (if inst_opcode inst = Some OpCommit then ctx_close_cycle sec else sec);
            Some (sec, verdict_is_pass verdict) } }"

subsection \<open>The spine\<close>

function (sequential) route_chain :: "('c, 'e) bus_env_scheme \<Rightarrow> 'c servo_bus \<Rightarrow> chain_out \<Rightarrow> 'c servo_bus option" where
  "route_chain E s ChNone = Some s"
| "route_chain E s (ChWait t) =
     (let (now, s) = read_now E s
      in if \<not> tick_reached now t then Some (s\<lparr> sb_chain_at := Some t \<rparr>)
         else let (ch, out) = chain_on_deadline (sb_chain s) now
              in route_chain E (s\<lparr> sb_chain := ch \<rparr>) out)"
| "route_chain E s (ChTrigger predecessor_silent) =
     do { (t, c) \<leftarrow> tx_trigger (be_crc E) (sb_tx s) (sb_crc s)
                     (if predecessor_silent then Some RcPredecessorSilent else None);
          Some (s\<lparr> sb_tx := t, sb_crc := c \<rparr>) }"
  by pat_completeness auto

text \<open>The loop ends: an expired wait either fires, or counts one predecessor off.\<close>

definition chain_rank :: "chain \<Rightarrow> chain_out \<Rightarrow> nat" where
  "chain_rank c out =
     (case out of ChWait _ \<Rightarrow> (case ch_state c of ChWaiting n _ \<Rightarrow> 1 + unat n | _ \<Rightarrow> 1) | _ \<Rightarrow> 0)"

lemma chain_on_deadline_rank:
  assumes "chain_on_deadline c now = (c', out)"
  shows "chain_rank c' out < chain_rank c (ChWait t)"
proof (cases "ch_state c")
  case (ChWaiting n silent)
  show ?thesis
  proof (cases "saturating_sub8 n 1 = 0")
    case False
    then have "n \<noteq> 0" by (auto simp: saturating_sub8_def u8_ge_1)
    then have "unat (saturating_sub8 n 1) < unat n" using u8_pred [of n] by (simp add: saturating_sub8_def u8_ge_1 unat_gt_0)
    then show ?thesis using assms ChWaiting False by (auto simp: chain_on_deadline_def chain_rank_def Let_def)
  qed (use assms in \<open>auto simp: ChWaiting chain_on_deadline_def chain_rank_def\<close>)
qed (use assms in \<open>auto simp: chain_on_deadline_def chain_rank_def\<close>)

termination route_chain
  by (relation "measure (\<lambda>(E, s, out). chain_rank (sb_chain s) out)")
    (auto simp: read_now_def intro: chain_on_deadline_rank)

definition newest_is_break_byte :: "bytes \<Rightarrow> u16 \<Rightarrow> bool option" where
  "newest_is_break_byte ring cursor =
     (let len = length ring
      in if len = 0 then Some False
         else map_option (\<lambda>b. b = 0) (nth_opt ring (ring_wrap (unat cursor + len - 1) len)))"

definition silent_shape :: "inst \<Rightarrow> u8 \<Rightarrow> bool" where
  "silent_shape inst i =
     (case inst_opcode inst of
        Some OpGwrite \<Rightarrow> True
      | Some OpWrite \<Rightarrow> inst_noreply inst \<or> i = Id_BROADCAST
      | Some OpCommit \<Rightarrow> inst_noreply inst \<or> i = Id_BROADCAST
      | _ \<Rightarrow> False)"

definition drift_note_verified :: "('c, 'e) bus_env_scheme \<Rightarrow> 'c servo_bus \<Rightarrow> u16 \<Rightarrow> u16 \<Rightarrow> 'c servo_bus option" where
  "drift_note_verified E s anchor fp =
     (if \<not> pair_open (sb_clock s) then Some (s\<lparr> sb_clock := note_verified (sb_clock s) fp False \<rparr>)
      else let ring = ring_of E s
           in do { inst \<leftarrow> ring_inst ring anchor;
                   i \<leftarrow> nth_opt ring (ring_wrap (unat anchor + 1) (length ring));
                   Some (s\<lparr> sb_clock := note_verified (sb_clock s) fp (silent_shape inst i) \<rparr>) })"

definition verdict_first_inst :: "inst \<Rightarrow> bool" where
  "verdict_first_inst inst =
     (case inst_opcode inst of
        Some OpPing \<Rightarrow> False | Some OpRead \<Rightarrow> False | Some OpGread \<Rightarrow> False
      | Some OpWrite \<Rightarrow> False | Some OpGwrite \<Rightarrow> False | _ \<Rightarrow> True)"

definition drop_staged :: "'c servo_bus \<Rightarrow> 'c servo_bus" where
  "drop_staged s =
     (let s = (if tx_staged (sb_tx s) then s\<lparr> sb_tx := tx_abort (sb_tx s) \<rparr> else s)
      in s\<lparr> sb_chain := chain_reset (sb_chain s), sb_chain_at := None \<rparr>)"

definition sequence_reply :: "('c, 'e) bus_env_scheme \<Rightarrow> 'c servo_bus \<Rightarrow> u8 \<Rightarrow> u32 \<Rightarrow> 'c servo_bus option" where
  "sequence_reply E s slot packet_end =
     (let (gap, s) =
            (case tx_slot_key (sb_tx s) of
               Some key \<Rightarrow>
                 let (now, s) = read_now E s;
                     draw = (key XOR ucast now) AND (ENUM_REPLY_SLOTS - 1)
                 in (reply_gap E + ucast draw * sb_tpb s, s)
             | None \<Rightarrow> (reply_gap E, s));
          (ch, out) = chain_on_reply_staged (sb_chain s) slot packet_end gap (reclaim E s) (frame_allowance s)
      in route_chain E (s\<lparr> sb_chain := ch \<rparr>) out)"

text \<open>\<open>dispatch_decoded\<close> with the dispatch port's \<open>dispatch\<close>, the only function it is called with.\<close>

definition is_enumerate :: "request \<Rightarrow> bool" where
  "is_enumerate req = (case req of ReqEnumerate _ _ \<Rightarrow> True | _ \<Rightarrow> False)"

definition dispatch_decoded ::
  "('c, 'e) bus_env_scheme \<Rightarrow> 'd dispatch_port \<Rightarrow> 'c servo_bus \<Rightarrow> 'd \<Rightarrow> u16 \<Rightarrow> u16 \<Rightarrow>
     ('c servo_bus \<times> 'd \<times> (bool \<times> u8 \<times> dispatched) option) option" where
  "dispatch_decoded E D s d anchor fp =
     do { frame \<leftarrow> frame_view (ring_of E s) anchor fp;
          (case decode frame (sb_id s) of
             DecOwn req ctx slot \<Rightarrow>
               do { (d', evs, out) \<leftarrow> dp_dispatch D d req ctx;
                    (s', staged) \<leftarrow> handle_events E (is_enumerate req) (s, False) evs;
                    Some (s', d', Some (staged, slot, out)) }
           | _ \<Rightarrow> Some (s, d, None)) }"

text \<open>A commit of the staged table effect, with its hooks on a handle of its own.\<close>

definition commit_effect ::
  "('c, 'e) bus_env_scheme \<Rightarrow> 'd dispatch_port \<Rightarrow> 'c servo_bus \<Rightarrow> 'd \<Rightarrow> ('c servo_bus \<times> 'd) option" where
  "commit_effect E D s d =
     (let (d', evs) = dp_commit D d
      in do { (s', _) \<leftarrow> handle_events E False (s, False) evs; Some (s', d') })"

text \<open>The end of both verdict paths: commit the table effect, then sequence the reply if one is staged.\<close>

definition finish_frame ::
  "('c, 'e) bus_env_scheme \<Rightarrow> 'd dispatch_port \<Rightarrow> 'c servo_bus \<Rightarrow> 'd \<Rightarrow> bool \<Rightarrow> bool \<Rightarrow> u8 \<Rightarrow> u32 \<Rightarrow> ('c servo_bus \<times> 'd) option" where
  "finish_frame E D s d table staged slot e =
     do { (s, d) \<leftarrow> (if table then commit_effect E D s d else Some (s, d));
          if staged \<and> tx_staged (sb_tx s)
          then map_option (\<lambda>s. (s, d)) (sequence_reply E s slot e) else Some (s, d) }"

definition count_crc_fail :: "'c servo_bus \<Rightarrow> 'c servo_bus" where
  "count_crc_fail s = (if \<not> fm_hunting (sb_framer s) then s\<lparr> sb_crc_fails := sb_crc_fails s + 1 \<rparr> else s)"

definition reject_frame :: "('c, 'e) bus_env_scheme \<Rightarrow> 'c servo_bus \<Rightarrow> u16 \<Rightarrow> 'c servo_bus" where
  "reject_frame E s anchor =
     (let s = count_crc_fail s
      in s\<lparr> sb_framer := framer_on_frame_rejected (sb_framer s) anchor (length (ring_of E s)),
            sb_security := ctx_rollback_stream (sb_security s) \<rparr>)"

definition refuse_frame :: "'c servo_bus \<Rightarrow> 'c servo_bus" where
  "refuse_frame s =
     s\<lparr> sb_security := ctx_rollback_stream (sb_security s), sb_framer := framer_on_frame_verified (sb_framer s) \<rparr>"

definition verify ::
  "('c, 'e) bus_env_scheme \<Rightarrow> 'd dispatch_port \<Rightarrow> 'c servo_bus \<Rightarrow> 'd \<Rightarrow> pending_frame \<Rightarrow> ('c servo_bus \<times> 'd) option" where
  "verify E D s d p =
     do { (c, crc) \<leftarrow> crc_verify (be_crc E) (ring_of E s) (sb_crc s) (pf_anchor p) (pf_footprint p);
          let s = s\<lparr> sb_crc := c \<rparr>;
          if \<not> crc
          then Some (reject_frame E (drop_staged s) (pf_anchor p), if pf_table p then dp_revert D d else d)
          else do {
            (sec, auth) \<leftarrow> auth_verify (ring_of E s) (sb_security s) (pf_anchor p) (pf_footprint p);
            let s = s\<lparr> sb_security := sec \<rparr>;
            if \<not> auth
            then Some (refuse_frame (drop_staged s), if pf_table p then dp_revert D d else d)
            else do {
              s \<leftarrow> drift_note_verified E (s\<lparr> sb_framer := framer_on_frame_verified (sb_framer s) \<rparr>)
                     (pf_anchor p) (pf_footprint p);
              finish_frame E D s d (pf_table p) (pf_staged p) (pf_slot p) (pf_packet_end p) } } }"

text \<open>The spine of \<open>route_frame\<close> (an instruction that stages, from an idle reply pipeline) and its
  verdict-first path (\<open>complete\<close> frames only).\<close>

definition route_speculative ::
  "('c, 'e) bus_env_scheme \<Rightarrow> 'd dispatch_port \<Rightarrow> 'c servo_bus \<Rightarrow> 'd \<Rightarrow> frame_span \<Rightarrow> bool \<Rightarrow> ('c servo_bus \<times> 'd) option" where
  "route_speculative E D s d sp complete =
     do { c \<leftarrow> crc_feed (be_crc E) (ring_of E s) (sb_crc s) (fs_anchor sp) (fs_footprint sp);
          sec \<leftarrow> security_fold (ring_of E s) (sb_security s) (fs_anchor sp) (fs_footprint sp);
          (s, d, r) \<leftarrow> dispatch_decoded E D (s\<lparr> sb_crc := c, sb_security := sec \<rparr>) d (fs_anchor sp) (fs_footprint sp);
          if r = None \<and> \<not> complete then Some (s, d)
          else let (staged, slot, table) =
                     (case r of Some (staged, slot, out) \<Rightarrow> (staged, slot, out = Pending) | None \<Rightarrow> (False, 0, False));
                   p = \<lparr> pf_anchor = fs_anchor sp, pf_footprint = fs_footprint sp, pf_packet_end = fs_packet_end sp,
                         pf_slot = slot, pf_staged = staged, pf_table = table \<rparr>
               in if complete then verify E D s d p else Some (s\<lparr> sb_pending := Some p \<rparr>, d) }"

definition route_verified ::
  "('c, 'e) bus_env_scheme \<Rightarrow> 'd dispatch_port \<Rightarrow> 'c servo_bus \<Rightarrow> 'd \<Rightarrow> frame_span \<Rightarrow> ('c servo_bus \<times> 'd) option" where
  "route_verified E D s d sp =
     do { (c, crc) \<leftarrow> crc_ok (be_crc E) (ring_of E s) (sb_crc s) (fs_anchor sp) (fs_footprint sp);
          let s = s\<lparr> sb_crc := c \<rparr>;
          if \<not> crc then Some (reject_frame E s (fs_anchor sp), d)
          else do {
            (sec, auth) \<leftarrow> auth_verify (ring_of E s) (sb_security s) (fs_anchor sp) (fs_footprint sp);
            let s = s\<lparr> sb_security := sec \<rparr>;
            if \<not> auth then Some (refuse_frame s, d)
            else do {
              s \<leftarrow> drift_note_verified E (s\<lparr> sb_framer := framer_on_frame_verified (sb_framer s) \<rparr>)
                     (fs_anchor sp) (fs_footprint sp);
              let s = s\<lparr> sb_chain := chain_reset (sb_chain s), sb_chain_at := None \<rparr>;
              let s = (if tx_staged (sb_tx s) then s\<lparr> sb_tx := tx_abort (sb_tx s) \<rparr> else s);
              (s, d, r) \<leftarrow> dispatch_decoded E D s d (fs_anchor sp) (fs_footprint sp);
              (case r of
                 None \<Rightarrow> Some (s, d)
               | Some (staged, slot, out) \<Rightarrow>
                   finish_frame E D s d (out = Pending) staged slot (fs_packet_end sp)) } } }"

definition route_frame ::
  "('c, 'e) bus_env_scheme \<Rightarrow> 'd dispatch_port \<Rightarrow> 'c servo_bus \<Rightarrow> 'd \<Rightarrow> frame_span \<Rightarrow> bool \<Rightarrow> ('c servo_bus \<times> 'd) option" where
  "route_frame E D s d sp complete =
     do { inst \<leftarrow> ring_inst (ring_of E s) (fs_anchor sp);
          if inst_is_status inst
          then (if complete
                then let (ch, out) = chain_on_status_end (sb_chain s) (fs_packet_end sp)
                     in map_option (\<lambda>s. (s, d)) (route_chain E (s\<lparr> sb_chain := ch \<rparr>) out)
                else Some (s, d))
          else if \<not> chain_active (sb_chain s) \<and> \<not> tx_busy (sb_tx s) \<and> \<not> verdict_first_inst inst
          then route_speculative E D s d sp complete
          else if \<not> complete then Some (s, d)
          else route_verified E D s d sp }"

definition on_frame_end ::
  "('c, 'e) bus_env_scheme \<Rightarrow> 'd dispatch_port \<Rightarrow> 'c servo_bus \<Rightarrow> 'd \<Rightarrow> frame_span \<Rightarrow> ('c servo_bus \<times> 'd) option" where
  "on_frame_end E D s d sp =
     (let s' = s\<lparr> sb_pending := None \<rparr>
      in case sb_pending s of
           Some p \<Rightarrow>
             if pf_anchor p = fs_anchor sp \<and> pf_footprint p = fs_footprint sp then verify E D s' d p
             else route_frame E D (drop_staged s') d sp True
         | None \<Rightarrow> route_frame E D s' d sp True)"

text \<open>The resolver loop, at most \<open>FRAMES_PER_WAKE\<close> frames; the clock and the cursor are sampled anew on
  every turn.\<close>

fun drive_loop ::
  "nat \<Rightarrow> ('c, 'e) bus_env_scheme \<Rightarrow> 'd dispatch_port \<Rightarrow> 'c servo_bus \<Rightarrow> 'd \<Rightarrow> ('c servo_bus \<times> 'd) option" where
  "drive_loop 0 E D s d = (let (now, s) = read_now E s in Some (s\<lparr> sb_framer_at := Some now \<rparr>, d))"
| "drive_loop (Suc n) E D s d =
     (let (now, s) = read_now E s; (cursor, s) = read_cursor E s
      in do { (fm, out) \<leftarrow> framer_resolve (sb_framer s) (ring_of E s) cursor now (sb_tpb s);
              let s = s\<lparr> sb_framer := fm \<rparr>;
              (case out of
                 FoNone \<Rightarrow> Some (s\<lparr> sb_framer_at := None \<rparr>, d)
               | FoWait t \<Rightarrow> Some (s\<lparr> sb_framer_at := Some t \<rparr>, d)
               | FoCovered sp end_due \<Rightarrow> route_frame E D (s\<lparr> sb_framer_at := Some end_due \<rparr>) d sp False
               | FoFrame sp \<Rightarrow>
                   do { (s, d) \<leftarrow> on_frame_end E D s d sp; drive_loop n E D s d }) })"

definition drive_framer ::
  "('c, 'e) bus_env_scheme \<Rightarrow> 'd dispatch_port \<Rightarrow> 'c servo_bus \<Rightarrow> 'd \<Rightarrow> ('c servo_bus \<times> 'd) option" where
  "drive_framer E D s d = drive_loop FRAMES_PER_WAKE E D s d"

subsection \<open>The interrupt and main-loop entry points\<close>

definition drift_stamp :: "('c, 'e) bus_env_scheme \<Rightarrow> 'c servo_bus \<Rightarrow> u32 \<Rightarrow> 'c servo_bus" where
  "drift_stamp E s now =
     (let (cursor, s) = read_cursor E s
      in s\<lparr> sb_clock := on_drift_break (sb_clock s) now cursor (length (ring_of E s)) (sb_tpb s) \<rparr>)"

definition break_recheck :: "'c servo_bus \<Rightarrow> u32 \<Rightarrow> bool \<Rightarrow> 'c servo_bus" where
  "break_recheck s now rung =
     (if \<not> rung \<and> sb_framer_at s = None then s\<lparr> sb_framer_at := Some (now + sb_tpb s) \<rparr> else s)"

definition break_kill :: "('c, 'e) bus_env_scheme \<Rightarrow> 'c servo_bus \<Rightarrow> 'c servo_bus" where
  "break_kill E s =
     (if tx_staged (sb_tx s) \<and> \<not> tx_collision_tolerant (sb_tx s) \<and> \<not> chain_waiting (sb_chain s) \<and>
         sb_pending s = None
      then let (cursor, s) = read_cursor E s
           in if \<not> framer_caught_up (sb_framer s) cursor
              then s\<lparr> sb_tx := tx_abort (sb_tx s), sb_chain := chain_reset (sb_chain s), sb_chain_at := None \<rparr>
              else s
      else s)"

definition on_break ::
  "('c, 'e) bus_env_scheme \<Rightarrow> 'd dispatch_port \<Rightarrow> 'c servo_bus \<Rightarrow> 'd \<Rightarrow> ('c servo_bus \<times> 'd) option" where
  "on_break E D s d =
     (let (now, s) = read_now E s
      in if cal_active (sb_clock s)
         then let (cursor, s) = read_cursor E s;
                  (ck, at) = on_cal_break (sb_clock s) now cursor (be_ticks_per_us E);
                  s = s\<lparr> sb_clock := ck \<rparr>
              in Some (case at of Some t \<Rightarrow> arm_deadline E (s\<lparr> sb_framer_at := Some t \<rparr>) | None \<Rightarrow> s, d)
         else
           let (cursor, s) = read_cursor E s;
               (fm, rung) = framer_on_wire_fault (sb_framer s) cursor;
               s = s\<lparr> sb_framer := fm \<rparr>
           in do {
             mark \<leftarrow> (if rung then newest_is_break_byte (ring_of E s) cursor else Some False);
             (s, d) \<leftarrow> drive_framer E D (if mark then drift_stamp E s now else s) d;
             let s = break_kill E (break_recheck s now rung);
             s \<leftarrow> route_chain E s (chain_on_break_observed (sb_chain s) now);
             Some (arm_deadline E s, d) })"

fun deadline_loop ::
  "nat \<Rightarrow> ('c, 'e) bus_env_scheme \<Rightarrow> 'd dispatch_port \<Rightarrow> 'c servo_bus \<Rightarrow> 'd \<Rightarrow> ('c servo_bus \<times> 'd) option" where
  "deadline_loop 0 E D s d = Some (s, d)"
| "deadline_loop (Suc n) E D s d =
     (let (now, s) = read_now E s; framer_due = due now (sb_framer_at s)
      in do { (s, d) \<leftarrow> (if framer_due
                          then drive_framer E D
                                 (s\<lparr> sb_framer_at := None, sb_clock := abandon_cal (sb_clock s) \<rparr>) d
                          else Some (s, d));
              let chain_due = due now (sb_chain_at s);
              s \<leftarrow> (if chain_due
                     then let (ch, out) = chain_on_deadline (sb_chain s) now
                          in route_chain E (s\<lparr> sb_chain_at := None, sb_chain := ch \<rparr>) out
                     else Some s);
              if framer_due \<or> chain_due then deadline_loop n E D s d else Some (s, d) })"

definition on_deadline ::
  "('c, 'e) bus_env_scheme \<Rightarrow> 'd dispatch_port \<Rightarrow> 'c servo_bus \<Rightarrow> 'd \<Rightarrow> ('c servo_bus \<times> 'd) option" where
  "on_deadline E D s d =
     do { (s, d) \<leftarrow> deadline_loop DEADLINE_DRAIN_MAX E D s d; Some (arm_deadline E s, d) }"

definition apply_rate :: "('c, 'e) bus_env_scheme \<Rightarrow> 'c servo_bus \<Rightarrow> baud_rate \<Rightarrow> 'c servo_bus" where
  "apply_rate E s b =
     s\<lparr> sb_baud := b, sb_rate := b, sb_tpb := tpb_for E b, sb_clock := clock_restart (sb_clock s) \<rparr>"

definition on_tx_complete :: "('c, 'e) bus_env_scheme \<Rightarrow> 'c servo_bus \<Rightarrow> 'c servo_bus option" where
  "on_tx_complete E s =
     do { (t, c, out) \<leftarrow> tx_on_arm_complete (be_crc E) (sb_tx s) (sb_crc s);
          let s = s\<lparr> sb_tx := t, sb_crc := c \<rparr>;
          Some (if out = TxReleased
                then let s = (case sb_pending_id s of Some i \<Rightarrow> s\<lparr> sb_pending_id := None, sb_id := i \<rparr> | None \<Rightarrow> s)
                     in (case sb_pending_baud s of
                           Some b \<Rightarrow> apply_rate E (s\<lparr> sb_pending_baud := None \<rparr>) b | None \<Rightarrow> s)
                else s) }"

definition take_reboot :: "'c servo_bus \<Rightarrow> 'c servo_bus \<times> boot_mode option" where
  "take_reboot s =
     (if tx_busy (sb_tx s) then (s, None) else (s\<lparr> sb_pending_reboot := None \<rparr>, sb_pending_reboot s))"

definition poll_clock_trim :: "'c servo_bus \<Rightarrow> 'c servo_bus \<times> int option" where
  "poll_clock_trim s = (let (ck, out) = clock_poll (sb_clock s) in (s\<lparr> sb_clock := ck \<rparr>, out))"

definition on_rescue_break :: "('c, 'e) bus_env_scheme \<Rightarrow> 'c servo_bus \<Rightarrow> 'c servo_bus" where
  "on_rescue_break E s =
     (if tx_streaming (sb_tx s) then s
      else let s = apply_rate E s B500000;
               (cursor, s) = read_cursor E s
           in arm_deadline E
                (s\<lparr> sb_framer := framer_resync (sb_framer s) cursor, sb_chain := chain_reset (sb_chain s),
                    sb_tx := tx_abort (sb_tx s), sb_pending := None, sb_framer_at := None, sb_chain_at := None \<rparr>))"

end
