(* ===== verification/Servo_Inv.thy ===== *)
theory Servo_Inv
  imports Servo_Bus
begin

text \<open>
  The state invariant of the transport composite and its case analysis: how a verdict, a routed frame
  and one turn of the drive loop step the state, and that every handler keeps the reply pipeline
  consistent. Sequences of handler calls are the runs of \<open>bus_run\<close>.
\<close>

subsection \<open>The reply pipeline\<close>

text \<open>
  The chain never sequences an empty transmit engine, and while a frame awaits its verdict the chain
  is idle and nothing streams, so that the checksum engine holds that frame's covered span.
\<close>

definition pipeline_ok :: "'c servo_bus \<Rightarrow> bool" where
  "pipeline_ok s \<longleftrightarrow> (chain_active (sb_chain s) \<longrightarrow> tx_staged (sb_tx s)) \<and>
     (sb_pending s \<noteq> None \<longrightarrow> \<not> chain_active (sb_chain s) \<and> \<not> tx_streaming (sb_tx s))"

definition trigger_ready :: "'c servo_bus \<Rightarrow> chain_out \<Rightarrow> bool" where
  "trigger_ready s out \<longleftrightarrow>
     (case out of ChTrigger _ \<Rightarrow> \<not> chain_active (sb_chain s) \<and> tx_staged (sb_tx s) \<and> sb_pending s = None | _ \<Rightarrow> True)"

lemmas tx_state_defs = tx_busy_def tx_staged_def tx_streaming_def

lemma tx_busy_cases: "tx_busy t \<longleftrightarrow> tx_staged t \<or> tx_streaming t"
  by (simp add: tx_state_defs split: tx_state.split)

lemma tx_abort_idle [simp]: "\<not> tx_busy (tx_abort t)" "\<not> tx_staged (tx_abort t)" "\<not> tx_streaming (tx_abort t)"
  by (simp_all add: tx_abort_def tx_state_defs split: tx_state.split)

lemma tx_not_both: "tx_staged t \<Longrightarrow> \<not> tx_streaming t"
  by (simp add: tx_state_defs split: tx_state.splits)

lemma chain_reset_idle [simp]: "\<not> chain_active (chain_reset c)"
  by (simp add: chain_active_def chain_reset_def)

lemma chain_on_deadline_ready:
  assumes "pipeline_ok s" "chain_on_deadline (sb_chain s) now = (ch, out)"
  shows "pipeline_ok (s\<lparr> sb_chain := ch \<rparr>)" "trigger_ready (s\<lparr> sb_chain := ch \<rparr>) out"
  using assms by (auto simp: pipeline_ok_def trigger_ready_def chain_active_def chain_on_deadline_def Let_def
      split: chain_state.splits if_splits)

lemma tx_trigger_kind: "tx_trigger C t c over = Some (t', c') \<Longrightarrow> if tx_staged t then tx_streaming t' else t' = t"
  by (auto simp: tx_trigger_def tx_streaming_def Let_def bind_eq_Some_conv split: if_splits)

lemma route_chain_pipeline:
  "route_chain E s out = Some s' \<Longrightarrow> pipeline_ok s \<Longrightarrow> trigger_ready s out \<Longrightarrow> pipeline_ok s' \<and> sb_pending s' = sb_pending s"
proof (induction E s out arbitrary: s' rule: route_chain.induct)
  case (1 E s)
  then show ?case by simp
next
  case (2 E s t)
  define s1 where "s1 = snd (read_now E s)"
  define now where "now = fst (read_now E s)"
  have rd: "read_now E s = (now, s1)" by (simp add: s1_def now_def)
  have ok: "pipeline_ok s1" "sb_pending s1 = sb_pending s" using "2.prems"(2) by (simp_all add: s1_def read_now_def pipeline_ok_def)
  show ?case
  proof (cases "tick_reached now t")
    case True
    obtain ch out where d: "chain_on_deadline (sb_chain s1) now = (ch, out)" by fastforce
    from "2.IH" [OF refl rd [symmetric] _ refl d [symmetric], of s'] True d "2.prems"(1) chain_on_deadline_ready [OF ok(1) d] ok(2)
    show ?thesis by (simp add: rd)
  next
    case False
    then show ?thesis using "2.prems"(1) ok by (auto simp: rd pipeline_ok_def)
  qed
next
  case (3 E s silent)
  then show ?case
    using tx_trigger_kind [of "be_crc E" "sb_tx s" "sb_crc s"]
    by (fastforce simp: bind_eq_Some_conv trigger_ready_def pipeline_ok_def)
qed


lemma tx_stage_kind:
  assumes "tx_stage_gather C t c i r a spans = Some (t', c', res)"
  shows "tx_wire t' = tx_wire t \<and> (case res of Inr _ \<Rightarrow> \<not> tx_busy t \<and> tx_staged t' | Inl _ \<Rightarrow> t' = t)"
proof (cases "tx_busy t \<or> sum_list (map length spans) > unat MAX_PAYLOAD")
  case True
  then show ?thesis using assms by (auto simp: tx_stage_gather_def Let_def split: if_splits)
next
  case False
  have small: "tx_wire t1 = tx_wire t" if "stage_small t i n p spans = Some t1" for n p t1
    using that by (auto simp: stage_small_def Let_def bind_eq_Some_conv)
  show ?thesis
    using assms False
    by (auto simp: tx_stage_gather_def Let_def bind_eq_Some_conv tx_staged_def stage_large_def split_beta
        dest!: small split: if_splits)
qed

text \<open>The reply surface touches the transmit engine, the checksum engine and the deferred settings only;
  it never stops or starts a stream, and never unstages a reply.\<close>

definition surface_step :: "'c servo_bus \<Rightarrow> bool \<Rightarrow> 'c servo_bus \<Rightarrow> bool \<Rightarrow> bool" where
  "surface_step s b s' b' \<longleftrightarrow>
     sb_chain s' = sb_chain s \<and> sb_pending s' = sb_pending s \<and> sb_framer s' = sb_framer s \<and>
     sb_security s' = sb_security s \<and> sb_sample s' = sb_sample s \<and> sb_chain_at s' = sb_chain_at s \<and>
     sb_framer_at s' = sb_framer_at s \<and> sb_tpb s' = sb_tpb s \<and> sb_crc_fails s' = sb_crc_fails s \<and>
     tx_wire (sb_tx s') = tx_wire (sb_tx s) \<and> tx_streaming (sb_tx s') = tx_streaming (sb_tx s) \<and>
     (tx_staged (sb_tx s) \<longrightarrow> tx_staged (sb_tx s')) \<and>
     (b' \<longrightarrow> b \<or> tx_staged (sb_tx s')) \<and> (b \<longrightarrow> b')"

lemma surface_step_refl [simp]: "surface_step s b s b"
  by (simp add: surface_step_def)

lemma surface_step_trans: "surface_step s b s1 b1 \<Longrightarrow> surface_step s1 b1 s2 b2 \<Longrightarrow> surface_step s b s2 b2"
  by (auto simp: surface_step_def)

lemma mark_tolerant_kind [simp]:
  "tx_wire (tx_mark_collision_tolerant t k) = tx_wire t"
  "tx_staged (tx_mark_collision_tolerant t k) = tx_staged t"
  "tx_streaming (tx_mark_collision_tolerant t k) = tx_streaming t"
  by (simp_all add: tx_mark_collision_tolerant_def tx_state_defs split: tx_state.split)

lemma handle_staged_step:
  assumes "tx_stage_gather C (sb_tx s) c i r a spans = Some x" "handle_staged tolerant key b s x = (s', b')"
  shows "surface_step s b s' b'"
proof -
  obtain t' c' res where x: "x = (t', c', res)" by (cases x)
  have "tx_staged t' \<Longrightarrow> \<not> tx_streaming t'" by (rule tx_not_both)
  then show ?thesis
    using tx_stage_kind [OF assms(1) [unfolded x]] assms(2)
    by (cases tolerant) (auto simp: x handle_staged_def surface_step_def tx_busy_cases split: sum.splits)
qed

lemma handle_event_step:
  assumes "handle_event E tolerant (s, b) e = Some (s', b')"
  shows "surface_step s b s' b'"
proof (cases e)
  case (EvStatus r a data)
  then show ?thesis using assms handle_staged_step [of "be_crc E" s] by (auto simp: tx_stage_def)
next
  case (EvGather r a spans)
  then show ?thesis using assms handle_staged_step [of "be_crc E" s] by auto
qed (use assms in \<open>auto simp: surface_step_def\<close>)

lemma handle_events_step:
  "handle_events E tolerant (s, b) es = Some (s', b') \<Longrightarrow> surface_step s b s' b'"
proof (induction es arbitrary: s b)
  case (Cons e es)
  then obtain s1 b1 where "handle_event E tolerant (s, b) e = Some (s1, b1)"
    "handle_events E tolerant (s1, b1) es = Some (s', b')"
    by (auto simp: bind_eq_Some_conv)
  then show ?case using handle_event_step Cons.IH surface_step_trans by blast
qed simp

lemma surface_pipeline: "surface_step s b s' b' \<Longrightarrow> pipeline_ok s \<Longrightarrow> pipeline_ok s'"
  by (auto simp: surface_step_def pipeline_ok_def)

lemma dispatch_decoded_step:
  assumes "dispatch_decoded E D s d anchor fp = Some (s', d', r)"
  shows "surface_step s False s' (case r of Some (staged, _) \<Rightarrow> staged | None \<Rightarrow> False)"
proof -
  obtain frame where frame: "frame_view (ring_of E s) anchor fp = Some frame"
    using assms by (auto simp: dispatch_decoded_def bind_eq_Some_conv)
  show ?thesis
    using assms frame by (cases "decode frame (sb_id s)")
      (auto simp: dispatch_decoded_def bind_eq_Some_conv dest: handle_events_step)
qed

lemma commit_effect_step:
  assumes "commit_effect E D s d = Some (s', d')"
  shows "\<exists>b. surface_step s False s' b"
  using assms by (auto simp: commit_effect_def bind_eq_Some_conv split_beta dest: handle_events_step)

lemma sequence_reply_pipeline:
  assumes "sequence_reply E s slot e = Some s'" "pipeline_ok s" "tx_staged (sb_tx s)" "sb_pending s = None"
  shows "pipeline_ok s' \<and> sb_pending s' = None"
proof -
  obtain s1 gap where s1: "route_chain E (s1\<lparr> sb_chain := fst (chain_on_reply_staged (sb_chain s1) slot e gap (reclaim E s1) (frame_allowance s1)) \<rparr>)
      (snd (chain_on_reply_staged (sb_chain s1) slot e gap (reclaim E s1) (frame_allowance s1))) = Some s'"
    "sb_tx s1 = sb_tx s" "sb_pending s1 = None"
    using assms(1,4)
    by (auto simp: sequence_reply_def read_now_def split_beta Let_def split: option.splits)
  have "trigger_ready x (snd (chain_on_reply_staged (sb_chain s1) slot e gap rc al))" for x :: "'a servo_bus" and rc al
    by (simp add: trigger_ready_def chain_on_reply_staged_def Let_def)
  then show ?thesis
    using route_chain_pipeline [OF s1(1)] s1(2,3) assms(3) by (simp add: pipeline_ok_def)
qed


lemma drop_staged_keeps [simp]:
  "sb_pending (drop_staged s) = sb_pending s" "\<not> chain_active (sb_chain (drop_staged s))"
  "\<not> tx_staged (sb_tx (drop_staged s))" "tx_streaming (sb_tx (drop_staged s)) = tx_streaming (sb_tx s)"
  by (auto simp: drop_staged_def Let_def dest: tx_not_both)

lemma drop_staged_pipeline: "sb_pending s = None \<or> pipeline_ok s \<Longrightarrow> pipeline_ok (drop_staged s)"
  by (auto simp: pipeline_ok_def)

lemma reject_keeps [simp]:
  "sb_chain (reject_frame E s a) = sb_chain s" "sb_tx (reject_frame E s a) = sb_tx s"
  "sb_pending (reject_frame E s a) = sb_pending s"
  "sb_chain (refuse_frame s) = sb_chain s" "sb_tx (refuse_frame s) = sb_tx s"
  "sb_pending (refuse_frame s) = sb_pending s"
  by (simp_all add: reject_frame_def refuse_frame_def count_crc_fail_def Let_def)

lemma drift_note_keeps:
  "drift_note_verified E s a fp = Some s' \<Longrightarrow> \<exists>ck. s' = s\<lparr> sb_clock := ck \<rparr>"
  by (auto simp: drift_note_verified_def Let_def bind_eq_Some_conv split: if_splits)

lemma pipeline_irrelevant [simp]:
  "pipeline_ok (s\<lparr> sb_crc := c \<rparr>) = pipeline_ok s" "pipeline_ok (s\<lparr> sb_security := sec \<rparr>) = pipeline_ok s"
  "pipeline_ok (s\<lparr> sb_clock := ck \<rparr>) = pipeline_ok s" "pipeline_ok (s\<lparr> sb_framer := fm \<rparr>) = pipeline_ok s"
  "pipeline_ok (s\<lparr> sb_framer_at := fa \<rparr>) = pipeline_ok s" "pipeline_ok (s\<lparr> sb_chain_at := fa \<rparr>) = pipeline_ok s"
  "pipeline_ok (s\<lparr> sb_compare := fa \<rparr>) = pipeline_ok s" "pipeline_ok (s\<lparr> sb_sample := n \<rparr>) = pipeline_ok s"
  "pipeline_ok (s\<lparr> sb_pending_reboot := rb \<rparr>) = pipeline_ok s"
  "pipeline_ok (reject_frame E s a) = pipeline_ok s" "pipeline_ok (refuse_frame s) = pipeline_ok s"
  by (simp_all add: pipeline_ok_def)

lemma finish_frame_pipeline:
  assumes "finish_frame E D s d table staged slot e = Some (s', d')" "pipeline_ok s" "sb_pending s = None"
  shows "pipeline_ok s' \<and> sb_pending s' = None"
proof -
  obtain s1 d1 where s1: "(if table then commit_effect E D s d else Some (s, d)) = Some (s1, d1)"
    using assms(1) by (auto simp: finish_frame_def bind_eq_Some_conv)
  then have ok: "pipeline_ok s1" "sb_pending s1 = None"
    using commit_effect_step [of E D s d s1 d1] assms(2,3) surface_pipeline [of s False s1]
    by (auto simp: surface_step_def split: if_splits)
  show ?thesis
    using assms(1) ok sequence_reply_pipeline [of E s1 slot e s']
    by (auto simp: finish_frame_def s1 split: if_splits)
qed

lemma ring_of_updates [simp]:
  "ring_of E (s\<lparr> sb_crc := c \<rparr>) = ring_of E s" "ring_of E (s\<lparr> sb_security := sec \<rparr>) = ring_of E s"
  "ring_of E (s\<lparr> sb_framer := fm \<rparr>) = ring_of E s" "ring_of E (s\<lparr> sb_pending := p \<rparr>) = ring_of E s"
  "ring_of E (s\<lparr> sb_chain := ch \<rparr>) = ring_of E s" "ring_of E (s\<lparr> sb_tx := t \<rparr>) = ring_of E s"
  "ring_of E (s\<lparr> sb_chain_at := a \<rparr>) = ring_of E s" "ring_of E (drop_staged s) = ring_of E s"
  by (simp_all add: ring_of_def drop_staged_def Let_def)

lemma verify_cases:
  assumes "verify E D s d p = Some (s', d')"
  obtains
    (crc) c where "crc_verify (be_crc E) (ring_of E s) (sb_crc s) (pf_anchor p) (pf_footprint p) = Some (c, False)"
      "s' = reject_frame E (drop_staged (s\<lparr> sb_crc := c \<rparr>)) (pf_anchor p)" "d' = (if pf_table p then dp_revert D d else d)"
  | (auth) c sec where "crc_verify (be_crc E) (ring_of E s) (sb_crc s) (pf_anchor p) (pf_footprint p) = Some (c, True)"
      "auth_verify (ring_of E s) (sb_security s) (pf_anchor p) (pf_footprint p) = Some (sec, False)"
      "s' = refuse_frame (drop_staged (s\<lparr> sb_crc := c, sb_security := sec \<rparr>))" "d' = (if pf_table p then dp_revert D d else d)"
  | (pass) c sec ck where "crc_verify (be_crc E) (ring_of E s) (sb_crc s) (pf_anchor p) (pf_footprint p) = Some (c, True)"
      "auth_verify (ring_of E s) (sb_security s) (pf_anchor p) (pf_footprint p) = Some (sec, True)"
      "finish_frame E D (s\<lparr> sb_crc := c, sb_security := sec, sb_framer := framer_on_frame_verified (sb_framer s), sb_clock := ck \<rparr>)
         d (pf_table p) (pf_staged p) (pf_slot p) (pf_packet_end p) = Some (s', d')"
proof -
  obtain c ok where c: "crc_verify (be_crc E) (ring_of E s) (sb_crc s) (pf_anchor p) (pf_footprint p) = Some (c, ok)"
    using assms by (auto simp: verify_def bind_eq_Some_conv)
  show thesis
  proof (cases ok)
    case False
    then show thesis using assms c by (intro crc [of c]) (simp_all add: verify_def Let_def)
  next
    case True
    then obtain sec au where a: "auth_verify (ring_of E s) (sb_security s) (pf_anchor p) (pf_footprint p) = Some (sec, au)"
      using assms c by (auto simp: verify_def Let_def bind_eq_Some_conv)
    show thesis
    proof (cases au)
      case False
      then show thesis using assms c a True by (intro auth [of c sec]) (simp_all add: verify_def Let_def)
    next
      case True
      then obtain s1 where "drift_note_verified E (s\<lparr> sb_crc := c, sb_security := sec, sb_framer := framer_on_frame_verified (sb_framer s) \<rparr>)
          (pf_anchor p) (pf_footprint p) = Some s1"
        "finish_frame E D s1 d (pf_table p) (pf_staged p) (pf_slot p) (pf_packet_end p) = Some (s', d')"
        using assms c a \<open>ok\<close> by (auto simp: verify_def Let_def bind_eq_Some_conv)
      then show thesis using drift_note_keeps pass c a True \<open>ok\<close> by fastforce
    qed
  qed
qed

lemma verify_pipeline:
  assumes "verify E D s d p = Some (s', d')" "pipeline_ok s" "sb_pending s = None"
  shows "pipeline_ok s' \<and> sb_pending s' = None"
  using assms(1)
proof (cases rule: verify_cases)
  case (pass c sec ck)
  then show ?thesis using finish_frame_pipeline [OF pass(3)] assms(2,3) by simp
qed (use assms in \<open>auto intro!: drop_staged_pipeline\<close>)

lemma route_verified_cases:
  assumes "route_verified E D s d sp = Some (s', d')"
  obtains
    (crc) c where "crc_ok (be_crc E) (ring_of E s) (sb_crc s) (fs_anchor sp) (fs_footprint sp) = Some (c, False)"
      "s' = reject_frame E (s\<lparr> sb_crc := c \<rparr>) (fs_anchor sp)" "d' = d"
  | (auth) c sec where "crc_ok (be_crc E) (ring_of E s) (sb_crc s) (fs_anchor sp) (fs_footprint sp) = Some (c, True)"
      "auth_verify (ring_of E s) (sb_security s) (fs_anchor sp) (fs_footprint sp) = Some (sec, False)"
      "s' = refuse_frame (s\<lparr> sb_crc := c, sb_security := sec \<rparr>)" "d' = d"
  | (pass) c sec ck t s1 d1 r where "crc_ok (be_crc E) (ring_of E s) (sb_crc s) (fs_anchor sp) (fs_footprint sp) = Some (c, True)"
      "auth_verify (ring_of E s) (sb_security s) (fs_anchor sp) (fs_footprint sp) = Some (sec, True)"
      "t = (if tx_staged (sb_tx s) then tx_abort (sb_tx s) else sb_tx s)"
      "dispatch_decoded E D (s\<lparr> sb_crc := c, sb_security := sec, sb_framer := framer_on_frame_verified (sb_framer s),
         sb_clock := ck, sb_chain := chain_reset (sb_chain s), sb_chain_at := None, sb_tx := t \<rparr>) d
         (fs_anchor sp) (fs_footprint sp) = Some (s1, d1, r)"
      "case r of None \<Rightarrow> (s', d') = (s1, d1)
       | Some (staged, slot, out) \<Rightarrow> finish_frame E D s1 d1 (out = Pending) staged slot (fs_packet_end sp) = Some (s', d')"
proof -
  obtain c ok where c: "crc_ok (be_crc E) (ring_of E s) (sb_crc s) (fs_anchor sp) (fs_footprint sp) = Some (c, ok)"
    using assms by (auto simp: route_verified_def bind_eq_Some_conv)
  show thesis
  proof (cases ok)
    case False
    then show thesis using assms c by (intro crc [of c]) (simp_all add: route_verified_def Let_def)
  next
    case True
    then obtain sec au where a: "auth_verify (ring_of E s) (sb_security s) (fs_anchor sp) (fs_footprint sp) = Some (sec, au)"
      using assms c by (auto simp: route_verified_def Let_def bind_eq_Some_conv)
    show thesis
    proof (cases au)
      case False
      then show thesis using assms c a True by (intro auth [of c sec]) (simp_all add: route_verified_def Let_def)
    next
      case True
      let ?s0 = "s\<lparr> sb_crc := c, sb_security := sec, sb_framer := framer_on_frame_verified (sb_framer s) \<rparr>"
      obtain s0 where n: "drift_note_verified E ?s0 (fs_anchor sp) (fs_footprint sp) = Some s0"
        using assms c a True \<open>ok\<close> by (auto simp: route_verified_def Let_def bind_eq_Some_conv)
      obtain ck where ck: "s0 = ?s0\<lparr> sb_clock := ck \<rparr>" using drift_note_keeps [OF n] by blast
      let ?t = "if tx_staged (sb_tx s) then tx_abort (sb_tx s) else sb_tx s"
      let ?s2 = "s\<lparr> sb_crc := c, sb_security := sec, sb_framer := framer_on_frame_verified (sb_framer s),
         sb_clock := ck, sb_chain := chain_reset (sb_chain s), sb_chain_at := None, sb_tx := ?t \<rparr>"
      have eq: "(if tx_staged (sb_tx s) then s0\<lparr> sb_chain := chain_reset (sb_chain s), sb_chain_at := None, sb_tx := tx_abort (sb_tx s) \<rparr>
             else s0\<lparr> sb_chain := chain_reset (sb_chain s), sb_chain_at := None \<rparr>) = ?s2"
        by (simp add: ck)
      have body: "do { (s, d, r) \<leftarrow> dispatch_decoded E D ?s2 d (fs_anchor sp) (fs_footprint sp);
          (case r of None \<Rightarrow> Some (s, d)
           | Some (staged, slot, out) \<Rightarrow> finish_frame E D s d (out = Pending) staged slot (fs_packet_end sp)) } = Some (s', d')"
        using assms c a True \<open>ok\<close> n unfolding eq [symmetric] by (simp add: route_verified_def Let_def ck cong: if_cong)
      then obtain s1 d1 r where sdr: "dispatch_decoded E D ?s2 d (fs_anchor sp) (fs_footprint sp) = Some (s1, d1, r)"
        "case r of None \<Rightarrow> (s', d') = (s1, d1)
         | Some (staged, slot, out) \<Rightarrow> finish_frame E D s1 d1 (out = Pending) staged slot (fs_packet_end sp) = Some (s', d')"
        by (auto simp: bind_eq_Some_conv split: option.splits)
      show thesis using pass [OF _ _ refl sdr] c a True \<open>ok\<close> by simp
    qed
  qed
qed


lemma route_verified_pipeline:
  assumes "route_verified E D s d sp = Some (s', d')" "pipeline_ok s" "sb_pending s = None"
  shows "pipeline_ok s' \<and> sb_pending s' = None"
  using assms(1)
proof (cases rule: route_verified_cases)
  case (pass c sec ck t s1 d1 r)
  from dispatch_decoded_step [OF pass(4)] have "pipeline_ok s1" "sb_pending s1 = None"
    using assms(3) by (auto simp: pipeline_ok_def surface_step_def)
  then show ?thesis
    using pass(5) finish_frame_pipeline [of E D s1 d1] by (auto split: option.splits)
qed (use assms in auto)

lemma route_speculative_pipeline:
  assumes "route_speculative E D s d sp complete = Some (s', d')" "pipeline_ok s"
    "\<not> chain_active (sb_chain s)" "\<not> tx_busy (sb_tx s)" "complete \<Longrightarrow> sb_pending s = None"
  shows "pipeline_ok s'"
proof -
  obtain c sec s1 d1 r where sdr: "dispatch_decoded E D (s\<lparr> sb_crc := c, sb_security := sec \<rparr>) d (fs_anchor sp) (fs_footprint sp) = Some (s1, d1, r)"
    and rest: "(s', d') = (s1, d1) \<or> (\<exists>p. if complete then verify E D s1 d1 p = Some (s', d')
       else (s', d') = (s1\<lparr> sb_pending := Some p \<rparr>, d1))"
    using assms(1) by (fastforce simp: route_speculative_def bind_eq_Some_conv Let_def split_beta split: if_splits)
  from dispatch_decoded_step [OF sdr] have s1: "\<not> chain_active (sb_chain s1)" "\<not> tx_streaming (sb_tx s1)" "sb_pending s1 = sb_pending s"
    using assms(3,4) by (auto simp: surface_step_def tx_busy_cases)
  then have "pipeline_ok s1" by (simp add: pipeline_ok_def)
  then show ?thesis
    using rest s1 assms(5) verify_pipeline [of E D s1 d1] by (auto simp: pipeline_ok_def split: if_splits)
qed

lemma route_frame_pipeline:
  assumes "route_frame E D s d sp complete = Some (s', d')" "pipeline_ok s" "complete \<Longrightarrow> sb_pending s = None"
  shows "pipeline_ok s'"
proof -
  obtain inst where i: "ring_inst (ring_of E s) (fs_anchor sp) = Some inst"
    using assms(1) by (auto simp: route_frame_def bind_eq_Some_conv)
  obtain ch out where co: "chain_on_status_end (sb_chain s) (fs_packet_end sp) = (ch, out)" by fastforce
  have st: "pipeline_ok (s\<lparr> sb_chain := ch \<rparr>)" "trigger_ready (s\<lparr> sb_chain := ch \<rparr>) out"
    using co assms(2) by (auto simp: chain_on_status_end_def pipeline_ok_def trigger_ready_def chain_active_def Let_def
        split: chain_state.splits if_splits)
  show ?thesis
    using assms i co route_chain_pipeline [of E "s\<lparr> sb_chain := ch \<rparr>" out s'] st
      route_speculative_pipeline [of E D s d sp complete s' d'] route_verified_pipeline [of E D s d sp s' d']
    by (auto simp: route_frame_def split: if_splits)
qed

lemma on_frame_end_pipeline:
  assumes "on_frame_end E D s d sp = Some (s', d')" "pipeline_ok s"
  shows "pipeline_ok s'"
proof -
  have ok: "pipeline_ok (s\<lparr> sb_pending := None \<rparr>)" using assms(2) by (simp add: pipeline_ok_def)
  show ?thesis
    using assms(1) ok verify_pipeline [of E D "s\<lparr> sb_pending := None \<rparr>" d _ s' d']
      route_frame_pipeline [of E D _ d sp True s' d'] drop_staged_pipeline [of "s\<lparr> sb_pending := None \<rparr>"]
    by (auto simp: on_frame_end_def Let_def split: option.splits if_splits)
qed

text \<open>One turn of the resolver loop, with its two samples spelled out.\<close>

definition turn_state :: "framer \<Rightarrow> 'c servo_bus \<Rightarrow> 'c servo_bus" where
  "turn_state fm s = s\<lparr> sb_sample := sb_sample s + 2, sb_framer := fm \<rparr>"

definition turn_resolve :: "('c, 'e) bus_env_scheme \<Rightarrow> 'c servo_bus \<Rightarrow> (framer \<times> framer_out) option" where
  "turn_resolve E s =
     framer_resolve (sb_framer s) (be_ring E (sb_sample s + 2)) (be_cursor E (sb_sample s + 1)) (be_now E (sb_sample s)) (sb_tpb s)"

lemma drive_loop_turn:
  "drive_loop (Suc n) E D s d =
     (case turn_resolve E s of
        None \<Rightarrow> None
      | Some (fm, out) \<Rightarrow>
          (case out of
             FoNone \<Rightarrow> Some ((turn_state fm s)\<lparr> sb_framer_at := None \<rparr>, d)
           | FoWait t \<Rightarrow> Some ((turn_state fm s)\<lparr> sb_framer_at := Some t \<rparr>, d)
           | FoCovered sp end_due \<Rightarrow> route_frame E D ((turn_state fm s)\<lparr> sb_framer_at := Some end_due \<rparr>) d sp False
           | FoFrame sp \<Rightarrow> do { (s, d) \<leftarrow> on_frame_end E D (turn_state fm s) d sp; drive_loop n E D s d }))"
  by (simp add: read_now_def read_cursor_def turn_resolve_def turn_state_def ring_of_def Let_def split: option.split)

lemma turn_pipeline [simp]: "pipeline_ok (turn_state fm s) = pipeline_ok s"
  by (simp add: turn_state_def)

lemma drive_loop_pipeline: "drive_loop n E D s d = Some (s', d') \<Longrightarrow> pipeline_ok s \<Longrightarrow> pipeline_ok s'"
proof (induction n arbitrary: s d)
  case 0
  then show ?case by (auto simp: read_now_def)
next
  case (Suc n)
  obtain fm out where r: "turn_resolve E s = Some (fm, out)"
    using Suc.prems(1) unfolding drive_loop_turn by (auto split: option.splits)
  show ?case
    using Suc.prems r on_frame_end_pipeline [of E D "turn_state fm s" d]
      route_frame_pipeline [of E D _ d _ False s' d'] Suc.IH
    unfolding drive_loop_turn by (cases out) (auto simp: bind_eq_Some_conv)
qed

lemma arm_deadline_pipeline [simp]: "pipeline_ok (arm_deadline E s) = pipeline_ok s"
  by (simp add: arm_deadline_def read_now_def)

lemma read_pipeline [simp]:
  "pipeline_ok (snd (read_now E s)) = pipeline_ok s" "pipeline_ok (snd (read_cursor E s)) = pipeline_ok s"
  by (simp_all add: read_now_def read_cursor_def)

lemma deadline_loop_pipeline: "deadline_loop n E D s d = Some (s', d') \<Longrightarrow> pipeline_ok s \<Longrightarrow> pipeline_ok s'"
proof (induction n arbitrary: s d)
  case (Suc n)
  obtain now s0 where rd: "read_now E s = (now, s0)" by fastforce
  have ok0: "pipeline_ok s0" using Suc.prems(2) rd read_pipeline(1) [of E s] by simp
  let ?fd = "due now (sb_framer_at s0)"
  obtain s1 d1 where s1: "(if ?fd then drive_framer E D (s0\<lparr> sb_framer_at := None, sb_clock := abandon_cal (sb_clock s0) \<rparr>) d
      else Some (s0, d)) = Some (s1, d1)"
    using Suc.prems(1) rd by (auto simp: Let_def bind_eq_Some_conv)
  have ok1: "pipeline_ok s1"
    using s1 ok0 drive_loop_pipeline [of _ E D "s0\<lparr> sb_framer_at := None, sb_clock := abandon_cal (sb_clock s0) \<rparr>" d s1 d1]
    by (auto simp: drive_framer_def split: if_splits)
  let ?cd = "due now (sb_chain_at s1)"
  obtain ch out where co: "chain_on_deadline (sb_chain s1) now = (ch, out)" by fastforce
  obtain s2 where s2: "(if ?cd then route_chain E (s1\<lparr> sb_chain_at := None, sb_chain := ch \<rparr>) out else Some s1) = Some s2"
    and rest: "(if ?fd \<or> ?cd then deadline_loop n E D s2 d1 else Some (s2, d1)) = Some (s', d')"
    using Suc.prems(1) rd s1 co by (cases ?cd) (auto simp: Let_def bind_eq_Some_conv)
  have "pipeline_ok (s1\<lparr> sb_chain_at := None, sb_chain := ch \<rparr>)" "trigger_ready (s1\<lparr> sb_chain_at := None, sb_chain := ch \<rparr>) out"
    using chain_on_deadline_ready [of "s1\<lparr> sb_chain_at := None \<rparr>" now ch out] ok1 co by simp_all
  then have "pipeline_ok s2" using s2 ok1 route_chain_pipeline [of E _ out s2] by (auto split: if_splits)
  then show ?case using rest Suc.IH by (auto split: if_splits)
qed simp


lemma break_steps_pipeline [simp]:
  "pipeline_ok (drift_stamp E s now) = pipeline_ok s" "pipeline_ok (break_recheck s now rung) = pipeline_ok s"
  by (simp_all add: drift_stamp_def break_recheck_def read_cursor_def)

lemma break_kill_pipeline: "pipeline_ok s \<Longrightarrow> pipeline_ok (break_kill E s)"
  by (auto simp: break_kill_def read_cursor_def pipeline_ok_def)

lemma on_break_pipeline:
  assumes "on_break E D s d = Some (s', d')" "pipeline_ok s"
  shows "pipeline_ok s'"
proof -
  obtain now s0 where rd: "read_now E s = (now, s0)" by fastforce
  obtain cursor s1 where rc: "read_cursor E s0 = (cursor, s1)" by fastforce
  have ok1: "pipeline_ok s1"
    using assms(2) rd rc read_pipeline(1) [of E s] read_pipeline(2) [of E s0] by simp
  show ?thesis
  proof (cases "cal_active (sb_clock s0)")
    case True
    then show ?thesis
      using assms(1) ok1 rd rc by (auto simp: on_break_def split_beta Let_def split: option.splits)
  next
    case False
    obtain fm rung where wf: "framer_on_wire_fault (sb_framer s1) cursor = (fm, rung)" by fastforce
    let ?s1 = "s1\<lparr> sb_framer := fm \<rparr>"
    obtain mark s3 d3 s5 where s3: "drive_framer E D (if mark then drift_stamp E ?s1 now else ?s1) d = Some (s3, d3)"
      and s5: "s5 = break_kill E (break_recheck s3 now rung)"
      and rest: "map_option (\<lambda>s. (arm_deadline E s, d3)) (route_chain E s5 (chain_on_break_observed (sb_chain s5) now)) = Some (s', d')"
      using assms(1) rd rc False wf by (auto simp: on_break_def Let_def bind_eq_Some_conv)
    have "pipeline_ok s3"
      using s3 ok1 drive_loop_pipeline [of _ E D "if mark then drift_stamp E ?s1 now else ?s1" d s3 d3]
      by (simp add: drive_framer_def split: if_splits)
    then have "pipeline_ok s5" by (simp add: s5 break_kill_pipeline)
    moreover have "trigger_ready s5 (chain_on_break_observed (sb_chain s5) now)"
      by (simp add: trigger_ready_def chain_on_break_observed_def split: chain_state.split)
    ultimately show ?thesis
      using rest route_chain_pipeline [of E s5 "chain_on_break_observed (sb_chain s5) now"] by auto
  qed
qed

lemma on_tx_complete_pipeline:
  assumes "on_tx_complete E s = Some s'" "pipeline_ok s"
  shows "pipeline_ok s'"
proof -
  obtain t c out where t: "tx_on_arm_complete (be_crc E) (sb_tx s) (sb_crc s) = Some (t, c, out)"
    using assms(1) by (auto simp: on_tx_complete_def bind_eq_Some_conv)
  have kind: "if tx_streaming (sb_tx s) then \<not> tx_staged t else t = sb_tx s"
    using t by (auto simp: tx_on_arm_complete_def tx_state_defs bind_eq_Some_conv split: tx_state.splits if_splits)
  then have "pipeline_ok (s\<lparr> sb_tx := t, sb_crc := c \<rparr>)"
    using assms(2) by (auto simp: pipeline_ok_def dest: tx_not_both split: if_splits)
  then show ?thesis
    using assms(1) t by (auto simp: on_tx_complete_def Let_def apply_rate_def pipeline_ok_def split: if_splits option.splits)
qed

lemma on_rescue_break_pipeline: "pipeline_ok s \<Longrightarrow> pipeline_ok (on_rescue_break E s)"
  by (cases "tx_streaming (sb_tx s)")
    (simp_all add: on_rescue_break_def Let_def split_beta, simp add: pipeline_ok_def)

subsection \<open>Runs of the transport\<close>

datatype bus_event =
  BeBreak | BeDeadline | BeTxComplete | BeRescue | BeTakeReboot | BePollTrim
  | BeInstall session_keys | BePolicy policy

fun bus_step ::
  "('c, 'e) bus_env_scheme \<Rightarrow> 'd dispatch_port \<Rightarrow> 'c servo_bus \<times> 'd \<Rightarrow> bus_event \<Rightarrow> ('c servo_bus \<times> 'd) option" where
  "bus_step E D (s, d) BeBreak = on_break E D s d"
| "bus_step E D (s, d) BeDeadline = on_deadline E D s d"
| "bus_step E D (s, d) BeTxComplete = map_option (\<lambda>s. (s, d)) (on_tx_complete E s)"
| "bus_step E D (s, d) BeRescue = Some (on_rescue_break E s, d)"
| "bus_step E D (s, d) BeTakeReboot = Some (fst (take_reboot s), d)"
| "bus_step E D (s, d) BePollTrim = Some (fst (poll_clock_trim s), d)"
| "bus_step E D (s, d) (BeInstall keys) = Some (install_session s keys, d)"
| "bus_step E D (s, d) (BePolicy p) = Some (set_policy s p, d)"

fun bus_run ::
  "('c, 'e) bus_env_scheme \<Rightarrow> 'd dispatch_port \<Rightarrow> 'c servo_bus \<times> 'd \<Rightarrow> bus_event list \<Rightarrow> ('c servo_bus \<times> 'd) option" where
  "bus_run E D sd [] = Some sd"
| "bus_run E D sd (e # es) = do { sd' \<leftarrow> bus_step E D sd e; bus_run E D sd' es }"

lemma bus_step_pipeline: "bus_step E D (s, d) e = Some (s', d') \<Longrightarrow> pipeline_ok s \<Longrightarrow> pipeline_ok s'"
proof (cases e)
  case BeDeadline
  then show "bus_step E D (s, d) e = Some (s', d') \<Longrightarrow> pipeline_ok s \<Longrightarrow> pipeline_ok s'"
    by (auto simp: on_deadline_def bind_eq_Some_conv dest: deadline_loop_pipeline)
next
  case BeRescue
  then show "bus_step E D (s, d) e = Some (s', d') \<Longrightarrow> pipeline_ok s \<Longrightarrow> pipeline_ok s'"
    by (auto intro: on_rescue_break_pipeline)
qed (auto simp: take_reboot_def poll_clock_trim_def install_session_def set_policy_def split_beta Let_def
    dest: on_break_pipeline on_tx_complete_pipeline split: if_splits)

end
