(* ===== verification/Servo_Tot.thy ===== *)
theory Servo_Tot
  imports Servo_Inv
begin

text \<open>
  The transport composite always returns: well-formedness of the transmit engine, of the framed spans
  and of the pending frame, kept by every handler whatever the ring holds and whatever the clock reads.
\<close>

subsection \<open>The transmit engine never indexes out of its buffers\<close>

definition arm_ok :: "arm \<Rightarrow> bool" where
  "arm_ok a \<longleftrightarrow> (case a of ArmBuf off len \<Rightarrow> unat off + unat len \<le> REPLY_BUF | ArmExt _ _ \<Rightarrow> True)"

definition tx_wf :: "tx_engine \<Rightarrow> bool" where
  "tx_wf t \<longleftrightarrow> tx_ok t \<and> (\<forall>a\<in>set (tx_arms t). arm_ok a) \<and> (\<forall>a\<in>set (tx_feeds t). arm_ok a) \<and>
     tx_n_arms t \<le> 4 \<and> tx_n_feeds t \<le> 3 \<and> unat (tx_crc_off t) + 2 \<le> REPLY_BUF \<and>
     (case tx_tail t of Some (TailBuf i) \<Rightarrow> i < REPLY_BUF | _ \<Rightarrow> True)"

lemma tx_wf_new: "tx_wf tx_new"
  by (simp add: tx_wf_def tx_ok_new) (simp add: tx_new_def arm_ok_def NO_ARM_def REPLY_BUF_def)

lemma tx_resolve_total: "arm_ok a \<Longrightarrow> length (fbuf_bytes b) = REPLY_BUF \<Longrightarrow> \<exists>x. tx_resolve C c b a = Some x"
  by (auto simp: tx_resolve_def arm_ok_def slice_opt_def split: arm.splits)

lemma tx_trigger_total:
  assumes "tx_wf t"
  shows "\<exists>t' c'. tx_trigger C t c over = Some (t', c') \<and> tx_wf t'"
proof -
  define buf where "buf = (tx_buf t)\<lparr> fbuf_bytes := (fbuf_bytes (tx_buf t))
                     [3 := inst_status (case over of Some r \<Rightarrow> r | None \<Rightarrow> tx_result t) (tx_alert t)] \<rparr>"
  have b: "length (fbuf_bytes buf) = REPLY_BUF" using assms by (simp add: buf_def tx_wf_def tx_ok_def)
  have n: "length (tx_arms t) = 4" "length (tx_feeds t) = 3" using assms by (simp_all add: tx_wf_def tx_ok_def)
  then have a: "nth_opt (tx_arms t) 0 = Some (tx_arms t ! 0)" "nth_opt (tx_feeds t) 0 = Some (tx_feeds t ! 0)"
    "arm_ok (tx_arms t ! 0)" "arm_ok (tx_feeds t ! 0)"
    using assms by (auto simp: nth_opt_Some tx_wf_def)
  obtain x y where "tx_resolve C (ce_reset C c) buf (tx_arms t ! 0) = Some x" "tx_resolve C (ce_reset C c) buf (tx_feeds t ! 0) = Some y"
    using tx_resolve_total [OF a(3) b] tx_resolve_total [OF a(4) b] by metis
  then show ?thesis
    using assms a b by (simp add: tx_trigger_def buf_def [symmetric] Let_def) (simp add: tx_wf_def tx_ok_def)
qed

lemma tx_patch_total:
  assumes "tx_wf t"
  shows "\<exists>t' c'. tx_patch_crc C t c = Some (t', c') \<and> tx_wf t' \<and> tx_arms t' = tx_arms t \<and> tx_n_arms t' = tx_n_arms t"
proof -
  obtain c' v where p: "crc_poll C SPIN_PER_BYTE c = (c', v)" by fastforce
  have len: "length (fbuf_bytes (tx_buf t)) = REPLY_BUF" and off: "unat (tx_crc_off t) + 2 \<le> REPLY_BUF"
    using assms by (simp_all add: tx_wf_def tx_ok_def)
  show ?thesis
  proof (cases v)
    case None
    then show ?thesis using assms by (simp add: tx_patch_crc_def p) (simp add: tx_wf_def tx_ok_def)
  next
    case (Some w)
    obtain w' where "(case tx_tail t of
                        None \<Rightarrow> Some w
                      | Some (TailBuf i) \<Rightarrow> map_option (\<lambda>b. osc_crc_continue w [b]) (nth_opt (fbuf_bytes (tx_buf t)) i)
                      | Some (TailExt p) \<Rightarrow> Some (osc_crc_continue w (ce_read C c' p 1))) = Some w'"
      using assms len by (auto simp: tx_wf_def nth_opt_Some split: option.splits tail_ref.splits)
    then show ?thesis
      using Some assms len off by (simp add: tx_patch_crc_def p Let_def) (simp add: tx_wf_def tx_ok_def)
  qed
qed

lemma tx_on_arm_complete_total:
  assumes "tx_wf t"
  shows "\<exists>t' c' out. tx_on_arm_complete C t c = Some (t', c', out) \<and> tx_wf t'"
proof (cases "\<exists>n. tx_state t = TxStreaming n \<and> n < tx_n_arms t")
  case False
  then show ?thesis
    using assms by (auto simp: tx_on_arm_complete_def split: tx_state.split) (simp_all add: tx_wf_def tx_ok_def)
next
  case True
  then obtain n where n: "tx_state t = TxStreaming n" "n < tx_n_arms t" by blast
  have len: "length (tx_arms t) = 4" "length (tx_feeds t) = 3" "tx_n_arms t \<le> 4" "tx_n_feeds t \<le> 3"
    using assms by (simp_all add: tx_wf_def tx_ok_def)
  have un: "unat n < 4" using n(2) len(3) by (simp add: word_less_nat_alt word_le_nat_alt)
  have "\<exists>t1 c1. (if n < tx_n_feeds t
                then do { fd \<leftarrow> nth_opt (tx_feeds t) (unat n); y \<leftarrow> tx_resolve C c (tx_buf t) fd; Some (t, ce_feed C c y) }
                else tx_patch_crc C t c) = Some (t1, c1) \<and> tx_wf t1 \<and> tx_arms t1 = tx_arms t"
  proof (cases "n < tx_n_feeds t")
    case True
    then have "unat n < 3" using len(4) by (simp add: word_less_nat_alt word_le_nat_alt)
    then have "arm_ok (tx_feeds t ! unat n)" "nth_opt (tx_feeds t) (unat n) = Some (tx_feeds t ! unat n)"
      using assms len(2) by (auto simp: tx_wf_def nth_opt_Some)
    moreover have "length (fbuf_bytes (tx_buf t)) = REPLY_BUF" using assms by (simp add: tx_wf_def tx_ok_def)
    ultimately show ?thesis using tx_resolve_total [of "tx_feeds t ! unat n" "tx_buf t" C c] True assms by auto
  next
    case False
    then show ?thesis using tx_patch_total [OF assms, of C c] by auto
  qed
  then obtain t1 c1 where t1: "(if n < tx_n_feeds t
                then do { fd \<leftarrow> nth_opt (tx_feeds t) (unat n); y \<leftarrow> tx_resolve C c (tx_buf t) fd; Some (t, ce_feed C c y) }
                else tx_patch_crc C t c) = Some (t1, c1)" "tx_wf t1" "tx_arms t1 = tx_arms t" by blast
  have "arm_ok (tx_arms t ! unat n)" "nth_opt (tx_arms t) (unat n) = Some (tx_arms t ! unat n)"
    using assms len(1) un by (auto simp: tx_wf_def nth_opt_Some)
  moreover have "length (fbuf_bytes (tx_buf t1)) = REPLY_BUF" using t1(2) by (simp add: tx_wf_def tx_ok_def)
  ultimately obtain x where "tx_resolve C c1 (tx_buf t1) (tx_arms t ! unat n) = Some x" using tx_resolve_total by metis
  then show ?thesis
    using n t1 \<open>nth_opt (tx_arms t) (unat n) = Some (tx_arms t ! unat n)\<close>
    by (simp add: tx_on_arm_complete_def) (simp add: tx_wf_def tx_ok_def)
qed

lemma tx_abort_wf: "tx_wf t \<Longrightarrow> tx_wf (tx_abort t)"
  by (simp add: tx_abort_def) (simp add: tx_wf_def tx_ok_def)

lemma tx_mark_wf [simp]: "tx_wf (tx_mark_collision_tolerant t k) = tx_wf t"
  by (simp add: tx_mark_collision_tolerant_def tx_wf_def tx_ok_def split: tx_state.split)


lemma stage_small_total:
  assumes "tx_wf t" "sum_list (map length spans) \<le> 2"
  shows "\<exists>t'. stage_small t i n (of_nat (sum_list (map length spans))) spans = Some t' \<and> tx_wf t'"
proof -
  have len: "length (fbuf_bytes (tx_buf t)) = 16" "length (tx_arms t) = 4" "length (tx_feeds t) = 3"
    using assms(1) by (simp_all add: tx_wf_def tx_ok_def REPLY_BUF_def)
  obtain b0 b1 b2 b3 r where bs: "fbuf_bytes (tx_buf t) = b0 # b1 # b2 # b3 # r" "length r = 12"
    using len(1) by (auto simp: numeral_eq_Suc length_Suc_conv)
  have cs: "copy_spans spans 0 pay = Some (put 0 (concat spans) pay)" if "length pay = 10" for pay
    using assms(2) that by (intro copy_spans_concat) simp
  have set: "\<forall>a\<in>set (xs[0 := u, 1 := v]). arm_ok a" if "\<forall>a\<in>set xs. arm_ok a" "arm_ok u" "arm_ok v" for xs u v
    using that set_update_subset_insert [of "xs[0 := u]" 1 v] set_update_subset_insert [of xs 0 u] by blast
  have set1: "\<forall>a\<in>set (xs[0 := u]). arm_ok a" if "\<forall>a\<in>set xs. arm_ok a" "arm_ok u" for xs u
    using that set_update_subset_insert [of xs 0 u] by blast
  define m where "m = sum_list (map length spans)"
  define x where "x = concat spans"
  have x: "length x = m" by (simp add: x_def m_def length_concat)
  have m: "m \<in> {0, 1, 2}" using assms(2) unfolding m_def [symmetric] by auto
  define fb where "fb = frame_buf_start (tx_buf t) i n"
  have fb: "length (fbuf_bytes fb) = 16" using len by (simp add: fb_def frame_buf_start_def)
  obtain pay where pay: "frame_buf_payload_mut fb = Some pay" "length pay = 10"
    using fb by (simp add: frame_buf_payload_mut_def slice_opt_def)
  define fb1 where "fb1 = frame_buf_with_payload fb (put 0 x pay)"
  have fb1: "length (fbuf_bytes fb1) = 16"
    using fb pay(2) x m by (auto simp: fb1_def frame_buf_with_payload_def)
  obtain fb2 where fb2: "frame_buf_finish fb1 (of_nat m) = Some fb2" "length (fbuf_bytes fb2) = 16"
    using fb1 m by (auto simp: frame_buf_finish_def MAX_PAYLOAD_def word_le_nat_alt)
  have cov: "covered_len (len_for (of_nat m)) = 4 + m" using m by (auto simp: covered_len_def len_for_def)
  let ?bulk = "(of_nat (4 + m) :: u16) AND NOT 1"
  let ?t = "t\<lparr> tx_buf := fb2, tx_arms := (tx_arms t)[0 := ArmBuf 1 (of_nat (3 + m)), 1 := ArmBuf (of_nat (4 + m)) 2],
             tx_n_arms := 2, tx_feeds := (tx_feeds t)[0 := ArmBuf 0 ?bulk], tx_n_feeds := 1,
             tx_tail := (if odd (4 + m) then Some (TailBuf (3 + m)) else None), tx_crc_off := of_nat (4 + m) \<rparr>"
  have eq: "stage_small t i n (of_nat m) spans = Some ?t"
    using pay cs [OF pay(2)] fb2(1)
    unfolding stage_small_def Let_def fb_def [symmetric] x_def [symmetric] fb1_def [symmetric] cov by (simp add: fb1_def x_def)
  have ok: "arm_ok (ArmBuf 1 (of_nat (3 + m)))" "arm_ok (ArmBuf (of_nat (4 + m)) 2)" "arm_ok (ArmBuf 0 ?bulk)"
    using m by (auto simp: arm_ok_def REPLY_BUF_def)
  have arms: "\<forall>a\<in>set (tx_arms t). arm_ok a" "\<forall>a\<in>set (tx_feeds t). arm_ok a" using assms(1) by (auto simp: tx_wf_def)
  have "tx_wf ?t"
    using set [OF arms(1) ok(1,2)] set1 [OF arms(2) ok(3)] len fb2(2) m
    unfolding tx_wf_def tx_ok_def REPLY_BUF_def by auto
  then show ?thesis using eq by (simp add: m_def)
qed

lemma stage_large_wf:
  assumes "tx_wf t" "sum_list (map length spans) \<le> 252"
  shows "tx_wf (fst (stage_large C t c i n p spans))"
proof -
  have set3: "\<forall>a\<in>set (xs[0 := u, 1 := v, 2 := w]). arm_ok a" if "\<forall>a\<in>set xs. arm_ok a" "arm_ok u" "arm_ok v" "arm_ok w" for xs u v w
    using that set_update_subset_insert [of "xs[0 := u, 1 := v]" 2 w] set_update_subset_insert [of "xs[0 := u]" 1 v]
      set_update_subset_insert [of xs 0 u] by blast
  have set2: "\<forall>a\<in>set (xs[0 := u, 1 := v]). arm_ok a" if "\<forall>a\<in>set xs. arm_ok a" "arm_ok u" "arm_ok v" for xs u v
    using that set_update_subset_insert [of "xs[0 := u]" 1 v] set_update_subset_insert [of xs 0 u] by blast
  have arms: "arm_ok (ArmBuf 1 3)" "arm_ok (ArmBuf 4 2)" "arm_ok (ArmBuf 0 4)" "arm_ok (ArmExt q l)" for q l
    by (simp_all add: arm_ok_def REPLY_BUF_def)
  have t: "\<forall>a\<in>set (tx_arms t). arm_ok a" "\<forall>a\<in>set (tx_feeds t). arm_ok a" "tx_ok t" using assms(1) by (auto simp: tx_wf_def)
  have "\<forall>a\<in>set ((tx_arms t)[0 := ArmBuf 1 3, 1 := ArmExt q l, 2 := ArmBuf 4 2]). arm_ok a" for q l
    by (rule set3 [OF t(1)]) (rule arms)+
  moreover have "\<forall>a\<in>set ((tx_feeds t)[0 := ArmBuf 0 4, 1 := ArmExt q l]). arm_ok a" for q l
    by (rule set2 [OF t(2)]) (rule arms)+
  ultimately show ?thesis
    using t(3) unfolding stage_large_def Let_def split_beta tx_wf_def tx_ok_def REPLY_BUF_def
    by (simp del: set_update_memI)
qed

lemma tx_stage_total:
  assumes "tx_wf t"
  shows "\<exists>t' c' r. tx_stage_gather C t c i res al spans = Some (t', c', r) \<and> tx_wf t'"
proof (cases "tx_busy t \<or> sum_list (map length spans) > unat MAX_PAYLOAD")
  case True
  then show ?thesis using assms by (auto simp: tx_stage_gather_def)
next
  case False
  let ?n = "sum_list (map length spans)" and ?inst = "inst_status res al"
  have "\<exists>t1 c1. (if ?n \<le> SMALL_COPY_MAX then map_option (\<lambda>t1. (t1, c)) (stage_small t i ?inst (of_nat ?n) spans)
                 else Some (stage_large C t c i ?inst (of_nat ?n) spans)) = Some (t1, c1) \<and> tx_wf t1"
  proof (cases "?n \<le> SMALL_COPY_MAX")
    case True
    then show ?thesis using stage_small_total [OF assms, of spans i ?inst] by (auto simp: SMALL_COPY_MAX_def)
  next
    case large: False
    have "?n \<le> 252" using False by (simp add: MAX_PAYLOAD_def)
    then show ?thesis
      using stage_large_wf [OF assms, of spans C c i ?inst "of_nat ?n"] large
      by (cases "stage_large C t c i ?inst (of_nat ?n) spans") simp
  qed
  then obtain t1 c1 where t1: "(if ?n \<le> SMALL_COPY_MAX then map_option (\<lambda>t1. (t1, c)) (stage_small t i ?inst (of_nat ?n) spans)
                 else Some (stage_large C t c i ?inst (of_nat ?n) spans)) = Some (t1, c1)" "tx_wf t1" by blast
  have "unat (tx_crc_off t1) + 2 \<le> length (fbuf_bytes (tx_buf t1))" using t1(2) by (simp add: tx_wf_def tx_ok_def)
  then show ?thesis
    using False t1 by (simp add: tx_stage_gather_def Let_def not_less) (simp add: tx_wf_def tx_ok_def)
qed

subsection \<open>The reply surface and the chain always return\<close>

lemma handle_event_total:
  assumes "tx_wf (sb_tx s)"
  shows "\<exists>s' b'. handle_event E tolerant (s, b) e = Some (s', b') \<and> tx_wf (sb_tx s')"
proof -
  have "\<exists>s' b'. map_option (handle_staged tolerant key b s) (tx_stage_gather (be_crc E) (sb_tx s) (sb_crc s) (sb_id s) r a spans) = Some (s', b') \<and>
      tx_wf (sb_tx s')" for key r a spans
  proof -
    obtain t' c' res where "tx_stage_gather (be_crc E) (sb_tx s) (sb_crc s) (sb_id s) r a spans = Some (t', c', res)" "tx_wf t'"
      using tx_stage_total [OF assms, of "be_crc E" "sb_crc s" "sb_id s" r a spans] by blast
    then show ?thesis by (cases res; cases tolerant) (auto simp: handle_staged_def)
  qed
  then show ?thesis using assms by (cases e) (simp_all add: tx_stage_def)
qed

lemma handle_events_total:
  "tx_wf (sb_tx s) \<Longrightarrow> \<exists>s' b'. handle_events E tolerant (s, b) es = Some (s', b') \<and> tx_wf (sb_tx s')"
proof (induction es arbitrary: s b)
  case (Cons e es)
  then show ?case using handle_event_total [of s E tolerant b e] by fastforce
qed simp

lemma route_chain_total:
  "tx_wf (sb_tx s) \<Longrightarrow> \<exists>s'. route_chain E s out = Some s' \<and> tx_wf (sb_tx s') \<and> sb_framer s' = sb_framer s \<and> sb_pending s' = sb_pending s"
proof (induction E s out rule: route_chain.induct)
  case (1 E s)
  then show ?case by simp
next
  case (2 E s t)
  define s1 where "s1 = snd (read_now E s)"
  define now where "now = fst (read_now E s)"
  have rd: "read_now E s = (now, s1)" by (simp add: s1_def now_def)
  have ok: "tx_wf (sb_tx s1)" "sb_framer s1 = sb_framer s" "sb_pending s1 = sb_pending s" using "2.prems" by (simp_all add: s1_def read_now_def)
  obtain ch out where d: "chain_on_deadline (sb_chain s1) now = (ch, out)" by fastforce
  show ?case
    using "2.IH" [OF refl rd [symmetric] _ refl d [symmetric]] ok d by (auto simp: rd)
next
  case (3 E s silent)
  obtain t c where "tx_trigger (be_crc E) (sb_tx s) (sb_crc s) (if silent then Some RcPredecessorSilent else None) = Some (t, c)" "tx_wf t"
    using tx_trigger_total [OF "3.prems", of "be_crc E" "sb_crc s"] by blast
  then show ?case by simp
qed


subsection \<open>Every read of a framed span stays in the ring\<close>

definition span_ok :: "nat \<Rightarrow> u16 \<Rightarrow> u16 \<Rightarrow> bool" where
  "span_ok L anchor fp \<longleftrightarrow> unat anchor < L \<and> 6 \<le> unat fp \<and> unat fp \<le> 258"

lemma ring_len: "ring_ok ring \<Longrightarrow> 258 < length ring \<and> even (length ring)"
proof -
  assume ok: "ring_ok ring"
  then obtain k where k: "length ring = 2 ^ k" "258 < length ring" by (auto simp: ring_ok_def FRAME_MAX_def footprint_def)
  then have "k \<noteq> 0" by (cases k) auto
  then show ?thesis using k by simp
qed

lemma nth_mod_total: "ring_ok ring \<Longrightarrow> \<exists>b. nth_opt ring (i mod length ring) = Some b"
  using ring_len by (fastforce simp: nth_opt_Some)

lemma ring_inst_total: "ring_ok ring \<Longrightarrow> \<exists>i. ring_inst ring anchor = Some i"
  by (simp add: ring_inst_def nth_mod_total)

lemma span_start:
  assumes "ring_ok ring" "span_ok (length ring) anchor fp"
  shows "unat anchor + unat anchor mod 2 \<le> length ring" "unat anchor + unat anchor mod 2 + 2 \<le> unat anchor + unat fp"
proof -
  have "unat anchor mod 2 \<le> 1" by simp
  moreover have "unat anchor \<noteq> length ring - 1 \<or> odd (unat anchor)" using ring_len [OF assms(1)] by (cases "unat anchor = length ring - 1") auto
  ultimately show "unat anchor + unat anchor mod 2 \<le> length ring"
    using assms(2) by (auto simp: span_ok_def)
  have "unat anchor mod 2 + 2 \<le> unat fp" using assms(2) \<open>unat anchor mod 2 \<le> 1\<close> unfolding span_ok_def by linarith
  then show "unat anchor + unat anchor mod 2 + 2 \<le> unat anchor + unat fp" by simp
qed

lemma slice_opt_total: "a \<le> b \<Longrightarrow> b \<le> length xs \<Longrightarrow> \<exists>ys. slice_opt xs a b = Some ys"
  by (simp add: slice_opt_def)

lemma wrapped_slices_total:
  assumes "start \<le> length ring" "start \<le> fin" "fin \<le> length ring + length ring"
  shows "if fin \<le> length ring then \<exists>x. slice_opt ring start fin = Some x
    else (\<exists>x. slice_opt ring start (length ring) = Some x) \<and> (\<exists>y. slice_opt ring 0 (fin - length ring) = Some y)"
  using assms by (simp add: slice_opt_total)

lemma crc_feed_total:
  assumes "ring_ok ring" "span_ok (length ring) anchor fp"
  shows "\<exists>c'. crc_feed C ring c anchor fp = Some c'"
proof -
  define start where "start = unat anchor + unat anchor mod 2"
  define fin where "fin = unat anchor + unat fp - 2"
  define bulk where "bulk = fin - (fin - start) mod 2"
  have st: "start \<le> length ring" "start + 2 \<le> unat anchor + unat fp" using span_start [OF assms] by (simp_all add: start_def)
  have f: "start \<le> fin" "fin \<le> length ring + length ring"
    using st(2) assms(2) ring_len [OF assms(1)] unfolding span_ok_def fin_def by linarith+
  have b: "start \<le> bulk" "bulk \<le> length ring + length ring"
    using f mod_less_eq_dividend [of "fin - start" 2] unfolding bulk_def by linarith+
  have "\<not> unat anchor + unat fp < start + 2" using st(2) by simp
  then have "crc_feed C ring c anchor fp =
    (if bulk \<le> length ring then do { x \<leftarrow> slice_opt ring start bulk; Some (ce_feed C (ce_reset C c) x) }
     else do { x \<leftarrow> slice_opt ring start (length ring); y \<leftarrow> slice_opt ring 0 (bulk - length ring);
               Some (ce_feed C (ce_feed C (ce_reset C c) x) y) })"
    by (simp only: crc_feed_def Let_def start_def [symmetric] fin_def [symmetric] bulk_def [symmetric] if_False)
  then show ?thesis
    using wrapped_slices_total [OF st(1) b] by (cases "bulk \<le> length ring") auto
qed

lemma crc_verify_total:
  assumes "ring_ok ring" "span_ok (length ring) anchor fp"
  shows "\<exists>c' r. crc_verify C ring c anchor fp = Some (c', r)"
proof -
  have "\<exists>t. crc_tail ring anchor fp = Some t"
    using span_start(2) [OF assms] nth_mod_total [OF assms(1), of "unat anchor + unat fp - 2 - 1"]
    by (auto simp: crc_tail_def Let_def)
  then show ?thesis
    using nth_mod_total [OF assms(1), of "unat anchor + (unat fp - 2)"] nth_mod_total [OF assms(1), of "unat anchor + (unat fp - 2) + 1"]
    by (auto simp: crc_verify_def Let_def split: prod.split option.split)
qed

lemma crc_ok_total:
  assumes "ring_ok ring" "span_ok (length ring) anchor fp"
  shows "\<exists>c' r. crc_ok C ring c anchor fp = Some (c', r)"
  using crc_feed_total [OF assms, of C c] crc_verify_total [OF assms, of C] by (fastforce simp: crc_ok_def)

lemma security_fold_total:
  assumes "ring_ok ring" "span_ok (length ring) anchor fp"
  shows "\<exists>sec'. security_fold ring sec anchor fp = Some sec'"
proof -
  obtain i where i: "ring_inst ring anchor = Some i" using ring_inst_total [OF assms(1)] by blast
  define start where "start = (unat anchor + 1) mod length ring"
  define fin where "fin = start + (unat fp - 3)"
  have "start \<le> length ring" "start \<le> fin" "fin \<le> length ring + length ring"
    using assms(2) ring_len [OF assms(1)] mod_less_divisor [of "length ring" "unat anchor + 1"]
    unfolding span_ok_def start_def fin_def by linarith+
  note sl = wrapped_slices_total [OF this]
  have "security_fold ring sec anchor fp =
    (if \<not> folds_into_stream i then Some sec
     else if fin \<le> length ring then do { x \<leftarrow> slice_opt ring start fin; Some (ctx_fold sec i x []) }
     else do { x \<leftarrow> slice_opt ring start (length ring); y \<leftarrow> slice_opt ring 0 (fin - length ring);
               Some (ctx_fold sec i x y) })"
    unfolding security_fold_def covered_span_def Let_def i start_def [symmetric] by (simp add: fin_def)
  then show ?thesis using sl by (cases "fin \<le> length ring") auto
qed

lemma those_total: "(\<And>x. x \<in> set xs \<Longrightarrow> \<exists>y. f x = Some y) \<Longrightarrow> \<exists>ys. those (map f xs) = Some ys"
proof (induction xs)
  case (Cons x xs)
  then obtain y ys where "f x = Some y" "those (map f xs) = Some ys" by fastforce
  then show ?case by simp
qed simp

lemma auth_verify_total:
  assumes "ring_ok ring"
  shows "\<exists>sec' r. auth_verify ring sec anchor fp = Some (sec', r)"
proof -
  obtain i where i: "ring_inst ring anchor = Some i" using ring_inst_total [OF assms(1)] by blast
  obtain b where b: "nth_opt ring ((unat anchor + 1) mod length ring) = Some b" using nth_mod_total [OF assms] by blast
  define start where "start = (unat anchor + 1) mod length ring"
  obtain buf where buf: "those (map (\<lambda>k. nth_opt ring ((start + k) mod length ring)) [0..<unat fp - 3]) = Some buf"
    using those_total [of "[0..<unat fp - 3]" "\<lambda>k. nth_opt ring ((start + k) mod length ring)"] nth_mod_total [OF assms] by blast
  show ?thesis
    using b unfolding auth_verify_def covered_span_def i start_def [symmetric]
    by (simp add: buf Let_def split_beta)
qed

lemma frame_view_total:
  assumes "ring_ok ring" "span_ok (length ring) anchor fp"
  shows "\<exists>f. frame_view ring anchor fp = Some f"
  using assms(2) ring_len [OF assms(1)]
  by (auto simp: frame_view_def span_ok_def slice_opt_def Let_def bind_eq_Some_conv)

lemma drift_note_total:
  assumes "ring_ok (ring_of E s)"
  shows "\<exists>ck. drift_note_verified E s anchor fp = Some (s\<lparr> sb_clock := ck \<rparr>)"
  using ring_inst_total [OF assms, of anchor] nth_mod_total [OF assms, of "unat anchor + 1"] ring_wrap_ok [OF assms, of "unat anchor + 1"]
  by (auto simp: drift_note_verified_def Let_def)


subsection \<open>The transport always returns\<close>

definition env_ok :: "('c, 'e) bus_env_scheme \<Rightarrow> nat \<Rightarrow> bool" where
  "env_ok E L \<longleftrightarrow> (\<forall>n. ring_ok (be_ring E n) \<and> length (be_ring E n) = L \<and> unat (be_cursor E n) < L)"

definition port_total :: "'d dispatch_port \<Rightarrow> bool" where
  "port_total D \<longleftrightarrow> (\<forall>d req ctx. dp_dispatch D d req ctx \<noteq> None)"

definition bus_wf :: "nat \<Rightarrow> 'c servo_bus \<Rightarrow> bool" where
  "bus_wf L s \<longleftrightarrow> unat (fm_anchor (sb_framer s)) < L \<and> tx_wf (sb_tx s) \<and>
     (\<forall>p. sb_pending s = Some p \<longrightarrow> span_ok L (pf_anchor p) (pf_footprint p))"

lemma env_okD: "env_ok E L \<Longrightarrow> ring_ok (ring_of E s)" "env_ok E L \<Longrightarrow> length (ring_of E s) = L"
  by (simp_all add: env_ok_def ring_of_def)

lemma surface_wf:
  "surface_step s b s' b' \<Longrightarrow> tx_wf (sb_tx s') \<Longrightarrow> bus_wf L s \<Longrightarrow> bus_wf L s'"
  by (auto simp: surface_step_def bus_wf_def)

lemma handle_events_wf:
  assumes "bus_wf L s"
  shows "\<exists>s' b'. handle_events E tolerant (s, False) es = Some (s', b') \<and> bus_wf L s'"
  using handle_events_total [of s E tolerant False es] handle_events_step assms surface_wf
  by (metis bus_wf_def)

lemma commit_effect_wf: "bus_wf L s \<Longrightarrow> \<exists>s' d'. commit_effect E D s d = Some (s', d') \<and> bus_wf L s'"
  using handle_events_wf [of L s E False "snd (dp_commit D d)"] by (auto simp: commit_effect_def split_beta)

text \<open>The dispatcher answers the request this span decodes to, if it is one of ours.\<close>

definition answers :: "('c, 'e) bus_env_scheme \<Rightarrow> 'd dispatch_port \<Rightarrow> 'c servo_bus \<Rightarrow> 'd \<Rightarrow> u16 \<Rightarrow> u16 \<Rightarrow> bool" where
  "answers E D s d anchor fp \<longleftrightarrow>
     (\<forall>frame req ctx slot. frame_view (ring_of E s) anchor fp = Some frame \<longrightarrow>
        decode frame (sb_id s) = DecOwn req ctx slot \<longrightarrow> dp_dispatch D d req ctx \<noteq> None)"

lemma port_total_answers: "port_total D \<Longrightarrow> answers E D s d anchor fp"
  by (simp add: port_total_def answers_def)

lemma answers_cong: "ring_of E s' = ring_of E s \<Longrightarrow> sb_id s' = sb_id s \<Longrightarrow> answers E D s' d anchor fp = answers E D s d anchor fp"
  by (simp add: answers_def)

lemma dispatch_decoded_wf:
  assumes "env_ok E L" "answers E D s d anchor fp" "bus_wf L s" "span_ok L anchor fp"
  shows "\<exists>s' d' r. dispatch_decoded E D s d anchor fp = Some (s', d', r) \<and> bus_wf L s'"
proof -
  obtain frame where f: "frame_view (ring_of E s) anchor fp = Some frame"
    using frame_view_total [of "ring_of E s" anchor fp] env_okD [OF assms(1)] assms(4) by auto
  show ?thesis
  proof (cases "decode frame (sb_id s)")
    case (DecOwn req ctx slot)
    then have "dp_dispatch D d req ctx \<noteq> None" using assms(2) f by (simp add: answers_def)
    then obtain d' evs out where "dp_dispatch D d req ctx = Some (d', evs, out)" by (metis not_Some_eq prod_cases3)
    then show ?thesis
      using handle_events_wf [OF assms(3), of E "is_enumerate req" evs] DecOwn f by (auto simp: dispatch_decoded_def)
  qed (use f assms(3) in \<open>simp_all add: dispatch_decoded_def\<close>)
qed

lemma route_chain_wf: "bus_wf L s \<Longrightarrow> \<exists>s'. route_chain E s out = Some s' \<and> bus_wf L s'"
  using route_chain_total [of s E out] by (auto simp: bus_wf_def)

lemma bus_wf_updates [simp]:
  "bus_wf L (s\<lparr> sb_chain := ch \<rparr>) = bus_wf L s" "bus_wf L (s\<lparr> sb_crc := c \<rparr>) = bus_wf L s"
  "bus_wf L (s\<lparr> sb_security := sec \<rparr>) = bus_wf L s" "bus_wf L (s\<lparr> sb_clock := ck \<rparr>) = bus_wf L s"
  "bus_wf L (s\<lparr> sb_framer_at := fa \<rparr>) = bus_wf L s" "bus_wf L (s\<lparr> sb_chain_at := fa \<rparr>) = bus_wf L s"
  "bus_wf L (s\<lparr> sb_compare := fa \<rparr>) = bus_wf L s" "bus_wf L (s\<lparr> sb_sample := n \<rparr>) = bus_wf L s"
  "bus_wf L (s\<lparr> sb_pending_reboot := rb \<rparr>) = bus_wf L s" "bus_wf L (s\<lparr> sb_crc_fails := k \<rparr>) = bus_wf L s"
  "bus_wf L (s\<lparr> sb_framer := framer_on_frame_verified (sb_framer s) \<rparr>) = bus_wf L s"
  "bus_wf L (count_crc_fail s) = bus_wf L s"
  by (simp_all add: bus_wf_def framer_on_frame_verified_def count_crc_fail_def)

lemma bus_wf_less:
  "bus_wf L s \<Longrightarrow> bus_wf L (s\<lparr> sb_pending := None \<rparr>)" "bus_wf L s \<Longrightarrow> bus_wf L (s\<lparr> sb_tx := tx_abort (sb_tx s) \<rparr>)"
  by (simp_all add: bus_wf_def tx_abort_wf)

lemma drop_staged_wf: "bus_wf L s \<Longrightarrow> bus_wf L (drop_staged s)"
  by (simp add: drop_staged_def Let_def bus_wf_less)

lemma refuse_frame_wf: "bus_wf L s \<Longrightarrow> bus_wf L (refuse_frame s)"
  by (simp add: refuse_frame_def bus_wf_def framer_on_frame_verified_def)

lemma ring_wrap_u16: "ring_ok ring \<Longrightarrow> unat (of_nat (ring_wrap i (length ring)) :: u16) < length ring"
proof -
  assume ok: "ring_ok ring"
  have "i mod length ring < length ring" using ring_len [OF ok] by (intro mod_less_divisor) linarith
  moreover have "length ring \<le> 2 ^ 15" using ok by (simp add: ring_ok_def)
  ultimately show ?thesis by (simp add: ring_wrap_ok [OF ok] unat_of_nat16)
qed

lemma reject_frame_wf:
  assumes "env_ok E L" "bus_wf L s"
  shows "bus_wf L (reject_frame E s anchor)"
  using assms(2) ring_wrap_u16 [of "ring_of E (count_crc_fail s)" "unat anchor + 1"] env_okD [OF assms(1)]
  by (simp add: reject_frame_def Let_def bus_wf_def framer_on_frame_rejected_def count_crc_fail_def)

lemma sequence_reply_wf: "bus_wf L s \<Longrightarrow> \<exists>s'. sequence_reply E s slot e = Some s' \<and> bus_wf L s'"
  by (auto simp: sequence_reply_def read_now_def split_beta Let_def intro!: route_chain_wf split: option.split)

lemma finish_frame_wf: "bus_wf L s \<Longrightarrow> \<exists>s' d'. finish_frame E D s d table staged slot e = Some (s', d') \<and> bus_wf L s'"
proof -
  assume "bus_wf L s"
  then obtain s1 d1 where "(if table then commit_effect E D s d else Some (s, d)) = Some (s1, d1)" "bus_wf L s1"
    using commit_effect_wf [of L s E D d] by (cases table) auto
  then show ?thesis using sequence_reply_wf [of L s1 E slot e] by (auto simp: finish_frame_def)
qed

lemma verify_wf:
  assumes "env_ok E L" "bus_wf L s" "span_ok L (pf_anchor p) (pf_footprint p)"
  shows "\<exists>s' d'. verify E D s d p = Some (s', d') \<and> bus_wf L s'"
proof -
  note ring = env_okD [OF assms(1), of s]
  obtain c ok where c: "crc_verify (be_crc E) (ring_of E s) (sb_crc s) (pf_anchor p) (pf_footprint p) = Some (c, ok)"
    using crc_verify_total [OF ring(1)] assms(3) ring(2) by metis
  obtain sec au where a: "auth_verify (ring_of E s) (sb_security s) (pf_anchor p) (pf_footprint p) = Some (sec, au)"
    using auth_verify_total [OF ring(1)] by metis
  let ?s = "s\<lparr> sb_crc := c, sb_security := sec, sb_framer := framer_on_frame_verified (sb_framer s) \<rparr>"
  obtain ck where n: "drift_note_verified E ?s (pf_anchor p) (pf_footprint p) = Some (?s\<lparr> sb_clock := ck \<rparr>)"
    using drift_note_total [of E ?s] ring(1) by (metis ring_of_updates(1-3))
  have "bus_wf L (?s\<lparr> sb_clock := ck \<rparr>)" using assms(2) by (simp add: bus_wf_def framer_on_frame_verified_def)
  then show ?thesis
    using c a n assms(2) finish_frame_wf [of L "?s\<lparr> sb_clock := ck \<rparr>" E D d "pf_table p" "pf_staged p" "pf_slot p" "pf_packet_end p"]
    by (auto simp: verify_def Let_def intro!: reject_frame_wf [OF assms(1)] refuse_frame_wf drop_staged_wf)
qed


lemma route_verified_wf:
  assumes "env_ok E L" "answers E D s d (fs_anchor sp) (fs_footprint sp)" "bus_wf L s" "span_ok L (fs_anchor sp) (fs_footprint sp)"
  shows "\<exists>s' d'. route_verified E D s d sp = Some (s', d') \<and> bus_wf L s'"
proof -
  note ring = env_okD [OF assms(1), of s]
  obtain c ok where c: "crc_ok (be_crc E) (ring_of E s) (sb_crc s) (fs_anchor sp) (fs_footprint sp) = Some (c, ok)"
    using crc_ok_total [OF ring(1)] assms(4) ring(2) by metis
  obtain sec au where a: "auth_verify (ring_of E s) (sb_security s) (fs_anchor sp) (fs_footprint sp) = Some (sec, au)"
    using auth_verify_total [OF ring(1)] by metis
  let ?s = "s\<lparr> sb_crc := c, sb_security := sec, sb_framer := framer_on_frame_verified (sb_framer s) \<rparr>"
  obtain ck where n: "drift_note_verified E ?s (fs_anchor sp) (fs_footprint sp) = Some (?s\<lparr> sb_clock := ck \<rparr>)"
    using drift_note_total [of E ?s] ring(1) by (metis ring_of_updates(1-3))
  let ?s1 = "?s\<lparr> sb_clock := ck, sb_chain := chain_reset (sb_chain s), sb_chain_at := None \<rparr>"
  define s2 where "s2 = (if tx_staged (sb_tx s) then ?s1\<lparr> sb_tx := tx_abort (sb_tx s) \<rparr> else ?s1)"
  have "bus_wf L s2" using assms(3) by (simp add: s2_def bus_wf_def framer_on_frame_verified_def tx_abort_wf)
  then obtain s3 d3 r where r: "dispatch_decoded E D s2 d (fs_anchor sp) (fs_footprint sp) = Some (s3, d3, r)" "bus_wf L s3"
    using dispatch_decoded_wf [OF assms(1) _ _ assms(4), of D s2 d] assms(2) answers_cong [of E s2 s D d "fs_anchor sp" "fs_footprint sp"]
    by (auto simp: s2_def ring_of_def)
  have body: "\<exists>s' d'. (case r of None \<Rightarrow> Some (s3, d3)
      | Some (staged, slot, out) \<Rightarrow> finish_frame E D s3 d3 (out = Pending) staged slot (fs_packet_end sp)) = Some (s', d') \<and> bus_wf L s'"
    using r(2) finish_frame_wf [OF r(2), of E D d3] by (auto split: option.split)
  show ?thesis
  proof (cases "ok \<and> au")
    case True
    then show ?thesis
      using c a n r(1) body unfolding route_verified_def s2_def by (auto simp: Let_def)
  next
    case False
    then show ?thesis
      using c a assms(3) by (auto simp: route_verified_def Let_def intro!: reject_frame_wf [OF assms(1)] refuse_frame_wf)
  qed
qed

lemma route_speculative_wf:
  assumes "env_ok E L" "answers E D s d (fs_anchor sp) (fs_footprint sp)" "bus_wf L s" "span_ok L (fs_anchor sp) (fs_footprint sp)"
  shows "\<exists>s' d'. route_speculative E D s d sp complete = Some (s', d') \<and> bus_wf L s'"
proof -
  note ring = env_okD [OF assms(1), of s]
  obtain c where c: "crc_feed (be_crc E) (ring_of E s) (sb_crc s) (fs_anchor sp) (fs_footprint sp) = Some c"
    using crc_feed_total [OF ring(1)] assms(4) ring(2) by metis
  obtain sec where sec: "security_fold (ring_of E s) (sb_security s) (fs_anchor sp) (fs_footprint sp) = Some sec"
    using security_fold_total [OF ring(1)] assms(4) ring(2) by metis
  obtain s1 d1 r where r: "dispatch_decoded E D (s\<lparr> sb_crc := c, sb_security := sec \<rparr>) d (fs_anchor sp) (fs_footprint sp) = Some (s1, d1, r)" "bus_wf L s1"
    using dispatch_decoded_wf [OF assms(1) _ _ assms(4), of D "s\<lparr> sb_crc := c, sb_security := sec \<rparr>" d] assms(2,3)
      answers_cong [of E "s\<lparr> sb_crc := c, sb_security := sec \<rparr>" s D d "fs_anchor sp" "fs_footprint sp"] by auto
  have "\<exists>s' d'. (if complete then verify E D s1 d1 p else Some (s1\<lparr> sb_pending := Some p \<rparr>, d1)) = Some (s', d') \<and> bus_wf L s'"
    if "pf_anchor p = fs_anchor sp" "pf_footprint p = fs_footprint sp" for p
    using verify_wf [OF assms(1) r(2), of p D d1] r(2) that assms(4) by (auto simp: bus_wf_def)
  then show ?thesis
    using c sec r by (auto simp: route_speculative_def Let_def split_beta)
qed

lemma route_frame_wf:
  assumes "env_ok E L" "answers E D s d (fs_anchor sp) (fs_footprint sp)" "bus_wf L s" "span_ok L (fs_anchor sp) (fs_footprint sp)"
  shows "\<exists>s' d'. route_frame E D s d sp complete = Some (s', d') \<and> bus_wf L s'"
proof -
  obtain inst where i: "ring_inst (ring_of E s) (fs_anchor sp) = Some inst"
    using ring_inst_total [OF env_okD(1) [OF assms(1)]] by blast
  obtain ch out where co: "chain_on_status_end (sb_chain s) (fs_packet_end sp) = (ch, out)" by fastforce
  show ?thesis
    using i co assms(3) route_chain_wf [of L "s\<lparr> sb_chain := ch \<rparr>" E out]
      route_speculative_wf [OF assms, of complete] route_verified_wf [OF assms]
    by (auto simp: route_frame_def)
qed

lemma on_frame_end_wf:
  assumes "env_ok E L" "answers E D s d (fs_anchor sp) (fs_footprint sp)" "bus_wf L s" "span_ok L (fs_anchor sp) (fs_footprint sp)"
  shows "\<exists>s' d'. on_frame_end E D s d sp = Some (s', d') \<and> bus_wf L s'"
proof -
  let ?s = "s\<lparr> sb_pending := None \<rparr>"
  have wf: "bus_wf L ?s" "bus_wf L (drop_staged ?s)" using assms(3) by (simp_all add: bus_wf_less drop_staged_wf)
  have ans: "answers E D ?s d (fs_anchor sp) (fs_footprint sp)" "answers E D (drop_staged ?s) d (fs_anchor sp) (fs_footprint sp)"
    using assms(2) answers_cong [of E ?s s D d] answers_cong [of E "drop_staged ?s" s D d] by (simp_all add: drop_staged_def Let_def)
  show ?thesis
    using verify_wf [OF assms(1) wf(1), of _ D d] route_frame_wf [OF assms(1) ans(1) wf(1) assms(4), of True]
      route_frame_wf [OF assms(1) ans(2) wf(2) assms(4), of True] assms(4)
    by (auto simp: on_frame_end_def Let_def split: option.split)
qed

lemma span_at_ok: "span_at ring i sp \<Longrightarrow> i < length ring \<Longrightarrow> span_ok (length ring) (fs_anchor sp) (fs_footprint sp)"
  using unat_less_256 [of "ring ! ((i + 2) mod length ring)"]
  by (auto simp: span_at_def span_ok_def word_le_nat_alt)

lemma turn_resolve_wf:
  assumes "env_ok E L" "bus_wf L s"
  shows "\<exists>fm out. turn_resolve E s = Some (fm, out) \<and> bus_wf L (turn_state fm s) \<and>
    (case out of FoFrame sp \<Rightarrow> span_ok L (fs_anchor sp) (fs_footprint sp)
     | FoCovered sp _ \<Rightarrow> span_ok L (fs_anchor sp) (fs_footprint sp) | _ \<Rightarrow> True)"
proof -
  let ?ring = "be_ring E (sb_sample s + 2)"
  have ok: "ring_ok ?ring" "length ?ring = L" "unat (be_cursor E (sb_sample s + 1)) < length ?ring"
    "unat (fm_anchor (sb_framer s)) < length ?ring"
    using assms by (auto simp: env_ok_def bus_wf_def)
  have pos: "0 < L" using ring_len [OF ok(1)] ok(2) by linarith
  obtain fm out where r: "turn_resolve E s = Some (fm, out)"
    and post: "resolve_post ?ring (unat (fm_anchor (sb_framer s)))
      ((unat (be_cursor E (sb_sample s + 1)) + length ?ring - unat (fm_anchor (sb_framer s))) mod length ?ring) fm out"
    using resolve_spec [OF ok(1,4,3)] unfolding turn_resolve_def by blast
  have "unat (fm_anchor fm) < L" using post pos ok(2) by (auto simp: resolve_post_def)
  then have "bus_wf L (turn_state fm s)" using assms(2) by (simp add: bus_wf_def turn_state_def)
  moreover have "span_ok L (fs_anchor sp) (fs_footprint sp)" if "span_at ?ring (k mod length ?ring) sp" for k sp
    using span_at_ok [OF that] pos ok(2) by simp
  ultimately show ?thesis
    using r post by (cases out) (auto simp: resolve_post_def)
qed

lemma drive_loop_wf:
  assumes "env_ok E L" "port_total D"
  shows "bus_wf L s \<Longrightarrow> \<exists>s' d'. drive_loop n E D s d = Some (s', d') \<and> bus_wf L s'"
proof (induction n arbitrary: s d)
  case 0
  then show ?case by (simp add: read_now_def)
next
  case (Suc n)
  obtain fm out where r: "turn_resolve E s = Some (fm, out)" "bus_wf L (turn_state fm s)"
    "case out of FoFrame sp \<Rightarrow> span_ok L (fs_anchor sp) (fs_footprint sp)
     | FoCovered sp _ \<Rightarrow> span_ok L (fs_anchor sp) (fs_footprint sp) | _ \<Rightarrow> True"
    using turn_resolve_wf [OF assms(1) Suc.prems] by blast
  show ?case
  proof (cases out)
    case (FoFrame sp)
    then obtain s1 d1 where "on_frame_end E D (turn_state fm s) d sp = Some (s1, d1)" "bus_wf L s1"
      using on_frame_end_wf [OF assms(1) port_total_answers [OF assms(2)] r(2), of sp d] r(3) by auto
    then show ?thesis unfolding drive_loop_turn using r(1) FoFrame Suc.IH by simp
  next
    case (FoCovered sp t)
    then show ?thesis
      unfolding drive_loop_turn using r route_frame_wf [OF assms(1) port_total_answers [OF assms(2)], of "(turn_state fm s)\<lparr> sb_framer_at := Some t \<rparr>" sp d False] by simp
  qed (use r in \<open>simp_all add: drive_loop_turn del: drive_loop.simps\<close>)
qed


lemma arm_deadline_wf [simp]: "bus_wf L (arm_deadline E s) = bus_wf L s"
  by (simp add: arm_deadline_def read_now_def)

lemma read_wf [simp]: "bus_wf L (snd (read_now E s)) = bus_wf L s" "bus_wf L (snd (read_cursor E s)) = bus_wf L s"
  by (simp_all add: read_now_def read_cursor_def)

lemma break_steps_wf:
  "bus_wf L s \<Longrightarrow> bus_wf L (drift_stamp E s now)" "bus_wf L s \<Longrightarrow> bus_wf L (break_recheck s now rung)"
  "bus_wf L s \<Longrightarrow> bus_wf L (break_kill E s)"
  by (simp_all add: drift_stamp_def break_recheck_def break_kill_def read_cursor_def) (simp add: bus_wf_def tx_abort_wf)

lemma deadline_loop_wf:
  assumes "env_ok E L" "port_total D"
  shows "bus_wf L s \<Longrightarrow> \<exists>s' d'. deadline_loop n E D s d = Some (s', d') \<and> bus_wf L s'"
proof (induction n arbitrary: s d)
  case (Suc n)
  obtain now s0 where rd: "read_now E s = (now, s0)" by fastforce
  have wf0: "bus_wf L s0" using Suc.prems rd read_wf(1) [of L E s] by simp
  let ?fd = "due now (sb_framer_at s0)" and ?s0 = "s0\<lparr> sb_framer_at := None, sb_clock := abandon_cal (sb_clock s0) \<rparr>"
  obtain s1 d1 where s1: "(if ?fd then drive_framer E D ?s0 d else Some (s0, d)) = Some (s1, d1)" "bus_wf L s1"
    using drive_loop_wf [OF assms, of ?s0 FRAMES_PER_WAKE d] wf0 by (cases ?fd) (auto simp: drive_framer_def)
  let ?cd = "due now (sb_chain_at s1)"
  obtain ch out where co: "chain_on_deadline (sb_chain s1) now = (ch, out)" by fastforce
  obtain s2 where s2: "(if ?cd then route_chain E (s1\<lparr> sb_chain_at := None, sb_chain := ch \<rparr>) out else Some s1) = Some s2" "bus_wf L s2"
    using route_chain_wf [of L "s1\<lparr> sb_chain_at := None, sb_chain := ch \<rparr>" E out] s1(2) by (cases ?cd) auto
  have "deadline_loop (Suc n) E D s d = (if ?fd \<or> ?cd then deadline_loop n E D s2 d1 else Some (s2, d1))"
    using s1(1) s2(1) rd co by (cases ?cd) (simp_all add: Let_def)
  then show ?case using Suc.IH [OF s2(2), of d1] s2(2) by simp
qed simp

lemma newest_total: "ring_ok ring \<Longrightarrow> \<exists>b. newest_is_break_byte ring cursor = Some b"
  using nth_mod_total [of ring "unat cursor + length ring - 1"]
  by (auto simp: newest_is_break_byte_def Let_def ring_wrap_ok)

lemma on_break_wf:
  assumes "env_ok E L" "port_total D" "bus_wf L s"
  shows "\<exists>s' d'. on_break E D s d = Some (s', d') \<and> bus_wf L s'"
proof -
  obtain now s0 where rd: "read_now E s = (now, s0)" by fastforce
  obtain cursor s1 where rc: "read_cursor E s0 = (cursor, s1)" by fastforce
  have wf1: "bus_wf L s1" using assms(3) rd rc read_wf(1) [of L E s] read_wf(2) [of L E s0] by simp
  show ?thesis
  proof (cases "cal_active (sb_clock s0)")
    case True
    then show ?thesis using wf1 rd rc by (auto simp: on_break_def split_beta Let_def split: option.splits)
  next
    case False
    obtain fm rung where wf: "framer_on_wire_fault (sb_framer s1) cursor = (fm, rung)" by fastforce
    let ?s1 = "s1\<lparr> sb_framer := fm \<rparr>"
    have "fm_anchor fm = fm_anchor (sb_framer s1)" using wf by (auto simp: framer_on_wire_fault_def split: if_splits)
    then have wf2: "bus_wf L ?s1" using wf1 by (simp add: bus_wf_def)
    have ring: "ring_ok (ring_of E ?s1)" by (rule env_okD [OF assms(1)])
    obtain b where b: "newest_is_break_byte (ring_of E ?s1) cursor = Some b"
      using newest_total [OF ring] by blast
    define mark where "mark = (if rung then b else False)"
    have mark: "(if rung then newest_is_break_byte (ring_of E ?s1) cursor else Some False) = Some mark"
      using b by (simp add: mark_def)
    have "bus_wf L (if mark then drift_stamp E ?s1 now else ?s1)" using wf2 by (simp add: break_steps_wf)
    then obtain s3 d3 where s3: "drive_framer E D (if mark then drift_stamp E ?s1 now else ?s1) d = Some (s3, d3)" "bus_wf L s3"
      using drive_loop_wf [OF assms(1,2)] unfolding drive_framer_def by blast
    let ?s5 = "break_kill E (break_recheck s3 now rung)"
    have "bus_wf L ?s5" using s3(2) by (simp add: break_steps_wf)
    then obtain s6 where "route_chain E ?s5 (chain_on_break_observed (sb_chain ?s5) now) = Some s6" "bus_wf L s6"
      using route_chain_wf by blast
    then show ?thesis
      using rd rc False wf mark s3(1) by (simp add: on_break_def Let_def)
  qed
qed

lemma on_tx_complete_wf:
  assumes "bus_wf L s"
  shows "\<exists>s'. on_tx_complete E s = Some s' \<and> bus_wf L s'"
proof -
  obtain t c out where "tx_on_arm_complete (be_crc E) (sb_tx s) (sb_crc s) = Some (t, c, out)" "tx_wf t"
    using tx_on_arm_complete_total [of "sb_tx s" "be_crc E" "sb_crc s"] assms by (auto simp: bus_wf_def)
  then show ?thesis
    using assms by (auto simp: on_tx_complete_def Let_def apply_rate_def bus_wf_def split: option.split)
qed

lemma on_rescue_break_wf:
  assumes "env_ok E L" "bus_wf L s"
  shows "bus_wf L (on_rescue_break E s)"
proof -
  have "unat (be_cursor E n) < L" for n using assms(1) by (simp add: env_ok_def)
  then show ?thesis
    using assms(2) by (simp add: on_rescue_break_def Let_def split_beta)
      (simp add: bus_wf_def read_cursor_def apply_rate_def framer_resync_def tx_abort_wf)
qed

lemma bus_step_wf:
  assumes "env_ok E L" "port_total D" "bus_wf L s"
  shows "\<exists>s' d'. bus_step E D (s, d) e = Some (s', d') \<and> bus_wf L s'"
proof (cases e)
  case BeDeadline
  then show ?thesis
    using deadline_loop_wf [OF assms, of DEADLINE_DRAIN_MAX d] by (auto simp: on_deadline_def)
next
  case BeTxComplete
  then show ?thesis using on_tx_complete_wf [OF assms(3), of E] by auto
qed (use assms on_break_wf [OF assms, of d] on_rescue_break_wf [OF assms(1,3)]
    in \<open>auto simp: take_reboot_def poll_clock_trim_def install_session_def set_policy_def split_beta Let_def\<close>)

lemma bus_run_wf:
  assumes "env_ok E L" "port_total D"
  shows "bus_wf L s \<Longrightarrow> pipeline_ok s \<Longrightarrow> \<exists>s' d'. bus_run E D (s, d) es = Some (s', d') \<and> bus_wf L s' \<and> pipeline_ok s'"
proof (induction es arbitrary: s d)
  case (Cons e es)
  obtain s1 d1 where "bus_step E D (s, d) e = Some (s1, d1)" "bus_wf L s1"
    using bus_step_wf [OF assms Cons.prems(1)] by blast
  then show ?case using Cons.IH [of s1 d1] bus_step_pipeline Cons.prems(2) by fastforce
qed simp

lemma bus_new_wf: "env_ok E L \<Longrightarrow> bus_wf L (bus_new E crc i rate rd)" "pipeline_ok (bus_new E crc i rate rd)"
proof -
  assume "env_ok E L"
  then have "0 < L" using ring_len [of "be_ring E 0"] unfolding env_ok_def by (metis less_trans zero_less_numeral)
  then show "bus_wf L (bus_new E crc i rate rd)" by (simp add: bus_wf_def bus_new_def framer_new_def tx_wf_new)
next
  show "pipeline_ok (bus_new E crc i rate rd)" by (simp add: pipeline_ok_def bus_new_def chain_new_def chain_active_def)
qed



text \<open>A still ring of zeros under a running clock, and the dispatcher with the management operations it
  lacks answered by nothing.\<close>

definition idle_env :: "sim_crc bus_env" where
  "idle_env = \<lparr> be_crc = sim_crc_ops, be_now = (\<lambda>n. of_nat n), be_cursor = (\<lambda>n. of_nat (n mod 512)),
     be_ring = (\<lambda>n. replicate 512 0), be_ticks_per_us = 48, be_trim_step_ppm = 2500 \<rparr>"

definition total_port :: "vec_ops \<Rightarrow> 's dispatcher dispatch_port" where
  "total_port V = (core_port V)\<lparr> dp_dispatch := \<lambda>d req ctx.
     (case dispatch V d req ctx of Some r \<Rightarrow> Some r | None \<Rightarrow> Some (d, [], Done)) \<rparr>"

lemma idle_env_ok: "env_ok idle_env 512"
proof -
  have "ring_ok (replicate 512 0)" by (auto simp: ring_ok_def FRAME_MAX_def footprint_def intro: exI [of _ 9])
  moreover have "unat (of_nat (n mod 512) :: u16) < 512" for n
    using mod_less_divisor [of 512 n] by (subst unat_of_nat16) simp_all
  ultimately show ?thesis by (simp add: env_ok_def idle_env_def)
qed

lemma total_port_total: "port_total (total_port V)"
  by (simp add: port_total_def total_port_def split: option.split)


end
