(* ===== verification/Servo_Gate.thy ===== *)
theory Servo_Gate
  imports Servo_Tot
begin

text \<open>
  What the verdict of the transport guards. The checksum gate decides exactly whether the wire checksum
  is the osc-CRC of the frame's covered bytes, at either parity of the anchor and across the ring seam;
  a complete frame that passes both gates does to the dispatcher what the abstract port of \<open>Core_Port\<close>
  says, and one that fails either leaves the table, the wire and the settings as they were.
\<close>

subsection \<open>The receive checksum is the frame's\<close>

definition crc_matches :: "bytes \<Rightarrow> u16 \<Rightarrow> u16 \<Rightarrow> bool" where
  "crc_matches ring anchor fp \<longleftrightarrow>
     osc_crc (window ring (unat anchor + 1) (unat fp - 3)) =
     le16 (ring ! ((unat anchor + unat fp - 2) mod length ring)) (ring ! ((unat anchor + unat fp - 1) mod length ring))"

lemma window_slice: "b \<le> length ring \<Longrightarrow> a \<le> b \<Longrightarrow> take (b - a) (drop a ring) = window ring a (b - a)"
  by (rule nth_equalityI) (auto simp: nth_window)

lemma window_wrapped:
  assumes "a \<le> length ring" "length ring < b" "b \<le> length ring + length ring"
  shows "drop a ring @ take (b - length ring) ring = window ring a (b - a)"
proof (rule nth_equalityI)
  fix i
  assume "i < length (drop a ring @ take (b - length ring) ring)"
  then have i: "i < b - a" using assms by simp
  show "(drop a ring @ take (b - length ring) ring) ! i = window ring a (b - a) ! i"
  proof (cases "i < length ring - a")
    case True
    then show ?thesis using i by (simp add: nth_window nth_append)
  next
    case False
    then have "(a + i) mod length ring = a + i - length ring"
      using i assms by (simp add: le_mod_geq mod_less)
    moreover have "i - (length ring - a) = a + i - length ring" using False assms by simp
    ultimately show ?thesis using False i assms by (simp add: nth_window nth_append)
  qed
qed (use assms in simp)

lemma window_Suc: "window ring a (Suc n) = ring ! (a mod length ring) # window ring (a + 1) n"
  by (rule nth_equalityI) (auto simp: nth_window nth_Cons split: nat.split)

lemma window_snoc: "window ring a (Suc n) = window ring a n @ [ring ! ((a + n) mod length ring)]"
  by (rule nth_equalityI) (auto simp: nth_window nth_append less_Suc_eq)

text \<open>The covered span as the feed cuts it: from an even index, whole halfwords, and perhaps a last byte.\<close>

lemma covered_crc:
  assumes "ring ! unat anchor = 0" "unat anchor < length ring" "6 \<le> unat fp"
  defines "start \<equiv> unat anchor + unat anchor mod 2"
  shows "osc_crc (window ring start (unat anchor + unat fp - 2 - start)) = osc_crc (window ring (unat anchor + 1) (unat fp - 3))"
proof (cases "even (unat anchor)")
  case True
  then have "start = unat anchor" by (simp add: start_def)
  moreover have "unat fp - 2 = Suc (unat fp - 3)" using assms(3) by simp
  ultimately show ?thesis using assms(1,2) by (simp add: window_Suc osc_crc_leading_zero)
next
  case False
  then have "start = unat anchor + 1" by (simp add: start_def odd_iff_mod_2_eq_one)
  then show ?thesis by simp
qed

context prompt_crc_engine
begin

lemma crc_feed_acc:
  assumes ring: "ring_ok ring" "span_ok (length ring) anchor fp" and feed: "crc_feed C ring c anchor fp = Some c1"
  defines "start \<equiv> unat anchor + unat anchor mod 2"
  defines "fin \<equiv> unat anchor + unat fp - 2"
  shows "acc c1 = osc_crc (window ring start (fin - (fin - start) mod 2 - start))"
proof -
  define bulk where "bulk = fin - (fin - start) mod 2"
  have st: "start \<le> length ring" "start + 2 \<le> unat anchor + unat fp" using span_start [OF ring] by (simp_all add: start_def)
  have f: "start \<le> fin" "fin \<le> length ring + length ring"
    using st(2) ring(2) ring_len [OF ring(1)] unfolding span_ok_def fin_def by linarith+
  have b: "start \<le> bulk" "bulk \<le> length ring + length ring"
    using f mod_less_eq_dividend [of "fin - start" 2] unfolding bulk_def by linarith+
  have bulk_start: "bulk - start = (fin - start) - (fin - start) mod 2" by (simp add: bulk_def)
  have ev: "even (bulk - start)" unfolding bulk_start by (simp add: minus_mod_eq_mult_div)
  have evs: "even start" by (simp add: start_def even_add)
  have evl: "even (length ring)" using ring_len [OF ring(1)] by simp
  have "\<not> unat anchor + unat fp < start + 2" using st(2) by simp
  then have eq: "crc_feed C ring c anchor fp =
    (if bulk \<le> length ring then do { x \<leftarrow> slice_opt ring start bulk; Some (ce_feed C (ce_reset C c) x) }
     else do { x \<leftarrow> slice_opt ring start (length ring); y \<leftarrow> slice_opt ring 0 (bulk - length ring);
               Some (ce_feed C (ce_feed C (ce_reset C c) x) y) })"
    by (simp only: crc_feed_def Let_def start_def [symmetric] fin_def [symmetric] bulk_def [symmetric] if_False)
  show ?thesis
  proof (cases "bulk \<le> length ring")
    case True
    then have "c1 = ce_feed C (ce_reset C c) (window ring start (bulk - start))"
      using feed eq b(1) by (simp add: slice_opt_def window_slice)
    then show ?thesis using ev by (simp add: feed_law(1) reset_law(1) osc_crc_def bulk_def)
  next
    case False
    have "bulk - length ring \<le> length ring" using b(2) by linarith
    then have c1: "c1 = ce_feed C (ce_feed C (ce_reset C c) (drop start ring)) (take (bulk - length ring) ring)"
      using feed eq b st(1) False by (simp add: slice_opt_def)
    have "even (length (drop start ring))" using evl evs st(1) by simp
    moreover have "even (length (take (bulk - length ring) ring))"
      using ev evs evl b False by (simp add: min_def)
    ultimately have "acc c1 = osc_crc_continue 0 (drop start ring @ take (bulk - length ring) ring)"
      unfolding c1 by (simp only: feed_law(1) reset_law(1) osc_crc_continue_append)
    then show ?thesis using window_wrapped [OF st(1) _ b(2)] False by (simp add: osc_crc_def bulk_def)
  qed
qed

lemma crc_verify_matches:
  assumes ring: "ring_ok ring" "span_ok (length ring) anchor fp" "ring ! unat anchor = 0"
    and feed: "crc_feed C ring c anchor fp = Some c1" and same: "acc c2 = acc c1"
    and verify: "crc_verify C ring c2 anchor fp = Some (c3, ok)"
  shows "ok \<longleftrightarrow> crc_matches ring anchor fp"
proof -
  define start where "start = unat anchor + unat anchor mod 2"
  define fin where "fin = unat anchor + unat fp - 2"
  have sp: "unat anchor < length ring" "6 \<le> unat fp" using ring(2) by (simp_all add: span_ok_def)
  have st: "start + 2 \<le> unat anchor + unat fp" using span_start [OF ring(1,2)] by (simp add: start_def)
  have pos: "0 < length ring" using sp by linarith
  have fin: "unat anchor + (unat fp - 2) = fin" "unat anchor + unat fp - 1 = fin + 1" using sp by (simp_all add: fin_def)
  have tail: "crc_tail ring anchor fp = Some (if (fin - start) mod 2 = 1 then Some (ring ! ((fin - 1) mod length ring)) else None)"
  proof -
    have "\<not> unat anchor + unat fp < start + 2" using st by simp
    then show ?thesis
      using pos unfolding crc_tail_def Let_def start_def [symmetric] fin_def [symmetric] by (simp add: nth_opt_Some)
  qed
  have acc: "acc c2 = osc_crc (window ring start (fin - (fin - start) mod 2 - start))"
    using crc_feed_acc [OF ring(1,2) feed] same by (simp add: start_def fin_def)
  have whole: "(case (if (fin - start) mod 2 = 1 then Some (ring ! ((fin - 1) mod length ring)) else None) of
      Some b \<Rightarrow> osc_crc_continue (acc c2) [b] | None \<Rightarrow> acc c2) = osc_crc (window ring start (fin - start))"
  proof (cases "(fin - start) mod 2 = 1")
    case True
    then obtain n where n: "fin - start = Suc n" by (cases "fin - start") auto
    then have "fin - 1 = start + n" "fin - (fin - start) mod 2 - start = n" using True by simp_all
    then show ?thesis
      unfolding acc using True n by (simp add: window_snoc osc_crc_def osc_crc_continue_append)
  next
    case False
    then show ?thesis by (simp add: acc)
  qed
  have cov: "osc_crc (window ring start (fin - start)) = osc_crc (window ring (unat anchor + 1) (unat fp - 3))"
    using covered_crc [OF ring(3) sp] by (simp add: start_def fin_def)
  have "crc_verify C ring c2 anchor fp = Some (fst (ce_result C c2),
      (case (if (fin - start) mod 2 = 1 then Some (ring ! ((fin - 1) mod length ring)) else None) of
         Some b \<Rightarrow> osc_crc_continue (acc c2) [b] | None \<Rightarrow> acc c2) =
      le16 (ring ! (fin mod length ring)) (ring ! ((fin + 1) mod length ring)))"
    unfolding crc_verify_def Let_def fin tail poll_prompt using pos by (simp add: nth_opt_Some)
  then have "ok = (osc_crc (window ring (unat anchor + 1) (unat fp - 3)) =
      le16 (ring ! (fin mod length ring)) (ring ! ((fin + 1) mod length ring)))"
    using verify unfolding whole cov by simp
  then show ?thesis unfolding crc_matches_def fin(2) by (simp add: fin_def)
qed

lemma snapshot_spans_acc: "acc (fst (snapshot_spans C spans off ptr c)) = acc c"
proof (induction spans arbitrary: off ptr c)
  case (Cons s spans)
  then show ?case using snapshot_acc [of c off s] by (simp add: split_beta Let_def)
qed simp

lemma tx_stage_acc: "tx_stage_gather C t c i r a spans = Some (t', c', res) \<Longrightarrow> acc c' = acc c"
  using snapshot_spans_acc
  by (auto simp: tx_stage_gather_def stage_large_def Let_def bind_eq_Some_conv split_beta split: if_splits)

lemma handle_staged_acc:
  assumes "tx_stage_gather C t (sb_crc s) i r a spans = Some x" "handle_staged tolerant key b s x = (s', b')"
  shows "acc (sb_crc s') = acc (sb_crc s)"
proof -
  obtain t' c' res where x: "x = (t', c', res)" by (cases x)
  show ?thesis
    using tx_stage_acc [OF assms(1) [unfolded x]] assms(2) by (auto simp: x handle_staged_def split: sum.splits)
qed

lemma handle_event_acc:
  assumes "handle_event E tolerant (s, b) e = Some (s', b')" "be_crc E = C"
  shows "acc (sb_crc s') = acc (sb_crc s)"
proof (cases e)
  case (EvStatus r a data)
  then obtain x where "tx_stage_gather C (sb_tx s) (sb_crc s) (sb_id s) r a [data] = Some x" "handle_staged tolerant (slot_key data) b s x = (s', b')"
    using assms by (auto simp: tx_stage_def)
  then show ?thesis by (rule handle_staged_acc)
next
  case (EvGather r a spans)
  then obtain x where "tx_stage_gather C (sb_tx s) (sb_crc s) (sb_id s) r a spans = Some x"
    "handle_staged tolerant (slot_key_of (foldl osc_crc_continue 0 spans)) b s x = (s', b')"
    using assms by auto
  then show ?thesis by (rule handle_staged_acc)
qed (use assms in auto)

lemma handle_events_acc:
  "handle_events E tolerant (s, b) es = Some (s', b') \<Longrightarrow> be_crc E = C \<Longrightarrow> acc (sb_crc s') = acc (sb_crc s)"
proof (induction es arbitrary: s b)
  case (Cons e es)
  then obtain s1 b1 where "handle_event E tolerant (s, b) e = Some (s1, b1)"
    "handle_events E tolerant (s1, b1) es = Some (s', b')"
    by (auto simp: bind_eq_Some_conv)
  then show ?case using handle_event_acc Cons.IH Cons.prems(2) by metis
qed simp

lemma dispatch_decoded_acc:
  assumes "dispatch_decoded E D s d anchor fp = Some (s', d', r)" "be_crc E = C"
  shows "acc (sb_crc s') = acc (sb_crc s)"
proof -
  obtain frame where frame: "frame_view (ring_of E s) anchor fp = Some frame"
    using assms by (auto simp: dispatch_decoded_def bind_eq_Some_conv)
  show ?thesis
    using assms frame by (cases "decode frame (sb_id s)")
      (auto simp: dispatch_decoded_def bind_eq_Some_conv dest: handle_events_acc)
qed

end

subsection \<open>Before the verdict only answers are given\<close>

definition is_answer :: "reply_event \<Rightarrow> bool" where
  "is_answer e = (case e of EvStatus _ _ _ \<Rightarrow> True | EvGather _ _ _ \<Rightarrow> True | _ \<Rightarrow> False)"

definition settings ::
  "'c servo_bus \<Rightarrow> (u8 \<times> u8 option \<times> baud_rate option \<times> boot_mode option) \<times> u16 \<times> (u16 \<times> u8) option \<times> baud_rate \<times> baud_rate \<times> u32" where
  "settings s = ((sb_id s, sb_pending_id s, sb_pending_baud s, sb_pending_reboot s), sb_response_deadline_us s,
     ck_pending_cal (sb_clock s), sb_baud s, sb_rate s, sb_tpb s)"

definition transmitted :: "'c servo_bus \<Rightarrow> wire_event list" where
  "transmitted s = filter (\<lambda>e. e \<noteq> WRelease) (tx_wire (sb_tx s))"

lemma dispatch_answers:
  assumes "\<not> verdict_first req" "dispatch V d req ctx = Some (d', evs, r)"
  shows "list_all is_answer evs"
  using assms
  by (cases req) (auto simp: dispatch_def Let_def ping_def disp_read_def read_profile_def disp_write_def ack_def ack_code_def
      instruction_error_def is_answer_def split: sum.splits ct_error.splits if_splits option.splits prod.splits)

lemma handle_staged_settings: "handle_staged tolerant key b s x = (s', b') \<Longrightarrow> settings s' = settings s"
  by (cases x) (auto simp: handle_staged_def settings_def split: sum.splits)

lemma handle_event_settings: "is_answer e \<Longrightarrow> handle_event E tolerant (s, b) e = Some (s', b') \<Longrightarrow> settings s' = settings s"
  by (cases e) (auto simp: is_answer_def dest: handle_staged_settings)

lemma handle_events_settings:
  "list_all is_answer es \<Longrightarrow> handle_events E tolerant (s, b) es = Some (s', b') \<Longrightarrow> settings s' = settings s"
proof (induction es arbitrary: s b)
  case (Cons e es)
  then obtain s1 b1 where "handle_event E tolerant (s, b) e = Some (s1, b1)"
    "handle_events E tolerant (s1, b1) es = Some (s', b')"
    by (auto simp: bind_eq_Some_conv)
  then show ?case using handle_event_settings Cons by fastforce
qed simp

lemma dec_own_request:
  assumes "dec_route inst i pay own = DecOwn req ctx slot" "\<not> verdict_first_inst inst"
  shows "\<not> verdict_first req"
proof -
  obtain op where op: "inst_opcode inst = Some op" "op \<in> {OpPing, OpRead, OpGread, OpWrite, OpGwrite}"
    using assms(2) by (auto simp: verdict_first_inst_def split: option.splits opcode.splits)
  have gr: "\<not> verdict_first r" if "dec_gread inst pay own = DecOwn r c k" for r c k
    using that by (cases "inst_profile inst"; cases "inst_per_target inst")
      (auto simp: dec_gread_def dec_own_read_def dec_own_read_profile_def split: option.splits)
  have gw: "\<not> verdict_first r" if "dec_gwrite inst pay own = DecOwn r c k" for r c k
    using that by (auto simp: dec_gwrite_def dec_own_write_def Let_def split: if_splits option.splits)
  show ?thesis
    using assms(1) op gr gw
    by (auto simp: dec_route_def dec_plain_def Let_def split: if_splits option.splits)
qed


subsection \<open>The message plane decides on the frame, not on the stream it folds into\<close>

definition auth_accepts :: "bytes \<Rightarrow> security_context \<Rightarrow> u16 \<Rightarrow> u16 \<Rightarrow> bool" where
  "auth_accepts ring sec anchor fp = (case auth_verify ring sec anchor fp of Some (_, ok) \<Rightarrow> ok | None \<Rightarrow> False)"

lemma ctx_verify_fold: "snd (ctx_verify (ctx_fold sec i x y) i b buf) = snd (ctx_verify sec i b buf)"
proof (cases "inst_opcode i = Some OpCommit")
  case True
  then have "\<not> folds_into_stream i" by (simp add: folds_into_stream_def)
  then show ?thesis by (simp add: ctx_fold_def)
next
  case False
  then show ?thesis
    by (simp add: ctx_fold_def ctx_verify_def ctx_evaluate_def frame_tag_def split_beta Let_def split: option.split sum.split)
qed

lemma ctx_fold_policy [simp]: "sc_policy (ctx_fold sec i x y) = sc_policy sec"
  by (simp add: ctx_fold_def)

lemma auth_accepts_eq:
  assumes "ring_inst ring anchor = Some i"
  defines "start \<equiv> (unat anchor + 1) mod length ring"
  shows "auth_accepts ring sec anchor fp =
    (case nth_opt ring start of
       None \<Rightarrow> False
     | Some b \<Rightarrow>
         if AUTH_SPAN_MAX < unat fp - 3 then \<not> requires_tag (sc_policy sec) i \<and> \<not> inst_authenticated i
         else case those (map (\<lambda>k. nth_opt ring ((start + k) mod length ring)) [0..<unat fp - 3]) of
                None \<Rightarrow> False
              | Some buf \<Rightarrow> verdict_is_pass (snd (ctx_verify sec i (b = Id_BROADCAST) buf)))"
  unfolding auth_accepts_def auth_verify_def assms(1) covered_span_def start_def [symmetric]
  by (cases "nth_opt ring start"; cases "those (map (\<lambda>k. nth_opt ring ((start + k) mod length ring)) [0..<unat fp - 3])")
    (simp_all add: Let_def split_beta)

lemma auth_accepts_fold:
  assumes "security_fold ring sec anchor fp = Some sec'"
  shows "auth_accepts ring sec' anchor fp = auth_accepts ring sec anchor fp"
proof -
  obtain i where i: "ring_inst ring anchor = Some i" using assms by (auto simp: security_fold_def bind_eq_Some_conv)
  obtain x y where sec': "sec' = sec \<or> sec' = ctx_fold sec i x y"
    using assms by (auto simp: security_fold_def i covered_span_def Let_def bind_eq_Some_conv split: if_splits)
  have eq: "snd (ctx_verify sec' i b buf) = snd (ctx_verify sec i b buf)" for b buf
    using sec' ctx_verify_fold [of sec i x y b buf] by (elim disjE) simp_all
  have pol: "sc_policy sec' = sc_policy sec" using sec' by auto
  show ?thesis unfolding auth_accepts_eq [OF i] eq pol ..
qed


subsection \<open>A complete frame and its verdict\<close>

definition frame_accepted :: "('c, 'e) bus_env_scheme \<Rightarrow> 'c servo_bus \<Rightarrow> frame_span \<Rightarrow> bool" where
  "frame_accepted E s sp \<longleftrightarrow> crc_matches (ring_of E s) (fs_anchor sp) (fs_footprint sp) \<and>
     auth_accepts (ring_of E s) (sb_security s) (fs_anchor sp) (fs_footprint sp)"

definition untouched :: "'c servo_bus \<Rightarrow> 's dispatcher \<Rightarrow> 'c servo_bus \<Rightarrow> 's dispatcher \<Rightarrow> bool" where
  "untouched s d s' d' \<longleftrightarrow> revert_dangling d' = revert_dangling d \<and> transmitted s' = transmitted s \<and> settings s' = settings s"

definition dispatched_as :: "vec_ops \<Rightarrow> frame_bytes \<Rightarrow> u8 \<Rightarrow> 's dispatcher \<Rightarrow> 's dispatcher \<Rightarrow> bool" where
  "dispatched_as V frame own d d' =
     (case decode frame own of
        DecOwn req ctx slot \<Rightarrow> run_frame V (req, ctx, VPass) d = Some d'
      | _ \<Rightarrow> d' = d)"

lemma keeps_outside [simp]:
  "settings (reject_frame E s a) = settings s" "settings (refuse_frame s) = settings s" "settings (drop_staged s) = settings s"
  "settings (s\<lparr> sb_crc := c \<rparr>) = settings s" "settings (s\<lparr> sb_security := sec \<rparr>) = settings s"
  "transmitted (reject_frame E s a) = transmitted s" "transmitted (refuse_frame s) = transmitted s"
  "transmitted (s\<lparr> sb_crc := c \<rparr>) = transmitted s" "transmitted (s\<lparr> sb_security := sec \<rparr>) = transmitted s"
  by (simp_all add: settings_def transmitted_def reject_frame_def refuse_frame_def count_crc_fail_def drop_staged_def Let_def)

lemma transmitted_drop [simp]: "transmitted (drop_staged s) = transmitted s"
  by (simp add: transmitted_def drop_staged_def Let_def tx_abort_def)

lemma core_port_simps [simp]:
  "dp_dispatch (core_port V) = dispatch V" "dp_commit (core_port V) = disp_commit" "dp_revert (core_port V) = disp_revert"
  by (simp_all add: core_port_def)

lemma finish_frame_disp:
  assumes "finish_frame E (core_port V) s d table staged slot e = Some (s', d')"
  shows "d' = (if table then fst (disp_commit d) else d)"
  using assms
  by (auto simp: finish_frame_def commit_effect_def split_beta bind_eq_Some_conv split: if_splits)

lemma dispatch_decoded_disp:
  assumes "dispatch_decoded E (core_port V) s d a fp = Some (s1, d1, r)" "frame_view (ring_of E s) a fp = Some frame"
  shows "case decode frame (sb_id s) of
      DecOwn req ctx slot \<Rightarrow> \<exists>evs out staged. dispatch V d req ctx = Some (d1, evs, out) \<and> r = Some (staged, slot, out) \<and>
        handle_events E (is_enumerate req) (s, False) evs = Some (s1, staged)
    | _ \<Rightarrow> d1 = d \<and> s1 = s \<and> r = None"
  using assms by (auto simp: dispatch_decoded_def bind_eq_Some_conv split: decoded.splits)

text \<open>The frame view's instruction byte is the one the routing reads.\<close>

lemma view_inst:
  assumes "ring_ok ring" "span_ok (length ring) a fp" "frame_view ring a fp = Some frame" "ring_inst ring a = Some inst"
  shows "u8_at frame 3 = Some inst"
proof -
  have "unat a < length ring" "unat fp \<le> length ring" "3 < unat fp"
    using assms(2) ring_len [OF assms(1)] by (auto simp: span_ok_def)
  moreover from this have "fb_bytes frame = window ring (unat a) (unat fp)"
    using frame_view_window [of a ring fp] assms(3) by auto
  ultimately show ?thesis using assms(4) by (auto simp: osc_view nth_opt_Some nth_window ring_inst_def nth_opt_eq_Some_iff)
qed

lemma route_speculative_gated:
  assumes eng: "prompt_crc_engine (be_crc E) acc base"
    and ring: "ring_ok (ring_of E s)" "span_ok (length (ring_of E s)) (fs_anchor sp) (fs_footprint sp)"
      "ring_of E s ! unat (fs_anchor sp) = 0"
    and view: "frame_view (ring_of E s) (fs_anchor sp) (fs_footprint sp) = Some frame"
    and inst: "ring_inst (ring_of E s) (fs_anchor sp) = Some inst" "\<not> verdict_first_inst inst"
    and disp: "vec_ok V" "disp_inv d"
    and run: "route_speculative E (core_port V) s d sp True = Some (s', d')"
  shows "if frame_accepted E s sp then dispatched_as V frame (sb_id s) d d' else untouched s d s' d'"
proof -
  obtain c sec s1 d1 r where feed: "crc_feed (be_crc E) (ring_of E s) (sb_crc s) (fs_anchor sp) (fs_footprint sp) = Some c"
    and fold: "security_fold (ring_of E s) (sb_security s) (fs_anchor sp) (fs_footprint sp) = Some sec"
    and dd: "dispatch_decoded E (core_port V) (s\<lparr> sb_crc := c, sb_security := sec \<rparr>) d (fs_anchor sp) (fs_footprint sp) = Some (s1, d1, r)"
    using run by (auto simp: route_speculative_def bind_eq_Some_conv)
  let ?s0 = "s\<lparr> sb_crc := c, sb_security := sec \<rparr>"
  define table where "table = (case r of Some (_, _, out) \<Rightarrow> out = Pending | None \<Rightarrow> False)"
  define p where "p = \<lparr> pf_anchor = fs_anchor sp, pf_footprint = fs_footprint sp, pf_packet_end = fs_packet_end sp,
    pf_slot = (case r of Some (_, slot, _) \<Rightarrow> slot | None \<Rightarrow> 0),
    pf_staged = (case r of Some (staged, _, _) \<Rightarrow> staged | None \<Rightarrow> False), pf_table = table \<rparr>"
  have p: "pf_anchor p = fs_anchor sp" "pf_footprint p = fs_footprint sp" "pf_table p = table" by (simp_all add: p_def)
  have ver: "verify E (core_port V) s1 d1 p = Some (s', d')"
    using run feed fold dd
    by (cases r) (auto simp: route_speculative_def Let_def split_beta p_def table_def)
  have step: "ring_of E s1 = ring_of E s" "sb_security s1 = sec" "transmitted s1 = transmitted s"
    using dispatch_decoded_step [OF dd] by (auto simp: surface_step_def ring_of_def transmitted_def)
  have acc: "acc (sb_crc s1) = acc c"
    using prompt_crc_engine.dispatch_decoded_acc [OF eng dd] by simp
  have own: "case decode frame (sb_id s) of
      DecOwn req ctx slot \<Rightarrow> \<exists>evs out staged. dispatch V d req ctx = Some (d1, evs, out) \<and> r = Some (staged, slot, out) \<and>
        handle_events E (is_enumerate req) (?s0, False) evs = Some (s1, staged)
    | _ \<Rightarrow> d1 = d \<and> s1 = ?s0 \<and> r = None"
    using dispatch_decoded_disp [OF dd] view by simp
  have u8: "u8_at frame 3 = Some inst" by (rule view_inst [OF ring(1,2) view inst(1)])
  have nv: "\<not> verdict_first req" if "decode frame (sb_id s) = DecOwn req ctx slot" for req ctx slot
    using decode_OwnD [OF that] u8 dec_own_request inst(2) by (metis option.inject)
  have set1: "settings s1 = settings s"
  proof (cases "decode frame (sb_id s)")
    case (DecOwn req ctx slot)
    then show ?thesis
      using own nv [OF DecOwn] dispatch_answers [of req V d ctx d1] handle_events_settings [of _ E _ ?s0 False s1] by fastforce
  qed (use own in auto)
  have rev: "revert_dangling (if table then disp_revert d1 else d1) = revert_dangling d"
  proof (cases "decode frame (sb_id s)")
    case (DecOwn req ctx slot)
    then obtain evs out staged where dsp: "dispatch V d req ctx = Some (d1, evs, out)" "r = Some (staged, slot, out)"
      using own by auto
    then have "run_frame V (req, ctx, VFail) d = Some (if table then disp_revert d1 else d1)"
      using nv [OF DecOwn] by (cases out) (simp_all add: run_frame_def table_def)
    then show ?thesis using run_frame_void [OF disp, of "(req, ctx, VFail)"] by (simp add: frame_passes_def)
  qed (use own in \<open>auto simp: table_def\<close>)
  have com: "dispatched_as V frame (sb_id s) d (if table then fst (disp_commit d1) else d1)"
  proof (cases "decode frame (sb_id s)")
    case (DecOwn req ctx slot)
    then obtain evs out staged where dsp: "dispatch V d req ctx = Some (d1, evs, out)" "r = Some (staged, slot, out)"
      using own by auto
    then show ?thesis using DecOwn by (cases out) (simp_all add: dispatched_as_def run_frame_def table_def)
  qed (use own in \<open>auto simp: table_def dispatched_as_def\<close>)
  have crc_ok: "ok = crc_matches (ring_of E s) (fs_anchor sp) (fs_footprint sp)"
    if "crc_verify (be_crc E) (ring_of E s1) (sb_crc s1) (pf_anchor p) (pf_footprint p) = Some (c', ok)" for c' ok
    using prompt_crc_engine.crc_verify_matches [OF eng ring feed acc] that by (simp add: step p)
  have auth_ok: "ok = auth_accepts (ring_of E s) (sb_security s) (fs_anchor sp) (fs_footprint sp)"
    if "auth_verify (ring_of E s1) (sb_security s1) (pf_anchor p) (pf_footprint p) = Some (sec', ok)" for sec' ok
    using that auth_accepts_fold [OF fold] by (simp add: step p auth_accepts_def)
  show ?thesis
    using ver
  proof (cases rule: verify_cases)
    case (crc c')
    then show ?thesis using crc_ok [OF crc(1)] rev set1 step(3) by (cases table) (simp_all add: frame_accepted_def untouched_def p)
  next
    case (auth c' sec')
    then show ?thesis using auth_ok [OF auth(2)] rev set1 step(3) by (cases table) (simp_all add: frame_accepted_def untouched_def p)
  next
    case (pass c' sec' ck)
    then show ?thesis
      using crc_ok [OF pass(1)] auth_ok [OF pass(2)] com finish_frame_disp [OF pass(3)] by (simp add: frame_accepted_def p)
  qed
qed


lemma route_verified_gated:
  assumes eng: "prompt_crc_engine (be_crc E) acc base"
    and ring: "ring_ok (ring_of E s)" "span_ok (length (ring_of E s)) (fs_anchor sp) (fs_footprint sp)"
      "ring_of E s ! unat (fs_anchor sp) = 0"
    and view: "frame_view (ring_of E s) (fs_anchor sp) (fs_footprint sp) = Some frame"
    and run: "route_verified E (core_port V) s d sp = Some (s', d')"
  shows "if frame_accepted E s sp then dispatched_as V frame (sb_id s) d d' else untouched s d s' d'"
proof -
  have crc_ok: "ok = crc_matches (ring_of E s) (fs_anchor sp) (fs_footprint sp)"
    if crc: "crc_ok (be_crc E) (ring_of E s) (sb_crc s) (fs_anchor sp) (fs_footprint sp) = Some (c', ok)" for c' ok
  proof -
    obtain c1 where "crc_feed (be_crc E) (ring_of E s) (sb_crc s) (fs_anchor sp) (fs_footprint sp) = Some c1"
      "crc_verify (be_crc E) (ring_of E s) c1 (fs_anchor sp) (fs_footprint sp) = Some (c', ok)"
      using crc ring(2) by (auto simp: crc_ok_def span_ok_def bind_eq_Some_conv split: if_splits)
    then show ?thesis using prompt_crc_engine.crc_verify_matches [OF eng ring _ refl] by blast
  qed
  show ?thesis
    using run
  proof (cases rule: route_verified_cases)
    case (crc c')
    then show ?thesis using crc_ok [OF crc(1)] by (simp add: frame_accepted_def untouched_def)
  next
    case (auth c' sec')
    then show ?thesis by (simp add: frame_accepted_def untouched_def auth_accepts_def)
  next
    case (pass c' sec' ck t s1 d1 r)
    have acc: "frame_accepted E s sp"
      using crc_ok [OF pass(1)] pass(2) by (simp add: frame_accepted_def auth_accepts_def)
    have own: "case decode frame (sb_id s) of
        DecOwn req ctx slot \<Rightarrow> \<exists>evs out staged. dispatch V d req ctx = Some (d1, evs, out) \<and> r = Some (staged, slot, out)
      | _ \<Rightarrow> d1 = d \<and> r = None"
      using dispatch_decoded_disp [OF pass(4)] view by (auto simp: ring_of_def split: decoded.splits)
    have "dispatched_as V frame (sb_id s) d d'"
    proof (cases "decode frame (sb_id s)")
      case (DecOwn req ctx slot)
      then obtain evs out staged where dsp: "dispatch V d req ctx = Some (d1, evs, out)" "r = Some (staged, slot, out)"
        using own by auto
      then have "d' = (if out = Pending then fst (disp_commit d1) else d1)"
        using pass(5) by (auto dest: finish_frame_disp)
      then show ?thesis using dsp DecOwn by (cases out) (simp_all add: dispatched_as_def run_frame_def)
    qed (use own pass(5) in \<open>auto simp: dispatched_as_def\<close>)
    then show ?thesis using acc by simp
  qed
qed



text \<open>A PING for this servo, alone at the start of the ring.\<close>

definition ping_body :: bytes where
  "ping_body = [1, len_for 0, inst_instruction OpPing 0]"

definition ping_env :: "sim_crc bus_env" where
  "ping_env = idle_env\<lparr> be_ring := \<lambda>n. (0 # ping_body @ le16_bytes (osc_crc ping_body)) @ replicate 506 0 \<rparr>"

definition ping_span :: frame_span where
  "ping_span = \<lparr> fs_anchor = 0, fs_footprint = 6, fs_packet_end = 0 \<rparr>"

abbreviation ping_bus :: "sim_crc servo_bus" where
  "ping_bus \<equiv> bus_new ping_env sim_crc_new 1 B1000000 200"

lemma le16_bytes_nth: "le16_bytes w = [ucast w, ucast (drop_bit 8 w)]"
  by (simp add: le16_bytes_def)

lemma ping_ring: "ring_of ping_env ping_bus =
  0 # 1 # len_for 0 # inst_instruction OpPing 0 # ucast (osc_crc ping_body) # ucast (drop_bit 8 (osc_crc ping_body)) # replicate 506 0"
  by (simp add: ring_of_def ping_env_def ping_body_def le16_bytes_nth)

lemma ping_env_ok: "env_ok ping_env 512"
proof -
  have "ring_ok (be_ring ping_env n)" "length (be_ring ping_env n) = 512" for n
    by (auto simp: ping_env_def ping_body_def ring_ok_def FRAME_MAX_def footprint_def le16_bytes_nth intro: exI [of _ 9])
  moreover have "be_cursor ping_env = be_cursor idle_env" by (simp add: ping_env_def)
  ultimately show ?thesis using idle_env_ok by (simp add: env_ok_def)
qed

lemma ping_view: "\<exists>f. frame_view (ring_of ping_env ping_bus) 0 6 = Some f \<and>
  fb_bytes f = [0, 1, len_for 0, inst_instruction OpPing 0] @ [] @ le16_bytes (osc_crc ping_body)"
  using frame_view_window [of 0 "ring_of ping_env ping_bus" 6]
  by (simp add: ping_ring window_def upt_rec le16_bytes_nth)

lemma ping_inst:
  "inst_instruction OpPing 0 = 0x10" "\<not> inst_is_status 0x10" "inst_opcode 0x10 = Some OpPing"
  "\<not> inst_noreply 0x10" "\<not> inst_authenticated 0x10"
  by (simp_all add: inst_instruction_def inst_is_status_def inst_opcode_def inst_noreply_def inst_authenticated_def
      opcode_from_bits_def osc_const)

lemma ping_decodes:
  assumes "fb_bytes f = [0, 1, len_for 0, inst_instruction OpPing 0] @ [] @ le16_bytes (osc_crc ping_body)"
  shows "decode f 1 = DecOwn ReqPing \<lparr> may_reply = True \<rparr> 0"
proof -
  obtain pv where "decode f 1 = dec_route (inst_instruction OpPing 0) 1 pv 1"
    using decode_view [OF assms, of 1] by auto
  then show ?thesis
    by (simp add: ping_inst dec_route_def dec_plain_def Let_def id_addresses_def id_is_broadcast_def)
qed

lemma ping_accepted: "frame_accepted ping_env ping_bus ping_span"
proof -
  have "crc_matches (ring_of ping_env ping_bus) 0 6"
    by (simp add: crc_matches_def ping_ring window_def upt_rec ping_body_def)
  moreover have "auth_accepts (ring_of ping_env ping_bus) (sb_security ping_bus) 0 6"
  proof -
    have i: "ring_inst (ring_of ping_env ping_bus) 0 = Some 0x10" by (simp add: ring_inst_def ping_ring ping_inst)
    have sec: "sb_security ping_bus = ctx_new policy_OPEN" by (simp add: bus_new_def)
    have v: "verdict_is_pass (snd (ctx_verify (ctx_new policy_OPEN) 0x10 b buf))" for b buf
      by (simp add: ctx_new_def ctx_verify_def ctx_evaluate_def ping_inst requires_tag_def policy_OPEN_def verdict_is_pass_def)
    show ?thesis
      unfolding auth_accepts_eq [OF i] sec by (simp add: v ping_ring AUTH_SPAN_MAX_def upt_rec del: ctx_verify_simps)
  qed
  ultimately show ?thesis by (simp add: frame_accepted_def ping_span_def)
qed


end
