(* ===== verification/Servo_Hazard.thy ===== *)
theory Servo_Hazard
  imports Servo_Gate
begin

text \<open>
  Two behaviours of the transport's security pipeline that its documentation does not mention. A write
  that is not this servo's enters the stream digest once per routing attempt, so the digest depends on
  when the frame was met; and tags are checked before addresses, so genuine traffic for a neighbour
  counts as attack evidence.
\<close>

subsection \<open>A skipped write is folded once or twice\<close>

lemma folds_not_verdict_first: "folds_into_stream i \<Longrightarrow> \<not> verdict_first_inst i \<and> inst_opcode i \<noteq> Some OpCommit \<and> \<not> inst_is_status i"
  by (auto simp: folds_into_stream_def verdict_first_inst_def inst_opcode_def split: option.splits opcode.splits if_splits)

lemma auth_verify_stream:
  assumes "auth_verify ring sec anchor fp = Some (sec', ok)" "ring_inst ring anchor = Some i" "inst_opcode i \<noteq> Some OpCommit"
  shows "sc_stream sec' = sc_stream sec"
proof -
  have "sec' = sec \<or> (\<exists>b buf. sec' = fst (ctx_verify sec i b buf))"
    using assms(1,3) unfolding auth_verify_def assms(2) covered_span_def
    by (auto simp: Let_def bind_eq_Some_conv split_beta simp del: ctx_verify_simps split: if_splits)
  then show ?thesis by auto
qed

lemma security_fold_segments:
  assumes "ring_ok ring" "span_ok (length ring) anchor fp" "ring_inst ring anchor = Some i" "folds_into_stream i"
  obtains x y where "\<And>sec. security_fold ring sec anchor fp = Some (ctx_fold sec i x y)"
proof -
  define start where "start = (unat anchor + 1) mod length ring"
  define fin where "fin = start + (unat fp - 3)"
  have "start \<le> length ring" "start \<le> fin" "fin \<le> length ring + length ring"
    using assms(2) ring_len [OF assms(1)] mod_less_divisor [of "length ring" "unat anchor + 1"]
    unfolding span_ok_def start_def fin_def by linarith+
  note sl = wrapped_slices_total [OF this]
  have eq: "security_fold ring sec anchor fp =
    (if fin \<le> length ring then do { x \<leftarrow> slice_opt ring start fin; Some (ctx_fold sec i x []) }
     else do { x \<leftarrow> slice_opt ring start (length ring); y \<leftarrow> slice_opt ring 0 (fin - length ring);
               Some (ctx_fold sec i x y) })" for sec
    unfolding security_fold_def covered_span_def Let_def assms(3) start_def [symmetric] by (simp add: fin_def assms(4))
  show thesis
  proof (cases "fin \<le> length ring")
    case True
    then obtain x where "slice_opt ring start fin = Some x" using sl by auto
    then show thesis using that [of x "[]"] eq True by simp
  next
    case False
    then obtain x y where "slice_opt ring start (length ring) = Some x" "slice_opt ring 0 (fin - length ring) = Some y" using sl by auto
    then show thesis using that [of x y] eq False by simp
  qed
qed

lemma skip_dispatch:
  assumes "frame_view (ring_of E s) a fp = Some frame" "decode frame (sb_id s) = DecSkip"
  shows "dispatch_decoded E D s d a fp = Some (s, d, None)"
  using assms by (simp add: dispatch_decoded_def)

text \<open>One pass of a skipped, folded, accepted frame through the spine.\<close>

lemma skip_frontier:
  assumes "ring_ok (ring_of E s)" "span_ok (length (ring_of E s)) (fs_anchor sp) (fs_footprint sp)"
    and view: "frame_view (ring_of E s) (fs_anchor sp) (fs_footprint sp) = Some frame" "decode frame (sb_id s) = DecSkip"
    and inst: "ring_inst (ring_of E s) (fs_anchor sp) = Some i" "folds_into_stream i"
    and idle: "\<not> chain_active (sb_chain s)" "\<not> tx_busy (sb_tx s)"
    and fold: "security_fold (ring_of E s) (sb_security s) (fs_anchor sp) (fs_footprint sp) = Some sec"
  shows "\<exists>c. route_frame E D s d sp False = Some (s\<lparr> sb_crc := c, sb_security := sec \<rparr>, d)"
proof -
  obtain c where c: "crc_feed (be_crc E) (ring_of E s) (sb_crc s) (fs_anchor sp) (fs_footprint sp) = Some c"
    using crc_feed_total [OF assms(1,2), of "be_crc E" "sb_crc s"] by blast
  have "dispatch_decoded E D (s\<lparr> sb_crc := c, sb_security := sec \<rparr>) d (fs_anchor sp) (fs_footprint sp) =
      Some (s\<lparr> sb_crc := c, sb_security := sec \<rparr>, d, None)"
    by (rule skip_dispatch) (use view in simp_all)
  then show ?thesis
    using c fold idle inst folds_not_verdict_first [OF inst(2)]
    by (auto simp: route_frame_def route_speculative_def)
qed

lemma skip_complete:
  assumes eng: "prompt_crc_engine (be_crc E) acc base"
    and ring: "ring_ok (ring_of E s)" "span_ok (length (ring_of E s)) (fs_anchor sp) (fs_footprint sp)"
      "ring_of E s ! unat (fs_anchor sp) = 0"
    and view: "frame_view (ring_of E s) (fs_anchor sp) (fs_footprint sp) = Some frame" "decode frame (sb_id s) = DecSkip"
    and inst: "ring_inst (ring_of E s) (fs_anchor sp) = Some i" "folds_into_stream i"
    and idle: "\<not> chain_active (sb_chain s)" "\<not> tx_busy (sb_tx s)" "sb_pending s = None"
    and fold: "security_fold (ring_of E s) (sb_security s) (fs_anchor sp) (fs_footprint sp) = Some sec"
    and ok: "frame_accepted E s sp"
  shows "\<exists>s'. on_frame_end E D s d sp = Some (s', d) \<and> sc_stream (sb_security s') = sc_stream sec"
proof -
  obtain c where c: "crc_feed (be_crc E) (ring_of E s) (sb_crc s) (fs_anchor sp) (fs_footprint sp) = Some c"
    using crc_feed_total [OF ring(1,2), of "be_crc E" "sb_crc s"] by blast
  let ?s = "s\<lparr> sb_crc := c, sb_security := sec \<rparr>"
  obtain c' ok where v: "crc_verify (be_crc E) (ring_of E s) c (fs_anchor sp) (fs_footprint sp) = Some (c', ok)"
    using crc_verify_total [OF ring(1,2)] by metis
  have crc: ok using prompt_crc_engine.crc_verify_matches [OF eng ring c refl v] ok by (simp add: frame_accepted_def)
  obtain sec' au where a: "auth_verify (ring_of E s) sec (fs_anchor sp) (fs_footprint sp) = Some (sec', au)"
    using auth_verify_total [OF ring(1)] by metis
  have au: au using auth_accepts_fold [OF fold] ok a by (simp add: frame_accepted_def auth_accepts_def)
  have st: "sc_stream sec' = sc_stream sec"
    by (rule auth_verify_stream [OF a inst(1)]) (use folds_not_verdict_first [OF inst(2)] in simp)
  have dd: "dispatch_decoded E D ?s d (fs_anchor sp) (fs_footprint sp) = Some (?s, d, None)"
    by (rule skip_dispatch) (use view in simp_all)
  let ?s1 = "?s\<lparr> sb_crc := c', sb_security := sec', sb_framer := framer_on_frame_verified (sb_framer s) \<rparr>"
  obtain ck where n: "drift_note_verified E ?s1 (fs_anchor sp) (fs_footprint sp) = Some (?s1\<lparr> sb_clock := ck \<rparr>)"
    using drift_note_total [of E ?s1] ring(1) by (metis ring_of_updates(1-3))
  have eq: "s\<lparr> sb_pending := None \<rparr> = s" using idle(3) by simp
  have "on_frame_end E D s d sp = route_frame E D s d sp True"
    by (simp only: on_frame_end_def Let_def idle(3) eq option.case)
  also have "\<dots> = route_speculative E D s d sp True"
    using idle inst folds_not_verdict_first [OF inst(2)] by (simp add: route_frame_def)
  also have "\<dots> = Some (?s1\<lparr> sb_clock := ck \<rparr>, d)"
    using c fold dd v crc a au n by (simp add: route_speculative_def verify_def finish_frame_def Let_def)
  finally show ?thesis using st by simp
qed

text \<open>
  C19. A group write that skips this servo enters its stream digest once or twice, depending on timing. A
  frame that folds into the digest and decodes as not ours is folded once when it is met complete; met
  at the frontier first, it is folded at its covered checkpoint and again at its frame end, so the
  servo's digest is no longer that of the servos, and of the host, that folded it once.
\<close>

theorem frontier_skip_folds_twice:
  fixes fm :: framer and n :: nat
  assumes "prompt_crc_engine (be_crc E) acc base" "ring_ok (ring_of E s)" "unat (fs_anchor sp) < length (ring_of E s)"
    "span_at (ring_of E s) (unat (fs_anchor sp)) sp"
    "frame_view (ring_of E s) (fs_anchor sp) (fs_footprint sp) = Some frame" "decode frame (sb_id s) = DecSkip"
    "ring_inst (ring_of E s) (fs_anchor sp) = Some i" "folds_into_stream i"
    "\<not> chain_active (sb_chain s)" "\<not> tx_busy (sb_tx s)" "sb_pending s = None"
    "frame_accepted E s sp" "sc_state (sb_security s) = Secured" "be_ring E n = ring_of E s"
  shows "\<exists>x y s1 s2 s3.
    on_frame_end E D s d sp = Some (s1, d) \<and> sc_stream (sb_security s1) = fold_all (sc_stream (sb_security s)) [(x, y)] \<and>
    route_frame E D s d sp False = Some (s2, d) \<and>
    on_frame_end E D (s2\<lparr> sb_sample := n, sb_framer := fm \<rparr>) d sp = Some (s3, d) \<and>
    sc_stream (sb_security s3) = fold_all (sc_stream (sb_security s)) [(x, y), (x, y)]"
proof -
  have ok: "span_ok (length (ring_of E s)) (fs_anchor sp) (fs_footprint sp)" "ring_of E s ! unat (fs_anchor sp) = 0"
    using span_at_ok [OF assms(4,3)] assms(4) by (simp_all add: span_at_def)
  obtain x y where xy: "\<And>sec. security_fold (ring_of E s) sec (fs_anchor sp) (fs_footprint sp) = Some (ctx_fold sec i x y)"
    using security_fold_segments [OF assms(2) ok(1) assms(7,8)] by blast
  let ?sec = "ctx_fold (sb_security s) i x y"
  have fold: "sc_stream ?sec = fold_frame (sc_stream (sb_security s)) x y" "sc_state ?sec = Secured"
    using assms(8,13) by (simp_all add: ctx_fold_def)
  obtain s1 where s1: "on_frame_end E D s d sp = Some (s1, d)" "sc_stream (sb_security s1) = sc_stream ?sec"
    using skip_complete [OF assms(1,2) ok assms(5-11) xy assms(12), of D d] by blast
  obtain c where s2: "route_frame E D s d sp False = Some (s\<lparr> sb_crc := c, sb_security := ?sec \<rparr>, d)"
    using skip_frontier [OF assms(2) ok(1) assms(5-10) xy, of D d] by blast
  let ?s = "s\<lparr> sb_crc := c, sb_security := ?sec, sb_sample := n, sb_framer := fm \<rparr>"
  have ring: "ring_of E ?s = ring_of E s" using assms(14) by (simp add: ring_of_def)
  have acc: "frame_accepted E ?s sp"
    using assms(12) auth_accepts_fold [OF xy [of "sb_security s"]] unfolding frame_accepted_def ring by simp
  obtain s3 where s3: "on_frame_end E D ?s d sp = Some (s3, d)" "sc_stream (sb_security s3) = sc_stream (ctx_fold ?sec i x y)"
    using skip_complete [of E acc base ?s sp frame i "ctx_fold ?sec i x y" D d] assms(1,2,5-11) ok xy acc unfolding ring by auto
  have "sc_stream (ctx_fold ?sec i x y) = fold_frame (fold_frame (sc_stream (sb_security s)) x y) x y"
    using fold assms(8) by (simp add: ctx_fold_def [of ?sec])
  then show ?thesis using s1 s2 s3 fold by (auto simp: fold_all_def)
qed


text \<open>A write for servo 2, as servo 1 sees it in a session.\<close>

definition other_body :: bytes where
  "other_body = [2, len_for 0, inst_instruction OpWrite 0]"

definition other_env :: "sim_crc bus_env" where
  "other_env = idle_env\<lparr> be_ring := \<lambda>n. (0 # other_body @ le16_bytes (osc_crc other_body)) @ replicate 506 0 \<rparr>"

abbreviation other_bus :: "sim_crc servo_bus" where
  "other_bus \<equiv> install_session (bus_new other_env sim_crc_new 1 B1000000 200) demo_keys"

lemma other_ring: "be_ring other_env n =
  0 # 2 # len_for 0 # 0x30 # ucast (osc_crc other_body) # ucast (drop_bit 8 (osc_crc other_body)) # replicate 506 0"
  by (simp add: other_env_def other_body_def le16_bytes_nth inst_instruction_def)

lemma other_inst:
  "inst_instruction OpWrite 0 = 0x30" "inst_opcode 0x30 = Some OpWrite" "\<not> inst_authenticated 0x30" "folds_into_stream 0x30"
  "\<not> inst_is_status 0x30"
  by (simp_all add: inst_instruction_def inst_is_status_def inst_opcode_def inst_authenticated_def folds_into_stream_def
      opcode_from_bits_def osc_const)

lemma other_view:
  "\<exists>f. frame_view (be_ring other_env n) 0 6 = Some f \<and> decode f 1 = DecSkip"
proof -
  obtain f where f: "frame_view (be_ring other_env n) 0 6 = Some f"
    "fb_bytes f = [0, 2, len_for 0, 0x30] @ [] @ le16_bytes (osc_crc other_body)"
    using frame_view_window [of 0 "be_ring other_env n" 6] by (auto simp: other_ring window_def upt_rec le16_bytes_nth)
  obtain pv where "decode f 1 = dec_route 0x30 2 pv 1" using decode_view [OF f(2), of 1] by auto
  then have "decode f 1 = DecSkip"
    by (simp add: other_inst dec_route_def dec_plain_def Let_def id_addresses_def id_is_broadcast_def)
  then show ?thesis using f(1) by blast
qed

lemma other_accepted: "frame_accepted other_env other_bus ping_span"
proof -
  have ring: "ring_of other_env other_bus = be_ring other_env 0" by (simp add: ring_of_def install_session_def bus_new_def)
  have "crc_matches (be_ring other_env 0) 0 6"
    by (simp add: crc_matches_def other_ring window_def upt_rec) (simp add: other_body_def other_inst)
  moreover have "auth_accepts (be_ring other_env 0) (sb_security other_bus) 0 6"
  proof -
    have i: "ring_inst (be_ring other_env 0) 0 = Some 0x30" by (simp add: ring_inst_def other_ring)
    have sec: "sb_security other_bus = ctx_install (ctx_new policy_OPEN) demo_keys" by (simp add: bus_new_def install_session_def)
    have v: "verdict_is_pass (snd (ctx_verify (ctx_install (ctx_new policy_OPEN) demo_keys) 0x30 b buf))" for b buf
      by (simp add: ctx_new_def ctx_install_def ctx_verify_def ctx_evaluate_def other_inst requires_tag_def policy_OPEN_def verdict_is_pass_def)
    show ?thesis
      unfolding auth_accepts_eq [OF i] sec by (simp add: v other_ring AUTH_SPAN_MAX_def upt_rec del: ctx_verify_simps)
  qed
  ultimately show ?thesis by (simp add: frame_accepted_def ping_span_def ring)
qed

theorem frontier_skip_folds_twice_witness:
  "\<exists>x y s2 s3. route_frame other_env (core_port vec_std) other_bus fresh ping_span False = Some (s2, fresh) \<and>
    on_frame_end other_env (core_port vec_std) (s2\<lparr> sb_sample := 2, sb_framer := framer_new \<rparr>) fresh ping_span = Some (s3, fresh) \<and>
    sc_stream (sb_security s3) = fold_all (sc_stream (sb_security other_bus)) [(x, y), (x, y)]"
proof -
  obtain f where f: "frame_view (be_ring other_env 0) 0 6 = Some f" "decode f 1 = DecSkip" using other_view by blast
  have ring: "ring_of other_env other_bus = be_ring other_env 0" by (simp add: ring_of_def install_session_def bus_new_def)
  have len: "length (be_ring other_env 0) = 512" by (simp add: other_ring)
  have rok: "ring_ok (be_ring other_env 0)"
    unfolding ring_ok_def len by (auto simp: FRAME_MAX_def footprint_def intro: exI [of _ 9])
  have span: "span_at (be_ring other_env 0) 0 ping_span"
    by (simp add: span_at_def other_ring ping_span_def len_for_def)
  have bus: "sb_id other_bus = 1" "\<not> chain_active (sb_chain other_bus)" "\<not> tx_busy (sb_tx other_bus)" "sb_pending other_bus = None"
    "sc_state (sb_security other_bus) = Secured"
    by (simp_all add: install_session_def bus_new_def chain_new_def chain_active_def tx_new_def tx_busy_def ctx_install_def)
  have inst: "ring_inst (be_ring other_env 0) 0 = Some 0x30" by (simp add: ring_inst_def other_ring)
  have eng: "prompt_crc_engine (be_crc other_env) simc_state 0"
    using sim.prompt_crc_engine_axioms by (simp add: other_env_def idle_env_def)
  have same: "be_ring other_env 2 = ring_of other_env other_bus" by (simp add: ring other_ring)
  show ?thesis
    using frontier_skip_folds_twice [of other_env simc_state 0 other_bus ping_span f "0x30" 2 "core_port vec_std" fresh framer_new]
      eng rok len span f inst bus other_inst(4) other_accepted same
    by (fastforce simp: ring ping_span_def)
qed


subsection \<open>Traffic for a neighbour counts as an attack\<close>

lemma those_Some: "(\<And>x. x \<in> set xs \<Longrightarrow> f x = Some (g x)) \<Longrightarrow> those (map f xs) = Some (map g xs)"
  by (induction xs) auto

lemma covered_buffer:
  assumes "ring_ok ring"
  shows "those (map (\<lambda>k. nth_opt ring (((unat a + 1) mod length ring + k) mod length ring)) [0..<n]) = Some (window ring (unat a + 1) n)"
proof -
  have "0 < length ring" using ring_len [OF assms] by linarith
  then have "those (map (\<lambda>k. nth_opt ring (((unat a + 1) mod length ring + k) mod length ring)) [0..<n]) =
      Some (map (\<lambda>k. ring ! (((unat a + 1) mod length ring + k) mod length ring)) [0..<n])"
    by (intro those_Some) (simp add: nth_opt_Some)
  also have "map (\<lambda>k. ring ! (((unat a + 1) mod length ring + k) mod length ring)) [0..<n] = window ring (unat a + 1) n"
    by (rule nth_equalityI) (simp_all add: nth_window mod_simps)
  finally show ?thesis .
qed

lemma foreign_tag_bad:
  assumes "sc_state c = Secured" "session_keys_is_ready (sc_keys c)" "inst_authenticated i" "inst_opcode i \<noteq> Some OpCommit"
    "4 \<le> length pfx" "replay_check (sc_replay c) (last pfx) = Inr ()"
    "tag \<noteq> mac (session_keys_for_frame (sc_keys c) b) (frame_message (sc_keys c) (last pfx) pfx)"
  shows "ctx_evaluate c i b (pfx @ le32_bytes tag) = (c, AvBadTag)"
proof -
  obtain tr where tr: "trailer_split (pfx @ le32_bytes tag) = Some tr" "tr_tagged_prefix tr = pfx" "tr_seq tr = last pfx"
    using trailer_split_Some [OF assms(5), of tag] by (simp add: tag_to_bytes_def)
  have "\<not> valid_tagged c i b (pfx @ le32_bytes tag) pfx"
    using assms(4,7) by (auto simp: valid_tagged_def auth_message_def)
  then show ?thesis using assms(6) tr by (simp add: ctx_evaluate_tagged [OF assms(1-3)])
qed

text \<open>
  C20. Tagged traffic for a neighbour counts as an attack. The transport verifies a frame's tag before it
  asks whom the frame addresses: a unicast write for another servo, tagged under that servo's key, is a
  bad tag here. Each one raises the count of consecutive failures, and the one that reaches the
  policy's limit locks the session out, although every frame on the wire was genuine.
\<close>

theorem neighbour_frame_counts_as_attack:
  fixes E :: "('c, 'e) bus_env_scheme" and s :: "'c servo_bus"
  defines "c \<equiv> sb_security s"
  assumes "prompt_crc_engine (be_crc E) acc base" "ring_ok (ring_of E s)" "unat (fs_anchor sp) < length (ring_of E s)"
    "span_at (ring_of E s) (unat (fs_anchor sp)) sp"
    "frame_view (ring_of E s) (fs_anchor sp) (fs_footprint sp) = Some frame" "decode frame (sb_id s) = DecSkip"
    "ring_inst (ring_of E s) (fs_anchor sp) = Some i" "inst_opcode i = Some OpWrite" "inst_authenticated i"
    "\<not> chain_active (sb_chain s)" "\<not> tx_busy (sb_tx s)" "sb_pending s = None"
    "crc_matches (ring_of E s) (fs_anchor sp) (fs_footprint sp)" "unat (fs_footprint sp) - 3 \<le> AUTH_SPAN_MAX"
    "ring_of E s ! ((unat (fs_anchor sp) + 1) mod length (ring_of E s)) \<noteq> Id_BROADCAST"
    "sc_state c = Secured" "session_keys_is_ready (sc_keys c)"
    "window (ring_of E s) (unat (fs_anchor sp) + 1) (unat (fs_footprint sp) - 3) =
       pfx @ le32_bytes tag"
    "4 \<le> length pfx" "replay_check (sc_replay c) (last pfx) = Inr ()"
    "tag \<noteq> mac (sk_unicast (sc_keys c)) (frame_message (sc_keys c) (last pfx) pfx)"
  shows "\<exists>s'. on_frame_end E D s d sp = Some (s', d) \<and> sc_fails (sb_security s') = sat_add (sc_fails c) 1 \<and>
    (if pol_lockout_after (sc_policy c) \<le> sat_add (sc_fails c) 1 then sc_state (sb_security s') = LockedOut
     else sc_state (sb_security s') = Secured)"
proof -
  let ?ring = "ring_of E s" and ?a = "fs_anchor sp" and ?fp = "fs_footprint sp"
  have ok: "span_ok (length ?ring) ?a ?fp" "?ring ! unat ?a = 0"
    using span_at_ok [OF assms(5,4)] assms(5) by (simp_all add: span_at_def)
  have pos: "0 < length ?ring" using assms(4) by linarith
  have folds: "folds_into_stream i" "\<not> verdict_first_inst i" "\<not> inst_is_status i"
    using assms(9) by (auto simp: folds_into_stream_def verdict_first_inst_def inst_opcode_def split: if_splits)
  obtain c1 where c1: "crc_feed (be_crc E) ?ring (sb_crc s) ?a ?fp = Some c1"
    using crc_feed_total [OF assms(3) ok(1), of "be_crc E" "sb_crc s"] by blast
  obtain c2 okc where c2: "crc_verify (be_crc E) ?ring c1 ?a ?fp = Some (c2, okc)"
    using crc_verify_total [OF assms(3) ok(1)] by metis
  have okc: okc using prompt_crc_engine.crc_verify_matches [OF assms(2,3) ok c1 refl c2] assms(14) by simp
  obtain x y where fold: "\<And>sec. security_fold ?ring sec ?a ?fp = Some (ctx_fold sec i x y)"
    using security_fold_segments [OF assms(3) ok(1) assms(8) folds(1)] by blast
  define sec where "sec = ctx_fold c i x y"
  have sec: "sc_state sec = Secured" "sc_keys sec = sc_keys c" "sc_replay sec = sc_replay c" "sc_policy sec = sc_policy c"
    "sc_fails sec = sc_fails c"
    using assms(17) by (simp_all add: sec_def ctx_fold_def)
  have ev: "ctx_evaluate sec i False (pfx @ le32_bytes tag) = (sec, AvBadTag)"
    using foreign_tag_bad [of sec i pfx tag False] sec assms(9,10,18,20-22) by (simp add: session_keys_for_frame_def)
  have buf: "those (map (\<lambda>k. nth_opt ?ring (((unat ?a + 1) mod length ?ring + k) mod length ?ring)) [0..<unat ?fp - 3]) =
      Some (pfx @ le32_bytes tag)"
    using covered_buffer [OF assms(3), of ?a "unat ?fp - 3"] assms(19) by simp
  have idb: "nth_opt ?ring ((unat ?a + 1) mod length ?ring) = Some (?ring ! ((unat ?a + 1) mod length ?ring))"
    using pos by (simp add: nth_opt_Some)
  define start where "start = (unat ?a + 1) mod length ?ring"
  have uni: "(?ring ! start = Id_BROADCAST) = False" using assms(16) by (simp add: start_def)
  have auth: "auth_verify ?ring sec ?a ?fp = Some (ctx_record sec AvBadTag, False)"
    using assms(9,15) uni idb buf unfolding auth_verify_def covered_span_def assms(8) start_def [symmetric]
    by (simp add: ctx_verify_def ev Let_def verdict_is_pass_def del: ctx_verify_simps)
  let ?s = "s\<lparr> sb_crc := c1, sb_security := sec \<rparr>"
  have dd: "dispatch_decoded E D ?s d ?a ?fp = Some (?s, d, None)"
    by (rule skip_dispatch) (use assms(6,7) in simp_all)
  define s' where "s' = refuse_frame (drop_staged (?s\<lparr> sb_crc := c2, sb_security := ctx_record sec AvBadTag \<rparr>))"
  have eq: "s\<lparr> sb_pending := None \<rparr> = s" using assms(13) by simp
  have "on_frame_end E D s d sp = route_frame E D s d sp True"
    by (simp only: on_frame_end_def Let_def assms(13) eq option.case)
  also have "\<dots> = route_speculative E D s d sp True"
    using assms(8,11,12) folds by (simp add: route_frame_def)
  also have "\<dots> = Some (s', d)"
    using c1 fold [of c] dd c2 okc auth
    by (simp add: route_speculative_def verify_def Let_def s'_def sec_def c_def)
  finally have run: "on_frame_end E D s d sp = Some (s', d)" .
  have "sb_security s' = ctx_rollback_stream (ctx_record sec AvBadTag)"
    by (simp add: s'_def refuse_frame_def drop_staged_def Let_def)
  then have "sc_fails (sb_security s') = sat_add (sc_fails c) 1"
    "sc_state (sb_security s') = (if pol_lockout_after (sc_policy c) \<le> sat_add (sc_fails c) 1 then LockedOut else Secured)"
    using sec by (simp_all add: ctx_rollback_stream_def ctx_record_def is_attack_evidence_def Let_def)
  then show ?thesis using run by auto
qed


text \<open>
  A tagged write for servo 2 in the session of servo 1, one failure short of the lockout; the tag is not
  the one of servo 1's key.
\<close>

definition tagged_prefix :: bytes where
  "tagged_prefix = [2, 8, 0x32, 9]"

definition tagged_tag :: u32 where
  "tagged_tag = mac (sk_unicast demo_keys) (frame_message demo_keys 9 tagged_prefix) + 1"

definition tagged_body :: bytes where
  "tagged_body = tagged_prefix @ le32_bytes tagged_tag"

definition tagged_env :: "sim_crc bus_env" where
  "tagged_env = idle_env\<lparr> be_ring := \<lambda>n. (0 # tagged_body @ le16_bytes (osc_crc tagged_body)) @ replicate 501 0 \<rparr>"

definition tagged_bus :: "sim_crc servo_bus" where
  "tagged_bus = (bus_new tagged_env sim_crc_new 1 B1000000 200)
     \<lparr> sb_security := (ctx_install (ctx_new (policy_FLIGHT\<lparr> pol_lockout_after := 3 \<rparr>)) demo_keys)\<lparr> sc_fails := 2 \<rparr> \<rparr>"

definition tagged_span :: frame_span where
  "tagged_span = \<lparr> fs_anchor = 0, fs_footprint = 11, fs_packet_end = 0 \<rparr>"

lemma tagged_ring: "be_ring tagged_env n = (0 # tagged_body @ le16_bytes (osc_crc tagged_body)) @ replicate 501 0"
  by (simp add: tagged_env_def)

lemma tagged_body_list: "tagged_body = [2, 8, 0x32, 9, ucast tagged_tag, ucast (drop_bit 8 tagged_tag),
    ucast (drop_bit 16 tagged_tag), ucast (drop_bit 24 tagged_tag)]"
  by (simp add: tagged_body_def tagged_prefix_def le32_bytes_def)

lemma tagged_window:
  "window (be_ring tagged_env n) 0 11 = 0 # tagged_body @ le16_bytes (osc_crc tagged_body)"
  "window (be_ring tagged_env n) 1 8 = tagged_prefix @ le32_bytes tagged_tag"
  "length (be_ring tagged_env n) = 512"
proof -
  have r: "be_ring tagged_env n = 0 # 2 # 8 # 0x32 # 9 # ucast tagged_tag # ucast (drop_bit 8 tagged_tag) # ucast (drop_bit 16 tagged_tag) #
      ucast (drop_bit 24 tagged_tag) # ucast (osc_crc tagged_body) # ucast (drop_bit 8 (osc_crc tagged_body)) # replicate 501 0"
    unfolding tagged_ring by (subst tagged_body_list) (simp add: le16_bytes_def)
  show l: "length (be_ring tagged_env n) = 512" by (simp add: r)
  show "window (be_ring tagged_env n) 0 11 = 0 # tagged_body @ le16_bytes (osc_crc tagged_body)"
    by (simp add: window_def l r upt_rec le16_bytes_def flip: tagged_body_list)
  show "window (be_ring tagged_env n) 1 8 = tagged_prefix @ le32_bytes tagged_tag"
    by (simp add: window_def l r upt_rec le32_bytes_def tagged_prefix_def)
qed

lemma tagged_inst:
  "inst_opcode 0x32 = Some OpWrite" "inst_authenticated 0x32" "\<not> inst_is_status 0x32"
  by (simp_all add: inst_is_status_def inst_opcode_def inst_authenticated_def opcode_from_bits_def osc_const)

lemma tagged_view: "\<exists>f. frame_view (be_ring tagged_env n) 0 11 = Some f \<and> decode f 1 = DecSkip"
proof -
  obtain f where f: "frame_view (be_ring tagged_env n) 0 11 = Some f"
    "fb_bytes f = [0, 2, len_for 5, 0x32] @ drop 3 tagged_body @ le16_bytes (osc_crc tagged_body)"
    using frame_view_window [of 0 "be_ring tagged_env n" 11] tagged_window [of n]
    by (auto simp: tagged_body_list len_for_def)
  obtain pv where "decode f 1 = dec_route 0x32 2 pv 1" using decode_view [OF f(2), of 1] by (auto simp: tagged_body_list)
  then have "decode f 1 = DecSkip"
    by (simp add: tagged_inst dec_route_def dec_plain_def Let_def id_addresses_def id_is_broadcast_def)
  then show ?thesis using f(1) by blast
qed

theorem neighbour_frame_counts_as_attack_witness:
  "\<exists>s'. on_frame_end tagged_env (core_port vec_std) tagged_bus fresh tagged_span = Some (s', fresh) \<and>
    sc_state (sb_security s') = LockedOut"
proof -
  obtain f where f: "frame_view (be_ring tagged_env 0) 0 11 = Some f" "decode f 1 = DecSkip" using tagged_view by blast
  have ring: "ring_of tagged_env tagged_bus = be_ring tagged_env 0" by (simp add: ring_of_def tagged_bus_def bus_new_def)
  have rok: "ring_ok (be_ring tagged_env 0)"
    unfolding ring_ok_def tagged_window by (auto simp: FRAME_MAX_def footprint_def intro: exI [of _ 9])
  have bytes: "be_ring tagged_env 0 ! 0 = 0" "be_ring tagged_env 0 ! 1 = 2" "be_ring tagged_env 0 ! 2 = 8" "be_ring tagged_env 0 ! 3 = 0x32"
    by (simp_all add: tagged_ring tagged_body_list)
  have span: "span_at (be_ring tagged_env 0) 0 tagged_span"
    using bytes by (simp add: span_at_def tagged_window tagged_span_def flip: numeral_2_eq_2)
  have inst: "ring_inst (be_ring tagged_env 0) 0 = Some 0x32"
    using bytes by (simp add: ring_inst_def tagged_window nth_opt_Some)
  have crc: "crc_matches (be_ring tagged_env 0) 0 11"
  proof -
    have "be_ring tagged_env 0 ! 9 = ucast (osc_crc tagged_body)" "be_ring tagged_env 0 ! 10 = ucast (drop_bit 8 (osc_crc tagged_body))"
      by (simp_all add: tagged_ring nth_append le16_bytes_def) (simp_all add: tagged_body_list)
    then show ?thesis using tagged_window(2,3) [of 0] by (simp add: crc_matches_def flip: tagged_body_def)
  qed
  have eng: "prompt_crc_engine (be_crc tagged_env) simc_state 0"
    using sim.prompt_crc_engine_axioms by (simp add: tagged_env_def idle_env_def)
  have bus: "sb_id tagged_bus = 1" "\<not> chain_active (sb_chain tagged_bus)" "\<not> tx_busy (sb_tx tagged_bus)" "sb_pending tagged_bus = None"
    by (simp_all add: tagged_bus_def bus_new_def chain_new_def chain_active_def tx_new_def tx_busy_def)
  have sec: "sc_state (sb_security tagged_bus) = Secured" "sc_keys (sb_security tagged_bus) = demo_keys"
    "sc_fails (sb_security tagged_bus) = 2" "pol_lockout_after (sc_policy (sb_security tagged_bus)) = 3"
    "replay_check (sc_replay (sb_security tagged_bus)) 9 = Inr ()"
    by (simp_all add: tagged_bus_def ctx_install_def ctx_new_def replay_check_def replay_restart_def replay_new_def policy_FLIGHT_def)
  have keys: "session_keys_is_ready demo_keys" by (simp add: demo_keys_def session_keys_is_ready_def mac_key_is_zero_def)
  have pfx: "4 \<le> length tagged_prefix" "last tagged_prefix = 9" by (simp_all add: tagged_prefix_def)
  have tag: "tagged_tag \<noteq> mac (sk_unicast demo_keys) (frame_message demo_keys 9 tagged_prefix)"
    by (simp add: tagged_tag_def)
  have sat: "pol_lockout_after (sc_policy (sb_security tagged_bus)) \<le> sat_add (sc_fails (sb_security tagged_bus)) 1"
    by (simp add: sec sat_add_def)
  show ?thesis
    using neighbour_frame_counts_as_attack [of tagged_env simc_state 0 tagged_bus tagged_span f "0x32" tagged_prefix tagged_tag "core_port vec_std" fresh]
      eng rok span f inst tagged_inst(1,2) bus crc sec keys pfx tag sat bytes(2) tagged_window(2) [of 0]
    by (auto simp: ring tagged_span_def tagged_window(3) AUTH_SPAN_MAX_def Id_BROADCAST_def)
qed

end
