(* ===== verification/Host_Framer.thy ===== *)
theory Host_Framer
  imports Bus_Framer Osc_Crc
begin

text \<open>
  \<open>host/src/engine/framer.rs\<close>: the host's ring walker. A candidate frame starts at a zero byte, its
  header gives its end, and the checksum alone decides. The cursor into the ring is a \<open>usize\<close>
  (\<^typ>\<open>nat\<close>; the wrapping subtraction is written out at 32 bits). \<open>None\<close> is a panic: an index outside the
  ring, or the mask of an empty ring. The refinement below says that the walk sees only the unconsumed
  bytes, wherever the ring's seam falls.
\<close>

subsection \<open>Definitions\<close>

record host_frame =
  hf_id :: frame_id
  hf_inst :: inst
  hf_payload :: frame_bytes
  hf_payload_pos :: nat

datatype host_step = HsIdle | HsPartial | HsFrame host_frame | HsGarble u16

record host_framer =
  hr_anchor :: nat

definition host_framer_new :: host_framer where
  "host_framer_new = \<lparr> hr_anchor = 0 \<rparr>"

definition host_framer_resync :: "host_framer \<Rightarrow> nat \<Rightarrow> host_framer" where
  "host_framer_resync f cursor = f\<lparr> hr_anchor := cursor \<rparr>"

definition host_avail :: "nat \<Rightarrow> nat \<Rightarrow> nat \<Rightarrow> nat" where
  "host_avail cursor anchor len = ring_wrap (nat ((int cursor - int anchor) mod 2 ^ 32)) len"

function host_hunt_loop :: "bytes \<Rightarrow> nat \<Rightarrow> nat \<Rightarrow> nat \<Rightarrow> nat option" where
  "host_hunt_loop ring anchor avail n =
     (if n < avail
      then do { b \<leftarrow> nth_opt ring (ring_wrap (anchor + n) (length ring));
                if b \<noteq> 0 then host_hunt_loop ring anchor avail (n + 1) else Some n }
      else Some n)"
  by pat_completeness auto
termination by (relation "measure (\<lambda>(ring, anchor, avail, n). avail - n)") auto

declare host_hunt_loop.simps [simp del]

definition host_hunt :: "host_framer \<Rightarrow> bytes \<Rightarrow> nat \<Rightarrow> (host_framer \<times> host_step) option" where
  "host_hunt f ring avail =
     do { n \<leftarrow> host_hunt_loop ring (hr_anchor f) avail 1;
          Some (f\<lparr> hr_anchor := ring_wrap (hr_anchor f + n) (length ring) \<rparr>, HsGarble (of_nat n)) }"

definition ring_crc :: "bytes \<Rightarrow> nat \<Rightarrow> nat \<Rightarrow> u16 option" where
  "ring_crc ring start n =
     (if length ring < start then None
      else let head = min n (length ring - start)
           in do { x \<leftarrow> slice_opt ring start (start + head);
                   if head = n then Some (osc_crc x)
                   else do { y \<leftarrow> slice_opt ring 0 (n - head); Some (osc_crc_continue (osc_crc x) y) } })"

definition payload_view :: "bytes \<Rightarrow> nat \<Rightarrow> nat \<Rightarrow> frame_bytes option" where
  "payload_view ring start n =
     (if length ring < start then None
      else let head = min n (length ring - start)
           in do { x \<leftarrow> slice_opt ring start (start + head);
                   y \<leftarrow> slice_opt ring 0 (n - head);
                   Some (fb_new x y) })"

definition host_valid_shape :: "nat \<Rightarrow> frame_id \<Rightarrow> u8 \<Rightarrow> inst \<Rightarrow> bool" where
  "host_valid_shape ring_len i l inst \<longleftrightarrow>
     3 \<le> l \<and> id_is_valid i \<and> (inst_is_status inst \<or> inst_opcode inst \<noteq> None) \<and> footprint l \<le> ring_len"

definition host_framer_step :: "host_framer \<Rightarrow> bytes \<Rightarrow> nat \<Rightarrow> (host_framer \<times> host_step) option" where
  "host_framer_step f ring cursor =
     (let len = length ring; a = hr_anchor f; avail = host_avail cursor a len
      in if len = 0 then None
         else if avail = 0 then Some (f, HsIdle)
         else do {
           b \<leftarrow> nth_opt ring a;
           if b \<noteq> 0 then host_hunt f ring avail
           else if avail < 4 then Some (f, HsPartial)
           else do {
             i \<leftarrow> nth_opt ring (ring_wrap (a + 1) len);
             l \<leftarrow> nth_opt ring (ring_wrap (a + 2) len);
             inst \<leftarrow> nth_opt ring (ring_wrap (a + 3) len);
             if \<not> host_valid_shape len i l inst then host_hunt f ring avail
             else if avail < footprint l then Some (f, HsPartial)
             else do {
               let clen = covered_len l;
               crc \<leftarrow> ring_crc ring a clen;
               lo \<leftarrow> nth_opt ring (ring_wrap (a + clen) len);
               hi \<leftarrow> nth_opt ring (ring_wrap (a + clen + 1) len);
               if crc \<noteq> le16 lo hi then host_hunt f ring avail
               else do {
                 let pos = ring_wrap (a + 4) len;
                 pay \<leftarrow> payload_view ring pos (unat (payload_len l));
                 Some (f\<lparr> hr_anchor := ring_wrap (a + footprint l) len \<rparr>,
                       HsFrame \<lparr> hf_id = i, hf_inst = inst, hf_payload = pay, hf_payload_pos = pos \<rparr>) } } } })"

subsection \<open>The unconsumed bytes\<close>

abbreviation unconsumed :: "host_framer \<Rightarrow> bytes \<Rightarrow> nat \<Rightarrow> bytes" where
  "unconsumed f ring cursor \<equiv>
     window ring (hr_anchor f) ((cursor + length ring - hr_anchor f) mod length ring)"

lemma host_avail_mod:
  assumes "ring_ok ring" "a < length ring" "c < length ring"
  shows "host_avail c a (length ring) = (c + length ring - a) mod length ring"
proof -
  obtain k where k: "length ring = 2 ^ k" using ring_okD(1) [OF assms(1)] by blast
  have "(2 :: nat) ^ k \<le> 2 ^ 15" using ring_okD(3) [OF assms(1)] k by simp
  then have "k \<le> 15" by (rule power_le_imp_le_exp [rotated]) simp
  then have dvd: "(2 :: int) ^ k dvd 2 ^ 32" by (intro le_imp_power_dvd) simp
  have "int (nat ((int c - int a) mod 2 ^ 32) mod length ring) = (int c - int a) mod 2 ^ 32 mod 2 ^ k"
    by (simp add: k zmod_int)
  also have "\<dots> = (int c - int a) mod 2 ^ k" using dvd by (rule mod_mod_cancel)
  also have "\<dots> = (int c - int a + 2 ^ k) mod 2 ^ k" by simp
  also have "\<dots> = int ((c + length ring - a) mod length ring)"
    using assms(2) k by (simp add: zmod_int of_nat_diff algebra_simps)
  finally show ?thesis using assms(1) by (simp add: host_avail_def ring_wrap_ok)
qed

lemma slice_window:
  assumes "a < length ring" "n \<le> length ring" "ring \<noteq> []"
  defines "head \<equiv> min n (length ring - a)"
  obtains x y where "slice_opt ring a (a + head) = Some x" "slice_opt ring 0 (n - head) = Some y" "x @ y = window ring a n"
proof -
  have "take head (drop a ring) @ take (n - head) ring = window ring a n"
  proof (cases "n \<le> length ring - a")
    case True
    then have "take n (drop a ring) = window ring a n"
      using assms(1) by (intro nth_equalityI) (auto simp: nth_window)
    then show ?thesis using True by (simp add: head_def)
  next
    case False
    then have "drop a ring @ take (n - (length ring - a)) ring = window ring a n"
      using assms(1,2) by (intro nth_equalityI) (auto simp: nth_window nth_append mod_if add.commute)
    then show ?thesis using False by (simp add: head_def)
  qed
  then show thesis
    using assms that [of "take head (drop a ring)" "take (n - head) ring"] by (auto simp: slice_opt_def)
qed

lemma ring_crc_window:
  assumes "a < length ring" "n \<le> length ring" "ring \<noteq> []"
  shows "ring_crc ring a n = Some (osc_crc (window ring a n))"
proof -
  obtain x y where xy: "slice_opt ring a (a + min n (length ring - a)) = Some x"
    "slice_opt ring 0 (n - min n (length ring - a)) = Some y" "x @ y = window ring a n"
    by (rule slice_window [OF assms])
  have "min n (length ring - a) = n \<Longrightarrow> y = []" using xy(2) by (simp add: slice_opt_def)
  then show ?thesis
    using xy assms(1) by (auto simp: ring_crc_def Let_def osc_crc_def osc_crc_continue_append simp flip: xy(3))
qed

lemma payload_view_window:
  assumes "a < length ring" "n \<le> length ring" "ring \<noteq> []"
  shows "\<exists>v. payload_view ring a n = Some v \<and> fb_bytes v = window ring a n"
proof -
  obtain x y where "slice_opt ring a (a + min n (length ring - a)) = Some x"
    "slice_opt ring 0 (n - min n (length ring - a)) = Some y" "x @ y = window ring a n"
    by (rule slice_window [OF assms])
  then show ?thesis using assms(1) by (auto simp: payload_view_def Let_def)
qed


subsection \<open>The walk over a linear stream\<close>

definition garble_len :: "bytes \<Rightarrow> nat" where
  "garble_len w = 1 + length (takeWhile (\<lambda>b. b \<noteq> 0) (tl w))"

definition clean_frame :: "bytes \<Rightarrow> bool" where
  "clean_frame fr \<longleftrightarrow> 4 \<le> length fr \<and> fr ! 0 = 0 \<and> 3 \<le> fr ! 2 \<and> id_is_valid (fr ! 1) \<and>
     (inst_is_status (fr ! 3) \<or> inst_opcode (fr ! 3) \<noteq> None) \<and> length fr = footprint (fr ! 2) \<and>
     osc_crc (take (length fr - 2) fr) = le16 (fr ! (length fr - 2)) (fr ! (length fr - 1))"

text \<open>A frame start whose frame is not complete yet.\<close>

definition open_frame :: "bytes \<Rightarrow> bool" where
  "open_frame w \<longleftrightarrow> w \<noteq> [] \<and> w ! 0 = 0 \<and>
     (4 \<le> length w \<longrightarrow> 3 \<le> w ! 2 \<and> id_is_valid (w ! 1) \<and> (inst_is_status (w ! 3) \<or> inst_opcode (w ! 3) \<noteq> None) \<and>
        length w < footprint (w ! 2))"

datatype walked = WIdle | WPartial | WFrame bytes | WGarble nat

definition walk :: "bytes \<Rightarrow> walked" where
  "walk w =
     (if w = [] then WIdle
      else if open_frame w then WPartial
      else if 4 \<le> length w \<and> clean_frame (take (footprint (w ! 2)) w) then WFrame (take (footprint (w ! 2)) w)
      else WGarble (garble_len w))"

fun consumed :: "walked \<Rightarrow> nat" where
  "consumed (WFrame fr) = length fr"
| "consumed (WGarble n) = n"
| "consumed _ = 0"

fun reports :: "bytes \<Rightarrow> host_step \<Rightarrow> walked \<Rightarrow> bool" where
  "reports ring HsIdle WIdle = True"
| "reports ring HsPartial WPartial = True"
| "reports ring (HsFrame h) (WFrame fr) \<longleftrightarrow> hf_id h = fr ! 1 \<and> hf_inst h = fr ! 3 \<and>
     fb_bytes (hf_payload h) = take (length fr - 6) (drop 4 fr) \<and>
     payload_view ring (hf_payload_pos h) (length fr - 6) = Some (hf_payload h)"
| "reports ring (HsGarble g) (WGarble n) \<longleftrightarrow> unat g = n"
| "reports ring _ _ = False"

lemma nth_opt_mod: "ring_ok ring \<Longrightarrow> nth_opt ring (ring_wrap i (length ring)) = Some (ring ! (i mod length ring))"
  using ring_okD(4) [of ring] by (simp add: ring_wrap_ok nth_opt_Some)

lemma hunt_loop_spec:
  assumes "ring_ok ring" "n \<le> avail"
  shows "host_hunt_loop ring a avail n = Some (n + length (takeWhile (\<lambda>b. b \<noteq> 0) (drop n (window ring a avail))))"
  using assms
proof (induction "avail - n" arbitrary: n)
  case 0
  then show ?case by (subst host_hunt_loop.simps) simp
next
  case (Suc k)
  then have n: "n < avail" by simp
  then have d: "drop n (window ring a avail) = ring ! ((a + n) mod length ring) # drop (n + 1) (window ring a avail)"
    by (simp add: Cons_nth_drop_Suc [symmetric] nth_window)
  show ?case
    using Suc n unfolding d host_hunt_loop.simps [of ring a avail n] by (simp add: nth_opt_mod)
qed

lemma garble_len_bounds: "w \<noteq> [] \<Longrightarrow> 1 \<le> garble_len w \<and> garble_len w \<le> length w"
  by (cases w) (simp_all add: garble_len_def length_takeWhile_le)

lemma host_hunt_spec:
  fixes f :: host_framer
  assumes "ring_ok ring" "0 < avail" "avail < length ring"
  defines "n \<equiv> garble_len (window ring (hr_anchor f) avail)"
  shows "host_hunt f ring avail = Some (f\<lparr> hr_anchor := (hr_anchor f + n) mod length ring \<rparr>, HsGarble (of_nat n))"
proof -
  have "drop 1 (window ring (hr_anchor f) avail) = tl (window ring (hr_anchor f) avail)" by (simp add: drop_Suc)
  then have "host_hunt_loop ring (hr_anchor f) avail 1 = Some n"
    using hunt_loop_spec [OF assms(1), of 1 avail "hr_anchor f"] assms(2) by (simp add: n_def garble_len_def)
  then show ?thesis using assms(1) by (simp add: host_hunt_def ring_wrap_ok)
qed

lemma take_nth_window: "i < n \<Longrightarrow> n \<le> m \<Longrightarrow> take n (window ring a m) ! i = ring ! ((a + i) mod length ring)"
  by (simp add: nth_window)

lemma unconsumed_advance:
  assumes "hr_anchor f < length ring" "c < length ring" "n \<le> length (unconsumed f ring c)"
    "hr_anchor f' = (hr_anchor f + n) mod length ring"
  shows "unconsumed f' ring c = drop n (unconsumed f ring c)"
  using assms dist_advance [of "hr_anchor f" "length ring" c n] by (simp add: window_drop)


definition step_ok :: "host_framer \<Rightarrow> bytes \<Rightarrow> nat \<Rightarrow> (host_framer \<times> host_step) option \<Rightarrow> walked \<Rightarrow> bool" where
  "step_ok f ring c r wk \<longleftrightarrow>
     (\<exists>f' out. r = Some (f', out) \<and> reports ring out wk \<and> hr_anchor f' = (hr_anchor f + consumed wk) mod length ring)"

lemma step_ok_hunt:
  assumes "ring_ok ring" "w = window ring (hr_anchor f) avail" "0 < avail" "avail < length ring"
  shows "step_ok f ring c (host_hunt f ring avail) (WGarble (garble_len w))"
proof -
  have "garble_len w \<le> avail" using garble_len_bounds [of w] assms(2,3) by (metis length_window list.size(3) less_irrefl)
  then have "garble_len w < 65536" using assms(4) ring_okD(3) [OF assms(1)] by linarith
  then show ?thesis
    using host_hunt_spec [OF assms(1,3,4), of f] assms(2) by (simp add: step_ok_def unat_of_nat16)
qed

lemma host_step_refines:
  assumes "ring_ok ring" "hr_anchor f < length ring" "c < length ring"
  shows "step_ok f ring c (host_framer_step f ring c) (walk (unconsumed f ring c))"
proof -
  define a where "a = hr_anchor f"
  define avail where "avail = (c + length ring - a) mod length ring"
  define w where "w = window ring a avail"
  have len: "258 < length ring" "ring \<noteq> []" using ring_okD [OF assms(1)] by simp_all
  have lt: "avail < length ring" using len by (simp add: avail_def)
  have av: "host_avail c (hr_anchor f) (length ring) = avail"
    using host_avail_mod [OF assms] by (simp add: avail_def a_def)
  have lw: "length w = avail" by (simp add: w_def)
  have hunt: "0 < avail \<Longrightarrow> step_ok f ring c (host_hunt f ring avail) (WGarble (garble_len w))"
    by (rule step_ok_hunt [OF assms(1)]) (use lt in \<open>simp_all add: w_def a_def\<close>)
  have at: "i < avail \<Longrightarrow> w ! i = ring ! ((a + i) mod length ring)" for i by (simp add: w_def nth_window)
  have at0: "0 < avail \<Longrightarrow> w ! 0 = ring ! a" using at [of 0] assms(2) by (simp add: a_def)
  have same: "(a = hr_anchor f) = True" by (simp add: a_def)
  consider "avail = 0" | "0 < avail" "w ! 0 \<noteq> 0" | "0 < avail" "w ! 0 = 0" "avail < 4"
    | "w ! 0 = 0" "4 \<le> avail" by linarith
  then have "step_ok f ring c (host_framer_step f ring c) (walk w)"
  proof cases
    case 1
    then show ?thesis using len lw assms(2) by (simp add: host_framer_step_def Let_def av step_ok_def walk_def)
  next
    case 2
    have "walk w = WGarble (garble_len w)"
      using 2 lw by (auto simp: walk_def open_frame_def clean_frame_def footprint_def)
    moreover have "host_framer_step f ring c = host_hunt f ring avail"
      using 2 len at0 assms(2) by (simp add: host_framer_step_def Let_def av nth_opt_Some a_def)
    ultimately show ?thesis using hunt 2 by simp
  next
    case 3
    then show ?thesis using len lw at0 assms(2)
      by (auto simp: host_framer_step_def Let_def av nth_opt_Some a_def step_ok_def walk_def open_frame_def)
  next
    case 4
    define l where "l = w ! 2"
    define fp where "fp = footprint l"
    have fp: "fp \<le> 258" "fp = 3 + unat l" using unat_less_256 [of l] by (simp_all add: fp_def footprint_def)
    have step: "host_framer_step f ring c =
      (if \<not> host_valid_shape (length ring) (w ! 1) l (w ! 3) then host_hunt f ring avail
       else if avail < fp then Some (f, HsPartial)
       else do { crc \<leftarrow> ring_crc ring a (covered_len l);
                 if crc \<noteq> le16 (ring ! ((a + covered_len l) mod length ring)) (ring ! ((a + covered_len l + 1) mod length ring))
                 then host_hunt f ring avail
                 else do { pay \<leftarrow> payload_view ring ((a + 4) mod length ring) (unat (payload_len l));
                           Some (f\<lparr> hr_anchor := (a + fp) mod length ring \<rparr>,
                             HsFrame \<lparr> hf_id = w ! 1, hf_inst = w ! 3, hf_payload = pay,
                                       hf_payload_pos = (a + 4) mod length ring \<rparr>) } })"
    proof -
      have n: "nth_opt ring a = Some (w ! 0)" "nth_opt ring (ring_wrap (a + 1) (length ring)) = Some (w ! 1)"
        "nth_opt ring (ring_wrap (a + 2) (length ring)) = Some (w ! 2)" "nth_opt ring (ring_wrap (a + 3) (length ring)) = Some (w ! 3)"
        using 4 at0 at [of 1] at [of 2] at [of 3] assms(1,2) by (simp_all add: nth_opt_mod nth_opt_Some a_def)
      have z: "(length ring = 0) = False" "(avail = 0) = False" "(w ! 0 \<noteq> 0) = False" "(avail < 4) = False" using len 4 by auto
      show ?thesis
        unfolding host_framer_step_def Let_def a_def [symmetric] av [folded a_def] l_def fp_def
        unfolding n z if_False Option.bind.simps unfolding nth_opt_mod [OF assms(1)] Option.bind.simps
        unfolding ring_wrap_ok [OF assms(1)] by (rule refl)
    qed
    have shape: "host_valid_shape (length ring) (w ! 1) l (w ! 3) \<longleftrightarrow>
        3 \<le> l \<and> id_is_valid (w ! 1) \<and> (inst_is_status (w ! 3) \<or> inst_opcode (w ! 3) \<noteq> None)"
      using fp len by (auto simp: host_valid_shape_def fp_def)
    consider "\<not> host_valid_shape (length ring) (w ! 1) l (w ! 3)"
      | "host_valid_shape (length ring) (w ! 1) l (w ! 3)" "avail < fp"
      | "host_valid_shape (length ring) (w ! 1) l (w ! 3)" "fp \<le> avail" by linarith
    then show ?thesis
    proof cases
      case 1
      then have "walk w = WGarble (garble_len w)"
        using 4 lw shape fp by (auto simp: walk_def open_frame_def clean_frame_def l_def fp_def)
      then show ?thesis using step 1 hunt 4 by simp
    next
      case 2
      then have "walk w = WPartial"
        using 4 lw shape fp by (auto simp: walk_def open_frame_def l_def fp_def)
      then show ?thesis using step 2 assms(2) by (simp add: step_ok_def)
    next
      case 3
      have l3: "3 \<le> unat l" using 3(1) shape word_le_nat_alt [of 3 l] by simp
      let ?fr = "take fp w"
      have cl: "covered_len l = fp - 2" "unat (payload_len l) = fp - 6" "6 \<le> fp"
        using fp l3 by (simp_all add: covered_len_def payload_len_def unat_sub word_le_nat_alt)
      have crc: "ring_crc ring a (covered_len l) = Some (osc_crc (take (fp - 2) w))"
        using ring_crc_window [of a ring "covered_len l"] assms(2) len fp cl 3(2) lt
        by (simp add: a_def w_def window_take)
      have tail: "w ! (fp - 2) = ring ! ((a + (fp - 2)) mod length ring)" "w ! (fp - 1) = ring ! ((a + (fp - 1)) mod length ring)"
        using at [of "fp - 2"] at [of "fp - 1"] 3(2) cl(3) by simp_all
      have sum: "a + covered_len l + 1 = a + (fp - 1)" using cl by simp
      have lfr: "length ?fr = fp" using 3(2) lw by simp
      have hdr: "?fr ! 0 = w ! 0" "?fr ! 1 = w ! 1" "?fr ! 2 = l" "?fr ! 3 = w ! 3" "?fr ! (fp - 2) = w ! (fp - 2)" "?fr ! (fp - 1) = w ! (fp - 1)"
        using cl(3) by (simp_all add: l_def)
      have clean: "clean_frame ?fr \<longleftrightarrow> osc_crc (take (fp - 2) w) = le16 (w ! (fp - 2)) (w ! (fp - 1))"
        using 4 3 shape cl(3) unfolding clean_frame_def lfr hdr fp_def [symmetric] by (simp add: min_def)
      have "\<not> open_frame w" using 4 3 lw by (simp add: open_frame_def l_def fp_def)
      then have wk: "walk w = (if clean_frame ?fr then WFrame ?fr else WGarble (garble_len w))"
        using 4 lw by (auto simp: walk_def l_def fp_def)
      obtain v where v: "payload_view ring ((a + 4) mod length ring) (fp - 6) = Some v"
        "fb_bytes v = window ring ((a + 4) mod length ring) (fp - 6)"
        using payload_view_window [of "(a + 4) mod length ring" ring "fp - 6"] len fp by fastforce
      have "fb_bytes v = take (length ?fr - 6) (drop 4 ?fr)"
        using v(2) lfr cl(3) 3(2) by (simp add: w_def drop_take window_drop window_take)
      note pv = this
      have run: "host_framer_step f ring c = (if clean_frame ?fr
          then Some (f\<lparr> hr_anchor := (a + fp) mod length ring \<rparr>,
                     HsFrame \<lparr> hf_id = w ! 1, hf_inst = w ! 3, hf_payload = v, hf_payload_pos = (a + 4) mod length ring \<rparr>)
          else host_hunt f ring avail)"
        using 3 unfolding step unfolding sum crc unfolding cl(1,2) tail [symmetric] v(1) clean by simp
      show ?thesis
      proof (cases "clean_frame ?fr")
        case True
        have "reports ring (HsFrame \<lparr> hf_id = w ! 1, hf_inst = w ! 3, hf_payload = v, hf_payload_pos = (a + 4) mod length ring \<rparr>) (WFrame ?fr)"
          unfolding reports.simps hdr lfr using pv v(1) lfr by simp
        then show ?thesis using True wk lfr unfolding run step_ok_def by (simp add: a_def)
      next
        case False
        then show ?thesis using wk hunt 4 unfolding run by simp
      qed
    qed
  qed
  then show ?thesis by (simp add: w_def avail_def a_def)
qed


subsection \<open>Walking a ring to the end\<close>

lemma walk_progress:
  assumes "walk w \<noteq> WIdle" "walk w \<noteq> WPartial"
  shows "0 < consumed (walk w) \<and> consumed (walk w) \<le> length w"
  using assms garble_len_bounds [of w]
  by (auto simp: walk_def clean_frame_def footprint_def split: if_splits)

function walk_all :: "bytes \<Rightarrow> walked list" where
  "walk_all w =
     (if walk w = WIdle \<or> walk w = WPartial then []
      else walk w # walk_all (drop (consumed (walk w)) w))"
  by pat_completeness auto
termination
proof (relation "measure length")
  fix w assume "\<not> (walk w = WIdle \<or> walk w = WPartial)"
  then show "(drop (consumed (walk w)) w, w) \<in> measure length"
    using walk_progress [of w] by auto
qed simp

declare walk_all.simps [simp del]

text \<open>The loop a caller runs: step until the ring is idle or only a partial frame is left.\<close>

fun host_drain :: "nat \<Rightarrow> host_framer \<Rightarrow> bytes \<Rightarrow> nat \<Rightarrow> (host_framer \<times> host_step list) option" where
  "host_drain 0 f ring c = None"
| "host_drain (Suc n) f ring c =
     do { (f', s) \<leftarrow> host_framer_step f ring c;
          if s = HsIdle \<or> s = HsPartial then Some (f', [])
          else do { (f'', ss) \<leftarrow> host_drain n f' ring c; Some (f'', s # ss) } }"

fun stream_rest :: "bytes \<Rightarrow> walked list \<Rightarrow> bytes" where
  "stream_rest w [] = w"
| "stream_rest w (k # ks) = stream_rest (drop (consumed k) w) ks"

lemma reports_stop: "reports ring s k \<Longrightarrow> (s = HsIdle \<or> s = HsPartial) = (k = WIdle \<or> k = WPartial)"
  by (cases s; cases k) simp_all

lemma host_drain_walk:
  assumes "ring_ok ring" "hr_anchor f < length ring" "c < length ring" "length (unconsumed f ring c) < n"
  shows "\<exists>f' ss. host_drain n f ring c = Some (f', ss) \<and> list_all2 (reports ring) ss (walk_all (unconsumed f ring c)) \<and>
    unconsumed f' ring c = stream_rest (unconsumed f ring c) (walk_all (unconsumed f ring c)) \<and> hr_anchor f' < length ring"
  using assms
proof (induction n arbitrary: f)
  case (Suc n)
  define w where "w = unconsumed f ring c"
  obtain f1 s where s: "host_framer_step f ring c = Some (f1, s)" "reports ring s (walk w)"
    "hr_anchor f1 = (hr_anchor f + consumed (walk w)) mod length ring"
    using host_step_refines [OF Suc.prems(1-3)] unfolding step_ok_def w_def by blast
  have f1: "hr_anchor f1 < length ring" 
  proof -
    have "0 < length ring" using Suc.prems(2) by linarith
    then show ?thesis using s(3) by simp
  qed
  show ?case
  proof (cases "walk w = WIdle \<or> walk w = WPartial")
    case True
    then have "walk_all w = []" "consumed (walk w) = 0" by (auto simp: walk_all.simps [of w])
    moreover have "s = HsIdle \<or> s = HsPartial" using True reports_stop [OF s(2)] by simp
    ultimately show ?thesis using s(1,3) Suc.prems(2) unfolding w_def [symmetric] by (auto simp: w_def)
  next
    case False
    have p: "0 < consumed (walk w)" "consumed (walk w) \<le> length w" using walk_progress [of w] False by auto
    have u: "unconsumed f1 ring c = drop (consumed (walk w)) w"
      unfolding w_def by (rule unconsumed_advance) (use Suc.prems s(3) p in \<open>simp_all add: w_def\<close>)
    then have "length (unconsumed f1 ring c) < n" using p Suc.prems(4) unfolding w_def [symmetric] by simp
    from Suc.IH [OF Suc.prems(1) f1 Suc.prems(3) this] u obtain f' ss where
      ih: "host_drain n f1 ring c = Some (f', ss)" "list_all2 (reports ring) ss (walk_all (drop (consumed (walk w)) w))"
      "unconsumed f' ring c = stream_rest (drop (consumed (walk w)) w) (walk_all (drop (consumed (walk w)) w))"
      "hr_anchor f' < length ring" by auto
    have "\<not> (s = HsIdle \<or> s = HsPartial)" using False reports_stop [OF s(2)] by simp
    then show ?thesis
      using ih s(1,2) False unfolding w_def [symmetric] walk_all.simps [of w] by simp
  qed
qed simp

text \<open>What a reported step says about the bytes it consumed.\<close>

fun accounts :: "bytes \<Rightarrow> host_step \<Rightarrow> bytes \<Rightarrow> bool" where
  "accounts ring (HsFrame h) seg \<longleftrightarrow> clean_frame seg \<and> reports ring (HsFrame h) (WFrame seg)"
| "accounts ring (HsGarble g) seg \<longleftrightarrow> seg \<noteq> [] \<and> unat g = length seg \<and> 0 \<notin> set (tl seg)"
| "accounts ring _ seg = False"

definition frames_of :: "host_step list \<Rightarrow> bytes list \<Rightarrow> bytes list" where
  "frames_of ss segs = map snd (filter (\<lambda>(s, _). case s of HsFrame _ \<Rightarrow> True | _ \<Rightarrow> False) (zip ss segs))"

fun segments :: "bytes \<Rightarrow> walked list \<Rightarrow> bytes list" where
  "segments w [] = []"
| "segments w (k # ks) = take (consumed k) w # segments (drop (consumed k) w) ks"

lemma segments_rest: "concat (segments w ks) @ stream_rest w ks = w"
  by (induction ks arbitrary: w) simp_all

lemma garble_segment: "0 \<notin> set (tl (take (garble_len w) w))"
proof (cases w)
  case (Cons b bs)
  have "take (length (takeWhile (\<lambda>b. b \<noteq> 0) bs)) bs = takeWhile (\<lambda>b. b \<noteq> 0) bs" by (simp add: takeWhile_eq_take [symmetric])
  then show ?thesis using Cons by (auto simp: garble_len_def dest: set_takeWhileD)
qed simp

lemma walk_FrameD:
  assumes "walk w = WFrame fr"
  shows "clean_frame fr" "take (length fr) w = fr"
proof -
  have "fr = take (footprint (w ! 2)) w" "clean_frame fr" using assms by (auto simp: walk_def split: if_splits)
  then show "clean_frame fr" "take (length fr) w = fr" by (simp_all add: min_def)
qed

lemma walk_GarbleD: "walk w = WGarble n \<Longrightarrow> n = garble_len w \<and> w \<noteq> []"
  by (auto simp: walk_def split: if_splits)

lemma walk_accounts:
  assumes "reports ring s (walk w)" "walk w \<noteq> WIdle" "walk w \<noteq> WPartial"
  shows "accounts ring s (take (consumed (walk w)) w)"
proof (cases "walk w")
  case (WFrame fr)
  then obtain h where "s = HsFrame h" using assms(1) by (cases s) simp_all
  then show ?thesis using assms(1) walk_FrameD [OF WFrame] WFrame by simp
next
  case (WGarble n)
  then obtain g where "s = HsGarble g" using assms(1) by (cases s) simp_all
  then show ?thesis
    using assms(1) walk_GarbleD [OF WGarble] WGarble garble_len_bounds [of w] garble_segment [of w] by (auto simp: min_def)
qed (use assms in simp_all)

lemma walk_all_accounts:
  "list_all2 (reports ring) ss (walk_all w) \<Longrightarrow> list_all2 (accounts ring) ss (segments w (walk_all w)) \<and>
    (stream_rest w (walk_all w) = [] \<or> open_frame (stream_rest w (walk_all w)))"
proof (induction w arbitrary: ss rule: walk_all.induct)
  case (1 w)
  show ?case
  proof (cases "walk w = WIdle \<or> walk w = WPartial")
    case True
    then have "w = [] \<or> open_frame w" by (auto simp: walk_def split: if_splits)
    then show ?thesis using 1(2) True by (simp add: walk_all.simps [of w])
  next
    case False
    have eq: "walk_all w = walk w # walk_all (drop (consumed (walk w)) w)" using False by (subst walk_all.simps) simp
    obtain s ss' where ss: "ss = s # ss'" "reports ring s (walk w)" "list_all2 (reports ring) ss' (walk_all (drop (consumed (walk w)) w))"
      using 1(2) unfolding eq by (auto simp: list_all2_Cons2)
    then show ?thesis using 1(1) [OF False ss(3)] walk_accounts [OF ss(2)] False unfolding eq by simp
  qed
qed


subsection \<open>Completeness on a stream of frames\<close>

fun frame_seg :: "walked \<Rightarrow> bytes option" where
  "frame_seg (WFrame fr) = Some fr"
| "frame_seg _ = None"

lemma frames_of_walk:
  "list_all2 (reports ring) ss (walk_all w) \<Longrightarrow>
    frames_of ss (segments w (walk_all w)) = List.map_filter frame_seg (walk_all w)"
proof (induction w arbitrary: ss rule: walk_all.induct)
  case (1 w)
  show ?case
  proof (cases "walk w = WIdle \<or> walk w = WPartial")
    case True
    then show ?thesis using 1(2) by (simp add: walk_all.simps [of w] frames_of_def)
  next
    case False
    have eq: "walk_all w = walk w # walk_all (drop (consumed (walk w)) w)" using False by (subst walk_all.simps) simp
    obtain s ss' where ss: "ss = s # ss'" "reports ring s (walk w)" "list_all2 (reports ring) ss' (walk_all (drop (consumed (walk w)) w))"
      using 1(2) unfolding eq by (auto simp: list_all2_Cons2)
    have ih: "frames_of ss' (segments (drop (consumed (walk w)) w) (walk_all (drop (consumed (walk w)) w))) =
        List.map_filter frame_seg (walk_all (drop (consumed (walk w)) w))" by (rule 1(1) [OF False ss(3)])
    show ?thesis
    proof (cases "walk w")
      case (WFrame fr)
      then obtain h where "s = HsFrame h" using ss(2) by (cases s) simp_all
      then show ?thesis using ih ss(1) WFrame walk_FrameD(2) [OF WFrame] unfolding eq by (simp add: frames_of_def)
    next
      case (WGarble n)
      then obtain g where "s = HsGarble g" using ss(2) by (cases s) simp_all
      then show ?thesis using ih ss(1) WGarble unfolding eq by (simp add: frames_of_def)
    qed (use False in simp_all)
  qed
qed

lemma walk_noise:
  assumes "0 \<notin> set noise" "noise \<noteq> []" "rest = [] \<or> hd rest = 0"
  shows "walk (noise @ rest) = WGarble (length noise)"
proof -
  obtain b bs where n: "noise = b # bs" "b \<noteq> 0" "0 \<notin> set bs" using assms(1,2) by (cases noise) auto
  have "takeWhile (\<lambda>b. b \<noteq> 0) (bs @ rest) = bs"
    using n(3) assms(3) by (subst takeWhile_append2) (auto, cases rest, auto)
  then have "garble_len (noise @ rest) = length noise" using n(1) by (simp add: garble_len_def)
  then show ?thesis using n by (auto simp: walk_def open_frame_def clean_frame_def footprint_def)
qed

lemma walk_frame:
  assumes "clean_frame fr"
  shows "walk (fr @ rest) = WFrame fr"
proof -
  have fr: "4 \<le> length fr" "length fr = footprint (fr ! 2)" using assms by (simp_all add: clean_frame_def)
  have at: "(fr @ rest) ! 2 = fr ! 2" "fr @ rest \<noteq> []" using fr(1) by (auto simp: nth_append)
  have "take (footprint (fr ! 2)) (fr @ rest) = fr" by (simp add: fr(2) [symmetric])
  moreover have "\<not> open_frame (fr @ rest)" using fr at by (auto simp: open_frame_def)
  ultimately show ?thesis using assms fr(1) at unfolding walk_def by simp
qed

lemma walk_all_frame:
  assumes "clean_frame fr"
  shows "walk_all (fr @ rest) = WFrame fr # walk_all rest"
  by (subst walk_all.simps) (simp add: walk_frame [OF assms])

lemma walk_all_stream:
  assumes "\<forall>(noise, fr) \<in> set items. 0 \<notin> set noise \<and> clean_frame fr"
  shows "List.map_filter frame_seg (walk_all (concat (map (\<lambda>(noise, fr). noise @ fr) items))) = map snd items"
  using assms
proof (induction items)
  case Nil
  then show ?case by (simp add: walk_all.simps [of "[]"] walk_def)
next
  case (Cons it items)
  obtain noise fr where it: "it = (noise, fr)" by (cases it)
  have c: "0 \<notin> set noise" "clean_frame fr" using Cons.prems it by auto
  let ?rest = "concat (map (\<lambda>(noise, fr). noise @ fr) items)"
  have h: "hd (fr @ ?rest) = 0" "fr \<noteq> []" using c(2) by (cases fr; simp add: clean_frame_def)+
  have "List.map_filter frame_seg (walk_all (noise @ fr @ ?rest)) = fr # map snd items"
  proof (cases "noise = []")
    case True
    then show ?thesis using walk_all_frame [OF c(2)] Cons by simp
  next
    case False
    have "walk (noise @ fr @ ?rest) = WGarble (length noise)" by (rule walk_noise [OF c(1) False]) (use h in simp)
    then have "walk_all (noise @ fr @ ?rest) = WGarble (length noise) # walk_all (fr @ ?rest)" by (subst walk_all.simps) simp
    then show ?thesis using walk_all_frame [OF c(2)] Cons by simp
  qed
  then show ?case using it by simp
qed

text \<open>
  C33. The host walks any ring exactly. Whatever bytes the ring holds and wherever its seam falls, the walk
  returns, and splits the unconsumed bytes into consecutive segments: a frame is handed out only for a
  checksum-clean, well-shaped segment and reports that segment's id, instruction and payload, every
  other byte is counted as garble exactly once, and what is left is nothing or a frame still coming in.
  On a stream of clean frames behind zero-free noise it hands out those frames, all and in order.
\<close>

theorem host_walk_exact:
  assumes "ring_ok ring" "hr_anchor f < length ring" "c < length ring"
  shows "\<exists>f' ss segs rest. host_drain (Suc (length (unconsumed f ring c))) f ring c = Some (f', ss) \<and>
    unconsumed f ring c = concat segs @ rest \<and> unconsumed f' ring c = rest \<and> list_all2 (accounts ring) ss segs \<and>
    (rest = [] \<or> open_frame rest) \<and>
    (\<forall>items. (\<forall>(noise, fr) \<in> set items. 0 \<notin> set noise \<and> clean_frame fr) \<and>
       unconsumed f ring c = concat (map (\<lambda>(noise, fr). noise @ fr) items) \<longrightarrow> frames_of ss segs = map snd items)"
proof -
  define w where "w = unconsumed f ring c"
  obtain f' ss where d: "host_drain (Suc (length w)) f ring c = Some (f', ss)" "list_all2 (reports ring) ss (walk_all w)"
    "unconsumed f' ring c = stream_rest w (walk_all w)"
    using host_drain_walk [OF assms, of "Suc (length w)"] unfolding w_def by auto
  have "\<forall>items. (\<forall>(noise, fr) \<in> set items. 0 \<notin> set noise \<and> clean_frame fr) \<and>
      w = concat (map (\<lambda>(noise, fr). noise @ fr) items) \<longrightarrow> frames_of ss (segments w (walk_all w)) = map snd items"
    unfolding frames_of_walk [OF d(2)] by (intro allI impI, elim conjE) (simp only: walk_all_stream)
  then show ?thesis
    using d walk_all_accounts [OF d(2)] segments_rest [of w "walk_all w"] unfolding w_def [symmetric] by metis
qed


text \<open>An ack of servo 5 behind one byte of noise.\<close>

definition ack_frame :: bytes where
  "ack_frame = [0, 5, 3, 0x80] @ le16_bytes (osc_crc [5, 3, 0x80])"

definition ack_ring :: bytes where
  "ack_ring = 0xAA # ack_frame @ replicate 505 0xFF"

lemma ack_frame_clean: "clean_frame ack_frame"
proof -
  have "osc_crc [0, 5, 3, 0x80] = osc_crc [5, 3, 0x80]" by (rule osc_crc_leading_zero)
  then show ?thesis
    by (simp add: clean_frame_def ack_frame_def le16_bytes_def footprint_def id_is_valid_def id_is_unicast_def
        inst_is_status_def STATUS_BIT_def)
qed

theorem host_walk_exact_witness:
  "\<exists>f' ss segs. host_drain 8 host_framer_new ack_ring 7 = Some (f', ss) \<and> list_all2 (accounts ack_ring) ss segs \<and>
    frames_of ss segs = [ack_frame]"
proof -
  have len: "length ack_ring = 512" by (simp add: ack_ring_def ack_frame_def)
  then have ok: "ring_ok ack_ring" unfolding ring_ok_def by (auto simp: FRAME_MAX_def footprint_def intro: exI [of _ 9])
  have w: "unconsumed host_framer_new ack_ring 7 = [0xAA] @ ack_frame"
    by (simp add: len host_framer_new_def window_def upt_rec) (simp add: ack_ring_def ack_frame_def le16_bytes_def)
  have l: "length (unconsumed host_framer_new ack_ring 7) = 7" by (simp add: len host_framer_new_def)
  have a: "hr_anchor host_framer_new < length ack_ring" "7 < length ack_ring" by (simp_all add: len host_framer_new_def)
  obtain f' ss segs rest where d: "host_drain 8 host_framer_new ack_ring 7 = Some (f', ss)"
    "list_all2 (accounts ack_ring) ss segs"
    "\<forall>items. (\<forall>(noise, fr) \<in> set items. 0 \<notin> set noise \<and> clean_frame fr) \<and>
       unconsumed host_framer_new ack_ring 7 = concat (map (\<lambda>(noise, fr). noise @ fr) items) \<longrightarrow> frames_of ss segs = map snd items"
    using host_walk_exact [OF ok a] unfolding l by auto
  have "frames_of ss segs = [ack_frame]" using d(3) [rule_format, of "[([0xAA], ack_frame)]"] w ack_frame_clean by simp
  then show ?thesis using d by blast
qed

end
