(* ===== verification/Host_Shape.thy ===== *)
theory Host_Shape
  imports Bus_Decode Sec_Session
begin

text \<open>
  \<open>host/src/engine/shape.rs\<close>: validation of a submitted exchange and the plan the engine follows, which
  is what the servos' decoder will do with the frame. A match of the source without an arm for an
  operation (the security operations of MGMT) is \<open>None\<close>.
\<close>

subsection \<open>Definitions\<close>

datatype invalid_reason = IrBadId | IrBadInst | IrBadPayload | IrTooLong

datatype replies = RpNone | RpSingle | RpChain u8 | RpCollect

record shape =
  sh_replies :: replies
  sh_reply_footprint :: u16
  sh_train :: "(u16 \<times> u8) option"
  sh_slow :: bool

definition MAX_REPLY :: u16 where [osc_const]: "MAX_REPLY = of_nat (footprint 255)"
definition ACK_REPLY :: u16 where [osc_const]: "ACK_REPLY = of_nat (footprint 3)"
definition PING_REPLY :: u16 where [osc_const]: "PING_REPLY = of_nat (footprint 6)"
definition ENUM_REPLY :: u16 where [osc_const]: "ENUM_REPLY = of_nat (footprint (3 + of_nat UID_LEN))"

definition shape_plain :: "bool \<Rightarrow> u16 \<Rightarrow> shape" where
  "shape_plain broadcast fp =
     \<lparr> sh_replies = (if broadcast then RpNone else RpSingle), sh_reply_footprint = fp, sh_train = None, sh_slow = False \<rparr>"

definition shape_silent :: shape where
  "shape_silent = \<lparr> sh_replies = RpNone, sh_reply_footprint = 0, sh_train = None, sh_slow = False \<rparr>"

definition read_reply :: "u16 \<Rightarrow> u16" where
  "read_reply count = of_nat (footprint (3 + ucast (min count (ucast MAX_PAYLOAD))))"

definition shape_gread :: "inst \<Rightarrow> frame_bytes \<Rightarrow> invalid_reason + shape" where
  "shape_gread inst pay =
     (case (case (inst_profile inst, inst_per_target inst) of
              (False, False) \<Rightarrow>
                map_option (\<lambda>g. (length (gread_uniform_ids g), read_reply (gu_count g))) (gread_uniform_parse pay)
            | (False, True) \<Rightarrow>
                map_option (\<lambda>g. (length (gread_per_target_iter g),
                    fold max (map (\<lambda>t. read_reply (gt_count t)) (gread_per_target_iter g)) 0)) (gread_per_target_parse pay)
            | (True, False) \<Rightarrow>
                map_option (\<lambda>g. (length (gread_profile_uniform_ids g), MAX_REPLY)) (gread_profile_uniform_parse pay)
            | (True, True) \<Rightarrow>
                map_option (\<lambda>g. (length (gread_profile_per_target_iter g), MAX_REPLY)) (gread_profile_per_target_parse pay)) of
        None \<Rightarrow> Inl IrBadPayload
      | Some (slots, fp) \<Rightarrow>
          Inr \<lparr> sh_replies = RpChain (of_nat slots), sh_reply_footprint = fp, sh_train = None, sh_slow = False \<rparr>)"

definition shape_mgmt :: "frame_bytes \<Rightarrow> bool \<Rightarrow> (invalid_reason + shape) option" where
  "shape_mgmt pay broadcast =
     (case mgmt_req_parse pay of
        None \<Rightarrow> Some (Inl IrBadPayload)
      | Some m \<Rightarrow>
          (case mr_op m of
             MgmtEnum \<Rightarrow>
               Some (if enum_req_parse (mr_args m) = None then Inl IrBadPayload
                     else Inr \<lparr> sh_replies = (if broadcast then RpCollect else RpSingle),
                                sh_reply_footprint = ENUM_REPLY, sh_train = None, sh_slow = False \<rparr>)
           | MgmtAssign \<Rightarrow>
               Some (if assign_req_parse (mr_args m) = None then Inl IrBadPayload
                     else Inr \<lparr> sh_replies = RpSingle, sh_reply_footprint = ACK_REPLY, sh_train = None, sh_slow = False \<rparr>)
           | MgmtCal \<Rightarrow>
               Some (case cal_req_parse (mr_args m) of
                       None \<Rightarrow> Inl IrBadPayload
                     | Some c \<Rightarrow>
                         if \<not> broadcast then Inl IrBadPayload
                         else Inr \<lparr> sh_replies = RpNone, sh_reply_footprint = 0,
                                    sh_train = Some (cr_gap_us c, cr_gaps c), sh_slow = False \<rparr>)
           | MgmtSave \<Rightarrow>
               Some (if \<not> fb_is_empty (mr_args m) then Inl IrBadPayload
                     else Inr ((shape_plain broadcast ACK_REPLY)\<lparr> sh_slow := True \<rparr>))
           | MgmtFactory \<Rightarrow>
               Some (if \<not> fb_is_empty (mr_args m) then Inl IrBadPayload
                     else Inr ((shape_plain broadcast ACK_REPLY)\<lparr> sh_slow := True \<rparr>))
           | MgmtReboot \<Rightarrow> Some (Inr (shape_plain broadcast ACK_REPLY))
           | _ \<Rightarrow> None))"

definition shape_op :: "opcode \<Rightarrow> inst \<Rightarrow> bool \<Rightarrow> bytes \<Rightarrow> (invalid_reason + shape) option" where
  "shape_op op inst broadcast payload =
     (let pay = fb_from payload
      in case op of
           OpPing \<Rightarrow> Some (if payload \<noteq> [] then Inl IrBadPayload else Inr (shape_plain broadcast PING_REPLY))
         | OpRead \<Rightarrow>
             Some (if inst_profile inst
                   then (if profile_req_parse pay = None then Inl IrBadPayload else Inr (shape_plain broadcast MAX_REPLY))
                   else (case read_req_parse pay of
                           None \<Rightarrow> Inl IrBadPayload
                         | Some r \<Rightarrow> Inr (shape_plain broadcast (read_reply (rr_count r)))))
         | OpWrite \<Rightarrow> Some (if write_req_parse pay = None then Inl IrBadPayload else Inr (shape_plain broadcast ACK_REPLY))
         | OpCommit \<Rightarrow> Some (if payload \<noteq> [] then Inl IrBadPayload else Inr (shape_plain broadcast ACK_REPLY))
         | OpGread \<Rightarrow> Some (shape_gread inst pay)
         | OpGwrite \<Rightarrow>
             Some (if (if inst_per_target inst then gwrite_per_target_parse pay = None else gwrite_uniform_parse pay = None)
                   then Inl IrBadPayload else Inr shape_silent)
         | OpMgmt \<Rightarrow> shape_mgmt pay broadcast)"

definition shape_noreply :: "inst \<Rightarrow> shape \<Rightarrow> shape" where
  "shape_noreply inst sh =
     (if inst_noreply inst \<and> (case sh_replies sh of RpChain _ \<Rightarrow> False | _ \<Rightarrow> True)
      then sh\<lparr> sh_replies := RpNone \<rparr> else sh)"

definition shape_derive :: "frame_id \<Rightarrow> inst \<Rightarrow> bytes \<Rightarrow> (invalid_reason + shape) option" where
  "shape_derive i inst payload =
     (if inst_is_status inst then Some (Inl IrBadInst)
      else case inst_opcode inst of
        None \<Rightarrow> Some (Inl IrBadInst)
      | Some op \<Rightarrow>
          if \<not> id_is_valid i then Some (Inl IrBadId)
          else if unat MAX_PAYLOAD < length payload then Some (Inl IrTooLong)
          else map_option (map_sum id (shape_noreply inst)) (shape_op op inst (id_is_broadcast i) payload))"

subsection \<open>Parsers on another view of the same bytes\<close>

lemma parse_same:
  assumes "fb_bytes f = fb_bytes g"
  shows "read_req_parse f = read_req_parse g" "profile_req_parse f = profile_req_parse g"
    "enum_req_parse f = enum_req_parse g" "assign_req_parse f = assign_req_parse g" "cal_req_parse f = cal_req_parse g"
  by (simp_all add: read_req_parse_view profile_req_parse_view enum_req_parse_view assign_req_parse_view cal_req_parse_view assms)

lemma write_parse_same:
  assumes "fb_bytes f = fb_bytes g" "write_req_parse f \<noteq> None"
  shows "\<exists>w. write_req_parse g = Some w"
proof -
  have "map_option (\<lambda>r. (wr_addr r, fb_bytes (wr_data r))) (write_req_parse f) =
      map_option (\<lambda>r. (wr_addr r, fb_bytes (wr_data r))) (write_req_parse g)"
    unfolding write_req_parse_view assms(1) ..
  then show ?thesis using assms(2) by (cases "write_req_parse g") auto
qed

lemma mgmt_parse_same:
  assumes "fb_bytes f = fb_bytes g" "mgmt_req_parse f = Some m"
  shows "\<exists>m'. mgmt_req_parse g = Some m' \<and> mr_op m' = mr_op m \<and> fb_bytes (mr_args m') = fb_bytes (mr_args m)"
proof -
  have "map_option (\<lambda>r. (mr_op r, fb_bytes (mr_args r))) (mgmt_req_parse f) =
      map_option (\<lambda>r. (mr_op r, fb_bytes (mr_args r))) (mgmt_req_parse g)"
    unfolding mgmt_req_parse_view assms(1) ..
  then show ?thesis using assms(2) by (cases "mgmt_req_parse g") auto
qed

lemma position_map: "position P (map f xs) = position (\<lambda>x. P (f x)) xs"
  by (induction xs) simp_all

subsection \<open>The ids a group read lists\<close>

definition gread_ids :: "inst \<Rightarrow> frame_bytes \<Rightarrow> frame_id list" where
  "gread_ids inst pay =
     (case (inst_profile inst, inst_per_target inst) of
        (False, False) \<Rightarrow> (case gread_uniform_parse pay of Some g \<Rightarrow> gread_uniform_ids g | None \<Rightarrow> [])
      | (False, True) \<Rightarrow> (case gread_per_target_parse pay of Some g \<Rightarrow> map gt_id (gread_per_target_iter g) | None \<Rightarrow> [])
      | (True, False) \<Rightarrow> (case gread_profile_uniform_parse pay of Some g \<Rightarrow> gread_profile_uniform_ids g | None \<Rightarrow> [])
      | (True, True) \<Rightarrow> (case gread_profile_per_target_parse pay of Some g \<Rightarrow> map gp_id (gread_profile_per_target_iter g) | None \<Rightarrow> []))"

definition reads_slot :: "decoded \<Rightarrow> nat option \<Rightarrow> bool" where
  "reads_slot d k \<longleftrightarrow>
     (case k of
        None \<Rightarrow> d = DecSkip
      | Some k \<Rightarrow> (\<exists>r. d = DecOwn r \<lparr> may_reply = True \<rparr> (of_nat k) \<and> r \<noteq> ReqUnsupported))"

lemma shape_gread_ids:
  assumes "shape_gread inst pay = Inr sh"
  shows "sh_replies sh = RpChain (of_nat (length (gread_ids inst pay)))"
  using assms
  by (cases "inst_profile inst"; cases "inst_per_target inst")
    (auto simp: shape_gread_def gread_ids_def split: option.splits)

lemma dec_gread_ids:
  assumes "fb_bytes pv = fb_bytes pay" "shape_gread inst pay = Inr sh"
  shows "reads_slot (dec_gread inst pv own) (position (\<lambda>b. b = own) (gread_ids inst pay))"
proof (cases "inst_profile inst"; cases "inst_per_target inst")
  assume c: "\<not> inst_profile inst" "\<not> inst_per_target inst"
  then obtain g where g: "gread_uniform_parse pay = Some g"
    using assms(2) by (auto simp: shape_gread_def split: option.splits)
  have "map_option (\<lambda>g. (gu_addr g, gu_count g, gread_uniform_ids g)) (gread_uniform_parse pv) =
      map_option (\<lambda>g. (gu_addr g, gu_count g, gread_uniform_ids g)) (gread_uniform_parse pay)"
    unfolding gread_uniform_parse_view assms(1) ..
  then obtain g' where "gread_uniform_parse pv = Some g'" "gread_uniform_ids g' = gread_uniform_ids g"
    using g by (cases "gread_uniform_parse pv") auto
  then show ?thesis
    using c g by (auto simp: dec_gread_def gread_ids_def gread_uniform_slot_of_def gread_uniform_ids_def byte_position_def
        reads_slot_def dec_own_read_def split: option.splits)
next
  assume c: "inst_profile inst" "\<not> inst_per_target inst"
  then obtain g where g: "gread_profile_uniform_parse pay = Some g"
    using assms(2) by (auto simp: shape_gread_def split: option.splits)
  have "map_option (\<lambda>g. (gpu_slot g, gread_profile_uniform_ids g)) (gread_profile_uniform_parse pv) =
      map_option (\<lambda>g. (gpu_slot g, gread_profile_uniform_ids g)) (gread_profile_uniform_parse pay)"
    unfolding gread_profile_uniform_parse_view assms(1) ..
  then obtain g' where "gread_profile_uniform_parse pv = Some g'" "gread_profile_uniform_ids g' = gread_profile_uniform_ids g"
    using g by (cases "gread_profile_uniform_parse pv") auto
  then show ?thesis
    using c g by (auto simp: dec_gread_def gread_ids_def gread_profile_uniform_slot_of_def gread_profile_uniform_ids_def
        byte_position_def reads_slot_def dec_own_read_profile_def split: option.splits)
next
  assume c: "\<not> inst_profile inst" "inst_per_target inst"
  then obtain g where g: "gread_per_target_parse pay = Some g"
    using assms(2) by (auto simp: shape_gread_def split: option.splits)
  obtain g' where "gread_per_target_parse pv = Some g'" "gread_per_target_iter g' = gread_per_target_iter g"
    using gread_per_target_parse_enc [of "gread_per_target_iter g" pv] gread_per_target_parse_dec [OF g] assms(1) by auto
  then show ?thesis
    using c g by (auto simp: dec_gread_def gread_ids_def gread_per_target_find_def iter_find_collect position_map
        gread_per_target_iter_def reads_slot_def dec_own_read_def split: option.splits)
next
  assume c: "inst_profile inst" "inst_per_target inst"
  then obtain g where g: "gread_profile_per_target_parse pay = Some g"
    using assms(2) by (auto simp: shape_gread_def split: option.splits)
  obtain g' where "gread_profile_per_target_parse pv = Some g'" "gread_profile_per_target_iter g' = gread_profile_per_target_iter g"
    using gread_profile_per_target_parse_enc [of "gread_profile_per_target_iter g" pv] gread_profile_per_target_parse_dec [OF g] assms(1) by auto
  then show ?thesis
    using c g by (auto simp: dec_gread_def gread_ids_def gread_profile_per_target_find_def iter_find_collect position_map
        gread_profile_per_target_iter_def reads_slot_def dec_own_read_profile_def split: option.splits)
qed


subsection \<open>The plan of an exchange and what the servos do with it\<close>

definition req_fits :: "bool \<Rightarrow> request \<Rightarrow> replies \<Rightarrow> bool" where
  "req_fits broadcast req r \<longleftrightarrow> req \<noteq> ReqUnsupported \<and>
     (case r of
        RpNone \<Rightarrow> broadcast \<and> \<not> is_enum_or_assign req
      | RpSingle \<Rightarrow> \<not> broadcast \<or> (\<exists>uid n. req = ReqAssign uid n)
      | RpCollect \<Rightarrow> broadcast \<and> (\<exists>n p. req = ReqEnumerate n p)
      | RpChain _ \<Rightarrow> False)"

lemma mgmt_fits:
  assumes "shape_mgmt pay broadcast = Some (Inr sh)" "fb_bytes pv = fb_bytes pay"
  shows "req_fits broadcast (dec_mgmt broadcast pv) (sh_replies sh)"
proof -
  obtain m where m: "mgmt_req_parse pay = Some m" using assms(1) by (auto simp: shape_mgmt_def split: option.splits)
  obtain m' where m': "mgmt_req_parse pv = Some m'" "mr_op m' = mr_op m" "fb_bytes (mr_args m') = fb_bytes (mr_args m)"
    using mgmt_parse_same [OF assms(2) [symmetric] m] by blast
  note same = parse_same(3-5) [OF m'(3)]
  show ?thesis
    using assms(1)
    by (cases "mr_op m")
      (auto simp: shape_mgmt_def dec_mgmt_def m m'(1,2) same req_fits_def shape_plain_def is_enum_or_assign_def
        split: option.splits if_splits)
qed

lemma plain_fits:
  assumes "shape_op op inst (id_is_broadcast i) payload = Some (Inr sh)" "fb_bytes pv = payload"
    "op \<noteq> OpGread" "op \<noteq> OpGwrite" "id_addresses i own"
  shows "\<exists>req. req_fits (id_is_broadcast i) req (sh_replies sh) \<and> dec_plain op inst i pv own =
    DecOwn req \<lparr> may_reply = (\<not> inst_noreply inst \<and> (\<not> id_is_broadcast i \<or> is_enum_or_assign req)) \<rparr> 0"
proof -
  have b: "fb_bytes pv = fb_bytes (fb_from payload)" using assms(2) by simp
  note same = parse_same(1,2) [OF b]
  show ?thesis
  proof (cases op)
    case OpWrite
    then obtain w where "write_req_parse pv = Some w"
      using assms(1) write_parse_same [OF b [symmetric]] by (auto simp: shape_op_def Let_def split: if_splits)
    then show ?thesis
      using assms(1,5) OpWrite
      by (auto simp: shape_op_def dec_plain_def Let_def req_fits_def shape_plain_def is_enum_or_assign_def split: if_splits)
  next
    case OpMgmt
    then have "req_fits (id_is_broadcast i) (dec_mgmt (id_is_broadcast i) pv) (sh_replies sh)"
      using assms(1) by (intro mgmt_fits [OF _ b]) (simp add: shape_op_def Let_def)
    then show ?thesis using assms(5) OpMgmt by (simp add: dec_plain_def Let_def)
  qed (use assms same in \<open>auto simp: shape_op_def dec_plain_def Let_def req_fits_def shape_plain_def is_enum_or_assign_def
        split: if_splits option.splits\<close>)
qed

definition plan_kept :: "frame_id \<Rightarrow> frame_bytes \<Rightarrow> frame_id list \<Rightarrow> replies \<Rightarrow> bool" where
  "plan_kept i f ids r \<longleftrightarrow>
     (case r of
        RpNone \<Rightarrow> \<forall>own. reply_slot f own = None
      | RpSingle \<Rightarrow>
          if id_is_broadcast i
          then \<forall>own. \<exists>uid new_id. decode f own = DecOwn (ReqAssign uid new_id) \<lparr> may_reply = True \<rparr> 0
          else \<forall>own. reply_slot f own = (if own = i then Some 0 else None)
      | RpCollect \<Rightarrow> \<forall>own. \<exists>n p. decode f own = DecOwn (ReqEnumerate n p) \<lparr> may_reply = True \<rparr> 0
      | RpChain n \<Rightarrow> unat n = length ids \<and>
          (\<forall>own. reply_slot f own = map_option of_nat (position (\<lambda>b. b = own) ids)))"

lemma shape_deriveD:
  assumes "shape_derive i inst payload = Some (Inr sh)"
  obtains op sh0 where "\<not> inst_is_status inst" "inst_opcode inst = Some op" "id_is_valid i" "length payload \<le> 252"
    "shape_op op inst (id_is_broadcast i) payload = Some (Inr sh0)" "sh = shape_noreply inst sh0"
  using assms
  by (auto simp: shape_derive_def MAX_PAYLOAD_def split: if_splits option.splits)
    (metis (mono_tags, lifting) Inl_Inr_False id_apply map_sum.simps obj_sumE sum.sel(2))


lemma gread_ids_length: "length (gread_ids inst pay) \<le> fb_len pay"
  using gread_uniform_ids_len [of pay] gread_profile_uniform_ids_len [of pay]
    iter_collect_length [of gread_per_target_next "fb_len pay" pay] iter_collect_length [of gread_profile_per_target_next "fb_len pay" pay]
  by (cases "inst_profile inst"; cases "inst_per_target inst")
    (auto simp: gread_ids_def gread_uniform_ids_def gread_profile_uniform_ids_def fb_len_view gread_per_target_iter_def
      gread_profile_per_target_iter_def gread_per_target_parse_def gread_profile_per_target_parse_def split: option.split)

lemma gread_kept:
  assumes "shape_gread inst (fb_from payload) = Inr sh" "inst_opcode inst = Some OpGread" "length payload \<le> 252"
    "\<And>own. \<exists>pv. fb_bytes pv = payload \<and> decode f own = dec_route inst i pv own"
  shows "plan_kept i f (gread_ids inst (fb_from payload)) (sh_replies (shape_noreply inst sh))"
    "decode f own \<noteq> DecStatus \<and> decode f own \<noteq> DecOwn ReqUnsupported ctx k"
proof -
  have st: "\<not> inst_is_status inst" using assms(2) by (auto simp: inst_opcode_def split: if_splits)
  have r: "reads_slot (decode f own) (position (\<lambda>b. b = own) (gread_ids inst (fb_from payload)))" for own
    using assms(4) [of own] dec_gread_ids [OF _ assms(1), of _ own] assms(2) st by (auto simp: dec_route_def)
  have "sh_replies (shape_noreply inst sh) = RpChain (of_nat (length (gread_ids inst (fb_from payload))))"
    using shape_gread_ids [OF assms(1)] by (simp add: shape_noreply_def)
  moreover have "length (gread_ids inst (fb_from payload)) < 256"
    using gread_ids_length [of inst "fb_from payload"] assms(3) by (simp add: fb_len_view)
  moreover have "reply_slot f own = map_option of_nat (position (\<lambda>b. b = own) (gread_ids inst (fb_from payload)))" for own
    using r [of own] by (auto simp: reads_slot_def reply_slot_def split: option.splits)
  ultimately show "plan_kept i f (gread_ids inst (fb_from payload)) (sh_replies (shape_noreply inst sh))"
    by (simp add: plan_kept_def unat_of_nat8)
  show "decode f own \<noteq> DecStatus \<and> decode f own \<noteq> DecOwn ReqUnsupported ctx k"
    using r [of own] by (auto simp: reads_slot_def split: option.splits)
qed

lemma gwrite_kept:
  assumes "inst_opcode inst = Some OpGwrite" "\<And>own. \<exists>pv. fb_bytes pv = payload \<and> decode f own = dec_route inst i pv own"
  shows "reply_slot f own = None" "decode f own \<noteq> DecStatus \<and> decode f own \<noteq> DecOwn ReqUnsupported ctx k"
proof -
  have st: "\<not> inst_is_status inst" using assms(1) by (auto simp: inst_opcode_def split: if_splits)
  then obtain pv where d: "decode f own = dec_gwrite inst pv own" using assms(1) assms(2) [of own] by (auto simp: dec_route_def)
  then show "reply_slot f own = None" using dec_gwrite_silent by (auto simp: reply_slot_def split: decoded.splits)
  show "decode f own \<noteq> DecStatus \<and> decode f own \<noteq> DecOwn ReqUnsupported ctx k"
    unfolding d by (auto simp: dec_gwrite_def dec_own_write_def Let_def split: option.splits)
qed

lemma plain_kept:
  assumes "shape_op op inst (id_is_broadcast i) payload = Some (Inr sh)" "inst_opcode inst = Some op" "op \<noteq> OpGread" "op \<noteq> OpGwrite"
    "\<And>own. \<exists>pv. fb_bytes pv = payload \<and> decode f own = dec_route inst i pv own"
  shows "plan_kept i f ids (sh_replies (shape_noreply inst sh))"
    "decode f own \<noteq> DecStatus \<and> decode f own \<noteq> DecOwn ReqUnsupported ctx k"
proof -
  have st: "\<not> inst_is_status inst" using assms(2) by (auto simp: inst_opcode_def split: if_splits)
  have route: "\<exists>pv. fb_bytes pv = payload \<and> decode f own = dec_plain op inst i pv own" for own
  proof -
    have "dec_route inst i pv own = dec_plain op inst i pv own" for pv
      using assms(2-4) st by (cases op) (simp_all add: dec_route_def)
    then show ?thesis using assms(5) [of own] by metis
  qed
  have d: "if id_addresses i own
    then \<exists>req. req_fits (id_is_broadcast i) req (sh_replies sh) \<and> decode f own =
      DecOwn req \<lparr> may_reply = (\<not> inst_noreply inst \<and> (\<not> id_is_broadcast i \<or> is_enum_or_assign req)) \<rparr> 0
    else decode f own = DecSkip" for own
    using route [of own] plain_fits [OF assms(1) _ assms(3,4), of _ own] by (auto simp: dec_plain_def)
  show "decode f own \<noteq> DecStatus \<and> decode f own \<noteq> DecOwn ReqUnsupported ctx k"
    using d [of own] by (auto simp: req_fits_def split: if_splits)
  have quiet: "inst_noreply inst \<Longrightarrow> reply_slot f own = None" for own
    using d [of own] by (auto simp: reply_slot_def split: if_splits)
  show "plan_kept i f ids (sh_replies (shape_noreply inst sh))"
  proof (cases "id_is_broadcast i")
    case True
    then have a: "id_addresses i own" for own by (simp add: id_addresses_def)
    show ?thesis
    proof (cases "sh_replies sh")
      case RpNone
      then have "reply_slot f own = None" for own
        using d [of own] True a by (auto simp: reply_slot_def req_fits_def)
      then show ?thesis using RpNone by (simp add: plan_kept_def shape_noreply_def)
    next
      case RpSingle
      then have "\<exists>uid new_id. decode f own = DecOwn (ReqAssign uid new_id) \<lparr> may_reply = (\<not> inst_noreply inst) \<rparr> 0" for own
        using d [of own] True a by (auto simp: req_fits_def is_enum_or_assign_def)
      then show ?thesis using RpSingle True quiet
        by (cases "inst_noreply inst") (simp_all add: plan_kept_def shape_noreply_def)
    next
      case RpCollect
      then have "\<exists>n p. decode f own = DecOwn (ReqEnumerate n p) \<lparr> may_reply = (\<not> inst_noreply inst) \<rparr> 0" for own
        using d [of own] True a by (auto simp: req_fits_def is_enum_or_assign_def)
      then show ?thesis using RpCollect True quiet
        by (cases "inst_noreply inst") (simp_all add: plan_kept_def shape_noreply_def)
    next
      case (RpChain n)
      then show ?thesis using d [of 0] a by (auto simp: req_fits_def)
    qed
  next
    case False
    then have a: "id_addresses i own \<longleftrightarrow> own = i" for own by (auto simp: id_addresses_def)
    obtain req where "req_fits False req (sh_replies sh)" using d [of i] a False by auto
    then have sh: "sh_replies sh = RpSingle" by (auto simp: req_fits_def split: replies.splits)
    have "reply_slot f own = (if own = i \<and> \<not> inst_noreply inst then Some 0 else None)" for own
      using d [of own] a False by (auto simp: reply_slot_def split: if_splits)
    then show ?thesis using sh False by (simp add: plan_kept_def shape_noreply_def)
  qed
qed

text \<open>
  C31. The host's plan is what the servos do. An exchange the engine admits is never malformed at a servo
  (no servo decodes it as unsupported or as a status), and its plan names exactly the replies: none
  owed means no servo answers; one owed means the addressed servo answers and nobody else (a broadcast
  ASSIGN is delivered to all for the UID to elect one); a chain of \<open>n\<close> means the listed ids answer at
  their list positions; collect means every servo is asked to enumerate.
\<close>

theorem shape_matches_servo:
  assumes "shape_derive i inst payload = Some (Inr sh)"
    "fb_bytes f = [b0, i, len_for (of_nat (length payload)), inst] @ payload @ crc"
  shows "(\<forall>own ctx k. decode f own \<noteq> DecStatus \<and> decode f own \<noteq> DecOwn ReqUnsupported ctx k) \<and>
    plan_kept i f (gread_ids inst (fb_from payload)) (sh_replies sh)"
proof -
  obtain op sh0 where sh: "inst_opcode inst = Some op" "length payload \<le> 252"
    "shape_op op inst (id_is_broadcast i) payload = Some (Inr sh0)" "sh = shape_noreply inst sh0"
    using shape_deriveD [OF assms(1)] by metis
  have "unat (of_nat (length payload) :: u8) = length payload" using sh(2) by (simp add: unat_of_nat8)
  then have view: "\<exists>pv. fb_bytes pv = payload \<and> decode f own = dec_route inst i pv own" for own
    using decode_view [OF assms(2), of own] by simp
  consider "op = OpGread" | "op = OpGwrite" | "op \<noteq> OpGread" "op \<noteq> OpGwrite" by blast
  then show ?thesis
  proof cases
    case 1
    then have "shape_gread inst (fb_from payload) = Inr sh0" using sh(3) by (simp add: shape_op_def Let_def)
    then show ?thesis using gread_kept [OF _ _ sh(2) view] 1 sh(1,4) by simp
  next
    case 2
    then have "sh_replies sh = RpNone"
      using sh(3,4) by (auto simp: shape_op_def Let_def shape_silent_def shape_noreply_def split: if_splits)
    then show ?thesis using gwrite_kept [OF _ view] 2 sh(1) by (simp add: plan_kept_def)
  next
    case 3
    then show ?thesis using plain_kept [OF sh(3,1) _ _ view] sh(4) by simp
  qed
qed


lemma demo_gread_shape:
  "shape_derive 0xFE (inst_instruction OpGread 0) [0, 0, 4, 0, 1, 2] =
     Some (Inr \<lparr> sh_replies = RpChain 2, sh_reply_footprint = 10, sh_train = None, sh_slow = False \<rparr>)"
  "gread_ids (inst_instruction OpGread 0) (fb_from [0, 0, 4, 0, 1, 2]) = [1, 2]"
proof -
  have i: "inst_instruction OpGread 0 = 0x50" by (simp add: inst_instruction_def)
  have f: "\<not> inst_is_status 0x50" "inst_opcode 0x50 = Some OpGread" "\<not> inst_profile 0x50" "\<not> inst_per_target 0x50" "\<not> inst_noreply 0x50"
    by (simp_all add: inst_defs osc_const opcode_from_bits_def)
  obtain g where g: "gread_uniform_parse (fb_from [0, 0, 4, 0, 1, 2]) = Some g" "gu_count g = 4" "gread_uniform_ids g = [1, 2]"
    using gread_uniform_parse_view [of "fb_from [0, 0, 4, 0, 1, 2]"] by (auto simp: le16_def)
  show "gread_ids (inst_instruction OpGread 0) (fb_from [0, 0, 4, 0, 1, 2]) = [1, 2]" using g by (simp add: i f gread_ids_def)
  show "shape_derive 0xFE (inst_instruction OpGread 0) [0, 0, 4, 0, 1, 2] =
     Some (Inr \<lparr> sh_replies = RpChain 2, sh_reply_footprint = 10, sh_train = None, sh_slow = False \<rparr>)"
    using g by (simp add: i f shape_derive_def shape_op_def shape_gread_def shape_noreply_def id_is_valid_def id_is_broadcast_def
        MAX_PAYLOAD_def read_reply_def footprint_def Let_def)
qed

theorem shape_matches_servo_witness:
  "plan_kept 0xFE (fb_from ([0, 0xFE, len_for 6, inst_instruction OpGread 0] @ [0, 0, 4, 0, 1, 2] @ [0, 0])) [1, 2] (RpChain 2)"
  using shape_matches_servo [OF demo_gread_shape(1),
      of "fb_from ([0, 0xFE, len_for 6, inst_instruction OpGread 0] @ [0, 0, 4, 0, 1, 2] @ [0, 0])" 0 "[0, 0]"]
  by (simp add: demo_gread_shape(2))

text \<open>
  C32. No COMMIT the host admits passes an authenticating servo. The engine refuses a COMMIT with a payload,
  and an authenticated COMMIT carries its sequence number and tag there; so under a policy that
  requires authentication every admitted COMMIT is rejected, in every state of the session.
\<close>

theorem admitted_commit_rejected:
  assumes "shape_derive i inst payload = Some (Inr sh)" "inst_opcode inst = Some OpCommit" "pol_require_auth (sc_policy c)"
  shows "\<not> verdict_is_pass (snd (ctx_verify c inst (id_is_broadcast i) ([i, l, inst] @ payload)))"
proof -
  have "payload = []"
    using assms(1,2) by (auto elim!: shape_deriveD simp: shape_op_def Let_def split: if_splits)
  then have "trailer_split ([i, l, inst] @ payload) = None" by (simp add: trailer_split_def TRAILER_LEN_def SEQ_LEN_def TAG_LEN_def)
  moreover have "requires_tag (sc_policy c) inst" using assms(2,3) by (simp add: requires_tag_def effect_bearing_def)
  ultimately have "snd (ctx_evaluate c inst (id_is_broadcast i) ([i, l, inst] @ payload)) \<noteq> AvPass"
    by (simp add: ctx_evaluate_def Let_def)
  then show ?thesis by (simp add: ctx_verify_def verdict_is_pass_def split_beta Let_def del: ctx_verify_simps)
qed

theorem admitted_commit_rejected_witness:
  "\<not> verdict_is_pass (snd (ctx_verify demo_ctx (inst_instruction OpCommit 2) True ([0xFE, 3, inst_instruction OpCommit 2] @ [])))"
proof -
  have i: "inst_instruction OpCommit 2 = 0x42" by (simp add: inst_instruction_def)
  have f: "\<not> inst_is_status 0x42" "inst_opcode 0x42 = Some OpCommit" "\<not> inst_noreply 0x42"
    by (simp_all add: inst_defs osc_const opcode_from_bits_def)
  have "shape_derive 0xFE (inst_instruction OpCommit 2) [] = Some (Inr (shape_plain True ACK_REPLY))"
    by (simp add: i f shape_derive_def shape_op_def shape_noreply_def id_is_valid_def id_is_broadcast_def Let_def)
  moreover have "pol_require_auth (sc_policy demo_ctx)" by (simp add: demo_ctx_def ctx_install_def ctx_new_def policy_FLIGHT_def)
  ultimately show ?thesis
    using admitted_commit_rejected [of "0xFE" "inst_instruction OpCommit 2" "[]" _ demo_ctx 3] f
    by (simp add: i id_is_broadcast_def del: ctx_verify_simps)
qed

end
