(* ===== verification/Host_Bus.thy ===== *)
theory Host_Bus
  imports Host_Framer Host_Shape Osc_Reply
begin

text \<open>
  \<open>host/src/engine/mod.rs\<close> with \<open>wireop.rs\<close>: the host engine. One command or one instrument wire operation
  is outstanding at a time; \<open>submit\<close> and the \<open>wire_\<close> operations start it, the transmit-complete and compare
  interrupts and \<open>poll\<close> advance it, and \<open>poll\<close> hands out its events.

  The clock, the receive ring and its write cursor are read through \<open>host_env\<close>: the \<open>n\<close>-th read of the
  run may return anything, and the run counts its reads in \<open>hb_sample\<close>. The wire, the baud generator and
  the compare register are written only; what is written to the first two is kept in order in \<open>hb_log\<close>,
  the compare in \<open>hb_compare\<close>. \<open>None\<close> is a panic or a loop that does not end. Products of the \<open>u32\<close> tick
  arithmetic wrap, as in a release build.
\<close>

subsection \<open>State\<close>

record host_env =
  he_now :: "nat \<Rightarrow> u32"
  he_cursor :: "nat \<Rightarrow> u16"
  he_ring :: "nat \<Rightarrow> bytes"
  he_ticks_per_us :: u32

datatype host_io = IoClaim | IoBreak | IoSend bytes | IoHoldLow | IoRelease | IoBaud baud_rate | IoBaudRaw u32

datatype host_command =
    CmdExchange frame_id inst bytes
  | CmdRescue
  | CmdHostBaud baud_rate
  | CmdSetResponseDeadline u16

datatype submit_error = SeBusy | SeInvalid invalid_reason

record wire_evidence =
  we_statuses :: u8
  we_garble :: u16
  we_garble_after_last_frame :: bool

datatype outcome = OcSent | OcComplete | OcTimeout u8

record terminal =
  tm_outcome :: outcome
  tm_tick :: u32
  tm_evidence :: wire_evidence

datatype host_event =
    HeStatus u8 frame_id inst frame_bytes
  | HeDone terminal
  | HeWireDone u32

datatype host_state =
    StIdle | StPacing | StTransmitting | StTraining u8 u32 | StRescueHold | StAwaiting
  | StWireTx | StWirePulse | StWireTrain u8 u32

datatype wire_mode = MdSingle | MdStream

definition WIRE_CAP :: nat where [osc_const]: "WIRE_CAP = 640"

record wire_job =
  wj_buf :: bytes
  wj_len :: nat
  wj_cursor :: nat
  wj_mode :: wire_mode
  wj_train :: "(u8 \<times> u32) option"

definition wire_job_new :: wire_job where
  "wire_job_new = \<lparr> wj_buf = replicate WIRE_CAP 0, wj_len = 0, wj_cursor = 0, wj_mode = MdSingle, wj_train = None \<rparr>"

definition RESCUE_HOLD_US :: u32 where [osc_const]: "RESCUE_HOLD_US = 1000"
definition WINDOW_MARGIN_BYTES :: u32 where [osc_const]: "WINDOW_MARGIN_BYTES = 16"
definition SLOW_OP_EXTRA_US :: u32 where [osc_const]: "SLOW_OP_EXTRA_US = 50000"
definition TX_BUF :: nat where [osc_const]: "TX_BUF = 264"

definition evidence_default :: wire_evidence where
  "evidence_default = \<lparr> we_statuses = 0, we_garble = 0, we_garble_after_last_frame = False \<rparr>"

record host_bus =
  hb_framer :: host_framer
  hb_buf :: frame_buf
  hb_state :: host_state
  hb_plan :: "shape option"
  hb_rate :: baud_rate
  hb_response_deadline_us :: u16
  hb_pace_until :: "u32 option"
  hb_deadline_at :: u32
  hb_window :: u32
  hb_got :: u8
  hb_last_cursor :: u16
  hb_evidence :: wire_evidence
  hb_pending_done :: "terminal option"
  hb_wire_job :: wire_job
  hb_pending_wire_done :: "u32 option"
  hb_compare :: "u32 option"
  hb_log :: "host_io list"
  hb_sample :: nat

definition host_new :: "baud_rate \<Rightarrow> host_bus" where
  "host_new rate =
     \<lparr> hb_framer = host_framer_new, hb_buf = \<lparr> fbuf_bytes = replicate TX_BUF 0 \<rparr>, hb_state = StIdle, hb_plan = None,
       hb_rate = rate, hb_response_deadline_us = DEFAULT_RESPONSE_DEADLINE_US, hb_pace_until = None,
       hb_deadline_at = 0, hb_window = 0, hb_got = 0, hb_last_cursor = 0, hb_evidence = evidence_default,
       hb_pending_done = None, hb_wire_job = wire_job_new, hb_pending_wire_done = None,
       hb_compare = None, hb_log = [], hb_sample = 0 \<rparr>"

definition host_read_now :: "'e host_env_scheme \<Rightarrow> host_bus \<Rightarrow> u32 \<times> host_bus" where
  "host_read_now E s = (he_now E (hb_sample s), s\<lparr> hb_sample := hb_sample s + 1 \<rparr>)"

definition host_read_cursor :: "'e host_env_scheme \<Rightarrow> host_bus \<Rightarrow> u16 \<times> host_bus" where
  "host_read_cursor E s = (he_cursor E (hb_sample s), s\<lparr> hb_sample := hb_sample s + 1 \<rparr>)"

definition host_ring :: "'e host_env_scheme \<Rightarrow> host_bus \<Rightarrow> bytes" where
  "host_ring E s = he_ring E (hb_sample s)"

definition emit_io :: "host_io list \<Rightarrow> host_bus \<Rightarrow> host_bus" where
  "emit_io ops s = s\<lparr> hb_log := hb_log s @ ops \<rparr>"

subsection \<open>Shared steps\<close>

definition host_arm :: "u32 \<Rightarrow> host_bus \<Rightarrow> host_bus" where
  "host_arm at s = s\<lparr> hb_deadline_at := at, hb_compare := Some at \<rparr>"

definition byte_ticks :: "'e host_env_scheme \<Rightarrow> host_bus \<Rightarrow> u32" where
  "byte_ticks E s = he_ticks_per_us E * 10000000 div baud_as_hz (hb_rate s)"

definition host_pace :: "'e host_env_scheme \<Rightarrow> host_bus \<Rightarrow> host_bus" where
  "host_pace E s =
     (let quiet = STARVE_HORIZON_BYTE_TIMES * byte_ticks E s;
          (now, s) = host_read_now E s
      in s\<lparr> hb_pace_until := Some (now + quiet) \<rparr>)"

definition host_finish :: "'e host_env_scheme \<Rightarrow> outcome \<Rightarrow> host_bus \<Rightarrow> host_bus" where
  "host_finish E oc s =
     (let s = (if 0 < we_garble (hb_evidence s) then host_pace E s else s);
          (now, s) = host_read_now E s
      in s\<lparr> hb_pending_done := Some \<lparr> tm_outcome = oc, tm_tick = now, tm_evidence = hb_evidence s \<rparr>,
            hb_evidence := evidence_default, hb_state := StIdle, hb_plan := None \<rparr>)"

definition start_tx :: "host_bus \<Rightarrow> host_bus option" where
  "start_tx s =
     do { frame \<leftarrow> frame_buf_frame (hb_buf s);
          span \<leftarrow> slice_opt frame 1 (length frame);
          Some ((emit_io [IoClaim, IoBreak, IoSend span] s)\<lparr> hb_state := StTransmitting \<rparr>) }"

definition window_for :: "'e host_env_scheme \<Rightarrow> host_bus \<Rightarrow> shape \<Rightarrow> u32" where
  "window_for E s plan =
     (let t = he_ticks_per_us E; byte = byte_ticks E s;
          w = ucast (hb_response_deadline_us s) * t + ucast (sh_reply_footprint plan) * byte + WINDOW_MARGIN_BYTES * byte;
          w = (if sh_replies plan = RpCollect then w + ucast ENUM_REPLY_SLOTS * byte else w)
      in if sh_slow plan then w + SLOW_OP_EXTRA_US * t else w)"

definition unresolved :: "nat \<Rightarrow> nat \<Rightarrow> nat \<Rightarrow> u16" where
  "unresolved anchor cursor len = of_nat ((cursor + len - anchor) mod len)"

definition sat_add8 :: "u8 \<Rightarrow> u8 \<Rightarrow> u8" where
  "sat_add8 a b = (if a \<le> a + b then a + b else 255)"

definition sat_add16 :: "u16 \<Rightarrow> u16 \<Rightarrow> u16" where
  "sat_add16 a b = (if a \<le> a + b then a + b else 65535)"

definition note_garble :: "u16 \<Rightarrow> wire_evidence \<Rightarrow> wire_evidence" where
  "note_garble n e = e\<lparr> we_garble := sat_add16 (we_garble e) n, we_garble_after_last_frame := True \<rparr>"

definition host_busy :: "host_bus \<Rightarrow> bool" where
  "host_busy s \<longleftrightarrow> hb_state s \<noteq> StIdle \<or> hb_pending_done s \<noteq> None \<or> hb_pending_wire_done s \<noteq> None"

subsection \<open>Commands\<close>

definition load_frame :: "frame_buf \<Rightarrow> frame_id \<Rightarrow> inst \<Rightarrow> bytes \<Rightarrow> frame_buf option" where
  "load_frame fb i inst payload =
     do { region \<leftarrow> frame_buf_payload_mut (frame_buf_start fb i inst);
          if length region < length payload then None
          else do { fb \<leftarrow> frame_buf_finish (frame_buf_with_payload (frame_buf_start fb i inst) (put 0 payload region))
                            (of_nat (length payload));
                    (fb, _) \<leftarrow> frame_buf_seal fb;
                    Some fb } }"

definition submit_exchange ::
  "'e host_env_scheme \<Rightarrow> host_bus \<Rightarrow> frame_id \<Rightarrow> inst \<Rightarrow> bytes \<Rightarrow> (host_bus \<times> (submit_error + unit)) option" where
  "submit_exchange E s i inst payload =
     do { r \<leftarrow> shape_derive i inst payload;
          case r of
            Inl reason \<Rightarrow> Some (s, Inl (SeInvalid reason))
          | Inr plan \<Rightarrow>
              do { fb \<leftarrow> load_frame (hb_buf s) i inst payload;
                   let s = s\<lparr> hb_buf := fb, hb_plan := Some plan \<rparr>;
                   let (cursor, s) = host_read_cursor E s;
                   let s = s\<lparr> hb_framer := host_framer_resync (hb_framer s) (unat cursor) \<rparr>;
                   s' \<leftarrow> (case hb_pace_until s of
                            Some until \<Rightarrow>
                              (let (now, s) = host_read_now E (s\<lparr> hb_pace_until := None \<rparr>)
                               in if \<not> tick_reached now until then Some (host_arm until (s\<lparr> hb_state := StPacing \<rparr>))
                                  else start_tx s)
                          | None \<Rightarrow> start_tx s);
                   Some (s', Inr ()) } }"

definition submit :: "'e host_env_scheme \<Rightarrow> host_bus \<Rightarrow> host_command \<Rightarrow> (host_bus \<times> (submit_error + unit)) option" where
  "submit E s cmd =
     (if host_busy s then Some (s, Inl SeBusy)
      else let s = s\<lparr> hb_evidence := evidence_default \<rparr>
           in case cmd of
                CmdSetResponseDeadline us \<Rightarrow>
                  Some (host_finish E OcComplete (s\<lparr> hb_response_deadline_us := us \<rparr>), Inr ())
              | CmdHostBaud rate \<Rightarrow>
                  Some (host_finish E OcComplete (host_pace E ((emit_io [IoBaud rate] s)\<lparr> hb_rate := rate \<rparr>)), Inr ())
              | CmdRescue \<Rightarrow>
                  (let (now, s) = host_read_now E ((emit_io [IoClaim, IoHoldLow] s)\<lparr> hb_state := StRescueHold \<rparr>)
                   in Some (host_arm (now + RESCUE_HOLD_US * he_ticks_per_us E) s, Inr ()))
              | CmdExchange i inst payload \<Rightarrow> submit_exchange E s i inst payload)"

subsection \<open>Instrument wire operations\<close>

definition wire_start :: "bytes \<Rightarrow> (u8 \<times> u32) option \<Rightarrow> host_bus \<Rightarrow> host_bus option" where
  "wire_start bytes train s =
     (let j = (hb_wire_job s)\<lparr> wj_buf := put 0 bytes (wj_buf (hb_wire_job s)), wj_len := length bytes, wj_mode := MdSingle, wj_train := train \<rparr>
      in do { span \<leftarrow> slice_opt (wj_buf j) 0 (wj_len j);
              Some ((emit_io [IoClaim, IoBreak, IoSend span] s)\<lparr> hb_wire_job := j, hb_state := StWireTx \<rparr>) })"

definition wire_send :: "host_bus \<Rightarrow> bytes \<Rightarrow> (host_bus \<times> (submit_error + unit)) option" where
  "wire_send s bytes =
     (if host_busy s then Some (s, Inl SeBusy)
      else if bytes = [] then Some (s, Inl (SeInvalid IrBadPayload))
      else if WIRE_CAP < length bytes then Some (s, Inl (SeInvalid IrTooLong))
      else do { s \<leftarrow> wire_start bytes None s; Some (s, Inr ()) })"

definition wire_train ::
  "'e host_env_scheme \<Rightarrow> host_bus \<Rightarrow> bytes \<Rightarrow> u16 \<Rightarrow> u8 \<Rightarrow> (host_bus \<times> (submit_error + unit)) option" where
  "wire_train E s announce gap_us breaks =
     (if host_busy s then Some (s, Inl SeBusy)
      else if announce = [] \<or> gap_us = 0 \<or> breaks = 0 then Some (s, Inl (SeInvalid IrBadPayload))
      else if WIRE_CAP < length announce then Some (s, Inl (SeInvalid IrTooLong))
      else do { s \<leftarrow> wire_start announce (Some (breaks, ucast gap_us * he_ticks_per_us E)) s; Some (s, Inr ()) })"

definition abs_diff :: "u32 \<Rightarrow> u32 \<Rightarrow> u32" where
  "abs_diff a b = (if a < b then b - a else a - b)"

definition nearest_rate :: "u32 \<Rightarrow> baud_rate" where
  "nearest_rate bps =
     fold (\<lambda>r best. if abs_diff (baud_as_hz r) bps < abs_diff (baud_as_hz best) bps then r else best)
       [B1000000, B2000000, B3000000] B500000"

definition wire_baud :: "'e host_env_scheme \<Rightarrow> host_bus \<Rightarrow> u32 \<Rightarrow> host_bus \<times> (submit_error + unit)" where
  "wire_baud E s bps =
     (if host_busy s then (s, Inl SeBusy)
      else if bps = 0 then (s, Inl (SeInvalid IrBadPayload))
      else let (now, s) = host_read_now E (host_pace E ((emit_io [IoBaudRaw bps] s)\<lparr> hb_rate := nearest_rate bps \<rparr>))
           in (s\<lparr> hb_pending_wire_done := Some now \<rparr>, Inr ()))"

definition wire_next_frame :: "host_bus \<Rightarrow> host_bus option" where
  "wire_next_frame s =
     (let j = hb_wire_job s; at = wj_cursor j
      in do { b \<leftarrow> nth_opt (wj_buf j) at;
              let flen = unat b;
              span \<leftarrow> slice_opt (wj_buf j) (at + 1) (at + 1 + flen);
              Some (emit_io [IoBreak, IoSend span] (s\<lparr> hb_wire_job := j\<lparr> wj_cursor := at + 1 + flen \<rparr> \<rparr>)) })"

function burst_check :: "bytes \<Rightarrow> nat \<Rightarrow> nat option" where
  "burst_check stream at =
     (if at < length stream
      then let flen = unat (stream ! at)
           in if flen = 0 \<or> length stream < at + 1 + flen then None else burst_check stream (at + 1 + flen)
      else Some at)"
  by pat_completeness auto
termination by (relation "measure (\<lambda>(stream, at). length stream - at)") auto

declare burst_check.simps [simp del]

definition wire_burst :: "host_bus \<Rightarrow> bytes \<Rightarrow> (host_bus \<times> (submit_error + unit)) option" where
  "wire_burst s stream =
     (if host_busy s then Some (s, Inl SeBusy)
      else if WIRE_CAP < length stream then Some (s, Inl (SeInvalid IrTooLong))
      else if burst_check stream 0 = None \<or> burst_check stream 0 = Some 0 then Some (s, Inl (SeInvalid IrBadPayload))
      else let j = (hb_wire_job s)\<lparr> wj_buf := put 0 stream (wj_buf (hb_wire_job s)), wj_len := length stream,
                                    wj_cursor := 0, wj_mode := MdStream \<rparr>
           in do { s \<leftarrow> wire_next_frame (emit_io [IoClaim] (s\<lparr> hb_wire_job := j \<rparr>));
                   Some (s\<lparr> hb_state := StWireTx \<rparr>, Inr ()) })"

definition wire_pulse_low :: "'e host_env_scheme \<Rightarrow> host_bus \<Rightarrow> u16 \<Rightarrow> host_bus \<times> (submit_error + unit)" where
  "wire_pulse_low E s us =
     (if host_busy s then (s, Inl SeBusy)
      else if us = 0 then (s, Inl (SeInvalid IrBadPayload))
      else let (now, s) = host_read_now E ((emit_io [IoClaim, IoHoldLow] s)\<lparr> hb_state := StWirePulse \<rparr>)
           in (host_arm (now + ucast us * he_ticks_per_us E) s, Inr ()))"

definition wire_finish :: "'e host_env_scheme \<Rightarrow> host_bus \<Rightarrow> host_bus" where
  "wire_finish E s =
     (let (now, s) = host_read_now E ((emit_io [IoRelease] s)\<lparr> hb_state := StIdle \<rparr>)
      in s\<lparr> hb_pending_wire_done := Some now \<rparr>)"

definition wire_advance :: "'e host_env_scheme \<Rightarrow> host_bus \<Rightarrow> host_bus option" where
  "wire_advance E s =
     (case wj_train (hb_wire_job s) of
        Some (left, gap) \<Rightarrow>
          (let (now, s) = host_read_now E (s\<lparr> hb_wire_job := (hb_wire_job s)\<lparr> wj_train := None \<rparr>, hb_state := StWireTrain left gap \<rparr>)
           in Some (host_arm (now + gap) s))
      | None \<Rightarrow>
          if wj_mode (hb_wire_job s) = MdStream \<and> wj_cursor (hb_wire_job s) < wj_len (hb_wire_job s)
          then wire_next_frame s
          else Some (wire_finish E s))"

subsection \<open>Interrupts\<close>

definition host_on_tx_complete :: "'e host_env_scheme \<Rightarrow> host_bus \<Rightarrow> host_bus option" where
  "host_on_tx_complete E s =
     (if hb_state s = StWireTx then wire_advance E s
      else if hb_state s \<noteq> StTransmitting then Some s
      else case hb_plan s of
        None \<Rightarrow> Some (host_finish E OcSent (emit_io [IoRelease] s))
      | Some plan \<Rightarrow>
          (case sh_train plan of
             Some (gap_us, gaps) \<Rightarrow>
               (let gap = ucast gap_us * he_ticks_per_us E;
                    (now, s) = host_read_now E (s\<lparr> hb_state := StTraining (gaps + 1) gap \<rparr>)
                in Some (host_arm (now + gap) s))
           | None \<Rightarrow>
               if sh_replies plan = RpNone then Some (host_finish E OcSent (emit_io [IoRelease] s))
               else let s = (emit_io [IoRelease] s)\<lparr> hb_window := window_for E s plan, hb_got := 0 \<rparr>;
                        (cursor, s) = host_read_cursor E s;
                        (now, s) = host_read_now E (s\<lparr> hb_last_cursor := cursor, hb_state := StAwaiting \<rparr>)
                    in Some (host_arm (now + hb_window s) s)))"

definition train_next :: "u32 \<Rightarrow> host_bus \<Rightarrow> host_bus" where
  "train_next gap s = host_arm (hb_deadline_at s + gap) s"

definition host_on_deadline :: "'e host_env_scheme \<Rightarrow> host_bus \<Rightarrow> host_bus" where
  "host_on_deadline E s =
     (case hb_state s of
        StTraining left gap \<Rightarrow>
          (let s = emit_io [IoBreak] s
           in if left \<le> 1 then host_finish E OcSent (emit_io [IoRelease] s)
              else train_next gap (s\<lparr> hb_state := StTraining (left - 1) gap \<rparr>))
      | StWireTrain left gap \<Rightarrow>
          (let s = emit_io [IoBreak] s
           in if left \<le> 1 then wire_finish E s
              else train_next gap (s\<lparr> hb_state := StWireTrain (left - 1) gap \<rparr>))
      | _ \<Rightarrow> s)"

subsection \<open>Polling\<close>

definition await_extend :: "u32 \<Rightarrow> host_bus \<Rightarrow> host_bus" where
  "await_extend now s = host_arm (now + hb_window s) s"

text \<open>A status frame while awaiting: count it, and close the command if it was the last one owed.\<close>

definition await_complete :: "u32 \<Rightarrow> u32 \<Rightarrow> nat \<Rightarrow> u16 \<Rightarrow> host_bus \<Rightarrow> host_bus" where
  "await_complete now pace_at ring_len cursor s =
     (let left = unresolved (hr_anchor (hb_framer s)) (unat cursor) ring_len;
          s = s\<lparr> hb_compare := None, hb_state := StIdle \<rparr>;
          s = (if 0 < left then s\<lparr> hb_evidence := note_garble left (hb_evidence s) \<rparr> else s);
          s = (if 0 < we_garble (hb_evidence s) then s\<lparr> hb_pace_until := Some pace_at \<rparr> else s)
      in s\<lparr> hb_pending_done := Some \<lparr> tm_outcome = OcComplete, tm_tick = now, tm_evidence = hb_evidence s \<rparr>,
            hb_evidence := evidence_default, hb_plan := None \<rparr>)"

definition await_status ::
  "u8 option \<Rightarrow> u32 \<Rightarrow> u32 \<Rightarrow> nat \<Rightarrow> u16 \<Rightarrow> host_bus \<Rightarrow> host_bus" where
  "await_status expected now pace_at ring_len cursor s =
     (let got = sat_add8 (hb_got s) 1; e = hb_evidence s;
          s = s\<lparr> hb_got := got,
                 hb_evidence := e\<lparr> we_statuses := sat_add8 (we_statuses e) 1, we_garble_after_last_frame := False \<rparr> \<rparr>;
          s = (if expected = Some got then await_complete now pace_at ring_len cursor s else await_extend now s)
      in s\<lparr> hb_last_cursor := cursor \<rparr>)"

partial_function (option) await_loop ::
  "'e host_env_scheme \<Rightarrow> u8 option \<Rightarrow> u32 \<Rightarrow> u32 \<Rightarrow> nat \<Rightarrow> host_bus \<Rightarrow> (host_bus \<times> host_frame option) option" where
  "await_loop E expected now pace_at ring_len s =
     (let (cursor, s) = host_read_cursor E s
      in do { (fm, step) \<leftarrow> host_framer_step (hb_framer s) (host_ring E s) (unat cursor);
              let s = s\<lparr> hb_framer := fm \<rparr>;
              case step of
                HsFrame f \<Rightarrow>
                  if inst_is_status (hf_inst f)
                  then Some (await_status expected now pace_at ring_len cursor s, Some f)
                  else await_loop E expected now pace_at ring_len
                         (await_extend now (s\<lparr> hb_evidence := note_garble (of_nat (fb_len (hf_payload f)) + 6) (hb_evidence s) \<rparr>))
              | HsGarble n \<Rightarrow>
                  await_loop E expected now pace_at ring_len
                    (await_extend now (s\<lparr> hb_evidence := note_garble n (hb_evidence s) \<rparr>))
              | _ \<Rightarrow> Some (s, None) })"

definition expected_replies :: "replies \<Rightarrow> u8 option" where
  "expected_replies r = (case r of RpSingle \<Rightarrow> Some 1 | RpChain n \<Rightarrow> Some n | RpCollect \<Rightarrow> None | RpNone \<Rightarrow> Some 1)"

definition take_done :: "host_bus \<Rightarrow> host_bus \<times> host_event option" where
  "take_done s = (s\<lparr> hb_pending_done := None \<rparr>, map_option HeDone (hb_pending_done s))"

definition await_quiet :: "'e host_env_scheme \<Rightarrow> shape \<Rightarrow> u32 \<Rightarrow> nat \<Rightarrow> host_bus \<Rightarrow> host_bus" where
  "await_quiet E plan now ring_len s =
     (let (cursor, s) = host_read_cursor E s;
          progressed = (cursor \<noteq> hb_last_cursor s);
          s = s\<lparr> hb_last_cursor := cursor \<rparr>
      in if progressed then await_extend now s
         else if tick_reached now (hb_deadline_at s)
         then let left = unresolved (hr_anchor (hb_framer s)) (unat cursor) ring_len;
                  s = s\<lparr> hb_compare := None \<rparr>;
                  s = (if 0 < left then s\<lparr> hb_evidence := note_garble left (hb_evidence s) \<rparr> else s)
              in host_finish E (if sh_replies plan = RpCollect then OcComplete else OcTimeout (hb_got s)) s
         else s)"

definition poll_await :: "'e host_env_scheme \<Rightarrow> u32 \<Rightarrow> host_bus \<Rightarrow> (host_bus \<times> host_event option) option" where
  "poll_await E now s =
     (case hb_plan s of
        None \<Rightarrow> Some (s, None)
      | Some plan \<Rightarrow>
          (let pace_at = now + STARVE_HORIZON_BYTE_TIMES * byte_ticks E s;
               ring_len = length (host_ring E s)
           in do { (s, r) \<leftarrow> await_loop E (expected_replies (sh_replies plan)) now pace_at ring_len s;
                   case r of
                     Some f \<Rightarrow>
                       do { pay \<leftarrow> payload_view (host_ring E s) (hf_payload_pos f) (fb_len (hf_payload f));
                            Some (s, Some (HeStatus (hb_got s - 1) (hf_id f) (hf_inst f) pay)) }
                   | None \<Rightarrow> if ring_len = 0 then None else Some (take_done (await_quiet E plan now ring_len s)) }))"

definition poll :: "'e host_env_scheme \<Rightarrow> host_bus \<Rightarrow> (host_bus \<times> host_event option) option" where
  "poll E s =
     (case hb_pending_done s of
        Some t \<Rightarrow> Some (s\<lparr> hb_pending_done := None \<rparr>, Some (HeDone t))
      | None \<Rightarrow>
          (case hb_pending_wire_done s of
             Some tick \<Rightarrow> Some (s\<lparr> hb_pending_wire_done := None \<rparr>, Some (HeWireDone tick))
           | None \<Rightarrow>
               (let (now, s) = host_read_now E s
                in if hb_state s = StAwaiting then poll_await E now s
                   else do {
                     s \<leftarrow> (if hb_state s = StPacing
                           then (if tick_reached now (hb_deadline_at s) then start_tx s else Some s)
                           else if hb_state s = StRescueHold
                           then Some (if tick_reached now (hb_deadline_at s)
                                then host_finish E OcSent
                                       (host_pace E ((emit_io [IoRelease, IoBaud baud_RESCUE] s)\<lparr> hb_rate := baud_RESCUE \<rparr>))
                                else s)
                           else if hb_state s = StWirePulse
                           then Some (if tick_reached now (hb_deadline_at s) then wire_finish E s else s)
                           else Some s);
                     case hb_pending_wire_done s of
                       Some tick \<Rightarrow> Some (s\<lparr> hb_pending_wire_done := None \<rparr>, Some (HeWireDone tick))
                     | None \<Rightarrow> Some (take_done s) })))"

end
