(* ===== verification/Host_Own.thy ===== *)
theory Host_Own
  imports Host_Bus
begin

text \<open>
  The engine's contract: one command or wire operation at a time, and exactly one closing event for each.
  \<open>host_ok\<close> is the invariant of its state, \<open>host_owner\<close> what it is busy with, and \<open>spec_step\<close> the
  contract as an automaton over the calls' observable results.
\<close>

subsection \<open>Invariant\<close>

definition host_env_ok :: "'e host_env_scheme \<Rightarrow> nat \<Rightarrow> bool" where
  "host_env_ok E L \<longleftrightarrow> (\<forall>n. ring_ok (he_ring E n) \<and> length (he_ring E n) = L \<and> unat (he_cursor E n) < L)"

fun in_exchange :: "host_state \<Rightarrow> bool" where
  "in_exchange StPacing = True"
| "in_exchange StTransmitting = True"
| "in_exchange (StTraining _ _) = True"
| "in_exchange StAwaiting = True"
| "in_exchange _ = False"

fun on_wire :: "host_state \<Rightarrow> bool" where
  "on_wire StWireTx = True"
| "on_wire StWirePulse = True"
| "on_wire (StWireTrain _ _) = True"
| "on_wire _ = False"

definition job_ok :: "host_state \<Rightarrow> wire_job \<Rightarrow> bool" where
  "job_ok st j \<longleftrightarrow> length (wj_buf j) = WIRE_CAP \<and> wj_len j \<le> WIRE_CAP \<and>
     (wj_train j = None \<or> st = StWireTx \<and> wj_mode j = MdSingle) \<and>
     (st = StWireTx \<and> wj_mode j = MdStream \<longrightarrow> burst_check (take (wj_len j) (wj_buf j)) (wj_cursor j) \<noteq> None)"

definition host_ok :: "nat \<Rightarrow> host_bus \<Rightarrow> bool" where
  "host_ok L s \<longleftrightarrow>
     (hb_pending_done s \<noteq> None \<longrightarrow> hb_state s = StIdle \<and> hb_pending_wire_done s = None) \<and>
     (hb_pending_wire_done s \<noteq> None \<longrightarrow> hb_state s = StIdle) \<and>
     (hb_plan s \<noteq> None) = in_exchange (hb_state s) \<and>
     length (fbuf_bytes (hb_buf s)) = TX_BUF \<and> job_ok (hb_state s) (hb_wire_job s) \<and>
     hr_anchor (hb_framer s) < L"

datatype owner = Free | Command | WireOp

definition host_owner :: "host_bus \<Rightarrow> owner" where
  "host_owner s =
     (if on_wire (hb_state s) \<or> hb_pending_wire_done s \<noteq> None then WireOp
      else if hb_state s \<noteq> StIdle \<or> hb_pending_done s \<noteq> None then Command else Free)"

lemma busy_owner: "host_busy s \<longleftrightarrow> host_owner s \<noteq> Free"
  by (auto simp: host_busy_def host_owner_def)

lemma host_ok_new: "host_ok L (host_new rate)" if "0 < L"
  using that by (simp add: host_ok_def host_new_def job_ok_def wire_job_new_def host_framer_new_def)

text \<open>Closing a command or a wire operation.\<close>

lemma finish_fields [simp]:
  "hb_state (host_finish E oc s) = StIdle" "hb_plan (host_finish E oc s) = None" "\<exists>t. hb_pending_done (host_finish E oc s) = Some t"
  "hb_pending_wire_done (host_finish E oc s) = hb_pending_wire_done s" "hb_buf (host_finish E oc s) = hb_buf s"
  "hb_wire_job (host_finish E oc s) = hb_wire_job s" "hb_framer (host_finish E oc s) = hb_framer s"
  by (simp_all add: host_finish_def host_pace_def host_read_now_def Let_def)

lemma pace_fields [simp]:
  "hb_state (host_pace E s) = hb_state s" "hb_plan (host_pace E s) = hb_plan s" "hb_pending_done (host_pace E s) = hb_pending_done s"
  "hb_pending_wire_done (host_pace E s) = hb_pending_wire_done s" "hb_buf (host_pace E s) = hb_buf s"
  "hb_wire_job (host_pace E s) = hb_wire_job s" "hb_framer (host_pace E s) = hb_framer s"
  by (simp_all add: host_pace_def host_read_now_def Let_def)

lemma io_fields [simp]:
  "hb_state (emit_io ops s) = hb_state s" "hb_plan (emit_io ops s) = hb_plan s" "hb_pending_done (emit_io ops s) = hb_pending_done s"
  "hb_pending_wire_done (emit_io ops s) = hb_pending_wire_done s" "hb_buf (emit_io ops s) = hb_buf s"
  "hb_wire_job (emit_io ops s) = hb_wire_job s" "hb_framer (emit_io ops s) = hb_framer s" "hb_deadline_at (emit_io ops s) = hb_deadline_at s"
  "hb_sample (emit_io ops s) = hb_sample s" "hb_evidence (emit_io ops s) = hb_evidence s"
  by (simp_all add: emit_io_def)

lemma arm_fields [simp]:
  "hb_state (host_arm at s) = hb_state s" "hb_plan (host_arm at s) = hb_plan s" "hb_pending_done (host_arm at s) = hb_pending_done s"
  "hb_pending_wire_done (host_arm at s) = hb_pending_wire_done s" "hb_buf (host_arm at s) = hb_buf s"
  "hb_wire_job (host_arm at s) = hb_wire_job s" "hb_framer (host_arm at s) = hb_framer s"
  by (simp_all add: host_arm_def)

lemma wire_finish_fields [simp]:
  "hb_state (wire_finish E s) = StIdle" "hb_plan (wire_finish E s) = hb_plan s" "hb_pending_done (wire_finish E s) = hb_pending_done s"
  "\<exists>k. hb_pending_wire_done (wire_finish E s) = Some k" "hb_buf (wire_finish E s) = hb_buf s"
  "hb_wire_job (wire_finish E s) = hb_wire_job s" "hb_framer (wire_finish E s) = hb_framer s"
  by (simp_all add: wire_finish_def host_read_now_def Let_def)

lemma job_ok_leave: "job_ok st j \<Longrightarrow> wj_train j = None \<or> st \<noteq> StWireTx \<Longrightarrow> st' \<noteq> StWireTx \<Longrightarrow> job_ok st' j"
  by (auto simp: job_ok_def)

lemma finish_ok:
  assumes "host_ok L s" "\<not> on_wire (hb_state s)" "hb_pending_wire_done s = None"
  shows "host_ok L (host_finish E oc s)" "host_owner (host_finish E oc s) = Command"
proof -
  have "hb_state s \<noteq> StWireTx" using assms(2) by auto
  then show "host_ok L (host_finish E oc s)" "host_owner (host_finish E oc s) = Command"
    using assms job_ok_leave [of "hb_state s" "hb_wire_job s" StIdle] by (auto simp: host_ok_def host_owner_def)
qed

lemma wire_finish_ok:
  assumes "host_ok L s" "on_wire (hb_state s)" "wj_train (hb_wire_job s) = None"
  shows "host_ok L (wire_finish E s)" "host_owner (wire_finish E s) = WireOp"
  using assms job_ok_leave [of "hb_state s" "hb_wire_job s" StIdle]
  by (auto simp: host_ok_def host_owner_def elim: on_wire.elims)


subsection \<open>Starting\<close>

lemma start_tx_total:
  assumes "length (fbuf_bytes (hb_buf s)) = TX_BUF"
  shows "\<exists>ops. start_tx s = Some ((emit_io ops s)\<lparr> hb_state := StTransmitting \<rparr>)"
proof -
  have "footprint (fbuf_bytes (hb_buf s) ! 2) \<le> TX_BUF"
    using unat_less_256 [of "fbuf_bytes (hb_buf s) ! 2"] by (simp add: footprint_def TX_BUF_def)
  then show ?thesis
    using assms by (auto simp: start_tx_def frame_buf_frame_def slice_opt_def footprint_def)
qed

lemma start_txD:
  assumes "start_tx s = Some s'"
  shows "hb_state s' = StTransmitting \<and> hb_plan s' = hb_plan s \<and> hb_pending_done s' = hb_pending_done s \<and>
    hb_pending_wire_done s' = hb_pending_wire_done s \<and> hb_buf s' = hb_buf s \<and> hb_wire_job s' = hb_wire_job s \<and>
    hb_framer s' = hb_framer s"
  using assms by (auto simp: start_tx_def bind_eq_Some_conv)

definition exchange_frame :: "frame_id \<Rightarrow> inst \<Rightarrow> bytes \<Rightarrow> bytes" where
  "exchange_frame i inst payload =
     (let body = [i, len_for (of_nat (length payload)), inst] @ payload in 0 # body @ le16_bytes (osc_crc body))"

lemma load_frame_layout:
  assumes "length (fbuf_bytes fb) = TX_BUF" "length payload \<le> 252"
  shows "\<exists>fb'. load_frame fb i inst payload = Some fb' \<and> length (fbuf_bytes fb') = TX_BUF \<and>
    frame_buf_frame fb' = Some (exchange_frame i inst payload)"
proof -
  let ?p = "of_nat (length payload) :: u8"
  obtain a b c d r where bytes: "fbuf_bytes fb = a # b # c # d # r" "length r = 260"
    using length_6_Cons [of "fbuf_bytes fb"] assms(1) by (auto simp: TX_BUF_def)
  have up: "unat ?p = length payload" using assms(2) by (simp add: unat_of_nat8)
  have le: "?p \<le> MAX_PAYLOAD" using assms(2) by (simp add: word_le_nat_alt up MAX_PAYLOAD_def)
  have start: "fbuf_bytes (frame_buf_start fb i inst) = 0 # i # 0 # inst # r"
    by (simp add: frame_buf_start_def bytes(1) ALIGN_BYTE_def numeral_eq_Suc)
  have pm: "frame_buf_payload_mut (frame_buf_start fb i inst) = Some (take 258 r)"
    using bytes(2) by (simp add: frame_buf_payload_mut_def start slice_opt_def)
  define r' where "r' = put 0 (put 0 payload (take 258 r)) r"
  have r': "length r' = 260" "take (length payload) r' = payload"
    using bytes(2) assms(2) by (simp_all add: r'_def put_def)
  have wp: "fbuf_bytes (frame_buf_with_payload (frame_buf_start fb i inst) (put 0 payload (take 258 r))) = 0 # i # 0 # inst # r'"
    by (simp add: frame_buf_with_payload_def start put_def numeral_eq_Suc r'_def)
  define fb2 where "fb2 = (frame_buf_with_payload (frame_buf_start fb i inst) (put 0 payload (take 258 r)))
    \<lparr> fbuf_bytes := 0 # i # len_for ?p # inst # r' \<rparr>"
  have fin: "frame_buf_finish (frame_buf_with_payload (frame_buf_start fb i inst) (put 0 payload (take 258 r))) ?p = Some fb2"
    using le assms(2) r' by (simp add: frame_buf_finish_def wp up update_2 fb2_def)
  have fb2: "fbuf_bytes fb2 = 0 # i # len_for ?p # inst # r'" by (simp add: fb2_def)
  have room: "unat ?p + 2 \<le> length r'" using r' up assms(2) by simp
  note seal = frame_buf_seal_layout [OF fb2 refl le room]
  let ?fr = "0 # i # len_for ?p # inst # payload @ le16_bytes (osc_crc (0 # i # len_for ?p # inst # payload))"
  obtain fb3 where fb3: "frame_buf_seal fb2 = Some (fb3, ?fr)" "length (fbuf_bytes fb3) = TX_BUF"
    using seal r' up room by (simp add: TX_BUF_def)
  then have "frame_buf_frame fb3 = Some ?fr" by (auto simp: frame_buf_seal_def bind_eq_Some_conv)
  moreover have "load_frame fb i inst payload = Some fb3"
    using pm bytes(2) assms(2) fin fb3(1) by (simp add: load_frame_def)
  ultimately show ?thesis using fb3(2) by (simp add: exchange_frame_def Let_def osc_crc_leading_zero)
qed

lemma shape_derive_len: "shape_derive i inst payload = Some (Inr sh) \<Longrightarrow> length payload \<le> 252"
  by (erule shape_deriveD)


subsection \<open>Calls and the contract\<close>

datatype host_call =
    CallSubmit host_command | CallWireSend bytes | CallWireTrain bytes u16 u8 | CallWireBaud u32 | CallWireBurst bytes
  | CallWirePulse u16 | CallTxComplete | CallDeadline | CallPoll

datatype host_obs = ObAccepted owner | ObRefused submit_error | ObEvent host_event | ObSilent

definition result_obs :: "owner \<Rightarrow> submit_error + unit \<Rightarrow> host_obs" where
  "result_obs w r = (case r of Inr _ \<Rightarrow> ObAccepted w | Inl e \<Rightarrow> ObRefused e)"

fun host_call_step :: "'e host_env_scheme \<Rightarrow> host_call \<Rightarrow> host_bus \<Rightarrow> (host_bus \<times> host_obs) option" where
  "host_call_step E (CallSubmit cmd) s = map_option (map_prod id (result_obs Command)) (submit E s cmd)"
| "host_call_step E (CallWireSend bytes) s = map_option (map_prod id (result_obs WireOp)) (wire_send s bytes)"
| "host_call_step E (CallWireTrain bytes gap breaks) s =
     map_option (map_prod id (result_obs WireOp)) (wire_train E s bytes gap breaks)"
| "host_call_step E (CallWireBaud bps) s = Some (map_prod id (result_obs WireOp) (wire_baud E s bps))"
| "host_call_step E (CallWireBurst bytes) s = map_option (map_prod id (result_obs WireOp)) (wire_burst s bytes)"
| "host_call_step E (CallWirePulse us) s = Some (map_prod id (result_obs WireOp) (wire_pulse_low E s us))"
| "host_call_step E CallTxComplete s = map_option (\<lambda>s. (s, ObSilent)) (host_on_tx_complete E s)"
| "host_call_step E CallDeadline s = Some (host_on_deadline E s, ObSilent)"
| "host_call_step E CallPoll s = map_option (map_prod id (\<lambda>e. case e of None \<Rightarrow> ObSilent | Some e \<Rightarrow> ObEvent e)) (poll E s)"

inductive spec_step :: "owner \<Rightarrow> host_obs \<Rightarrow> owner \<Rightarrow> bool" where
  accept: "w \<noteq> Free \<Longrightarrow> spec_step Free (ObAccepted w) w"
| busy: "w \<noteq> Free \<Longrightarrow> spec_step w (ObRefused SeBusy) w"
| invalid: "spec_step Free (ObRefused (SeInvalid r)) Free"
| status: "spec_step Command (ObEvent (HeStatus k i n p)) Command"
| done_command: "spec_step Command (ObEvent (HeDone t)) Free"
| done_wire: "spec_step WireOp (ObEvent (HeWireDone k)) Free"
| silent: "spec_step w ObSilent w"

definition keeps :: "nat \<Rightarrow> host_bus \<Rightarrow> host_bus \<Rightarrow> host_obs \<Rightarrow> bool" where
  "keeps L s s' ob \<longleftrightarrow> host_ok L s' \<and> spec_step (host_owner s) ob (host_owner s')"

lemma idle_facts:
  assumes "host_ok L s" "\<not> host_busy s"
  shows "hb_state s = StIdle" "hb_pending_done s = None" "hb_pending_wire_done s = None" "hb_plan s = None" "host_owner s = Free"
    "wj_train (hb_wire_job s) = None"
  using assms by (simp_all add: host_ok_def host_busy_def host_owner_def job_ok_def)

lemma keeps_busy: "host_ok L s \<Longrightarrow> host_busy s \<Longrightarrow> keeps L s s (ObRefused SeBusy)"
  by (auto simp: keeps_def busy_owner intro: spec_step.intros)

lemma keeps_invalid: "host_ok L s \<Longrightarrow> \<not> host_busy s \<Longrightarrow> host_ok L s' \<Longrightarrow> host_owner s' = Free \<Longrightarrow> keeps L s s' (ObRefused (SeInvalid r))"
  using idle_facts(5) by (auto simp: keeps_def intro: spec_step.intros)

lemma keeps_accept: "host_ok L s \<Longrightarrow> \<not> host_busy s \<Longrightarrow> host_ok L s' \<Longrightarrow> host_owner s' = w \<Longrightarrow> w \<noteq> Free \<Longrightarrow> keeps L s s' (ObAccepted w)"
  using idle_facts(5) [of L s] by (auto simp: keeps_def intro: spec_step.intros)

lemma keeps_silent: "host_ok L s' \<Longrightarrow> host_owner s' = host_owner s \<Longrightarrow> keeps L s s' ObSilent"
  by (auto simp: keeps_def intro: spec_step.intros)

lemma submit_exchange_keeps:
  assumes "host_ok L s" "\<not> host_busy s" "host_env_ok E L" "submit_exchange E s i inst payload = Some (s', r)"
  shows "keeps L s s' (result_obs Command r)"
proof -
  note idle = idle_facts [OF assms(1,2)]
  obtain d where d: "shape_derive i inst payload = Some d" using assms(4) by (auto simp: submit_exchange_def bind_eq_Some_conv)
  show ?thesis
  proof (cases d)
    case (Inl reason)
    then show ?thesis
      using assms d idle by (auto simp: submit_exchange_def result_obs_def intro: keeps_invalid)
  next
    case (Inr plan)
    obtain fb where fb: "load_frame (hb_buf s) i inst payload = Some fb" "length (fbuf_bytes fb) = TX_BUF"
      using load_frame_layout [of "hb_buf s" payload i inst] shape_derive_len d Inr assms(1) by (auto simp: host_ok_def)
    have cur: "unat (he_cursor E n) < L" for n using assms(3) by (simp add: host_env_ok_def)
    have job: "st \<noteq> StWireTx \<Longrightarrow> job_ok st (hb_wire_job s)" for st
      using assms(1) idle(1) by (auto simp: host_ok_def job_ok_def)
    have "r = Inr () \<and> (hb_state s' = StPacing \<or> hb_state s' = StTransmitting) \<and> hb_pending_done s' = None \<and> hb_pending_wire_done s' = None \<and>
        hb_plan s' \<noteq> None \<and> hb_buf s' = fb \<and> hb_wire_job s' = hb_wire_job s \<and> hr_anchor (hb_framer s') < L"
      using assms(4) d Inr fb idle cur
      by (auto simp: submit_exchange_def host_read_cursor_def host_read_now_def host_framer_resync_def Let_def bind_eq_Some_conv
          split: option.splits if_splits dest!: start_txD)
    then show ?thesis
      using keeps_accept [OF assms(1,2), of s' Command] fb(2) job
      by (auto simp: host_ok_def host_owner_def result_obs_def)
  qed
qed


lemma submit_keeps:
  assumes "host_ok L s" "host_env_ok E L" "submit E s cmd = Some (s', r)"
  shows "keeps L s s' (result_obs Command r)"
proof (cases "host_busy s")
  case True
  then show ?thesis using assms by (auto simp: submit_def result_obs_def intro: keeps_busy)
next
  case False
  note idle = idle_facts [OF assms(1) False]
  define s0 where "s0 = s\<lparr> hb_evidence := evidence_default \<rparr>"
  have s0: "host_ok L s0" "\<not> host_busy s0" "host_owner s0 = host_owner s"
    using assms(1) False by (simp_all add: s0_def host_ok_def host_busy_def host_owner_def)
  have fin: "host_ok L (host_finish E oc t) \<and> host_owner (host_finish E oc t) = Command"
    if "host_ok L t" "hb_state t = StIdle" "hb_pending_wire_done t = None" for t oc
    using finish_ok [OF that(1), of E oc] that by simp
  show ?thesis
  proof (cases cmd)
    case (CmdExchange i inst payload)
    then have "submit_exchange E s0 i inst payload = Some (s', r)" using assms(3) False by (simp add: submit_def s0_def)
    then show ?thesis using submit_exchange_keeps [OF s0(1,2) assms(2)] s0(3) by (simp add: keeps_def)
  next
    case CmdRescue
    then have "r = Inr ()" "host_ok L s'" "host_owner s' = Command"
      using assms(1,3) False idle
      by (auto simp: submit_def host_read_now_def Let_def host_ok_def host_owner_def job_ok_def)
    then show ?thesis using keeps_accept [OF assms(1) False] by (simp add: result_obs_def)
  next
    case (CmdHostBaud rate)
    let ?t = "host_pace E ((emit_io [IoBaud rate] s0)\<lparr> hb_rate := rate \<rparr>)"
    have "s' = host_finish E OcComplete ?t" "r = Inr ()" using assms(3) False CmdHostBaud by (auto simp: submit_def s0_def)
    moreover have "host_ok L ?t" "hb_state ?t = StIdle" "hb_pending_wire_done ?t = None"
      using s0(1) idle by (simp_all add: host_ok_def s0_def)
    ultimately show ?thesis using keeps_accept [OF assms(1) False] fin [of ?t OcComplete] by (simp add: result_obs_def)
  next
    case (CmdSetResponseDeadline us)
    let ?t = "s0\<lparr> hb_response_deadline_us := us \<rparr>"
    have "s' = host_finish E OcComplete ?t" "r = Inr ()" using assms(3) False CmdSetResponseDeadline by (auto simp: submit_def s0_def)
    moreover have "host_ok L ?t" "hb_state ?t = StIdle" "hb_pending_wire_done ?t = None"
      using s0(1) idle by (simp_all add: host_ok_def s0_def)
    ultimately show ?thesis using keeps_accept [OF assms(1) False] fin [of ?t OcComplete] by (simp add: result_obs_def)
  qed
qed

subsection \<open>Wire operations\<close>

lemma wire_start_ok:
  assumes "host_ok L s" "\<not> host_busy s" "length bytes \<le> WIRE_CAP" "wire_start bytes train s = Some s'"
  shows "host_ok L s'" "host_owner s' = WireOp"
  using assms idle_facts [OF assms(1,2)]
  by (auto simp: wire_start_def host_ok_def job_ok_def Let_def bind_eq_Some_conv host_owner_def slice_opt_def split: if_splits)

lemma wire_send_keeps:
  assumes "host_ok L s" "wire_send s bytes = Some (s', r)"
  shows "keeps L s s' (result_obs WireOp r)"
  using assms idle_facts [OF assms(1)] wire_start_ok [OF assms(1), of bytes]
  by (auto simp: wire_send_def result_obs_def bind_eq_Some_conv not_less split: if_splits intro!: keeps_busy keeps_invalid keeps_accept)

lemma wire_train_keeps:
  assumes "host_ok L s" "wire_train E s bytes gap breaks = Some (s', r)"
  shows "keeps L s s' (result_obs WireOp r)"
  using assms idle_facts [OF assms(1)] wire_start_ok [OF assms(1), of bytes]
  by (auto simp: wire_train_def result_obs_def bind_eq_Some_conv not_less split: if_splits intro!: keeps_busy keeps_invalid keeps_accept)

lemma wire_baud_keeps:
  assumes "host_ok L s" "wire_baud E s bps = (s', r)"
  shows "keeps L s s' (result_obs WireOp r)"
proof (cases "host_busy s \<or> bps = 0")
  case True
  then show ?thesis using assms idle_facts [OF assms(1)]
    by (auto simp: wire_baud_def result_obs_def split: if_splits intro!: keeps_busy keeps_invalid)
next
  case False
  then have "r = Inr ()" "host_ok L s'" "host_owner s' = WireOp"
    using assms idle_facts [OF assms(1)]
    by (auto simp: wire_baud_def host_read_now_def Let_def host_ok_def host_owner_def)
  then show ?thesis using keeps_accept [OF assms(1)] False by (simp add: result_obs_def)
qed

lemma wire_pulse_keeps:
  assumes "host_ok L s" "wire_pulse_low E s us = (s', r)"
  shows "keeps L s s' (result_obs WireOp r)"
proof (cases "host_busy s \<or> us = 0")
  case True
  then show ?thesis using assms idle_facts [OF assms(1)]
    by (auto simp: wire_pulse_low_def result_obs_def split: if_splits intro!: keeps_busy keeps_invalid)
next
  case False
  then have "r = Inr ()" "host_ok L s'" "host_owner s' = WireOp"
    using assms idle_facts [OF assms(1)]
    by (auto simp: wire_pulse_low_def host_read_now_def Let_def host_ok_def host_owner_def job_ok_def)
  then show ?thesis using keeps_accept [OF assms(1)] False by (simp add: result_obs_def)
qed


lemma burst_step:
  assumes "burst_check st at \<noteq> None" "at < length st"
  shows "unat (st ! at) \<noteq> 0" "at + 1 + unat (st ! at) \<le> length st" "burst_check st (at + 1 + unat (st ! at)) \<noteq> None"
  using assms by (auto simp: burst_check.simps [of st at] Let_def split: if_splits)

lemma wire_next_ok:
  assumes "burst_check (take (wj_len (hb_wire_job s)) (wj_buf (hb_wire_job s))) (wj_cursor (hb_wire_job s)) \<noteq> None"
    "wj_cursor (hb_wire_job s) < wj_len (hb_wire_job s)" "wj_len (hb_wire_job s) \<le> length (wj_buf (hb_wire_job s))"
  shows "\<exists>ops cur. wire_next_frame s = Some (emit_io ops (s\<lparr> hb_wire_job := (hb_wire_job s)\<lparr> wj_cursor := cur \<rparr> \<rparr>)) \<and>
    burst_check (take (wj_len (hb_wire_job s)) (wj_buf (hb_wire_job s))) cur \<noteq> None"
proof -
  let ?st = "take (wj_len (hb_wire_job s)) (wj_buf (hb_wire_job s))" and ?at = "wj_cursor (hb_wire_job s)"
  have at: "?at < length ?st" "?st ! ?at = wj_buf (hb_wire_job s) ! ?at" using assms(2,3) by simp_all
  note st = burst_step [OF assms(1) at(1), unfolded at(2)]
  have "?at + 1 + unat (wj_buf (hb_wire_job s) ! ?at) \<le> length (wj_buf (hb_wire_job s))" using st(2) by simp
  then show ?thesis
    using st(3) assms(2,3) by (auto simp: wire_next_frame_def Let_def nth_opt_Some slice_opt_def)
qed

lemma wire_burst_keeps:
  assumes "host_ok L s" "wire_burst s stream = Some (s', r)"
  shows "keeps L s s' (result_obs WireOp r)"
proof (cases "host_busy s \<or> WIRE_CAP < length stream \<or> burst_check stream 0 = None \<or> burst_check stream 0 = Some 0")
  case True
  then show ?thesis using assms idle_facts [OF assms(1)]
    by (auto simp: wire_burst_def result_obs_def split: if_splits intro!: keeps_busy keeps_invalid)
next
  case False
  note idle = idle_facts [OF assms(1)]
  have ne: "0 < length stream" using False by (cases stream) (auto simp: burst_check.simps [of "[]"])
  have buf: "length (wj_buf (hb_wire_job s)) = WIRE_CAP" using assms(1) by (simp add: host_ok_def job_ok_def)
  define j where "j = (hb_wire_job s)\<lparr> wj_buf := put 0 stream (wj_buf (hb_wire_job s)), wj_len := length stream,
      wj_cursor := 0, wj_mode := MdStream \<rparr>"
  define t where "t = emit_io [IoClaim] (s\<lparr> hb_wire_job := j \<rparr>)"
  have j: "take (wj_len j) (wj_buf j) = stream" "wj_cursor j = 0" "length (wj_buf j) = WIRE_CAP" "wj_len j = length stream"
    using False buf by (simp_all add: j_def put_0_take)
  obtain ops cur where n: "wire_next_frame t = Some (emit_io ops (t\<lparr> hb_wire_job := j\<lparr> wj_cursor := cur \<rparr> \<rparr>))"
    "burst_check stream cur \<noteq> None"
    using wire_next_ok [of t] j ne False by (auto simp: t_def)
  have res: "s' = (emit_io ops (t\<lparr> hb_wire_job := j\<lparr> wj_cursor := cur \<rparr> \<rparr>))\<lparr> hb_state := StWireTx \<rparr>" "r = Inr ()"
    using assms(2) False n(1) by (auto simp: wire_burst_def Let_def j_def [symmetric] t_def [symmetric])
  have "job_ok StWireTx (j\<lparr> wj_cursor := cur \<rparr>)"
    using j n(2) False idle(6) by (auto simp: job_ok_def j_def)
  then have "host_ok L s'" "host_owner s' = WireOp"
    using assms(1) idle False res(1) by (auto simp: host_ok_def host_owner_def t_def)
  then show ?thesis using keeps_accept [OF assms(1)] False res(2) by (simp add: result_obs_def)
qed

subsection \<open>Interrupts and polls\<close>

lemma wire_advance_ok:
  assumes "host_ok L s" "hb_state s = StWireTx"
  shows "\<exists>s'. wire_advance E s = Some s' \<and> host_ok L s' \<and> host_owner s' = WireOp"
proof (cases "wj_train (hb_wire_job s)")
  case (Some tr)
  obtain left gap where tr: "tr = (left, gap)" by (cases tr)
  show ?thesis
    using assms Some tr
    by (auto simp: wire_advance_def host_read_now_def Let_def host_ok_def host_owner_def job_ok_def)
next
  case None
  show ?thesis
  proof (cases "wj_mode (hb_wire_job s) = MdStream \<and> wj_cursor (hb_wire_job s) < wj_len (hb_wire_job s)")
    case True
    then obtain ops cur where "wire_next_frame s = Some (emit_io ops (s\<lparr> hb_wire_job := (hb_wire_job s)\<lparr> wj_cursor := cur \<rparr> \<rparr>))"
      "burst_check (take (wj_len (hb_wire_job s)) (wj_buf (hb_wire_job s))) cur \<noteq> None"
      using wire_next_ok [of s] assms by (auto simp: host_ok_def job_ok_def)
    then show ?thesis using assms None True by (auto simp: wire_advance_def host_ok_def host_owner_def job_ok_def)
  next
    case False
    then show ?thesis using None wire_finish_ok [OF assms(1), of E] assms(2) by (auto simp: wire_advance_def)
  qed
qed

lemma tx_complete_ok:
  assumes "host_ok L s"
  shows "\<exists>s'. host_on_tx_complete E s = Some s' \<and> keeps L s s' ObSilent"
proof (cases "hb_state s = StWireTx")
  case True
  then have "host_owner s = WireOp" by (simp add: host_owner_def)
  then show ?thesis using True wire_advance_ok [OF assms True, of E] by (auto simp: host_on_tx_complete_def intro!: keeps_silent)
next
  case False
  show ?thesis
  proof (cases "hb_state s = StTransmitting")
    case True
    then obtain plan where plan: "hb_plan s = Some plan" using assms by (auto simp: host_ok_def)
    have own: "host_owner s = Command" "hb_pending_wire_done s = None" "hb_pending_done s = None"
      using True assms by (auto simp: host_owner_def host_ok_def)
    have job: "st \<noteq> StWireTx \<Longrightarrow> job_ok st (hb_wire_job s)" for st using assms True by (auto simp: host_ok_def job_ok_def)
    have rel: "host_ok L (emit_io ops s)" for ops using assms by (simp add: host_ok_def)
    have "\<exists>s'. host_on_tx_complete E s = Some s' \<and> host_ok L s' \<and> host_owner s' = Command"
    proof (cases "sh_train plan")
      case None
      then show ?thesis
        using plan True own job assms finish_ok [OF rel [of "[IoRelease]"], of E OcSent]
        by (auto simp: host_on_tx_complete_def host_read_now_def host_read_cursor_def Let_def host_ok_def host_owner_def)
    next
      case (Some tr)
      then show ?thesis
        using plan True own job assms
        by (cases tr) (auto simp: host_on_tx_complete_def host_read_now_def Let_def host_ok_def host_owner_def)
    qed
    then show ?thesis using own(1) keeps_silent by metis
  qed (use False assms in \<open>auto simp: host_on_tx_complete_def intro: keeps_silent\<close>)
qed

lemma deadline_ok:
  assumes "host_ok L s"
  shows "keeps L s (host_on_deadline E s) ObSilent"
proof (cases "hb_state s")
  case (StTraining left gap)
  have "host_ok L (emit_io ops s)" for ops using assms by (simp add: host_ok_def)
  note fin = finish_ok [OF this, of "[IoBreak, IoRelease]" E OcSent]
  have io: "emit_io [IoRelease] (emit_io [IoBreak] s) = emit_io [IoBreak, IoRelease] s" by (simp add: emit_io_def)
  show ?thesis
    using assms StTraining fin
    by (intro keeps_silent) (auto simp: host_on_deadline_def io train_next_def Let_def host_ok_def host_owner_def job_ok_def)
next
  case (StWireTrain left gap)
  have "host_ok L (emit_io ops s)" for ops using assms by (simp add: host_ok_def)
  note fin = wire_finish_ok [OF this, of "[IoBreak]" E]
  show ?thesis
    using assms StWireTrain fin
    by (intro keeps_silent) (auto simp: host_on_deadline_def train_next_def Let_def host_ok_def host_owner_def job_ok_def)
qed (use assms in \<open>auto simp: host_on_deadline_def intro!: keeps_silent\<close>)


definition awaiting :: "nat \<Rightarrow> host_bus \<Rightarrow> bool" where
  "awaiting L s \<longleftrightarrow> host_ok L s \<and> hb_state s = StAwaiting"

lemma awaiting_update:
  assumes "awaiting L s" "hr_anchor fm < L"
  shows "awaiting L (s\<lparr> hb_sample := n, hb_framer := fm \<rparr>)"
    "awaiting L (await_extend now (s\<lparr> hb_sample := n, hb_framer := fm, hb_evidence := e \<rparr>))"
  using assms by (auto simp: awaiting_def host_ok_def await_extend_def)

lemma status_ok:
  assumes "awaiting L s"
  shows "host_ok L (await_status expected now pace_at len cursor s) \<and> host_owner (await_status expected now pace_at len cursor s) = Command"
  using assms
  by (auto simp: awaiting_def host_ok_def host_owner_def await_status_def await_complete_def await_extend_def Let_def job_ok_def)

lemma step_anchor:
  assumes "host_env_ok E L" "host_framer_step fm (he_ring E m) (unat (he_cursor E n)) = Some (fm', st)" "hr_anchor fm < L"
  shows "hr_anchor fm' < L"
proof -
  have e: "ring_ok (he_ring E m)" "length (he_ring E m) = L" "unat (he_cursor E n) < L" using assms(1) by (simp_all add: host_env_ok_def)
  obtain w where "hr_anchor fm' = w mod L"
    using host_step_refines [of "he_ring E m" fm "unat (he_cursor E n)"] e assms(2,3) by (auto simp: step_ok_def)
  moreover have "0 < L" using assms(3) by linarith
  ultimately show ?thesis by simp
qed

definition await_post :: "nat \<Rightarrow> host_bus \<times> host_frame option \<Rightarrow> bool" where
  "await_post L y \<longleftrightarrow> host_ok L (fst y) \<and> host_owner (fst y) = Command \<and> (snd y = None \<longrightarrow> hb_state (fst y) = StAwaiting)"

lemma await_loop_ok:
  assumes "await_loop E expected now pace_at len s = Some y"
  shows "awaiting L s \<longrightarrow> host_env_ok E L \<longrightarrow> await_post L y"
proof (rule await_loop.raw_induct [where P = "\<lambda>E _ _ _ _ s y. awaiting L s \<longrightarrow> host_env_ok E L \<longrightarrow> await_post L y", OF _ assms], intro impI)
  fix rec :: "'c host_env_scheme \<Rightarrow> u8 option \<Rightarrow> u32 \<Rightarrow> u32 \<Rightarrow> nat \<Rightarrow> host_bus \<Rightarrow> (host_bus \<times> host_frame option) option"
    and E :: "'c host_env_scheme" and expected now pace_at len s y
  assume IH: "\<And>E expected now pace_at len s y. rec E expected now pace_at len s = Some y \<Longrightarrow> awaiting L s \<longrightarrow> host_env_ok E L \<longrightarrow> await_post L y"
    and body: "(let (cursor, s) = host_read_cursor E s
      in do { (fm, step) \<leftarrow> host_framer_step (hb_framer s) (host_ring E s) (unat cursor);
              let s = s\<lparr> hb_framer := fm \<rparr>;
              case step of
                HsFrame f \<Rightarrow>
                  if inst_is_status (hf_inst f)
                  then Some (await_status expected now pace_at len cursor s, Some f)
                  else rec E expected now pace_at len
                         (await_extend now (s\<lparr> hb_evidence := note_garble (of_nat (fb_len (hf_payload f)) + 6) (hb_evidence s) \<rparr>))
              | HsGarble n \<Rightarrow>
                  rec E expected now pace_at len (await_extend now (s\<lparr> hb_evidence := note_garble n (hb_evidence s) \<rparr>))
              | _ \<Rightarrow> Some (s, None) }) = Some y"
    and aw: "awaiting L s" and env: "host_env_ok E L"
  obtain fm step where st: "host_framer_step (hb_framer s) (he_ring E (hb_sample s + 1)) (unat (he_cursor E (hb_sample s))) = Some (fm, step)"
    using body by (auto simp: host_read_cursor_def host_ring_def Let_def bind_eq_Some_conv)
  have fm: "hr_anchor fm < L" using step_anchor [OF env st] aw by (simp add: awaiting_def host_ok_def)
  note up = awaiting_update [OF aw fm]
  show "await_post L y"
  proof (cases step)
    case (HsFrame f)
    then show ?thesis
      using body st up(1) [where n = "hb_sample s + 1"] up(2) [where n = "hb_sample s + 1"] IH env status_ok
      by (auto simp: host_read_cursor_def host_ring_def Let_def await_post_def split: if_splits)
  next
    case (HsGarble n)
    then show ?thesis
      using body st up(2) [where n = "hb_sample s + 1"] IH env by (auto simp: host_read_cursor_def host_ring_def Let_def)
  qed (use body st up(1) [where n = "hb_sample s + 1"] in \<open>auto simp: host_read_cursor_def host_ring_def Let_def await_post_def awaiting_def host_owner_def host_ok_def\<close>)
qed


abbreviation event_obs :: "host_event option \<Rightarrow> host_obs" where
  "event_obs e \<equiv> case e of None \<Rightarrow> ObSilent | Some e \<Rightarrow> ObEvent e"

lemma take_done_keeps:
  assumes "host_ok L t" "host_owner t = host_owner s" "hb_pending_wire_done t = None"
  shows "keeps L s (fst (take_done t)) (event_obs (snd (take_done t)))"
proof (cases "hb_pending_done t")
  case None
  then have "host_ok L (t\<lparr> hb_pending_done := None \<rparr>)" "host_owner (t\<lparr> hb_pending_done := None \<rparr>) = host_owner t"
    using assms(1) by (simp_all add: host_ok_def host_owner_def)
  then show ?thesis using None assms(2) by (auto simp: take_done_def intro: keeps_silent)
next
  case (Some tm)
  then have "host_ok L (t\<lparr> hb_pending_done := None \<rparr>)" "host_owner s = Command" "host_owner (t\<lparr> hb_pending_done := None \<rparr>) = Free"
    using assms by (auto simp: host_ok_def host_owner_def split: if_splits)
  then show ?thesis using Some by (auto simp: take_done_def keeps_def intro: spec_step.intros)
qed

lemma await_quiet_ok:
  assumes "awaiting L s"
  shows "host_ok L (await_quiet E plan now len s) \<and> host_owner (await_quiet E plan now len s) = Command \<and>
    hb_pending_wire_done (await_quiet E plan now len s) = None"
proof -
  let ?c = "he_cursor E (hb_sample s)"
  define t where "t = s\<lparr> hb_sample := hb_sample s + 1, hb_last_cursor := ?c \<rparr>"
  have t: "awaiting L t" using assms by (auto simp: t_def awaiting_def host_ok_def)
  have own: "host_owner t' = Command" "hb_pending_wire_done t' = None" if "awaiting L t'" for t'
    using that by (auto simp: awaiting_def host_ok_def host_owner_def)
  have ext: "awaiting L (await_extend now t)" using t by (auto simp: awaiting_def host_ok_def await_extend_def)
  have ev: "awaiting L (t\<lparr> hb_compare := None, hb_evidence := e \<rparr>)" "awaiting L (t\<lparr> hb_compare := None \<rparr>)" for e
    using t by (auto simp: awaiting_def host_ok_def)
  have fin: "host_ok L (host_finish E oc t') \<and> host_owner (host_finish E oc t') = Command \<and> hb_pending_wire_done (host_finish E oc t') = None"
    if "awaiting L t'" for t' oc
    using finish_ok [of L t' E oc] own(2) [OF that] that by (auto simp: awaiting_def)
  let ?left = "unresolved (hr_anchor (hb_framer t)) (unat ?c) len"
  have eq: "await_quiet E plan now len s =
    (if ?c \<noteq> hb_last_cursor s then await_extend now t
     else if tick_reached now (hb_deadline_at t)
     then host_finish E (if sh_replies plan = RpCollect then OcComplete else OcTimeout (hb_got t))
            (if 0 < ?left then t\<lparr> hb_compare := None, hb_evidence := note_garble ?left (hb_evidence t) \<rparr> else t\<lparr> hb_compare := None \<rparr>)
     else t)"
    by (simp add: await_quiet_def host_read_cursor_def Let_def t_def)
  have good: "host_ok L t' \<and> host_owner t' = Command \<and> hb_pending_wire_done t' = None" if "awaiting L t'" for t'
    using own [OF that] that by (simp add: awaiting_def)
  show ?thesis unfolding eq using good [OF t] good [OF ext] fin [OF ev(1)] fin [OF ev(2)] by presburger
qed

lemma poll_await_keeps:
  assumes "awaiting L s" "host_env_ok E L" "poll_await E now s = Some (s', e)"
  shows "keeps L s s' (event_obs e)"
proof -
  obtain plan where plan: "hb_plan s = Some plan" using assms(1) by (auto simp: awaiting_def host_ok_def)
  have own: "host_owner s = Command" using assms(1) by (auto simp: awaiting_def host_ok_def host_owner_def)
  let ?pace = "now + STARVE_HORIZON_BYTE_TIMES * byte_ticks E s"
  obtain t r where l: "await_loop E (expected_replies (sh_replies plan)) now ?pace (length (host_ring E s)) s = Some (t, r)"
    using assms(3) plan by (auto simp: poll_await_def Let_def bind_eq_Some_conv)
  have post: "await_post L (t, r)" using await_loop_ok [OF l, of L] assms(1,2) by blast
  show ?thesis
  proof (cases r)
    case (Some f)
    then have "s' = t" "\<exists>k i n p. e = Some (HeStatus k i n p)"
      using assms(3) plan l by (auto simp: poll_await_def Let_def bind_eq_Some_conv)
    then show ?thesis using post own by (auto simp: await_post_def keeps_def intro: spec_step.intros)
  next
    case None
    then have "(s', e) = take_done (await_quiet E plan now (length (host_ring E s)) t)"
      using assms(3) plan l by (auto simp: poll_await_def Let_def split: if_splits)
    then have "s' = fst (take_done (await_quiet E plan now (length (host_ring E s)) t))"
      "e = snd (take_done (await_quiet E plan now (length (host_ring E s)) t))" by (metis fst_conv, metis snd_conv)
    moreover have "awaiting L t" using post None by (simp add: await_post_def awaiting_def)
    ultimately show ?thesis using take_done_keeps [of L _ s] await_quiet_ok [of L t E plan now] own by auto
  qed
qed

lemma poll_keeps:
  assumes "host_ok L s" "host_env_ok E L" "poll E s = Some (s', e)"
  shows "keeps L s s' (event_obs e)"
proof (cases "hb_pending_done s")
  case (Some t)
  then have r: "s' = s\<lparr> hb_pending_done := None \<rparr>" "e = Some (HeDone t)" using assms(3) by (auto simp: poll_def)
  have "host_owner s = Command" "host_owner s' = Free" "host_ok L s'"
    using assms(1) Some unfolding r(1) by (auto simp: host_ok_def host_owner_def)
  then show ?thesis using r(2) by (auto simp: keeps_def intro: spec_step.intros)
next
  case nd: None
  show ?thesis
  proof (cases "hb_pending_wire_done s")
    case (Some k)
    then have r: "s' = s\<lparr> hb_pending_wire_done := None \<rparr>" "e = Some (HeWireDone k)" using assms(3) nd by (auto simp: poll_def)
    have "host_owner s = WireOp" "host_owner s' = Free" "host_ok L s'"
      using assms(1) Some nd unfolding r(1) by (auto simp: host_ok_def host_owner_def)
    then show ?thesis using r(2) by (auto simp: keeps_def intro: spec_step.intros)
  next
    case nw: None
    define now where "now = he_now E (hb_sample s)"
    define t where "t = s\<lparr> hb_sample := hb_sample s + 1 \<rparr>"
    have t: "host_ok L t" "host_owner t = host_owner s" "hb_pending_wire_done t = None" "hb_pending_done t = None" "hb_state t = hb_state s"
      using assms(1) nd nw by (simp_all add: t_def host_ok_def host_owner_def)
    note def = assms(3) [unfolded poll_def nd nw host_read_now_def t_def [symmetric] now_def [symmetric] option.case Let_def prod.case]
    have via: "keeps L s s' (event_obs e)"
      if "host_ok L u" "host_owner u = host_owner s" "hb_pending_wire_done u = None" "Some (s', e) = Some (take_done u)" for u
      using take_done_keeps [OF that(1,2,3)] that(4) by (metis fst_conv snd_conv option.inject)
    show ?thesis
    proof (cases "hb_state t")
      case StAwaiting
      then have "poll_await E now t = Some (s', e)" using def by simp
      then have "keeps L t s' (event_obs e)" by (rule poll_await_keeps [rotated 2]) (use t StAwaiting assms(2) in \<open>simp_all add: awaiting_def\<close>)
      then show ?thesis using t(2) by (simp add: keeps_def)
    next
      case StPacing
      show ?thesis
      proof (cases "tick_reached now (hb_deadline_at t)")
        case True
        obtain u where u: "start_tx t = Some u" using start_tx_total [of t] t(1) by (auto simp: host_ok_def)
        have "host_ok L u" "host_owner u = host_owner s" "hb_pending_wire_done u = None"
          using start_txD [OF u] t StPacing by (auto simp: host_ok_def host_owner_def job_ok_def)
        then show ?thesis using via [of u] def u True StPacing by simp
      next
        case False
        then show ?thesis using via [of t] def StPacing t by simp
      qed
    next
      case StRescueHold
      let ?u = "host_pace E ((emit_io [IoRelease, IoBaud baud_RESCUE] t)\<lparr> hb_rate := baud_RESCUE \<rparr>)"
      have "host_ok L ?u" using t(1) by (simp add: host_ok_def)
      then have fin: "host_ok L (host_finish E OcSent ?u)" "host_owner (host_finish E OcSent ?u) = host_owner s"
        using finish_ok [of L ?u E OcSent] StRescueHold t by (auto simp: host_owner_def)
      show ?thesis
        using via [of "host_finish E OcSent ?u"] via [of t] def StRescueHold t fin by (auto split: if_splits)
    next
      case StWirePulse
      show ?thesis
      proof (cases "tick_reached now (hb_deadline_at t)")
        case True
        obtain k where k: "hb_pending_wire_done (wire_finish E t) = Some k" by (meson wire_finish_fields(4))
        have r: "s' = (wire_finish E t)\<lparr> hb_pending_wire_done := None \<rparr>" "e = Some (HeWireDone k)"
          using def StWirePulse True k by auto
        have "host_owner s = WireOp" using StWirePulse t(2,5) by (simp add: host_owner_def)
        moreover have "wj_train (hb_wire_job t) = None" using t(1) StWirePulse by (auto simp: host_ok_def job_ok_def)
        then have "host_ok L (wire_finish E t)" by (intro wire_finish_ok(1) [OF t(1)]) (use StWirePulse in simp)
        then have "host_ok L s'" "host_owner s' = Free" unfolding r(1) using t(4) by (auto simp: host_ok_def host_owner_def)
        ultimately show ?thesis using r(2) by (auto simp: keeps_def intro: spec_step.intros)
      next
        case False
        then show ?thesis using via [of t] def StWirePulse t by simp
      qed
    qed (use via [of t] def t in simp_all)
  qed
qed

lemma call_keeps:
  assumes "host_ok L s" "host_env_ok E L" "host_call_step E c s = Some (s', ob)"
  shows "keeps L s s' ob"
proof (cases c)
  case CallTxComplete
  then show ?thesis using tx_complete_ok [OF assms(1), of E] assms(3) by auto
next
  case CallDeadline
  then show ?thesis using deadline_ok [OF assms(1), of E] assms(3) by auto
qed (use assms submit_keeps wire_send_keeps wire_train_keeps wire_baud_keeps wire_burst_keeps wire_pulse_keeps poll_keeps in \<open>auto simp: map_prod_def split: prod.splits\<close>)


subsection \<open>Every call returns\<close>

text \<open>The ring and its cursor do not move over the next \<open>n\<close> reads.\<close>

definition calm :: "'e host_env_scheme \<Rightarrow> nat \<Rightarrow> nat \<Rightarrow> bool" where
  "calm E n m \<longleftrightarrow> (\<exists>ring c. \<forall>k. n \<le> k \<and> k \<le> n + m \<longrightarrow> he_ring E k = ring \<and> he_cursor E k = c)"

lemma clean_frame_length:
  assumes "clean_frame fr"
  shows "6 \<le> length fr"
proof -
  have "3 \<le> fr ! 2" "length fr = 3 + unat (fr ! 2)" using assms by (simp_all add: clean_frame_def footprint_def)
  then show ?thesis using word_le_nat_alt [of 3 "fr ! 2"] by simp
qed

lemma reports_payload:
  assumes "reports ring (HsFrame f) (WFrame fr)" "clean_frame fr"
  shows "payload_view ring (hf_payload_pos f) (fb_len (hf_payload f)) = Some (hf_payload f)"
  using assms clean_frame_length [OF assms(2)] by (simp add: fb_len_view)

lemma await_loop_total:
  assumes "awaiting L s" "host_env_ok E L" "\<forall>k. hb_sample s \<le> k \<and> k \<le> hb_sample s + m + 1 \<longrightarrow> he_ring E k = ring \<and> he_cursor E k = c"
    "length (unconsumed (hb_framer s) ring (unat c)) \<le> m"
  shows "\<exists>t r. await_loop E expected now pace_at len s = Some (t, r) \<and>
    (case r of None \<Rightarrow> True
     | Some f \<Rightarrow> payload_view (host_ring E t) (hf_payload_pos f) (fb_len (hf_payload f)) \<noteq> None)"
  using assms
proof (induction m arbitrary: s rule: less_induct)
  case (less m)
  have here: "he_ring E (hb_sample s + 1) = ring" "he_cursor E (hb_sample s) = c" using less.prems(3) by simp_all
  have env: "ring_ok ring" "length ring = L" "unat c < L" using less.prems(2) here unfolding host_env_ok_def by metis+
  have a: "hr_anchor (hb_framer s) < length ring" using less.prems(1) env(2) by (simp add: awaiting_def host_ok_def)
  define w where "w = unconsumed (hb_framer s) ring (unat c)"
  obtain fm step where st: "host_framer_step (hb_framer s) ring (unat c) = Some (fm, step)" "reports ring step (walk w)"
    "hr_anchor fm = (hr_anchor (hb_framer s) + consumed (walk w)) mod length ring"
    using host_step_refines [OF env(1) a, of "unat c"] env unfolding step_ok_def w_def by auto
  have fmL: "hr_anchor fm < L" using step_anchor [OF less.prems(2), of "hb_framer s" "hb_sample s + 1" "hb_sample s"] st(1) here a env(2) by simp
  let ?t = "s\<lparr> hb_sample := hb_sample s + 1, hb_framer := fm \<rparr>"
  have more: "\<exists>t r. await_loop E expected now pace_at len (await_extend now (?t\<lparr> hb_evidence := e \<rparr>)) = Some (t, r) \<and>
      (case r of None \<Rightarrow> True | Some f \<Rightarrow> payload_view (host_ring E t) (hf_payload_pos f) (fb_len (hf_payload f)) \<noteq> None)"
    if stop: "walk w \<noteq> WIdle" "walk w \<noteq> WPartial" for e
  proof -
    have p: "0 < consumed (walk w)" "consumed (walk w) \<le> length w" using walk_progress [OF stop] by simp_all
    have "unconsumed fm ring (unat c) = drop (consumed (walk w)) w"
      unfolding w_def by (rule unconsumed_advance) (use a env st(3) p in \<open>simp_all add: w_def\<close>)
    then have l: "length (unconsumed fm ring (unat c)) \<le> m - 1" "m - 1 < m" using p less.prems(4) unfolding w_def [symmetric] by simp_all
    let ?u = "await_extend now (?t\<lparr> hb_evidence := e \<rparr>)"
    have u: "hb_sample ?u = hb_sample s + 1" "hb_framer ?u = fm" by (simp_all add: await_extend_def host_arm_def)
    have "awaiting L ?u" using awaiting_update(2) [OF less.prems(1) fmL, where n = "hb_sample s + 1"] by simp
    then show ?thesis
      using less.IH [OF l(2), of ?u] less.prems(2,3) l unfolding u by simp
  qed
  have turn: "await_loop E expected now pace_at len s =
      (case step of
         HsFrame f \<Rightarrow>
           if inst_is_status (hf_inst f) then Some (await_status expected now pace_at len c ?t, Some f)
           else await_loop E expected now pace_at len
                  (await_extend now (?t\<lparr> hb_evidence := note_garble (of_nat (fb_len (hf_payload f)) + 6) (hb_evidence s) \<rparr>))
       | HsGarble n \<Rightarrow> await_loop E expected now pace_at len (await_extend now (?t\<lparr> hb_evidence := note_garble n (hb_evidence s) \<rparr>))
       | _ \<Rightarrow> Some (?t, None))"
    by (subst await_loop.simps) (use st(1) here in \<open>simp add: host_read_cursor_def host_ring_def Let_def split: host_step.split\<close>)
  have ring: "host_ring E (await_status expected now pace_at len c ?t) = ring"
    using here by (simp add: host_ring_def await_status_def await_complete_def await_extend_def host_arm_def Let_def)
  show ?case
  proof (cases step)
    case (HsFrame f)
    then obtain fr where wk: "walk w = WFrame fr" using st(2) by (cases "walk w") auto
    then have "payload_view ring (hf_payload_pos f) (fb_len (hf_payload f)) \<noteq> None"
      using reports_payload [of ring f fr] st(2) HsFrame walk_FrameD(1) [OF wk] by simp
    then show ?thesis using more wk turn HsFrame ring by (auto split: if_splits)
  next
    case (HsGarble n)
    then have "\<exists>k. walk w = WGarble k" using st(2) by (cases "walk w") auto
    then show ?thesis using more turn HsGarble by auto
  qed (use turn in simp_all)
qed

lemma poll_total:
  assumes "host_ok L s" "host_env_ok E L" "calm E (hb_sample s) (L + 2)"
  shows "\<exists>s' e. poll E s = Some (s', e)"
proof (cases "hb_pending_done s = None \<and> hb_pending_wire_done s = None")
  case True
  let ?t = "s\<lparr> hb_sample := hb_sample s + 1 \<rparr>"
  show ?thesis
  proof (cases "hb_state s = StAwaiting")
    case aw: True
    then obtain plan where plan: "hb_plan s = Some plan" using assms(1) by (auto simp: host_ok_def)
    obtain ring c where calm: "\<forall>k. hb_sample s \<le> k \<and> k \<le> hb_sample s + (L + 2) \<longrightarrow> he_ring E k = ring \<and> he_cursor E k = c"
      using assms(3) by (auto simp: calm_def)
    have ring: "length (he_ring E (hb_sample s + 1)) = L" "ring_ok (he_ring E (hb_sample s + 1))" using assms(2) by (simp_all add: host_env_ok_def)
    have len: "length ring = L" "0 < L" using ring ring_okD(2) [OF ring(2)] calm by auto
    have "(unat c + length ring - hr_anchor (hb_framer ?t)) mod length ring \<le> L"
      using mod_less_divisor [of L "unat c + length ring - hr_anchor (hb_framer ?t)"] len by simp
    moreover have "awaiting L ?t" using assms(1) aw by (auto simp: awaiting_def host_ok_def)
    ultimately obtain t r where l: "await_loop E (expected_replies (sh_replies plan)) (he_now E (hb_sample s))
        (he_now E (hb_sample s) + STARVE_HORIZON_BYTE_TIMES * byte_ticks E ?t) (length (host_ring E ?t)) ?t = Some (t, r)"
      "case r of None \<Rightarrow> True | Some f \<Rightarrow> payload_view (host_ring E t) (hf_payload_pos f) (fb_len (hf_payload f)) \<noteq> None"
      using await_loop_total [of L ?t E L ring c "expected_replies (sh_replies plan)" "he_now E (hb_sample s)"
          "he_now E (hb_sample s) + STARVE_HORIZON_BYTE_TIMES * byte_ticks E ?t" "length (host_ring E ?t)"] assms(2) calm by auto
    then show ?thesis
      using True aw plan ring len
      by (cases r) (auto simp: poll_def host_read_now_def poll_await_def Let_def host_ring_def)
  next
    case False
    then show ?thesis
      using True start_tx_total [of ?t] assms(1)
      by (auto simp: poll_def host_read_now_def Let_def host_ok_def split: option.split)
  qed
next
  case False
  then show ?thesis by (cases "hb_pending_done s"; cases "hb_pending_wire_done s") (auto simp: poll_def)
qed


lemma bind_pair_defined: "(\<exists>a b. m \<bind> (\<lambda>x. Some (x, r)) = Some (a, b)) \<longleftrightarrow> (\<exists>a. m = Some a)"
  by (cases m) auto

lemma submit_total:
  assumes "host_ok L s" "\<And>i inst payload. cmd = CmdExchange i inst payload \<Longrightarrow> shape_derive i inst payload \<noteq> None"
  shows "submit E s cmd \<noteq> None"
proof (cases cmd)
  case (CmdExchange i inst payload)
  then obtain d where d: "shape_derive i inst payload = Some d" using assms(2) by auto
  have buf: "length (fbuf_bytes (hb_buf s)) = TX_BUF" using assms(1) by (simp add: host_ok_def)
  have tx: "length (fbuf_bytes (hb_buf t)) = TX_BUF \<Longrightarrow> \<exists>u. start_tx t = Some u" for t using start_tx_total [of t] by auto
  show ?thesis
  proof (cases d)
    case (Inr plan)
    then obtain fb where fb: "load_frame (hb_buf s) i inst payload = Some fb" "length (fbuf_bytes fb) = TX_BUF"
      using load_frame_layout [OF buf, of payload i inst] shape_derive_len d by auto
    then show ?thesis
      using CmdExchange d Inr tx
      by (auto simp: submit_def submit_exchange_def host_read_cursor_def host_read_now_def Let_def bind_pair_defined split: option.split)
  qed (use CmdExchange d in \<open>simp add: submit_def submit_exchange_def\<close>)
qed (auto simp: submit_def split: prod.split)

lemma wire_start_total:
  assumes "host_ok L s" "length bytes \<le> WIRE_CAP"
  shows "wire_start bytes train s \<noteq> None"
  using assms by (auto simp: wire_start_def Let_def slice_opt_def host_ok_def job_ok_def)

lemma wire_burst_total:
  assumes "host_ok L s"
  shows "wire_burst s stream \<noteq> None"
proof (cases "host_busy s \<or> WIRE_CAP < length stream \<or> burst_check stream 0 = None \<or> burst_check stream 0 = Some 0")
  case False
  have ne: "0 < length stream" using False by (cases stream) (auto simp: burst_check.simps [of "[]"])
  have buf: "length (wj_buf (hb_wire_job s)) = WIRE_CAP" using assms(1) by (simp add: host_ok_def job_ok_def)
  define j where "j = (hb_wire_job s)\<lparr> wj_buf := put 0 stream (wj_buf (hb_wire_job s)), wj_len := length stream,
      wj_cursor := 0, wj_mode := MdStream \<rparr>"
  have j: "take (wj_len j) (wj_buf j) = stream" "wj_cursor j = 0" "length (wj_buf j) = WIRE_CAP" "wj_len j = length stream"
    using False buf by (simp_all add: j_def put_0_take)
  have "wire_next_frame (emit_io [IoClaim] (s\<lparr> hb_wire_job := j \<rparr>)) \<noteq> None"
    using wire_next_ok [of "emit_io [IoClaim] (s\<lparr> hb_wire_job := j \<rparr>)"] j ne False by auto
  then show ?thesis using False by (auto simp: wire_burst_def Let_def j_def [symmetric])
qed (auto simp: wire_burst_def)

text \<open>A call the code defines: not an exchange with an operation \<open>shape.rs\<close> has no arm for.\<close>

fun callable :: "host_call \<Rightarrow> bool" where
  "callable (CallSubmit (CmdExchange i inst payload)) \<longleftrightarrow> shape_derive i inst payload \<noteq> None"
| "callable _ = True"

lemma call_total:
  assumes "host_ok L s" "host_env_ok E L" "callable c" "c = CallPoll \<longrightarrow> calm E (hb_sample s) (L + 2)"
  shows "\<exists>s' ob. host_call_step E c s = Some (s', ob)"
proof (cases c)
  case (CallSubmit cmd)
  then have "submit E s cmd \<noteq> None" using assms(3) by (intro submit_total [OF assms(1)]) auto
  then show ?thesis using CallSubmit by auto
next
  case (CallWireSend bytes)
  then show ?thesis using wire_start_total [OF assms(1), of bytes None] by (auto simp: wire_send_def)
next
  case (CallWireTrain bytes gap breaks)
  then show ?thesis
    using wire_start_total [OF assms(1), of bytes "Some (breaks, ucast gap * he_ticks_per_us E)"] by (auto simp: wire_train_def)
next
  case (CallWireBurst bytes)
  then show ?thesis using wire_burst_total [OF assms(1), of bytes] by auto
next
  case CallTxComplete
  then show ?thesis using tx_complete_ok [OF assms(1), of E] by auto
next
  case CallPoll
  then show ?thesis using poll_total [OF assms(1,2)] assms(4) by auto
qed auto

inductive host_reachable :: "'e host_env_scheme \<Rightarrow> host_bus \<Rightarrow> bool" for E where
  new: "host_reachable E (host_new rate)"
| call: "host_reachable E s \<Longrightarrow> host_call_step E c s = Some (s', ob) \<Longrightarrow> host_reachable E s'"

lemma host_reachable_ok:
  assumes "host_env_ok E L" "host_reachable E s"
  shows "host_ok L s"
  using assms(2)
proof (induction rule: host_reachable.induct)
  case (new rate)
  have "ring_ok (he_ring E 0)" "length (he_ring E 0) = L" using assms(1) by (simp_all add: host_env_ok_def)
  then show ?case using ring_okD(2) [of "he_ring E 0"] by (intro host_ok_new) simp
next
  case (call s c s' ob)
  then show ?case using call_keeps [OF _ assms(1)] by (auto simp: keeps_def)
qed

text \<open>
  C21. The engine keeps its contract: one owner at a time and exactly one closing event. In every state
  that calls in any order can reach, over a ring, clock and cursor that may read anything, each call the
  code defines returns (a poll once the ring holds still while it walks), and it does what the contract
  allows: a submission or wire operation is accepted exactly when nothing is outstanding and otherwise
  refused as busy; statuses come only under a command; a command is closed by one terminal and a wire
  operation by one wire-done, and nothing else ends them.
\<close>

theorem host_engine_contract:
  assumes "host_env_ok E L" "host_reachable E s" "callable c" "c = CallPoll \<longrightarrow> calm E (hb_sample s) (L + 2)"
  shows "(host_busy s \<longleftrightarrow> host_owner s \<noteq> Free) \<and>
    (\<exists>s' ob. host_call_step E c s = Some (s', ob) \<and> spec_step (host_owner s) ob (host_owner s'))"
  using call_total [OF host_reachable_ok [OF assms(1,2)] assms(1,3,4)] call_keeps [OF host_reachable_ok [OF assms(1,2)] assms(1), of c]
  by (auto simp: busy_owner keeps_def)

definition quiet_host :: host_env where
  "quiet_host = \<lparr> he_now = \<lambda>n. of_nat n, he_cursor = \<lambda>n. 0, he_ring = \<lambda>n. replicate 512 0, he_ticks_per_us = 8 \<rparr>"

lemma quiet_host_ok: "host_env_ok quiet_host 512" "calm quiet_host n m"
  by (auto simp: host_env_ok_def quiet_host_def ring_ok_def FRAME_MAX_def footprint_def calm_def intro: exI [of _ 9])

theorem host_engine_contract_witness:
  "\<exists>s' ob. host_call_step quiet_host (CallSubmit CmdRescue) (host_new B1000000) = Some (s', ob) \<and> spec_step Free ob (host_owner s')"
  using host_engine_contract [OF quiet_host_ok(1) host_reachable.new [of quiet_host B1000000], of "CallSubmit CmdRescue"]
  by (simp add: host_owner_def host_new_def)

end
