(* ===== verification/Host_Exchange.thy ===== *)
theory Host_Exchange
  imports Host_Own
begin

text \<open>
  What an exchange does end to end on the host: the frame that goes out, the replies that come in, and
  the closing terminal; and what a calibration train puts on the wire.
\<close>

subsection \<open>Runs of calls\<close>

fun host_run :: "'e host_env_scheme \<Rightarrow> host_call list \<Rightarrow> host_bus \<Rightarrow> (host_bus \<times> host_obs list) option" where
  "host_run E [] s = Some (s, [])"
| "host_run E (c # cs) s =
     do { (s', ob) \<leftarrow> host_call_step E c s; (s'', obs) \<leftarrow> host_run E cs s'; Some (s'', ob # obs) }"

subsection \<open>Replies\<close>

text \<open>The ring holds still from the next read on.\<close>

definition still :: "'e host_env_scheme \<Rightarrow> nat \<Rightarrow> bytes \<Rightarrow> u16 \<Rightarrow> bool" where
  "still E n ring c \<longleftrightarrow> (\<forall>k\<ge>n. he_ring E k = ring \<and> he_cursor E k = c)"

definition status_reply :: "bytes \<Rightarrow> bool" where
  "status_reply fr \<longleftrightarrow> clean_frame fr \<and> inst_is_status (fr ! 3)"

definition reply_obs :: "nat \<Rightarrow> bytes \<Rightarrow> host_obs \<Rightarrow> bool" where
  "reply_obs k fr ob \<longleftrightarrow> (\<exists>v. ob = ObEvent (HeStatus (of_nat k) (fr ! 1) (fr ! 3) v) \<and> fb_bytes v = take (length fr - 6) (drop 4 fr))"

definition counted :: "nat \<Rightarrow> wire_evidence" where
  "counted k = \<lparr> we_statuses = of_nat k, we_garble = 0, we_garble_after_last_frame = False \<rparr>"

lemma sat_add8_of_nat: "k < 255 \<Longrightarrow> sat_add8 (of_nat k) 1 = of_nat (k + 1)"
  by (simp add: sat_add8_def word_le_nat_alt unat_of_nat8 unat_word_ariths add.commute)

lemma await_loop_status:
  assumes "awaiting L s" "host_env_ok E L" "still E (hb_sample s) ring c"
    "unconsumed (hb_framer s) ring (unat c) = fr @ rest" "status_reply fr"
  shows "\<exists>fm f. await_loop E expected now pace_at len s =
      Some (await_status expected now pace_at len c (s\<lparr> hb_sample := hb_sample s + 1, hb_framer := fm \<rparr>), Some f) \<and>
    hf_id f = fr ! 1 \<and> hf_inst f = fr ! 3 \<and> fb_bytes (hf_payload f) = take (length fr - 6) (drop 4 fr) \<and>
    payload_view ring (hf_payload_pos f) (fb_len (hf_payload f)) = Some (hf_payload f) \<and>
    unconsumed fm ring (unat c) = rest \<and> hr_anchor fm < L"
proof -
  have here: "he_ring E (hb_sample s + 1) = ring" "he_cursor E (hb_sample s) = c" using assms(3) by (simp_all add: still_def)
  have env: "ring_ok ring" "length ring = L" "unat c < L" using assms(2) here unfolding host_env_ok_def by metis+
  have a: "hr_anchor (hb_framer s) < length ring" using assms(1) env(2) by (simp add: awaiting_def host_ok_def)
  have clean: "clean_frame fr" "inst_is_status (fr ! 3)" using assms(5) by (simp_all add: status_reply_def)
  have wk: "walk (unconsumed (hb_framer s) ring (unat c)) = WFrame fr" unfolding assms(4) by (rule walk_frame [OF clean(1)])
  obtain fm step where st: "host_framer_step (hb_framer s) ring (unat c) = Some (fm, step)" "reports ring step (WFrame fr)"
    "hr_anchor fm = (hr_anchor (hb_framer s) + length fr) mod length ring"
    using host_step_refines [OF env(1) a, of "unat c"] env(2,3) unfolding step_ok_def wk by auto
  obtain f where f: "step = HsFrame f" using st(2) by (cases step) simp_all
  have len: "length fr \<le> length (unconsumed (hb_framer s) ring (unat c))" unfolding assms(4) by simp
  have "unconsumed fm ring (unat c) = drop (length fr) (unconsumed (hb_framer s) ring (unat c))"
    by (rule unconsumed_advance [OF a _ len st(3)]) (use env in simp)
  then have rest: "unconsumed fm ring (unat c) = rest" unfolding assms(4) by simp
  have fm: "hr_anchor fm < L" using st(3) env(2) a by (metis gr_implies_not0 mod_less_divisor neq0_conv)
  have "await_loop E expected now pace_at len s =
      Some (await_status expected now pace_at len c (s\<lparr> hb_sample := hb_sample s + 1, hb_framer := fm \<rparr>), Some f)"
    by (subst await_loop.simps) (use st here f clean in \<open>simp add: host_read_cursor_def host_ring_def Let_def\<close>)
  then show ?thesis using st(2) f reports_payload [of ring f fr] clean rest fm by auto
qed


text \<open>Waiting with \<open>k\<close> of \<open>n\<close> replies in, and nothing but replies received so far.\<close>

definition waiting :: "nat \<Rightarrow> nat \<Rightarrow> nat \<Rightarrow> host_bus \<Rightarrow> bool" where
  "waiting L n k s \<longleftrightarrow> awaiting L s \<and> hb_got s = of_nat k \<and> hb_evidence s = counted k \<and>
     (\<exists>plan. hb_plan s = Some plan \<and> expected_replies (sh_replies plan) = Some (of_nat n))"

definition completed :: "nat \<Rightarrow> nat \<Rightarrow> host_bus \<Rightarrow> bool" where
  "completed L n s \<longleftrightarrow> host_ok L s \<and> hb_state s = StIdle \<and>
     (\<exists>t. hb_pending_done s = Some t \<and> tm_outcome t = OcComplete \<and> tm_evidence t = counted n)"

lemma poll_status:
  assumes "waiting L n k s" "k < n" "n \<le> 255" "host_env_ok E L" "still E (hb_sample s) ring c"
    "unconsumed (hb_framer s) ring (unat c) = fr @ rest" "status_reply fr" "k + 1 = n \<longrightarrow> rest = []"
  shows "\<exists>s' ob. host_call_step E CallPoll s = Some (s', ob) \<and> reply_obs k fr ob \<and> hb_sample s < hb_sample s' \<and>
    unconsumed (hb_framer s') ring (unat c) = rest \<and> hb_log s' = hb_log s \<and>
    (if k + 1 = n then completed L n s' else waiting L n (k + 1) s')"
proof -
  obtain plan where plan: "hb_plan s = Some plan" "expected_replies (sh_replies plan) = Some (of_nat n)"
    using assms(1) by (auto simp: waiting_def)
  have aw: "awaiting L s" and got: "hb_got s = of_nat k" and ev: "hb_evidence s = counted k" using assms(1) by (auto simp: waiting_def)
  define t where "t = s\<lparr> hb_sample := hb_sample s + 1 \<rparr>"
  define now where "now = he_now E (hb_sample s)"
  define pace where "pace = now + STARVE_HORIZON_BYTE_TIMES * byte_ticks E t"
  have t: "awaiting L t" using aw by (auto simp: t_def awaiting_def host_ok_def)
  have st: "still E (hb_sample t) ring c" "he_ring E (hb_sample t) = ring" using assms(5) by (simp_all add: still_def t_def)
  have ring: "length ring = L" using assms(4) st(2) by (metis host_env_ok_def)
  have un: "unconsumed (hb_framer t) ring (unat c) = fr @ rest" using assms(6) by (simp add: t_def)
  obtain fm f where l: "await_loop E (Some (of_nat n)) now pace L t =
      Some (await_status (Some (of_nat n)) now pace L c (t\<lparr> hb_sample := hb_sample t + 1, hb_framer := fm \<rparr>), Some f)"
    "hf_id f = fr ! 1" "hf_inst f = fr ! 3" "fb_bytes (hf_payload f) = take (length fr - 6) (drop 4 fr)"
    "payload_view ring (hf_payload_pos f) (fb_len (hf_payload f)) = Some (hf_payload f)"
    "unconsumed fm ring (unat c) = rest" "hr_anchor fm < L"
    using await_loop_status [OF t assms(4) st(1) un assms(7)] by blast
  let ?u = "t\<lparr> hb_sample := hb_sample t + 1, hb_framer := fm \<rparr>"
  define s' where "s' = await_status (Some (of_nat n)) now pace L c ?u"
  have add: "sat_add8 (of_nat k) 1 = of_nat (k + 1)" using assms(2,3) by (intro sat_add8_of_nat) simp
  have eqn: "((of_nat (k + 1) :: u8) = of_nat n) \<longleftrightarrow> k + 1 = n"
    using assms(2,3) u8_of_nat_inj [of "k + 1" n] by auto
  have left: "k + 1 = n \<Longrightarrow> unresolved (hr_anchor fm) (unat c) L = 0"
    using l(6) assms(8) ring length_window [of ring "hr_anchor fm"] by (auto simp: unresolved_def dest: arg_cong [of _ _ length])
  have fields: "hb_sample s' = hb_sample s + 2" "hb_framer s' = fm" "hb_log s' = hb_log s" "hb_got s' = of_nat (k + 1)"
    using got add by (simp_all add: s'_def await_status_def await_complete_def await_extend_def host_arm_def Let_def t_def)
  have ok: "host_ok L s'" using status_ok [of L ?u] awaiting_update(1) [OF t l(7)] by (simp add: s'_def)
  have r: "host_ring E s' = ring" "length (host_ring E t) = L" "hb_plan t = Some plan"
    using assms(5) fields(1) st(2) ring plan(1) by (simp_all add: host_ring_def still_def t_def)
  have "hb_got s' - 1 = of_nat k" using fields(4) by simp
  then have "poll_await E now t = Some (s', Some (HeStatus (of_nat k) (fr ! 1) (fr ! 3) (hf_payload f)))"
    unfolding poll_await_def r(3) option.case Let_def r(2) plan(2) pace_def [symmetric] l(1) [folded s'_def]
    by (simp add: r(1) l(2-5))
  moreover have "hb_pending_done s = None" "hb_pending_wire_done s = None" "hb_state s = StAwaiting"
    using aw by (auto simp: awaiting_def host_ok_def)
  ultimately have poll: "host_call_step E CallPoll s = Some (s', ObEvent (HeStatus (of_nat k) (fr ! 1) (fr ! 3) (hf_payload f)))"
    by (simp add: poll_def host_read_now_def Let_def t_def now_def)
  define v where "v = ?u\<lparr> hb_got := of_nat (k + 1), hb_evidence := counted (k + 1) \<rparr>"
  have "(counted k)\<lparr> we_statuses := sat_add8 (we_statuses (counted k)) 1, we_garble_after_last_frame := False \<rparr> = counted (k + 1)"
    using add by (simp add: counted_def)
  then have s': "s' = (if k + 1 = n then await_complete now pace L c v else await_extend now v)\<lparr> hb_last_cursor := c \<rparr>"
    using eqn got ev add unfolding s'_def await_status_def Let_def by (simp add: v_def t_def eq_commute)
  have v: "hb_framer v = fm" "hb_evidence v = counted (k + 1)" "hb_got v = of_nat (k + 1)" "hb_plan v = Some plan" "hb_state v = StAwaiting"
    using plan(1) t by (simp_all add: v_def t_def awaiting_def)
  have "if k + 1 = n then completed L n s' else waiting L n (k + 1) s'"
  proof (cases "k + 1 = n")
    case True
    have "0 < unresolved (hr_anchor (hb_framer v)) (unat c) L \<longleftrightarrow> False" using left [OF True] v(1) by simp
    moreover have "we_garble (counted (k + 1)) = 0" by (simp add: counted_def)
    ultimately show ?thesis
      using ok True v unfolding completed_def s' await_complete_def Let_def by simp
  next
    case False
    then show ?thesis
      using ok v plan(2) unfolding waiting_def awaiting_def s' by (simp add: await_extend_def host_arm_def)
  qed
  moreover have "reply_obs k fr (ObEvent (HeStatus (of_nat k) (fr ! 1) (fr ! 3) (hf_payload f)))" using l(4) by (simp add: reply_obs_def)
  moreover have "hb_sample s < hb_sample s'" "unconsumed (hb_framer s') ring (unat c) = rest" using fields(1,2) l(6) by simp_all
  ultimately show ?thesis using poll fields(3) by blast
qed


definition reply_trace :: "nat \<Rightarrow> bytes list \<Rightarrow> host_obs list \<Rightarrow> bool" where
  "reply_trace k frs obs \<longleftrightarrow> length obs = length frs \<and> (\<forall>j<length frs. reply_obs (k + j) (frs ! j) (obs ! j))"

lemma reply_trace_Cons: "reply_obs k fr ob \<Longrightarrow> reply_trace (Suc k) frs obs \<Longrightarrow> reply_trace k (fr # frs) (ob # obs)"
  by (auto simp: reply_trace_def less_Suc_eq_0_disj)

lemma still_mono: "still E n ring c \<Longrightarrow> n \<le> m \<Longrightarrow> still E m ring c"
  by (auto simp: still_def)

lemma polls_replies:
  assumes "waiting L (k + length frs) k s" "frs \<noteq> []" "k + length frs \<le> 255" "host_env_ok E L" "still E (hb_sample s) ring c"
    "unconsumed (hb_framer s) ring (unat c) = concat frs" "\<forall>fr \<in> set frs. status_reply fr"
  shows "\<exists>s' obs. host_run E (replicate (length frs) CallPoll) s = Some (s', obs) \<and> reply_trace k frs obs \<and>
    completed L (k + length frs) s' \<and> hb_log s' = hb_log s"
  using assms
proof (induction frs arbitrary: k s)
  case (Cons fr frs)
  obtain s1 ob where s1: "host_call_step E CallPoll s = Some (s1, ob)" "reply_obs k fr ob" "hb_sample s < hb_sample s1"
    "unconsumed (hb_framer s1) ring (unat c) = concat frs" "hb_log s1 = hb_log s"
    "if k + 1 = k + length (fr # frs) then completed L (k + length (fr # frs)) s1 else waiting L (k + length (fr # frs)) (k + 1) s1"
    using poll_status [OF Cons.prems(1) _ Cons.prems(3-5), of fr "concat frs"] Cons.prems(6,7) by auto
  show ?case
  proof (cases "frs = []")
    case True
    then show ?thesis using s1 reply_trace_Cons [OF s1(2), of "[]" "[]"] by (auto simp: reply_trace_def)
  next
    case False
    have w: "waiting L (Suc k + length frs) (Suc k) s1" using s1(6) False by simp
    have st: "still E (hb_sample s1) ring c" using still_mono [OF Cons.prems(5)] s1(3) by simp
    obtain s' obs where "host_run E (replicate (length frs) CallPoll) s1 = Some (s', obs)" "reply_trace (Suc k) frs obs"
      "completed L (Suc k + length frs) s'" "hb_log s' = hb_log s1"
      using Cons.IH [OF w False _ Cons.prems(4) st s1(4)] Cons.prems(3,7) by auto
    then show ?thesis using s1 reply_trace_Cons [OF s1(2)] by auto
  qed
qed simp

lemma host_run_append:
  "host_run E (xs @ ys) s = do { (s', obs) \<leftarrow> host_run E xs s; (s'', obs') \<leftarrow> host_run E ys s'; Some (s'', obs @ obs') }"
proof (induction xs arbitrary: s)
  case Nil
  then show ?case by (cases "host_run E ys s") auto
next
  case (Cons c cs)
  then show ?case
  proof (cases "host_call_step E c s")
    case (Some r)
    obtain s1 ob where r: "r = (s1, ob)" by (cases r)
    show ?thesis
    proof (cases "host_run E cs s1")
      case (Some q)
      obtain s2 obs where "q = (s2, obs)" by (cases q)
      then show ?thesis using Some Cons.IH [of s1] \<open>host_call_step E c s = Some r\<close> r by (cases "host_run E ys s2") auto
    qed (use Some r Cons.IH [of s1] in simp)
  qed simp
qed

lemma poll_completed:
  assumes "completed L n s"
  shows "\<exists>s' t. host_call_step E CallPoll s = Some (s', ObEvent (HeDone t)) \<and> tm_outcome t = OcComplete \<and>
    tm_evidence t = counted n \<and> hb_log s' = hb_log s \<and> host_owner s' = Free"
proof -
  obtain t where t: "hb_state s = StIdle" "hb_pending_done s = Some t" "tm_outcome t = OcComplete" "tm_evidence t = counted n"
    "hb_pending_wire_done s = None"
    using assms by (auto simp: completed_def host_ok_def)
  then show ?thesis by (intro exI [of _ "s\<lparr> hb_pending_done := None \<rparr>"] exI [of _ t]) (simp add: poll_def host_owner_def)
qed

subsection \<open>The exchange\<close>

lemma exchange_frame_clean:
  assumes "shape_derive i inst payload = Some (Inr plan)"
  shows "clean_frame (exchange_frame i inst payload)"
proof -
  obtain op where d: "inst_opcode inst = Some op" "id_is_valid i" "length payload \<le> 252" using shape_deriveD [OF assms] by metis
  let ?p = "of_nat (length payload) :: u8"
  define fr where "fr = exchange_frame i inst payload"
  define crc where "crc = osc_crc (i # len_for ?p # inst # payload)"
  have le: "?p \<le> MAX_PAYLOAD" using d(3) by (simp add: word_le_nat_alt unat_of_nat8 MAX_PAYLOAD_def)
  have p: "unat (len_for ?p) = 3 + length payload" "3 \<le> len_for ?p" using d(3) len_for_bounds [OF le] by (simp_all add: unat_of_nat8)
  define body where "body = 0 # i # len_for ?p # inst # payload"
  have fr: "fr = body @ [ucast crc, ucast (drop_bit 8 crc)]" "length body = 4 + length payload"
    by (simp_all add: body_def fr_def exchange_frame_def crc_def le16_bytes_def Let_def)
  have len: "length fr = 4 + length payload + 2" by (simp add: fr)
  have "take (length fr - 2) fr = body" unfolding len by (simp add: fr)
  moreover have "fr ! (length fr - 2) = ucast crc" "fr ! (length fr - 1) = ucast (drop_bit 8 crc)" unfolding len by (simp_all add: fr nth_append)
  moreover have "fr ! 0 = 0" "fr ! 1 = i" "fr ! 2 = len_for ?p" "fr ! 3 = inst" by (simp_all add: fr(1) body_def)
  ultimately show ?thesis
    using d p len unfolding clean_frame_def fr_def [symmetric] by (simp add: body_def footprint_def osc_crc_leading_zero flip: crc_def)
qed

text \<open>
  A pacing gap may be owed when a command is submitted (after garble, a rate change or a rescue). The engine
  then holds the frame back and \<open>m\<close> polls, the last of which finds the gap over, start it. \<open>sent_at\<close> counts the
  clock and cursor samples taken until then.
\<close>

definition pace_polls :: "'e host_env_scheme \<Rightarrow> host_bus \<Rightarrow> nat \<Rightarrow> bool" where
  "pace_polls E s m =
     (case hb_pace_until s of
        None \<Rightarrow> m = 0
      | Some until \<Rightarrow>
          if tick_reached (he_now E (hb_sample s + 1)) until then m = 0
          else (case m of
                  0 \<Rightarrow> False
                | Suc k \<Rightarrow> (\<forall>j<k. \<not> tick_reached (he_now E (hb_sample s + 2 + j)) until) \<and>
                           tick_reached (he_now E (hb_sample s + 2 + k)) until))"

definition sent_at :: "host_bus \<Rightarrow> nat \<Rightarrow> nat" where
  "sent_at s m = hb_sample s + (if hb_pace_until s = None then 1 else 2 + m)"

definition started :: "'e host_env_scheme \<Rightarrow> nat \<Rightarrow> host_bus \<Rightarrow> nat \<Rightarrow> shape \<Rightarrow> bytes \<Rightarrow> host_bus \<Rightarrow> bool" where
  "started E L s m plan fr s1 \<longleftrightarrow> host_ok L s1 \<and> hb_state s1 = StTransmitting \<and> hb_plan s1 = Some plan \<and>
     hb_evidence s1 = evidence_default \<and> hb_pending_done s1 = None \<and> hb_pending_wire_done s1 = None \<and>
     hb_log s1 = hb_log s @ [IoClaim, IoBreak, IoSend (tl fr)] \<and>
     hr_anchor (hb_framer s1) = unat (he_cursor E (hb_sample s)) \<and> hb_sample s1 = sent_at s m"

lemma pacing_polls:
  assumes "hb_state s = StPacing" "hb_pending_done s = None" "hb_pending_wire_done s = None"
    "\<And>n. start_tx (s\<lparr> hb_sample := n \<rparr>) = Some (f n)" "\<And>n. hb_pending_done (f n) = None \<and> hb_pending_wire_done (f n) = None"
    "\<forall>j<k. \<not> tick_reached (he_now E (hb_sample s + j)) (hb_deadline_at s)" "tick_reached (he_now E (hb_sample s + k)) (hb_deadline_at s)"
  shows "host_run E (replicate (Suc k) CallPoll) s = Some (f (hb_sample s + Suc k), replicate (Suc k) ObSilent)"
  using assms
proof (induction k arbitrary: s)
  case 0
  then show ?case by (simp add: poll_def host_read_now_def take_done_def)
next
  case (Suc k)
  have step: "host_call_step E CallPoll s = Some (s\<lparr> hb_sample := hb_sample s + 1 \<rparr>, ObSilent)"
    using Suc.prems(1-3,6) by (auto simp: poll_def host_read_now_def take_done_def)
  have "host_run E (replicate (Suc k) CallPoll) (s\<lparr> hb_sample := hb_sample s + 1 \<rparr>) = Some (f (hb_sample s + 1 + Suc k), replicate (Suc k) ObSilent)"
  proof -
    have "\<not> tick_reached (he_now E (hb_sample s + 1 + j)) (hb_deadline_at s)" if "j < k" for j
      using Suc.prems(6) [rule_format, of "Suc j"] that by simp
    then show ?thesis using Suc.IH [of "s\<lparr> hb_sample := hb_sample s + 1 \<rparr>"] Suc.prems by simp
  qed
  then show ?case unfolding replicate_Suc [of "Suc k"] using step by (simp del: host_call_step.simps replicate_Suc)
qed

lemma host_run_reachable: "host_reachable E s \<Longrightarrow> host_run E cs s = Some (s', obs) \<Longrightarrow> host_reachable E s'"
proof (induction cs arbitrary: s obs)
  case (Cons c cs)
  then obtain s1 ob obs1 where "host_call_step E c s = Some (s1, ob)" "host_run E cs s1 = Some (s', obs1)"
    by (auto simp: bind_eq_Some_conv simp del: host_call_step.simps)
  then show ?case using Cons.IH host_reachable.call [OF Cons.prems(1)] by blast
qed simp

lemma exchange_starts:
  assumes "host_env_ok E L" "host_reachable E s" "\<not> host_busy s" "pace_polls E s m" "shape_derive i inst payload = Some (Inr plan)"
  shows "\<exists>s1. host_run E (CallSubmit (CmdExchange i inst payload) # replicate m CallPoll) s = Some (s1, ObAccepted Command # replicate m ObSilent) \<and>
    started E L s m plan (exchange_frame i inst payload) s1"
proof -
  define fr where "fr = exchange_frame i inst payload"
  have ok: "host_ok L s" by (rule host_reachable_ok [OF assms(1,2)])
  note idle = idle_facts [OF ok assms(3)]
  obtain fb where fb: "load_frame (hb_buf s) i inst payload = Some fb" "length (fbuf_bytes fb) = TX_BUF" "frame_buf_frame fb = Some fr"
    using load_frame_layout [of "hb_buf s" payload i inst] shape_derive_len [OF assms(5)] ok by (auto simp: host_ok_def fr_def)
  have span: "slice_opt fr 1 (length fr) = Some (tl fr)" by (simp add: slice_opt_def exchange_frame_def Let_def drop_Suc fr_def)
  define fm where "fm = host_framer_resync (hb_framer s) (unat (he_cursor E (hb_sample s)))"
  define b where "b = s\<lparr> hb_evidence := evidence_default, hb_buf := fb, hb_plan := Some plan, hb_sample := hb_sample s + 1, hb_framer := fm \<rparr>"
  define go where "go u = (emit_io [IoClaim, IoBreak, IoSend (tl fr)] u)\<lparr> hb_state := StTransmitting \<rparr>" for u
  have tx: "start_tx u = Some (go u)" if "hb_buf u = fb" for u
    using that fb(3) span by (simp add: start_tx_def go_def)
  have bf: "hb_buf b = fb" "hb_pace_until b = hb_pace_until s" by (simp_all add: b_def)
  have anchor: "hr_anchor fm = unat (he_cursor E (hb_sample s))" by (simp add: fm_def host_framer_resync_def)
  have sub: "submit E s (CmdExchange i inst payload) =
      do { s' \<leftarrow> (case hb_pace_until s of
              Some until \<Rightarrow>
                (let u = b\<lparr> hb_pace_until := None, hb_sample := hb_sample s + 2 \<rparr>
                 in if \<not> tick_reached (he_now E (hb_sample s + 1)) until then Some (host_arm until (u\<lparr> hb_state := StPacing \<rparr>)) else start_tx u)
            | None \<Rightarrow> start_tx b); Some (s', Inr ()) }"
    using assms(3,5) fb(1) by (cases "hb_pace_until s") (simp_all add: submit_def submit_exchange_def host_read_cursor_def host_read_now_def Let_def b_def fm_def)
  have goal: "\<exists>s1. host_run E (CallSubmit (CmdExchange i inst payload) # replicate m CallPoll) s = Some (s1, ObAccepted Command # replicate m ObSilent) \<and>
      started E L s m plan fr s1"
    if "host_run E (CallSubmit (CmdExchange i inst payload) # replicate m CallPoll) s = Some (go u, ObAccepted Command # replicate m ObSilent)"
      "u = b\<lparr> hb_pace_until := pu, hb_sample := sent_at s m, hb_state := st, hb_deadline_at := d, hb_compare := cm \<rparr>" for u pu st d cm
  proof -
    have "host_ok L (go u)" using host_reachable_ok [OF assms(1) host_run_reachable [OF assms(2) that(1)]] .
    then have "started E L s m plan fr (go u)" using idle anchor by (simp add: started_def go_def that(2) b_def emit_io_def)
    then show ?thesis using that(1) by blast
  qed
  show ?thesis
  proof (cases "hb_pace_until s")
    case None
    then have "m = 0" using assms(4) by (simp add: pace_polls_def)
    then show ?thesis using None sub tx [OF bf(1)] goal [where u = b and pu = "hb_pace_until b" and st = "hb_state b" and d = "hb_deadline_at b" and cm = "hb_compare b"]
      by (simp add: fr_def result_obs_def sent_at_def b_def)
  next
    case (Some until)
    define u where "u = b\<lparr> hb_pace_until := None, hb_sample := hb_sample s + 2 \<rparr>"
    show ?thesis
    proof (cases "tick_reached (he_now E (hb_sample s + 1)) until")
      case True
      then have "m = 0" using assms(4) Some by (simp add: pace_polls_def)
      then show ?thesis using Some sub tx [of u] True goal [where u = u and pu = None and st = "hb_state u" and d = "hb_deadline_at u" and cm = "hb_compare u"]
        by (simp add: fr_def result_obs_def sent_at_def b_def u_def)
    next
      case False
      then obtain k where k: "m = Suc k" "\<forall>j<k. \<not> tick_reached (he_now E (hb_sample s + 2 + j)) until" "tick_reached (he_now E (hb_sample s + 2 + k)) until"
        using assms(4) Some by (auto simp: pace_polls_def split: nat.splits)
      define w where "w = host_arm until (u\<lparr> hb_state := StPacing \<rparr>)"
      have c1: "host_call_step E (CallSubmit (CmdExchange i inst payload)) s = Some (w, ObAccepted Command)"
        using sub Some False by (simp add: result_obs_def w_def u_def)
      have "host_run E (replicate (Suc k) CallPoll) w = Some (go (w\<lparr> hb_sample := hb_sample w + Suc k \<rparr>), replicate (Suc k) ObSilent)"
        using pacing_polls [of w "\<lambda>n. go (w\<lparr> hb_sample := n \<rparr>)" k E] k(2,3) idle tx
        by (simp add: w_def u_def b_def host_arm_def go_def emit_io_def)
      then have "host_run E (CallSubmit (CmdExchange i inst payload) # replicate m CallPoll) s =
          Some (go (w\<lparr> hb_sample := hb_sample w + Suc k \<rparr>), ObAccepted Command # replicate m ObSilent)"
        using c1 unfolding k(1) by (simp del: host_call_step.simps replicate_Suc)
      moreover have "w\<lparr> hb_sample := hb_sample w + Suc k \<rparr> =
          b\<lparr> hb_pace_until := None, hb_sample := sent_at s m, hb_state := StPacing, hb_deadline_at := until, hb_compare := Some until \<rparr>"
        using Some k(1) by (simp add: w_def u_def b_def host_arm_def sent_at_def)
      ultimately show ?thesis using goal unfolding fr_def by blast
    qed
  qed
qed

lemma tx_complete_awaits:
  assumes "host_ok L s" "hb_state s = StTransmitting" "hb_plan s = Some plan" "sh_train plan = None" "sh_replies plan \<noteq> RpNone"
    "hb_evidence s = evidence_default" "expected_replies (sh_replies plan) = Some (of_nat n)"
  shows "\<exists>s'. host_call_step E CallTxComplete s = Some (s', ObSilent) \<and> waiting L n 0 s' \<and> hb_sample s' = hb_sample s + 2 \<and>
    hb_framer s' = hb_framer s \<and> hb_log s' = hb_log s @ [IoRelease]"
  using assms job_ok_leave [of StTransmitting "hb_wire_job s" StAwaiting]
  by (auto simp: host_on_tx_complete_def host_read_cursor_def host_read_now_def Let_def emit_io_def host_arm_def
      waiting_def awaiting_def host_ok_def counted_def evidence_default_def)

text \<open>The three ways an exchange goes on once its frame is out.\<close>

lemma started_replies:
  assumes "started E L s m plan fr s1" "host_env_ok E L" "sh_train plan = None" "sh_replies plan \<noteq> RpNone"
    "expected_replies (sh_replies plan) = Some (of_nat (length frs))" "frs \<noteq> []" "length frs \<le> 255"
    "still E (sent_at s m + 2) ring c" "\<forall>fr \<in> set frs. status_reply fr"
    "window ring (unat (he_cursor E (hb_sample s))) ((unat c + L - unat (he_cursor E (hb_sample s))) mod L) = concat frs"
  shows "\<exists>s' obs t. host_run E (CallTxComplete # replicate (length frs) CallPoll @ [CallPoll]) s1 = Some (s', ObSilent # obs @ [ObEvent (HeDone t)]) \<and>
    reply_trace 0 frs obs \<and> tm_outcome t = OcComplete \<and> tm_evidence t = counted (length frs) \<and> \<not> host_busy s' \<and>
    hb_log s' = hb_log s @ [IoClaim, IoBreak, IoSend (tl fr), IoRelease]"
proof -
  have st: "host_ok L s1" "hb_state s1 = StTransmitting" "hb_plan s1 = Some plan" "hb_evidence s1 = evidence_default"
    "hb_log s1 = hb_log s @ [IoClaim, IoBreak, IoSend (tl fr)]" "hr_anchor (hb_framer s1) = unat (he_cursor E (hb_sample s))" "hb_sample s1 = sent_at s m"
    using assms(1) by (simp_all add: started_def)
  obtain s2 where c2: "host_call_step E CallTxComplete s1 = Some (s2, ObSilent)" "waiting L (length frs) 0 s2"
    "hb_sample s2 = sent_at s m + 2" "hb_framer s2 = hb_framer s1" "hb_log s2 = hb_log s1 @ [IoRelease]"
    using tx_complete_awaits [OF st(1-3) assms(3,4) st(4) assms(5), of E] st(7) by auto
  have "length ring = L" using assms(2,8) by (metis host_env_ok_def le_refl still_def)
  then obtain s3 obs where p: "host_run E (replicate (length frs) CallPoll) s2 = Some (s3, obs)" "reply_trace 0 frs obs"
    "completed L (length frs) s3" "hb_log s3 = hb_log s2"
    using polls_replies [of L 0 frs s2 E ring c] c2 assms(2,6-10) st(6) by auto
  obtain s4 t where d: "host_call_step E CallPoll s3 = Some (s4, ObEvent (HeDone t))" "tm_outcome t = OcComplete"
    "tm_evidence t = counted (length frs)" "hb_log s4 = hb_log s3" "host_owner s4 = Free"
    using poll_completed [OF p(3), of E] by blast
  have "host_run E (replicate (length frs) CallPoll @ [CallPoll]) s2 = Some (s4, obs @ [ObEvent (HeDone t)])"
    unfolding host_run_append p(1) by (simp add: d(1) del: host_call_step.simps)
  then show ?thesis using c2 p d st(5) by (auto simp: busy_owner simp del: host_call_step.simps)
qed

lemma host_finish_sent:
  assumes "hb_evidence s = evidence_default"
  shows "\<exists>t. hb_pending_done (host_finish E OcSent s) = Some t \<and> tm_outcome t = OcSent \<and> tm_evidence t = evidence_default"
    "hb_log (host_finish E OcSent s) = hb_log s"
  using assms by (simp_all add: host_finish_def host_pace_def host_read_now_def Let_def evidence_default_def)

lemma training_breaks:
  assumes "hb_state s = StTraining left gap" "unat left = Suc k \<or> left = 0 \<and> k = 0" "hb_evidence s = evidence_default"
    "hb_pending_wire_done s = None"
  shows "\<exists>s' t. host_run E (replicate (Suc k) CallDeadline) s = Some (s', replicate (Suc k) ObSilent) \<and>
    hb_log s' = hb_log s @ replicate (Suc k) IoBreak @ [IoRelease] \<and> hb_state s' = StIdle \<and> hb_pending_wire_done s' = None \<and>
    hb_pending_done s' = Some t \<and> tm_outcome t = OcSent \<and> tm_evidence t = evidence_default"
  using assms
proof (induction k arbitrary: s left)
  case 0
  then have le: "left \<le> 1" by (auto simp: word_le_nat_alt)
  let ?s = "emit_io [IoRelease] (emit_io [IoBreak] s)"
  obtain t where "hb_pending_done (host_finish E OcSent ?s) = Some t" "tm_outcome t = OcSent" "tm_evidence t = evidence_default"
    using host_finish_sent(1) [of ?s E] 0 by auto
  then show ?case using 0 le host_finish_sent(2) [of ?s E] by (simp add: host_on_deadline_def) (simp add: emit_io_def)
next
  case (Suc k)
  then have left: "unat left = Suc (Suc k)" by simp
  have gt: "\<not> left \<le> 1" using left by (simp add: word_le_nat_alt)
  have step: "host_call_step E CallDeadline s = Some (train_next gap ((emit_io [IoBreak] s)\<lparr> hb_state := StTraining (left - 1) gap \<rparr>), ObSilent)"
    using Suc.prems(1) gt by (simp add: host_on_deadline_def)
  let ?s = "train_next gap ((emit_io [IoBreak] s)\<lparr> hb_state := StTraining (left - 1) gap \<rparr>)"
  have "unat (left - 1) = Suc k" using left gt unat_sub [of 1 left] by (simp add: word_le_nat_alt)
  then obtain s' t where "host_run E (replicate (Suc k) CallDeadline) ?s = Some (s', replicate (Suc k) ObSilent)"
    "hb_log s' = hb_log ?s @ replicate (Suc k) IoBreak @ [IoRelease]" "hb_state s' = StIdle" "hb_pending_wire_done s' = None"
    "hb_pending_done s' = Some t" "tm_outcome t = OcSent" "tm_evidence t = evidence_default"
    using Suc.IH [of ?s "left - 1"] Suc.prems(3,4) by (auto simp: train_next_def host_arm_def simp del: replicate_Suc)
  moreover have "hb_log ?s = hb_log s @ [IoBreak]" by (simp add: train_next_def host_arm_def emit_io_def)
  ultimately show ?case unfolding replicate_Suc [of "Suc k"] using step by (simp del: host_call_step.simps replicate_Suc)
qed

lemma started_silent:
  assumes "started E L s m plan fr s1" "sh_train plan = None" "sh_replies plan = RpNone"
  shows "\<exists>s' t. host_run E [CallTxComplete, CallPoll] s1 = Some (s', [ObSilent, ObEvent (HeDone t)]) \<and>
    tm_outcome t = OcSent \<and> tm_evidence t = evidence_default \<and> \<not> host_busy s' \<and>
    hb_log s' = hb_log s @ [IoClaim, IoBreak, IoSend (tl fr), IoRelease]"
proof -
  let ?u = "emit_io [IoRelease] s1"
  obtain t where t: "hb_pending_done (host_finish E OcSent ?u) = Some t" "tm_outcome t = OcSent" "tm_evidence t = evidence_default"
    using host_finish_sent(1) [of ?u E] assms(1) by (auto simp: started_def emit_io_def)
  have log: "hb_log (host_finish E OcSent ?u) = hb_log s1 @ [IoRelease]"
    using host_finish_sent(2) [of ?u E] assms(1) by (simp add: started_def emit_io_def)
  have c: "host_call_step E CallTxComplete s1 = Some (host_finish E OcSent ?u, ObSilent)"
    using assms by (simp add: started_def host_on_tx_complete_def)
  have "host_call_step E CallPoll (host_finish E OcSent ?u) = Some ((host_finish E OcSent ?u)\<lparr> hb_pending_done := None \<rparr>, ObEvent (HeDone t))"
    using t(1) by (simp add: poll_def)
  moreover have "\<not> host_busy ((host_finish E OcSent ?u)\<lparr> hb_pending_done := None \<rparr>)"
    using assms(1) by (simp add: host_busy_def host_finish_def host_pace_def host_read_now_def Let_def started_def emit_io_def)
  ultimately show ?thesis using c t log assms(1) by (simp add: started_def del: host_call_step.simps)
qed

lemma started_train:
  assumes "started E L s m plan fr s1" "sh_train plan = Some (gap_us, gaps)" "n = (if gaps = 255 then 1 else unat gaps + 1)"
  shows "\<exists>s' t. host_run E (CallTxComplete # replicate n CallDeadline @ [CallPoll]) s1 = Some (s', ObSilent # replicate n ObSilent @ [ObEvent (HeDone t)]) \<and>
    tm_outcome t = OcSent \<and> tm_evidence t = evidence_default \<and> \<not> host_busy s' \<and>
    hb_log s' = hb_log s @ [IoClaim, IoBreak, IoSend (tl fr)] @ replicate n IoBreak @ [IoRelease]"
proof -
  obtain s2 where c2: "host_call_step E CallTxComplete s1 = Some (s2, ObSilent)"
    "hb_state s2 = StTraining (gaps + 1) (ucast gap_us * he_ticks_per_us E)" "hb_evidence s2 = evidence_default"
    "hb_pending_wire_done s2 = None" "hb_log s2 = hb_log s1"
    using assms(1,2) by (simp add: started_def host_on_tx_complete_def host_read_now_def Let_def host_arm_def)
  obtain k where k: "n = Suc k" using assms(3) by (cases n) (auto split: if_splits)
  have "unat (gaps + 1) = Suc k \<or> gaps + 1 = 0 \<and> k = 0"
  proof (cases "gaps = 255")
    case False
    then have "unat gaps \<noteq> 255" using unsigned_word_eqI [of gaps 255] by auto
    then show ?thesis using k assms(3) False unat_less_256 [of gaps] by (simp add: unat_word_ariths)
  qed (use k assms(3) in simp)
  then obtain s3 t where p: "host_run E (replicate n CallDeadline) s2 = Some (s3, replicate n ObSilent)"
    "hb_log s3 = hb_log s2 @ replicate n IoBreak @ [IoRelease]" "hb_state s3 = StIdle" "hb_pending_wire_done s3 = None"
    "hb_pending_done s3 = Some t" "tm_outcome t = OcSent" "tm_evidence t = evidence_default"
    using training_breaks [OF c2(2) _ c2(3,4), of k E] unfolding k by auto
  have d: "host_call_step E CallPoll s3 = Some (s3\<lparr> hb_pending_done := None \<rparr>, ObEvent (HeDone t))" using p(5) by (simp add: poll_def)
  have "host_run E (replicate n CallDeadline @ [CallPoll]) s2 = Some (s3\<lparr> hb_pending_done := None \<rparr>, replicate n ObSilent @ [ObEvent (HeDone t)])"
    unfolding host_run_append p(1) by (simp add: d del: host_call_step.simps)
  then show ?thesis using c2(1,5) p assms(1)
    by (intro exI [of _ "s3\<lparr> hb_pending_done := None \<rparr>"] exI [of _ t]) (simp add: started_def host_busy_def del: host_call_step.simps)
qed


text \<open>A ping to servo 5 right after a rate change: one poll finds the gap not over, the next sends, the ack comes.\<close>

definition ack_host :: host_env where
  "ack_host = \<lparr> he_now = \<lambda>n. if n < 5 then 0 else 100000, he_cursor = \<lambda>n. if n < 8 then 1 else 7, he_ring = \<lambda>n. ack_ring, he_ticks_per_us = 8 \<rparr>"

definition paced_bus :: host_bus where
  "paced_bus = (host_new B1000000)\<lparr> hb_rate := B2000000, hb_sample := 2, hb_log := [IoBaud B2000000],
     hb_pace_until := Some (STARVE_HORIZON_BYTE_TIMES * 40) \<rparr>"

lemma paced_bus_reachable: "host_reachable ack_host paced_bus"
proof -
  have "\<exists>t. host_run ack_host [CallSubmit (CmdHostBaud B2000000), CallPoll] (host_new B1000000) = Some (paced_bus, [ObAccepted Command, ObEvent (HeDone t)])"
    by (simp add: paced_bus_def host_new_def submit_def host_busy_def host_finish_def host_pace_def host_read_now_def emit_io_def ack_host_def
        byte_ticks_def evidence_default_def result_obs_def poll_def Let_def)
  then show ?thesis using host_run_reachable [OF host_reachable.new] by blast
qed


end
