(* ===== verification/Host_Record.thy ===== *)
theory Host_Record
  imports Host_Exchange
begin

text \<open>
  \<open>host/src/link/record.rs\<close>: the records between adapter and client. Each builder writes into the
  caller's scratch buffer and returns the finished span; an index outside the buffer panics (\<open>None\<close>).
  The lemmas give each builder's bytes as one length-prefixed record.
\<close>

subsection \<open>Constants\<close>

definition REC_HELLO :: u8 where [osc_const]: "REC_HELLO = 0x00"
definition REC_SUBMIT :: u8 where [osc_const]: "REC_SUBMIT = 0x01"
definition REC_ENTER_BOOTLOADER :: u8 where [osc_const]: "REC_ENTER_BOOTLOADER = 0x40"
definition REC_SET_RAILS :: u8 where [osc_const]: "REC_SET_RAILS = 0x60"
definition RAILS_BOOT_STATE :: u8 where [osc_const]: "RAILS_BOOT_STATE = 3"
definition REC_WIRE_SEND :: u8 where [osc_const]: "REC_WIRE_SEND = 0x61"
definition REC_WIRE_BURST :: u8 where [osc_const]: "REC_WIRE_BURST = 0x62"
definition REC_WIRE_PULSE :: u8 where [osc_const]: "REC_WIRE_PULSE = 0x63"
definition REC_EDGE_DRAIN :: u8 where [osc_const]: "REC_EDGE_DRAIN = 0x64"
definition REC_CAPTURE_RESET :: u8 where [osc_const]: "REC_CAPTURE_RESET = 0x65"
definition REC_WIRE_TRAIN :: u8 where [osc_const]: "REC_WIRE_TRAIN = 0x66"
definition REC_WIRE_BAUD :: u8 where [osc_const]: "REC_WIRE_BAUD = 0x67"
definition REC_INFO :: u8 where [osc_const]: "REC_INFO = 0x80"
definition REC_STATUS :: u8 where [osc_const]: "REC_STATUS = 0x81"
definition REC_TERMINAL :: u8 where [osc_const]: "REC_TERMINAL = 0x82"
definition REC_REJECTED :: u8 where [osc_const]: "REC_REJECTED = 0x83"
definition REC_UNKNOWN :: u8 where [osc_const]: "REC_UNKNOWN = 0x84"
definition REC_BOOTLOADER_ACK :: u8 where [osc_const]: "REC_BOOTLOADER_ACK = 0x48"
definition REC_RAILS_ACK :: u8 where [osc_const]: "REC_RAILS_ACK = 0x68"
definition REC_WIRE_DONE :: u8 where [osc_const]: "REC_WIRE_DONE = 0x69"
definition REC_EDGES :: u8 where [osc_const]: "REC_EDGES = 0x6C"
definition REC_CAPTURE_ACK :: u8 where [osc_const]: "REC_CAPTURE_ACK = 0x6D"
definition DRAIN_MAX :: nat where [osc_const]: "DRAIN_MAX = 64"
definition VERB_EXCHANGE :: u8 where [osc_const]: "VERB_EXCHANGE = 0x00"
definition VERB_RESCUE :: u8 where [osc_const]: "VERB_RESCUE = 0x01"
definition VERB_HOST_BAUD :: u8 where [osc_const]: "VERB_HOST_BAUD = 0x02"
definition VERB_SET_RESPONSE_DEADLINE :: u8 where [osc_const]: "VERB_SET_RESPONSE_DEADLINE = 0x03"
definition REASON_BAD_ID :: u8 where [osc_const]: "REASON_BAD_ID = 0x00"
definition REASON_BAD_INST :: u8 where [osc_const]: "REASON_BAD_INST = 0x01"
definition REASON_BAD_PAYLOAD :: u8 where [osc_const]: "REASON_BAD_PAYLOAD = 0x02"
definition REASON_TOO_LONG :: u8 where [osc_const]: "REASON_TOO_LONG = 0x03"
definition REASON_BUSY :: u8 where [osc_const]: "REASON_BUSY = 0x04"
definition REASON_MALFORMED :: u8 where [osc_const]: "REASON_MALFORMED = 0x05"
definition OUTCOME_SENT :: u8 where [osc_const]: "OUTCOME_SENT = 0x00"
definition OUTCOME_COMPLETE :: u8 where [osc_const]: "OUTCOME_COMPLETE = 0x01"
definition OUTCOME_TIMEOUT :: u8 where [osc_const]: "OUTCOME_TIMEOUT = 0x02"
definition FLAG_GARBLE_AFTER_LAST_FRAME :: u8 where [osc_const]: "FLAG_GARBLE_AFTER_LAST_FRAME = 1"
definition LINK_VERSION :: u8 where [osc_const]: "LINK_VERSION = 1"
definition SEQ_NONE :: u16 where [osc_const]: "SEQ_NONE = 0xFFFF"

fun reason_code :: "invalid_reason \<Rightarrow> u8" where
  "reason_code IrBadId = REASON_BAD_ID"
| "reason_code IrBadInst = REASON_BAD_INST"
| "reason_code IrBadPayload = REASON_BAD_PAYLOAD"
| "reason_code IrTooLong = REASON_TOO_LONG"

subsection \<open>Builders\<close>

definition rec_put :: "nat \<Rightarrow> bytes \<Rightarrow> bytes \<Rightarrow> bytes option" where
  "rec_put at bs dst = (if at + length bs \<le> length dst then Some (put at bs dst) else None)"

definition rec_sealed :: "bytes \<Rightarrow> nat \<Rightarrow> (bytes \<times> bytes) option" where
  "rec_sealed dst body_len =
     do { dst \<leftarrow> rec_put 0 (le16_bytes (of_nat body_len)) dst;
          span \<leftarrow> slice_opt dst 0 (2 + body_len);
          Some (dst, span) }"

definition rec_info :: "u32 \<Rightarrow> bytes \<Rightarrow> (bytes \<times> bytes) option" where
  "rec_info ticks_per_us dst =
     do { dst \<leftarrow> rec_put 2 [REC_INFO] dst;
          dst \<leftarrow> rec_put 3 [LINK_VERSION] dst;
          dst \<leftarrow> rec_put 4 (le32_bytes ticks_per_us) dst;
          rec_sealed dst 6 }"

definition rec_rejected :: "u16 \<Rightarrow> u8 \<Rightarrow> bytes \<Rightarrow> (bytes \<times> bytes) option" where
  "rec_rejected seq reason dst =
     do { dst \<leftarrow> rec_put 2 [REC_REJECTED] dst;
          dst \<leftarrow> rec_put 3 (le16_bytes seq) dst;
          dst \<leftarrow> rec_put 5 [reason] dst;
          rec_sealed dst 4 }"

definition rec_unknown :: "u8 \<Rightarrow> bytes \<Rightarrow> (bytes \<times> bytes) option" where
  "rec_unknown rtype dst =
     do { dst \<leftarrow> rec_put 2 [REC_UNKNOWN] dst;
          dst \<leftarrow> rec_put 3 [rtype] dst;
          rec_sealed dst 2 }"

definition rec_bootloader_ack :: "bytes \<Rightarrow> (bytes \<times> bytes) option" where
  "rec_bootloader_ack dst = do { dst \<leftarrow> rec_put 2 [REC_BOOTLOADER_ACK] dst; rec_sealed dst 1 }"

definition rec_rails_ack :: "u8 \<Rightarrow> bytes \<Rightarrow> (bytes \<times> bytes) option" where
  "rec_rails_ack state dst =
     do { dst \<leftarrow> rec_put 2 [REC_RAILS_ACK] dst;
          dst \<leftarrow> rec_put 3 [state] dst;
          rec_sealed dst 2 }"

definition rec_wire_done :: "u16 \<Rightarrow> u32 \<Rightarrow> bytes \<Rightarrow> (bytes \<times> bytes) option" where
  "rec_wire_done seq tick dst =
     do { dst \<leftarrow> rec_put 2 [REC_WIRE_DONE] dst;
          dst \<leftarrow> rec_put 3 (le16_bytes seq) dst;
          dst \<leftarrow> rec_put 5 (le32_bytes tick) dst;
          rec_sealed dst 7 }"

fun put_ticks :: "nat \<Rightarrow> u16 list \<Rightarrow> bytes \<Rightarrow> (nat \<times> bytes) option" where
  "put_ticks at [] dst = Some (at, dst)"
| "put_ticks at (t # ts) dst = do { dst \<leftarrow> rec_put at (le16_bytes t) dst; put_ticks (at + 2) ts dst }"

definition rec_edges :: "bool \<Rightarrow> u32 \<Rightarrow> u16 list \<Rightarrow> u16 list \<Rightarrow> bytes \<Rightarrow> (bytes \<times> bytes) option" where
  "rec_edges overflow now falls rises dst =
     do { dst \<leftarrow> rec_put 2 [REC_EDGES] dst;
          dst \<leftarrow> rec_put 3 [if overflow then 1 else 0] dst;
          dst \<leftarrow> rec_put 4 (le32_bytes now) dst;
          dst \<leftarrow> rec_put 8 [of_nat (length falls)] dst;
          dst \<leftarrow> rec_put 9 [of_nat (length rises)] dst;
          (at, dst) \<leftarrow> put_ticks 10 (falls @ rises) dst;
          rec_sealed dst (at - 2) }"

definition rec_capture_ack :: "bytes \<Rightarrow> (bytes \<times> bytes) option" where
  "rec_capture_ack dst = do { dst \<leftarrow> rec_put 2 [REC_CAPTURE_ACK] dst; rec_sealed dst 1 }"

definition rec_status :: "u16 \<Rightarrow> u8 \<Rightarrow> u8 \<Rightarrow> u8 \<Rightarrow> bytes \<times> bytes \<Rightarrow> bytes \<Rightarrow> (bytes \<times> bytes) option" where
  "rec_status seq slot i inst payload dst =
     do { dst \<leftarrow> rec_put 2 [REC_STATUS] dst;
          dst \<leftarrow> rec_put 3 (le16_bytes seq) dst;
          dst \<leftarrow> rec_put 5 [slot] dst;
          dst \<leftarrow> rec_put 6 [i] dst;
          dst \<leftarrow> rec_put 7 [inst] dst;
          let n = length (fst payload);
          dst \<leftarrow> rec_put 8 (fst payload) dst;
          dst \<leftarrow> rec_put (8 + n) (snd payload) dst;
          rec_sealed dst (6 + n + length (snd payload)) }"

fun outcome_bytes :: "outcome \<Rightarrow> u8 \<times> u8" where
  "outcome_bytes OcSent = (OUTCOME_SENT, 0)"
| "outcome_bytes OcComplete = (OUTCOME_COMPLETE, 0)"
| "outcome_bytes (OcTimeout slot) = (OUTCOME_TIMEOUT, slot)"

definition rec_terminal :: "u16 \<Rightarrow> terminal \<Rightarrow> bytes \<Rightarrow> (bytes \<times> bytes) option" where
  "rec_terminal seq t dst =
     (let (oc, slot) = outcome_bytes (tm_outcome t); ev = tm_evidence t
      in do { dst \<leftarrow> rec_put 2 [REC_TERMINAL] dst;
              dst \<leftarrow> rec_put 3 (le16_bytes seq) dst;
              dst \<leftarrow> rec_put 5 [oc] dst;
              dst \<leftarrow> rec_put 6 [slot] dst;
              dst \<leftarrow> rec_put 7 (le32_bytes (tm_tick t)) dst;
              dst \<leftarrow> rec_put 11 [we_statuses ev] dst;
              dst \<leftarrow> rec_put 12 (le16_bytes (we_garble ev)) dst;
              dst \<leftarrow> rec_put 14 [if we_garble_after_last_frame ev then FLAG_GARBLE_AFTER_LAST_FRAME else 0] dst;
              rec_sealed dst 13 })"

subsection \<open>The records as bytes\<close>

definition framed :: "bytes \<Rightarrow> bytes" where
  "framed body = le16_bytes (of_nat (length body)) @ body"

definition builds :: "(bytes \<Rightarrow> (bytes \<times> bytes) option) \<Rightarrow> bytes \<Rightarrow> bool" where
  "builds b body \<longleftrightarrow> (\<forall>dst. 2 + length body \<le> length dst \<longrightarrow> (\<exists>d. b dst = Some (d, framed body) \<and> length d = length dst))"

lemma rec_put_first: "2 + length ys \<le> length dst \<Longrightarrow> rec_put 2 ys dst = Some (put 2 ys dst)"
  by (simp add: rec_put_def)

lemma rec_put_next:
  "at = 2 + length bs \<Longrightarrow> at + length ys \<le> length dst \<Longrightarrow> rec_put at ys (put 2 bs dst) = Some (put 2 (bs @ ys) dst)"
  using put_append [of 2 bs ys dst] by (simp add: rec_put_def)

lemma rec_sealed_put:
  assumes "n = length bs" "2 + length bs \<le> length dst"
  shows "\<exists>d. rec_sealed (put 2 bs dst) n = Some (d, framed bs) \<and> length d = length dst"
proof -
  have "put 2 bs dst = take 2 dst @ bs @ drop (2 + length bs) dst" by (simp add: put_def)
  then have "put 0 (le16_bytes (of_nat n)) (put 2 bs dst) = framed bs @ drop (2 + length bs) dst"
    using assms by (simp add: put_def framed_def min_def)
  moreover have "length (framed bs) = 2 + n" using assms(1) by (simp add: framed_def)
  ultimately show ?thesis using assms by (auto simp: rec_sealed_def rec_put_def slice_opt_def)
qed

lemmas rec_build = rec_put_first rec_put_next rec_sealed_put

lemma put_ticks_next:
  assumes "at = 2 + length bs" "at + 2 * length ts \<le> length dst"
  shows "put_ticks at ts (put 2 bs dst) = Some (at + 2 * length ts, put 2 (bs @ concat (map le16_bytes ts)) dst)"
  using assms
proof (induction ts arbitrary: at bs)
  case (Cons t ts)
  then show ?case using Cons.IH [of "at + 2" "bs @ le16_bytes t"] by (simp add: rec_put_next)
qed simp

lemma builds_records:
  "builds (rec_info tpu) (REC_INFO # LINK_VERSION # le32_bytes tpu)"
  "builds (rec_rejected seq reason) (REC_REJECTED # le16_bytes seq @ [reason])"
  "builds (rec_unknown rtype) [REC_UNKNOWN, rtype]"
  "builds rec_bootloader_ack [REC_BOOTLOADER_ACK]"
  "builds (rec_rails_ack state) [REC_RAILS_ACK, state]"
  "builds (rec_wire_done seq tick) (REC_WIRE_DONE # le16_bytes seq @ le32_bytes tick)"
  "builds rec_capture_ack [REC_CAPTURE_ACK]"
  by (auto simp: builds_def rec_info_def rec_rejected_def rec_unknown_def rec_bootloader_ack_def rec_rails_ack_def
      rec_wire_done_def rec_capture_ack_def rec_build)

lemma builds_status: "builds (rec_status seq slot i inst (x, y)) (REC_STATUS # le16_bytes seq @ [slot, i, inst] @ x @ y)"
  by (auto simp: builds_def rec_status_def Let_def rec_build)

definition terminal_body :: "u16 \<Rightarrow> terminal \<Rightarrow> bytes" where
  "terminal_body seq t =
     REC_TERMINAL # le16_bytes seq @ [fst (outcome_bytes (tm_outcome t)), snd (outcome_bytes (tm_outcome t))] @ le32_bytes (tm_tick t) @
     [we_statuses (tm_evidence t)] @ le16_bytes (we_garble (tm_evidence t)) @
     [if we_garble_after_last_frame (tm_evidence t) then FLAG_GARBLE_AFTER_LAST_FRAME else 0]"

lemma builds_terminal: "builds (rec_terminal seq t) (terminal_body seq t)"
  by (auto simp: builds_def rec_terminal_def terminal_body_def Let_def rec_build split: prod.split)

definition edges_body :: "bool \<Rightarrow> u32 \<Rightarrow> u16 list \<Rightarrow> u16 list \<Rightarrow> bytes" where
  "edges_body overflow now falls rises =
     [REC_EDGES, if overflow then 1 else 0] @ le32_bytes now @ [of_nat (length falls), of_nat (length rises)] @
     concat (map le16_bytes (falls @ rises))"

lemma length_ticks [simp]: "length (concat (map le16_bytes ts)) = 2 * length ts"
  by (induction ts) simp_all

lemma builds_edges: "builds (rec_edges overflow now falls rises) (edges_body overflow now falls rises)"
  unfolding builds_def
proof (intro allI impI)
  fix dst :: bytes
  assume fits: "2 + length (edges_body overflow now falls rises) \<le> length dst"
  then have len: "10 + 2 * length (falls @ rises) \<le> length dst" by (simp add: edges_body_def)
  let ?head = "[REC_EDGES, if overflow then 1 else 0] @ le32_bytes now @ [of_nat (length falls), of_nat (length rises)]"
  have "rec_edges overflow now falls rises dst =
      do { (at, d) \<leftarrow> put_ticks 10 (falls @ rises) (put 2 ?head dst); rec_sealed d (at - 2) }"
    using len by (simp add: rec_edges_def rec_build)
  also have "\<dots> = rec_sealed (put 2 (edges_body overflow now falls rises) dst) (8 + 2 * length (falls @ rises))"
    using len put_ticks_next [of 10 ?head "falls @ rises" dst] by (simp add: edges_body_def del: map_append concat_append)
  finally show "\<exists>d. rec_edges overflow now falls rises dst = Some (d, framed (edges_body overflow now falls rises)) \<and> length d = length dst"
    using rec_sealed_put [of _ "edges_body overflow now falls rises" dst] fits by (simp add: edges_body_def)
qed

end
