(* ===== verification/Host_Link.thy ===== *)
theory Host_Link
  imports Host_Record
begin

text \<open>
  \<open>host/src/link/server.rs\<close>: the link server. It cuts the client's byte pipe into records, turns each
  into a call of the engine, and turns the engine's events into records for the client.

  One record \<open>link\<close> holds the server's fields, the engine behind it, the records handed to the sink so far
  and the calls made to the edge capture. The capture is code outside the crate: \<open>link_env\<close> extends the
  engine's environment by what the \<open>n\<close>-th call to it returns.
\<close>

subsection \<open>State\<close>

record link_env = host_env +
  le_rises :: "nat \<Rightarrow> nat \<Rightarrow> u16 list"
  le_falls :: "nat \<Rightarrow> nat \<Rightarrow> u16 list"
  le_overflow :: "nat \<Rightarrow> bool"

datatype adapter_request = EnterBootloader | SetRails bool bool

datatype edge_op = EdRises nat | EdFalls nat | EdReset

definition RX_CAP :: nat where [osc_const]: "RX_CAP = 512"
definition OUT_CAP :: nat where [osc_const]: "OUT_CAP = 300"

record link =
  ls_rx :: bytes
  ls_rx_len :: nat
  ls_active :: "u16 option"
  ls_wire_active :: "u16 option"
  ls_req :: "adapter_request option"
  ls_rails :: u8
  ls_out :: bytes
  lk_bus :: host_bus
  lk_sink :: "bytes list"
  lk_edges :: "edge_op list"

definition link_new :: "host_bus \<Rightarrow> link" where
  "link_new bus =
     \<lparr> ls_rx = replicate RX_CAP 0, ls_rx_len = 0, ls_active = None, ls_wire_active = None, ls_req = None,
       ls_rails = RAILS_BOOT_STATE, ls_out = replicate OUT_CAP 0, lk_bus = bus, lk_sink = [], lk_edges = [] \<rparr>"

definition take_adapter_request :: "link \<Rightarrow> link \<times> adapter_request option" where
  "take_adapter_request l = (l\<lparr> ls_req := None \<rparr>, ls_req l)"

definition sink_record :: "(bytes \<Rightarrow> (bytes \<times> bytes) option) \<Rightarrow> link \<Rightarrow> link option" where
  "sink_record build l =
     do { (out, r) \<leftarrow> build (ls_out l);
          Some (l\<lparr> ls_out := out, lk_sink := lk_sink l @ [r] \<rparr>) }"

subsection \<open>Records from the client\<close>

definition set_rails :: "bytes \<Rightarrow> link \<Rightarrow> link option" where
  "set_rails rec l =
     (let mask = (if 2 < length rec then rec ! 2 else 3) AND 3;
          rails = (ls_rails l AND NOT mask) OR (rec ! 1 AND mask);
          l = l\<lparr> ls_rails := rails \<rparr>;
          l = (if mask \<noteq> 0 then l\<lparr> ls_req := Some (SetRails (rails AND 1 \<noteq> 0) (rails AND 2 \<noteq> 0)) \<rparr> else l)
      in sink_record (rec_rails_ack rails) l)"

text \<open>The wire operation a record asks for; \<open>None\<close> if its body has the wrong length for its type.\<close>

definition wire_call ::
  "'e host_env_scheme \<Rightarrow> u8 \<Rightarrow> bytes \<Rightarrow> host_bus \<Rightarrow> (host_bus \<times> (submit_error + unit)) option option" where
  "wire_call E rtype body bus =
     (if rtype = REC_WIRE_SEND then Some (wire_send bus body)
      else if rtype = REC_WIRE_BURST then Some (wire_burst bus body)
      else if rtype = REC_WIRE_PULSE \<and> length body = 2 then Some (Some (wire_pulse_low E bus (le16 (body ! 0) (body ! 1))))
      else if rtype = REC_WIRE_TRAIN \<and> 4 \<le> length body
      then Some (wire_train E bus (drop 3 body) (le16 (body ! 0) (body ! 1)) (body ! 2))
      else if rtype = REC_WIRE_BAUD \<and> length body = 4
      then Some (Some (wire_baud E bus (le32 (body ! 0) (body ! 1) (body ! 2) (body ! 3))))
      else None)"

definition handle_wire :: "'e host_env_scheme \<Rightarrow> bytes \<Rightarrow> link \<Rightarrow> link option" where
  "handle_wire E rec l =
     (if length rec < 3 then sink_record (rec_unknown (rec ! 0)) l
      else let seq = le16 (rec ! 1) (rec ! 2)
           in case wire_call E (rec ! 0) (drop 3 rec) (lk_bus l) of
                None \<Rightarrow> sink_record (rec_rejected seq REASON_MALFORMED) l
              | Some call \<Rightarrow>
                  do { (bus, res) \<leftarrow> call;
                       let l = l\<lparr> lk_bus := bus \<rparr>;
                       case res of
                         Inr _ \<Rightarrow> Some (l\<lparr> ls_wire_active := Some seq \<rparr>)
                       | Inl SeBusy \<Rightarrow> sink_record (rec_rejected seq REASON_BUSY) l
                       | Inl (SeInvalid _) \<Rightarrow> sink_record (rec_rejected seq REASON_MALFORMED) l })"

definition edge_drain :: "'e link_env_scheme \<Rightarrow> bytes \<Rightarrow> link \<Rightarrow> link option" where
  "edge_drain E rec l =
     (let max = min (unat (rec ! 1)) DRAIN_MAX;
          rises = le_rises E (length (lk_edges l)) max;
          l = l\<lparr> lk_edges := lk_edges l @ [EdRises max] \<rparr>;
          falls = le_falls E (length (lk_edges l)) max;
          l = l\<lparr> lk_edges := lk_edges l @ [EdFalls max] \<rparr>;
          overflow = le_overflow E (length (lk_edges l));
          (now, bus) = host_read_now E (lk_bus l);
          l = l\<lparr> lk_bus := bus \<rparr>
      in if DRAIN_MAX < length falls \<or> DRAIN_MAX < length rises then None
         else sink_record (rec_edges overflow now falls rises) l)"

definition submit_cmd :: "u8 \<Rightarrow> bytes \<Rightarrow> host_command option" where
  "submit_cmd verb args =
     (if verb = VERB_EXCHANGE \<and> 2 \<le> length args then Some (CmdExchange (args ! 0) (args ! 1) (drop 2 args))
      else if verb = VERB_RESCUE \<and> args = [] then Some CmdRescue
      else if verb = VERB_HOST_BAUD \<and> length args = 1 then map_option CmdHostBaud (baud_from_idx (args ! 0))
      else if verb = VERB_SET_RESPONSE_DEADLINE \<and> length args = 2
      then Some (CmdSetResponseDeadline (le16 (args ! 0) (args ! 1)))
      else None)"

definition handle_submit :: "'e host_env_scheme \<Rightarrow> bytes \<Rightarrow> link \<Rightarrow> link option" where
  "handle_submit E rec l =
     (if length rec < 4 then sink_record (rec_unknown REC_SUBMIT) l
      else let seq = le16 (rec ! 1) (rec ! 2)
           in case submit_cmd (rec ! 3) (drop 4 rec) of
                None \<Rightarrow> sink_record (rec_rejected seq REASON_MALFORMED) l
              | Some cmd \<Rightarrow>
                  do { (bus, res) \<leftarrow> submit E (lk_bus l) cmd;
                       let l = l\<lparr> lk_bus := bus \<rparr>;
                       case res of
                         Inr _ \<Rightarrow> Some (l\<lparr> ls_active := Some seq \<rparr>)
                       | Inl SeBusy \<Rightarrow> sink_record (rec_rejected seq REASON_BUSY) l
                       | Inl (SeInvalid r) \<Rightarrow> sink_record (rec_rejected seq (reason_code r)) l })"

definition is_wire_type :: "u8 \<Rightarrow> bool" where
  "is_wire_type t \<longleftrightarrow> t \<in> set [REC_WIRE_SEND, REC_WIRE_BURST, REC_WIRE_PULSE, REC_WIRE_TRAIN, REC_WIRE_BAUD]"

definition handle :: "'e link_env_scheme \<Rightarrow> bytes \<Rightarrow> link \<Rightarrow> link option" where
  "handle E rec l =
     do { rtype \<leftarrow> nth_opt rec 0;
          if rtype = REC_HELLO then sink_record (rec_info (he_ticks_per_us E)) l
          else if rtype = REC_ENTER_BOOTLOADER then sink_record rec_bootloader_ack (l\<lparr> ls_req := Some EnterBootloader \<rparr>)
          else if rtype = REC_SET_RAILS \<and> 2 \<le> length rec then set_rails rec l
          else if is_wire_type rtype then handle_wire E rec l
          else if rtype = REC_EDGE_DRAIN \<and> 2 \<le> length rec then edge_drain E rec l
          else if rtype = REC_CAPTURE_RESET then sink_record rec_capture_ack (l\<lparr> lk_edges := lk_edges l @ [EdReset] \<rparr>)
          else if rtype = REC_SUBMIT then handle_submit E rec l
          else sink_record (rec_unknown rtype) l }"

subsection \<open>The pipe\<close>

definition rec_len :: "bytes \<Rightarrow> nat" where
  "rec_len s = unat (le16 (s ! 0) (s ! 1))"

function link_extract :: "'e link_env_scheme \<Rightarrow> link \<Rightarrow> link option" where
  "link_extract E l =
     (if ls_rx_len l < 2 then Some l
      else if rec_len (ls_rx l) = 0 \<or> RX_CAP - 2 < rec_len (ls_rx l)
      then sink_record (rec_unknown 0xFF) (l\<lparr> ls_rx_len := 0 \<rparr>)
      else if ls_rx_len l < 2 + rec_len (ls_rx l) then Some l
      else do { rec \<leftarrow> slice_opt (ls_rx l) 2 (2 + rec_len (ls_rx l));
                rest \<leftarrow> slice_opt (ls_rx l) (2 + rec_len (ls_rx l)) (ls_rx_len l);
                l' \<leftarrow> handle E rec l;
                link_extract E (l'\<lparr> ls_rx := put 0 rest (ls_rx l), ls_rx_len := ls_rx_len l - (2 + rec_len (ls_rx l)) \<rparr>) })"
  by pat_completeness auto
termination by (relation "measure (\<lambda>(E, l). ls_rx_len l)") auto

declare link_extract.simps [simp del]

function on_pipe :: "'e link_env_scheme \<Rightarrow> bytes \<Rightarrow> link \<Rightarrow> link option" where
  "on_pipe E bytes l =
     (if bytes = [] then Some l
      else if RX_CAP < ls_rx_len l then None
      else let n = min (RX_CAP - ls_rx_len l) (length bytes)
           in do { l \<leftarrow> link_extract E (l\<lparr> ls_rx := put (ls_rx_len l) (take n bytes) (ls_rx l), ls_rx_len := ls_rx_len l + n \<rparr>);
                   if n = 0
                   then do { l' \<leftarrow> sink_record (rec_unknown 0xFF) l; on_pipe E (drop n bytes) (l'\<lparr> ls_rx_len := 0 \<rparr>) }
                   else on_pipe E (drop n bytes) l })"
  by pat_completeness auto
termination
  by (relation "measures [\<lambda>(E, bytes, l). length bytes, \<lambda>(E, bytes, l). ls_rx_len l]") (auto simp: RX_CAP_def min_def split: if_splits)

declare on_pipe.simps [simp del]

subsection \<open>Events to the client\<close>

definition pump_event :: "host_event \<Rightarrow> link \<Rightarrow> link option" where
  "pump_event ev l =
     (case ev of
        HeStatus slot i inst payload \<Rightarrow>
          sink_record (rec_status (case_option SEQ_NONE id (ls_active l)) slot i inst (fb_segments payload)) l
      | HeDone t \<Rightarrow>
          sink_record (rec_terminal (case_option SEQ_NONE id (ls_active l)) t) (l\<lparr> ls_active := None \<rparr>)
      | HeWireDone tick \<Rightarrow>
          sink_record (rec_wire_done (case_option SEQ_NONE id (ls_wire_active l)) tick) (l\<lparr> ls_wire_active := None \<rparr>))"

partial_function (option) pump :: "'e host_env_scheme \<Rightarrow> link \<Rightarrow> link option" where
  "pump E l =
     do { (bus, ev) \<leftarrow> poll E (lk_bus l);
          case ev of
            None \<Rightarrow> Some (l\<lparr> lk_bus := bus \<rparr>)
          | Some e \<Rightarrow> do { l \<leftarrow> pump_event e (l\<lparr> lk_bus := bus \<rparr>); pump E l } }"

end
