(* ===== verification/Host_Answer.thy ===== *)
theory Host_Answer
  imports Host_Link "HOL-Library.Multiset"
begin

text \<open>
  What the link server promises its client: the pipe may be chunked at will, and every command and wire
  operation gets exactly one answer.
\<close>

subsection \<open>Cutting the stream\<close>

text \<open>The complete records of a byte stream and what is left over; \<open>None\<close> on a length no record can have.\<close>

function cut_stream :: "bytes \<Rightarrow> (bytes list \<times> bytes) option" where
  "cut_stream s =
     (if length s < 2 then Some ([], s)
      else if rec_len s = 0 \<or> RX_CAP - 2 < rec_len s then None
      else if length s < 2 + rec_len s then Some ([], s)
      else map_option (map_prod (Cons (take (rec_len s) (drop 2 s))) id) (cut_stream (drop (2 + rec_len s) s)))"
  by pat_completeness auto
termination by (relation "measure length") auto

declare cut_stream.simps [simp del]

lemma cut_stream_short: "length s < 2 \<or> rec_len s \<noteq> 0 \<and> rec_len s \<le> RX_CAP - 2 \<and> length s < 2 + rec_len s \<Longrightarrow> cut_stream s = Some ([], s)"
  by (subst cut_stream.simps) auto

lemma cut_stream_record:
  "rec_len s \<noteq> 0 \<Longrightarrow> rec_len s \<le> RX_CAP - 2 \<Longrightarrow> 2 + rec_len s \<le> length s \<Longrightarrow>
   cut_stream s = map_option (map_prod (Cons (take (rec_len s) (drop 2 s))) id) (cut_stream (drop (2 + rec_len s) s))"
  by (subst cut_stream.simps) auto

lemma cut_stream_cases:
  assumes "cut_stream s = Some (rs, rest)"
  obtains "length s < 2 \<or> rec_len s \<noteq> 0 \<and> rec_len s \<le> RX_CAP - 2 \<and> length s < 2 + rec_len s"
  | "rec_len s \<noteq> 0" "rec_len s \<le> RX_CAP - 2" "2 + rec_len s \<le> length s"
  using assms by (subst (asm) cut_stream.simps) (auto simp: not_less split: if_splits)

lemma cut_rest: "cut_stream s = Some (rs, rest) \<Longrightarrow> length rest < RX_CAP"
proof (induction s arbitrary: rs rule: cut_stream.induct)
  case (1 s)
  show ?case
  proof (rule cut_stream_cases [OF 1(2)], goal_cases)
    case 1
    then show ?thesis using cut_stream_short [of s] \<open>cut_stream s = Some (rs, rest)\<close> by (auto simp: RX_CAP_def)
  next
    case 2
    then show ?thesis using 1 cut_stream_record [OF 2] by auto
  qed
qed

lemma cut_rest_idle: "cut_stream s = Some (rs, rest) \<Longrightarrow> cut_stream rest = Some ([], rest)"
proof (induction s arbitrary: rs rule: cut_stream.induct)
  case (1 s)
  show ?case
  proof (rule cut_stream_cases [OF 1(2)], goal_cases)
    case 1
    then show ?thesis using cut_stream_short [of s] \<open>cut_stream s = Some (rs, rest)\<close> by auto
  next
    case 2
    then show ?thesis using 1 cut_stream_record [OF 2] by auto
  qed
qed

lemma cut_prefix: "cut_stream (a @ b) \<noteq> None \<Longrightarrow> cut_stream a \<noteq> None"
proof (induction a rule: cut_stream.induct)
  case (1 s)
  show ?case
  proof (cases "length s < 2")
    case True
    then show ?thesis using cut_stream_short [of s] by simp
  next
    case False
    then have len: "rec_len (s @ b) = rec_len s" by (auto simp: rec_len_def nth_append)
    have ok: "\<not> (rec_len s = 0 \<or> RX_CAP - 2 < rec_len s)"
      using 1(2) False len cut_stream.simps [of "s @ b"] by (auto split: if_splits)
    show ?thesis
    proof (cases "length s < 2 + rec_len s")
      case True
      then show ?thesis using ok cut_stream_short [of s] by simp
    next
      case l: False
      then show ?thesis
        using 1 False ok len cut_stream_record [of s] cut_stream_record [of "s @ b"] by auto
    qed
  qed
qed

lemma cut_append:
  assumes "cut_stream a = Some (rs, rest)"
  shows "cut_stream (a @ b) = map_option (map_prod (append rs) id) (cut_stream (rest @ b))"
  using assms
proof (induction a arbitrary: rs rule: cut_stream.induct)
  case (1 s)
  show ?case
  proof (rule cut_stream_cases [OF 1(2)], goal_cases)
    case 1
    then have "rs = []" "rest = s" using cut_stream_short [of s] \<open>cut_stream s = Some (rs, rest)\<close> by auto
    then show ?thesis by (simp add: map_prod.identity option.map_ident_strong)
  next
    case 2
    obtain qs where q: "cut_stream (drop (2 + rec_len s) s) = Some (qs, rest)" "rs = take (rec_len s) (drop 2 s) # qs"
      using \<open>cut_stream s = Some (rs, rest)\<close> cut_stream_record [OF 2] by auto
    have ih: "cut_stream (drop (2 + rec_len s) s @ b) = map_option (map_prod (append qs) id) (cut_stream (rest @ b))"
      using 1(1) [of qs] 2 q(1) by (simp add: id_def)
    have "2 \<le> length s" using 2(3) by simp
    then have "rec_len (s @ b) = rec_len s" by (auto simp: rec_len_def nth_append)
    then have "cut_stream (s @ b) = map_option (map_prod (Cons (take (rec_len s) (drop 2 s))) id) (cut_stream (drop (2 + rec_len s) s @ b))"
      using 2 cut_stream_record [of "s @ b"] by simp
    then show ?thesis unfolding ih q(2) by (simp add: option.map_comp prod.map_comp comp_def)
  qed
qed

lemma cut_framed:
  assumes "body \<noteq> []" "length body \<le> RX_CAP - 2"
  shows "cut_stream (framed body @ s) = map_option (map_prod (Cons body) id) (cut_stream s)"
proof -
  have "unat (of_nat (length body) :: u16) = length body" using assms(2) by (intro unat_of_nat16) (simp add: RX_CAP_def)
  then have "rec_len (framed body @ s) = length body" by (simp add: rec_len_def framed_def le16_bytes_def)
  then show ?thesis using assms cut_stream_record [of "framed body @ s"] by (simp add: framed_def)
qed

subsection \<open>The pipe as a fold over records\<close>

definition pending :: "link \<Rightarrow> bytes" where
  "pending l = take (ls_rx_len l) (ls_rx l)"

definition rx_ok :: "link \<Rightarrow> bool" where
  "rx_ok l \<longleftrightarrow> length (ls_rx l) = RX_CAP \<and> ls_rx_len l \<le> RX_CAP"

definition with_rx :: "bytes \<Rightarrow> nat \<Rightarrow> link \<Rightarrow> link" where
  "with_rx rx n l = l\<lparr> ls_rx := rx, ls_rx_len := n \<rparr>"

fun handle_all :: "'e link_env_scheme \<Rightarrow> bytes list \<Rightarrow> link \<Rightarrow> link option" where
  "handle_all E [] l = Some l"
| "handle_all E (r # rs) l = do { l \<leftarrow> handle E r l; handle_all E rs l }"

lemma sink_with_rx: "sink_record b (with_rx rx n l) = map_option (with_rx rx n) (sink_record b l)"
  by (cases "b (ls_out l)") (auto simp: sink_record_def with_rx_def)

lemma with_rx_fields [simp]:
  "ls_active (with_rx rx n l) = ls_active l" "ls_wire_active (with_rx rx n l) = ls_wire_active l" "ls_req (with_rx rx n l) = ls_req l"
  "ls_rails (with_rx rx n l) = ls_rails l" "ls_out (with_rx rx n l) = ls_out l" "lk_bus (with_rx rx n l) = lk_bus l"
  "lk_sink (with_rx rx n l) = lk_sink l" "lk_edges (with_rx rx n l) = lk_edges l" "ls_rx (with_rx rx n l) = rx" "ls_rx_len (with_rx rx n l) = n"
  "(with_rx rx n l)\<lparr> ls_rails := r \<rparr> = with_rx rx n (l\<lparr> ls_rails := r \<rparr>)" "(with_rx rx n l)\<lparr> ls_req := q \<rparr> = with_rx rx n (l\<lparr> ls_req := q \<rparr>)"
  "(with_rx rx n l)\<lparr> lk_bus := b \<rparr> = with_rx rx n (l\<lparr> lk_bus := b \<rparr>)" "(with_rx rx n l)\<lparr> lk_edges := e \<rparr> = with_rx rx n (l\<lparr> lk_edges := e \<rparr>)"
  "(with_rx rx n l)\<lparr> ls_active := a \<rparr> = with_rx rx n (l\<lparr> ls_active := a \<rparr>)" "(with_rx rx n l)\<lparr> ls_wire_active := a \<rparr> = with_rx rx n (l\<lparr> ls_wire_active := a \<rparr>)"
  "with_rx rx n (with_rx rx' n' l) = with_rx rx n l"
  by (simp_all add: with_rx_def)

lemma bind_map_option: "map_option f (m \<bind> g) = m \<bind> (\<lambda>x. map_option f (g x))"
  by (cases m) simp_all

lemma handle_with_rx: "handle E r (with_rx rx n l) = map_option (with_rx rx n) (handle E r l)"
proof -
  have wire: "handle_wire E r (with_rx rx n l) = map_option (with_rx rx n) (handle_wire E r l)"
    by (auto simp: handle_wire_def Let_def sink_with_rx bind_map_option split: option.split sum.split submit_error.split intro!: Option.bind_cong)
  have sub: "handle_submit E r (with_rx rx n l) = map_option (with_rx rx n) (handle_submit E r l)"
    by (auto simp: handle_submit_def Let_def sink_with_rx bind_map_option split: option.split sum.split submit_error.split intro!: Option.bind_cong)
  show ?thesis
    unfolding handle_def bind_map_option
    by (intro Option.bind_cong refl) (simp add: wire sub sink_with_rx set_rails_def edge_drain_def Let_def split_beta)
qed

lemma handle_all_with_rx: "handle_all E rs (with_rx rx n l) = map_option (with_rx rx n) (handle_all E rs l)"
proof (induction rs arbitrary: l)
  case (Cons r rs)
  then show ?case by (cases "handle E r l") (simp_all add: handle_with_rx)
qed simp

text \<open>One pass of the record cutter: the records of the buffer are handled in order, the rest is kept.\<close>

definition served :: "bytes list \<Rightarrow> bytes \<Rightarrow> 'e link_env_scheme \<Rightarrow> link \<Rightarrow> link option \<Rightarrow> bool" where
  "served rs rest E l res \<longleftrightarrow>
     (case handle_all E rs l of
        None \<Rightarrow> res = None
      | Some l1 \<Rightarrow> \<exists>rx. res = Some (with_rx rx (length rest) l1) \<and> length rx = RX_CAP \<and> take (length rest) rx = rest)"

lemma extract_served:
  assumes "rx_ok l" "cut_stream (pending l) = Some (rs, rest)"
  shows "served rs rest E l (link_extract E l)"
  using assms
proof (induction E l arbitrary: rs rule: link_extract.induct)
  case (1 E l)
  define len where "len = rec_len (ls_rx l)"
  have ok: "length (ls_rx l) = RX_CAP" "ls_rx_len l \<le> RX_CAP" "length (pending l) = ls_rx_len l"
    using 1(2) by (simp_all add: rx_ok_def pending_def)
  have hd: "2 \<le> ls_rx_len l \<Longrightarrow> rec_len (pending l) = len" by (simp add: len_def pending_def rec_len_def)
  consider "ls_rx_len l < 2 \<or> len \<noteq> 0 \<and> len \<le> RX_CAP - 2 \<and> ls_rx_len l < 2 + len" | "2 \<le> ls_rx_len l" "len \<noteq> 0" "len \<le> RX_CAP - 2" "2 + len \<le> ls_rx_len l"
    using cut_stream_cases [OF 1(3)] hd ok(3) by (metis add_leD1 not_less)
  then show ?case
  proof cases
    case 1
    then have "rs = []" "rest = pending l" using \<open>cut_stream (pending l) = Some (rs, rest)\<close> cut_stream_short [of "pending l"] hd ok(3)
      by (metis (no_types, lifting) Pair_inject not_less option.inject)+
    moreover have "link_extract E l = Some l" using 1 by (subst link_extract.simps) (auto simp: len_def [symmetric])
    ultimately show ?thesis using ok by (auto simp: served_def with_rx_def pending_def intro!: exI [of _ "ls_rx l"])
  next
    case 2
    define r where "r = take len (drop 2 (ls_rx l))"
    define tl where "tl = take (ls_rx_len l - (2 + len)) (drop (2 + len) (ls_rx l))"
    have split: "take len (drop 2 (pending l)) = r" "drop (2 + len) (pending l) = tl"
      using 2 ok by (simp_all add: r_def tl_def pending_def drop_take min_def)
    have "cut_stream (pending l) = map_option (map_prod (Cons r) id) (cut_stream tl)"
      using cut_stream_record [of "pending l", unfolded hd [OF 2(1)] split ok(3)] 2 by simp
    then obtain qs where q: "cut_stream tl = Some (qs, rest)" "rs = r # qs"
      using \<open>cut_stream (pending l) = Some (rs, rest)\<close> by (cases "cut_stream tl") auto
    let ?rx = "put 0 tl (ls_rx l)"
    have tl: "length tl = ls_rx_len l - (2 + len)" using 2 ok by (simp add: tl_def)
    have "slice_opt (ls_rx l) 2 (2 + len) = Some r" "slice_opt (ls_rx l) (2 + len) (ls_rx_len l) = Some tl"
      using 2 ok by (simp_all add: slice_opt_def r_def tl_def)
    note slices = this
    have step: "link_extract E l = do { l' \<leftarrow> handle E r l; link_extract E (with_rx ?rx (length tl) l') }"
      unfolding link_extract.simps [of E l] len_def [symmetric] slices with_rx_def tl using 2 by simp
    show ?thesis
    proof (cases "handle E r l")
      case None
      then show ?thesis by (simp add: step q(2) served_def)
    next
      case (Some l1)
      have rx: "length ?rx = RX_CAP" "take (length tl) ?rx = tl" using tl ok put_0_take [of tl "ls_rx l"] by simp_all
      have "served qs rest E (with_rx ?rx (length tl) l1) (link_extract E (with_rx ?rx (length tl) l1))"
      proof -
        have "pending (with_rx ?rx (length tl) l1) = tl" "rx_ok (with_rx ?rx (length tl) l1)"
          using rx tl ok by (simp_all add: pending_def rx_ok_def)
        moreover have "l1\<lparr> ls_rx := ?rx, ls_rx_len := ls_rx_len l - (2 + len) \<rparr> = with_rx ?rx (length tl) l1"
          by (simp add: with_rx_def tl)
        ultimately show ?thesis
          using 1(1) [of r tl l1 qs, folded len_def] 2 Some q(1) slices by simp
      qed
      then show ?thesis
        by (cases "handle_all E qs l1") (auto simp: step q(2) Some served_def handle_all_with_rx)
    qed
  qed
qed

lemma handle_all_append: "handle_all E (rs @ qs) l = handle_all E rs l \<bind> handle_all E qs"
proof (induction rs arbitrary: l)
  case (Cons r rs)
  then show ?case by (cases "handle E r l") simp_all
qed simp

lemma served_compose:
  assumes "served rs rest E l res" "\<And>l'. pending l' = rest \<Longrightarrow> rx_ok l' \<Longrightarrow> served qs rest' E l' (f l')" "length rest \<le> RX_CAP"
  shows "served (rs @ qs) rest' E l (res \<bind> f)"
proof (cases "handle_all E rs l")
  case None
  then show ?thesis using assms(1) by (simp add: served_def handle_all_append)
next
  case (Some l1)
  then obtain rx where rx: "res = Some (with_rx rx (length rest) l1)" "length rx = RX_CAP" "take (length rest) rx = rest"
    using assms(1) by (auto simp: served_def)
  have "served qs rest' E (with_rx rx (length rest) l1) (f (with_rx rx (length rest) l1))"
    using rx assms(3) by (intro assms(2)) (simp_all add: pending_def rx_ok_def)
  then show ?thesis
    using Some rx(1) by (cases "handle_all E qs l1") (auto simp: served_def handle_all_append handle_all_with_rx)
qed

lemma served_with_rx: "served rs rest E (with_rx rx n l) res \<longleftrightarrow> served rs rest E l res"
  by (cases "handle_all E rs l") (auto simp: served_def handle_all_with_rx)

lemma on_pipe_served:
  assumes "rx_ok l" "cut_stream (pending l) = Some ([], pending l)" "cut_stream (pending l @ bytes) = Some (rs, rest)"
  shows "served rs rest E l (on_pipe E bytes l)"
  using assms
proof (induction "length bytes" arbitrary: bytes l rs rule: less_induct)
  case less
  have ok: "length (ls_rx l) = RX_CAP" "length (pending l) = ls_rx_len l" using less.prems(1) by (simp_all add: rx_ok_def pending_def)
  have room: "ls_rx_len l < RX_CAP" using cut_rest [OF less.prems(2)] ok by simp
  show ?case
  proof (cases "bytes = []")
    case True
    then show ?thesis
      using less.prems ok by (subst on_pipe.simps) (auto simp: served_def pending_def with_rx_def intro!: exI [of _ "ls_rx l"])
  next
    case False
    define n where "n = min (RX_CAP - ls_rx_len l) (length bytes)"
    have n: "0 < n" "n \<le> length bytes" "ls_rx_len l + n \<le> RX_CAP" using False room by (simp_all add: n_def)
    define rx where "rx = put (ls_rx_len l) (take n bytes) (ls_rx l)"
    have rx: "length rx = RX_CAP" "take (ls_rx_len l + n) rx = pending l @ take n bytes"
      using n ok take_put_end [of "ls_rx_len l" "ls_rx l" "ls_rx_len l + n" "take n bytes"] by (simp_all add: rx_def pending_def)
    obtain rs1 rest1 where c1: "cut_stream (pending l @ take n bytes) = Some (rs1, rest1)"
      using less.prems(3) cut_prefix [of "pending l @ take n bytes" "drop n bytes"] by auto
    then obtain rs2 where c2: "cut_stream (rest1 @ drop n bytes) = Some (rs2, rest)" "rs = rs1 @ rs2"
      using cut_append [OF c1, of "drop n bytes"] less.prems(3) by (cases "cut_stream (rest1 @ drop n bytes)") auto
    have "served rs1 rest1 E (with_rx rx (ls_rx_len l + n) l) (link_extract E (with_rx rx (ls_rx_len l + n) l))"
      using rx n c1 by (intro extract_served) (simp_all add: rx_ok_def pending_def)
    moreover have "served rs2 rest E l' (on_pipe E (drop n bytes) l')" if "pending l' = rest1" "rx_ok l'" for l'
      using that n c2(1) cut_rest_idle [OF c1] by (intro less.hyps) simp_all
    ultimately have "served rs rest E l (link_extract E (with_rx rx (ls_rx_len l + n) l) \<bind> on_pipe E (drop n bytes))"
      unfolding c2(2) served_with_rx using cut_rest [OF c1] by (intro served_compose) auto
    moreover have "on_pipe E bytes l = link_extract E (with_rx rx (ls_rx_len l + n) l) \<bind> on_pipe E (drop n bytes)"
      using False room n(1) unfolding on_pipe.simps [of E bytes l] n_def [symmetric] rx_def with_rx_def Let_def by simp
    ultimately show ?thesis by simp
  qed
qed

subsection \<open>Requests and answers\<close>

text \<open>The sequence number a client record asks under, and the one an adapter record answers.\<close>

definition asks :: "bytes \<Rightarrow> u16 list" where
  "asks rec = (if rec \<noteq> [] \<and> (rec ! 0 = REC_SUBMIT \<and> 4 \<le> length rec \<or> is_wire_type (rec ! 0) \<and> 3 \<le> length rec)
     then [le16 (rec ! 1) (rec ! 2)] else [])"

definition answers :: "bytes \<Rightarrow> u16 list" where
  "answers rec = (if rec ! 2 \<in> {REC_REJECTED, REC_TERMINAL, REC_WIRE_DONE} then [le16 (rec ! 3) (rec ! 4)] else [])"

definition outstanding :: "link \<Rightarrow> u16 list" where
  "outstanding l = case_option [] (\<lambda>q. [q]) (ls_active l) @ case_option [] (\<lambda>q. [q]) (ls_wire_active l)"

abbreviation answered :: "link \<Rightarrow> u16 multiset" where
  "answered l \<equiv> mset (concat (map answers (lk_sink l)))"

definition link_ok :: "nat \<Rightarrow> link \<Rightarrow> bool" where
  "link_ok L l \<longleftrightarrow> host_ok L (lk_bus l) \<and> length (ls_out l) = OUT_CAP \<and>
     (ls_active l \<noteq> None) = (host_owner (lk_bus l) = Command) \<and> (ls_wire_active l \<noteq> None) = (host_owner (lk_bus l) = WireOp)"

text \<open>A step that takes the requests \<open>qs\<close> in: what was and is owed balances what was answered.\<close>

definition balanced :: "nat \<Rightarrow> u16 list \<Rightarrow> link \<Rightarrow> link \<Rightarrow> bool" where
  "balanced L qs l l' \<longleftrightarrow> link_ok L l' \<and> mset qs + answered l + mset (outstanding l) = answered l' + mset (outstanding l')"

lemma balanced_trans: "balanced L qs l l1 \<Longrightarrow> balanced L rs l1 l2 \<Longrightarrow> balanced L (qs @ rs) l l2"
  by (simp add: balanced_def add.assoc) (metis (no_types, lifting) add.left_commute)

lemma answers_framed: "answers (framed body) = (if body ! 0 \<in> {REC_REJECTED, REC_TERMINAL, REC_WIRE_DONE} then [le16 (body ! 1) (body ! 2)] else [])"
  by (simp add: answers_def framed_def le16_bytes_def)

lemma sink_builds:
  assumes "builds b body" "2 + length body \<le> OUT_CAP" "length (ls_out l) = OUT_CAP" "sink_record b l = Some l'"
  shows "\<exists>out. l' = l\<lparr> ls_out := out, lk_sink := lk_sink l @ [framed body] \<rparr> \<and> length out = OUT_CAP"
proof -
  obtain d where "b (ls_out l) = Some (d, framed body)" "length d = OUT_CAP" using assms(1-3) unfolding builds_def by metis
  then show ?thesis using assms(4) by (auto simp: sink_record_def)
qed

lemma reply_balanced:
  assumes "builds b body" "2 + length body \<le> OUT_CAP" "link_ok L l1" "sink_record b l1 = Some l'"
    "mset qs + answered l + mset (outstanding l) = answered l1 + mset (answers (framed body)) + mset (outstanding l1)"
  shows "balanced L qs l l'"
proof -
  have "length (ls_out l1) = OUT_CAP" using assms(3) by (simp add: link_ok_def)
  then obtain out where "l' = l1\<lparr> ls_out := out, lk_sink := lk_sink l1 @ [framed body] \<rparr>" "length out = OUT_CAP"
    using sink_builds [OF assms(1,2) _ assms(4)] by blast
  then show ?thesis using assms(3,5) by (simp add: balanced_def link_ok_def outstanding_def)
qed

lemma keeps_result:
  assumes "keeps L s s' (result_obs w r)"
  shows "host_ok L s' \<and> (case r of Inr _ \<Rightarrow> host_owner s = Free \<and> host_owner s' = w | Inl _ \<Rightarrow> host_owner s' = host_owner s)"
  using assms by (auto simp: keeps_def result_obs_def split: sum.splits elim: spec_step.cases)

lemma wire_call_keeps:
  assumes "host_ok L s" "wire_call E t body s = Some (Some (s', r))"
  shows "keeps L s s' (result_obs WireOp r)"
  using assms wire_send_keeps wire_burst_keeps wire_pulse_keeps wire_train_keeps wire_baud_keeps
  by (auto simp: wire_call_def split: if_splits)

lemma rejected_balanced:
  assumes "link_ok L l1" "outstanding l1 = outstanding l" "answered l1 = answered l" "sink_record (rec_rejected q reason) l1 = Some l'"
  shows "balanced L [q] l l'"
  by (rule reply_balanced [OF builds_records(2) _ assms(1,4)])
    (simp_all add: assms(2,3) answers_framed OUT_CAP_def le16_bytes_def)

lemma plain_balanced:
  assumes "builds b body" "2 + length body \<le> OUT_CAP" "link_ok L l1" "outstanding l1 = outstanding l" "answered l1 = answered l"
    "body ! 0 \<notin> {REC_REJECTED, REC_TERMINAL, REC_WIRE_DONE}" "sink_record b l1 = Some l'"
  shows "balanced L [] l l'"
  by (rule reply_balanced [OF assms(1,2,3,7)]) (use assms(4-6) in \<open>simp add: answers_framed\<close>)

lemma handle_submit_balanced:
  assumes "link_ok L l" "host_env_ok E L" "handle_submit E r l = Some l'" "4 \<le> length r"
  shows "balanced L [le16 (r ! 1) (r ! 2)] l l'"
proof (cases "submit_cmd (r ! 3) (drop 4 r)")
  case None
  then show ?thesis using assms rejected_balanced [OF assms(1)] by (simp add: handle_submit_def Let_def)
next
  case (Some cmd)
  obtain bus res where b: "submit E (lk_bus l) cmd = Some (bus, res)" using assms(3,4) Some by (auto simp: handle_submit_def Let_def bind_eq_Some_conv)
  have ok: "host_ok L (lk_bus l)" using assms(1) by (simp add: link_ok_def)
  note k = keeps_result [OF submit_keeps [OF ok assms(2) b]]
  show ?thesis
  proof (cases res)
    case (Inr u)
    then have "l' = l\<lparr> lk_bus := bus, ls_active := Some (le16 (r ! 1) (r ! 2)) \<rparr>" using assms(3,4) Some b by (simp add: handle_submit_def Let_def)
    then show ?thesis using k Inr assms(1) by (auto simp: balanced_def link_ok_def outstanding_def)
  next
    case (Inl e)
    then have "link_ok L (l\<lparr> lk_bus := bus \<rparr>)" using k assms(1) by (simp add: link_ok_def)
    then show ?thesis
      using assms(3,4) Some b Inl rejected_balanced [of L "l\<lparr> lk_bus := bus \<rparr>" l]
      by (auto simp: handle_submit_def Let_def outstanding_def split: submit_error.splits)
  qed
qed

lemma handle_wire_balanced:
  assumes "link_ok L l" "handle_wire E r l = Some l'" "3 \<le> length r"
  shows "balanced L [le16 (r ! 1) (r ! 2)] l l'"
proof (cases "wire_call E (r ! 0) (drop 3 r) (lk_bus l)")
  case None
  then show ?thesis using assms rejected_balanced [OF assms(1)] by (simp add: handle_wire_def Let_def)
next
  case (Some call)
  obtain bus res where b: "call = Some (bus, res)" using assms(2,3) Some by (auto simp: handle_wire_def Let_def bind_eq_Some_conv)
  have ok: "host_ok L (lk_bus l)" using assms(1) by (simp add: link_ok_def)
  note k = keeps_result [OF wire_call_keeps [OF ok Some [unfolded b]]]
  show ?thesis
  proof (cases res)
    case (Inr u)
    then have "l' = l\<lparr> lk_bus := bus, ls_wire_active := Some (le16 (r ! 1) (r ! 2)) \<rparr>" using assms(2,3) Some b by (simp add: handle_wire_def Let_def)
    then show ?thesis using k Inr assms(1) by (auto simp: balanced_def link_ok_def outstanding_def)
  next
    case (Inl e)
    then have "link_ok L (l\<lparr> lk_bus := bus \<rparr>)" using k assms(1) by (simp add: link_ok_def)
    then show ?thesis
      using assms(2,3) Some b Inl rejected_balanced [of L "l\<lparr> lk_bus := bus \<rparr>" l]
      by (auto simp: handle_wire_def Let_def outstanding_def split: submit_error.splits)
  qed
qed

lemma edge_drain_balanced:
  assumes "link_ok L l" "edge_drain E r l = Some l'"
  shows "balanced L [] l l'"
proof -
  define m where "m = min (unat (r ! 1)) DRAIN_MAX"
  define l1 where "l1 = l\<lparr> lk_edges := lk_edges l @ [EdRises m, EdFalls m], lk_bus := snd (host_read_now E (lk_bus l)) \<rparr>"
  define falls where "falls = le_falls E (Suc (length (lk_edges l))) m"
  define rises where "rises = le_rises E (length (lk_edges l)) m"
  let ?b = "rec_edges (le_overflow E (Suc (Suc (length (lk_edges l))))) (fst (host_read_now E (lk_bus l))) falls rises"
  have d: "length falls \<le> 64" "length rises \<le> 64" "sink_record ?b l1 = Some l'"
    using assms(2) unfolding falls_def rises_def l1_def m_def by (auto simp: edge_drain_def Let_def split_beta DRAIN_MAX_def split: if_splits)
  have "link_ok L l1" "outstanding l1 = outstanding l"
    using assms(1) by (simp_all add: l1_def link_ok_def outstanding_def host_read_now_def host_ok_def host_owner_def)
  note l1 = this
  show ?thesis
    by (rule plain_balanced [OF builds_edges _ l1 _ _ d(3)]) (use d(1,2) in \<open>simp_all add: edges_body_def OUT_CAP_def l1_def osc_const\<close>)
qed

lemma unknown_balanced: "link_ok L l \<Longrightarrow> sink_record (rec_unknown x) l = Some l' \<Longrightarrow> balanced L [] l l'"
  by (rule plain_balanced [OF builds_records(3) _ _ refl refl]) (simp_all add: OUT_CAP_def osc_const)

lemma set_rails_balanced:
  assumes "link_ok L l" "set_rails r l = Some l'"
  shows "balanced L [] l l'"
proof -
  define mask where "mask = (if 2 < length r then r ! 2 else 3) AND 3"
  define rails where "rails = (ls_rails l AND NOT mask) OR (r ! 1 AND mask)"
  define l1 where "l1 = (if mask \<noteq> 0 then l\<lparr> ls_rails := rails, ls_req := Some (SetRails (rails AND 1 \<noteq> 0) (rails AND 2 \<noteq> 0)) \<rparr>
    else l\<lparr> ls_rails := rails \<rparr>)"
  have d: "sink_record (rec_rails_ack rails) l1 = Some l'"
    using assms(2) unfolding set_rails_def Let_def mask_def [symmetric] rails_def [symmetric] l1_def .
  have ok: "link_ok L l1" "outstanding l1 = outstanding l" "lk_sink l1 = lk_sink l"
    using assms(1) by (simp_all add: l1_def link_ok_def outstanding_def)
  show ?thesis by (rule plain_balanced [OF builds_records(5) _ ok(1,2) _ _ d]) (simp_all add: ok(3) OUT_CAP_def osc_const)
qed

lemma handle_balanced:
  assumes "link_ok L l" "host_env_ok E L" "handle E r l = Some l'"
  shows "balanced L (asks r) l l'"
proof (cases r)
  case Nil
  then show ?thesis using assms(3) by (simp add: handle_def nth_opt_def)
next
  case (Cons t body)
  have t: "nth_opt r 0 = Some t" "r ! 0 = t" "r \<noteq> []" using Cons by (simp_all add: nth_opt_def)
  show ?thesis
  proof (cases "t = REC_SUBMIT \<or> is_wire_type t")
    case True
    then have ne: "t \<noteq> REC_HELLO" "t \<noteq> REC_ENTER_BOOTLOADER" "t \<noteq> REC_SET_RAILS" "t \<noteq> REC_EDGE_DRAIN" "t \<noteq> REC_CAPTURE_RESET"
      and disj: "\<not> is_wire_type REC_SUBMIT"
      by (auto simp: is_wire_type_def osc_const)
    have h: "handle E r l = (if is_wire_type t then handle_wire E r l else handle_submit E r l)"
      using True ne t disj by (auto simp: handle_def)
    show ?thesis
    proof (cases "is_wire_type t")
      case w: True
      then have "asks r = (if 3 \<le> length r then [le16 (r ! 1) (r ! 2)] else [])" using t disj by (auto simp: asks_def)
      then show ?thesis
        using w h assms handle_wire_balanced [OF assms(1), of E r l'] unknown_balanced [OF assms(1)] by (auto simp: handle_wire_def [of E r l])
    next
      case w: False
      then have "asks r = (if 4 \<le> length r then [le16 (r ! 1) (r ! 2)] else [])" using t True by (simp add: asks_def)
      then show ?thesis
        using w h assms handle_submit_balanced [OF assms(1,2), of r l'] unknown_balanced [OF assms(1)] by (auto simp: handle_submit_def [of E r l])
    qed
  next
    case False
    have a: "asks r = []" using t False by (simp add: asks_def)
    have plain: "balanced L [] l l''" if "builds b (x # xs)" "length xs \<le> 200" "x \<notin> {REC_REJECTED, REC_TERMINAL, REC_WIRE_DONE}" "sink_record b l1 = Some l''"
      "link_ok L l1" "outstanding l1 = outstanding l" "lk_sink l1 = lk_sink l" for b x xs l1 l''
      by (rule plain_balanced [OF that(1) _ that(5,6) _ _ that(4)]) (use that in \<open>simp_all add: OUT_CAP_def\<close>)
    have upd: "link_ok L (l\<lparr> ls_req := q \<rparr>)" "outstanding (l\<lparr> ls_req := q \<rparr>) = outstanding l"
      "link_ok L (l\<lparr> lk_edges := e \<rparr>)" "outstanding (l\<lparr> lk_edges := e \<rparr>) = outstanding l" for q e
      using assms(1) by (simp_all add: link_ok_def outstanding_def)
    consider (hello) "sink_record (rec_info (he_ticks_per_us E)) l = Some l'"
      | (boot) "sink_record rec_bootloader_ack (l\<lparr> ls_req := Some EnterBootloader \<rparr>) = Some l'"
      | (rails) "set_rails r l = Some l'" | (drain) "edge_drain E r l = Some l'"
      | (reset) "sink_record rec_capture_ack (l\<lparr> lk_edges := lk_edges l @ [EdReset] \<rparr>) = Some l'"
      | (unknown) "sink_record (rec_unknown t) l = Some l'"
      using assms(3) False t unfolding handle_def t(1) Option.bind.simps by (auto split: if_splits)
    then have "balanced L [] l l'"
    proof cases
      case hello
      show ?thesis by (rule plain [OF builds_records(1) _ _ hello]) (simp_all add: assms(1) osc_const)
    next
      case boot
      show ?thesis by (rule plain [OF builds_records(4) _ _ boot]) (simp_all add: upd osc_const)
    next
      case reset
      show ?thesis by (rule plain [OF builds_records(7) _ _ reset]) (simp_all add: upd osc_const)
    qed (use assms(1) set_rails_balanced edge_drain_balanced unknown_balanced in blast)+
    then show ?thesis unfolding a .
  qed
qed

lemma pump_event_balanced:
  assumes "link_ok L l" "keeps L (lk_bus l) bus (ObEvent e)" "pump_event e (l\<lparr> lk_bus := bus \<rparr>) = Some l'"
  shows "balanced L [] l l'"
proof (cases e)
  case (HeStatus slot i inst p)
  have own: "host_owner (lk_bus l) = Command" "host_owner bus = Command" "host_ok L bus"
    using assms(2) HeStatus by (auto simp: keeps_def elim: spec_step.cases)
  obtain x y where xy: "fb_segments p = (x, y)" by (cases "fb_segments p")
  let ?b = "rec_status (case_option SEQ_NONE id (ls_active l)) slot i inst (x, y)" and ?l = "l\<lparr> lk_bus := bus \<rparr>"
  have s: "sink_record ?b ?l = Some l'" using assms(3) HeStatus xy by (simp add: pump_event_def)
  have out: "length (ls_out l) = OUT_CAP" using assms(1) by (simp add: link_ok_def)
  have "8 + length x + length y \<le> OUT_CAP"
    using s out by (auto simp: sink_record_def rec_status_def Let_def bind_eq_Some_conv rec_put_def split: if_splits)
  then have "2 + length (REC_STATUS # le16_bytes (case_option SEQ_NONE id (ls_active l)) @ [slot, i, inst] @ x @ y) \<le> OUT_CAP" by simp
  moreover have "link_ok L ?l" using assms(1) own by (simp add: link_ok_def)
  ultimately show ?thesis
    by (rule plain_balanced [OF builds_status _ _ _ _ _ s]) (simp_all add: outstanding_def osc_const)
next
  case (HeDone t)
  have own: "host_owner (lk_bus l) = Command" "host_owner bus = Free" "host_ok L bus"
    using assms(2) HeDone by (auto simp: keeps_def elim: spec_step.cases)
  obtain q where q: "ls_active l = Some q" "ls_wire_active l = None" using assms(1) own(1) by (auto simp: link_ok_def)
  have s: "sink_record (rec_terminal q t) (l\<lparr> lk_bus := bus, ls_active := None \<rparr>) = Some l'" using assms(3) HeDone q by (simp add: pump_event_def)
  have ok: "link_ok L (l\<lparr> lk_bus := bus, ls_active := None \<rparr>)" using assms(1) own q by (simp add: link_ok_def)
  show ?thesis
    by (rule reply_balanced [OF builds_terminal _ ok s])
      (simp_all add: q answers_framed outstanding_def terminal_body_def OUT_CAP_def le16_bytes_def)
next
  case (HeWireDone k)
  have own: "host_owner (lk_bus l) = WireOp" "host_owner bus = Free" "host_ok L bus"
    using assms(2) HeWireDone by (auto simp: keeps_def elim: spec_step.cases)
  obtain q where q: "ls_wire_active l = Some q" "ls_active l = None" using assms(1) own(1) by (auto simp: link_ok_def)
  have s: "sink_record (rec_wire_done q k) (l\<lparr> lk_bus := bus, ls_wire_active := None \<rparr>) = Some l'" using assms(3) HeWireDone q by (simp add: pump_event_def)
  have ok: "link_ok L (l\<lparr> lk_bus := bus, ls_wire_active := None \<rparr>)" using assms(1) own q by (simp add: link_ok_def)
  show ?thesis
    by (rule reply_balanced [OF builds_records(6) _ ok s])
      (simp_all add: q answers_framed outstanding_def OUT_CAP_def le16_bytes_def)
qed

lemma sink_rx: "sink_record b l = Some l' \<Longrightarrow> ls_rx l' = ls_rx l \<and> ls_rx_len l' = ls_rx_len l"
  by (auto simp: sink_record_def bind_eq_Some_conv)

lemma pump_event_rx: "pump_event e l = Some l' \<Longrightarrow> ls_rx l' = ls_rx l \<and> ls_rx_len l' = ls_rx_len l"
  by (cases e) (auto simp: pump_event_def dest: sink_rx)

definition pumped :: "nat \<Rightarrow> link \<Rightarrow> link \<Rightarrow> bool" where
  "pumped L l l' \<longleftrightarrow> balanced L [] l l' \<and> ls_rx l' = ls_rx l \<and> ls_rx_len l' = ls_rx_len l"

lemma pump_balanced:
  assumes "pump E l = Some l'"
  shows "link_ok L l \<longrightarrow> host_env_ok E L \<longrightarrow> pumped L l l'"
proof (rule pump.raw_induct [where P = "\<lambda>E l l'. link_ok L l \<longrightarrow> host_env_ok E L \<longrightarrow> pumped L l l'", OF _ assms], intro impI)
  fix rec :: "'c host_env_scheme \<Rightarrow> link \<Rightarrow> link option" and E :: "'c host_env_scheme" and l l'
  assume IH: "\<And>E l l'. rec E l = Some l' \<Longrightarrow> link_ok L l \<longrightarrow> host_env_ok E L \<longrightarrow> pumped L l l'"
    and body: "do { (bus, ev) \<leftarrow> poll E (lk_bus l);
          case ev of
            None \<Rightarrow> Some (l\<lparr> lk_bus := bus \<rparr>)
          | Some e \<Rightarrow> do { l \<leftarrow> pump_event e (l\<lparr> lk_bus := bus \<rparr>); rec E l } } = Some l'"
    and ok: "link_ok L l" and env: "host_env_ok E L"
  obtain bus ev where p: "poll E (lk_bus l) = Some (bus, ev)" using body by (auto simp: bind_eq_Some_conv)
  have k: "keeps L (lk_bus l) bus (event_obs ev)" using ok by (intro poll_keeps [OF _ env p]) (simp add: link_ok_def)
  show "pumped L l l'"
  proof (cases ev)
    case None
    then have "host_owner bus = host_owner (lk_bus l)" "host_ok L bus" using k by (auto simp: keeps_def elim: spec_step.cases)
    moreover have "l' = l\<lparr> lk_bus := bus \<rparr>" using body p None by simp
    ultimately show ?thesis using ok by (simp add: pumped_def balanced_def link_ok_def outstanding_def)
  next
    case (Some e)
    then obtain l1 where l1: "pump_event e (l\<lparr> lk_bus := bus \<rparr>) = Some l1" "rec E l1 = Some l'" using body p by (auto simp: bind_eq_Some_conv)
    have b: "balanced L [] l l1" using pump_event_balanced [OF ok _ l1(1)] k Some by simp
    then have "pumped L l1 l'" using IH [OF l1(2)] env by (simp add: balanced_def)
    then show ?thesis using balanced_trans [OF b, of "[]" l'] pump_event_rx [OF l1(1)] by (simp add: pumped_def)
  qed
qed

subsection \<open>Runs\<close>

datatype link_call = LcPipe bytes | LcPump | LcTxComplete | LcDeadline | LcTakeRequest

fun link_step :: "'e link_env_scheme \<Rightarrow> link_call \<Rightarrow> link \<Rightarrow> link option" where
  "link_step E (LcPipe bytes) l = on_pipe E bytes l"
| "link_step E LcPump l = pump E l"
| "link_step E LcTxComplete l = map_option (\<lambda>bus. l\<lparr> lk_bus := bus \<rparr>) (host_on_tx_complete E (lk_bus l))"
| "link_step E LcDeadline l = Some (l\<lparr> lk_bus := host_on_deadline E (lk_bus l) \<rparr>)"
| "link_step E LcTakeRequest l = Some (fst (take_adapter_request l))"

fun link_run :: "'e link_env_scheme \<Rightarrow> link_call list \<Rightarrow> link \<Rightarrow> link option" where
  "link_run E [] l = Some l"
| "link_run E (c # cs) l = do { l \<leftarrow> link_step E c l; link_run E cs l }"

fun piped :: "link_call list \<Rightarrow> bytes" where
  "piped [] = []"
| "piped (LcPipe bytes # cs) = bytes @ piped cs"
| "piped (_ # cs) = piped cs"

lemma handle_all_balanced:
  assumes "link_ok L l" "host_env_ok E L" "handle_all E rs l = Some l'"
  shows "balanced L (concat (map asks rs)) l l'"
  using assms
proof (induction rs arbitrary: l)
  case (Cons r rs)
  then obtain l1 where l1: "handle E r l = Some l1" "handle_all E rs l1 = Some l'" by (auto simp: bind_eq_Some_conv)
  have b: "balanced L (asks r) l l1" by (rule handle_balanced [OF Cons.prems(1,2) l1(1)])
  then show ?case using balanced_trans [OF b] Cons.IH [OF _ Cons.prems(2) l1(2)] by (simp add: balanced_def)
qed (simp add: balanced_def)

lemma pipe_balanced:
  assumes "link_ok L l" "host_env_ok E L" "rx_ok l" "cut_stream (pending l) = Some ([], pending l)"
    "cut_stream (pending l @ bytes) = Some (rs, rest)" "on_pipe E bytes l = Some l'"
  shows "balanced L (concat (map asks rs)) l l' \<and> rx_ok l' \<and> pending l' = rest"
proof -
  obtain l1 rx where h: "handle_all E rs l = Some l1" "l' = with_rx rx (length rest) l1" "length rx = RX_CAP" "take (length rest) rx = rest"
    using on_pipe_served [OF assms(3-5), of E] assms(6) by (auto simp: served_def split: option.splits)
  have "balanced L (concat (map asks rs)) l l1" by (rule handle_all_balanced [OF assms(1,2) h(1)])
  then show ?thesis using h cut_rest [OF assms(5)] by (auto simp: balanced_def link_ok_def outstanding_def pending_def rx_ok_def)
qed

lemma isr_balanced:
  assumes "link_ok L l" "host_ok L bus" "host_owner bus = host_owner (lk_bus l)"
  shows "balanced L [] l (l\<lparr> lk_bus := bus \<rparr>)"
  using assms by (simp add: balanced_def link_ok_def outstanding_def)

lemma link_run_balanced:
  assumes "link_ok L l" "host_env_ok E L" "rx_ok l" "cut_stream (pending l) = Some ([], pending l)"
    "cut_stream (pending l @ piped cs) = Some (rs, rest)" "link_run E cs l = Some l'"
  shows "balanced L (concat (map asks rs)) l l' \<and> pending l' = rest"
  using assms
proof (induction cs arbitrary: l rs)
  case (Cons c cs)
  obtain l1 where l1: "link_step E c l = Some l1" "link_run E cs l1 = Some l'" using Cons.prems(6) by (auto simp: bind_eq_Some_conv)
  have quiet: ?case if "balanced L [] l l1" "ls_rx l1 = ls_rx l" "ls_rx_len l1 = ls_rx_len l" "piped (c # cs) = piped cs"
  proof -
    have "pending l1 = pending l" "rx_ok l1" "link_ok L l1" using that Cons.prems(3) by (simp_all add: pending_def rx_ok_def balanced_def)
    then show ?thesis using Cons.IH [of l1 rs] Cons.prems l1(2) that balanced_trans [OF that(1)] by fastforce
  qed
  show ?case
  proof (cases c)
    case (LcPipe bytes)
    obtain rs1 rest1 where c1: "cut_stream (pending l @ bytes) = Some (rs1, rest1)"
      using Cons.prems(5) LcPipe cut_prefix [of "pending l @ bytes" "piped cs"] by auto
    then obtain rs2 where c2: "cut_stream (rest1 @ piped cs) = Some (rs2, rest)" "rs = rs1 @ rs2"
      using cut_append [OF c1, of "piped cs"] Cons.prems(5) LcPipe by (cases "cut_stream (rest1 @ piped cs)") auto
    have p: "balanced L (concat (map asks rs1)) l l1" "rx_ok l1" "pending l1 = rest1"
      using pipe_balanced [OF Cons.prems(1-4) c1] l1(1) LcPipe by auto
    then have "balanced L (concat (map asks rs2)) l1 l' \<and> pending l' = rest"
      using Cons.IH [of l1 rs2] Cons.prems(2) c2(1) cut_rest_idle [OF c1] l1(2) by (simp add: balanced_def)
    then show ?thesis using balanced_trans [OF p(1)] c2(2) by simp
  next
    case LcPump
    then show ?thesis using l1(1) pump_balanced [of E l l1 L] Cons.prems(1,2) by (intro quiet) (auto simp: pumped_def)
  next
    case LcTxComplete
    have "host_ok L (lk_bus l)" using Cons.prems(1) by (simp add: link_ok_def)
    then obtain bus where b: "host_on_tx_complete E (lk_bus l) = Some bus" "keeps L (lk_bus l) bus ObSilent" using tx_complete_ok by blast
    then have "balanced L [] l (l\<lparr> lk_bus := bus \<rparr>)" by (intro isr_balanced [OF Cons.prems(1)]) (auto simp: keeps_def elim: spec_step.cases)
    then show ?thesis using b l1(1) LcTxComplete by (intro quiet) auto
  next
    case LcDeadline
    have "keeps L (lk_bus l) (host_on_deadline E (lk_bus l)) ObSilent" using Cons.prems(1) by (intro deadline_ok) (simp add: link_ok_def)
    then have "balanced L [] l (l\<lparr> lk_bus := host_on_deadline E (lk_bus l) \<rparr>)"
      by (intro isr_balanced [OF Cons.prems(1)]) (auto simp: keeps_def elim: spec_step.cases)
    then show ?thesis using l1(1) LcDeadline by (intro quiet) auto
  next
    case LcTakeRequest
    then have "l1 = l\<lparr> ls_req := None \<rparr>" using l1(1) by (simp add: take_adapter_request_def)
    then show ?thesis using LcTakeRequest Cons.prems(1) by (intro quiet) (auto simp: balanced_def link_ok_def outstanding_def)
  qed
qed (auto simp: balanced_def)

lemma link_new_ok: "0 < L \<Longrightarrow> link_ok L (link_new (host_new rate))"
  using host_ok_new [of L rate] by (simp add: link_ok_def link_new_def) (simp add: host_owner_def host_new_def)

lemma link_new_rx: "rx_ok (link_new bus)" "pending (link_new bus) = []" "cut_stream [] = Some ([], [])"
  by (simp_all add: rx_ok_def pending_def link_new_def cut_stream_short)

text \<open>
  C23. Every request gets exactly one answer. Over any interleaving of pipe deliveries, pumps and interrupts
  from power-up, with the client's bytes chunked in any way: if the bytes form records, each complete one
  was served and the rest is buffered, and the sequence numbers of the SUBMITs and wire operations served
  are, counted with repetition, exactly those of the REJECTED, TERMINAL and WIRE_DONE records sent, plus
  the one of the operation still under way. That is at most one, and there is none exactly when the engine
  is free.
\<close>

theorem link_answers_once:
  assumes "host_env_ok E L" "link_run E cs (link_new (host_new rate)) = Some l" "cut_stream (piped cs) = Some (rs, rest)"
  shows "pending l = rest \<and> mset (concat (map asks rs)) = mset (concat (map answers (lk_sink l))) + mset (outstanding l) \<and>
    length (outstanding l) \<le> 1 \<and> (outstanding l = []) = (\<not> host_busy (lk_bus l))"
proof -
  have "ring_ok (he_ring E 0)" "length (he_ring E 0) = L" using assms(1) by (simp_all add: host_env_ok_def)
  then have "0 < L" using ring_okD(2) [of "he_ring E 0"] by simp
  then have b: "balanced L (concat (map asks rs)) (link_new (host_new rate)) l" "pending l = rest"
    using link_run_balanced [OF link_new_ok assms(1) link_new_rx(1), of rate cs rs rest l] assms(2,3) link_new_rx by auto
  then have "link_ok L l" "mset (concat (map asks rs)) = answered l + mset (outstanding l)"
    by (simp_all add: balanced_def) (simp add: link_new_def outstanding_def)
  then show ?thesis
    using b(2) by (cases "ls_active l"; cases "ls_wire_active l") (auto simp: link_ok_def outstanding_def busy_owner intro: owner.exhaust)
qed

definition quiet_link :: link_env where
  "quiet_link = \<lparr> he_now = \<lambda>n. of_nat n, he_cursor = \<lambda>n. 0, he_ring = \<lambda>n. replicate 512 0, he_ticks_per_us = 8,
     le_rises = \<lambda>n m. [], le_falls = \<lambda>n m. [], le_overflow = \<lambda>n. False \<rparr>"

lemma quiet_link_ok: "host_env_ok quiet_link 512"
  by (auto simp: host_env_ok_def quiet_link_def ring_ok_def FRAME_MAX_def footprint_def intro: exI [of _ 9])

text \<open>A rescue under sequence number 7, and a second one under 9 while the first is under way.\<close>

definition two_rescues :: "link_call list" where
  "two_rescues = [LcPipe [4, 0, 1, 7], LcPipe [0, 1, 4, 0, 1, 9, 0, 1]]"

theorem link_answers_once_witness:
  "\<exists>l. link_run quiet_link two_rescues (link_new (host_new B1000000)) = Some l \<and>
     {#7, 9#} = mset (concat (map answers (lk_sink l))) + mset (outstanding l)"
proof -
  have run: "link_run quiet_link two_rescues (link_new (host_new B1000000)) \<noteq> None" by code_simp
  then obtain l where l: "link_run quiet_link two_rescues (link_new (host_new B1000000)) = Some l" by auto
  have "cut_stream (piped two_rescues) = Some ([[1, 7, 0, 1], [1, 9, 0, 1]], [])" by code_simp
  moreover have "concat (map asks [[1, 7, 0, 1], [1, 9, 0, 1]]) = [7, 9]" by code_simp
  ultimately show ?thesis using l link_answers_once [OF quiet_link_ok l] by auto
qed

subsection \<open>Chunking\<close>

definition edges_ok :: "'e link_env_scheme \<Rightarrow> bool" where
  "edges_ok E \<longleftrightarrow> (\<forall>n m. length (le_rises E n m) \<le> m \<and> length (le_falls E n m) \<le> m)"

text \<open>A record the code defines: not a SUBMIT of an operation \<open>shape.rs\<close> has no arm for.\<close>

definition servable :: "bytes \<Rightarrow> bool" where
  "servable r \<longleftrightarrow> r \<noteq> [] \<and> length r \<le> RX_CAP - 2 \<and>
     (case submit_cmd (r ! 3) (drop 4 r) of Some cmd \<Rightarrow> callable (CallSubmit cmd) | None \<Rightarrow> True)"

lemma sink_total:
  assumes "length (ls_out l) = OUT_CAP" "builds b body" "2 + length body \<le> OUT_CAP"
  shows "sink_record b l \<noteq> None"
proof -
  obtain d where "b (ls_out l) = Some (d, framed body)" using assms unfolding builds_def by metis
  then show ?thesis by (simp add: sink_record_def)
qed

lemma sink_small:
  assumes "length (ls_out l) = OUT_CAP"
  shows "sink_record (rec_unknown x) l \<noteq> None" "sink_record (rec_rejected q reason) l \<noteq> None"
  by (rule sink_total [OF assms builds_records(3)], simp add: OUT_CAP_def)
    (rule sink_total [OF assms builds_records(2)], simp add: OUT_CAP_def)

lemma wire_call_total:
  assumes "host_ok L bus" "wire_call E t body bus = Some call"
  shows "call \<noteq> None"
proof -
  have "wire_send bus b \<noteq> None" "wire_train E bus b g k \<noteq> None" for b g k
    using wire_start_total [OF assms(1), of b None] wire_start_total [OF assms(1), of b "Some (k, ucast g * he_ticks_per_us E)"]
    by (auto simp: wire_send_def wire_train_def)
  then show ?thesis using assms(2) wire_burst_total [OF assms(1)] by (auto simp: wire_call_def split: if_splits)
qed

lemma handle_wire_total:
  assumes "link_ok L l"
  shows "handle_wire E r l \<noteq> None"
proof -
  have ok: "host_ok L (lk_bus l)" and out: "length (ls_out l) = OUT_CAP" using assms by (simp_all add: link_ok_def)
  have call: "wire_call E (r ! 0) (drop 3 r) (lk_bus l) \<noteq> Some None" using wire_call_total [OF ok, of E "r ! 0" "drop 3 r"] by auto
  have "sink_record (rec_rejected q reason) (l\<lparr> lk_bus := bus \<rparr>) \<noteq> None" for q reason bus by (rule sink_small) (simp add: out)
  then show ?thesis
    using sink_small [OF out] call unfolding handle_wire_def Let_def
    by (auto split: option.split sum.split submit_error.split simp: split_beta)
qed

lemma handle_submit_total:
  assumes "link_ok L l" "servable r"
  shows "handle_submit E r l \<noteq> None"
proof (cases "submit_cmd (r ! 3) (drop 4 r)")
  case None
  then show ?thesis using sink_small assms(1) by (simp add: handle_submit_def link_ok_def Let_def)
next
  case (Some cmd)
  have ok: "host_ok L (lk_bus l)" and out: "length (ls_out l) = OUT_CAP" using assms(1) by (simp_all add: link_ok_def)
  have "submit E (lk_bus l) cmd \<noteq> None" using assms(2) Some by (intro submit_total [OF ok]) (auto simp: servable_def)
  then obtain bus res where b: "submit E (lk_bus l) cmd = Some (bus, res)" by auto
  have "sink_record (rec_rejected q reason) (l\<lparr> lk_bus := bus \<rparr>) \<noteq> None" for q reason by (rule sink_small) (simp add: out)
  then show ?thesis
    using sink_small [OF out] Some b by (auto simp: handle_submit_def Let_def split: sum.split submit_error.split)
qed

lemma edge_drain_total:
  assumes "length (ls_out l) = OUT_CAP" "edges_ok E"
  shows "edge_drain E r l \<noteq> None"
proof -
  define m where "m = min (unat (r ! 1)) DRAIN_MAX"
  have m: "length (le_rises E n m) \<le> 64" "length (le_falls E n m) \<le> 64" for n
  proof -
    have "m \<le> 64" by (simp add: m_def DRAIN_MAX_def)
    then show "length (le_rises E n m) \<le> 64" "length (le_falls E n m) \<le> 64" using assms(2) order.trans unfolding edges_ok_def by metis+
  qed
  have "sink_record (rec_edges ov now (le_falls E a m) (le_rises E b m)) (l\<lparr> lk_edges := es, lk_bus := bus \<rparr>) \<noteq> None" for ov now a b es bus
    using m [of a] m [of b] assms(1) by (intro sink_total [OF _ builds_edges]) (simp_all add: edges_body_def OUT_CAP_def)
  then show ?thesis using m unfolding edge_drain_def Let_def m_def [symmetric] by (simp add: split_beta DRAIN_MAX_def not_less)
qed

lemma handle_total:
  assumes "link_ok L l" "edges_ok E" "servable r"
  shows "handle E r l \<noteq> None"
proof -
  have out: "length (ls_out l) = OUT_CAP" using assms(1) by (simp add: link_ok_def)
  have "sink_record (rec_info t) l \<noteq> None" "sink_record rec_bootloader_ack (l\<lparr> ls_req := q \<rparr>) \<noteq> None"
    "sink_record rec_capture_ack (l\<lparr> lk_edges := es \<rparr>) \<noteq> None" "sink_record (rec_rails_ack x) (l\<lparr> ls_rails := x, ls_req := q \<rparr>) \<noteq> None"
    "sink_record (rec_rails_ack x) (l\<lparr> ls_rails := x \<rparr>) \<noteq> None" "sink_record (rec_rails_ack x) l \<noteq> None" for t q es x
    by (rule sink_total [OF _ builds_records(1)] sink_total [OF _ builds_records(4)] sink_total [OF _ builds_records(7)]
        sink_total [OF _ builds_records(5)]; simp add: out; simp add: OUT_CAP_def)+
  note small = this
  have rails: "set_rails r l \<noteq> None" using small(4-6) unfolding set_rails_def Let_def by (simp split: if_split)
  obtain t where t: "nth_opt r 0 = Some t" using assms(3) by (cases r) (auto simp: servable_def nth_opt_def)
  show ?thesis
    unfolding handle_def t Option.bind.simps
    using small rails handle_wire_total [OF assms(1), of E r] handle_submit_total [OF assms(1,3), of E] edge_drain_total [OF out assms(2), of r] sink_small [OF out]
    by (simp split: if_split)
qed

lemma handle_all_total:
  assumes "link_ok L l" "host_env_ok E L" "edges_ok E" "\<forall>r \<in> set rs. servable r"
  shows "handle_all E rs l \<noteq> None"
  using assms
proof (induction rs arbitrary: l)
  case (Cons r rs)
  obtain l1 where l1: "handle E r l = Some l1" using handle_total [OF Cons.prems(1,3), of r] Cons.prems(4) by auto
  have "link_ok L l1" using handle_balanced [OF Cons.prems(1,2) l1] by (simp add: balanced_def)
  then show ?case using Cons.IH [OF _ Cons.prems(2,3)] Cons.prems(4) l1 by simp
qed simp

lemma cut_records: "\<forall>r \<in> set rs. servable r \<Longrightarrow> cut_stream (concat (map framed rs)) = Some (rs, [])"
  by (induction rs) (simp_all add: cut_stream_short cut_framed servable_def)

lemma pipes_served:
  assumes "rx_ok l" "cut_stream (pending l) = Some ([], pending l)" "cut_stream (pending l @ concat chunks) = Some (rs, rest)"
  shows "served rs rest E l (link_run E (map LcPipe chunks) l)"
  using assms
proof (induction chunks arbitrary: l rs)
  case Nil
  then show ?case by (auto simp: served_def rx_ok_def pending_def with_rx_def intro!: exI [of _ "ls_rx l"])
next
  case (Cons bytes chunks)
  obtain rs1 rest1 where c1: "cut_stream (pending l @ bytes) = Some (rs1, rest1)"
    using Cons.prems(3) cut_prefix [of "pending l @ bytes" "concat chunks"] by auto
  then obtain rs2 where c2: "cut_stream (rest1 @ concat chunks) = Some (rs2, rest)" "rs = rs1 @ rs2"
    using cut_append [OF c1, of "concat chunks"] Cons.prems(3) by (cases "cut_stream (rest1 @ concat chunks)") auto
  have "served rs rest E l (on_pipe E bytes l \<bind> link_run E (map LcPipe chunks))"
    unfolding c2(2)
  proof (rule served_compose [OF on_pipe_served [OF Cons.prems(1,2) c1]])
    show "length rest1 \<le> RX_CAP" using cut_rest [OF c1] by simp
  qed (use Cons.IH c2(1) cut_rest_idle [OF c1] in auto)
  then show ?case by simp
qed

text \<open>
  C24. Chunking carries no meaning. However the pipe splits a sequence of well-formed records, from single
  bytes to all at once, feeding the pieces in order does not panic and leaves the server, the engine and
  the records sent exactly as serving the records one after the other does, with nothing left in the
  reassembly buffer; only the stale bytes behind its fill level may differ.
\<close>

theorem pipe_chunking_irrelevant:
  assumes "host_env_ok E L" "edges_ok E" "\<forall>r \<in> set rs. servable r" "concat chunks = concat (map framed rs)"
  shows "\<exists>l rx. handle_all E rs (link_new (host_new rate)) = Some l \<and> length rx = RX_CAP \<and>
    link_run E (map LcPipe chunks) (link_new (host_new rate)) = Some (l\<lparr> ls_rx := rx, ls_rx_len := 0 \<rparr>)"
proof -
  have "ring_ok (he_ring E 0)" "length (he_ring E 0) = L" using assms(1) by (simp_all add: host_env_ok_def)
  then have "0 < L" using ring_okD(2) [of "he_ring E 0"] by simp
  then obtain l where l: "handle_all E rs (link_new (host_new rate)) = Some l"
    using handle_all_total [OF link_new_ok assms(1-3)] by blast
  have "served rs [] E (link_new (host_new rate)) (link_run E (map LcPipe chunks) (link_new (host_new rate)))"
    using cut_records [OF assms(3)] assms(4) link_new_rx by (intro pipes_served) auto
  then show ?thesis using l by (auto simp: served_def with_rx_def)
qed

theorem pipe_chunking_irrelevant_witness:
  "\<exists>l rx. handle_all quiet_link [[0], [1, 7, 0, 1]] (link_new (host_new B1000000)) = Some l \<and> length rx = RX_CAP \<and>
    link_run quiet_link (map LcPipe [[1], [0, 0, 4], [0, 1, 7, 0], [1]]) (link_new (host_new B1000000)) = Some (l\<lparr> ls_rx := rx, ls_rx_len := 0 \<rparr>)"
proof (rule pipe_chunking_irrelevant [OF quiet_link_ok])
  show "edges_ok quiet_link" by (simp add: edges_ok_def quiet_link_def)
  show "\<forall>r \<in> set [[0], [1, 7, 0, 1]]. servable r" by (simp add: servable_def RX_CAP_def submit_cmd_def osc_const)
  show "concat [[1], [0, 0, 4], [0, 1, 7, 0], [1]] = concat (map framed [[0], [1, 7, 0, 1]])" by (simp add: framed_def le16_bytes_def)
qed

end
