(* ===== verification/Client_Session.thy ===== *)
theory Client_Session
  imports Host_Answer
begin

text \<open>
  \<open>client/src/session.rs\<close>: the client's side of the record protocol. Encoders append a record to the
  outgoing bytes; \<open>next_record\<close> reassembles the incoming ones and decodes the adapter's records. The
  properties are the two round trips: what the adapter builds is what the client reads, and what the
  client encodes is what the adapter serves.
\<close>

subsection \<open>State\<close>

record link_info =
  li_version :: u8
  li_ticks_per_us :: u32

datatype client_record =
    CrInfo link_info
  | CrStatus u16 u8 u8 inst bytes
  | CrTerminal u16 outcome u32 u8 u16 bool
  | CrRejected u16 u8
  | CrBootloaderAck
  | CrRailsAck u8
  | CrWireDone u16 u32
  | CrEdges bool u32 "u16 list" "u16 list"
  | CrCaptureAck
  | CrUnknown u8

datatype reject_reason = RrBadId | RrBadInst | RrBadPayload | RrTooLong | RrBusy | RrMalformed | RrOther u8

datatype link_error = LeRejected reject_reason | LeDesync | LeMalformed

definition reject_from_byte :: "u8 \<Rightarrow> reject_reason" where
  "reject_from_byte b =
     (if b = REASON_BAD_ID then RrBadId else if b = REASON_BAD_INST then RrBadInst
      else if b = REASON_BAD_PAYLOAD then RrBadPayload else if b = REASON_TOO_LONG then RrTooLong
      else if b = REASON_BUSY then RrBusy else if b = REASON_MALFORMED then RrMalformed else RrOther b)"

record client_session =
  ss_rx :: bytes
  ss_next_seq :: u16

definition client_session_new :: client_session where
  "client_session_new = \<lparr> ss_rx = [], ss_next_seq = 0 \<rparr>"

definition alloc_seq :: "client_session \<Rightarrow> client_session \<times> u16" where
  "alloc_seq s =
     (let next = ss_next_seq s + 1
      in (s\<lparr> ss_next_seq := if next = SEQ_NONE then 0 else next \<rparr>, ss_next_seq s))"

subsection \<open>Encoders\<close>

definition session_frame :: "bytes \<Rightarrow> bytes \<Rightarrow> bytes" where
  "session_frame out body = out @ le16_bytes (of_nat (length body)) @ body"

definition encode_hello :: "bytes \<Rightarrow> bytes" where
  "encode_hello out = session_frame out [REC_HELLO]"

definition encode_enter_bootloader :: "bytes \<Rightarrow> bytes" where
  "encode_enter_bootloader out = session_frame out [REC_ENTER_BOOTLOADER]"

definition encode_set_rails :: "bytes \<Rightarrow> u8 \<Rightarrow> u8 \<Rightarrow> bytes" where
  "encode_set_rails out state rails_mask = session_frame out [REC_SET_RAILS, state, rails_mask]"

fun command_args :: "host_command \<Rightarrow> bytes" where
  "command_args (CmdExchange i inst payload) = VERB_EXCHANGE # i # inst # payload"
| "command_args CmdRescue = [VERB_RESCUE]"
| "command_args (CmdHostBaud rate) = [VERB_HOST_BAUD, baud_as_idx rate]"
| "command_args (CmdSetResponseDeadline us) = VERB_SET_RESPONSE_DEADLINE # le16_bytes us"

definition encode_submit :: "client_session \<Rightarrow> bytes \<Rightarrow> host_command \<Rightarrow> client_session \<times> bytes \<times> u16" where
  "encode_submit s out cmd =
     (let (s, seq) = alloc_seq s
      in (s, session_frame out ([REC_SUBMIT, ucast seq, ucast (drop_bit 8 seq)] @ command_args cmd), seq))"

definition encode_wire_op :: "client_session \<Rightarrow> bytes \<Rightarrow> u8 \<Rightarrow> bytes \<Rightarrow> client_session \<times> bytes \<times> u16" where
  "encode_wire_op s out rtype body =
     (let (s, seq) = alloc_seq s
      in (s, session_frame out ([rtype, ucast seq, ucast (drop_bit 8 seq)] @ body), seq))"

definition encode_wire_send :: "client_session \<Rightarrow> bytes \<Rightarrow> bytes \<Rightarrow> client_session \<times> bytes \<times> u16" where
  "encode_wire_send s out bytes = encode_wire_op s out REC_WIRE_SEND bytes"

definition encode_wire_burst :: "client_session \<Rightarrow> bytes \<Rightarrow> bytes \<Rightarrow> client_session \<times> bytes \<times> u16" where
  "encode_wire_burst s out stream = encode_wire_op s out REC_WIRE_BURST stream"

definition encode_wire_pulse :: "client_session \<Rightarrow> bytes \<Rightarrow> u16 \<Rightarrow> client_session \<times> bytes \<times> u16" where
  "encode_wire_pulse s out us = encode_wire_op s out REC_WIRE_PULSE (le16_bytes us)"

definition encode_wire_train :: "client_session \<Rightarrow> bytes \<Rightarrow> bytes \<Rightarrow> u16 \<Rightarrow> u8 \<Rightarrow> client_session \<times> bytes \<times> u16" where
  "encode_wire_train s out announce gap_us breaks =
     encode_wire_op s out REC_WIRE_TRAIN (le16_bytes gap_us @ [breaks] @ announce)"

definition encode_wire_baud :: "client_session \<Rightarrow> bytes \<Rightarrow> u32 \<Rightarrow> client_session \<times> bytes \<times> u16" where
  "encode_wire_baud s out bps = encode_wire_op s out REC_WIRE_BAUD (le32_bytes bps)"

definition encode_edge_drain :: "bytes \<Rightarrow> u8 \<Rightarrow> bytes" where
  "encode_edge_drain out cap = session_frame out [REC_EDGE_DRAIN, cap]"

definition encode_capture_reset :: "bytes \<Rightarrow> bytes" where
  "encode_capture_reset out = session_frame out [REC_CAPTURE_RESET]"

subsection \<open>Decoding\<close>

definition on_bytes :: "client_session \<Rightarrow> bytes \<Rightarrow> client_session" where
  "on_bytes s chunk = s\<lparr> ss_rx := ss_rx s @ chunk \<rparr>"

definition le16_at :: "bytes \<Rightarrow> nat \<Rightarrow> u16 option" where
  "le16_at body k = do { f \<leftarrow> slice_opt body k (k + 2); Some (le16 (f ! 0) (f ! 1)) }"

definition le32_at :: "bytes \<Rightarrow> nat \<Rightarrow> u32 option" where
  "le32_at body k = do { f \<leftarrow> slice_opt body k (k + 4); Some (le32 (f ! 0) (f ! 1) (f ! 2) (f ! 3)) }"

definition decode_outcome :: "bytes \<Rightarrow> outcome option" where
  "decode_outcome body =
     do { b \<leftarrow> nth_opt body 3;
          if b = OUTCOME_SENT then Some OcSent
          else if b = OUTCOME_COMPLETE then Some OcComplete
          else if b = OUTCOME_TIMEOUT then do { slot \<leftarrow> nth_opt body 4; Some (OcTimeout slot) }
          else None }"

definition decode_edges :: "bytes \<Rightarrow> client_record option" where
  "decode_edges body =
     do { f \<leftarrow> nth_opt body 6;
          r \<leftarrow> nth_opt body 7;
          ticks \<leftarrow> slice_opt body 8 (8 + 2 * (unat f + unat r));
          flags \<leftarrow> nth_opt body 1;
          now \<leftarrow> le32_at body 2;
          let tick = (\<lambda>i. le16 (ticks ! (2 * i)) (ticks ! (2 * i + 1)));
          Some (CrEdges (flags AND 1 \<noteq> 0) now (map tick [0..<unat f]) (map tick [unat f..<unat f + unat r])) }"

text \<open>\<open>None\<close> is \<open>LinkError::Malformed\<close>, the only error of \<open>decode\<close>.\<close>

definition decode_record :: "bytes \<Rightarrow> client_record option" where
  "decode_record body =
     do { t \<leftarrow> nth_opt body 0;
          if t = REC_INFO
          then do { v \<leftarrow> nth_opt body 1; tpu \<leftarrow> le32_at body 2; Some (CrInfo \<lparr> li_version = v, li_ticks_per_us = tpu \<rparr>) }
          else if t = REC_STATUS
          then do { seq \<leftarrow> le16_at body 1; slot \<leftarrow> nth_opt body 3; i \<leftarrow> nth_opt body 4; inst \<leftarrow> nth_opt body 5;
                    Some (CrStatus seq slot i inst (drop 6 body)) }
          else if t = REC_TERMINAL
          then do { oc \<leftarrow> decode_outcome body; seq \<leftarrow> le16_at body 1; tick \<leftarrow> le32_at body 5; statuses \<leftarrow> nth_opt body 9;
                    garble \<leftarrow> le16_at body 10; flags \<leftarrow> nth_opt body 12;
                    Some (CrTerminal seq oc tick statuses garble (flags AND FLAG_GARBLE_AFTER_LAST_FRAME \<noteq> 0)) }
          else if t = REC_REJECTED then do { seq \<leftarrow> le16_at body 1; reason \<leftarrow> nth_opt body 3; Some (CrRejected seq reason) }
          else if t = REC_BOOTLOADER_ACK then Some CrBootloaderAck
          else if t = REC_RAILS_ACK then do { state \<leftarrow> nth_opt body 1; Some (CrRailsAck state) }
          else if t = REC_WIRE_DONE then do { seq \<leftarrow> le16_at body 1; tick \<leftarrow> le32_at body 3; Some (CrWireDone seq tick) }
          else if t = REC_EDGES then decode_edges body
          else if t = REC_CAPTURE_ACK then Some CrCaptureAck
          else if t = REC_UNKNOWN then do { rtype \<leftarrow> nth_opt body 1; Some (CrUnknown rtype) }
          else None }"

definition session_next :: "client_session \<Rightarrow> client_session \<times> (link_error + client_record option)" where
  "session_next s =
     (if length (ss_rx s) < 2 then (s, Inr None)
      else if rec_len (ss_rx s) = 0 then (s, Inl LeMalformed)
      else if length (ss_rx s) < 2 + rec_len (ss_rx s) then (s, Inr None)
      else case decode_record (take (rec_len (ss_rx s)) (drop 2 (ss_rx s))) of
             None \<Rightarrow> (s, Inl LeMalformed)
           | Some r \<Rightarrow> (s\<lparr> ss_rx := drop (2 + rec_len (ss_rx s)) (ss_rx s) \<rparr>, Inr (Some r)))"

subsection \<open>What the adapter builds is what the client reads\<close>

text \<open>The adapter's builder for a record; \<open>k\<close> is where the payload of a STATUS wraps around the ring.\<close>

fun adapter_build :: "nat \<Rightarrow> client_record \<Rightarrow> bytes \<Rightarrow> (bytes \<times> bytes) option" where
  "adapter_build k (CrInfo info) = (if li_version info = LINK_VERSION then rec_info (li_ticks_per_us info) else (\<lambda>dst. None))"
| "adapter_build k (CrStatus seq slot i inst payload) = rec_status seq slot i inst (take k payload, drop k payload)"
| "adapter_build k (CrTerminal seq oc tick statuses garble trailing) =
     rec_terminal seq \<lparr> tm_outcome = oc, tm_tick = tick,
       tm_evidence = \<lparr> we_statuses = statuses, we_garble = garble, we_garble_after_last_frame = trailing \<rparr> \<rparr>"
| "adapter_build k (CrRejected seq reason) = rec_rejected seq reason"
| "adapter_build k CrBootloaderAck = rec_bootloader_ack"
| "adapter_build k (CrRailsAck state) = rec_rails_ack state"
| "adapter_build k (CrWireDone seq tick) = rec_wire_done seq tick"
| "adapter_build k (CrEdges overflow now falls rises) = rec_edges overflow now falls rises"
| "adapter_build k CrCaptureAck = rec_capture_ack"
| "adapter_build k (CrUnknown rtype) = rec_unknown rtype"

fun record_body :: "client_record \<Rightarrow> bytes" where
  "record_body (CrInfo info) = REC_INFO # LINK_VERSION # le32_bytes (li_ticks_per_us info)"
| "record_body (CrStatus seq slot i inst payload) = REC_STATUS # le16_bytes seq @ [slot, i, inst] @ payload"
| "record_body (CrTerminal seq oc tick statuses garble trailing) =
     terminal_body seq \<lparr> tm_outcome = oc, tm_tick = tick,
       tm_evidence = \<lparr> we_statuses = statuses, we_garble = garble, we_garble_after_last_frame = trailing \<rparr> \<rparr>"
| "record_body (CrRejected seq reason) = REC_REJECTED # le16_bytes seq @ [reason]"
| "record_body CrBootloaderAck = [REC_BOOTLOADER_ACK]"
| "record_body (CrRailsAck state) = [REC_RAILS_ACK, state]"
| "record_body (CrWireDone seq tick) = REC_WIRE_DONE # le16_bytes seq @ le32_bytes tick"
| "record_body (CrEdges overflow now falls rises) = edges_body overflow now falls rises"
| "record_body CrCaptureAck = [REC_CAPTURE_ACK]"
| "record_body (CrUnknown rtype) = [REC_UNKNOWN, rtype]"

lemma le_at_simps:
  "le16_at (le16_bytes w @ r) 0 = Some w" "le32_at (le32_bytes v @ r) 0 = Some v"
  "le16_at (x # r) (Suc k) = le16_at r k" "le32_at (x # r) (Suc k) = le32_at r k"
  by (simp_all add: le16_at_def le32_at_def slice_opt_def le16_bytes_def le32_bytes_def)

lemma nth_ticks:
  "i < length ts \<Longrightarrow> le16 (concat (map le16_bytes ts) ! (2 * i)) (concat (map le16_bytes ts) ! (2 * i + 1)) = ts ! i"
proof (induction ts arbitrary: i)
  case (Cons t ts)
  show ?case
  proof (cases i)
    case (Suc j)
    then show ?thesis using Cons.IH [of j] Cons.prems by (simp add: le16_bytes_def)
  qed (simp add: le16_bytes_def)
qed simp

lemma decode_edges_body:
  assumes "length falls + length rises \<le> 255"
  shows "decode_edges (edges_body overflow now falls rises) = Some (CrEdges overflow now falls rises)"
proof -
  define f where "f = (of_nat (length falls) :: u8)"
  define r where "r = (of_nat (length rises) :: u8)"
  have n: "unat f = length falls" "unat r = length rises" using assms by (simp_all add: f_def r_def unat_of_nat8)
  define ts where "ts = concat (map le16_bytes (falls @ rises))"
  have body: "edges_body overflow now falls rises =
      REC_EDGES # (if overflow then 1 else 0) # ucast now # ucast (drop_bit 8 now) # ucast (drop_bit 16 now) # ucast (drop_bit 24 now) # f # r # ts"
    by (simp add: edges_body_def le32_bytes_def f_def r_def ts_def)
  have len: "length ts = 2 * length falls + 2 * length rises" by (simp add: ts_def)
  have tick: "le16 (ts ! (2 * i)) (ts ! (2 * i + 1)) = (falls @ rises) ! i" if "i < length falls + length rises" for i
    using nth_ticks [of i "falls @ rises"] that by (simp add: ts_def)
  have "map (\<lambda>i. le16 (ts ! (2 * i)) (ts ! (2 * i + 1))) [0..<length falls] = falls"
    "map (\<lambda>i. le16 (ts ! (2 * i)) (ts ! (2 * i + 1))) [length falls..<length falls + length rises] = rises"
  proof -
    show "map (\<lambda>i. le16 (ts ! (2 * i)) (ts ! (2 * i + 1))) [0..<length falls] = falls"
      by (rule nth_equalityI) (use tick in \<open>simp_all add: nth_append\<close>)
    show "map (\<lambda>i. le16 (ts ! (2 * i)) (ts ! (2 * i + 1))) [length falls..<length falls + length rises] = rises"
    proof (rule nth_equalityI)
      fix i
      assume "i < length (map (\<lambda>i. le16 (ts ! (2 * i)) (ts ! (2 * i + 1))) [length falls..<length falls + length rises])"
      then show "map (\<lambda>i. le16 (ts ! (2 * i)) (ts ! (2 * i + 1))) [length falls..<length falls + length rises] ! i = rises ! i"
        using tick [of "length falls + i"] by (simp add: nth_append)
    qed simp
  qed
  then show ?thesis
    by (simp add: decode_edges_def body n len le32_at_def slice_opt_def Let_def)
qed

lemma decode_record_body:
  assumes "2 + length (record_body x) \<le> OUT_CAP" "\<And>info. x = CrInfo info \<Longrightarrow> li_version info = LINK_VERSION"
  shows "decode_record (record_body x) = Some x"
proof (cases x)
  case (CrEdges overflow now falls rises)
  then have "length falls + length rises \<le> 255" using assms(1) by (simp add: edges_body_def OUT_CAP_def)
  then have "decode_edges (record_body x) = Some x" using decode_edges_body [of falls rises overflow now] CrEdges by simp
  moreover have "nth_opt (record_body x) 0 = Some REC_EDGES" using CrEdges by (simp add: edges_body_def nth_opt_def)
  ultimately show ?thesis unfolding decode_record_def by (simp add: osc_const)
next
  case (CrTerminal seq oc tick statuses garble trailing)
  then show ?thesis
    by (cases oc) (simp_all add: decode_record_def terminal_body_def decode_outcome_def le16_at_def le32_at_def slice_opt_def
        le16_bytes_def le32_bytes_def nth_opt_def osc_const)
qed (use assms(2) in \<open>auto simp: decode_record_def le16_at_def le32_at_def slice_opt_def le16_bytes_def le32_bytes_def nth_opt_def osc_const\<close>)

lemma adapter_builds:
  assumes "\<And>info. x = CrInfo info \<Longrightarrow> li_version info = LINK_VERSION"
  shows "builds (adapter_build k x) (record_body x)"
proof (cases x)
  case (CrStatus seq slot i inst payload)
  then show ?thesis using builds_status [of seq slot i inst "take k payload" "drop k payload"] by simp
qed (use assms builds_records builds_terminal builds_edges in simp_all)

lemma record_body_ne: "record_body x \<noteq> []"
  by (cases x) (simp_all add: terminal_body_def edges_body_def)

lemma session_next_framed:
  assumes "body \<noteq> []" "length body < 65536" "decode_record body = Some x"
  shows "session_next (s\<lparr> ss_rx := framed body @ rest \<rparr>) = (s\<lparr> ss_rx := rest \<rparr>, Inr (Some x))"
proof -
  have "unat (of_nat (length body) :: u16) = length body" using assms(2) by (intro unat_of_nat16) simp
  then have "rec_len (framed body @ rest) = length body" by (simp add: rec_len_def framed_def le16_bytes_def)
  then show ?thesis using assms(1,3) by (simp add: session_next_def framed_def)
qed

lemma session_next_partial:
  assumes "body \<noteq> []" "length body < 65536" "framed body = p @ q" "q \<noteq> []"
  shows "session_next (s\<lparr> ss_rx := p \<rparr>) = (s\<lparr> ss_rx := p \<rparr>, Inr None)"
proof (cases "length p < 2")
  case False
  have "unat (of_nat (length body) :: u16) = length body" using assms(2) by (intro unat_of_nat16) simp
  then have "rec_len (framed body) = length body" by (simp add: rec_len_def framed_def le16_bytes_def)
  moreover have "rec_len (p @ q) = rec_len p" using False by (auto simp: rec_len_def nth_append)
  moreover have "length p + length q = 2 + length body" using arg_cong [OF assms(3), of length] by (simp add: framed_def)
  ultimately have "rec_len p = length body" "length p < 2 + length body" using assms(3,4) by (cases q; simp)+
  then show ?thesis using False assms(1) by (simp add: session_next_def)
qed (simp add: session_next_def)

text \<open>
  C25. What the adapter sends is what the client reads. Every record the adapter's builders can put in
  their buffer, with the payload of a status split anywhere by the receive ring, comes out of the client's
  session as that record, byte for byte, leaving the bytes behind it for the next; and while any part of
  it is still missing the session waits and keeps what it has.
\<close>

theorem adapter_record_round_trip:
  assumes "length dst = OUT_CAP" "2 + length (record_body x) \<le> OUT_CAP" "\<forall>info. x = CrInfo info \<longrightarrow> li_version info = LINK_VERSION"
  shows "\<exists>d bytes. adapter_build k x dst = Some (d, bytes) \<and> length d = OUT_CAP \<and>
    session_next (s\<lparr> ss_rx := bytes @ rest \<rparr>) = (s\<lparr> ss_rx := rest \<rparr>, Inr (Some x)) \<and>
    (\<forall>p q. bytes = p @ q \<and> q \<noteq> [] \<longrightarrow> session_next (s\<lparr> ss_rx := p \<rparr>) = (s\<lparr> ss_rx := p \<rparr>, Inr None))"
proof -
  obtain d where d: "adapter_build k x dst = Some (d, framed (record_body x))" "length d = OUT_CAP"
    using adapter_builds [of x k] assms unfolding builds_def by metis
  have len: "length (record_body x) < 65536" using assms(2) by (simp add: OUT_CAP_def)
  have dec: "decode_record (record_body x) = Some x" using assms(2,3) by (intro decode_record_body) auto
  show ?thesis
    using d session_next_framed [OF record_body_ne len dec] session_next_partial [OF record_body_ne len] by blast
qed

theorem adapter_record_round_trip_witness:
  "\<exists>d bytes. adapter_build 1 (CrStatus 0x1234 0 5 0x80 [7, 0, 1]) (replicate 300 0) = Some (d, bytes) \<and>
    session_next (client_session_new\<lparr> ss_rx := bytes @ [9] \<rparr>) = (client_session_new\<lparr> ss_rx := [9] \<rparr>, Inr (Some (CrStatus 0x1234 0 5 0x80 [7, 0, 1])))"
  using adapter_record_round_trip [of "replicate 300 0" "CrStatus 0x1234 0 5 0x80 [7, 0, 1]" 1 "[9]" client_session_new]
  by (simp add: OUT_CAP_def) blast

subsection \<open>What the client encodes is what the adapter serves\<close>

definition session_ok :: "client_session \<Rightarrow> bool" where
  "session_ok s \<longleftrightarrow> ss_next_seq s \<noteq> SEQ_NONE"

text \<open>A client request, the record it is encoded as, and what the adapter does with it.\<close>

datatype client_request =
  RqSubmit host_command | RqSend bytes | RqBurst bytes | RqPulse u16 | RqTrain bytes u16 u8 | RqBaud u32

fun encode_request :: "client_request \<Rightarrow> client_session \<Rightarrow> bytes \<Rightarrow> client_session \<times> bytes \<times> u16" where
  "encode_request (RqSubmit cmd) s out = encode_submit s out cmd"
| "encode_request (RqSend bytes) s out = encode_wire_send s out bytes"
| "encode_request (RqBurst stream) s out = encode_wire_burst s out stream"
| "encode_request (RqPulse us) s out = encode_wire_pulse s out us"
| "encode_request (RqTrain announce gap_us breaks) s out = encode_wire_train s out announce gap_us breaks"
| "encode_request (RqBaud bps) s out = encode_wire_baud s out bps"

fun engine_call :: "'e host_env_scheme \<Rightarrow> client_request \<Rightarrow> host_bus \<Rightarrow> (host_bus \<times> (submit_error + unit)) option" where
  "engine_call E (RqSubmit cmd) bus = submit E bus cmd"
| "engine_call E (RqSend bytes) bus = wire_send bus bytes"
| "engine_call E (RqBurst stream) bus = wire_burst bus stream"
| "engine_call E (RqPulse us) bus = Some (wire_pulse_low E bus us)"
| "engine_call E (RqTrain announce gap_us breaks) bus = wire_train E bus announce gap_us breaks"
| "engine_call E (RqBaud bps) bus = Some (wire_baud E bus bps)"

definition is_submit :: "client_request \<Rightarrow> bool" where
  "is_submit rq \<longleftrightarrow> (\<exists>cmd. rq = RqSubmit cmd)"

definition refusal :: "client_request \<Rightarrow> submit_error \<Rightarrow> u8" where
  "refusal rq e = (case e of SeBusy \<Rightarrow> REASON_BUSY | SeInvalid r \<Rightarrow> if is_submit rq then reason_code r else REASON_MALFORMED)"

text \<open>A break train with an empty announce never reaches the engine.\<close>

fun unannounced :: "client_request \<Rightarrow> bool" where
  "unannounced (RqTrain [] gap_us breaks) \<longleftrightarrow> True"
| "unannounced _ \<longleftrightarrow> False"

definition serve_request :: "'e host_env_scheme \<Rightarrow> client_request \<Rightarrow> u16 \<Rightarrow> link \<Rightarrow> link option" where
  "serve_request E rq seq l =
     (if unannounced rq then sink_record (rec_rejected seq REASON_MALFORMED) l
      else do { (bus, res) \<leftarrow> engine_call E rq (lk_bus l);
                let l = l\<lparr> lk_bus := bus \<rparr>;
                case res of
                  Inr _ \<Rightarrow> Some (if is_submit rq then l\<lparr> ls_active := Some seq \<rparr> else l\<lparr> ls_wire_active := Some seq \<rparr>)
                | Inl e \<Rightarrow> sink_record (rec_rejected seq (refusal rq e)) l })"

lemma submit_cmd_args: "submit_cmd (command_args cmd ! 0) (tl (command_args cmd)) = Some cmd"
  by (cases cmd) (simp_all add: submit_cmd_def osc_const le16_bytes_def)

lemma handle_submit_served:
  assumes "body = REC_SUBMIT # le16_bytes seq @ command_args cmd"
  shows "handle E body l = serve_request E (RqSubmit cmd) seq l"
proof -
  obtain v args where a: "command_args cmd = v # args" by (cases cmd) simp_all
  have "submit_cmd v args = Some cmd" using submit_cmd_args [of cmd] a by simp
  then have "handle_submit E body l = serve_request E (RqSubmit cmd) seq l"
    by (auto simp: assms a handle_submit_def serve_request_def le16_bytes_def is_submit_def refusal_def Let_def
        split: submit_error.split sum.split intro!: Option.bind_cong)
  moreover have "handle E body l = handle_submit E body l"
    using assms by (simp add: handle_def nth_opt_def is_wire_type_def) (simp add: osc_const)
  ultimately show ?thesis by simp
qed

lemma handle_wire_served:
  assumes "rec = t # le16_bytes seq @ body" "wire_call E t body (lk_bus l) = Some (engine_call E rq (lk_bus l))" "\<not> is_submit rq" "is_wire_type t" "\<not> unannounced rq"
  shows "handle E rec l = serve_request E rq seq l"
proof -
  have "handle_wire E rec l = serve_request E rq seq l"
    using assms(2,3,5) by (auto simp: assms(1) handle_wire_def serve_request_def le16_bytes_def refusal_def Let_def
        split: submit_error.split sum.split intro!: Option.bind_cong)
  moreover have "t \<noteq> REC_HELLO" "t \<noteq> REC_ENTER_BOOTLOADER" "t \<noteq> REC_SET_RAILS" using assms(4) by (auto simp: is_wire_type_def osc_const)
  ultimately show ?thesis using assms(4) by (simp add: handle_def nth_opt_def assms(1))
qed

text \<open>The body of a request's record.\<close>

fun request_body :: "client_request \<Rightarrow> u16 \<Rightarrow> bytes" where
  "request_body (RqSubmit cmd) seq = REC_SUBMIT # le16_bytes seq @ command_args cmd"
| "request_body (RqSend bytes) seq = REC_WIRE_SEND # le16_bytes seq @ bytes"
| "request_body (RqBurst stream) seq = REC_WIRE_BURST # le16_bytes seq @ stream"
| "request_body (RqPulse us) seq = REC_WIRE_PULSE # le16_bytes seq @ le16_bytes us"
| "request_body (RqTrain announce gap_us breaks) seq = REC_WIRE_TRAIN # le16_bytes seq @ le16_bytes gap_us @ [breaks] @ announce"
| "request_body (RqBaud bps) seq = REC_WIRE_BAUD # le16_bytes seq @ le32_bytes bps"

lemma encode_request_record:
  "encode_request rq s out = (fst (alloc_seq s), out @ framed (request_body rq (ss_next_seq s)), ss_next_seq s)"
  by (cases rq) (simp_all add: encode_submit_def encode_wire_send_def encode_wire_burst_def encode_wire_pulse_def encode_wire_train_def
      encode_wire_baud_def encode_wire_op_def alloc_seq_def session_frame_def framed_def le16_bytes_def Let_def)

lemma request_served: "handle E (request_body rq seq) l = serve_request E rq seq l"
proof (cases rq)
  case (RqSubmit cmd)
  then show ?thesis using handle_submit_served [of "request_body rq seq" seq cmd E l] by simp
next
  case (RqTrain a g b)
  show ?thesis
  proof (cases a)
    case Nil
    have "handle_wire E (request_body rq seq) l = sink_record (rec_rejected seq REASON_MALFORMED) l"
      by (simp add: RqTrain Nil handle_wire_def wire_call_def le16_bytes_def osc_const)
    then show ?thesis by (simp add: RqTrain Nil handle_def nth_opt_def is_wire_type_def serve_request_def) (simp add: osc_const)
  next
    case (Cons x xs)
    show ?thesis
      by (rule handle_wire_served [where t = REC_WIRE_TRAIN and body = "le16_bytes g @ [b] @ a"])
        (simp_all add: RqTrain Cons wire_call_def is_wire_type_def is_submit_def le16_bytes_def, simp_all add: osc_const)
  qed
qed (rule handle_wire_served; simp add: wire_call_def is_wire_type_def is_submit_def le16_bytes_def le32_bytes_def; simp add: osc_const)+

text \<open>A run of requests: what the client puts into the pipe, under which sequence numbers, and the calls they ask for.\<close>

fun encode_requests :: "client_request list \<Rightarrow> client_session \<Rightarrow> bytes \<Rightarrow> client_session \<times> bytes \<times> u16 list" where
  "encode_requests [] s out = (s, out, [])"
| "encode_requests (rq # rqs) s out =
     (let (s, out, seq) = encode_request rq s out; (s, out, seqs) = encode_requests rqs s out in (s, out, seq # seqs))"

fun serve_requests :: "'e link_env_scheme \<Rightarrow> (client_request \<times> u16) list \<Rightarrow> link \<Rightarrow> link option" where
  "serve_requests E [] l = Some l"
| "serve_requests E ((rq, seq) # rqs) l = do { l \<leftarrow> serve_request E rq seq l; serve_requests E rqs l }"

text \<open>The adapter's reassembly buffer takes records up to \<open>RX_CAP - 2\<close> bytes.\<close>

definition request_fits :: "client_request \<Rightarrow> bool" where
  "request_fits rq \<longleftrightarrow> length (request_body rq 0) \<le> RX_CAP - 2"

lemma request_body_length: "length (request_body rq seq) = length (request_body rq 0)" "request_body rq seq \<noteq> []"
  by (cases rq; simp add: le16_bytes_def)+

lemma asks_request: "asks (request_body rq seq) = [seq]"
proof (cases rq)
  case (RqSubmit cmd)
  then show ?thesis by (cases cmd) (simp_all add: asks_def le16_bytes_def)
qed (simp_all add: asks_def is_wire_type_def le16_bytes_def)

lemma serve_requests_handle: "length seqs = length rqs \<Longrightarrow> handle_all E (map2 request_body rqs seqs) l = serve_requests E (zip rqs seqs) l"
proof (induction rqs arbitrary: seqs l)
  case (Cons rq rqs)
  then show ?case by (cases seqs) (auto simp: request_served intro!: Option.bind_cong)
qed simp

lemma alloc_seq_next: "session_ok s \<Longrightarrow> unat (ss_next_seq (fst (alloc_seq s))) = (unat (ss_next_seq s) + 1) mod 65535 \<and> session_ok (fst (alloc_seq s))"
proof -
  assume ok: "session_ok s"
  define q where "q = ss_next_seq s"
  have ne: "unat q \<noteq> 65535" using ok unsigned_word_eqI [of q SEQ_NONE, where ?'a = nat] by (auto simp: session_ok_def q_def SEQ_NONE_def)
  have lt: "unat q < 65536" using unsigned_less [of q, where ?'a = nat] by simp
  have inc: "unat (q + 1) = unat q + 1" using ne lt by (simp add: unat_word_ariths)
  show ?thesis
  proof (cases "q + 1 = SEQ_NONE")
    case True
    then have "unat q + 1 = 65535" unfolding inc [symmetric] by (simp add: SEQ_NONE_def)
    then show ?thesis using True by (simp add: alloc_seq_def session_ok_def q_def SEQ_NONE_def)
  next
    case False
    then have "unat q + 1 \<noteq> 65535" unfolding inc [symmetric] using unsigned_word_eqI [of "q + 1" SEQ_NONE, where ?'a = nat] by (auto simp: SEQ_NONE_def)
    then show ?thesis using False ne lt inc by (simp add: alloc_seq_def session_ok_def q_def)
  qed
qed

lemma encode_requests_exact:
  assumes "session_ok s" "encode_requests rqs s out = (s', out', seqs)"
  shows "session_ok s' \<and> length seqs = length rqs \<and> out' = out @ concat (map framed (map2 request_body rqs seqs)) \<and>
    map unat seqs = map (\<lambda>k. (unat (ss_next_seq s) + k) mod 65535) [0..<length rqs] \<and> SEQ_NONE \<notin> set seqs"
  using assms
proof (induction rqs arbitrary: s out seqs)
  case (Cons rq rqs)
  define s1 where "s1 = fst (alloc_seq s)"
  obtain seqs1 where r: "encode_requests rqs s1 (out @ framed (request_body rq (ss_next_seq s))) = (s', out', seqs1)" "seqs = ss_next_seq s # seqs1"
    using Cons.prems(2) by (auto simp: encode_request_record s1_def Let_def split: prod.splits)
  have n: "unat (ss_next_seq s1) = (unat (ss_next_seq s) + 1) mod 65535" "session_ok s1" using alloc_seq_next [OF Cons.prems(1)] by (simp_all add: s1_def)
  have "unat (ss_next_seq s) \<noteq> 65535" using Cons.prems(1) unsigned_word_eqI [of "ss_next_seq s" SEQ_NONE, where ?'a = nat]
    by (auto simp: session_ok_def SEQ_NONE_def)
  then have "unat (ss_next_seq s) mod 65535 = unat (ss_next_seq s)" using unsigned_less [of "ss_next_seq s", where ?'a = nat] by simp
  then show ?case using Cons.IH [OF n(2) r(1)] Cons.prems(1) r(2)
    by (simp add: n(1) upt_conv_Cons map_Suc_upt [symmetric] mod_add_left_eq comp_def session_ok_def del: map_Suc_upt upt_Suc)
qed simp

lemma seq_distinct: "n \<le> 65535 \<Longrightarrow> distinct (map (\<lambda>k. (a + k) mod 65535) [0..<n :: nat])"
proof -
  assume n: "n \<le> 65535"
  have no: "(a + y) mod 65535 \<noteq> (a + x) mod 65535" if "x < y" "y < n" for x y
  proof
    assume "(a + y) mod 65535 = (a + x) mod 65535"
    then have "65535 dvd (a + y) - (a + x)" using that by (subst (asm) mod_eq_dvd_iff_nat) auto
    then show False using that n by (auto dest: dvd_imp_le)
  qed
  then have "inj_on (\<lambda>k. (a + k) mod 65535) {0..<n}" by (intro linorder_inj_onI) (auto dest: sym)
  then show ?thesis by (simp add: distinct_map)
qed

text \<open>
  C26. What the client asks for is what the engine is asked to do. However many submit and wire operations
  the client encodes, they go out under sequence numbers that are never the reserved one and that are
  pairwise different for up to 65535 operations in a row, and one record each, which asks under that number.
  However the pipe then splits these bytes, provided that every record fits the adapter's reassembly buffer,
  the adapter ends exactly where serving the requests one after the other ends: each is the very engine
  call with the very arguments the client named; accepted, its sequence number owns the engine until the
  closing event; refused, it comes back in a REJECTED with the engine's reason, or as malformed when a break
  train has no announce.
\<close>

theorem client_requests_arrive:
  assumes "session_ok s" "encode_requests rqs s [] = (s', out, seqs)" "\<forall>rq \<in> set rqs. request_fits rq"
    "length (ls_rx l) = RX_CAP" "ls_rx_len l = 0" "concat chunks = out"
  shows "session_ok s' \<and> SEQ_NONE \<notin> set seqs \<and> (length rqs \<le> 65535 \<longrightarrow> distinct seqs) \<and>
    (\<exists>bodies. out = concat (map framed bodies) \<and> length bodies = length rqs \<and> map asks bodies = map (\<lambda>q. [q]) seqs) \<and>
    (\<exists>rx. length rx = RX_CAP \<and>
      link_run E (map LcPipe chunks) l = map_option (\<lambda>l. l\<lparr> ls_rx := rx, ls_rx_len := 0 \<rparr>) (serve_requests E (zip rqs seqs) l))"
proof -
  note enc = encode_requests_exact [OF assms(1,2)]
  define bodies where "bodies = map2 request_body rqs seqs"
  have bodies: "out = concat (map framed bodies)" "length bodies = length rqs" "map asks bodies = map (\<lambda>q. [q]) seqs"
  proof -
    have "map asks bodies = map (\<lambda>q. [q]) (map snd (zip rqs seqs))" by (simp add: bodies_def asks_request split_beta)
    then show "out = concat (map framed bodies)" "length bodies = length rqs" "map asks bodies = map (\<lambda>q. [q]) seqs"
      using enc by (simp_all add: bodies_def)
  qed
  have fits: "body \<noteq> [] \<and> length body \<le> RX_CAP - 2" if "body \<in> set bodies" for body
  proof -
    have "body \<in> set bodies" by (rule that)
    then obtain rq q where "body = request_body rq q" "rq \<in> set rqs" unfolding bodies_def set_map by (auto dest: set_zip_leftD)
    then show ?thesis using assms(3) request_body_length [of rq q] by (simp add: request_fits_def)
  qed
  then have cut: "cut_stream (concat (map framed bodies)) = Some (bodies, [])"
  proof (induction bodies)
    case (Cons b bs)
    then show ?case by (simp add: cut_framed)
  qed (simp add: cut_stream_short)
  have "served bodies [] E l (link_run E (map LcPipe chunks) l)"
    using assms(4-6) bodies(1) cut by (intro pipes_served) (simp_all add: rx_ok_def pending_def cut_stream_short)
  moreover have "handle_all E bodies l = serve_requests E (zip rqs seqs) l"
    using serve_requests_handle [of seqs rqs E l] enc by (simp add: bodies_def)
  ultimately have "\<exists>rx. length rx = RX_CAP \<and>
      link_run E (map LcPipe chunks) l = map_option (\<lambda>l. l\<lparr> ls_rx := rx, ls_rx_len := 0 \<rparr>) (serve_requests E (zip rqs seqs) l)"
    using assms(4) by (cases "serve_requests E (zip rqs seqs) l") (auto simp: served_def with_rx_def)
  moreover have "distinct seqs" if "length rqs \<le> 65535"
    using seq_distinct [OF that, of "unat (ss_next_seq s)"] enc distinct_map [of unat seqs] by simp
  ultimately show ?thesis using enc bodies by blast
qed

theorem client_requests_arrive_witness:
  "\<exists>rx. length rx = RX_CAP \<and>
    link_run quiet_link (map LcPipe [[4, 0, 1], [0, 0, 1, 6, 0], [0x66, 1, 0, 9, 0, 4]]) (link_new (host_new B1000000)) =
    map_option (\<lambda>l. l\<lparr> ls_rx := rx, ls_rx_len := 0 \<rparr>)
      (serve_requests quiet_link [(RqSubmit CmdRescue, 0), (RqTrain [] 9 4, 1)] (link_new (host_new B1000000)))"
proof -
  let ?rqs = "[RqSubmit CmdRescue, RqTrain [] 9 4]"
  have "encode_requests ?rqs client_session_new [] = (client_session_new\<lparr> ss_next_seq := 2 \<rparr>, [4, 0, 1, 0, 0, 1, 6, 0, 0x66, 1, 0, 9, 0, 4], [0, 1])"
    by (simp add: encode_submit_def encode_wire_train_def encode_wire_op_def alloc_seq_def client_session_new_def session_frame_def le16_bytes_def osc_const)
  from client_requests_arrive [OF _ this, of "link_new (host_new B1000000)" "[[4, 0, 1], [0, 0, 1, 6, 0], [0x66, 1, 0, 9, 0, 4]]" quiet_link]
  show ?thesis
    by (simp add: session_ok_def client_session_new_def SEQ_NONE_def request_fits_def RX_CAP_def le16_bytes_def link_new_def)
qed

text \<open>
  What happens to a record that does not fit: the client's encoders never refuse one, the adapter answers its
  length prefix with UNKNOWN and drops the \<open>RX_CAP\<close> bytes it has buffered, and the bytes behind these are read as
  records of their own.
\<close>

theorem overlong_request_spills:
  assumes "encode_request rq s [] = (s', out, seq)" "\<not> request_fits rq" "length (request_body rq 0) < 65536"
    "length (ls_rx l) = RX_CAP" "ls_rx_len l = 0"
  shows "\<exists>rx. on_pipe E out l =
    sink_record (rec_unknown 0xFF) (l\<lparr> ls_rx := rx \<rparr>) \<bind> on_pipe E (drop RX_CAP out)"
proof -
  define body where "body = request_body rq (ss_next_seq s)"
  have out: "out = framed body" using assms(1) by (auto simp: encode_request_record body_def)
  have len: "length body < 65536" "RX_CAP - 2 < length body" using assms(2,3) request_body_length(1) [of rq "ss_next_seq s"]
    by (simp_all add: body_def request_fits_def)
  have n: "min (RX_CAP - ls_rx_len l) (length out) = RX_CAP" using len(2) assms(5) by (simp add: out framed_def le16_bytes_def)
  define l1 where "l1 = l\<lparr> ls_rx := take RX_CAP out, ls_rx_len := RX_CAP \<rparr>"
  have "put 0 (take RX_CAP out) (ls_rx l) = take RX_CAP out" using assms(4,5) n by (simp add: put_def)
  then have step: "on_pipe E out l = link_extract E l1 \<bind> on_pipe E (drop RX_CAP out)"
    using n assms(5) by (subst on_pipe.simps) (auto simp: l1_def out framed_def le16_bytes_def RX_CAP_def)
  have "unat (of_nat (length body) :: u16) = length body" using len(1) by (intro unat_of_nat16) simp
  then have "rec_len (ls_rx l1) = length body" by (simp add: l1_def out rec_len_def framed_def le16_bytes_def RX_CAP_def)
  then have "link_extract E l1 = sink_record (rec_unknown 0xFF) (l1\<lparr> ls_rx_len := 0 \<rparr>)"
    using len(2) by (subst link_extract.simps) (simp add: l1_def RX_CAP_def)
  moreover have "l1\<lparr> ls_rx_len := 0 \<rparr> = l\<lparr> ls_rx := take RX_CAP out \<rparr>" using assms(5) by (simp add: l1_def)
  ultimately show ?thesis using step by auto
qed

end
