(* ===== verification/Client_Edges.thy ===== *)
theory Client_Edges
  imports Client_Session
begin

text \<open>
  \<open>client/src/wire.rs\<close>: putting captured wire edges back on one 32-bit timeline. The adapter ships the low
  16 bits of each edge's tick, falls and rises in two separate lists per drain; \<open>unwrap_drain\<close> merges them
  by alternation and chains every tick off the one before it.
\<close>

subsection \<open>Model\<close>

datatype level = Low | High

record wire_edge =
  ed_tick :: u32
  ed_level :: level

record edge_anchor =
  ea_tick :: "u32 option"
  ea_lead :: level
  ea_carry :: "u16 list"

definition edge_anchor_default :: edge_anchor where
  "edge_anchor_default = \<lparr> ea_tick = None, ea_lead = Low, ea_carry = [] \<rparr>"

definition ANCHOR_GUARD :: u32 where [osc_const]: "ANCHOR_GUARD = 4096"

definition place_tick :: "u32 \<Rightarrow> u32 option \<Rightarrow> u16 \<Rightarrow> u32" where
  "place_tick now a t =
     (case a of
        None \<Rightarrow> now - ucast (ucast now - t :: u16)
      | Some prev \<Rightarrow> prev + ucast (t - ucast prev :: u16))"

text \<open>The merge loop over the falls and rises still to place: the edges it emits, the last tick, the polarity
  due next and the falls it leaves for the next drain.\<close>

fun merge_edges :: "u32 \<Rightarrow> level \<Rightarrow> u32 option \<Rightarrow> u16 list \<Rightarrow> u16 list \<Rightarrow> wire_edge list \<times> u32 option \<times> level \<times> u16 list" where
  "merge_edges now Low a (f # falls) rises =
     (let tick = place_tick now a f; (out, rest) = merge_edges now High (Some tick) falls rises
      in (\<lparr> ed_tick = tick, ed_level = Low \<rparr> # out, rest))"
| "merge_edges now Low a [] (r # rises) =
     (let tick = place_tick now a r; (out, rest) = merge_edges now Low (Some tick) [] rises
      in (\<lparr> ed_tick = tick, ed_level = High \<rparr> # out, rest))"
| "merge_edges now Low a [] [] = ([], a, Low, [])"
| "merge_edges now High a falls [] = ([], a, High, falls)"
| "merge_edges now High a falls (r # rises) =
     (let tick = place_tick now a r; (out, rest) = merge_edges now Low (Some tick) falls rises
      in (\<lparr> ed_tick = tick, ed_level = High \<rparr> # out, rest))"

definition unwrap_drain :: "edge_anchor \<Rightarrow> u32 \<Rightarrow> u16 list \<Rightarrow> u16 list \<Rightarrow> edge_anchor \<times> wire_edge list" where
  "unwrap_drain anchor now falls rises =
     (let (out, a, lead, carry) = merge_edges now (ea_lead anchor) (ea_tick anchor) (ea_carry anchor @ falls) rises;
          floor = now - ANCHOR_GUARD;
          a = (if out = [] \<and> carry = [] \<and> (case a of None \<Rightarrow> True | Some prev \<Rightarrow> floor - prev < 0x7FFFFFFF)
               then Some floor else a)
      in (\<lparr> ea_tick = a, ea_lead = lead, ea_carry = carry \<rparr>, out))"

subsection \<open>The timeline\<close>

text \<open>True time is an unbounded tick count; the engine's tick is its low 32 bits and a shipped edge is its low 16.\<close>

abbreviation tick32 :: "int \<Rightarrow> u32" where "tick32 t \<equiv> word_of_int t"

abbreviation tick16 :: "int \<Rightarrow> u16" where "tick16 t \<equiv> word_of_int t"

lemma ucast_tick: "(ucast (tick32 t) :: u16) = tick16 t"
  by transfer simp

lemma ucast_tick_short: "0 \<le> d \<Longrightarrow> d < 65536 \<Longrightarrow> ucast (tick16 d) = tick32 d"
  by transfer (simp add: take_bit_int_eq_self)

lemma place_next: "a \<le> t \<Longrightarrow> t < a + 65536 \<Longrightarrow> place_tick now (Some (tick32 a)) (tick16 t) = tick32 t"
  using ucast_tick_short [of "t - a"] by (simp add: place_tick_def ucast_tick)

lemma place_first: "t \<le> now \<Longrightarrow> now < t + 65536 \<Longrightarrow> place_tick (tick32 now) None (tick16 t) = tick32 t"
  using ucast_tick_short [of "now - t"] by (simp add: place_tick_def ucast_tick)

text \<open>The falls and the rises among edges that alternate in polarity from \<open>lead\<close>, and the edges themselves.\<close>

fun flip_level :: "level \<Rightarrow> level" where
  "flip_level Low = High"
| "flip_level High = Low"

fun fall_of :: "level \<Rightarrow> int list \<Rightarrow> int list" where
  "fall_of lead [] = []"
| "fall_of Low (t # ts) = t # fall_of High ts"
| "fall_of High (t # ts) = fall_of Low ts"

fun rise_of :: "level \<Rightarrow> int list \<Rightarrow> int list" where
  "rise_of lead [] = []"
| "rise_of High (t # ts) = t # rise_of Low ts"
| "rise_of Low (t # ts) = rise_of High ts"

fun edges_from :: "level \<Rightarrow> int list \<Rightarrow> wire_edge list" where
  "edges_from lead [] = []"
| "edges_from lead (t # ts) = \<lparr> ed_tick = tick32 t, ed_level = lead \<rparr> # edges_from (flip_level lead) ts"

fun lead_after :: "level \<Rightarrow> nat \<Rightarrow> level" where
  "lead_after lead 0 = lead"
| "lead_after lead (Suc n) = lead_after (flip_level lead) n"

text \<open>How many edges can be ordered when \<open>f\<close> falls and \<open>r\<close> rises are in hand.\<close>

fun orderable :: "level \<Rightarrow> nat \<Rightarrow> nat \<Rightarrow> nat" where
  "orderable Low f r = min (2 * f) (2 * r + 1)"
| "orderable High f r = min (2 * r) (2 * f + 1)"

text \<open>Each edge lies within one 16-bit wrap behind its predecessor, the first behind the anchor; with no anchor
  yet it lies within one wrap before the drain.\<close>

fun within_wrap :: "int \<Rightarrow> int option \<Rightarrow> int list \<Rightarrow> bool" where
  "within_wrap now a [] \<longleftrightarrow> True"
| "within_wrap now a (t # ts) \<longleftrightarrow>
     (case a of None \<Rightarrow> t \<le> now \<and> now < t + 65536 | Some p \<Rightarrow> p \<le> t \<and> t < p + 65536) \<and> within_wrap now (Some t) ts"

lemma place_exact: "within_wrap now a (t # ts) \<Longrightarrow> place_tick (tick32 now) (map_option word_of_int a) (tick16 t) = tick32 t"
  by (cases a) (simp_all add: place_next place_first)

lemma orderable_simps:
  "orderable Low (Suc f) r = Suc (orderable High f r)" "orderable High f (Suc r) = Suc (orderable Low f r)"
  "orderable Low 0 r = 0" "orderable High f 0 = 0"
  by (simp_all add: min_def)

lemma merge_exact:
  assumes "within_wrap now a (take n us)" "f \<le> length (fall_of lead us)" "r \<le> length (rise_of lead us)"
    "r \<le> f + (if lead = High then 1 else 0)" "n = orderable lead f r"
  shows "n \<le> length us \<and> length (fall_of lead (take n us)) \<le> f \<and>
    merge_edges (tick32 now) lead (map_option word_of_int a) (map tick16 (take f (fall_of lead us))) (map tick16 (take r (rise_of lead us))) =
    (edges_from lead (take n us), map_option word_of_int (if n = 0 then a else Some (us ! (n - 1))), lead_after lead n,
     map tick16 (take (f - length (fall_of lead (take n us))) (fall_of (lead_after lead n) (drop n us))))"
  using assms
proof (induction us arbitrary: a f r lead n)
  case Nil
  then show ?case by (cases lead) simp_all
next
  case (Cons t ts)
  show ?case
  proof (cases lead)
    case Low
    show ?thesis
    proof (cases f)
      case 0
      then show ?thesis using Cons.prems(4,5) Low by simp
    next
      case (Suc f')
      define m where "m = orderable High f' r"
      have n: "n = Suc m" using Cons.prems(5) Low Suc by (simp only: orderable_simps m_def)
      have w: "within_wrap now a (t # take m ts)" using Cons.prems(1) by (simp only: n take_Suc_Cons)
      have t: "place_tick (tick32 now) (map_option word_of_int a) (tick16 t) = tick32 t" by (rule place_exact [OF w])
      have ih: "m \<le> length ts \<and> length (fall_of High (take m ts)) \<le> f' \<and>
          merge_edges (tick32 now) High (map_option word_of_int (Some t)) (map tick16 (take f' (fall_of High ts))) (map tick16 (take r (rise_of High ts))) =
          (edges_from High (take m ts), map_option word_of_int (if m = 0 then Some t else Some (ts ! (m - 1))), lead_after High m,
           map tick16 (take (f' - length (fall_of High (take m ts))) (fall_of (lead_after High m) (drop m ts))))"
        using Cons.prems(2-4) Low Suc w by (intro Cons.IH) (simp_all add: m_def)
      then show ?thesis using Low Suc t by (simp add: n nth_Cons' split: if_splits)
    qed
  next
    case High
    show ?thesis
    proof (cases r)
      case 0
      then show ?thesis using Cons.prems(5) High by simp
    next
      case (Suc r')
      define m where "m = orderable Low f r'"
      have n: "n = Suc m" using Cons.prems(5) High Suc by (simp only: orderable_simps m_def)
      have w: "within_wrap now a (t # take m ts)" using Cons.prems(1) by (simp only: n take_Suc_Cons)
      have t: "place_tick (tick32 now) (map_option word_of_int a) (tick16 t) = tick32 t" by (rule place_exact [OF w])
      have ih: "m \<le> length ts \<and> length (fall_of Low (take m ts)) \<le> f \<and>
          merge_edges (tick32 now) Low (map_option word_of_int (Some t)) (map tick16 (take f (fall_of Low ts))) (map tick16 (take r' (rise_of Low ts))) =
          (edges_from Low (take m ts), map_option word_of_int (if m = 0 then Some t else Some (ts ! (m - 1))), lead_after Low m,
           map tick16 (take (f - length (fall_of Low (take m ts))) (fall_of (lead_after Low m) (drop m ts))))"
        using Cons.prems(2-4) High Suc w by (intro Cons.IH) (simp_all add: m_def)
      then show ?thesis using High Suc t by (simp add: n nth_Cons' split: if_splits)
    qed
  qed
qed

text \<open>Positions: after \<open>m\<close> edges the falls and rises still to come are the tails of the two lists.\<close>

lemma lead_after_add: "lead_after (lead_after lead m) n = lead_after lead (m + n)"
  by (induction m arbitrary: lead) simp_all

lemma lead_after_double: "lead_after lead (2 * n) = lead"
  by (cases lead; induction n) simp_all

lemma fall_of_drop: "fall_of (lead_after lead m) (drop m us) = drop (length (fall_of lead (take m us))) (fall_of lead us)"
proof (induction us arbitrary: lead m)
  case (Cons t ts)
  then show ?case by (cases m; cases lead) simp_all
qed simp

lemma fall_of_append: "fall_of lead (xs @ ys) = fall_of lead xs @ fall_of (lead_after lead (length xs)) ys"
  by (induction lead xs rule: fall_of.induct) simp_all

lemma rise_of_drop: "rise_of (lead_after lead m) (drop m us) = drop (length (rise_of lead (take m us))) (rise_of lead us)"
proof (induction us arbitrary: lead m)
  case (Cons t ts)
  then show ?case by (cases m; cases lead) simp_all
qed simp

lemma polarity_counts:
  "length (fall_of Low us) = (length us + 1) div 2 \<and> length (rise_of Low us) = length us div 2 \<and>
   length (fall_of High us) = length us div 2 \<and> length (rise_of High us) = (length us + 1) div 2"
  by (induction us) auto

lemma edges_from_append: "edges_from lead (xs @ ys) = edges_from lead xs @ edges_from (lead_after lead (length xs)) ys"
  by (induction xs arbitrary: lead) simp_all

subsection \<open>A run of drains\<close>

text \<open>
  The wire's true edges are \<open>us\<close>, falling first. A drain \<open>(now, nf, nr)\<close> happens at true time \<open>now\<close> and ships
  the next \<open>nf\<close> falls and the next \<open>nr\<close> rises; \<open>F\<close> and \<open>R\<close> count what earlier drains shipped.
\<close>

fun shipments :: "int list \<Rightarrow> nat \<Rightarrow> nat \<Rightarrow> (int \<times> nat \<times> nat) list \<Rightarrow> (u32 \<times> u16 list \<times> u16 list) list" where
  "shipments us F R [] = []"
| "shipments us F R ((now, nf, nr) # ds) =
     (tick32 now, map tick16 (take nf (drop F (fall_of Low us))), map tick16 (take nr (drop R (rise_of Low us))))
     # shipments us (F + nf) (R + nr) ds"

fun run_drains :: "edge_anchor \<Rightarrow> (u32 \<times> u16 list \<times> u16 list) list \<Rightarrow> edge_anchor \<times> wire_edge list" where
  "run_drains an [] = (an, [])"
| "run_drains an ((now, falls, rises) # ds) =
     (let (an, out) = unwrap_drain an now falls rises; (an, more) = run_drains an ds in (an, out @ more))"

text \<open>
  The reference point of the next edge, in true time: the last edge that could be ordered, except that a drain
  that leaves nothing in flight and finds nothing lifts it to the guarded drain moment.
\<close>

definition reference_after :: "int list \<Rightarrow> int option \<Rightarrow> int \<Rightarrow> nat \<Rightarrow> nat \<Rightarrow> nat \<Rightarrow> nat \<Rightarrow> int option" where
  "reference_after us a now m n F R =
     (if m < n then Some (us ! (n - 1))
      else if n = F + R then Some (case a of None \<Rightarrow> now - 4096 | Some p \<Rightarrow> max p (now - 4096))
      else a)"

text \<open>
  What a run of drains has to satisfy: the counts are within the edges there are and no rise is shipped before
  its fall; each edge that becomes orderable lies at or behind the reference point, by less than one wrap; and a
  drain that finds nothing comes less than \<open>2 ^ 31 - 1\<close> ticks after the reference point. Two edges may lie any
  number of wraps apart when a drain that found nothing lifted the reference point in between.
\<close>

fun drains_ok :: "int list \<Rightarrow> int option \<Rightarrow> nat \<Rightarrow> nat \<Rightarrow> (int \<times> nat \<times> nat) list \<Rightarrow> bool" where
  "drains_ok us a F R [] \<longleftrightarrow> True"
| "drains_ok us a F R ((now, nf, nr) # ds) \<longleftrightarrow>
     (let m = orderable Low F R; n = orderable Low (F + nf) (R + nr)
      in F + nf \<le> length (fall_of Low us) \<and> R + nr \<le> length (rise_of Low us) \<and> R + nr \<le> F + nf \<and>
         within_wrap now a (take (n - m) (drop m us)) \<and>
         (n = m \<and> n = F + nf + (R + nr) \<longrightarrow>
            (case a of None \<Rightarrow> True | Some p \<Rightarrow> p \<le> now \<and> now < p + 2147483647)) \<and>
         drains_ok us (reference_after us a now m n (F + nf) (R + nr)) (F + nf) (R + nr) ds)"

fun shipped :: "(int \<times> nat \<times> nat) list \<Rightarrow> nat \<times> nat" where
  "shipped [] = (0, 0)"
| "shipped ((now, nf, nr) # ds) = (case shipped ds of (f, r) \<Rightarrow> (nf + f, nr + r))"

text \<open>The anchor between drains, with \<open>F\<close> falls and \<open>R\<close> rises shipped and the reference point at \<open>a\<close>.\<close>

definition tracks :: "int list \<Rightarrow> int option \<Rightarrow> nat \<Rightarrow> nat \<Rightarrow> edge_anchor \<Rightarrow> bool" where
  "tracks us a F R an \<longleftrightarrow> R \<le> F \<and> F \<le> length (fall_of Low us) \<and> R \<le> length (rise_of Low us) \<and>
     ea_tick an = map_option word_of_int a \<and> ea_lead an = lead_after Low (orderable Low F R) \<and>
     ea_carry an = map tick16 (take (F - min F (R + 1)) (drop (min F (R + 1)) (fall_of Low us)))"

lemma tracks_start: "tracks us None 0 0 edge_anchor_default"
  by (simp add: tracks_def edge_anchor_default_def)

lemma orderable_bounds:
  assumes "R \<le> F" "F \<le> length (fall_of Low us)" "R \<le> length (rise_of Low us)"
  shows "orderable Low F R \<le> length us" "length (fall_of Low (take (orderable Low F R) us)) = min F (R + 1)"
    "length (rise_of Low (take (orderable Low F R) us)) = R"
proof -
  have "F \<le> (length us + 1) div 2" "R \<le> length us div 2" using assms polarity_counts [of us] by simp_all
  then show m: "orderable Low F R \<le> length us" using assms(1) by (simp add: min_def) presburger
  have "length (take (orderable Low F R) us) = orderable Low F R" using m by simp
  then show "length (fall_of Low (take (orderable Low F R) us)) = min F (R + 1)" "length (rise_of Low (take (orderable Low F R) us)) = R"
    using polarity_counts [of "take (orderable Low F R) us"] assms(1) by (simp_all add: min_def)
qed

lemma orderable_split:
  assumes "R \<le> F" "R + nr \<le> F + nf"
  shows "orderable Low (F + nf) (R + nr) - orderable Low F R =
      orderable (lead_after Low (orderable Low F R)) (F - min F (R + 1) + nf) nr"
    "orderable Low F R \<le> orderable Low (F + nf) (R + nr)"
    "nr \<le> F - min F (R + 1) + nf + (if lead_after Low (orderable Low F R) = High then 1 else 0)"
proof -
  consider (level) "F = R" | (ahead) e where "F = R + 1 + e" using assms(1) by (metis add.assoc le_eq_less_or_eq less_iff_Suc_add plus_1_eq_Suc add.commute)
  note cases = this
  show "orderable Low (F + nf) (R + nr) - orderable Low F R =
      orderable (lead_after Low (orderable Low F R)) (F - min F (R + 1) + nf) nr"
    using cases assms by cases (simp_all add: lead_after_double min_def)
  show "orderable Low F R \<le> orderable Low (F + nf) (R + nr)" by (simp add: min_def)
  show "nr \<le> F - min F (R + 1) + nf + (if lead_after Low (orderable Low F R) = High then 1 else 0)"
    using cases assms by cases (simp_all add: lead_after_double min_def)
qed

lemma uint_tick32: "uint (tick32 t) = take_bit 32 t"
  by transfer simp

lemma lift_floor:
  assumes "p \<le> now" "now < p + 2147483647"
  shows "(if tick32 now - 4096 - tick32 p < 0x7FFFFFFF then tick32 now - 4096 else tick32 p) = tick32 (max p (now - 4096))"
proof (cases "now - 4096 - p < 0")
  case True
  have "take_bit 32 (now - 4096 - p) = now - 4096 - p + 2 ^ 32"
    using True assms mod_add_self2 [of "now - 4096 - p" "2 ^ 32"] mod_pos_pos_trivial [of "now - 4096 - p + 2 ^ 32" "2 ^ 32"]
    by (simp only: take_bit_eq_mod) simp
  then have "uint (tick32 (now - 4096 - p)) = now - 4096 - p + 2 ^ 32" by (simp only: uint_tick32)
  then have "\<not> tick32 (now - 4096 - p) < 0x7FFFFFFF" using True assms by (simp add: word_less_def)
  then show ?thesis using True by simp
next
  case False
  have "take_bit 32 (now - 4096 - p) = now - 4096 - p" using False assms by (simp add: take_bit_int_eq_self)
  then have "uint (tick32 (now - 4096 - p)) = now - 4096 - p" by (simp only: uint_tick32)
  then have "tick32 (now - 4096 - p) < 0x7FFFFFFF" using False assms by (simp add: word_less_def)
  then show ?thesis using False by simp
qed

lemma drain_step:
  fixes us F R nf nr a
  defines "m \<equiv> orderable Low F R" and "n \<equiv> orderable Low (F + nf) (R + nr)"
  assumes "tracks us a F R an" "F + nf \<le> length (fall_of Low us)" "R + nr \<le> length (rise_of Low us)" "R + nr \<le> F + nf"
    "within_wrap now a (take (n - m) (drop m us))"
    "n = m \<and> n = F + nf + (R + nr) \<longrightarrow> (case a of None \<Rightarrow> True | Some p \<Rightarrow> p \<le> now \<and> now < p + 2147483647)"
  shows "\<exists>an'. unwrap_drain an (tick32 now) (map tick16 (take nf (drop F (fall_of Low us)))) (map tick16 (take nr (drop R (rise_of Low us)))) =
      (an', edges_from (lead_after Low m) (take (n - m) (drop m us))) \<and>
    tracks us (reference_after us a now m n (F + nf) (R + nr)) (F + nf) (R + nr) an'"
proof -
  define L where "L = lead_after Low m"
  define c where "c = F - min F (R + 1)"
  define k where "k = n - m"
  have tr: "R \<le> F" "F \<le> length (fall_of Low us)" "R \<le> length (rise_of Low us)" "ea_tick an = map_option word_of_int a"
    "ea_lead an = L" "ea_carry an = map tick16 (take c (drop (min F (R + 1)) (fall_of Low us)))"
    using assms(3) by (simp_all add: tracks_def L_def c_def m_def)
  note cnt = orderable_bounds [OF tr(1-3), folded m_def]
  note cnt' = orderable_bounds [OF assms(6,4,5), folded n_def]
  have fd: "fall_of L (drop m us) = drop (min F (R + 1)) (fall_of Low us)" unfolding L_def fall_of_drop cnt(2) by (rule refl)
  have rd: "rise_of L (drop m us) = drop R (rise_of Low us)" unfolding L_def rise_of_drop cnt(3) by (rule refl)
  have falls: "ea_carry an @ map tick16 (take nf (drop F (fall_of Low us))) = map tick16 (take (c + nf) (fall_of L (drop m us)))"
    unfolding tr(6) fd take_add map_append by (simp add: c_def)
  have k: "k = orderable L (c + nf) nr" and mn: "m \<le> n" and nr: "nr \<le> c + nf + (if L = High then 1 else 0)"
    using orderable_split [OF tr(1) assms(6)] by (simp_all only: k_def L_def c_def m_def n_def)
  have n: "n = m + k" using mn by (simp add: k_def)
  have lead: "lead_after L k = lead_after Low n" by (simp only: L_def n lead_after_add)
  have w: "within_wrap now a (take k (drop m us))" using assms(7) by (simp only: k_def)
  have len: "c + nf \<le> length (fall_of L (drop m us))" "nr \<le> length (rise_of L (drop m us))"
    using assms(4,5) tr(1) by (simp_all add: fd rd c_def)
  define carry where "carry = map tick16 (take (c + nf - length (fall_of L (take k (drop m us)))) (fall_of (lead_after L k) (drop k (drop m us))))"
  define ref where "ref = (if k = 0 then a else Some (drop m us ! (k - 1)))"
  have merge: "merge_edges (tick32 now) L (ea_tick an) (map tick16 (take (c + nf) (fall_of L (drop m us)))) (map tick16 (take nr (rise_of L (drop m us)))) =
      (edges_from L (take k (drop m us)), map_option word_of_int ref, lead_after Low n, carry)"
    using merge_exact [OF w len nr k] by (simp only: tr(4) carry_def ref_def lead)
  have carry: "carry = map tick16 (take (F + nf - min (F + nf) (R + nr + 1)) (drop (min (F + nf) (R + nr + 1)) (fall_of Low us)))"
  proof -
    have "take n us = take m us @ take k (drop m us)" by (simp add: n take_add)
    then have "min (F + nf) (R + nr + 1) = min F (R + 1) + length (fall_of L (take k (drop m us)))"
      using cnt(2) cnt'(2) fall_of_append [of Low "take m us" "take k (drop m us)"] cnt(1) by (simp add: L_def)
    then show ?thesis unfolding carry_def lead drop_drop using fall_of_drop [of Low n us] cnt'(2)
      by (simp add: n c_def add.commute)
  qed
  have quiet: "carry = [] \<longleftrightarrow> n = F + nf + (R + nr)"
  proof -
    have "carry = [] \<longleftrightarrow> F + nf \<le> R + nr + 1" using assms(4) by (simp add: carry) linarith
    also have "\<dots> \<longleftrightarrow> n = F + nf + (R + nr)" using assms(6) by (simp add: n_def min_def) linarith
    finally show ?thesis .
  qed
  have km: "k \<le> length (drop m us)" using cnt'(1) by (simp add: n)
  have none: "edges_from L (take k (drop m us)) = [] \<longleftrightarrow> n = m"
    using km by (cases k; cases "drop m us") (auto simp: n)
  define tick where "tick = (if edges_from L (take k (drop m us)) = [] \<and> carry = [] \<and>
      (case map_option word_of_int ref of None \<Rightarrow> True | Some prev \<Rightarrow> tick32 now - ANCHOR_GUARD - prev < 0x7FFFFFFF)
    then Some (tick32 now - ANCHOR_GUARD) else map_option word_of_int ref)"
  have un: "unwrap_drain an (tick32 now) (map tick16 (take nf (drop F (fall_of Low us)))) (map tick16 (take nr (drop R (rise_of Low us)))) =
      (\<lparr> ea_tick = tick, ea_lead = lead_after Low n, ea_carry = carry \<rparr>, edges_from L (take k (drop m us)))"
    unfolding unwrap_drain_def tr(5) falls rd [symmetric] merge tick_def by (simp add: Let_def)
  have "tick = map_option word_of_int (reference_after us a now m n (F + nf) (R + nr))"
  proof (cases "n = m \<and> n = F + nf + (R + nr)")
    case True
    have "ref = a" using True by (simp add: ref_def n)
    show ?thesis
    proof (cases a)
      case None
      then show ?thesis using True none quiet \<open>ref = a\<close> by (simp add: tick_def reference_after_def ANCHOR_GUARD_def)
    next
      case (Some p)
      then show ?thesis using True assms(8) lift_floor [of p now] none quiet \<open>ref = a\<close>
        by (simp add: tick_def reference_after_def ANCHOR_GUARD_def split: if_splits)
    qed
  next
    case False
    have "tick = map_option word_of_int ref" using False none quiet by (auto simp: tick_def)
    then show ?thesis using False cnt(1) by (auto simp: ref_def reference_after_def n)
  qed
  then have "tracks us (reference_after us a now m n (F + nf) (R + nr)) (F + nf) (R + nr)
      \<lparr> ea_tick = tick, ea_lead = lead_after Low n, ea_carry = carry \<rparr>"
    using assms(4-6) by (simp add: tracks_def carry n_def)
  then show ?thesis unfolding un L_def k_def by blast
qed

lemma drains_exact:
  assumes "tracks us a F R an" "drains_ok us a F R ds"
  shows "\<exists>an'. run_drains an (shipments us F R ds) =
      (an', edges_from (lead_after Low (orderable Low F R))
        (take (orderable Low (F + fst (shipped ds)) (R + snd (shipped ds)) - orderable Low F R) (drop (orderable Low F R) us)))
    \<and> orderable Low F R \<le> orderable Low (F + fst (shipped ds)) (R + snd (shipped ds))
    \<and> orderable Low (F + fst (shipped ds)) (R + snd (shipped ds)) \<le> length us
    \<and> (\<exists>p. tracks us p (F + fst (shipped ds)) (R + snd (shipped ds)) an')"
  using assms
proof (induction us a F R ds arbitrary: an rule: drains_ok.induct)
  case (1 us a F R)
  moreover have "orderable Low F R \<le> length us" using "1.prems"(1) orderable_bounds(1) [of R F us] by (simp only: tracks_def)
  ultimately show ?case by auto
next
  case (2 us a F R now nf nr ds)
  define m n where "m = orderable Low F R" and "n = orderable Low (F + nf) (R + nr)"
  define e where "e = orderable Low (F + nf + fst (shipped ds)) (R + nr + snd (shipped ds))"
  note ok = "2.prems"(2) [unfolded drains_ok.simps Let_def, folded m_def n_def]
  have rf: "R \<le> F" using "2.prems"(1) by (simp add: tracks_def)
  obtain an' where an': "unwrap_drain an (tick32 now) (map tick16 (take nf (drop F (fall_of Low us)))) (map tick16 (take nr (drop R (rise_of Low us)))) =
      (an', edges_from (lead_after Low m) (take (n - m) (drop m us)))"
    "tracks us (reference_after us a now m n (F + nf) (R + nr)) (F + nf) (R + nr) an'"
    using drain_step [OF "2.prems"(1), of nf nr now] ok unfolding m_def n_def by blast
  obtain an'' where r: "run_drains an' (shipments us (F + nf) (R + nr) ds) = (an'', edges_from (lead_after Low n) (take (e - n) (drop n us)))"
    "n \<le> e" "e \<le> length us" "\<exists>p. tracks us p (F + nf + fst (shipped ds)) (R + nr + snd (shipped ds)) an''"
    using "2.IH" [OF refl refl, of an'] an'(2) ok unfolding m_def n_def e_def by blast
  have mn: "m \<le> n" using orderable_split(2) [OF rf] ok by (simp only: m_def n_def)
  have "take (e - m) (drop m us) = take (n - m) (drop m us) @ take (e - n) (drop n us)"
    using take_add [of "n - m" "e - n" "drop m us"] mn r(2) by simp
  then have "edges_from (lead_after Low m) (take (n - m) (drop m us)) @ edges_from (lead_after Low n) (take (e - n) (drop n us)) =
      edges_from (lead_after Low m) (take (e - m) (drop m us))"
    using mn r(2,3) by (simp add: edges_from_append lead_after_add)
  moreover have "fst (shipped ((now, nf, nr) # ds)) = nf + fst (shipped ds)" "snd (shipped ((now, nf, nr) # ds)) = nr + snd (shipped ds)"
    by (simp_all add: split_beta)
  ultimately show ?case using an'(1) r mn
    by (simp add: e_def m_def add.assoc)
qed

text \<open>
  C30. Runs of edge drains rebuild the wire's timeline. Let any sequence of drains ship, from a capture reset
  on, the low 16 bits of the wire's falls and rises in any split in which no rise comes before its fall. As
  long as each edge that becomes orderable lies less than one 16-bit wrap behind its reference point, which is
  the edge before it, or the guarded moment of a later drain that found nothing and left nothing in flight
  (or, for the very first edge, as long as the drain comes within one wrap of it), the drains together yield
  exactly the first \<open>min (2 f) (2 r + 1)\<close> true edges for \<open>f\<close> falls and \<open>r\<close> rises shipped, in order, with their true
  32-bit ticks and polarities, however late each drain comes; a quiet stretch of any number of wraps is placed
  exactly when empty drains land in it. Exactly the falls whose preceding rise is still to come are carried.
\<close>

theorem drain_rebuilds_timeline:
  assumes "drains_ok us None 0 0 ds" "shipped ds = (f, r)"
  shows "\<exists>an'. run_drains edge_anchor_default (shipments us 0 0 ds) = (an', edges_from Low (take (orderable Low f r) us)) \<and>
    orderable Low f r \<le> length us \<and> ea_lead an' = lead_after Low (orderable Low f r) \<and>
    ea_carry an' = map tick16 (take (f - min f (r + 1)) (drop (min f (r + 1)) (fall_of Low us)))"
proof -
  have z: "orderable Low 0 0 = 0" by simp
  show ?thesis
    using drains_exact [OF tracks_start assms(1)] unfolding assms(2) z fst_conv snd_conv tracks_def by auto
qed

text \<open>A long low hold spanned by empty drains: the rise three wraps later lands on its true tick.\<close>

theorem drain_rebuilds_timeline_witness:
  "\<exists>an'. run_drains edge_anchor_default
      [(1500, [1000], []), (0x10000, [], []), (0x20000, [], []), (0x30000, [], []), (0x313EC, [], [5000])] =
    (an', [\<lparr> ed_tick = 1000, ed_level = Low \<rparr>, \<lparr> ed_tick = 0x31388, ed_level = High \<rparr>])"
proof -
  let ?us = "[1000, 0x31388] :: int list"
  let ?ds = "[(1500, 1, 0), (0x10000, 0, 0), (0x20000, 0, 0), (0x30000, 0, 0), (0x313EC, 0, 1)] :: (int \<times> nat \<times> nat) list"
  have "drains_ok ?us None 0 0 ?ds" by (simp add: reference_after_def)
  then have "\<exists>an'. run_drains edge_anchor_default (shipments ?us 0 0 ?ds) = (an', edges_from Low (take (orderable Low 1 1) ?us))"
    using drain_rebuilds_timeline [of ?us ?ds 1 1] by auto
  then have r: "\<exists>an'. run_drains edge_anchor_default (shipments ?us 0 0 ?ds) =
      (an', [\<lparr> ed_tick = 1000, ed_level = Low \<rparr>, \<lparr> ed_tick = 0x31388, ed_level = High \<rparr>])" by (simp del: run_drains.simps shipments.simps)
  have s: "shipments ?us 0 0 ?ds =
      [(1500, [1000], []), (0x10000, [], []), (0x20000, [], []), (0x30000, [], []), (0x313EC, [], [5000])]" by simp
  show ?thesis by (rule r [unfolded s])
qed

end
