(* ===== verification/Client_Link.thy ===== *)
theory Client_Link
  imports Client_Edges
begin

text \<open>
  \<open>client/src/client.rs\<close> with \<open>error.rs\<close>, \<open>pipe.rs\<close> and the pipe operations of \<open>wire.rs\<close>: the
  client over its pipe. The pipe is code outside the crate: what a send or receive returns is a function
  of everything done on the pipe so far (\<open>pipe_env\<close>), the expiry of the receive guard being one of the
  errors a receive can return. A program maps a client to its result and the client after it; \<open>None\<close> is a
  panic or a wait that never ends. The text of a desync error is not modelled.
\<close>

subsection \<open>Types\<close>

datatype pipe_error = PeIo string | PeStalled

datatype client_error = CePipe pipe_error | CeLink link_error | CeTimeout u8 | CeServo result_code

datatype pipe_op = PoSend bytes | PoRecv | PoPause nat

record pipe_env =
  pe_send :: "pipe_op list \<Rightarrow> pipe_error option"
  pe_recv :: "pipe_op list \<Rightarrow> pipe_error + bytes"

record client =
  cl_session :: client_session
  cl_anchor :: edge_anchor
  cl_info :: link_info
  cl_hist :: "pipe_op list"

type_synonym ('c, 'a) client_prog = "'c \<Rightarrow> ((client_error + 'a) \<times> 'c) option"

record client_status =
  st_slot :: u8
  st_id :: u8
  st_result :: "result_code option"
  st_alert :: bool
  st_payload :: bytes

record reply =
  rp_statuses :: "client_status list"
  rp_outcome :: outcome
  rp_tick :: u32
  rp_garble :: u16
  rp_trailing :: bool

record ping_info =
  pg_model :: u16
  pg_fw :: u8
  pg_alert :: bool

record chain_digest =
  ch_statuses :: "client_status list"
  ch_timeout_slot :: "u8 option"

subsection \<open>Programs\<close>

definition creturn :: "'a \<Rightarrow> ('c, 'a) client_prog" where
  "creturn x c = Some (Inr x, c)"

definition cfail :: "client_error \<Rightarrow> ('c, 'a) client_prog" where
  "cfail e c = Some (Inl e, c)"

definition cthen :: "('c, 'a) client_prog \<Rightarrow> ('a \<Rightarrow> ('c, 'b) client_prog) \<Rightarrow> ('c, 'b) client_prog" where
  "cthen m f c = do { (r, c) \<leftarrow> m c; case r of Inl e \<Rightarrow> Some (Inl e, c) | Inr x \<Rightarrow> f x c }"

definition cpanic :: "('c, 'a) client_prog" where
  "cpanic c = None"

subsection \<open>The pipe\<close>

definition pipe_send :: "'e pipe_env_scheme \<Rightarrow> bytes \<Rightarrow> (client, unit) client_prog" where
  "pipe_send E bytes c =
     (let h = cl_hist c @ [PoSend bytes]; c = c\<lparr> cl_hist := h \<rparr>
      in Some (case pe_send E h of Some e \<Rightarrow> Inl (CePipe e) | None \<Rightarrow> Inr (), c))"

definition recv_guarded :: "'e pipe_env_scheme \<Rightarrow> (client, bytes) client_prog" where
  "recv_guarded E c =
     (let h = cl_hist c @ [PoRecv]; c = c\<lparr> cl_hist := h \<rparr>
      in Some (case pe_recv E h of Inl e \<Rightarrow> Inl (CePipe e) | Inr chunk \<Rightarrow> Inr chunk, c))"

definition client_pause :: "nat \<Rightarrow> client \<Rightarrow> client" where
  "client_pause ms c = c\<lparr> cl_hist := cl_hist c @ [PoPause ms] \<rparr>"

partial_function (option) client_next_record :: "'e pipe_env_scheme \<Rightarrow> client \<Rightarrow> ((client_error + client_record) \<times> client) option" where
  "client_next_record E c =
     (let (s, r) = session_next (cl_session c); c = c\<lparr> cl_session := s \<rparr>
      in case r of
           Inl e \<Rightarrow> Some (Inl (CeLink e), c)
         | Inr (Some record) \<Rightarrow> Some (Inr record, c)
         | Inr None \<Rightarrow>
             do { (r, c) \<leftarrow> recv_guarded E c;
                  case r of
                    Inl e \<Rightarrow> Some (Inl e, c)
                  | Inr chunk \<Rightarrow> client_next_record E (c\<lparr> cl_session := on_bytes (cl_session c) chunk \<rparr>) })"

subsection \<open>Commands\<close>

partial_function (option) submit_loop ::
  "'e pipe_env_scheme \<Rightarrow> u16 \<Rightarrow> client_status list \<Rightarrow> client \<Rightarrow> ((client_error + reply) \<times> client) option" where
  "submit_loop E seq statuses c =
     do { (r, c) \<leftarrow> client_next_record E c;
          case r of
            Inl e \<Rightarrow> Some (Inl e, c)
          | Inr record \<Rightarrow>
              (case record of
                 CrStatus s slot i inst payload \<Rightarrow>
                   if s = seq
                   then submit_loop E seq
                          (statuses @ [\<lparr> st_slot = slot, st_id = i, st_result = inst_result inst, st_alert = inst_alert inst, st_payload = payload \<rparr>]) c
                   else Some (Inl (CeLink LeDesync), c)
               | CrTerminal s oc tick _ garble trailing \<Rightarrow>
                   if s = seq
                   then Some (Inr \<lparr> rp_statuses = statuses, rp_outcome = oc, rp_tick = tick, rp_garble = garble, rp_trailing = trailing \<rparr>, c)
                   else Some (Inl (CeLink LeDesync), c)
               | CrRejected s reason \<Rightarrow>
                   if s = seq then Some (Inl (CeLink (LeRejected (reject_from_byte reason))), c)
                   else Some (Inl (CeLink LeDesync), c)
               | _ \<Rightarrow> Some (Inl (CeLink LeDesync), c)) }"

definition client_submit :: "'e pipe_env_scheme \<Rightarrow> host_command \<Rightarrow> (client, reply) client_prog" where
  "client_submit E cmd c =
     (let (s, out, seq) = encode_submit (cl_session c) [] cmd
      in cthen (pipe_send E out) (\<lambda>_. submit_loop E seq []) (c\<lparr> cl_session := s \<rparr>))"

definition client_exchange :: "'e pipe_env_scheme \<Rightarrow> frame_id \<Rightarrow> inst \<Rightarrow> bytes \<Rightarrow> (client, reply) client_prog" where
  "client_exchange E i inst payload = client_submit E (CmdExchange i inst payload)"

text \<open>The answer of a request outside the command pipeline.\<close>

definition client_ask :: "'e pipe_env_scheme \<Rightarrow> bytes \<Rightarrow> (client_record \<Rightarrow> (client, 'a) client_prog) \<Rightarrow> (client, 'a) client_prog" where
  "client_ask E out f = cthen (pipe_send E out) (\<lambda>_. cthen (client_next_record E) f)"

definition connect :: "'e pipe_env_scheme \<Rightarrow> pipe_op list \<Rightarrow> ((client_error + client) \<times> client) option" where
  "connect E hist =
     (let c = \<lparr> cl_session = client_session_new, cl_anchor = edge_anchor_default,
                cl_info = \<lparr> li_version = 0, li_ticks_per_us = 1 \<rparr>, cl_hist = hist \<rparr>
      in client_ask E (encode_hello [])
           (\<lambda>r c. case r of CrInfo info \<Rightarrow> creturn (c\<lparr> cl_info := info \<rparr>) c | _ \<Rightarrow> cfail (CeLink LeDesync) c) c)"

definition client_ticks :: "client \<Rightarrow> u32 \<Rightarrow> nat option" where
  "client_ticks c span =
     (if li_ticks_per_us (cl_info c) = 0 then None else Some (unat span * 1000 div unat (li_ticks_per_us (cl_info c))))"

definition sole_ok :: "reply \<Rightarrow> client_error + client_status" where
  "sole_ok r =
     (case rp_outcome r of
        OcTimeout slot \<Rightarrow> Inl (CeTimeout slot)
      | _ \<Rightarrow>
          (case rp_statuses r of
             [status] \<Rightarrow>
               (case st_result status of
                  Some RcOk \<Rightarrow> Inr status
                | Some code \<Rightarrow> Inl (CeServo code)
                | None \<Rightarrow> Inl (CeLink LeDesync))
           | _ \<Rightarrow> Inl (CeLink LeDesync)))"

definition clift :: "client_error + 'a \<Rightarrow> ('c, 'a) client_prog" where
  "clift r c = Some (r, c)"

definition client_ping :: "'e pipe_env_scheme \<Rightarrow> frame_id \<Rightarrow> (client, ping_info) client_prog" where
  "client_ping E i =
     cthen (client_exchange E i (inst_instruction OpPing 0) []) (\<lambda>r.
     cthen (clift (sole_ok r)) (\<lambda>st.
       if length (st_payload st) < 3 then cfail (CeLink LeDesync)
       else creturn \<lparr> pg_model = le16 (st_payload st ! 0) (st_payload st ! 1), pg_fw = st_payload st ! 2, pg_alert = st_alert st \<rparr>))"

text \<open>Send what a builder put into a zeroed buffer of \<open>cap\<close> bytes, or fail with \<open>code\<close> if it refused.\<close>

definition exchange_built ::
  "'e pipe_env_scheme \<Rightarrow> frame_id \<Rightarrow> inst \<Rightarrow> (bytes \<times> nat) option \<Rightarrow> result_code \<Rightarrow> (client, reply) client_prog" where
  "exchange_built E i inst built code =
     (case built of None \<Rightarrow> cfail (CeServo code) | Some (p, n) \<Rightarrow> client_exchange E i inst (take n p))"

definition client_read :: "'e pipe_env_scheme \<Rightarrow> frame_id \<Rightarrow> u16 \<Rightarrow> u16 \<Rightarrow> (client, bytes) client_prog" where
  "client_read E i addr cnt =
     cthen (exchange_built E i (inst_instruction OpRead 0) (build_read (replicate 8 0) addr cnt) RcRange) (\<lambda>r.
     cthen (clift (sole_ok r)) (\<lambda>st. creturn (st_payload st)))"

definition client_read_profile :: "'e pipe_env_scheme \<Rightarrow> frame_id \<Rightarrow> u8 \<Rightarrow> (client, bytes) client_prog" where
  "client_read_profile E i slot =
     cthen (exchange_built E i (inst_instruction OpRead FLAG_PROFILE) (build_read_profile (replicate 1 0) slot) RcRange) (\<lambda>r.
     cthen (clift (sole_ok r)) (\<lambda>st. creturn (st_payload st)))"

definition client_write_flags :: "'e pipe_env_scheme \<Rightarrow> frame_id \<Rightarrow> u16 \<Rightarrow> bytes \<Rightarrow> u8 \<Rightarrow> (client, unit) client_prog" where
  "client_write_flags E i addr data flags =
     cthen (exchange_built E i (inst_instruction OpWrite flags) (build_write (replicate (length data + 4) 0) addr data) RcLimit) (\<lambda>r.
     cthen (clift (sole_ok r)) (\<lambda>_. creturn ()))"

definition client_write :: "'e pipe_env_scheme \<Rightarrow> frame_id \<Rightarrow> u16 \<Rightarrow> bytes \<Rightarrow> (client, unit) client_prog" where
  "client_write E i addr data = client_write_flags E i addr data 0"

definition client_write_hold :: "'e pipe_env_scheme \<Rightarrow> frame_id \<Rightarrow> u16 \<Rightarrow> bytes \<Rightarrow> (client, unit) client_prog" where
  "client_write_hold E i addr data = client_write_flags E i addr data FLAG_HOLD"

definition client_write_noreply :: "'e pipe_env_scheme \<Rightarrow> frame_id \<Rightarrow> u16 \<Rightarrow> bytes \<Rightarrow> (client, unit) client_prog" where
  "client_write_noreply E i addr data =
     cthen (exchange_built E i (inst_instruction OpWrite FLAG_NOREPLY) (build_write (replicate (length data + 4) 0) addr data) RcLimit)
       (\<lambda>_. creturn ())"

definition digest_chain :: "reply \<Rightarrow> chain_digest" where
  "digest_chain r =
     \<lparr> ch_statuses = rp_statuses r,
       ch_timeout_slot = (case rp_outcome r of OcTimeout slot \<Rightarrow> Some slot | _ \<Rightarrow> None) \<rparr>"

definition client_gread :: "'e pipe_env_scheme \<Rightarrow> frame_id list \<Rightarrow> u16 \<Rightarrow> u16 \<Rightarrow> (client, chain_digest) client_prog" where
  "client_gread E ids addr cnt =
     cthen (exchange_built E Id_BROADCAST (inst_instruction OpGread 0)
              (build_gread_uniform (replicate (length ids + 8) 0) addr cnt ids) RcLimit)
       (\<lambda>r. creturn (digest_chain r))"

definition client_gread_profile :: "'e pipe_env_scheme \<Rightarrow> frame_id list \<Rightarrow> u8 \<Rightarrow> (client, chain_digest) client_prog" where
  "client_gread_profile E ids slot =
     cthen (exchange_built E Id_BROADCAST (inst_instruction OpGread FLAG_PROFILE)
              (build_gread_profile_uniform (replicate (length ids + 4) 0) slot ids) RcLimit)
       (\<lambda>r. creturn (digest_chain r))"

fun push_pairs :: "(frame_id \<times> bytes) list \<Rightarrow> gwu_builder \<Rightarrow> gwu_builder option" where
  "push_pairs [] b = Some b"
| "push_pairs ((i, data) # pairs) b = do { b \<leftarrow> gwu_builder_push b i data; push_pairs pairs b }"

definition client_gwrite_flags :: "'e pipe_env_scheme \<Rightarrow> u16 \<Rightarrow> u8 \<Rightarrow> (frame_id \<times> bytes) list \<Rightarrow> u8 \<Rightarrow> (client, unit) client_prog" where
  "client_gwrite_flags E addr cnt pairs flags =
     cthen (exchange_built E Id_BROADCAST (inst_instruction OpGwrite flags)
              (do { b \<leftarrow> gwu_builder_new (replicate (4 + length pairs * (1 + unat cnt)) 0) addr cnt;
                    b \<leftarrow> push_pairs pairs b;
                    n \<leftarrow> gwu_builder_finish b;
                    Some (gwub_dst b, n) }) RcLimit)
       (\<lambda>_. creturn ())"

definition client_gwrite :: "'e pipe_env_scheme \<Rightarrow> u16 \<Rightarrow> u8 \<Rightarrow> (frame_id \<times> bytes) list \<Rightarrow> (client, unit) client_prog" where
  "client_gwrite E addr cnt pairs = client_gwrite_flags E addr cnt pairs 0"

definition client_gwrite_hold :: "'e pipe_env_scheme \<Rightarrow> u16 \<Rightarrow> u8 \<Rightarrow> (frame_id \<times> bytes) list \<Rightarrow> (client, unit) client_prog" where
  "client_gwrite_hold E addr cnt pairs = client_gwrite_flags E addr cnt pairs FLAG_HOLD"

definition client_commit :: "'e pipe_env_scheme \<Rightarrow> (client, unit) client_prog" where
  "client_commit E = cthen (client_exchange E Id_BROADCAST (inst_instruction OpCommit 0) []) (\<lambda>_. creturn ())"

definition client_rescue :: "'e pipe_env_scheme \<Rightarrow> (client, unit) client_prog" where
  "client_rescue E = cthen (client_submit E CmdRescue) (\<lambda>_. creturn ())"

definition client_host_baud :: "'e pipe_env_scheme \<Rightarrow> baud_rate \<Rightarrow> (client, unit) client_prog" where
  "client_host_baud E rate = cthen (client_submit E (CmdHostBaud rate)) (\<lambda>_. creturn ())"

definition client_set_response_deadline :: "'e pipe_env_scheme \<Rightarrow> u16 \<Rightarrow> (client, unit) client_prog" where
  "client_set_response_deadline E us = cthen (client_submit E (CmdSetResponseDeadline us)) (\<lambda>_. creturn ())"

definition client_rails_op :: "'e pipe_env_scheme \<Rightarrow> u8 \<Rightarrow> u8 \<Rightarrow> (client, bool \<times> bool) client_prog" where
  "client_rails_op E state rails_mask =
     client_ask E (encode_set_rails [] state rails_mask)
       (\<lambda>r. case r of CrRailsAck st \<Rightarrow> creturn (st AND 1 \<noteq> 0, st AND 2 \<noteq> 0) | _ \<Rightarrow> cfail (CeLink LeDesync))"

definition client_set_rails :: "'e pipe_env_scheme \<Rightarrow> bool \<Rightarrow> bool \<Rightarrow> (client, bool \<times> bool) client_prog" where
  "client_set_rails E v3v3 v5 = client_rails_op E (of_bool v3v3 OR push_bit 1 (of_bool v5)) 3"

definition client_set_rail_3v3 :: "'e pipe_env_scheme \<Rightarrow> bool \<Rightarrow> (client, bool \<times> bool) client_prog" where
  "client_set_rail_3v3 E on = client_rails_op E (of_bool on) 1"

definition client_set_rail_5v :: "'e pipe_env_scheme \<Rightarrow> bool \<Rightarrow> (client, bool \<times> bool) client_prog" where
  "client_set_rail_5v E on = client_rails_op E (push_bit 1 (of_bool on)) 2"

definition client_rails :: "'e pipe_env_scheme \<Rightarrow> (client, bool \<times> bool) client_prog" where
  "client_rails E = client_rails_op E 0 0"

definition client_enter_bootloader :: "'e pipe_env_scheme \<Rightarrow> (client, unit) client_prog" where
  "client_enter_bootloader E =
     client_ask E (encode_enter_bootloader [])
       (\<lambda>r. case r of CrBootloaderAck \<Rightarrow> creturn () | _ \<Rightarrow> cfail (CeLink LeDesync))"

subsection \<open>Instrument operations\<close>

definition await_wire_done :: "u16 \<Rightarrow> client_record \<Rightarrow> (client, u32) client_prog" where
  "await_wire_done seq r =
     (case r of
        CrWireDone s tick \<Rightarrow> if s = seq then creturn tick else cfail (CeLink LeDesync)
      | CrRejected s reason \<Rightarrow> cfail (CeLink (if s = seq then LeRejected (reject_from_byte reason) else LeDesync))
      | _ \<Rightarrow> cfail (CeLink LeDesync))"

definition client_wire :: "'e pipe_env_scheme \<Rightarrow> (client_session \<Rightarrow> bytes \<Rightarrow> client_session \<times> bytes \<times> u16) \<Rightarrow> (client, u32) client_prog" where
  "client_wire E enc c =
     (let (s, out, seq) = enc (cl_session c) [] in client_ask E out (await_wire_done seq) (c\<lparr> cl_session := s \<rparr>))"

definition client_wire_send :: "'e pipe_env_scheme \<Rightarrow> bytes \<Rightarrow> (client, u32) client_prog" where
  "client_wire_send E bytes = client_wire E (\<lambda>s out. encode_wire_send s out bytes)"

fun burst_stream :: "bytes list \<Rightarrow> bytes option" where
  "burst_stream [] = Some []"
| "burst_stream (f # fs) =
     (if f = [] \<or> 255 < length f then None
      else do { rest \<leftarrow> burst_stream fs; Some (of_nat (length f) # f @ rest) })"

definition client_wire_burst :: "'e pipe_env_scheme \<Rightarrow> bytes list \<Rightarrow> (client, u32) client_prog" where
  "client_wire_burst E frames =
     (case burst_stream frames of
        None \<Rightarrow> cfail (CeLink (LeRejected RrMalformed))
      | Some stream \<Rightarrow> client_wire E (\<lambda>s out. encode_wire_burst s out stream))"

definition client_wire_pulse_low :: "'e pipe_env_scheme \<Rightarrow> u16 \<Rightarrow> (client, u32) client_prog" where
  "client_wire_pulse_low E us = client_wire E (\<lambda>s out. encode_wire_pulse s out us)"

definition client_wire_train :: "'e pipe_env_scheme \<Rightarrow> bytes \<Rightarrow> u16 \<Rightarrow> u8 \<Rightarrow> (client, u32) client_prog" where
  "client_wire_train E announce gap_us breaks = client_wire E (\<lambda>s out. encode_wire_train s out announce gap_us breaks)"

definition client_wire_baud :: "'e pipe_env_scheme \<Rightarrow> u32 \<Rightarrow> (client, u32) client_prog" where
  "client_wire_baud E bps = client_wire E (\<lambda>s out. encode_wire_baud s out bps)"

record edge_drain_result =
  dr_edges :: "wire_edge list"
  dr_overflow :: bool
  dr_now :: u32

definition client_drain_edges :: "'e pipe_env_scheme \<Rightarrow> (client, edge_drain_result) client_prog" where
  "client_drain_edges E =
     client_ask E (encode_edge_drain [] 255)
       (\<lambda>r c. case r of
          CrEdges overflow now falls rises \<Rightarrow>
            (let (an, es) = unwrap_drain (cl_anchor c) now falls rises
             in creturn \<lparr> dr_edges = es, dr_overflow = overflow, dr_now = now \<rparr> (c\<lparr> cl_anchor := an \<rparr>))
        | _ \<Rightarrow> cfail (CeLink LeDesync) c)"

definition client_reset_capture :: "'e pipe_env_scheme \<Rightarrow> (client, unit) client_prog" where
  "client_reset_capture E =
     client_ask E (encode_capture_reset [])
       (\<lambda>r c. case r of CrCaptureAck \<Rightarrow> creturn () (c\<lparr> cl_anchor := edge_anchor_default \<rparr>) | _ \<Rightarrow> cfail (CeLink LeDesync) c)"

end
