(* ===== verification/Client_Call.thy ===== *)
theory Client_Call
  imports Client_Link
begin

text \<open>
  \<open>client/src/common.rs\<close> and \<open>cyclic.rs\<close> on top of the client, and what a submitted command returns to its
  caller.
\<close>

subsection \<open>Common registers\<close>

definition MODEL_NUMBER :: u16 where [osc_const]: "MODEL_NUMBER = 0x000"
definition BAUD_RATE_IDX :: u16 where [osc_const]: "BAUD_RATE_IDX = 0x011"
definition FAULT_FLAGS :: u16 where [osc_const]: "FAULT_FLAGS = 0x200"
definition TRIM_STEPS :: u16 where [osc_const]: "TRIM_STEPS = 0x202"
definition CRC_FAIL_COUNT :: u16 where [osc_const]: "CRC_FAIL_COUNT = 0x204"

record identity =
  id_model :: u16
  id_fw :: u8
  id_hw :: u8
  id_capabilities :: u32

record health =
  hl_fault_flags :: u8
  hl_config_dirty :: bool
  hl_trim_steps :: "8 word"
  hl_crc_fail_count :: u32
  hl_framing_drop_count :: u32

definition client_identity :: "'e pipe_env_scheme \<Rightarrow> frame_id \<Rightarrow> (client, identity) client_prog" where
  "client_identity E i =
     cthen (client_read E i MODEL_NUMBER 8) (\<lambda>b.
       if length b < 8 then cfail (CeLink LeDesync)
       else creturn \<lparr> id_model = le16 (b ! 0) (b ! 1), id_fw = b ! 2, id_hw = b ! 3,
                      id_capabilities = le32 (b ! 4) (b ! 5) (b ! 6) (b ! 7) \<rparr>)"

definition client_health :: "'e pipe_env_scheme \<Rightarrow> frame_id \<Rightarrow> (client, health) client_prog" where
  "client_health E i =
     cthen (client_read E i FAULT_FLAGS 12) (\<lambda>b.
       if length b < 12 then cfail (CeLink LeDesync)
       else creturn \<lparr> hl_fault_flags = b ! 0, hl_config_dirty = (b ! 1 AND STATUS_FLAG_CONFIG_DIRTY \<noteq> 0), hl_trim_steps = b ! 2,
                      hl_crc_fail_count = le32 (b ! 4) (b ! 5) (b ! 6) (b ! 7),
                      hl_framing_drop_count = le32 (b ! 8) (b ! 9) (b ! 10) (b ! 11) \<rparr>)"

definition client_clear_counters :: "'e pipe_env_scheme \<Rightarrow> frame_id \<Rightarrow> (client, unit) client_prog" where
  "client_clear_counters E i = client_write E i CRC_FAIL_COUNT (replicate 8 0)"

subsection \<open>The cycle\<close>

record cycle_group =
  cg_addr :: u16
  cg_count :: u8
  cg_ids :: "frame_id list"

datatype telemetry = TmSpan "frame_id list" u16 u16 | TmProfile "frame_id list" u8

record cycle =
  cy_groups :: "cycle_group list"
  cy_telemetry :: telemetry

definition payload_slots :: "cycle \<Rightarrow> nat" where
  "payload_slots cy = sum_list (map (\<lambda>g. length (cg_ids g)) (cy_groups cy))"

primrec cycle_writes :: "'e pipe_env_scheme \<Rightarrow> cycle_group list \<Rightarrow> bytes list \<Rightarrow> (client, unit) client_prog" where
  "cycle_writes E [] left = creturn ()"
| "cycle_writes E (g # gs) left =
     (if length left < length (cg_ids g) then cpanic
      else if \<exists>d \<in> set (take (length (cg_ids g)) left). length d \<noteq> unat (cg_count g) then cfail (CeServo RcRange)
      else cthen (client_gwrite_hold E (cg_addr g) (cg_count g) (zip (cg_ids g) (take (length (cg_ids g)) left)))
             (\<lambda>_. cycle_writes E gs (drop (length (cg_ids g)) left)))"

definition cycle_step :: "'e pipe_env_scheme \<Rightarrow> cycle \<Rightarrow> bytes list \<Rightarrow> (client, chain_digest) client_prog" where
  "cycle_step E cy payloads =
     (if length payloads \<noteq> payload_slots cy then cfail (CeServo RcRange)
      else cthen (cycle_writes E (cy_groups cy) payloads) (\<lambda>_.
           cthen (client_commit E) (\<lambda>_.
             case cy_telemetry cy of
               TmSpan ids addr cnt \<Rightarrow> client_gread E ids addr cnt
             | TmProfile ids slot \<Rightarrow> client_gread_profile E ids slot)))"

subsection \<open>What a submit returns\<close>

text \<open>The next receives return these chunks.\<close>

fun delivers :: "'e pipe_env_scheme \<Rightarrow> pipe_op list \<Rightarrow> bytes list \<Rightarrow> bool" where
  "delivers E h [] = True"
| "delivers E h (x # xs) \<longleftrightarrow> pe_recv E (h @ [PoRecv]) = Inr x \<and> delivers E (h @ [PoRecv]) xs"

definition sendable :: "client_record \<Rightarrow> bool" where
  "sendable x \<longleftrightarrow> 2 + length (record_body x) \<le> OUT_CAP \<and> (\<forall>info. x = CrInfo info \<longrightarrow> li_version info = LINK_VERSION)"

lemma sendable_decodes:
  assumes "sendable x"
  shows "session_next (s\<lparr> ss_rx := framed (record_body x) @ rest \<rparr>) = (s\<lparr> ss_rx := rest \<rparr>, Inr (Some x))"
    "framed (record_body x) = p @ q \<Longrightarrow> q \<noteq> [] \<Longrightarrow> session_next (s\<lparr> ss_rx := p \<rparr>) = (s\<lparr> ss_rx := p \<rparr>, Inr None)"
proof -
  have len: "length (record_body x) < 65536" using assms by (simp add: sendable_def OUT_CAP_def)
  have dec: "decode_record (record_body x) = Some x" using assms by (intro decode_record_body) (auto simp: sendable_def)
  show "session_next (s\<lparr> ss_rx := framed (record_body x) @ rest \<rparr>) = (s\<lparr> ss_rx := rest \<rparr>, Inr (Some x))"
    by (rule session_next_framed [OF record_body_ne len dec])
  show "framed (record_body x) = p @ q \<Longrightarrow> q \<noteq> [] \<Longrightarrow> session_next (s\<lparr> ss_rx := p \<rparr>) = (s\<lparr> ss_rx := p \<rparr>, Inr None)"
    by (rule session_next_partial [OF record_body_ne len])
qed

text \<open>A client that has read up to \<open>rx\<close>, with \<open>xs\<close> still to be delivered.\<close>

definition reads :: "'e pipe_env_scheme \<Rightarrow> client \<Rightarrow> bytes \<Rightarrow> bool" where
  "reads E c bs \<longleftrightarrow> (\<exists>xs. delivers E (cl_hist c) xs \<and> ss_rx (cl_session c) @ concat xs = bs)"

lemma next_record_reads:
  assumes "delivers E (cl_hist c) xs" "ss_rx (cl_session c) @ concat xs = framed (record_body x) @ rest" "sendable x"
  shows "\<exists>c'. client_next_record E c = Some (Inr x, c') \<and> reads E c' rest \<and> ss_next_seq (cl_session c') = ss_next_seq (cl_session c) \<and>
    (\<exists>k. cl_hist c' = cl_hist c @ replicate k PoRecv)"
  using assms
proof (induction xs arbitrary: c)
  case Nil
  let ?s = "cl_session c"
  have "?s = ?s\<lparr> ss_rx := framed (record_body x) @ rest \<rparr>" using Nil.prems(2) by simp
  then have "session_next ?s = (?s\<lparr> ss_rx := rest \<rparr>, Inr (Some x))" using sendable_decodes(1) [OF assms(3), of rest ?s] by simp
  then show ?case
    by (subst client_next_record.simps) (auto simp: reads_def intro!: exI [of _ "[]"] exI [of _ 0])
next
  case (Cons y ys)
  let ?s = "cl_session c"
  show ?case
  proof (cases "length (ss_rx ?s) < length (framed (record_body x))")
    case True
    obtain q where q: "framed (record_body x) = ss_rx ?s @ q"
      using Cons.prems(2) True by (metis append_eq_append_conv2 length_append less_not_refl not_add_less1)
    then have "q \<noteq> []" using True by auto
    then have "session_next ?s = (?s, Inr None)" using sendable_decodes(2) [OF assms(3) q, of ?s] by simp
    moreover define c1 where "c1 = c\<lparr> cl_hist := cl_hist c @ [PoRecv], cl_session := on_bytes ?s y \<rparr>"
    ultimately have step: "client_next_record E c = client_next_record E c1"
      using Cons.prems(1) by (subst client_next_record.simps) (simp add: recv_guarded_def)
    obtain c' k where "client_next_record E c1 = Some (Inr x, c')" "reads E c' rest" "ss_next_seq (cl_session c') = ss_next_seq (cl_session c1)"
      "cl_hist c' = cl_hist c1 @ replicate k PoRecv"
      using Cons.IH [of c1] Cons.prems by (auto simp: c1_def on_bytes_def)
    then show ?thesis unfolding step by (auto simp: c1_def on_bytes_def intro!: exI [of _ "Suc k"])
  next
    case False
    let ?fr = "framed (record_body x)"
    have "take (length ?fr) (ss_rx ?s @ concat (y # ys)) = ?fr" using Cons.prems(2) by simp
    then have "take (length ?fr) (ss_rx ?s) = ?fr" using False by simp
    then have p1: "ss_rx ?s = ?fr @ drop (length ?fr) (ss_rx ?s)" by (metis append_take_drop_id)
    then obtain p where p: "ss_rx ?s = ?fr @ p" by blast
    then have p2: "p @ concat (y # ys) = rest" using Cons.prems(2) by simp
    from p have "?s = ?s\<lparr> ss_rx := framed (record_body x) @ p \<rparr>" by simp
    then have "session_next ?s = (?s\<lparr> ss_rx := p \<rparr>, Inr (Some x))" using sendable_decodes(1) [OF assms(3), of p ?s] by simp
    then show ?thesis
      using Cons.prems(1) p2 by (subst client_next_record.simps) (auto simp: reads_def intro!: exI [of _ "y # ys"] exI [of _ 0])
  qed
qed

lemma reads_next:
  assumes "reads E c (framed (record_body x) @ rest)" "sendable x"
  shows "\<exists>c'. client_next_record E c = Some (Inr x, c') \<and> reads E c' rest \<and> ss_next_seq (cl_session c') = ss_next_seq (cl_session c) \<and>
    (\<exists>k. cl_hist c' = cl_hist c @ replicate k PoRecv)"
  using assms next_record_reads by (auto simp: reads_def)

definition status_of :: "u8 \<times> u8 \<times> inst \<times> bytes \<Rightarrow> client_status" where
  "status_of = (\<lambda>(slot, i, inst, payload).
     \<lparr> st_slot = slot, st_id = i, st_result = inst_result inst, st_alert = inst_alert inst, st_payload = payload \<rparr>)"

definition status_record :: "u16 \<Rightarrow> u8 \<times> u8 \<times> inst \<times> bytes \<Rightarrow> client_record" where
  "status_record seq = (\<lambda>(slot, i, inst, payload). CrStatus seq slot i inst payload)"

lemma submit_loop_collects:
  assumes "reads E c (concat (map (\<lambda>x. framed (record_body (status_record seq x))) sts) @
      framed (record_body (CrTerminal seq oc tick cnt garble trailing)) @ rest)"
    "\<forall>x \<in> set sts. sendable (status_record seq x)"
  shows "\<exists>c'. submit_loop E seq acc c = Some (Inr \<lparr> rp_statuses = acc @ map status_of sts, rp_outcome = oc, rp_tick = tick, rp_garble = garble, rp_trailing = trailing \<rparr>, c') \<and>
    reads E c' rest \<and> ss_next_seq (cl_session c') = ss_next_seq (cl_session c) \<and> (\<exists>k. cl_hist c' = cl_hist c @ replicate k PoRecv)"
  using assms
proof (induction sts arbitrary: c acc)
  case Nil
  have "sendable (CrTerminal seq oc tick cnt garble trailing)"
    by (cases oc) (simp_all add: sendable_def terminal_body_def OUT_CAP_def)
  then obtain c' where "client_next_record E c = Some (Inr (CrTerminal seq oc tick cnt garble trailing), c')" "reads E c' rest"
    "ss_next_seq (cl_session c') = ss_next_seq (cl_session c)" "\<exists>k. cl_hist c' = cl_hist c @ replicate k PoRecv"
    using reads_next [of E c "CrTerminal seq oc tick cnt garble trailing" rest] Nil by auto
  then show ?case by (subst submit_loop.simps) simp
next
  case (Cons x sts)
  let ?more = "concat (map (\<lambda>x. framed (record_body (status_record seq x))) sts) @ framed (record_body (CrTerminal seq oc tick cnt garble trailing)) @ rest"
  obtain slot i inst payload where x: "x = (slot, i, inst, payload)" by (cases x)
  obtain c1 k where c1: "client_next_record E c = Some (Inr (CrStatus seq slot i inst payload), c1)" "reads E c1 ?more"
    "ss_next_seq (cl_session c1) = ss_next_seq (cl_session c)" "cl_hist c1 = cl_hist c @ replicate k PoRecv"
    using reads_next [of E c "status_record seq x" ?more] Cons.prems by (auto simp: x status_record_def)
  let ?acc = "acc @ [status_of x]"
  have step: "submit_loop E seq acc c = submit_loop E seq ?acc c1"
    by (subst submit_loop.simps) (simp add: c1(1) x status_of_def)
  obtain c' j where "submit_loop E seq ?acc c1 = Some (Inr \<lparr> rp_statuses = ?acc @ map status_of sts, rp_outcome = oc, rp_tick = tick, rp_garble = garble, rp_trailing = trailing \<rparr>, c')"
    "reads E c' rest" "ss_next_seq (cl_session c') = ss_next_seq (cl_session c1)" "cl_hist c' = cl_hist c1 @ replicate j PoRecv"
    using Cons.IH [OF c1(2), of ?acc] Cons.prems(2) by auto
  then show ?case using c1 unfolding step by (auto simp flip: replicate_add intro!: exI [of _ "k + j"])
qed

text \<open>
  C27. A submitted command returns what the adapter answered. When the pipe takes the request and then
  delivers, in chunks of any size, the statuses streamed under its sequence number followed by its
  terminal, the call returns: the statuses in order with slot, sender, decoded result, alert flag and
  payload, and the terminal's outcome, tick and evidence. It sends exactly the one SUBMIT record, and the
  bytes behind the terminal, if any came along, stay for the next call.
\<close>

theorem client_submit_collects:
  assumes "encode_submit (cl_session c) [] cmd = (s', out, seq)" "pe_send E (cl_hist c @ [PoSend out]) = None"
    "delivers E (cl_hist c @ [PoSend out]) chunks" "ss_rx (cl_session c) = []"
    "concat chunks = concat (map (\<lambda>x. framed (record_body (status_record seq x))) sts) @
       framed (record_body (CrTerminal seq oc tick cnt garble trailing)) @ rest"
    "\<forall>x \<in> set sts. sendable (status_record seq x)"
  shows "\<exists>c'. client_submit E cmd c = Some (Inr \<lparr> rp_statuses = map status_of sts, rp_outcome = oc, rp_tick = tick, rp_garble = garble, rp_trailing = trailing \<rparr>, c') \<and>
    reads E c' rest \<and> ss_next_seq (cl_session c') = ss_next_seq s' \<and> (\<exists>k. cl_hist c' = cl_hist c @ PoSend out # replicate k PoRecv)"
proof -
  define c1 where "c1 = c\<lparr> cl_session := s', cl_hist := cl_hist c @ [PoSend out] \<rparr>"
  have "ss_rx s' = []" using assms(1,4) by (auto simp: encode_submit_def alloc_seq_def Let_def)
  then have "reads E c1 (concat (map (\<lambda>x. framed (record_body (status_record seq x))) sts) @
      framed (record_body (CrTerminal seq oc tick cnt garble trailing)) @ rest)"
    using assms(3,5) by (auto simp: reads_def c1_def)
  moreover have "client_submit E cmd c = submit_loop E seq [] c1"
    using assms(1,2) by (simp add: client_submit_def cthen_def pipe_send_def Let_def c1_def)
  ultimately show ?thesis using submit_loop_collects [of E c1 seq sts oc tick cnt garble trailing rest "[]"] assms(6) by (auto simp: c1_def)
qed

text \<open>A ping answered by servo 5, delivered in one chunk with a byte of the next record.\<close>

definition demo_answer :: bytes where
  "demo_answer = framed (record_body (CrStatus 0 0 5 0x80 [7, 0, 1])) @ framed (record_body (CrTerminal 0 OcComplete 99 1 0 False)) @ [6]"

definition demo_pipe :: pipe_env where
  "demo_pipe = \<lparr> pe_send = \<lambda>h. None, pe_recv = \<lambda>h. Inr demo_answer \<rparr>"

definition demo_client :: client where
  "demo_client = \<lparr> cl_session = client_session_new, cl_anchor = edge_anchor_default,
     cl_info = \<lparr> li_version = 1, li_ticks_per_us = 8 \<rparr>, cl_hist = [] \<rparr>"

theorem client_submit_collects_witness:
  "\<exists>c'. client_submit demo_pipe (CmdExchange 5 0 []) demo_client =
      Some (Inr \<lparr> rp_statuses = [\<lparr> st_slot = 0, st_id = 5, st_result = Some RcOk, st_alert = False, st_payload = [7, 0, 1] \<rparr>],
                 rp_outcome = OcComplete, rp_tick = 99, rp_garble = 0, rp_trailing = False \<rparr>, c') \<and> reads demo_pipe c' [6]"
proof -
  have enc: "encode_submit (cl_session demo_client) [] (CmdExchange 5 0 []) =
      (client_session_new\<lparr> ss_next_seq := 1 \<rparr>, [6, 0, 1, 0, 0, 0, 5, 0], 0)"
    by (simp add: encode_submit_def alloc_seq_def demo_client_def client_session_new_def session_frame_def le16_bytes_def osc_const)
  have st: "status_of (0, 5, 0x80, [7, 0, 1]) =
      \<lparr> st_slot = 0, st_id = 5, st_result = Some RcOk, st_alert = False, st_payload = [7, 0, 1] \<rparr>"
    by (simp add: status_of_def inst_result_def inst_alert_def inst_is_status_def STATUS_BIT_def ALERT_BIT_def result_from_bits_def)
  show ?thesis
    using client_submit_collects [OF enc, of demo_pipe "[demo_answer]" "[(0, 5, 0x80, [7, 0, 1])]" OcComplete 99 1 0 False "[6]"]
    by (simp add: demo_pipe_def demo_client_def client_session_new_def demo_answer_def status_record_def sendable_def OUT_CAP_def st) blast
qed

subsection \<open>A cycle with a payload of the wrong width\<close>

text \<open>The pipe's history only grows.\<close>

lemma pipe_send_hist: "pipe_send E bytes c = Some (r, c') \<Longrightarrow> cl_hist c' = cl_hist c @ [PoSend bytes]"
  by (auto simp: pipe_send_def Let_def)

definition grows :: "client \<Rightarrow> client \<Rightarrow> bool" where
  "grows c c' \<longleftrightarrow> (\<exists>k. cl_hist c' = cl_hist c @ replicate k PoRecv)"

lemma grows_refl: "cl_hist c' = cl_hist c \<Longrightarrow> grows c c'"
  by (auto simp: grows_def intro: exI [of _ 0])

lemma grows_trans: "grows c c1 \<Longrightarrow> grows c1 c2 \<Longrightarrow> grows c c2"
  by (auto simp: grows_def simp flip: replicate_add)

lemma grows_recv: "grows c1 c2 \<Longrightarrow> cl_hist c1 = cl_hist c @ [PoRecv] \<Longrightarrow> grows c c2"
  by (auto simp: grows_def) (metis replicate_Suc)

lemma next_record_grows:
  assumes "client_next_record E c = Some y"
  shows "grows c (snd y)"
proof (rule client_next_record.raw_induct [where P = "\<lambda>E c y. grows c (snd y)", OF _ assms])
  fix rec :: "'c pipe_env_scheme \<Rightarrow> client \<Rightarrow> ((client_error + client_record) \<times> client) option" and E :: "'c pipe_env_scheme" and c y
  assume IH: "\<And>E c y. rec E c = Some y \<Longrightarrow> grows c (snd y)"
    and body: "(let (s, r) = session_next (cl_session c); c = c\<lparr> cl_session := s \<rparr>
      in case r of
           Inl e \<Rightarrow> Some (Inl (CeLink e), c)
         | Inr (Some record) \<Rightarrow> Some (Inr record, c)
         | Inr None \<Rightarrow>
             do { (r, c) \<leftarrow> recv_guarded E c;
                  case r of
                    Inl e \<Rightarrow> Some (Inl e, c)
                  | Inr chunk \<Rightarrow> rec E (c\<lparr> cl_session := on_bytes (cl_session c) chunk \<rparr>) }) = Some y"
  obtain s r where s: "session_next (cl_session c) = (s, r)" by (cases "session_next (cl_session c)")
  have more: "grows c (snd y)" if "rec E c1 = Some y" "cl_hist c1 = cl_hist c @ [PoRecv]" for c1
    by (rule grows_recv [OF IH [OF that(1)] that(2)])
  show "grows c (snd y)"
    using body s more
    by (auto simp: recv_guarded_def Let_def split: sum.splits option.splits intro: grows_refl)
      (auto simp: grows_def intro: exI [of _ 1])
qed

lemma submit_loop_grows:
  assumes "submit_loop E seq acc c = Some y"
  shows "grows c (snd y)"
proof (rule submit_loop.raw_induct [where P = "\<lambda>E seq acc c y. grows c (snd y)", OF _ assms])
  fix rec :: "'c pipe_env_scheme \<Rightarrow> u16 \<Rightarrow> client_status list \<Rightarrow> client \<Rightarrow> ((client_error + reply) \<times> client) option"
    and E :: "'c pipe_env_scheme" and seq statuses c y
  assume IH: "\<And>E seq acc c y. rec E seq acc c = Some y \<Longrightarrow> grows c (snd y)"
    and body: "do { (r, c) \<leftarrow> client_next_record E c;
          case r of
            Inl e \<Rightarrow> Some (Inl e, c)
          | Inr record \<Rightarrow>
              (case record of
                 CrStatus s slot i inst payload \<Rightarrow>
                   if s = seq
                   then rec E seq
                          (statuses @ [\<lparr> st_slot = slot, st_id = i, st_result = inst_result inst, st_alert = inst_alert inst, st_payload = payload \<rparr>]) c
                   else Some (Inl (CeLink LeDesync), c)
               | CrTerminal s oc tick _ garble trailing \<Rightarrow>
                   if s = seq
                   then Some (Inr \<lparr> rp_statuses = statuses, rp_outcome = oc, rp_tick = tick, rp_garble = garble, rp_trailing = trailing \<rparr>, c)
                   else Some (Inl (CeLink LeDesync), c)
               | CrRejected s reason \<Rightarrow>
                   if s = seq then Some (Inl (CeLink (LeRejected (reject_from_byte reason))), c)
                   else Some (Inl (CeLink LeDesync), c)
               | _ \<Rightarrow> Some (Inl (CeLink LeDesync), c)) } = Some y"
  obtain r c1 where n: "client_next_record E c = Some (r, c1)" using body by (auto simp: bind_eq_Some_conv)
  have g: "grows c c1" using next_record_grows [OF n] by simp
  have more: "grows c (snd y)" if "rec E seq acc c1 = Some y" for acc using grows_trans [OF g] IH [OF that] by blast
  show "grows c (snd y)"
    using body g more unfolding n by (auto split: sum.splits client_record.splits if_splits)
qed

lemma submit_sends:
  assumes "client_submit E cmd c = Some (r, c')"
  shows "\<exists>bytes k. cl_hist c' = cl_hist c @ PoSend bytes # replicate k PoRecv"
proof -
  obtain s out seq where e: "encode_submit (cl_session c) [] cmd = (s, out, seq)" by (cases "encode_submit (cl_session c) [] cmd") auto
  obtain r1 c1 where p: "pipe_send E out (c\<lparr> cl_session := s \<rparr>) = Some (r1, c1)" by (simp add: pipe_send_def Let_def)
  have h: "cl_hist c1 = cl_hist c @ [PoSend out]" using pipe_send_hist [OF p] by simp
  have "c' = c1 \<or> submit_loop E seq [] c1 = Some (r, c')"
    using assms e p by (auto simp: client_submit_def cthen_def split: sum.splits)
  then have "grows c1 c'" using submit_loop_grows [of E seq "[]" c1 "(r, c')"] grows_refl by auto
  then show ?thesis using h by (auto simp: grows_def)
qed

lemma cthen_InrD: "cthen m f c = Some (Inr x, c') \<Longrightarrow> \<exists>y c1. m c = Some (Inr y, c1) \<and> f y c1 = Some (Inr x, c')"
  by (cases "m c") (auto simp: cthen_def split: sum.splits)

lemma gwrite_sends:
  assumes "client_gwrite_hold E addr cnt pairs c = Some (Inr (), c')"
  shows "\<exists>bytes k. cl_hist c' = cl_hist c @ PoSend bytes # replicate k PoRecv"
proof -
  obtain built r c1 where b: "exchange_built E Id_BROADCAST (inst_instruction OpGwrite FLAG_HOLD) built RcLimit c = Some (Inr r, c1)" "c' = c1"
    using cthen_InrD [OF assms [unfolded client_gwrite_hold_def client_gwrite_flags_def]] by (auto simp: creturn_def)
  then obtain cmd where "client_submit E cmd c = Some (Inr r, c')"
    by (auto simp: exchange_built_def cfail_def client_exchange_def split: option.splits)
  then show ?thesis by (rule submit_sends)
qed

text \<open>
  A cycle step with a payload of the wrong width is not refused before the wire is touched. When the
  bad payload belongs to a later group, the step answers \<open>range\<close> only after the writes of the groups before
  it were sent; they stay held in the servos, to be applied by whatever COMMIT comes next.
\<close>

theorem cycle_refuses_after_sending:
  assumes "cy_groups cy = g1 # g2 # gs" "length payloads = payload_slots cy"
    "\<forall>d \<in> set (take (length (cg_ids g1)) payloads). length d = unat (cg_count g1)"
    "\<exists>d \<in> set (take (length (cg_ids g2)) (drop (length (cg_ids g1)) payloads)). length d \<noteq> unat (cg_count g2)"
    "client_gwrite_hold E (cg_addr g1) (cg_count g1) (zip (cg_ids g1) (take (length (cg_ids g1)) payloads)) c = Some (Inr (), c1)"
  shows "cycle_step E cy payloads c = Some (Inl (CeServo RcRange), c1) \<and>
    (\<exists>bytes k. cl_hist c1 = cl_hist c @ PoSend bytes # replicate k PoRecv)"
proof -
  have len: "length (cg_ids g1) + length (cg_ids g2) \<le> length payloads" using assms(1,2) by (simp add: payload_slots_def)
  have "\<not> length (drop (length (cg_ids g1)) payloads) < length (cg_ids g2)" using len by (simp add: not_less le_diff_conv2)
  then have 2: "cycle_writes E (g2 # gs) (drop (length (cg_ids g1)) payloads) = cfail (CeServo RcRange)"
    unfolding cycle_writes.simps(2) using assms(4) by (simp only: if_False if_True)
  have 1: "\<not> length payloads < length (cg_ids g1)" "\<not> (\<exists>d \<in> set (take (length (cg_ids g1)) payloads). length d \<noteq> unat (cg_count g1))"
    using len by linarith (use assms(3) in blast)
  have "cycle_writes E (cy_groups cy) payloads c = Some (Inl (CeServo RcRange), c1)"
    unfolding assms(1) cycle_writes.simps(2) [of E g1] 2 if_not_P [OF 1(1)] if_not_P [OF 1(2)]
    by (simp add: cthen_def assms(5) cfail_def)
  then show ?thesis using gwrite_sends [OF assms(5)] assms(2) by (simp add: cycle_step_def cthen_def)
qed

definition held_pipe :: pipe_env where
  "held_pipe = \<lparr> pe_send = \<lambda>h. None, pe_recv = \<lambda>h. Inr (framed (record_body (CrTerminal 0 OcSent 99 0 0 False))) \<rparr>"

lemma held_submit: "\<exists>r c'. client_submit held_pipe cmd demo_client = Some (Inr r, c')"
proof -
  obtain out where e: "encode_submit (cl_session demo_client) [] cmd = (client_session_new\<lparr> ss_next_seq := 1 \<rparr>, out, 0)"
    by (simp add: encode_submit_def alloc_seq_def demo_client_def client_session_new_def osc_const)
  define c1 where "c1 = demo_client\<lparr> cl_session := client_session_new\<lparr> ss_next_seq := 1 \<rparr>, cl_hist := [PoSend out] \<rparr>"
  have "reads held_pipe c1 (concat (map (\<lambda>x. framed (record_body (status_record 0 x))) []) @ framed (record_body (CrTerminal 0 OcSent 99 0 0 False)) @ [])"
    unfolding reads_def
    by (rule exI [of _ "[framed (record_body (CrTerminal 0 OcSent 99 0 0 False))]"]) (simp add: c1_def client_session_new_def held_pipe_def)
  then obtain r c' where "submit_loop held_pipe 0 [] c1 = Some (Inr r, c')"
    using submit_loop_collects [of held_pipe c1 0 "[]" OcSent 99 0 0 False "[]" "[]"] by auto
  then show ?thesis
    using e by (simp add: client_submit_def cthen_def pipe_send_def held_pipe_def c1_def demo_client_def)
qed

definition demo_cycle :: cycle where
  "demo_cycle = \<lparr> cy_groups = [\<lparr> cg_addr = 0x188, cg_count = 1, cg_ids = [5] \<rparr>, \<lparr> cg_addr = 0x18A, cg_count = 2, cg_ids = [6] \<rparr>],
     cy_telemetry = TmProfile [5, 6] 0 \<rparr>"

theorem cycle_refuses_after_sending_witness:
  "\<exists>c1. cycle_step held_pipe demo_cycle [[1], [1]] demo_client = Some (Inl (CeServo RcRange), c1) \<and>
    (\<exists>bytes k. cl_hist c1 = cl_hist demo_client @ PoSend bytes # replicate k PoRecv)"
proof -
  define built where "built = (do { b \<leftarrow> gwu_builder_new (replicate (4 + length [(5 :: frame_id, [1 :: u8])] * (1 + unat (1 :: u8))) 0) 0x188 1;
      b \<leftarrow> push_pairs [(5, [1])] b; n \<leftarrow> gwu_builder_finish b; Some (gwub_dst b, n) } :: (bytes \<times> nat) option)"
  have "built \<noteq> None" unfolding built_def by code_simp
  then obtain p n where b: "built = Some (p, n)" by auto
  obtain r c1 where "client_exchange held_pipe Id_BROADCAST (inst_instruction OpGwrite FLAG_HOLD) (take n p) demo_client = Some (Inr r, c1)"
    using held_submit unfolding client_exchange_def by blast
  then have "client_gwrite_hold held_pipe 0x188 1 [(5, [1])] demo_client = Some (Inr (), c1)"
    unfolding client_gwrite_hold_def client_gwrite_flags_def built_def [symmetric] b
    by (simp add: cthen_def exchange_built_def creturn_def)
  then show ?thesis
    using cycle_refuses_after_sending [of demo_cycle "\<lparr> cg_addr = 0x188, cg_count = 1, cg_ids = [5] \<rparr>" "\<lparr> cg_addr = 0x18A, cg_count = 2, cg_ids = [6] \<rparr>"
        "[]" "[[1], [1]]" held_pipe demo_client c1]
    by (simp add: demo_cycle_def payload_slots_def)
qed

end
