(* ===== verification/Client_Mgmt.thy ===== *)
theory Client_Mgmt
  imports Client_Call "HOL-Library.List_Lexorder"
begin

text \<open>
  \<open>client/src/mgmt.rs\<close>: the management choreographies, discovery first. Discovery only exchanges frames and
  pauses, so it is stated over those two operations (\<open>bus_ops\<close>); \<open>client_ops\<close> are the client's own. The
  walk is a loop over a stack of UID prefixes that the answers of the bus drive, so it is a partial
  function, and that it ends is one of the properties.
\<close>

subsection \<open>UIDs\<close>

type_synonym uid = bytes

definition uid_bit :: "uid \<Rightarrow> u8 \<Rightarrow> bool" where
  "uid_bit u k \<longleftrightarrow> drop_bit (unat (k mod 8)) (u ! (unat k div 8)) AND 1 \<noteq> 0"

definition matches_prefix :: "uid \<Rightarrow> uid \<Rightarrow> u8 \<Rightarrow> bool" where
  "matches_prefix u prefix len \<longleftrightarrow> list_all (\<lambda>k. uid_bit u (of_nat k) = uid_bit prefix (of_nat k)) [0..<unat len]"

definition with_bit :: "uid \<Rightarrow> u8 \<Rightarrow> bool \<Rightarrow> uid" where
  "with_bit prefix k v =
     (if v then prefix[unat k div 8 := prefix ! (unat k div 8) OR push_bit (unat (k mod 8)) 1] else prefix)"

record found =
  fd_uid :: uid
  fd_id :: frame_id

datatype verdict = VdCandidate found | VdCollision | VdEmpty

record 'c bus_ops =
  bo_exchange :: "frame_id \<Rightarrow> inst \<Rightarrow> bytes \<Rightarrow> ('c, reply) client_prog"
  bo_pause :: "nat \<Rightarrow> 'c \<Rightarrow> 'c"

definition client_ops :: "'e pipe_env_scheme \<Rightarrow> client bus_ops" where
  "client_ops E = \<lparr> bo_exchange = client_exchange E, bo_pause = client_pause \<rparr>"

definition PROBE_SETTLE :: nat where [osc_const]: "PROBE_SETTLE = 5"
definition EMPTY_RETRIES :: nat where [osc_const]: "EMPTY_RETRIES = 2"
definition WALKS_CAP :: nat where [osc_const]: "WALKS_CAP = 5"
definition UID_FULL :: u8 where [osc_const]: "UID_FULL = 128"
definition FULL_DEPTH_RETRIES :: nat where [osc_const]: "FULL_DEPTH_RETRIES = 3"

subsection \<open>Probing\<close>

definition probe_verdict :: "u8 \<Rightarrow> uid \<Rightarrow> reply \<Rightarrow> verdict" where
  "probe_verdict len prefix r =
     (let clean = (rp_garble r = 0 \<and> \<not> rp_trailing r)
      in case rp_statuses r of
           [] \<Rightarrow> if clean then VdEmpty else VdCollision
         | [s] \<Rightarrow>
             if clean \<and> st_result s = Some RcOk \<and> length (st_payload s) = UID_LEN
             then if matches_prefix (st_payload s) prefix len then VdCandidate \<lparr> fd_uid = st_payload s, fd_id = st_id s \<rparr> else VdCollision
             else VdCollision
         | _ \<Rightarrow> VdCollision)"

definition probe :: "'c bus_ops \<Rightarrow> u8 \<Rightarrow> uid \<Rightarrow> ('c, verdict) client_prog" where
  "probe B len prefix =
     (case build_mgmt_enum (replicate (2 + UID_LEN) 0) len prefix of
        None \<Rightarrow> cpanic
      | Some (p, n) \<Rightarrow>
          cthen (bo_exchange B Id_BROADCAST (inst_instruction OpMgmt 0) (take n p)) (\<lambda>r c.
            let v = probe_verdict len prefix r
            in creturn v (if v = VdCollision then bo_pause B PROBE_SETTLE c else c)))"

primrec probe_again :: "'c bus_ops \<Rightarrow> u8 \<Rightarrow> uid \<Rightarrow> nat \<Rightarrow> verdict \<Rightarrow> ('c, verdict) client_prog" where
  "probe_again B len prefix 0 v = creturn v"
| "probe_again B len prefix (Suc k) v =
     (if v \<noteq> VdEmpty then creturn v
      else (\<lambda>c. cthen (probe B len prefix) (probe_again B len prefix k) (bo_pause B PROBE_SETTLE c)))"

definition probe_settled :: "'c bus_ops \<Rightarrow> u8 \<Rightarrow> uid \<Rightarrow> ('c, verdict) client_prog" where
  "probe_settled B len prefix = cthen (probe B len prefix) (probe_again B len prefix EMPTY_RETRIES)"

subsection \<open>The prefix walk\<close>

primrec leaf_retry :: "'c bus_ops \<Rightarrow> u8 \<Rightarrow> uid \<Rightarrow> nat \<Rightarrow> found list \<Rightarrow> ('c, found list) client_prog" where
  "leaf_retry B len prefix 0 found = creturn found"
| "leaf_retry B len prefix (Suc k) found =
     cthen (probe B len prefix) (\<lambda>v. case v of VdCandidate node \<Rightarrow> creturn (found @ [node]) | _ \<Rightarrow> leaf_retry B len prefix k found)"

text \<open>One stack entry: the nodes found with it and the entries to push, the top one first.\<close>

definition walk_entry :: "'c bus_ops \<Rightarrow> found list \<Rightarrow> u8 \<Rightarrow> uid \<Rightarrow> ('c, found list \<times> (u8 \<times> uid) list) client_prog" where
  "walk_entry B found len prefix =
     cthen (probe_settled B len prefix) (\<lambda>v.
       let children = [(len + 1, with_bit prefix len True), (len + 1, with_bit prefix len False)]
       in case v of
            VdEmpty \<Rightarrow> creturn (found, [])
          | VdCandidate node \<Rightarrow>
              if len = UID_FULL then creturn (found @ [node], [])
              else let b = uid_bit (fd_uid node) len
                   in cthen (probe_settled B (len + 1) (with_bit prefix len b)) (\<lambda>own.
                      cthen (probe_settled B (len + 1) (with_bit prefix len (\<not> b))) (\<lambda>sib.
                        case own of
                          VdCandidate n2 \<Rightarrow>
                            if sib = VdEmpty \<and> fd_uid n2 = fd_uid node then creturn (found @ [n2], []) else creturn (found, children)
                        | _ \<Rightarrow> creturn (found, children)))
          | VdCollision \<Rightarrow>
              if len = UID_FULL then cthen (leaf_retry B len prefix FULL_DEPTH_RETRIES found) (\<lambda>found. creturn (found, []))
              else creturn (found, children))"

partial_function (option) walk_loop :: "'c bus_ops \<Rightarrow> found list \<Rightarrow> (u8 \<times> uid) list \<Rightarrow> 'c \<Rightarrow> ((client_error + found list) \<times> 'c) option" where
  "walk_loop B found stack c =
     (case stack of
        [] \<Rightarrow> Some (Inr found, c)
      | (len, prefix) # rest \<Rightarrow>
          do { (r, c) \<leftarrow> walk_entry B found len prefix c;
               case r of Inl e \<Rightarrow> Some (Inl e, c) | Inr (found, push) \<Rightarrow> walk_loop B found (push @ rest) c })"

definition uid_walk :: "'c bus_ops \<Rightarrow> ('c, found list) client_prog" where
  "uid_walk B = cthen (walk_loop B [] [(0, replicate UID_LEN 0)]) (\<lambda>found. creturn (sort_key fd_uid found))"

primrec discover_loop :: "'c bus_ops \<Rightarrow> nat \<Rightarrow> found list \<Rightarrow> ('c, found list) client_prog" where
  "discover_loop B 0 prev = creturn prev"
| "discover_loop B (Suc k) prev =
     (\<lambda>c. cthen (uid_walk B) (\<lambda>next. if next = prev then creturn next else discover_loop B k next) (bo_pause B (4 * PROBE_SETTLE) c))"

definition discover :: "'c bus_ops \<Rightarrow> ('c, found list) client_prog" where
  "discover B = cthen (uid_walk B) (discover_loop B (WALKS_CAP - 1))"

subsection \<open>The other choreographies\<close>

definition bus_present :: "'c bus_ops \<Rightarrow> ('c, bool) client_prog" where
  "bus_present B = cthen (probe_settled B 0 (replicate UID_LEN 0)) (\<lambda>v. creturn (v \<noteq> VdEmpty))"

primrec find_rate :: "'e pipe_env_scheme \<Rightarrow> baud_rate list \<Rightarrow> (client, baud_rate option) client_prog" where
  "find_rate E [] = creturn None"
| "find_rate E (rate # rates) =
     cthen (client_host_baud E rate) (\<lambda>_.
     cthen (bus_present (client_ops E)) (\<lambda>present. if present then creturn (Some rate) else find_rate E rates))"

definition find_bus_baud :: "'e pipe_env_scheme \<Rightarrow> (client, baud_rate option) client_prog" where
  "find_bus_baud E = find_rate E [B1000000, B500000, B2000000, B3000000]"

definition expect_ok_from :: "reply \<Rightarrow> frame_id \<Rightarrow> client_error + unit" where
  "expect_ok_from r i =
     (case rp_outcome r of
        OcTimeout slot \<Rightarrow> Inl (CeTimeout slot)
      | _ \<Rightarrow>
          (case rp_statuses r of
             [s] \<Rightarrow>
               if st_id s = i
               then (case st_result s of Some RcOk \<Rightarrow> Inr () | Some code \<Rightarrow> Inl (CeServo code) | None \<Rightarrow> Inl (CeLink LeDesync))
               else Inl (CeLink LeDesync)
           | _ \<Rightarrow> Inl (CeLink LeDesync)))"

definition mgmt_assign :: "'c bus_ops \<Rightarrow> uid \<Rightarrow> frame_id \<Rightarrow> ('c, unit) client_prog" where
  "mgmt_assign B u new_id =
     (case build_mgmt_assign (replicate (2 + UID_LEN + 1) 0) u new_id of
        None \<Rightarrow> cpanic
      | Some (p, n) \<Rightarrow>
          cthen (bo_exchange B Id_BROADCAST (inst_instruction OpMgmt 0) (take n p)) (\<lambda>r. clift (expect_ok_from r new_id)))"

primrec cal_trains :: "'c bus_ops \<Rightarrow> nat \<Rightarrow> u16 \<Rightarrow> u8 \<Rightarrow> ('c, unit) client_prog" where
  "cal_trains B 0 gap_us gaps = creturn ()"
| "cal_trains B (Suc k) gap_us gaps =
     (case build_mgmt_cal (replicate 8 0) gap_us gaps of
        None \<Rightarrow> cpanic
      | Some (p, n) \<Rightarrow>
          cthen (bo_exchange B Id_BROADCAST (inst_instruction OpMgmt 0) (take n p)) (\<lambda>_. cal_trains B k gap_us gaps))"

definition mgmt_cal :: "'c bus_ops \<Rightarrow> u8 \<Rightarrow> u16 \<Rightarrow> u8 \<Rightarrow> ('c, unit) client_prog" where
  "mgmt_cal B trains gap_us gaps = cal_trains B (unat trains) gap_us gaps"

definition mgmt_op_cmd :: "'c bus_ops \<Rightarrow> frame_id \<Rightarrow> mgmt_op \<Rightarrow> ('c, unit) client_prog" where
  "mgmt_op_cmd B i op =
     (case build_mgmt (replicate 2 0) op of
        None \<Rightarrow> cpanic
      | Some (p, n) \<Rightarrow>
          cthen (bo_exchange B i (inst_instruction OpMgmt 0) (take n p)) (\<lambda>r. clift (expect_ok_from r i)))"

definition mgmt_save :: "'c bus_ops \<Rightarrow> frame_id \<Rightarrow> ('c, unit) client_prog" where
  "mgmt_save B i = mgmt_op_cmd B i MgmtSave"

definition mgmt_reboot :: "'c bus_ops \<Rightarrow> frame_id \<Rightarrow> ('c, unit) client_prog" where
  "mgmt_reboot B i = mgmt_op_cmd B i MgmtReboot"

definition mgmt_factory :: "'c bus_ops \<Rightarrow> frame_id \<Rightarrow> ('c, unit) client_prog" where
  "mgmt_factory B i = mgmt_op_cmd B i MgmtFactory"

definition on_timeout :: "('c, 'a) client_prog \<Rightarrow> ('a \<Rightarrow> 'b) \<Rightarrow> 'b \<Rightarrow> ('c, 'b) client_prog" where
  "on_timeout m f x c =
     do { (r, c) \<leftarrow> m c;
          case r of Inr y \<Rightarrow> Some (Inr (f y), c) | Inl (CeTimeout _) \<Rightarrow> Some (Inr x, c) | Inl e \<Rightarrow> Some (Inl e, c) }"

primrec ping_sweep :: "'e pipe_env_scheme \<Rightarrow> frame_id list \<Rightarrow> (client, (frame_id \<times> bool) list) client_prog" where
  "ping_sweep E [] = creturn []"
| "ping_sweep E (i # ids) =
     cthen (on_timeout (client_ping E i) (\<lambda>_. True) False) (\<lambda>alive.
     cthen (ping_sweep E ids) (\<lambda>roster. creturn ((i, alive) # roster)))"

definition rescue_sweep :: "'e pipe_env_scheme \<Rightarrow> frame_id list \<Rightarrow> (client, (frame_id \<times> bool) list) client_prog" where
  "rescue_sweep E ids = cthen (client_rescue E) (\<lambda>_. ping_sweep E ids)"

primrec write_rates :: "'e pipe_env_scheme \<Rightarrow> baud_rate \<Rightarrow> frame_id list \<Rightarrow> (client, unit) client_prog" where
  "write_rates E rate [] = creturn ()"
| "write_rates E rate (i # ids) =
     cthen (on_timeout (client_write E i BAUD_RATE_IDX [baud_as_idx rate]) id ()) (\<lambda>_. write_rates E rate ids)"

definition set_baud :: "'e pipe_env_scheme \<Rightarrow> frame_id list \<Rightarrow> baud_rate \<Rightarrow> (client, (frame_id \<times> bool) list) client_prog" where
  "set_baud E ids rate =
     cthen (write_rates E rate ids) (\<lambda>_.
     cthen (client_host_baud E rate) (\<lambda>_ c. ping_sweep E ids (client_pause PROBE_SETTLE c)))"

record cal_trace =
  ct_id :: frame_id
  ct_trims :: "8 word list"

definition trace_converged :: "cal_trace \<Rightarrow> bool" where
  "trace_converged t = (case rev (ct_trims t) of a # b # _ \<Rightarrow> a = b | _ \<Rightarrow> False)"

primrec sample_trims :: "'e pipe_env_scheme \<Rightarrow> cal_trace list \<Rightarrow> (client, cal_trace list) client_prog" where
  "sample_trims E [] = creturn []"
| "sample_trims E (t # ts) =
     cthen (client_read E (ct_id t) TRIM_STEPS 1) (\<lambda>b.
     cthen (sample_trims E ts) (\<lambda>ts. creturn (t\<lparr> ct_trims := ct_trims t @ [if b = [] then 0 else b ! 0] \<rparr> # ts)))"

primrec cal_rounds :: "'e pipe_env_scheme \<Rightarrow> nat \<Rightarrow> u16 \<Rightarrow> u8 \<Rightarrow> cal_trace list \<Rightarrow> (client, cal_trace list) client_prog" where
  "cal_rounds E 0 gap_us gaps traces = creturn traces"
| "cal_rounds E (Suc k) gap_us gaps traces =
     cthen (mgmt_cal (client_ops E) 1 gap_us gaps) (\<lambda>_. cthen (sample_trims E traces) (cal_rounds E k gap_us gaps))"

definition cal_verify :: "'e pipe_env_scheme \<Rightarrow> frame_id list \<Rightarrow> u8 \<Rightarrow> u16 \<Rightarrow> u8 \<Rightarrow> (client, cal_trace list) client_prog" where
  "cal_verify E ids trains gap_us gaps =
     cal_rounds E (unat trains) gap_us gaps (map (\<lambda>i. \<lparr> ct_id = i, ct_trims = [] \<rparr>) ids)"

end
