(* ===== verification/Client_Discover.thy ===== *)
theory Client_Discover
  imports Client_Mgmt
begin

text \<open>
  Discovery is correct. The walk of \<open>client/src/mgmt.rs\<close> ends on every bus whose exchanges end, whatever they
  answer; and on a bus that answers each ENUM request as the servos' own prefix match says, it returns the
  fleet. Replies that superpose may read as one clean frame (section 9.2 of the protocol); the walk is safe
  as long as the accident does not repeat at once with the same UID, and loses servos when it does.
\<close>

subsection \<open>UID bits\<close>

definition ub :: "uid \<Rightarrow> nat \<Rightarrow> bool" where
  "ub u k = bit (u ! (k div 8)) (k mod 8)"

lemma uid_bit_ub: "uid_bit u k = ub u (unat k)"
proof -
  have "drop_bit n x AND 1 \<noteq> 0 \<longleftrightarrow> bit x n" for x :: u8 and n
    by (simp add: and_one_eq bit_iff_odd_drop_bit mod_2_eq_odd)
  moreover have "unat (k mod 8) = unat k mod 8" by (simp add: unat_mod)
  ultimately show ?thesis by (simp add: uid_bit_def ub_def)
qed

lemma matches_prefix_ub: "matches_prefix u p w \<longleftrightarrow> (\<forall>k<unat w. ub u k = ub p k)"
proof -
  have "unat (of_nat k :: u8) = k" if "k < unat w" for k
    using that unsigned_less [of w, where ?'a = nat] by (intro unat_of_nat8) simp
  then show ?thesis by (auto simp: matches_prefix_def uid_bit_ub list_all_iff)
qed

lemma with_bit_length [simp]: "length (with_bit p k v) = length p"
  by (simp add: with_bit_def)

lemma ub_with_bit:
  assumes "length p = UID_LEN" "unat k < 128"
  shows "ub (with_bit p k v) j = (v \<and> j = unat k \<or> ub p j)"
proof (cases "j div 8 = unat k div 8")
  case True
  have m: "unat (k mod 8) = unat k mod 8" by (simp add: unat_mod)
  have "unat k div 8 < length p" using assms by (simp add: UID_LEN_def)
  moreover have "j = unat k \<longleftrightarrow> j mod 8 = unat k mod 8" using True by (metis div_mult_mod_eq)
  moreover have "j mod 8 < 8" by simp
  ultimately show ?thesis using True by (auto simp: ub_def with_bit_def m bit_simps)
next
  case False
  then show ?thesis by (auto simp: ub_def with_bit_def)
qed

lemma uid_eq_bits:
  assumes "length u = UID_LEN" "length v = UID_LEN" "\<forall>k<128. ub u k = ub v k"
  shows "u = v"
proof (rule nth_equalityI)
  fix i assume i: "i < length u"
  have "bit (u ! i) j = bit (v ! i) j" if "j < 8" for j
  proof -
    have "8 * i + j < 128" using i that assms(1) by (simp add: UID_LEN_def)
    then have "ub u (8 * i + j) = ub v (8 * i + j)" using assms(3) by blast
    with that show ?thesis by (simp add: ub_def)
  qed
  then show "u ! i = v ! i" by (simp add: word8_eq_iff)
qed (use assms in simp)

subsection \<open>What a probe asks\<close>

text \<open>A stack entry of the walk: its prefix has no bit set past its length.\<close>

definition entry_ok :: "u8 \<times> uid \<Rightarrow> bool" where
  "entry_ok e \<longleftrightarrow> unat (fst e) \<le> 128 \<and> length (snd e) = UID_LEN \<and> (\<forall>k<128. unat (fst e) \<le> k \<longrightarrow> \<not> ub (snd e) k)"

definition matching :: "found list \<Rightarrow> u8 \<times> uid \<Rightarrow> found list" where
  "matching fleet e = filter (\<lambda>f. matches_prefix (fd_uid f) (snd e) (fst e)) fleet"

definition children :: "u8 \<Rightarrow> uid \<Rightarrow> (u8 \<times> uid) list" where
  "children w p = [(w + 1, with_bit p w True), (w + 1, with_bit p w False)]"

lemma probe_builds:
  assumes "unat w \<le> 128" "length p = UID_LEN"
  shows "\<exists>q n. build_mgmt_enum (replicate (2 + UID_LEN) 0) w p = Some (q, n) \<and> take n q = enc_enum (w, p)"
proof -
  have w: "w \<le> MAX_PREFIX_BITS" using assms(1) by (simp add: MAX_PREFIX_BITS_def word_le_nat_alt)
  have "length (enc_enum (w, p)) \<le> 2 + UID_LEN"
    using prefix_bytes_bound [OF w] assms(2) by (simp add: enc_enum_def UID_LEN_def)
  moreover have "build_cap (replicate (2 + UID_LEN) (0 :: u8)) = 2 + UID_LEN"
    by (simp add: build_cap_def UID_LEN_def MAX_PAYLOAD_def)
  ultimately show ?thesis using build_mgmt_enum_law [OF assms(2), of "replicate (2 + UID_LEN) 0" w] w
    by (simp add: put_def)
qed

lemma entry_enum_ok:
  assumes "entry_ok (w, p)"
  shows "enum_ok (w, p)"
proof -
  have w: "w \<le> MAX_PREFIX_BITS" using assms by (simp add: entry_ok_def MAX_PREFIX_BITS_def word_le_nat_alt)
  have "p ! i = 0" if "prefix_bytes w \<le> i" "i < UID_LEN" for i
  proof -
    have "\<not> bit (p ! i) j" if j: "j < 8" for j
    proof -
      have "unat w \<le> 8 * i + j" using \<open>prefix_bytes w \<le> i\<close> by (simp add: prefix_bytes_def) 
      moreover have "8 * i + j < 128" using \<open>i < UID_LEN\<close> j by (simp add: UID_LEN_def)
      ultimately have "\<not> ub p (8 * i + j)" using assms by (auto simp: entry_ok_def)
      with j show ?thesis by (simp add: ub_def)
    qed
    then show ?thesis by (simp add: word8_eq_iff)
  qed
  then have "drop (prefix_bytes w) p = replicate (UID_LEN - prefix_bytes w) 0"
    using assms by (auto simp: entry_ok_def list_eq_iff_nth_eq)
  then show ?thesis using w assms by (simp add: enum_ok_def entry_ok_def)
qed

lemma probe_request:
  assumes "entry_ok (w, p)"
  shows "\<exists>r. mgmt_parse_enum (fb_new (enc_enum (w, p)) []) = Some r \<and> er_prefix_len r = w \<and>
    (\<forall>u. length u = UID_LEN \<longrightarrow> uid_prefix_matches u w (er_prefix r) = Some (matches_prefix u p w))"
proof -
  have "\<exists>r. mgmt_parse_enum (fb_new (enc_enum (w, p)) []) = Some r \<and> (er_prefix_len r, er_prefix r) = (w, p)"
    using c_enum.parse_enc [OF entry_enum_ok [OF assms]] by simp
  moreover have "uid_prefix_matches u w p = Some (matches_prefix u p w)" if "length u = UID_LEN" for u
    using uid_prefix_matches_bits [OF that, of p w] assms
    by (simp add: entry_ok_def matches_prefix_ub ub_def MAX_PREFIX_BITS_def word_le_nat_alt)
  ultimately show ?thesis by auto
qed

text \<open>
  A bus with a fleet on it. An ENUM request is answered by the servos whose UID matches: silence if there is
  none, one clean status with UID and id if there is one. The replies of two or more superpose: the client
  does not see silence, but it may see garble, trailing bytes, or one clean OK status with any UID, that of a
  matching servo included. \<open>I g c\<close> holds of the states of the bus in which the last ENUM request was answered by
  superposed replies that read clean with the UID \<open>g\<close>, if it was so answered. The one thing ruled out is that
  such an accident happens twice in a row with the same UID.
\<close>

definition matchers :: "found list \<Rightarrow> enum_req \<Rightarrow> found list" where
  "matchers fleet r = filter (\<lambda>f. uid_prefix_matches (fd_uid f) (er_prefix_len r) (er_prefix r) = Some True) fleet"

definition clean_uid :: "reply \<Rightarrow> uid option" where
  "clean_uid rp =
     (case rp_statuses rp of
        [s] \<Rightarrow> if rp_garble rp = 0 \<and> \<not> rp_trailing rp \<and> st_result s = Some RcOk \<and> length (st_payload s) = UID_LEN
               then Some (st_payload s) else None
      | _ \<Rightarrow> None)"

definition superposed :: "found list \<Rightarrow> enum_req \<Rightarrow> reply \<Rightarrow> uid option" where
  "superposed fleet r rp = (if 2 \<le> length (matchers fleet r) then clean_uid rp else None)"

definition enum_replies :: "found list \<Rightarrow> uid option \<Rightarrow> enum_req \<Rightarrow> reply \<Rightarrow> bool" where
  "enum_replies fleet g r rp \<longleftrightarrow>
     (let quiet = (rp_garble rp = 0 \<and> \<not> rp_trailing rp)
      in case matchers fleet r of
           [] \<Rightarrow> rp_statuses rp = [] \<and> quiet
         | [f] \<Rightarrow> quiet \<and> (\<exists>s. rp_statuses rp = [s] \<and> st_result s = Some RcOk \<and> st_payload s = fd_uid f \<and> st_id s = fd_id f)
         | _ \<Rightarrow> (rp_statuses rp \<noteq> [] \<or> \<not> quiet) \<and> (\<forall>u. clean_uid rp = Some u \<longrightarrow> g \<noteq> Some u))"

definition fleet_bus :: "'c bus_ops \<Rightarrow> (uid option \<Rightarrow> 'c \<Rightarrow> bool) \<Rightarrow> found list \<Rightarrow> bool" where
  "fleet_bus B I fleet \<longleftrightarrow>
     distinct (map fd_uid fleet) \<and> (\<forall>f\<in>set fleet. length (fd_uid f) = UID_LEN) \<and>
     (\<forall>g c n. I g c \<longrightarrow> I g (bo_pause B n c)) \<and>
     (\<forall>g c payload r. I g c \<longrightarrow> mgmt_parse_enum (fb_new payload []) = Some r \<longrightarrow>
        (\<exists>rp c'. bo_exchange B Id_BROADCAST (inst_instruction OpMgmt 0) payload c = Some (Inr rp, c') \<and>
           I (superposed fleet r rp) c' \<and> enum_replies fleet g r rp))"

text \<open>What a probe reports, and the accident it leaves behind.\<close>

definition sees :: "found list \<Rightarrow> uid option \<Rightarrow> u8 \<times> uid \<Rightarrow> verdict \<Rightarrow> bool" where
  "sees fleet g e v =
     (case matching fleet e of
        [] \<Rightarrow> v = VdEmpty
      | [f] \<Rightarrow> v = VdCandidate f
      | ms \<Rightarrow> v \<noteq> VdEmpty \<and> (\<forall>f. v = VdCandidate f \<longrightarrow> g \<noteq> Some (fd_uid f)))"

definition leaves :: "found list \<Rightarrow> u8 \<times> uid \<Rightarrow> verdict \<Rightarrow> uid option \<Rightarrow> bool" where
  "leaves fleet e v g \<longleftrightarrow> (\<forall>f. 2 \<le> length (matching fleet e) \<longrightarrow> v = VdCandidate f \<longrightarrow> g = Some (fd_uid f))"

lemma probe_verdict_Candidate:
  "probe_verdict w p rp = VdCandidate f \<longleftrightarrow>
     rp_garble rp = 0 \<and> \<not> rp_trailing rp \<and>
     (\<exists>s. rp_statuses rp = [s] \<and> st_result s = Some RcOk \<and> length (st_payload s) = UID_LEN \<and>
        matches_prefix (st_payload s) p w \<and> f = \<lparr> fd_uid = st_payload s, fd_id = st_id s \<rparr>)"
  by (auto simp: probe_verdict_def Let_def split: list.splits if_splits)

lemma probe_verdict_Empty:
  "probe_verdict w p rp = VdEmpty \<longleftrightarrow> rp_statuses rp = [] \<and> rp_garble rp = 0 \<and> \<not> rp_trailing rp"
  by (auto simp: probe_verdict_def Let_def split: list.splits if_splits)

lemma verdict_sees:
  assumes "enum_replies fleet g r rp" "er_prefix_len r = w" "\<forall>f\<in>set fleet. length (fd_uid f) = UID_LEN"
    "\<forall>u. length u = UID_LEN \<longrightarrow> uid_prefix_matches u w (er_prefix r) = Some (matches_prefix u p w)"
  shows "sees fleet g (w, p) (probe_verdict w p rp) \<and> leaves fleet (w, p) (probe_verdict w p rp) (superposed fleet r rp)"
proof -
  have m: "matchers fleet r = matching fleet (w, p)"
    unfolding matching_def matchers_def using assms(2-4) by (intro filter_cong) auto
  have own: "matches_prefix (fd_uid f) p w" "length (fd_uid f) = UID_LEN" if "matching fleet (w, p) = [f]" for f
  proof -
    have "f \<in> set (matching fleet (w, p))" using that by simp
    then show "matches_prefix (fd_uid f) p w" "length (fd_uid f) = UID_LEN" using assms(3) by (auto simp: matching_def)
  qed
  have cu: "clean_uid rp = Some (fd_uid f)" if "probe_verdict w p rp = VdCandidate f" for f
    using that by (auto simp: probe_verdict_Candidate clean_uid_def)
  then have leaves: "leaves fleet (w, p) (probe_verdict w p rp) (superposed fleet r rp)"
    by (simp add: leaves_def superposed_def m)
  consider "matching fleet (w, p) = []" | f where "matching fleet (w, p) = [f]"
    | f g' ms where "matching fleet (w, p) = f # g' # ms" by (metis list.exhaust)
  then have "sees fleet g (w, p) (probe_verdict w p rp)"
  proof cases
    case 1
    then show ?thesis using assms(1) unfolding enum_replies_def m by (simp add: sees_def probe_verdict_Empty)
  next
    case 2
    then show ?thesis using assms(1) own [OF 2] unfolding enum_replies_def m by (auto simp: sees_def probe_verdict_Candidate)
  next
    case 3
    then have "probe_verdict w p rp \<noteq> VdEmpty" "\<forall>u. clean_uid rp = Some u \<longrightarrow> g \<noteq> Some u"
      using assms(1) unfolding enum_replies_def m by (auto simp: probe_verdict_Empty)
    then show ?thesis using 3 cu by (simp add: sees_def)
  qed
  then show ?thesis using leaves by blast
qed

lemma probe_sees:
  assumes "fleet_bus B I fleet" "I g c" "entry_ok (w, p)"
  shows "\<exists>v g' c'. probe B w p c = Some (Inr v, c') \<and> I g' c' \<and> sees fleet g (w, p) v \<and> leaves fleet (w, p) v g'"
proof -
  obtain q n where b: "build_mgmt_enum (replicate (2 + UID_LEN) 0) w p = Some (q, n)" "take n q = enc_enum (w, p)"
    using probe_builds [of w p] assms(3) by (auto simp: entry_ok_def)
  obtain r where r: "mgmt_parse_enum (fb_new (enc_enum (w, p)) []) = Some r" "er_prefix_len r = w"
      "\<forall>u. length u = UID_LEN \<longrightarrow> uid_prefix_matches u w (er_prefix r) = Some (matches_prefix u p w)"
    using probe_request [OF assms(3)] by blast
  obtain rp c' where x: "bo_exchange B Id_BROADCAST (inst_instruction OpMgmt 0) (enc_enum (w, p)) c = Some (Inr rp, c')"
      "I (superposed fleet r rp) c'" "enum_replies fleet g r rp"
    using assms(1,2) r(1) unfolding fleet_bus_def by blast
  have "sees fleet g (w, p) (probe_verdict w p rp)" "leaves fleet (w, p) (probe_verdict w p rp) (superposed fleet r rp)"
    using verdict_sees [OF x(3) r(2) _ r(3)] assms(1) by (simp_all add: fleet_bus_def)
  moreover have "I (superposed fleet r rp) (bo_pause B PROBE_SETTLE c')" using assms(1) x(2) by (simp add: fleet_bus_def)
  ultimately show ?thesis using x(1,2) unfolding probe_def b by (cases "probe_verdict w p rp = VdCollision") (auto simp: b(2) cthen_def creturn_def Let_def)
qed

lemma sees_Empty: "sees fleet g e VdEmpty \<longleftrightarrow> matching fleet e = []"
  by (auto simp: sees_def split: list.splits)

lemma probe_again_sees:
  assumes "fleet_bus B I fleet" "I g c" "entry_ok (w, p)" "sees fleet h (w, p) v" "leaves fleet (w, p) v g"
  shows "\<exists>v' g' c'. probe_again B w p k v c = Some (Inr v', c') \<and> I g' c' \<and> sees fleet h (w, p) v' \<and> leaves fleet (w, p) v' g'"
  using assms(2,4,5)
proof (induction k arbitrary: v c g)
  case (Suc k)
  show ?case
  proof (cases "v = VdEmpty")
    case True
    have "I g (bo_pause B PROBE_SETTLE c)" using assms(1) Suc.prems(1) by (simp add: fleet_bus_def)
    from probe_sees [OF assms(1) this assms(3)] obtain u g' d where u: "probe B w p (bo_pause B PROBE_SETTLE c) = Some (Inr u, d)"
      "I g' d" "sees fleet g (w, p) u" "leaves fleet (w, p) u g'" by blast
    moreover have "matching fleet (w, p) = []" using Suc.prems(2) True by (simp add: sees_Empty)
    ultimately have "sees fleet h (w, p) u" by (simp add: sees_def)
    from Suc.IH [OF u(2) this u(4)] show ?thesis using True by (simp add: cthen_def u(1))
  qed (use Suc.prems in \<open>auto simp: creturn_def\<close>)
qed (auto simp: creturn_def)

lemma probe_settled_sees:
  assumes "fleet_bus B I fleet" "I g c" "entry_ok (w, p)"
  shows "\<exists>v g' c'. probe_settled B w p c = Some (Inr v, c') \<and> I g' c' \<and> sees fleet g (w, p) v \<and> leaves fleet (w, p) v g'"
proof -
  obtain v g' d where v: "probe B w p c = Some (Inr v, d)" "I g' d" "sees fleet g (w, p) v" "leaves fleet (w, p) v g'"
    using probe_sees [OF assms] by blast
  from probe_again_sees [OF assms(1) v(2) assms(3) v(3,4), of EMPTY_RETRIES] show ?thesis
    by (simp add: probe_settled_def cthen_def v(1))
qed

subsection \<open>The walk\<close>

definition stack_found :: "found list \<Rightarrow> (u8 \<times> uid) list \<Rightarrow> found multiset" where
  "stack_found fleet stack = sum_list (map (\<lambda>e. mset (matching fleet e)) stack)"

definition stack_size :: "(u8 \<times> uid) list \<Rightarrow> nat" where
  "stack_size stack = sum_list (map (\<lambda>e. 3 ^ (128 - unat (fst e))) stack)"

lemma full_iff: "w = UID_FULL \<longleftrightarrow> unat w = 128"
proof
  assume "unat w = 128"
  then have "unat w = unat UID_FULL" by (simp add: UID_FULL_def)
  then show "w = UID_FULL" by (rule unsigned_word_eqI)
qed (simp add: UID_FULL_def)

lemma succ_len: "unat w < 128 \<Longrightarrow> unat (w + 1 :: u8) = Suc (unat w)"
  using unat_add_lem [of w 1] by simp

lemma child_ok:
  assumes "entry_ok (w, p)" "unat w < 128"
  shows "entry_ok (w + 1, with_bit p w v)"
  using assms by (auto simp: entry_ok_def succ_len ub_with_bit)

lemma child_matches:
  assumes "entry_ok (w, p)" "unat w < 128"
  shows "matches_prefix u (with_bit p w v) (w + 1) \<longleftrightarrow> matches_prefix u p w \<and> uid_bit u w = v"
  using assms by (auto simp: entry_ok_def matches_prefix_ub succ_len ub_with_bit uid_bit_ub less_Suc_eq)

lemma matching_children:
  assumes "entry_ok (w, p)" "unat w < 128"
  shows "mset (matching fleet (w, p)) = stack_found fleet (children w p)"
  using assms by (induction fleet) (auto simp: matching_def stack_found_def children_def child_matches)

lemma children_smaller:
  assumes "unat w < 128"
  shows "stack_size (children w p @ rest) < stack_size ((w, p) # rest)"
proof -
  have "128 - unat w = Suc (128 - Suc (unat w))" using assms by simp
  then show ?thesis using assms by (simp add: stack_size_def children_def succ_len)
qed


lemma full_at_most_one:
  assumes "fleet_bus B I fleet" "entry_ok (w, p)" "unat w = 128"
  shows "matching fleet (w, p) \<noteq> f # g # ms"
proof
  assume m: "matching fleet (w, p) = f # g # ms"
  have "f \<in> set (matching fleet (w, p))" "g \<in> set (matching fleet (w, p))" using m by simp_all
  then have fg: "length (fd_uid f) = UID_LEN" "length (fd_uid g) = UID_LEN" "\<forall>k<128. ub (fd_uid f) k = ub (fd_uid g) k"
    using assms by (auto simp: matching_def fleet_bus_def matches_prefix_ub)
  have "distinct (map fd_uid (matching fleet (w, p)))" using assms(1) by (simp add: fleet_bus_def matching_def distinct_map_filter)
  then have "fd_uid f \<noteq> fd_uid g" unfolding m by simp
  with uid_eq_bits [OF fg] show False by simp
qed

text \<open>A confirmed candidate is alone: a sibling would answer its own probe, and twins in the candidate's own half
  would have to read as the same clean frame twice in a row.\<close>

lemma candidate_confirmed:
  assumes "entry_ok (w, p)" "unat w < 128" "sees fleet g (w, p) (VdCandidate node)" "leaves fleet (w, p) (VdCandidate node) h"
    and "b = uid_bit (fd_uid node) w" "sees fleet h (w + 1, with_bit p w b) (VdCandidate n2)" "fd_uid n2 = fd_uid node"
    and "sees fleet k (w + 1, with_bit p w (\<not> b)) VdEmpty"
  shows "matching fleet (w, p) = [n2]"
proof -
  have sib: "matching fleet (w + 1, with_bit p w (\<not> b)) = []" using assms(8) by (simp add: sees_Empty)
  have own: "matching fleet (w + 1, with_bit p w b) = filter (\<lambda>f. uid_bit (fd_uid f) w = b) (matching fleet (w, p))"
    using child_matches [OF assms(1,2)] by (simp add: matching_def conj_commute)
  have "uid_bit (fd_uid m) w = b" if "m \<in> set (matching fleet (w, p))" for m
    using sib that child_matches [OF assms(1,2)] by (auto simp: matching_def filter_empty_conv)
  then have same: "matching fleet (w + 1, with_bit p w b) = matching fleet (w, p)" unfolding own by (intro filter_True) blast
  have "matching fleet (w, p) \<noteq> x # y # ms" for x y ms
  proof
    assume m: "matching fleet (w, p) = x # y # ms"
    then have "h = Some (fd_uid node)" using assms(4) by (simp add: leaves_def)
    then show False using assms(6,7) same m by (simp add: sees_def)
  qed
  moreover have "matching fleet (w, p) \<noteq> []" using assms(3) by (auto simp: sees_def)
  ultimately obtain f where f: "matching fleet (w, p) = [f]" by (metis list.exhaust)
  then show ?thesis using same assms(6) by (simp add: sees_def)
qed

lemma walk_entry_finds:
  assumes "fleet_bus B I fleet" "I g c" "entry_ok (w, p)"
  shows "\<exists>new push g' c'. walk_entry B found w p c = Some (Inr (found @ new, push), c') \<and> I g' c' \<and>
    mset (matching fleet (w, p)) = mset new + stack_found fleet push \<and> (push = [] \<or> unat w < 128 \<and> push = children w p)"
proof -
  note split = matching_children [OF assms(3)]
  have le: "unat w \<le> 128" using assms(3) by (simp add: entry_ok_def)
  obtain v g1 c1 where v: "probe_settled B w p c = Some (Inr v, c1)" "I g1 c1" "sees fleet g (w, p) v" "leaves fleet (w, p) v g1"
    using probe_settled_sees [OF assms] by blast
  show ?thesis
  proof (cases v)
    case VdEmpty
    then have "matching fleet (w, p) = []" using v(3) by (simp add: sees_Empty)
    then show ?thesis using v(2) VdEmpty by (auto simp: walk_entry_def cthen_def v(1) creturn_def stack_found_def)
  next
    case VdCollision
    have "unat w < 128"
    proof (rule ccontr)
      assume "\<not> unat w < 128"
      then have "unat w = 128" using le by simp
      then show False using full_at_most_one [OF assms(1,3)] v(3) VdCollision by (auto simp: sees_def split: list.splits)
    qed
    then show ?thesis using v(2) VdCollision split
      by (auto simp: walk_entry_def cthen_def v(1) creturn_def full_iff children_def)
  next
    case (VdCandidate node)
    show ?thesis
    proof (cases "unat w < 128")
      case False
      then have "unat w = 128" using le by simp
      moreover from this have "matching fleet (w, p) = [node]"
        using full_at_most_one [OF assms(1,3)] v(3) VdCandidate by (auto simp: sees_def split: list.splits)
      ultimately show ?thesis
        using v(2) VdCandidate by (auto simp: walk_entry_def cthen_def v(1) creturn_def full_iff stack_found_def)
    next
      case True
      define b where "b = uid_bit (fd_uid node) w"
      obtain own g2 c2 where o: "probe_settled B (w + 1) (with_bit p w b) c1 = Some (Inr own, c2)" "I g2 c2"
          "sees fleet g1 (w + 1, with_bit p w b) own"
        using probe_settled_sees [OF assms(1) v(2) child_ok [OF assms(3) True]] by blast
      obtain sib g3 c3 where s: "probe_settled B (w + 1) (with_bit p w (\<not> b)) c2 = Some (Inr sib, c3)" "I g3 c3"
          "sees fleet g2 (w + 1, with_bit p w (\<not> b)) sib"
        using probe_settled_sees [OF assms(1) o(2) child_ok [OF assms(3) True]] by blast
      have run: "walk_entry B found w p c =
          (case own of
             VdCandidate n2 \<Rightarrow>
               if sib = VdEmpty \<and> fd_uid n2 = fd_uid node then Some (Inr (found @ [n2], []), c3) else Some (Inr (found, children w p), c3)
           | _ \<Rightarrow> Some (Inr (found, children w p), c3))"
        using True by (simp add: walk_entry_def cthen_def v(1) VdCandidate full_iff b_def [symmetric] Let_def o(1) s(1) creturn_def
            children_def split: verdict.split)
      show ?thesis
      proof (cases "\<exists>n2. own = VdCandidate n2 \<and> sib = VdEmpty \<and> fd_uid n2 = fd_uid node")
        case True
        then obtain n2 where n2: "own = VdCandidate n2" "sib = VdEmpty" "fd_uid n2 = fd_uid node" by blast
        have "matching fleet (w, p) = [n2]"
          using candidate_confirmed [OF assms(3) \<open>unat w < 128\<close> _ _ b_def _ n2(3)] v(3,4) o(3) s(3) n2(1,2) VdCandidate by blast
        then show ?thesis using s(2) n2 unfolding run by (auto simp: stack_found_def)
      next
        case False
        then have "walk_entry B found w p c = Some (Inr (found @ [], children w p), c3)"
          unfolding run by (auto split: verdict.split)
        then show ?thesis using s(2) split [OF \<open>unat w < 128\<close>] \<open>unat w < 128\<close> by force
      qed
    qed
  qed
qed

lemma stack_size_rest: "stack_size rest < stack_size (e # rest)"
  by (simp add: stack_size_def)

lemma walk_loop_finds:
  assumes "fleet_bus B I fleet"
  shows "\<forall>e\<in>set stack. entry_ok e \<Longrightarrow> I g c \<Longrightarrow>
    \<exists>new g' c'. walk_loop B found stack c = Some (Inr (found @ new), c') \<and> I g' c' \<and> mset new = stack_found fleet stack"
proof (induction "stack_size stack" arbitrary: stack found g c rule: less_induct)
  case less
  show ?case
  proof (cases stack)
    case Nil
    then show ?thesis using less.prems(2) by (subst walk_loop.simps) (auto simp: stack_found_def)
  next
    case (Cons e rest)
    obtain w p where e: "e = (w, p)" by (cases e)
    have ok: "entry_ok (w, p)" using less.prems(1) Cons e by simp
    obtain new push g1 d where x: "walk_entry B found w p c = Some (Inr (found @ new, push), d)" "I g1 d"
        "mset (matching fleet (w, p)) = mset new + stack_found fleet push" "push = [] \<or> unat w < 128 \<and> push = children w p"
      using walk_entry_finds [OF assms less.prems(2) ok] by blast
    have "stack_size (push @ rest) < stack_size stack"
      using x(4) children_smaller [of w p rest] stack_size_rest [of rest e] unfolding Cons e by auto
    moreover have "\<forall>e\<in>set (push @ rest). entry_ok e"
      using x(4) less.prems(1) child_ok [OF ok] Cons by (auto simp: children_def)
    ultimately obtain more g' c' where y: "walk_loop B (found @ new) (push @ rest) d = Some (Inr ((found @ new) @ more), c')" "I g' c'"
        "mset more = stack_found fleet (push @ rest)"
      using less.hyps [of "push @ rest" g1 d "found @ new"] x(2) by blast
    have "walk_loop B found stack c = Some (Inr (found @ new @ more), c')"
      unfolding Cons e by (subst walk_loop.simps) (simp add: x(1) y(1) [simplified])
    then show ?thesis using y(2,3) x(3) unfolding Cons e
      by (auto simp: stack_found_def intro!: exI [of _ "new @ more"])
  qed
qed


lemma root_entry: "entry_ok (0, replicate UID_LEN 0)" "matching fleet (0, replicate UID_LEN 0) = fleet"
proof -
  have "\<not> ub (replicate UID_LEN 0) k" if "k < 128" for k
  proof -
    have "k div 8 < UID_LEN" using that by (simp add: UID_LEN_def)
    then show ?thesis by (simp add: ub_def)
  qed
  then show "entry_ok (0, replicate UID_LEN 0)" by (simp add: entry_ok_def)
qed (simp add: matching_def matches_prefix_ub)

lemma roster_unique:
  assumes "distinct (map fd_uid fleet)" "mset found = mset fleet"
  shows "sort_key fd_uid found = sort_key fd_uid fleet"
proof -
  have fl: "set found = set fleet" "mset (map fd_uid found) = mset (map fd_uid fleet)"
    using assms(2) by (metis mset_eq_setD) (simp add: assms(2))
  then have d: "distinct (map fd_uid found)" using assms(1) by (metis distinct_count_atmost_1 set_mset_mset)
  have "inj_on fd_uid (set fleet)" using assms(1) by (simp add: distinct_map)
  moreover have "distinct (map fd_uid (sort_key fd_uid found))" "distinct (map fd_uid (sort_key fd_uid fleet))"
    using d assms(1) by (simp_all add: distinct_map)
  ultimately show ?thesis
    using map_sorted_distinct_set_unique [of fd_uid "sort_key fd_uid found" "sort_key fd_uid fleet"] fl(1) by simp
qed

lemma uid_walk_finds:
  assumes "fleet_bus B I fleet" "I g c"
  shows "\<exists>g' c'. uid_walk B c = Some (Inr (sort_key fd_uid fleet), c') \<and> I g' c'"
proof -
  obtain new g' c' where n: "walk_loop B [] [(0, replicate UID_LEN 0)] c = Some (Inr new, c')" "I g' c'"
      "mset new = mset fleet"
    using walk_loop_finds [OF assms(1), of "[(0, replicate UID_LEN 0)]" g c "[]"] assms(2) root_entry
    by (auto simp: stack_found_def)
  have "distinct (map fd_uid fleet)" using assms(1) by (simp add: fleet_bus_def)
  from roster_unique [OF this n(3)] show ?thesis using n(2) by (auto simp: uid_walk_def cthen_def n(1) creturn_def)
qed


text \<open>A bus on which superposed replies garble, or read as the dominant servo verbatim when \<open>clean\<close> says so of the
  number of the request.\<close>

definition sim_reply :: "bool \<Rightarrow> found list \<Rightarrow> reply" where
  "sim_reply clean ms =
     \<lparr> rp_statuses = (if length ms = 1 \<or> clean \<and> ms \<noteq> []
         then [\<lparr> st_slot = 0, st_id = fd_id (hd ms), st_result = Some RcOk, st_alert = False, st_payload = fd_uid (hd ms) \<rparr>] else []),
       rp_outcome = OcComplete, rp_tick = 0, rp_garble = (if 1 < length ms \<and> \<not> clean then 9 else 0), rp_trailing = False \<rparr>"

definition sim_bus :: "(nat \<Rightarrow> bool) \<Rightarrow> found list \<Rightarrow> nat bus_ops" where
  "sim_bus clean fleet =
     \<lparr> bo_exchange = \<lambda>i inst payload c.
         Some (case mgmt_parse_enum (fb_new payload []) of
                 None \<Rightarrow> Inl (CeLink (LeRejected RrBadPayload))
               | Some r \<Rightarrow> Inr (sim_reply (clean c) (matchers fleet r)),
               Suc c),
       bo_pause = \<lambda>n c. c \<rparr>"

lemma sim_reply_ok:
  assumes "\<forall>f\<in>set fleet. length (fd_uid f) = UID_LEN" "g \<noteq> None \<longrightarrow> \<not> clean"
  shows "enum_replies fleet g r (sim_reply clean (matchers fleet r)) \<and>
    (superposed fleet r (sim_reply clean (matchers fleet r)) \<noteq> None \<longrightarrow> clean)"
  using assms(2)
  by (auto simp: enum_replies_def sim_reply_def clean_uid_def superposed_def split: list.splits if_splits)

lemma sim_bus_fleet:
  assumes "distinct (map fd_uid fleet)" "\<forall>f\<in>set fleet. length (fd_uid f) = UID_LEN" "\<forall>c. clean c \<longrightarrow> \<not> clean (Suc c)"
  shows "fleet_bus (sim_bus clean fleet) (\<lambda>g c. g \<noteq> None \<longrightarrow> \<not> clean c) fleet"
proof -
  have "enum_replies fleet g r (sim_reply (clean c) (matchers fleet r)) \<and>
      (superposed fleet r (sim_reply (clean c) (matchers fleet r)) \<noteq> None \<longrightarrow> \<not> clean (Suc c))"
    if "g \<noteq> None \<longrightarrow> \<not> clean c" for g r c
    using sim_reply_ok [OF assms(2) that, of r] assms(3) by blast
  then show ?thesis using assms(1,2) by (simp add: fleet_bus_def sim_bus_def)
qed

definition demo_fleet :: "found list" where
  "demo_fleet = [\<lparr> fd_uid = 0xA6 # replicate 15 3, fd_id = 7 \<rparr>, \<lparr> fd_uid = 0x26 # replicate 15 3, fd_id = 2 \<rparr>, \<lparr> fd_uid = replicate 16 0, fd_id = 5 \<rparr>]"


text \<open>The condition is needed: on a bus where the replies of several servos always read as the dominant one verbatim,
  a fleet that agrees in the first UID bit is discovered as that one servo, and both walks agree on it.\<close>

lemma dominant_probe:
  assumes "\<forall>f\<in>set fleet. length (fd_uid f) = UID_LEN" "entry_ok (w, p)"
  shows "probe (sim_bus (\<lambda>c. True) fleet) w p c =
    Some (Inr (case matching fleet (w, p) of [] \<Rightarrow> VdEmpty | f # _ \<Rightarrow> VdCandidate f), Suc c)"
proof -
  obtain q n where b: "build_mgmt_enum (replicate (2 + UID_LEN) 0) w p = Some (q, n)" "take n q = enc_enum (w, p)"
    using probe_builds [of w p] assms(2) by (auto simp: entry_ok_def)
  obtain r where r: "mgmt_parse_enum (fb_new (enc_enum (w, p)) []) = Some r" "er_prefix_len r = w"
      "\<forall>u. length u = UID_LEN \<longrightarrow> uid_prefix_matches u w (er_prefix r) = Some (matches_prefix u p w)"
    using probe_request [OF assms(2)] by blast
  have m: "matchers fleet r = matching fleet (w, p)"
    unfolding matching_def matchers_def using assms(1) r(2,3) by (intro filter_cong) auto
  have "\<forall>f\<in>set (matching fleet (w, p)). length (fd_uid f) = UID_LEN \<and> matches_prefix (fd_uid f) p w"
    using assms(1) by (simp add: matching_def)
  then have "probe_verdict w p (sim_reply True (matching fleet (w, p))) = (case matching fleet (w, p) of [] \<Rightarrow> VdEmpty | f # _ \<Rightarrow> VdCandidate f)"
    by (auto simp: probe_verdict_Empty probe_verdict_Candidate sim_reply_def split: list.split)
  then show ?thesis unfolding probe_def b
    by (simp add: b(2) cthen_def sim_bus_def r(1) m creturn_def Let_def split: list.split)
qed

lemma dominant_settled:
  assumes "\<forall>f\<in>set fleet. length (fd_uid f) = UID_LEN" "entry_ok (w, p)"
  shows "\<exists>c'. probe_settled (sim_bus (\<lambda>c. True) fleet) w p c =
    Some (Inr (case matching fleet (w, p) of [] \<Rightarrow> VdEmpty | f # _ \<Rightarrow> VdCandidate f), c')"
proof -
  define v where "v = (case matching fleet (w, p) of [] \<Rightarrow> VdEmpty | f # _ \<Rightarrow> VdCandidate f)"
  note pr = dominant_probe [OF assms, folded v_def]
  have "\<exists>c'. probe_again (sim_bus (\<lambda>c. True) fleet) w p k v c = Some (Inr v, c')" for k c
    by (induction k arbitrary: c) (auto simp: creturn_def cthen_def pr)
  then show ?thesis by (simp add: probe_settled_def cthen_def pr v_def [symmetric])
qed

theorem repeated_unison_loses_servos:
  assumes "fleet = f # rest" "\<forall>x\<in>set fleet. length (fd_uid x) = UID_LEN \<and> uid_bit (fd_uid x) 0 = uid_bit (fd_uid f) 0"
  shows "\<exists>c'. discover (sim_bus (\<lambda>c. True) fleet) c = Some (Inr [f], c')"
proof -
  let ?B = "sim_bus (\<lambda>c. True) fleet"
  let ?p = "replicate UID_LEN 0 :: uid"
  define b where "b = uid_bit (fd_uid f) 0"
  have len: "\<forall>x\<in>set fleet. length (fd_uid x) = UID_LEN" using assms(2) by blast
  note root = root_entry(1)
  have z: "unat (0 :: u8) < 128" by simp
  have ok: "entry_ok (0 + 1, with_bit ?p 0 v)" for v by (rule child_ok [OF root z])
  have own: "matching fleet (0 + 1, with_bit ?p 0 b) = fleet" and sib: "matching fleet (0 + 1, with_bit ?p 0 (\<not> b)) = []"
    using assms(2) root_entry(2) [of fleet] child_matches [OF root z] by (auto simp: matching_def filter_id_conv filter_empty_conv b_def)
  have entry: "\<exists>c'. walk_entry ?B [] 0 ?p c = Some (Inr ([f], []), c')" for c
  proof -
    obtain c1 where 1: "probe_settled ?B 0 ?p c = Some (Inr (VdCandidate f), c1)"
      using dominant_settled [OF len root, of c] by (auto simp: root_entry(2) assms(1))
    obtain c2 where 2: "probe_settled ?B (0 + 1) (with_bit ?p 0 b) c1 = Some (Inr (VdCandidate f), c2)"
      using dominant_settled [OF len ok, of b c1] unfolding own by (auto simp: assms(1))
    obtain c3 where 3: "probe_settled ?B (0 + 1) (with_bit ?p 0 (\<not> b)) c2 = Some (Inr VdEmpty, c3)"
      using dominant_settled [OF len ok, of "\<not> b" c2] unfolding sib by auto
    show ?thesis using 2 3 by (simp add: walk_entry_def cthen_def 1 b_def [symmetric] Let_def creturn_def UID_FULL_def)
  qed
  have walk: "\<exists>c'. uid_walk ?B c = Some (Inr [f], c')" for c
  proof -
    obtain c1 where "walk_entry ?B [] 0 ?p c = Some (Inr ([f], []), c1)" using entry by blast
    then have "walk_loop ?B [] [(0, ?p)] c = Some (Inr [f], c1)"
      by (subst walk_loop.simps) (simp, subst walk_loop.simps, simp)
    then show ?thesis by (simp add: uid_walk_def cthen_def creturn_def)
  qed
  obtain c1 where a: "uid_walk ?B c = Some (Inr [f], c1)" using walk by blast
  obtain c2 where b: "uid_walk ?B (bo_pause ?B (4 * PROBE_SETTLE) c1) = Some (Inr [f], c2)" using walk by blast
  obtain n where n: "WALKS_CAP - 1 = Suc n" by (simp add: WALKS_CAP_def)
  show ?thesis using b unfolding discover_def n by (auto simp: cthen_def a creturn_def)
qed

subsection \<open>Termination\<close>

definition bus_returns :: "'c bus_ops \<Rightarrow> bool" where
  "bus_returns B \<longleftrightarrow> (\<forall>payload c. bo_exchange B Id_BROADCAST (inst_instruction OpMgmt 0) payload c \<noteq> None)"

definition returns :: "('c, 'a) client_prog \<Rightarrow> bool" where
  "returns m \<longleftrightarrow> (\<forall>c. m c \<noteq> None)"

lemma returns_cthen [intro]:
  assumes "returns m" "\<And>x. returns (f x)"
  shows "returns (cthen m f)"
  unfolding returns_def
proof
  fix c
  obtain r d where "m c = Some (r, d)" using assms(1) unfolding returns_def by (metis not_None_eq surj_pair)
  then show "cthen m f c \<noteq> None" using assms(2) by (auto simp: cthen_def returns_def split: sum.split)
qed

lemma returns_creturn [simp]: "returns (creturn x)"
  by (simp add: returns_def creturn_def)


lemma returns_after: "returns m \<Longrightarrow> returns (\<lambda>c. m (g c))"
  by (simp add: returns_def)

lemma returns_Some [simp]: "returns (\<lambda>c. Some (f c))"
  by (simp add: returns_def)

lemma probe_returns:
  assumes "bus_returns B" "unat w \<le> 128" "length p = UID_LEN"
  shows "returns (probe B w p)"
proof -
  obtain q n where b: "build_mgmt_enum (replicate (2 + UID_LEN) 0) w p = Some (q, n)"
    using probe_builds [OF assms(2,3)] by blast
  have "returns (bo_exchange B Id_BROADCAST (inst_instruction OpMgmt 0) payload)" for payload
    using assms(1) by (simp add: bus_returns_def returns_def)
  then show ?thesis unfolding probe_def b by (auto simp: Let_def creturn_def)
qed

lemma probe_settled_returns:
  assumes "bus_returns B" "unat w \<le> 128" "length p = UID_LEN"
  shows "returns (probe_settled B w p)"
proof -
  note pr = probe_returns [OF assms]
  have "returns (probe_again B w p k v)" for k v
    by (induction k arbitrary: v) (simp_all add: returns_after [OF returns_cthen] pr)
  then show ?thesis unfolding probe_settled_def using pr by blast
qed

lemma leaf_retry_returns:
  assumes "bus_returns B" "unat w \<le> 128" "length p = UID_LEN"
  shows "returns (leaf_retry B w p k found)"
  by (induction k) (auto intro!: probe_returns assms split: verdict.split)

lemma walk_entry_returns:
  assumes "bus_returns B" "unat w \<le> 128" "length p = UID_LEN"
  shows "returns (walk_entry B found w p)"
proof -
  have leaf: "returns (leaf_retry B w p k f)" for k f by (rule leaf_retry_returns [OF assms])
  have ch: "returns (probe_settled B (w + 1) (with_bit p w b))" if "w \<noteq> UID_FULL" for b
    using assms that by (intro probe_settled_returns) (simp_all add: full_iff succ_len)
  show ?thesis
    unfolding walk_entry_def Let_def
    by (intro returns_cthen probe_settled_returns assms)
      (use leaf in \<open>auto intro!: ch returns_cthen split: verdict.split\<close>)
qed

lemma walk_entry_push:
  assumes "walk_entry B found w p c = Some (Inr (f, push), d)"
  shows "push = [] \<or> w \<noteq> UID_FULL \<and> push = children w p"
  using assms
  by (auto simp: walk_entry_def Let_def creturn_def children_def dest!: cthen_InrD split: verdict.splits if_splits)

lemma walk_loop_returns:
  assumes "bus_returns B"
  shows "\<forall>e\<in>set stack. unat (fst e) \<le> 128 \<and> length (snd e) = UID_LEN \<Longrightarrow> walk_loop B found stack c \<noteq> None"
proof (induction "stack_size stack" arbitrary: stack found c rule: less_induct)
  case less
  show ?case
  proof (cases stack)
    case Nil
    then show ?thesis by (subst walk_loop.simps) simp
  next
    case (Cons e rest)
    obtain w p where e: "e = (w, p)" by (cases e)
    have ok: "unat w \<le> 128" "length p = UID_LEN" using less.prems Cons e by auto
    obtain r d where x: "walk_entry B found w p c = Some (r, d)"
      using walk_entry_returns [OF assms ok, of found] unfolding returns_def by (metis not_None_eq surj_pair)
    have "walk_loop B f (push @ rest) d \<noteq> None" if "r = Inr (f, push)" for f push
    proof (rule less.hyps)
      have push: "push = [] \<or> unat w < 128 \<and> push = children w p"
        using walk_entry_push x ok(1) unfolding that full_iff by (metis le_neq_implies_less)
      then show "stack_size (push @ rest) < stack_size stack"
        using children_smaller [of w p rest] stack_size_rest [of rest e] unfolding Cons e by auto
      show "\<forall>e\<in>set (push @ rest). unat (fst e) \<le> 128 \<and> length (snd e) = UID_LEN"
        using push less.prems ok Cons by (auto simp: children_def succ_len)
    qed
    then show ?thesis unfolding Cons e by (subst walk_loop.simps) (auto simp: x split: sum.split)
  qed
qed

lemma uid_walk_returns:
  assumes "bus_returns B"
  shows "returns (uid_walk B)"
proof -
  have "walk_loop B [] [(0, replicate UID_LEN 0)] c \<noteq> None" for c by (rule walk_loop_returns [OF assms]) simp
  then have "returns (walk_loop B [] [(0, replicate UID_LEN 0)])" by (simp add: returns_def)
  then show ?thesis unfolding uid_walk_def by (rule returns_cthen) simp
qed

text \<open>
  C29. Discovery ends. On any bus whose exchanges return, whatever they answer (noise, phantoms, silence, a
  different answer each time), the walk exhausts its stack of prefixes and \<open>discover\<close> returns: every entry
  it pushes is one bit longer than the one it pops, none exceeds the 128 bits of a UID and no request is
  refused by the builder.
\<close>

theorem discover_terminates:
  assumes "bus_returns B"
  shows "\<exists>r c'. discover B c = Some (r, c')"
proof -
  note w = uid_walk_returns [OF assms]
  have "returns (discover_loop B k prev)" for k prev
    by (induction k arbitrary: prev) (simp_all add: returns_after [OF returns_cthen] w)
  then have "returns (discover B)" unfolding discover_def using w by blast
  then show ?thesis unfolding returns_def by (metis not_None_eq surj_pair)
qed

text \<open>A bus that answers with a phantom half of the time and garbles otherwise.\<close>

definition noise_bus :: "nat bus_ops" where
  "noise_bus =
     \<lparr> bo_exchange = \<lambda>i inst payload c. Some (Inr (if even c then sim_reply False demo_fleet else sim_reply False (take 1 demo_fleet)), Suc c),
       bo_pause = \<lambda>n c. c + n \<rparr>"

theorem discover_terminates_witness: "\<exists>r c. discover noise_bus 0 = Some (r, c)"
  by (rule discover_terminates) (simp add: bus_returns_def noise_bus_def)

end
