(* ===== verification/Spec2Isabelle.thy ===== *)
theory Spec2Isabelle
  imports Osc_Reply Sec_Session Sec_Element Core_Port Bus_Decode Bus_Tx Servo_Hazard Client_Discover
begin

text \<open>
  Verification development of the OpenServoCore secure firmware (\<open>src/firmware/lib\<close> and the flash
  store of \<open>src/firmware/servo-ch32\<close>).

  \<^bold>\<open>The program.\<close> Servos hang on one half-duplex serial wire and answer a host. A frame is a break
  (which rings as a zero byte), id, length, the packed INST byte, payload and CRC-16. The receive DMA
  writes a ring; the transport finds frames in it, decodes them and dispatches them to the control
  table \<^emph>\<open>before\<close> their checksum is known, so the effects are staged and a verdict (checksum and, in a
  secured session, a MAC over the frame) commits or reverts them. Replies are sequenced so that the
  servos one GREAD lists answer one after another. The table's persistent regions are saved to two
  flash slots and overlaid at boot.

  \<^bold>\<open>Theories and sources.\<close>

  \<^item> \<open>Osc_Prelude\<close>: machine integers (\<open>u8\<close>, \<open>u16\<close>, \<open>u32\<close> as words; \<open>usize\<close> as \<^typ>\<open>nat\<close>), checked slices,
    slice update, little-endian conversions.
  \<^item> \<open>Osc_Wire\<close>, \<open>Osc_Crc\<close>, \<open>Osc_Bytes\<close>, \<open>Osc_Frame\<close>, \<open>Osc_Group\<close>, \<open>Osc_Build\<close>, \<open>Osc_Reply\<close>: the crate
    \<open>osc-protocol\<close>, one theory per module (\<open>wire.rs\<close> with \<open>models.rs\<close> and \<open>table.rs\<close>, \<open>crc.rs\<close>,
    \<open>bytes.rs\<close>, \<open>frame.rs\<close>, \<open>group.rs\<close>, \<open>build.rs\<close>, \<open>reply.rs\<close>). They show burst detection of the
    checksum, that every accessor and parser depends on the logical bytes only (the ring seam is
    invisible), that builders and parsers are inverse to each other, and the layout of sealed frames.
  \<^item> \<open>Sec_Mac\<close>, \<open>Sec_Keys\<close>, \<open>Sec_Policy\<close>, \<open>Sec_Session\<close>: the crate \<open>osc-security\<close> (\<open>mac.rs\<close>; \<open>keys.rs\<close>;
    \<open>policy.rs\<close>, \<open>replay.rs\<close>, \<open>trailer.rs\<close>, \<open>stream.rs\<close>; \<open>session.rs\<close>). They show exactly when a frame is
    accepted, that a rejection changes nothing but the failure accounting, the session invariant, the
    lockout and how it can be evaded, the replay that the 8-bit window admits, and the separation of
    the key-derivation messages. The MAC itself is computed (HalfSipHash-2-4); no cryptographic
    assumption is made or used.
  \<^item> \<open>Ct_Stage\<close>, \<open>Ct_Map\<close>, \<open>Ct_Derive\<close>: the crates \<open>control-table\<close> and \<open>control-table-derive\<close>: the
    staging buffer and its snapshots, validation (access mask, enum and compare rules over the table
    with the write laid over it), staged and direct writes, and what the derive macros compute from
    the declared structures.
  \<^item> \<open>Core_Table\<close>, \<open>Core_Regions\<close>, \<open>Core_Persist\<close>, \<open>Core_Dispatch\<close>, \<open>Core_Port\<close>: the crate \<open>core\<close>: the
    table of this servo as declared, its hooks, boot seeding, the persistence codec with the chip's
    flash store (\<open>servo-ch32/src/providers/config_store.rs\<close>), the dispatcher with every request
    handler, and the speculation port: runs of frames with their verdicts, compared with the runs of
    the verified frames alone.
  \<^item> \<open>Bus_Framer\<close>, \<open>Bus_Decode\<close>, \<open>Bus_Chain\<close>, \<open>Bus_Tx\<close>: the crate \<open>drivers\<close>, modules \<open>bus/framer.rs\<close>
    (with the helpers of \<open>bus/mod.rs\<close> and \<open>traits/bus.rs\<close>), \<open>bus/decode.rs\<close>, \<open>bus/chain.rs\<close>, \<open>bus/tx.rs\<close>.
    They show that the resolver recovers the stream of frames from the ring and gives up a dead
    partial after its horizon, that one frame never gives two servos the same reply slot, that group
    writes reach exactly the servos they list, that the servos of a GREAD answer in order and all of
    them, and that the transmit engine sends one well-formed frame with the right checksum.
  \<^item> \<open>Bus_Clock\<close>: \<open>bus/trim.rs\<close> and \<open>bus/clock.rs\<close>, the trim controller, the calibration train and the
    drift tracker. It shows that the controller settles on every oscillator of the accepted band, and
    what a calibration train measures.
  \<^item> \<open>Servo_Bus\<close>, \<open>Servo_Inv\<close>, \<open>Servo_Tot\<close>, \<open>Servo_Gate\<close>, \<open>Servo_Hazard\<close>: the transport composite
    \<open>bus/servo_bus.rs\<close> with \<open>route.rs\<close>, \<open>security.rs\<close>, \<open>crc.rs\<close> and \<open>reply.rs\<close>: the components above in one
    state, driven by the break, deadline, transmit-complete and rescue entries over a ring, a clock and
    a write cursor that may read anything at any time. \<open>Servo_Inv\<close> holds the invariant of the reply
    pipeline, \<open>Servo_Tot\<close> that no handler ever panics, \<open>Servo_Gate\<close> that checksum and authentication
    together gate every effect (the composite refines the verdict port of \<open>Core_Port\<close>), and
    \<open>Servo_Hazard\<close> two undocumented behaviours of the security pipeline.
  \<^item> \<open>Host_Framer\<close>, \<open>Host_Shape\<close>, \<open>Host_Bus\<close>, \<open>Host_Own\<close>, \<open>Host_Exchange\<close>: the crate \<open>osc-host\<close>, module \<open>engine\<close>
    (\<open>framer.rs\<close>; \<open>shape.rs\<close>; \<open>mod.rs\<close> with \<open>wireop.rs\<close>). They show that the ring walk is exact on any bytes,
    that the plan of an admitted exchange is what the servos' decoder does with it, that no COMMIT the
    engine admits passes an authenticating servo, that the engine keeps its contract (one owner at a
    time and one closing event each), and that an exchange runs to its end: frame out, replies in slot
    order, terminal.
  \<^item> \<open>Host_Record\<close>, \<open>Host_Link\<close>, \<open>Host_Answer\<close>: module \<open>link\<close> of that crate (\<open>record.rs\<close>; \<open>server.rs\<close>), the
    record protocol between adapter and client. They show that every request gets exactly one answer
    and that the chunking of the pipe carries no meaning.
  \<^item> \<open>Client_Session\<close>, \<open>Client_Edges\<close>, \<open>Client_Link\<close>, \<open>Client_Call\<close>, \<open>Client_Mgmt\<close>, \<open>Client_Discover\<close>: the PC side
    (\<open>client/src\<close>: \<open>session.rs\<close>; \<open>unwrap_drain\<close> of \<open>wire.rs\<close>; \<open>client.rs\<close>, \<open>pipe.rs\<close>, \<open>error.rs\<close> and the rest of
    \<open>wire.rs\<close>; \<open>common.rs\<close> and \<open>cyclic.rs\<close>; \<open>mgmt.rs\<close>). They show that records and requests survive the pipe
    in both directions and arrive as the engine call the client named, that a command returns what the
    adapter answered, that edge drains rebuild the wire's timeline across counter wraps, that a cyclic step
    can leave held writes behind, and that discovery ends on any bus and finds the whole fleet on a bus
    that answers ENUM as the servos' prefix match says.

  \<^bold>\<open>Interfaces.\<close> Contracts between components are locales, each interpreted on the model's own
  definitions: \<open>byte_view\<close> (a frame's bytes as the parsers see them), \<open>streaming\<close> (incremental digests:
  the checksum and the MAC), \<open>entry_iter\<close> and \<open>payload_codec\<close> (group iterators; builder and parser),
  \<open>sequence_window\<close> (the replay window), \<open>staging\<close> (transactions on the staging buffer),
  \<open>verdict_port\<close> (dispatch under a later verdict), \<open>crc_engine\<close> and \<open>prompt_crc_engine\<close> (the checksum
  peripheral).

  \<^bold>\<open>Parameters.\<close> Code that is not under \<open>src/\<close> is an argument: the fixed-capacity vector of \<open>heapless\<close>
  (\<open>vec_ops\<close> with \<open>vec_ok\<close>, instance \<open>vec_std\<close>), the flash controller (\<open>flash_ops\<close> with \<open>flash_ok\<close>, instance
  \<open>ram_flash\<close>), the persistence port of the dispatcher (\<open>config_store\<close>), the checksum peripheral
  (\<open>crc_ops\<close>, implemented by the simulator's engine), the edge capture of the adapter (\<open>link_env\<close>), and the
  client's pipe (\<open>pipe_env\<close>); discovery is stated over the two operations it uses (\<open>bus_ops\<close>), which
  \<open>client_ops\<close> provides.

  \<^bold>\<open>Errors, bounds and fuel.\<close> A Rust \<open>Result\<close> is a sum, a panic (slice index) is \<open>None\<close>. Loops are structural
  recursions on lists or on the code's own bounds: the hunt budget of 64 bytes, the 64 polls of the
  checksum, the iterator fuel of group payloads (the payload length, which the iterators cannot
  exceed because every step consumes a byte). The 256 rounds of a fleet cover the 256 possible slots.
  Ticks are \<open>u32\<close> and wrap everywhere. Loops that wait for the outside (the client reading records, the
  prefix walk) are partial functions, and that they return is proved.

  \<^bold>\<open>Not modelled.\<close> The control kernel (no control law is implemented yet), register-level HAL,
  interrupts and USB code of the chip crates, the secure-element trait, logging, bench
  instrumentation, the discrete-event simulator apart from its checksum engine, the JSON exporter, the
  host-PC client and command line, attribute parsing and token generation of the derive macros, and
  the retired \<open>firmware-old\<close> tree. Planned next: the client's session, discovery and edge reassembly, and the secure-element drivers.
\<close>

end
